(* ===== verification/Prelude.thy ===== *)
theory Prelude
  imports Main "HOL-Library.Word" "HOL-Library.Monad_Syntax"
begin

text \<open>
  What every component of the CanDo runtime shares: the width of a \<open>u32\<close>, checked access to
  C arrays, the translation of \<open>CANDO_ASSERT\<close>, the character classes of \<open>ctype.h\<close>, and the
  lemma collections of the development.

  A C function that can fail an assertion (which aborts the process) or touch memory outside its
  allocation is an \<open>option\<close>: \<open>None\<close> stands for that abort. Script level errors are values of the
  components, never \<open>None\<close>.
\<close>

section \<open>Widths\<close>

type_synonym addr = nat

text \<open>\<open>UINT32_MAX\<close>, the index that means "none" in every table of the runtime.\<close>

abbreviation u32_max :: nat where
  "u32_max \<equiv> 4294967295"

text \<open>Reduction of an unsigned result to 32 bits.\<close>

abbreviation u32 :: "nat \<Rightarrow> nat" where
  "u32 n \<equiv> n mod 4294967296"

lemma u32_small: "n < 4294967296 \<Longrightarrow> u32 n = n"
  by simp

lemma u32_pred: "0 < n \<Longrightarrow> n \<le> u32_max \<Longrightarrow> u32 (n + u32_max) = n - 1"
proof -
  assume "0 < n" "n \<le> u32_max"
  then have "n + u32_max = (n - 1) + 4294967296" "n - 1 < 4294967296" by simp_all
  then show ?thesis by (simp only: mod_add_self2 mod_less)
qed

section \<open>Assertions and checked array access\<close>

named_theorems fault_simps \<open>rewriting the abort monad in hypotheses and goals\<close>

definition check :: "bool \<Rightarrow> unit option" where
  "check b = (if b then Some () else None)"

lemma check_simps [simp]: "check True = Some ()" "check False = None"
  by (simp_all add: check_def)

lemma check_eq_Some [simp]: "check b = Some u \<longleftrightarrow> b"
  by (simp add: check_def)

lemma check_bind_Some [fault_simps]:
  "Option.bind (check b) f = Some y \<longleftrightarrow> b \<and> f () = Some y"
  by (cases b) auto

definition aget :: "'a list \<Rightarrow> nat \<Rightarrow> 'a option" where
  "aget xs i = (if i < length xs then Some (xs ! i) else None)"

definition aput :: "'a list \<Rightarrow> nat \<Rightarrow> 'a \<Rightarrow> 'a list option" where
  "aput xs i v = (if i < length xs then Some (xs[i := v]) else None)"

lemma aget_in [simp]: "i < length xs \<Longrightarrow> aget xs i = Some (xs ! i)"
  by (simp add: aget_def)

lemma aget_out [simp]: "\<not> i < length xs \<Longrightarrow> aget xs i = None"
  by (simp add: aget_def)

lemma aget_eq_Some [fault_simps]: "aget xs i = Some v \<longleftrightarrow> i < length xs \<and> v = xs ! i"
  by (auto simp: aget_def)

lemma aput_in [simp]: "i < length xs \<Longrightarrow> aput xs i v = Some (xs[i := v])"
  by (simp add: aput_def)

lemma aput_eq_Some [fault_simps]: "aput xs i v = Some ys \<longleftrightarrow> i < length xs \<and> ys = xs[i := v]"
  by (auto simp: aput_def)

lemmas bind_Some_iff [fault_simps] = Option.bind_eq_Some_conv

text \<open>A \<open>for\<close> loop over the elements of an array, whose body can abort.\<close>

fun mfold :: "('s \<Rightarrow> 'a \<Rightarrow> 's option) \<Rightarrow> 'a list \<Rightarrow> 's \<Rightarrow> 's option" where
  "mfold f [] s = Some s"
| "mfold f (x # xs) s = Option.bind (f s x) (mfold f xs)"

lemma mfold_append: "mfold f (xs @ ys) s = Option.bind (mfold f xs s) (mfold f ys)"
  by (induction xs arbitrary: s) (auto split: Option.bind_split)

section \<open>Character classes (\<open>ctype.h\<close>, "C" locale)\<close>

abbreviation byte_of :: "char \<Rightarrow> nat" where
  "byte_of \<equiv> of_char"

definition c_isdigit :: "char \<Rightarrow> bool" where
  "c_isdigit c \<longleftrightarrow> 48 \<le> byte_of c \<and> byte_of c \<le> 57"

definition c_isupper :: "char \<Rightarrow> bool" where
  "c_isupper c \<longleftrightarrow> 65 \<le> byte_of c \<and> byte_of c \<le> 90"

definition c_islower :: "char \<Rightarrow> bool" where
  "c_islower c \<longleftrightarrow> 97 \<le> byte_of c \<and> byte_of c \<le> 122"

definition c_isalpha :: "char \<Rightarrow> bool" where
  "c_isalpha c \<longleftrightarrow> c_isupper c \<or> c_islower c"

definition c_isalnum :: "char \<Rightarrow> bool" where
  "c_isalnum c \<longleftrightarrow> c_isalpha c \<or> c_isdigit c"

definition c_isspace :: "char \<Rightarrow> bool" where
  "c_isspace c \<longleftrightarrow> byte_of c = 32 \<or> 9 \<le> byte_of c \<and> byte_of c \<le> 13"

definition c_tolower :: "char \<Rightarrow> char" where
  "c_tolower c = (if c_isupper c then char_of (byte_of c + 32) else c)"

definition c_toupper :: "char \<Rightarrow> char" where
  "c_toupper c = (if c_islower c then char_of (byte_of c - 32) else c)"

text \<open>Two characters are equal when their bytes are.\<close>

lemma byte_of_inject [simp]: "byte_of c = byte_of d \<longleftrightarrow> c = d"
  by simp

lemma byte_of_less [simp]: "byte_of c < 256"
  by simp

text \<open>What \<open>strlen\<close> sees of a C string.\<close>

definition c_text :: "string \<Rightarrow> string" where
  "c_text s = takeWhile (\<lambda>c. byte_of c \<noteq> 0) s"

section \<open>Total runs\<close>

text \<open>A computation that does not fault and whose result satisfies a predicate.\<close>

definition tot :: "('a \<Rightarrow> bool) \<Rightarrow> 'a option \<Rightarrow> bool" where
  "tot Q r \<longleftrightarrow> (\<exists>x. r = Some x \<and> Q x)"

named_theorems tot_intros \<open>rules that take a total function apart\<close>

lemma tot_simps [simp]: "tot Q None = False" "tot Q (Some x) = Q x"
  by (simp_all add: tot_def)

lemma tot_Some: "Q x \<Longrightarrow> tot Q (Some x)"
  by simp

lemma tot_bind: "tot P r \<Longrightarrow> (\<And>x. P x \<Longrightarrow> tot Q (f x)) \<Longrightarrow> tot Q (Option.bind r f)"
  by (auto simp: tot_def)

lemma tot_weaken: "tot P r \<Longrightarrow> (\<And>x. P x \<Longrightarrow> Q x) \<Longrightarrow> tot Q r"
  by (auto simp: tot_def)

lemma tot_map: "tot (\<lambda>x. Q (f x)) r \<Longrightarrow> tot Q (map_option f r)"
  by (auto simp: tot_def)

lemma tot_bindI: "tot (\<lambda>x. tot Q (f x)) r \<Longrightarrow> tot Q (Option.bind r f)"
  by (auto simp: tot_def)

lemma tot_let: "tot Q (f x) \<Longrightarrow> tot Q (Let x f)"
  by simp

lemma tot_pair: "tot Q (f a b) \<Longrightarrow> tot Q (case (a, b) of (x, y) \<Rightarrow> f x y)"
  by simp

lemma tot_weaken2: "tot (\<lambda>(a, b). P a b) r \<Longrightarrow> (\<And>a b. P a b \<Longrightarrow> Q (a, b)) \<Longrightarrow> tot Q r"
  by (auto simp: tot_def)

lemma tot_weaken2': "tot (\<lambda>(a, b). P a b \<and> P' a b) r \<Longrightarrow> (\<And>a b. P a b \<Longrightarrow> P' a b \<Longrightarrow> Q (a, b)) \<Longrightarrow> tot Q r"
  by (auto simp: tot_def)

lemma tot_if: "(b \<Longrightarrow> tot Q x) \<Longrightarrow> (\<not> b \<Longrightarrow> tot Q y) \<Longrightarrow> tot Q (if b then x else y)"
  by simp

section \<open>Invariants of step relations\<close>

text \<open>A predicate kept by every step holds in everything reachable from where it holds.\<close>

locale step_invariant =
  fixes step :: "'s \<Rightarrow> 's \<Rightarrow> bool" and I :: "'s \<Rightarrow> bool"
  assumes preserved: "I s \<Longrightarrow> step s s' \<Longrightarrow> I s'"
begin

lemma reachable: "step\<^sup>*\<^sup>* s s' \<Longrightarrow> I s \<Longrightarrow> I s'"
  by (induction rule: rtranclp_induct) (auto intro: preserved)

lemma reachable_first:
  assumes "step\<^sup>*\<^sup>* s s'" "I s" "\<not> P s" "P s'"
  shows "\<exists>u u'. step\<^sup>*\<^sup>* s u \<and> I u \<and> \<not> P u \<and> step u u' \<and> P u'"
  using assms
proof (induction rule: rtranclp_induct)
  case (step y z)
  then show ?case using reachable [of s y] by (cases "P y") blast+
qed simp

end

section \<open>Lists\<close>

text \<open>Counting positions when one of them changes sides.\<close>

lemma card_insert_index:
  assumes "finite A" "h \<notin> A" "B = insert h A"
  shows "card B = Suc (card A)"
  using assms by simp

lemma card_remove_index:
  assumes "finite A" "h \<in> A" "B = A - {h}"
  shows "card B = card A - 1"
  using assms by (simp add: card_Diff_singleton)

text \<open>A sum in which one summand changes.\<close>

lemma sum_change_one:
  fixes f g :: "'a \<Rightarrow> nat"
  assumes "finite T" "t \<in> T" "\<And>u. u \<in> T \<Longrightarrow> u \<noteq> t \<Longrightarrow> g u = f u"
  shows "sum g T + f t = sum f T + g t"
proof -
  have "sum g (T - {t}) = sum f (T - {t})" using assms(3) by (intro sum.cong) auto
  then show ?thesis using assms(1,2) by (simp add: sum.remove [of T t])
qed

end
