(* ===== verification/Handle_Table.thy ===== *)
theory Handle_Table
  imports Prelude
begin

text \<open>
  The handle table (\<open>source/core/handle.c\<close>): the indirection table through which every script
  value refers to its heap object. A slot is live and holds a pointer, or is free and holds the
  index of the next free slot in the same field. The abstract table is a finite map from handles
  to pointers; the lemmas show that every operation refines the map operation of its name and
  keeps the free list well formed.
\<close>

section \<open>State\<close>

record hslot =
  hs_ptr :: nat
  hs_live :: bool
  hs_marked :: bool

record handle_table =
  ht_slots :: "hslot list"
  ht_capacity :: nat
  ht_count :: nat
  ht_free :: nat

section \<open>Operations\<close>

definition slot_next_free :: "hslot \<Rightarrow> nat" where
  "slot_next_free s = u32 (hs_ptr s)"

definition free_slot :: "nat \<Rightarrow> hslot" where
  "free_slot next = \<lparr>hs_ptr = next, hs_live = False, hs_marked = False\<rparr>"

definition cando_handle_table_init :: "nat \<Rightarrow> handle_table" where
  "cando_handle_table_init initial_cap =
     (let cap = (if initial_cap = 0 then 256 else initial_cap)
      in \<lparr>ht_slots = map (\<lambda>i. free_slot (Suc i)) [0..<cap - 1] @ [free_slot u32_max],
          ht_capacity = cap, ht_count = 0, ht_free = 0\<rparr>)"

definition cando_handle_table_destroy :: "handle_table \<Rightarrow> handle_table" where
  "cando_handle_table_destroy t =
     t\<lparr>ht_slots := [], ht_capacity := 0, ht_count := 0, ht_free := u32_max\<rparr>"

text \<open>
  Doubling. When the doubled capacity wraps to 0 the loop bound \<open>new_cap - 1\<close> is \<open>UINT32_MAX\<close> and
  the loop writes past the reallocated block: a fault.
\<close>

definition handle_table_grow :: "handle_table \<Rightarrow> handle_table option" where
  "handle_table_grow t =
     (let old_cap = ht_capacity t; new_cap = u32 (old_cap * 2)
      in if new_cap \<le> old_cap then None
         else Some (t\<lparr>ht_slots := ht_slots t
                         @ map (\<lambda>i. free_slot (Suc i)) [old_cap..<new_cap - 1]
                         @ [free_slot (ht_free t)],
                      ht_free := old_cap, ht_capacity := new_cap\<rparr>))"

definition cando_handle_alloc :: "handle_table \<Rightarrow> nat \<Rightarrow> (handle_table \<times> nat) option" where
  "cando_handle_alloc t p =
     do {
       t \<leftarrow> (if ht_free t = u32_max then handle_table_grow t else Some t);
       let idx = ht_free t;
       s \<leftarrow> aget (ht_slots t) idx;
       Some (t\<lparr>ht_free := slot_next_free s,
               ht_slots := (ht_slots t)[idx := \<lparr>hs_ptr = p, hs_live = True, hs_marked = False\<rparr>],
               ht_count := u32 (Suc (ht_count t))\<rparr>, idx)
     }"

definition cando_handle_get :: "handle_table \<Rightarrow> nat \<Rightarrow> nat option" where
  "cando_handle_get t idx =
     do {
       check (idx < ht_capacity t);
       s \<leftarrow> aget (ht_slots t) idx;
       check (hs_live s);
       Some (hs_ptr s)
     }"

definition cando_handle_set :: "handle_table \<Rightarrow> nat \<Rightarrow> nat \<Rightarrow> handle_table option" where
  "cando_handle_set t idx p =
     do {
       check (idx < ht_capacity t);
       s \<leftarrow> aget (ht_slots t) idx;
       check (hs_live s);
       Some (t\<lparr>ht_slots := (ht_slots t)[idx := s\<lparr>hs_ptr := p\<rparr>]\<rparr>)
     }"

definition cando_handle_free :: "handle_table \<Rightarrow> nat \<Rightarrow> handle_table option" where
  "cando_handle_free t idx =
     do {
       check (idx < ht_capacity t);
       s \<leftarrow> aget (ht_slots t) idx;
       check (hs_live s);
       Some (t\<lparr>ht_slots := (ht_slots t)[idx := free_slot (ht_free t)],
               ht_free := idx,
               ht_count := u32 (ht_count t + u32_max)\<rparr>)
     }"

definition cando_handle_mark :: "handle_table \<Rightarrow> nat \<Rightarrow> handle_table option" where
  "cando_handle_mark t idx =
     do {
       check (idx < ht_capacity t);
       s \<leftarrow> aget (ht_slots t) idx;
       check (hs_live s);
       Some (t\<lparr>ht_slots := (ht_slots t)[idx := s\<lparr>hs_marked := True\<rparr>]\<rparr>)
     }"

definition cando_handle_clear_marks :: "handle_table \<Rightarrow> handle_table" where
  "cando_handle_clear_marks t =
     t\<lparr>ht_slots := map (\<lambda>s. s\<lparr>hs_marked := False\<rparr>) (ht_slots t)\<rparr>"

definition cando_handle_is_marked :: "handle_table \<Rightarrow> nat \<Rightarrow> bool option" where
  "cando_handle_is_marked t idx =
     do {
       check (idx < ht_capacity t);
       s \<leftarrow> aget (ht_slots t) idx;
       check (hs_live s);
       Some (hs_marked s)
     }"

section \<open>Invariant and abstraction\<close>

text \<open>The free list: the indices met from the head by following the pointer field.\<close>

fun free_path :: "hslot list \<Rightarrow> nat \<Rightarrow> nat list \<Rightarrow> bool" where
  "free_path ss h [] \<longleftrightarrow> h = u32_max"
| "free_path ss h (x # xs) \<longleftrightarrow>
     h = x \<and> x < length ss \<and> \<not> hs_live (ss ! x) \<and> free_path ss (slot_next_free (ss ! x)) xs"

definition live_at :: "handle_table \<Rightarrow> nat \<Rightarrow> bool" where
  "live_at t i \<longleftrightarrow> i < length (ht_slots t) \<and> hs_live (ht_slots t ! i)"

definition ht_inv :: "handle_table \<Rightarrow> bool" where
  "ht_inv t \<longleftrightarrow>
     length (ht_slots t) = ht_capacity t \<and> 0 < ht_capacity t \<and> ht_capacity t \<le> u32_max \<and>
     ht_count t = card {i. live_at t i} \<and>
     (\<exists>fs. free_path (ht_slots t) (ht_free t) fs \<and> distinct fs \<and>
           set fs = {i. i < ht_capacity t \<and> \<not> live_at t i})"

definition ht_map :: "handle_table \<Rightarrow> nat \<rightharpoonup> nat" where
  "ht_map t i = (if live_at t i then Some (hs_ptr (ht_slots t ! i)) else None)"

definition ht_marks :: "handle_table \<Rightarrow> nat set" where
  "ht_marks t = {i. live_at t i \<and> hs_marked (ht_slots t ! i)}"

section \<open>The free list\<close>

lemma slot_next_free_slot [simp]: "n < 4294967296 \<Longrightarrow> slot_next_free (free_slot n) = n"
  by (simp add: slot_next_free_def free_slot_def)

lemma free_slot_dead [simp]: "\<not> hs_live (free_slot n)" "\<not> hs_marked (free_slot n)"
  by (simp_all add: free_slot_def)

lemma free_path_update [simp]: "x \<notin> set fs \<Longrightarrow> free_path (ss[x := s]) h fs = free_path ss h fs"
  by (induction fs arbitrary: h) auto

lemma free_path_append: "free_path ss h fs \<Longrightarrow> free_path (ss @ ss') h fs"
  by (induction fs arbitrary: h) (auto simp: nth_append)

lemma free_path_in_bounds: "free_path ss h fs \<Longrightarrow> x \<in> set fs \<Longrightarrow> x < length ss \<and> \<not> hs_live (ss ! x)"
  by (induction fs arbitrary: h) auto

lemma free_path_head: "free_path ss h fs \<Longrightarrow> h \<noteq> u32_max \<Longrightarrow> \<exists>gs. fs = h # gs"
  by (cases fs) auto

text \<open>Linking the new slots of a grown table in front of the old free list.\<close>

lemma free_path_fresh_chain:
  assumes len: "length ss = old" and path: "free_path ss h0 fs"
    and k: "old \<le> k" "k < new" "new \<le> u32_max" and h0: "h0 < 4294967296"
  shows "free_path (ss @ map (\<lambda>i. free_slot (Suc i)) [old..<new - 1] @ [free_slot h0]) k ([k..<new] @ fs)"
  using k
proof (induction "new - k" arbitrary: k)
  case 0
  then show ?case by simp
next
  case (Suc d)
  let ?ss = "ss @ map (\<lambda>i. free_slot (Suc i)) [old..<new - 1] @ [free_slot h0]"
  have slot: "?ss ! k = free_slot (if Suc k = new then h0 else Suc k)"
    using Suc.prems len by (auto simp: nth_append)
  have klen: "k < length ?ss" using Suc.prems len by simp
  show ?case
  proof (cases "Suc k = new")
    case True
    then have "[k..<new] = [k]" by auto
    then show ?thesis using True slot klen h0 free_path_append [OF path] by simp
  next
    case False
    then have "free_path ?ss (Suc k) ([Suc k..<new] @ fs)" using Suc by simp
    then show ?thesis using False slot klen Suc.prems by (simp add: upt_conv_Cons)
  qed
qed

section \<open>Facts about the invariant\<close>

lemma finite_live [simp]: "finite {i. live_at t i}"
  by (rule finite_subset [of _ "{..<length (ht_slots t)}"]) (auto simp: live_at_def)

lemma ht_invI:
  assumes "free_path (ht_slots t) (ht_free t) fs" "distinct fs"
    and "\<And>i. i \<in> set fs \<longleftrightarrow> i < c \<and> \<not> live_at t i"
    and "length (ht_slots t) = c" "ht_capacity t = c" "0 < c" "c \<le> u32_max"
    and "ht_count t = card {i. live_at t i}"
  shows "ht_inv t"
  unfolding ht_inv_def
proof (intro conjI exI [of _ fs])
  show "set fs = {i. i < ht_capacity t \<and> \<not> live_at t i}"
    using assms(3) by (simp add: assms(5) set_eq_iff)
qed (simp_all add: assms)

lemma live_at_bound: "ht_inv t \<Longrightarrow> live_at t i \<Longrightarrow> i < ht_capacity t"
  by (auto simp: ht_inv_def live_at_def)

lemma count_bound: "ht_inv t \<Longrightarrow> ht_count t \<le> ht_capacity t"
  by (auto simp: ht_inv_def live_at_def intro!: card_mono [of "{..<ht_capacity t}", simplified])

lemma ht_free_cases: "ht_inv t \<Longrightarrow> ht_free t = u32_max \<or> ht_free t < ht_capacity t \<and> \<not> live_at t (ht_free t)"
  unfolding ht_inv_def by (metis (mono_tags, lifting) free_path_head list.set_intros(1) mem_Collect_eq)

lemma ht_map_None: "ht_map t i = None \<longleftrightarrow> \<not> live_at t i"
  by (simp add: ht_map_def)

lemma ht_map_Some: "ht_map t i = Some p \<longleftrightarrow> live_at t i \<and> p = hs_ptr (ht_slots t ! i)"
  by (auto simp: ht_map_def)

lemma dom_ht_map: "dom (ht_map t) = {i. live_at t i}"
  by (auto simp: ht_map_def split: if_splits)

section \<open>Every operation refines the map\<close>

lemma init_inv:
  assumes "c \<le> u32_max"
  shows "ht_inv (cando_handle_table_init c)" "ht_map (cando_handle_table_init c) = Map.empty"
proof -
  let ?t = "cando_handle_table_init c"
  let ?c = "if c = 0 then 256 else c"
  have "free_path ([] @ map (\<lambda>i. free_slot (Suc i)) [0..<?c - 1] @ [free_slot u32_max]) 0 ([0..<?c] @ [])"
    using assms by (intro free_path_fresh_chain) auto
  then have path: "free_path (ht_slots ?t) 0 [0..<?c]"
    by (simp add: cando_handle_table_init_def Let_def)
  have dead: "\<not> live_at ?t i" for i
    using free_path_in_bounds [OF path, of i]
    by (auto simp: live_at_def cando_handle_table_init_def Let_def)
  show "ht_inv ?t" unfolding ht_inv_def using assms path dead
    by (auto simp: cando_handle_table_init_def Let_def intro!: exI [of _ "[0..<?c]"])
  show "ht_map ?t = Map.empty" using dead by (auto simp: ht_map_def)
qed

lemma grow_spec:
  assumes inv: "ht_inv t" and cap: "ht_capacity t < 2147483648"
  obtains t' where "handle_table_grow t = Some t'" "ht_inv t'" "ht_map t' = ht_map t"
    "ht_marks t' = ht_marks t" "ht_free t' = ht_capacity t" "ht_capacity t' = 2 * ht_capacity t"
proof -
  let ?old = "ht_capacity t" and ?new = "2 * ht_capacity t"
  obtain fs where fs: "free_path (ht_slots t) (ht_free t) fs" "distinct fs"
      "set fs = {i. i < ?old \<and> \<not> live_at t i}"
    and len: "length (ht_slots t) = ?old" and pos: "0 < ?old"
    and cnt: "ht_count t = card {i. live_at t i}"
    using inv by (auto simp: ht_inv_def)
  have h0: "ht_free t < 4294967296" using ht_free_cases [OF inv] cap by auto
  obtain t' where grow: "handle_table_grow t = Some t'"
    and slots: "ht_slots t' = ht_slots t @ map (\<lambda>i. free_slot (Suc i)) [?old..<?new - 1] @ [free_slot (ht_free t)]"
    and flds: "ht_free t' = ?old" "ht_capacity t' = ?new" "ht_count t' = ht_count t"
    using pos cap
    by (intro that [of "the (handle_table_grow t)"]) (simp_all add: handle_table_grow_def Let_def mult.commute)
  have path: "free_path (ht_slots t') ?old ([?old..<?new] @ fs)"
    unfolding slots using free_path_fresh_chain [OF len fs(1), of ?old ?new] pos cap h0 by simp
  have new: "ht_slots t' ! i = free_slot (if Suc i = ?new then ht_free t else Suc i)"
    if "?old \<le> i" "i < ?new" for i using that len by (auto simp: nth_append slots)
  have old: "ht_slots t' ! i = ht_slots t ! i" if "i < ?old" for i
    using that len by (simp add: nth_append slots)
  have llen: "length (ht_slots t') = ?new" using len pos by (simp add: slots)
  have live: "live_at t' i = live_at t i" for i
    using new [of i] old [of i] len llen by (cases "i < ?old"; cases "i < ?new") (auto simp: live_at_def)
  have same: "live_at t' = live_at t" by (rule ext) (rule live)
  have lt: "live_at t i \<Longrightarrow> i < ?old" for i using len by (simp add: live_at_def)
  have mem: "i \<in> set ([?old..<?new] @ fs) \<longleftrightarrow> i < ?new \<and> \<not> live_at t' i" for i
    unfolding live using fs(3) lt [of i] by (cases "i < ?old") auto
  have path': "free_path (ht_slots t') (ht_free t') ([?old..<?new] @ fs)" using path flds by simp
  have "ht_inv t'"
    by (rule ht_invI [OF path' _ mem]) (use fs(2,3) llen flds pos cap cnt live in auto)
  moreover have "ht_map t' = ht_map t" using old lt by (auto simp: ht_map_def live)
  moreover have "ht_marks t' = ht_marks t" using old lt by (auto simp: ht_marks_def live)
  ultimately show thesis using that grow flds by blast
qed

text \<open>Taking the head of the free list.\<close>

lemma alloc_nogrow_spec:
  assumes inv: "ht_inv t" and nogrow: "ht_free t \<noteq> u32_max"
  obtains t' where "cando_handle_alloc t p = Some (t', ht_free t)" "ht_inv t'"
    "\<not> live_at t (ht_free t)" "ht_map t' = (ht_map t)(ht_free t \<mapsto> p)" "ht_marks t' = ht_marks t"
    "ht_capacity t' = ht_capacity t"
proof -
  let ?h = "ht_free t"
  obtain fs where fs: "free_path (ht_slots t) ?h fs" "distinct fs"
      "set fs = {i. i < ht_capacity t \<and> \<not> live_at t i}"
    and len: "length (ht_slots t) = ht_capacity t" and cap: "ht_capacity t \<le> u32_max"
    and cnt: "ht_count t = card {i. live_at t i}"
    using inv by (auto simp: ht_inv_def)
  obtain gs where "fs = ?h # gs" using free_path_head [OF fs(1) nogrow] by blast
  note gs = fs [unfolded this]
  have h: "?h < ht_capacity t" "\<not> live_at t ?h" using gs(3) by auto
  obtain t' where alloc: "cando_handle_alloc t p = Some (t', ?h)"
    and slots: "ht_slots t' = (ht_slots t)[?h := \<lparr>hs_ptr = p, hs_live = True, hs_marked = False\<rparr>]"
    and flds: "ht_free t' = slot_next_free (ht_slots t ! ?h)" "ht_capacity t' = ht_capacity t"
      "ht_count t' = u32 (Suc (ht_count t))"
    using nogrow h len
    by (intro that [of "fst (the (cando_handle_alloc t p))"]) (simp_all add: cando_handle_alloc_def Let_def)
  have live: "live_at t' i \<longleftrightarrow> i = ?h \<or> live_at t i" for i
    using h len by (auto simp: live_at_def slots nth_list_update)
  have "card {i. live_at t' i} = Suc (card {i. live_at t i})"
    using h(2) by (intro card_insert_index [of _ ?h]) (auto simp: live)
  moreover have "card {i. live_at t' i} \<le> ht_capacity t"
    using len by (intro card_mono [of "{..<ht_capacity t}", simplified]) (auto simp: live_at_def slots)
  ultimately have cnt': "ht_count t' = card {i. live_at t' i}" using cnt cap flds by simp
  have path': "free_path (ht_slots t') (ht_free t') gs" using gs by (auto simp: slots flds)
  have mem: "i \<in> set gs \<longleftrightarrow> i < ht_capacity t \<and> \<not> live_at t' i" for i
    unfolding live using gs(2,3) h(1) by auto
  have "ht_inv t'"
    by (rule ht_invI [OF path' _ mem _ _ _ _ cnt']) (use len cap h gs(2) in \<open>simp_all add: flds slots\<close>)
  moreover have "ht_map t' = (ht_map t)(?h \<mapsto> p)"
    using h len by (auto simp: ht_map_def live slots fun_eq_iff)
  moreover have "ht_marks t' = ht_marks t"
    using h len by (auto simp: ht_marks_def live slots nth_list_update)
  ultimately show thesis using that alloc h(2) flds by blast
qed

lemma alloc_spec:
  assumes inv: "ht_inv t" and cap: "ht_capacity t < 2147483648"
  obtains t' h where "cando_handle_alloc t p = Some (t', h)" "ht_inv t'" "ht_map t h = None"
    "h \<noteq> u32_max" "ht_map t' = (ht_map t)(h \<mapsto> p)" "ht_marks t' = ht_marks t"
    "ht_capacity t' \<le> 2 * ht_capacity t"
proof (cases "ht_free t = u32_max")
  case True
  obtain u where u: "handle_table_grow t = Some u" "ht_inv u" "ht_map u = ht_map t"
      "ht_marks u = ht_marks t" "ht_free u = ht_capacity t" "ht_capacity u = 2 * ht_capacity t"
    using grow_spec [OF assms] by metis
  have free: "ht_free u \<noteq> u32_max" using u cap by simp
  obtain t' where t': "cando_handle_alloc u p = Some (t', ht_free u)" "ht_inv t'"
      "\<not> live_at u (ht_free u)" "ht_map t' = (ht_map u)(ht_free u \<mapsto> p)" "ht_marks t' = ht_marks u"
      "ht_capacity t' = ht_capacity u"
    using alloc_nogrow_spec [OF u(2) free] by metis
  have "cando_handle_alloc t p = cando_handle_alloc u p"
    using True u(1) free by (simp add: cando_handle_alloc_def)
  moreover have "ht_map t (ht_free u) = None" using t'(3) u(3) by (simp add: ht_map_None [symmetric])
  ultimately show thesis using that [of t' "ht_free u"] t' u free by simp
next
  case False
  obtain t' where "cando_handle_alloc t p = Some (t', ht_free t)" "ht_inv t'"
    "\<not> live_at t (ht_free t)" "ht_map t' = (ht_map t)(ht_free t \<mapsto> p)" "ht_marks t' = ht_marks t"
    "ht_capacity t' = ht_capacity t"
    using alloc_nogrow_spec [OF inv False] by metis
  then show thesis using that [of t' "ht_free t"] False ht_map_None by simp
qed

lemma get_spec: "ht_inv t \<Longrightarrow> cando_handle_get t i = ht_map t i"
  by (auto simp: cando_handle_get_def ht_map_def live_at_def ht_inv_def aget_def check_def)

text \<open>Overwriting a live slot by a live slot.\<close>

lemma live_slot_update:
  assumes inv: "ht_inv t" and live: "live_at t i" and s: "hs_live s"
    and t': "t' = t\<lparr>ht_slots := (ht_slots t)[i := s]\<rparr>"
  shows "ht_inv t'" "ht_map t' = (ht_map t)(i \<mapsto> hs_ptr s)"
    "ht_marks t' = (if hs_marked s then insert i (ht_marks t) else ht_marks t - {i})"
proof -
  have lv: "live_at t' k \<longleftrightarrow> live_at t k" for k
    using live s by (auto simp: live_at_def t' nth_list_update)
  obtain fs where fs: "free_path (ht_slots t) (ht_free t) fs" "distinct fs"
      "set fs = {i. i < ht_capacity t \<and> \<not> live_at t i}"
    using inv by (auto simp: ht_inv_def)
  have "i \<notin> set fs" using fs(3) live by simp
  then have "free_path (ht_slots t') (ht_free t') fs" using fs(1) by (simp add: t')
  then show "ht_inv t'" using inv fs(2,3) unfolding ht_inv_def lv by (auto simp: t')
  show "ht_map t' = (ht_map t)(i \<mapsto> hs_ptr s)"
    using live by (auto simp: ht_map_def lv fun_eq_iff) (auto simp: t' live_at_def)
  show "ht_marks t' = (if hs_marked s then insert i (ht_marks t) else ht_marks t - {i})"
    using live by (auto simp: ht_marks_def lv) (auto simp: t' live_at_def nth_list_update split: if_splits)
qed

lemma set_spec:
  assumes "ht_inv t" "live_at t i"
  obtains t' where "cando_handle_set t i p = Some t'" "ht_inv t'" "ht_map t' = (ht_map t)(i \<mapsto> p)"
    "ht_marks t' = ht_marks t"
proof -
  let ?s = "(ht_slots t ! i)\<lparr>hs_ptr := p\<rparr>"
  let ?t = "t\<lparr>ht_slots := (ht_slots t)[i := ?s]\<rparr>"
  have "cando_handle_set t i p = Some ?t"
    using assms by (simp add: cando_handle_set_def live_at_def ht_inv_def)
  moreover have "hs_live ?s" using assms(2) by (simp add: live_at_def)
  moreover have "(if hs_marked ?s then insert i (ht_marks t) else ht_marks t - {i}) = ht_marks t"
    using assms(2) by (auto simp: ht_marks_def)
  ultimately show thesis using that [of ?t] live_slot_update [OF assms, of ?s ?t] by simp
qed

lemma mark_spec:
  assumes "ht_inv t" "live_at t i"
  obtains t' where "cando_handle_mark t i = Some t'" "ht_inv t'" "ht_map t' = ht_map t"
    "ht_marks t' = insert i (ht_marks t)"
proof -
  let ?s = "(ht_slots t ! i)\<lparr>hs_marked := True\<rparr>"
  let ?t = "t\<lparr>ht_slots := (ht_slots t)[i := ?s]\<rparr>"
  have "cando_handle_mark t i = Some ?t"
    using assms by (simp add: cando_handle_mark_def live_at_def ht_inv_def)
  moreover have "hs_live ?s" using assms(2) by (simp add: live_at_def)
  moreover have "(ht_map t)(i \<mapsto> hs_ptr ?s) = ht_map t" using assms(2) by (auto simp: ht_map_def)
  ultimately show thesis using that [of ?t] live_slot_update [OF assms, of ?s ?t] by simp
qed

lemma is_marked_spec: "ht_inv t \<Longrightarrow> live_at t i \<Longrightarrow> cando_handle_is_marked t i = Some (i \<in> ht_marks t)"
  by (auto simp: cando_handle_is_marked_def live_at_def ht_inv_def ht_marks_def)

lemma free_path_map:
  assumes "\<And>s. hs_live (f s) = hs_live s" "\<And>s. hs_ptr (f s) = hs_ptr s"
  shows "free_path (map f ss) h fs = free_path ss h fs"
proof (induction fs arbitrary: h)
  case (Cons x xs)
  have "x < length ss \<Longrightarrow> slot_next_free (map f ss ! x) = slot_next_free (ss ! x)"
    and "x < length ss \<Longrightarrow> hs_live (map f ss ! x) = hs_live (ss ! x)"
    by (simp_all only: nth_map slot_next_free_def assms)
  then show ?case using Cons.IH by (simp cong: conj_cong)
qed simp

lemma clear_marks_spec:
  assumes inv: "ht_inv t"
  shows "ht_inv (cando_handle_clear_marks t)" "ht_map (cando_handle_clear_marks t) = ht_map t"
    "ht_marks (cando_handle_clear_marks t) = {}"
proof -
  let ?t = "cando_handle_clear_marks t"
  have lv: "live_at ?t k \<longleftrightarrow> live_at t k" for k
    by (auto simp: live_at_def cando_handle_clear_marks_def)
  have "free_path (ht_slots ?t) h fs = free_path (ht_slots t) h fs" for h fs
    by (simp add: cando_handle_clear_marks_def free_path_map)
  then show "ht_inv ?t" using inv unfolding ht_inv_def lv by (auto simp: cando_handle_clear_marks_def)
  show "ht_map ?t = ht_map t"
    by (auto simp: ht_map_def lv fun_eq_iff) (auto simp: cando_handle_clear_marks_def live_at_def)
  show "ht_marks ?t = {}" by (auto simp: ht_marks_def cando_handle_clear_marks_def live_at_def)
qed

lemma free_spec:
  assumes inv: "ht_inv t" and live: "live_at t i"
  obtains t' where "cando_handle_free t i = Some t'" "ht_inv t'" "ht_map t' = (ht_map t)(i := None)"
    "ht_marks t' = ht_marks t - {i}" "ht_capacity t' = ht_capacity t"
proof -
  obtain fs where fs: "free_path (ht_slots t) (ht_free t) fs" "distinct fs"
      "set fs = {k. k < ht_capacity t \<and> \<not> live_at t k}"
    and len: "length (ht_slots t) = ht_capacity t" and cap: "ht_capacity t \<le> u32_max"
    and cnt: "ht_count t = card {k. live_at t k}"
    using inv by (auto simp: ht_inv_def)
  have i: "i < ht_capacity t" using live_at_bound [OF inv live] .
  obtain t' where free: "cando_handle_free t i = Some t'"
    and slots: "ht_slots t' = (ht_slots t)[i := free_slot (ht_free t)]"
    and flds: "ht_free t' = i" "ht_capacity t' = ht_capacity t" "ht_count t' = u32 (ht_count t + u32_max)"
    using live i
    by (intro that [of "the (cando_handle_free t i)"]) (simp_all add: cando_handle_free_def live_at_def)
  have lv: "live_at t' k \<longleftrightarrow> k \<noteq> i \<and> live_at t k" for k
    using i by (cases "k = i") (simp_all add: live_at_def slots)
  have "card {k. live_at t' k} = card {k. live_at t k} - 1"
    using live by (intro card_remove_index [of _ i]) (auto simp: lv)
  moreover have "0 < card {k. live_at t k}" using live by (auto simp: card_gt_0_iff)
  ultimately have cnt': "ht_count t' = card {k. live_at t' k}"
    using cnt count_bound [OF inv] cap flds by (simp add: u32_pred)
  have "i \<notin> set fs" using fs(3) live by simp
  moreover have "ht_free t < 4294967296" using ht_free_cases [OF inv] cap by auto
  ultimately have path': "free_path (ht_slots t') (ht_free t') (i # fs)"
    using fs(1) i len by (simp add: slots flds)
  have mem: "k \<in> set (i # fs) \<longleftrightarrow> k < ht_capacity t \<and> \<not> live_at t' k" for k
    unfolding lv using fs(3) i by auto
  have dist: "distinct (i # fs)" using \<open>i \<notin> set fs\<close> fs(2) by simp
  have "ht_inv t'"
    by (rule ht_invI [OF path' dist mem _ _ _ _ cnt'])
      (use len cap i in \<open>simp_all add: flds slots\<close>)
  moreover have "ht_map t' = (ht_map t)(i := None)"
    by (auto simp: ht_map_def lv fun_eq_iff) (auto simp: slots live_at_def)
  moreover have "ht_marks t' = ht_marks t - {i}"
    by (auto simp: ht_marks_def lv) (auto simp: slots live_at_def)
  ultimately show thesis using that free flds by blast
qed

lemma free_dead: "ht_inv t \<Longrightarrow> \<not> live_at t i \<Longrightarrow> cando_handle_free t i = None"
  by (auto simp: cando_handle_free_def live_at_def ht_inv_def aget_def check_def)

section \<open>The interface the collector uses\<close>

text \<open>
  A store of pointers under handles with mark bits. \<open>amap\<close> is what a state means, \<open>marks\<close> the
  marked handles, \<open>room\<close> the states in which an allocation cannot exhaust the index space.
\<close>

locale handle_store =
  fixes alloc :: "'t \<Rightarrow> 'p \<Rightarrow> ('t \<times> nat) option"
    and get :: "'t \<Rightarrow> nat \<Rightarrow> 'p option"
    and free :: "'t \<Rightarrow> nat \<Rightarrow> 't option"
    and mark :: "'t \<Rightarrow> nat \<Rightarrow> 't option"
    and is_marked :: "'t \<Rightarrow> nat \<Rightarrow> bool option"
    and clear :: "'t \<Rightarrow> 't"
    and inv :: "'t \<Rightarrow> bool"
    and room :: "'t \<Rightarrow> bool"
    and amap :: "'t \<Rightarrow> nat \<rightharpoonup> 'p"
    and marks :: "'t \<Rightarrow> nat set"
  assumes alloc_law: "inv t \<Longrightarrow> room t \<Longrightarrow>
      \<exists>t' h. alloc t p = Some (t', h) \<and> inv t' \<and> amap t h = None \<and> h \<noteq> u32_max \<and>
             amap t' = (amap t)(h \<mapsto> p) \<and> marks t' = marks t"
    and get_law: "inv t \<Longrightarrow> get t h = amap t h"
    and free_law: "inv t \<Longrightarrow> amap t h = Some p \<Longrightarrow>
      \<exists>t'. free t h = Some t' \<and> inv t' \<and> amap t' = (amap t)(h := None) \<and> marks t' = marks t - {h}"
    and mark_law: "inv t \<Longrightarrow> amap t h = Some p \<Longrightarrow>
      \<exists>t'. mark t h = Some t' \<and> inv t' \<and> amap t' = amap t \<and> marks t' = insert h (marks t)"
    and is_marked_law: "inv t \<Longrightarrow> amap t h = Some p \<Longrightarrow> is_marked t h = Some (h \<in> marks t)"
    and clear_law: "inv t \<Longrightarrow> inv (clear t) \<and> amap (clear t) = amap t \<and> marks (clear t) = {}"
begin

lemma alloc_get:
  assumes "inv t" "room t" "alloc t p = Some (t', h)"
  shows "get t' h = Some p" "k \<noteq> h \<Longrightarrow> get t' k = get t k" "get t h = None"
  using alloc_law [OF assms(1,2), of p] assms get_law by auto

lemma free_get:
  assumes "inv t" "free t h = Some t'" "get t h = Some p"
  shows "get t' h = None" "k \<noteq> h \<Longrightarrow> get t' k = get t k"
  using free_law [OF assms(1), of h p] assms get_law by auto

text \<open>The mark phase: every root is marked, nothing else.\<close>

lemma mark_all:
  assumes "inv t" "\<forall>h \<in> set hs. h \<noteq> u32_max \<longrightarrow> amap t h \<noteq> None"
  shows "\<exists>t'. mfold (\<lambda>t h. if h = u32_max then Some t else mark t h) hs t = Some t' \<and> inv t' \<and>
              amap t' = amap t \<and> marks t' = marks t \<union> (set hs - {u32_max})"
  using assms
proof (induction hs arbitrary: t)
  case (Cons h hs)
  show ?case
  proof (cases "h = u32_max")
    case True
    then show ?thesis using Cons.IH [of t] Cons.prems by (auto simp: insert_Diff_if)
  next
    case False
    then obtain p where "amap t h = Some p" using Cons.prems(2) by auto
    then obtain t1 where t1: "mark t h = Some t1" "inv t1" "amap t1 = amap t" "marks t1 = insert h (marks t)"
      using mark_law Cons.prems(1) by blast
    then obtain t2 where "mfold (\<lambda>t h. if h = u32_max then Some t else mark t h) hs t1 = Some t2" "inv t2"
      "amap t2 = amap t1" "marks t2 = marks t1 \<union> (set hs - {u32_max})"
      using Cons.IH [of t1] Cons.prems by auto
    then show ?thesis using t1 False by (auto simp: insert_Diff_if)
  qed
qed simp

end

abbreviation ht_room :: "handle_table \<Rightarrow> bool" where
  "ht_room t \<equiv> ht_capacity t < 2147483648"

interpretation hts: handle_store cando_handle_alloc cando_handle_get cando_handle_free
  cando_handle_mark cando_handle_is_marked cando_handle_clear_marks ht_inv ht_room ht_map ht_marks
proof unfold_locales
  fix t :: handle_table and p h q
  assume inv: "ht_inv t"
  show "cando_handle_get t h = ht_map t h" using inv by (rule get_spec)
  show "ht_inv (cando_handle_clear_marks t) \<and> ht_map (cando_handle_clear_marks t) = ht_map t \<and>
      ht_marks (cando_handle_clear_marks t) = {}"
    using clear_marks_spec [OF inv] by simp
  show "\<exists>t' h. cando_handle_alloc t p = Some (t', h) \<and> ht_inv t' \<and> ht_map t h = None \<and> h \<noteq> u32_max \<and>
      ht_map t' = (ht_map t)(h \<mapsto> p) \<and> ht_marks t' = ht_marks t" if "ht_room t"
    using alloc_spec [OF inv that, of p] by metis
  assume live: "ht_map t h = Some q"
  then have lv: "live_at t h" by (simp add: ht_map_Some)
  show "\<exists>t'. cando_handle_free t h = Some t' \<and> ht_inv t' \<and> ht_map t' = (ht_map t)(h := None) \<and>
      ht_marks t' = ht_marks t - {h}"
    using free_spec [OF inv lv] by metis
  show "\<exists>t'. cando_handle_mark t h = Some t' \<and> ht_inv t' \<and> ht_map t' = ht_map t \<and>
      ht_marks t' = insert h (ht_marks t)"
    using mark_spec [OF inv lv] by metis
  show "cando_handle_is_marked t h = Some (h \<in> ht_marks t)" using is_marked_spec [OF inv lv] .
qed

section \<open>Properties\<close>

text \<open>C13. Allocating a handle never aliases: below the limit of the index space the allocation
  succeeds (growing the table when the free list is empty), returns an index that was not live and is
  not the invalid handle, binds it to the pointer, and leaves every other handle and every mark as it was.\<close>

theorem handle_alloc_refines_map:
  assumes "ht_inv t" "ht_capacity t < 2147483648"
  shows "\<exists>t' h. cando_handle_alloc t p = Some (t', h) \<and> ht_inv t' \<and> ht_map t h = None \<and> h \<noteq> u32_max \<and>
           ht_map t' = (ht_map t)(h \<mapsto> p) \<and> ht_marks t' = ht_marks t"
  using hts.alloc_law [OF assms] by simp

text \<open>A table of two slots, the first live: the next allocation takes the second.\<close>

definition wit_table :: handle_table where
  "wit_table = \<lparr>ht_slots = [\<lparr>hs_ptr = 64, hs_live = True, hs_marked = False\<rparr>, free_slot u32_max],
                ht_capacity = 2, ht_count = 1, ht_free = 1\<rparr>"

lemma wit_table_inv: "ht_inv wit_table"
proof -
  have l: "live_at wit_table i \<longleftrightarrow> i = 0" for i
    by (auto simp: live_at_def wit_table_def free_slot_def less_Suc_eq nth_Cons split: nat.splits)
  show ?thesis
    by (rule ht_invI [of _ "[1]" 2]) (auto simp: l, auto simp: wit_table_def free_slot_def slot_next_free_def)
qed

theorem handle_alloc_refines_map_witness:
  "\<exists>t' h. cando_handle_alloc wit_table 80 = Some (t', h) \<and> ht_inv t' \<and> h \<noteq> 0 \<and> ht_map t' 0 = Some 64 \<and> ht_map t' h = Some 80"
proof -
  have room: "ht_capacity wit_table < 2147483648" by (simp add: wit_table_def)
  have m: "ht_map wit_table 0 = Some 64" by (simp add: ht_map_def live_at_def wit_table_def)
  show ?thesis using handle_alloc_refines_map [OF wit_table_inv room, of 80] m by (metis fun_upd_def option.distinct(1))
qed

text \<open>C14. Freeing is exact: a live handle is removed and only it, its slot goes back to the free list
  (the invariant holds again), and freeing it a second time fails the assertion instead of corrupting the list.\<close>

theorem handle_free_exact:
  assumes "ht_inv t" "ht_map t h = Some p"
  shows "\<exists>t'. cando_handle_free t h = Some t' \<and> ht_inv t' \<and> ht_map t' = (ht_map t)(h := None) \<and>
           cando_handle_free t' h = None"
proof -
  obtain t' where t': "cando_handle_free t h = Some t'" "ht_inv t'" "ht_map t' = (ht_map t)(h := None)"
    using hts.free_law [OF assms] by blast
  then have "\<not> live_at t' h" by (simp add: ht_map_None [symmetric])
  then show ?thesis using t' free_dead by blast
qed

theorem handle_free_exact_witness:
  "\<exists>t'. cando_handle_free wit_table 0 = Some t' \<and> ht_map t' 0 = None \<and> cando_handle_free t' 0 = None"
proof -
  have "ht_map wit_table 0 = Some 64" by (simp add: ht_map_def live_at_def wit_table_def)
  then show ?thesis using handle_free_exact [OF wit_table_inv] by fastforce
qed

end
