(* ===== verification/Mem_Ctrl.thy ===== *)
theory Mem_Ctrl
  imports Handle_Table
begin

text \<open>
  The block allocator and the mark-and-sweep collector (\<open>source/core/memory.c\<close>). A block is an
  address of the C heap with its header; the registry of live blocks is an unordered array from
  which a block is removed by swapping in the last one. A collection keeps exactly the rooted blocks.
\<close>

section \<open>State\<close>

record block_header =
  bh_handle :: nat
  bh_user_size :: nat

record mem_ctrl =
  mc_handles :: handle_table
  mc_live :: "addr list"
  mc_live_cap :: nat
  mc_heap :: "addr \<rightharpoonup> block_header"

section \<open>Operations\<close>

text \<open>\<open>live_cap\<close> doubles in 32 bits; a store behind the reallocated array is a fault.\<close>

definition live_register :: "mem_ctrl \<Rightarrow> addr \<Rightarrow> mem_ctrl option" where
  "live_register mc hdr =
     (let cap = (if length (mc_live mc) = mc_live_cap mc then u32 (mc_live_cap mc * 2) else mc_live_cap mc)
      in do {
        check (length (mc_live mc) < cap);
        Some (mc\<lparr>mc_live_cap := cap, mc_live := mc_live mc @ [hdr]\<rparr>)
      })"

fun swap_remove :: "addr list \<Rightarrow> addr \<Rightarrow> nat \<Rightarrow> addr list option" where
  "swap_remove bs hdr 0 = None"
| "swap_remove bs hdr (Suc n) =
     (let i = length bs - Suc n
      in if bs ! i = hdr then Some (butlast (bs[i := last bs])) else swap_remove bs hdr n)"

definition live_unregister :: "mem_ctrl \<Rightarrow> addr \<Rightarrow> mem_ctrl option" where
  "live_unregister mc hdr =
     do {
       bs \<leftarrow> swap_remove (mc_live mc) hdr (length (mc_live mc));
       Some (mc\<lparr>mc_live := bs\<rparr>)
     }"

definition cando_memctrl_init :: mem_ctrl where
  "cando_memctrl_init = \<lparr>mc_handles = cando_handle_table_init 0, mc_live = [], mc_live_cap = 64, mc_heap = Map.empty\<rparr>"

definition cando_memctrl_destroy :: "mem_ctrl \<Rightarrow> mem_ctrl" where
  "cando_memctrl_destroy mc =
     mc\<lparr>mc_heap := (mc_heap mc) |` (- set (mc_live mc)), mc_live := [], mc_live_cap := 0,
        mc_handles := cando_handle_table_destroy (mc_handles mc)\<rparr>"

text \<open>The address \<open>a\<close> is the one \<open>malloc\<close> returns for the block.\<close>

definition cando_memctrl_alloc :: "mem_ctrl \<Rightarrow> addr \<Rightarrow> nat \<Rightarrow> (mem_ctrl \<times> nat) option" where
  "cando_memctrl_alloc mc a user_size =
     do {
       check (user_size > 0);
       (t, h) \<leftarrow> cando_handle_alloc (mc_handles mc) a;
       mc \<leftarrow> live_register
              (mc\<lparr>mc_handles := t,
                  mc_heap := (mc_heap mc)(a \<mapsto> \<lparr>bh_handle = h, bh_user_size = user_size\<rparr>)\<rparr>) a;
       Some (mc, h)
     }"

definition block_payload :: "addr \<Rightarrow> addr" where
  "block_payload hdr = hdr + 24"

definition cando_memctrl_get_header :: "mem_ctrl \<Rightarrow> nat \<Rightarrow> addr option" where
  "cando_memctrl_get_header mc h = cando_handle_get (mc_handles mc) h"

definition cando_memctrl_get_ptr :: "mem_ctrl \<Rightarrow> nat \<Rightarrow> addr option" where
  "cando_memctrl_get_ptr mc h = map_option block_payload (cando_handle_get (mc_handles mc) h)"

text \<open>The three calls that release a block, shared by the explicit free and the sweep.\<close>

definition release_block :: "mem_ctrl \<Rightarrow> addr \<Rightarrow> nat \<Rightarrow> mem_ctrl option" where
  "release_block mc hdr h =
     do {
       mc \<leftarrow> live_unregister mc hdr;
       t \<leftarrow> cando_handle_free (mc_handles mc) h;
       Some (mc\<lparr>mc_handles := t, mc_heap := (mc_heap mc)(hdr := None)\<rparr>)
     }"

definition cando_memctrl_free :: "mem_ctrl \<Rightarrow> nat \<Rightarrow> mem_ctrl option" where
  "cando_memctrl_free mc h =
     do {
       hdr \<leftarrow> cando_handle_get (mc_handles mc) h;
       release_block mc hdr h
     }"

definition cando_gc_mark :: "handle_table \<Rightarrow> nat \<Rightarrow> handle_table option" where
  "cando_gc_mark t h = (if h = u32_max then Some t else cando_handle_mark t h)"

lemma swap_remove_length: "n \<le> length bs \<Longrightarrow> swap_remove bs hdr n = Some bs' \<Longrightarrow> length bs' = length bs - 1"
  by (induction n) (auto simp: Let_def split: if_splits)

lemma release_block_length:
  "release_block mc hdr h = Some mc' \<Longrightarrow> length (mc_live mc') = length (mc_live mc) - 1"
  by (auto simp: release_block_def live_unregister_def fault_simps dest!: swap_remove_length [rotated])

text \<open>The sweep: a released block is replaced by the last one, so the index stays.\<close>

function gc_sweep_loop :: "mem_ctrl \<Rightarrow> nat \<Rightarrow> mem_ctrl option" where
  "gc_sweep_loop mc i =
     (if i < length (mc_live mc) then
        do {
          let hdr = mc_live mc ! i;
          b \<leftarrow> mc_heap mc hdr;
          m \<leftarrow> cando_handle_is_marked (mc_handles mc) (bh_handle b);
          if \<not> m then do {
            mc' \<leftarrow> release_block mc hdr (bh_handle b);
            gc_sweep_loop mc' i
          } else gc_sweep_loop mc (Suc i)
        }
      else Some mc)"
  by pat_completeness auto
termination
  by (relation "measure (\<lambda>(mc, i). length (mc_live mc) - i)") (auto dest: release_block_length)

declare gc_sweep_loop.simps [simp del]

definition cando_gc_sweep :: "mem_ctrl \<Rightarrow> mem_ctrl option" where
  "cando_gc_sweep mc = gc_sweep_loop mc 0"

definition cando_gc_collect :: "mem_ctrl \<Rightarrow> nat list \<Rightarrow> mem_ctrl option" where
  "cando_gc_collect mc roots =
     do {
       t \<leftarrow> mfold cando_gc_mark roots (cando_handle_clear_marks (mc_handles mc));
       cando_gc_sweep (mc\<lparr>mc_handles := t\<rparr>)
     }"

section \<open>Invariant and abstraction\<close>

text \<open>Every live handle owns one registered block whose header points back at the handle.\<close>

definition mc_inv :: "mem_ctrl \<Rightarrow> bool" where
  "mc_inv mc \<longleftrightarrow>
     ht_inv (mc_handles mc) \<and> distinct (mc_live mc) \<and> dom (mc_heap mc) = set (mc_live mc) \<and>
     length (mc_live mc) \<le> mc_live_cap mc \<and> 0 < mc_live_cap mc \<and>
     (\<forall>h a. ht_map (mc_handles mc) h = Some a \<longleftrightarrow> (\<exists>b. mc_heap mc a = Some b \<and> bh_handle b = h))"

text \<open>What a client sees: the live handles, each with its block and size.\<close>

definition mc_objs :: "mem_ctrl \<Rightarrow> nat \<rightharpoonup> (addr \<times> nat)" where
  "mc_objs mc h =
     do {
       a \<leftarrow> ht_map (mc_handles mc) h;
       b \<leftarrow> mc_heap mc a;
       Some (a, bh_user_size b)
     }"

definition mc_room :: "mem_ctrl \<Rightarrow> bool" where
  "mc_room mc \<longleftrightarrow> ht_room (mc_handles mc) \<and> mc_live_cap mc < 2147483648"

section \<open>The registry\<close>

lemma swap_remove_at:
  assumes "distinct bs" "i < length bs" "n \<le> length bs" "length bs - n \<le> i"
  shows "swap_remove bs (bs ! i) n = Some (butlast (bs[i := last bs]))"
  using assms(3,4)
proof (induction n)
  case 0
  then show ?case using assms(2) by simp
next
  case (Suc n)
  let ?j = "length bs - Suc n"
  show ?case
  proof (cases "?j = i")
    case True
    then show ?thesis by (simp add: Let_def)
  next
    case False
    have "bs ! ?j \<noteq> bs ! i"
      using False assms(1,2) Suc.prems by (subst nth_eq_iff_index_eq) auto
    moreover have "length bs - n \<le> i" using False Suc.prems by linarith
    ultimately show ?thesis using Suc by (simp add: Let_def)
  qed
qed

lemma swap_out:
  assumes "distinct bs" "i < length bs"
  shows "distinct (butlast (bs[i := last bs]))" (is "distinct ?bs")
    and "set (butlast (bs[i := last bs])) = set bs - {bs ! i}"
    and "take i (butlast (bs[i := last bs])) = take i bs"
proof -
  obtain cs l where bs: "bs = cs @ [l]" using assms(2) by (metis length_0_conv not_less0 rev_exhaust)
  have "distinct ?bs \<and> set ?bs = set bs - {bs ! i} \<and> take i ?bs = take i bs"
  proof (cases "i = length cs")
    case True
    then show ?thesis using assms(1) by (auto simp: bs)
  next
    case False
    then have c: "i < length cs" using assms(2) by (simp add: bs)
    have u: "?bs = cs[i := l]" unfolding bs using c by (simp add: list_update_append1)
    have d: "distinct cs" "l \<notin> set cs" using assms(1) by (auto simp: bs)
    have "set (cs[i := l]) = insert l (set cs - {cs ! i})" using c d(1) by (rule set_update_distinct [rotated])
    moreover have "cs ! i \<in> set cs" using c by simp
    ultimately show ?thesis unfolding u using c d
      by (auto simp: bs nth_append intro: distinct_list_update)
  qed
  then show "distinct ?bs" "set ?bs = set bs - {bs ! i}" "take i ?bs = take i bs" by auto
qed

lemma live_register_spec:
  assumes "length (mc_live mc) \<le> mc_live_cap mc" "0 < mc_live_cap mc" "mc_live_cap mc < 2147483648"
  shows "\<exists>cap. live_register mc a = Some (mc\<lparr>mc_live_cap := cap, mc_live := mc_live mc @ [a]\<rparr>) \<and>
               length (mc_live mc) < cap"
proof -
  let ?cap = "if length (mc_live mc) = mc_live_cap mc then mc_live_cap mc * 2 else mc_live_cap mc"
  have "live_register mc a = Some (mc\<lparr>mc_live_cap := ?cap, mc_live := mc_live mc @ [a]\<rparr>)"
    using assms by (simp add: live_register_def Let_def)
  then show ?thesis using assms by (intro exI [of _ ?cap]) simp
qed

lemma live_unregister_at:
  assumes "distinct (mc_live mc)" "i < length (mc_live mc)"
  shows "live_unregister mc (mc_live mc ! i) =
         Some (mc\<lparr>mc_live := butlast ((mc_live mc)[i := last (mc_live mc)])\<rparr>)"
  using swap_remove_at [OF assms, of "length (mc_live mc)"] by (simp add: live_unregister_def)

section \<open>Allocation and release\<close>

lemma mc_invD:
  assumes "mc_inv mc"
  shows "ht_inv (mc_handles mc)" "distinct (mc_live mc)" "dom (mc_heap mc) = set (mc_live mc)"
    "ht_map (mc_handles mc) h = Some a \<longleftrightarrow> (\<exists>b. mc_heap mc a = Some b \<and> bh_handle b = h)"
  using assms by (auto simp: mc_inv_def)

lemma mc_objs_Some:
  "mc_objs mc h = Some (a, n) \<longleftrightarrow> ht_map (mc_handles mc) h = Some a \<and>
     (\<exists>b. mc_heap mc a = Some b \<and> bh_user_size b = n)"
  by (auto simp: mc_objs_def fault_simps)

lemma mc_objs_None: "mc_inv mc \<Longrightarrow> mc_objs mc h = None \<longleftrightarrow> ht_map (mc_handles mc) h = None"
proof -
  assume "mc_inv mc"
  then have "ht_map (mc_handles mc) h = Some a \<Longrightarrow> mc_heap mc a \<noteq> None" for a
    by (auto simp: mc_invD(4))
  then show ?thesis by (cases "ht_map (mc_handles mc) h") (auto simp: mc_objs_def)
qed

lemma memctrl_alloc_spec:
  assumes inv: "mc_inv mc" and room: "mc_room mc" and fresh: "mc_heap mc a = None" and n: "0 < n"
  obtains mc' h where "cando_memctrl_alloc mc a n = Some (mc', h)" "mc_inv mc'" "mc_objs mc h = None"
    "h \<noteq> u32_max" "mc_objs mc' = (mc_objs mc)(h \<mapsto> (a, n))"
proof -
  note inv' = mc_invD [OF inv]
  obtain t h where t: "cando_handle_alloc (mc_handles mc) a = Some (t, h)" "ht_inv t"
      "ht_map (mc_handles mc) h = None" "h \<noteq> u32_max" "ht_map t = (ht_map (mc_handles mc))(h \<mapsto> a)"
    using hts.alloc_law [OF inv'(1)] room unfolding mc_room_def by blast
  let ?b = "\<lparr>bh_handle = h, bh_user_size = n\<rparr>"
  let ?m = "mc\<lparr>mc_handles := t, mc_heap := (mc_heap mc)(a \<mapsto> ?b)\<rparr>"
  obtain cap where reg: "live_register ?m a = Some (?m\<lparr>mc_live_cap := cap, mc_live := mc_live ?m @ [a]\<rparr>)"
      and cap: "length (mc_live ?m) < cap"
    using live_register_spec [of ?m a] inv room by (auto simp: mc_inv_def mc_room_def)
  let ?mc' = "?m\<lparr>mc_live_cap := cap, mc_live := mc_live ?m @ [a]\<rparr>"
  have nohandle: "bh_handle b \<noteq> h" if "mc_heap mc x = Some b" for x b
    using that t(3) inv'(4) [of h x] by auto
  have noaddr: "ht_map (mc_handles mc) k \<noteq> Some a" for k using inv'(4) [of k a] fresh by auto
  have "ht_map t k = Some x \<longleftrightarrow> (\<exists>b. mc_heap ?mc' x = Some b \<and> bh_handle b = k)" for k x
    using nohandle noaddr [of k] inv'(4) [of k x] by (auto simp: t(5))
  then have "mc_inv ?mc'"
    using inv fresh cap t(2) unfolding mc_inv_def by (simp add: domIff [symmetric]) auto
  moreover have "mc_objs mc h = None" using t(3) by (simp add: mc_objs_None [OF inv])
  moreover have "mc_objs ?mc' = (mc_objs mc)(h \<mapsto> (a, n))"
    using noaddr by (auto simp: fun_eq_iff mc_objs_def t(5) split: Option.bind_split)
  moreover have "cando_memctrl_alloc mc a n = Some (?mc', h)"
    using n t(1) reg by (simp add: cando_memctrl_alloc_def)
  ultimately show thesis using that t(4) by blast
qed

lemma release_block_spec:
  assumes inv: "mc_inv mc" and h: "ht_map (mc_handles mc) h = Some a"
    and i: "i < length (mc_live mc)" "mc_live mc ! i = a"
  obtains mc' where "release_block mc a h = Some mc'" "mc_inv mc'" "mc_objs mc' = (mc_objs mc)(h := None)"
    "ht_marks (mc_handles mc') = ht_marks (mc_handles mc) - {h}"
    "take i (mc_live mc') = take i (mc_live mc)"
proof -
  note inv' = mc_invD [OF inv]
  obtain b where b: "mc_heap mc a = Some b" "bh_handle b = h" using h inv'(4) by auto
  define bs where "bs = butlast ((mc_live mc)[i := last (mc_live mc)])"
  have bs: "live_unregister mc a = Some (mc\<lparr>mc_live := bs\<rparr>)" "distinct bs" "set bs = set (mc_live mc) - {a}"
      "take i bs = take i (mc_live mc)" "length bs \<le> length (mc_live mc)"
    using live_unregister_at [OF inv'(2) i(1)] swap_out [OF inv'(2) i(1)] i(2) by (simp_all add: bs_def)
  obtain t where t: "cando_handle_free (mc_handles mc) h = Some t" "ht_inv t"
      "ht_map t = (ht_map (mc_handles mc))(h := None)" "ht_marks t = ht_marks (mc_handles mc) - {h}"
    using hts.free_law [OF inv'(1) h] by blast
  let ?mc' = "mc\<lparr>mc_live := bs, mc_handles := t, mc_heap := (mc_heap mc)(a := None)\<rparr>"
  have rel: "release_block mc a h = Some ?mc'" by (simp add: release_block_def bs t)
  have one: "ht_map (mc_handles mc) k = Some a \<longleftrightarrow> k = h" for k using inv'(4) [of k a] b by auto
  have "ht_map t k = Some x \<longleftrightarrow> (\<exists>c. mc_heap ?mc' x = Some c \<and> bh_handle c = k)" for k x
    using inv'(4) [of k x] one [of k] h by (cases "x = a") (auto simp: t(3))
  moreover have "dom (mc_heap ?mc') = set bs" using inv'(3) bs(3) by auto
  ultimately have "mc_inv ?mc'" using inv t(2) bs(2,5) unfolding mc_inv_def by simp
  moreover have "mc_objs ?mc' = (mc_objs mc)(h := None)"
    using one by (auto simp: fun_eq_iff mc_objs_def t(3) split: Option.bind_split)
  ultimately show thesis using that rel t bs(4) by simp
qed

lemma live_index:
  assumes "mc_inv mc" "ht_map (mc_handles mc) h = Some a"
  obtains i where "i < length (mc_live mc)" "mc_live mc ! i = a"
proof -
  have "a \<in> set (mc_live mc)" using mc_invD(3,4) [OF assms(1)] assms(2) by auto
  then show thesis using that by (auto simp: in_set_conv_nth)
qed

section \<open>The sweep\<close>

text \<open>Positions below the index hold marked blocks; every unmarked live handle loses its block.\<close>

lemma gc_sweep_loop_spec:
  assumes "mc_inv mc"
    and "\<forall>a \<in> set (take i (mc_live mc)). \<forall>b. mc_heap mc a = Some b \<longrightarrow> bh_handle b \<in> ht_marks (mc_handles mc)"
  shows "\<exists>mc'. gc_sweep_loop mc i = Some mc' \<and> mc_inv mc' \<and>
      mc_objs mc' = mc_objs mc |` ht_marks (mc_handles mc)"
  using assms
proof (induction mc i rule: gc_sweep_loop.induct)
  case (1 mc i)
  note inv' = mc_invD [OF "1.prems"(1)]
  show ?case
  proof (cases "i < length (mc_live mc)")
    case False
    have "h \<in> ht_marks (mc_handles mc)" if h: "ht_map (mc_handles mc) h = Some a" for h a
    proof -
      obtain b where "mc_heap mc a = Some b" "bh_handle b = h" using h inv'(4) by blast
      moreover have "a \<in> set (take i (mc_live mc))"
        using live_index [OF "1.prems"(1) h] False by (auto simp: in_set_conv_nth)
      ultimately show ?thesis using "1.prems"(2) by blast
    qed
    then have "mc_objs mc h = None" if "h \<notin> ht_marks (mc_handles mc)" for h
      using that mc_objs_None [OF "1.prems"(1), of h] by (metis option.exhaust)
    then have "mc_objs mc = mc_objs mc |` ht_marks (mc_handles mc)"
      by (simp add: fun_eq_iff restrict_map_def)
    then show ?thesis using False "1.prems"(1) by (simp add: gc_sweep_loop.simps)
  next
    case True
    define hdr where "hdr = mc_live mc ! i"
    have "hdr \<in> dom (mc_heap mc)" using True by (simp add: inv'(3) hdr_def)
    then obtain b where b: "mc_heap mc hdr = Some b" by auto
    let ?h = "bh_handle b"
    have h: "ht_map (mc_handles mc) ?h = Some hdr" using inv'(4) b by blast
    have m: "cando_handle_is_marked (mc_handles mc) ?h = Some (?h \<in> ht_marks (mc_handles mc))"
      using hts.is_marked_law [OF inv'(1) h] .
    show ?thesis
    proof (cases "?h \<in> ht_marks (mc_handles mc)")
      case marked: True
      have "gc_sweep_loop mc i = gc_sweep_loop mc (Suc i)"
        using True b m marked by (simp add: gc_sweep_loop.simps [of mc i] hdr_def)
      moreover have "\<forall>a \<in> set (take (Suc i) (mc_live mc)). \<forall>b. mc_heap mc a = Some b \<longrightarrow>
          bh_handle b \<in> ht_marks (mc_handles mc)"
        using "1.prems"(2) True b marked by (auto simp: take_Suc_conv_app_nth hdr_def)
      ultimately show ?thesis
        using "1.IH"(2) [OF True refl _ _ _ "1.prems"(1)] b m marked by (simp add: hdr_def)
    next
      case unmarked: False
      obtain mc1 where mc1: "release_block mc hdr ?h = Some mc1" "mc_inv mc1"
          "mc_objs mc1 = (mc_objs mc)(?h := None)" "take i (mc_live mc1) = take i (mc_live mc)"
          "ht_marks (mc_handles mc1) = ht_marks (mc_handles mc) - {?h}"
        using release_block_spec [OF "1.prems"(1) h True] by (metis hdr_def)
      have heap: "mc_heap mc1 a = Some c \<Longrightarrow> mc_heap mc a = Some c" for a c
        using mc1(1) by (auto simp: release_block_def live_unregister_def fault_simps split: if_splits)
      have marks: "ht_marks (mc_handles mc1) = ht_marks (mc_handles mc)" using unmarked mc1(5) by simp
      have "gc_sweep_loop mc i = gc_sweep_loop mc1 i"
        using True b m unmarked mc1(1) by (simp add: gc_sweep_loop.simps [of mc i] hdr_def)
      moreover have "\<exists>mc'. gc_sweep_loop mc1 i = Some mc' \<and> mc_inv mc' \<and>
          mc_objs mc' = mc_objs mc1 |` ht_marks (mc_handles mc1)"
        using "1.prems"(2) heap
        by (intro "1.IH"(1) [OF True refl _ _ _ _ mc1(2)]) (use b m unmarked mc1 marks in \<open>auto simp: hdr_def\<close>)
      moreover have "mc_objs mc1 |` ht_marks (mc_handles mc) = mc_objs mc |` ht_marks (mc_handles mc)"
        using unmarked by (auto simp: mc1(3) restrict_map_def)
      ultimately show ?thesis by (simp add: marks)
    qed
  qed
qed

lemma gc_collect_spec:
  assumes inv: "mc_inv mc" and roots: "\<forall>h \<in> set roots. h \<noteq> u32_max \<longrightarrow> mc_objs mc h \<noteq> None"
  shows "\<exists>mc'. cando_gc_collect mc roots = Some mc' \<and> mc_inv mc' \<and> mc_objs mc' = mc_objs mc |` (set roots - {u32_max})"
proof -
  let ?t = "cando_handle_clear_marks (mc_handles mc)"
  have cl: "ht_inv ?t" "ht_map ?t = ht_map (mc_handles mc)" "ht_marks ?t = {}"
    using hts.clear_law [OF mc_invD(1) [OF inv]] by auto
  have "\<forall>h \<in> set roots. h \<noteq> u32_max \<longrightarrow> ht_map ?t h \<noteq> None"
    using roots by (simp add: cl mc_objs_None [OF inv])
  then obtain t where t: "mfold cando_gc_mark roots ?t = Some t" "ht_inv t" "ht_map t = ht_map (mc_handles mc)"
      "ht_marks t = set roots - {u32_max}"
    using hts.mark_all [OF cl(1), of roots] unfolding cando_gc_mark_def [abs_def] cl by auto
  let ?m = "mc\<lparr>mc_handles := t\<rparr>"
  have "mc_inv ?m" using inv t by (simp add: mc_inv_def)
  then obtain mc' where "gc_sweep_loop ?m 0 = Some mc'" "mc_inv mc'" "mc_objs mc' = mc_objs ?m |` ht_marks t"
    using gc_sweep_loop_spec [of ?m 0] by auto
  moreover have "mc_objs ?m = mc_objs mc" by (simp add: mc_objs_def t fun_eq_iff)
  ultimately show ?thesis by (simp add: cando_gc_collect_def cando_gc_sweep_def t)
qed

section \<open>Properties\<close>

lemma memctrl_init_inv: "mc_inv cando_memctrl_init" "mc_objs cando_memctrl_init = Map.empty"
  using init_inv [of 0] by (simp_all add: mc_inv_def cando_memctrl_init_def mc_objs_def fun_eq_iff)

text \<open>C15. Memory safety of the collector: whatever valid handles (or invalid ones, which are skipped)
  are given as roots, a collection runs to the end without a failed assertion, keeps exactly the rooted
  objects with their blocks and sizes, frees every other block, and restores the invariant.\<close>

theorem gc_collect_keeps_exactly_roots:
  assumes "mc_inv mc" "\<forall>h \<in> set roots. h \<noteq> u32_max \<longrightarrow> mc_objs mc h \<noteq> None"
  shows "\<exists>mc'. cando_gc_collect mc roots = Some mc' \<and> mc_inv mc' \<and>
           mc_objs mc' = mc_objs mc |` (set roots - {u32_max}) \<and> dom (mc_heap mc') = set (mc_live mc')"
proof -
  obtain mc' where "cando_gc_collect mc roots = Some mc'" "mc_inv mc'"
      "mc_objs mc' = mc_objs mc |` (set roots - {u32_max})"
    using gc_collect_spec [OF assms] by blast
  then show ?thesis using mc_invD(3) by blast
qed

definition wit_mem :: mem_ctrl where
  "wit_mem = \<lparr>mc_handles = wit_table, mc_live = [64], mc_live_cap = 64,
              mc_heap = [64 \<mapsto> \<lparr>bh_handle = 0, bh_user_size = 16\<rparr>]\<rparr>"

lemma wit_mem_inv: "mc_inv wit_mem"
proof -
  have l: "live_at wit_table i \<longleftrightarrow> i = 0" for i
    by (auto simp: live_at_def wit_table_def free_slot_def less_Suc_eq nth_Cons split: nat.splits)
  have "ht_map wit_table h = Some a \<longleftrightarrow> h = 0 \<and> a = 64" for h a
    by (auto simp: ht_map_def l) (auto simp: wit_table_def)
  then show ?thesis by (auto simp: mc_inv_def wit_mem_def wit_table_inv)
qed

theorem gc_collect_keeps_exactly_roots_witness:
  "\<exists>mc'. cando_gc_collect wit_mem [u32_max] = Some mc' \<and> mc_inv mc' \<and> mc_objs mc' = Map.empty"
proof -
  have "\<forall>h \<in> set [u32_max]. h \<noteq> u32_max \<longrightarrow> mc_objs wit_mem h \<noteq> None" by simp
  from gc_collect_keeps_exactly_roots [OF wit_mem_inv this] show ?thesis by auto
qed

text \<open>An allocation returns a new handle bound to the given block, registers the block, leaves every
  other object untouched, and can be undone: freeing the handle restores the objects there were before.\<close>

theorem memctrl_alloc_then_free:
  assumes "mc_inv mc" "mc_room mc" "mc_heap mc a = None" "0 < n"
  shows "\<exists>mc' h mc''. cando_memctrl_alloc mc a n = Some (mc', h) \<and> mc_inv mc' \<and> mc_objs mc h = None \<and>
           mc_objs mc' = (mc_objs mc)(h \<mapsto> (a, n)) \<and>
           cando_memctrl_free mc' h = Some mc'' \<and> mc_inv mc'' \<and> mc_objs mc'' = mc_objs mc"
proof -
  obtain mc' h where A: "cando_memctrl_alloc mc a n = Some (mc', h)" "mc_inv mc'" "mc_objs mc h = None"
      "mc_objs mc' = (mc_objs mc)(h \<mapsto> (a, n))"
    using memctrl_alloc_spec [OF assms] by metis
  then have m: "ht_map (mc_handles mc') h = Some a" using mc_objs_Some [of mc' h a n] by simp
  obtain i where i: "i < length (mc_live mc')" "mc_live mc' ! i = a" using live_index [OF A(2) m] .
  obtain mc'' where F: "release_block mc' a h = Some mc''" "mc_inv mc''" "mc_objs mc'' = (mc_objs mc')(h := None)"
    using release_block_spec [OF A(2) m i] by metis
  have "cando_memctrl_free mc' h = Some mc''"
    using F(1) m hts.get_law [OF mc_invD(1) [OF A(2)]] by (simp add: cando_memctrl_free_def)
  moreover have "mc_objs mc'' = mc_objs mc" using F(3) A(3,4) by (simp add: fun_upd_idem)
  ultimately show ?thesis using A F(2) by blast
qed

theorem memctrl_alloc_then_free_witness:
  "\<exists>mc' h mc''. cando_memctrl_alloc wit_mem 200 8 = Some (mc', h) \<and> cando_memctrl_free mc' h = Some mc'' \<and>
     mc_objs mc'' = mc_objs wit_mem"
proof -
  have "mc_room wit_mem" "mc_heap wit_mem 200 = None" by (simp_all add: mc_room_def wit_mem_def wit_table_def)
  from memctrl_alloc_then_free [OF wit_mem_inv this, of 8] show ?thesis by auto
qed

end
