(* ===== verification/Spin_Lock.thy ===== *)
theory Spin_Lock
  imports Prelude
begin

text \<open>
  The reader/writer spin lock at the head of every heap object (\<open>source/core/lock.c\<close>). Each thread
  runs \<open>cando_lock_read_acquire\<close>, \<open>cando_lock_read_release\<close>, \<open>cando_lock_write_acquire\<close> and
  \<open>cando_lock_write_release\<close> one atomic operation at a time; the steps of the threads interleave
  arbitrarily, under sequential consistency (the acquire and release orders of the code are not
  modelled as anything weaker). Failed spins, spurious failures of the weak compare-and-swap and
  yields change nothing and are not steps.
\<close>

section \<open>State\<close>

record lock_hdr =
  lk_id :: nat
  lk_readers :: nat
  lk_depth :: nat

text \<open>
  The program point of a thread: idle, or about to execute one atomic operation. \<open>RWait\<close>, \<open>RInc\<close>,
  \<open>RCheck\<close>, \<open>RBack\<close> are the read acquisition, \<open>RRel\<close> the read release, \<open>WEnter\<close>, \<open>WReenter\<close>,
  \<open>WCas\<close>, \<open>WDrain\<close>, \<open>WSet\<close> the write acquisition, \<open>URel\<close>, \<open>UDec\<close>, \<open>UClear\<close> the write release.
\<close>

datatype lock_pc = Idle | RWait | RInc | RCheck | RBack | RRel
  | WEnter | WReenter | WCas | WDrain | WSet | URel | UDec | UClear

text \<open>\<open>th_reads\<close> and \<open>th_depth\<close> count the acquisitions that returned and were not yet released.\<close>

record lock_thread =
  th_pc :: lock_pc
  th_reads :: nat
  th_depth :: nat

type_synonym lock_sys = "lock_hdr \<times> (nat \<Rightarrow> lock_thread)"

definition cando_lock_init :: lock_hdr where
  "cando_lock_init = \<lparr>lk_id = 0, lk_readers = 0, lk_depth = 0\<rparr>"

definition idle_thread :: lock_thread where
  "idle_thread = \<lparr>th_pc = Idle, th_reads = 0, th_depth = 0\<rparr>"

definition cando_lock_is_write_held_by_me :: "nat \<Rightarrow> lock_hdr \<Rightarrow> bool" where
  "cando_lock_is_write_held_by_me me h \<longleftrightarrow> lk_id h = me"

section \<open>Atomic steps of one thread\<close>

text \<open>
  \<open>lock_op R me h l h' l'\<close>: thread \<open>me\<close> with locals \<open>l\<close> does its next atomic operation on the header.
  A client releases only what it holds and nests at most \<open>R\<close> acquisitions of each kind.
\<close>

inductive lock_op :: "nat \<Rightarrow> nat \<Rightarrow> lock_hdr \<Rightarrow> lock_thread \<Rightarrow> lock_hdr \<Rightarrow> lock_thread \<Rightarrow> bool"
  for R me where
  call_read_acquire: "th_pc l = Idle \<Longrightarrow> th_reads l < R \<Longrightarrow> lock_op R me h l h (l\<lparr>th_pc := RWait\<rparr>)"
| call_read_release: "th_pc l = Idle \<Longrightarrow> 0 < th_reads l \<Longrightarrow> lock_op R me h l h (l\<lparr>th_pc := RRel\<rparr>)"
| call_write_acquire: "th_pc l = Idle \<Longrightarrow> th_depth l < R \<Longrightarrow> lock_op R me h l h (l\<lparr>th_pc := WEnter\<rparr>)"
| call_write_release: "th_pc l = Idle \<Longrightarrow> 0 < th_depth l \<Longrightarrow> lock_op R me h l h (l\<lparr>th_pc := URel\<rparr>)"
| read_wait: "th_pc l = RWait \<Longrightarrow> lk_id h = 0 \<Longrightarrow> lock_op R me h l h (l\<lparr>th_pc := RInc\<rparr>)"
| read_announce: "th_pc l = RInc \<Longrightarrow>
    lock_op R me h l (h\<lparr>lk_readers := u32 (lk_readers h + 1)\<rparr>) (l\<lparr>th_pc := RCheck\<rparr>)"
| read_acquired: "th_pc l = RCheck \<Longrightarrow> lk_id h = 0 \<Longrightarrow>
    lock_op R me h l h (l\<lparr>th_pc := Idle, th_reads := th_reads l + 1\<rparr>)"
| read_beaten: "th_pc l = RCheck \<Longrightarrow> lk_id h \<noteq> 0 \<Longrightarrow> lock_op R me h l h (l\<lparr>th_pc := RBack\<rparr>)"
| read_back_off: "th_pc l = RBack \<Longrightarrow>
    lock_op R me h l (h\<lparr>lk_readers := u32 (lk_readers h + u32_max)\<rparr>) (l\<lparr>th_pc := RWait\<rparr>)"
| read_release: "th_pc l = RRel \<Longrightarrow> 0 < lk_readers h \<Longrightarrow>
    lock_op R me h l (h\<lparr>lk_readers := u32 (lk_readers h + u32_max)\<rparr>)
      (l\<lparr>th_pc := Idle, th_reads := th_reads l - 1\<rparr>)"
| write_reenter: "th_pc l = WEnter \<Longrightarrow> lk_id h = me \<Longrightarrow> lock_op R me h l h (l\<lparr>th_pc := WReenter\<rparr>)"
| write_fresh: "th_pc l = WEnter \<Longrightarrow> lk_id h \<noteq> me \<Longrightarrow> lock_op R me h l h (l\<lparr>th_pc := WCas\<rparr>)"
| write_deepen: "th_pc l = WReenter \<Longrightarrow>
    lock_op R me h l (h\<lparr>lk_depth := u32 (lk_depth h + 1)\<rparr>) (l\<lparr>th_pc := Idle, th_depth := th_depth l + 1\<rparr>)"
| write_cas: "th_pc l = WCas \<Longrightarrow> lk_id h = 0 \<Longrightarrow> lock_op R me h l (h\<lparr>lk_id := me\<rparr>) (l\<lparr>th_pc := WDrain\<rparr>)"
| write_drained: "th_pc l = WDrain \<Longrightarrow> lk_readers h = 0 \<Longrightarrow> lock_op R me h l h (l\<lparr>th_pc := WSet\<rparr>)"
| write_acquired: "th_pc l = WSet \<Longrightarrow>
    lock_op R me h l (h\<lparr>lk_depth := 1\<rparr>) (l\<lparr>th_pc := Idle, th_depth := 1\<rparr>)"
| release_check: "th_pc l = URel \<Longrightarrow> cando_lock_is_write_held_by_me me h \<Longrightarrow>
    lock_op R me h l h (l\<lparr>th_pc := UDec\<rparr>)"
| release_last: "th_pc l = UDec \<Longrightarrow> lk_depth h = 1 \<Longrightarrow>
    lock_op R me h l (h\<lparr>lk_depth := 0\<rparr>) (l\<lparr>th_pc := UClear, th_depth := th_depth l - 1\<rparr>)"
| release_inner: "th_pc l = UDec \<Longrightarrow> lk_depth h \<noteq> 1 \<Longrightarrow>
    lock_op R me h l (h\<lparr>lk_depth := u32 (lk_depth h + u32_max)\<rparr>)
      (l\<lparr>th_pc := Idle, th_depth := th_depth l - 1\<rparr>)"
| release_clear: "th_pc l = UClear \<Longrightarrow> lock_op R me h l (h\<lparr>lk_id := 0\<rparr>) (l\<lparr>th_pc := Idle\<rparr>)"

inductive_cases lock_opE: "lock_op R me h l h' l'"

text \<open>The threads \<open>T\<close> interleave.\<close>

inductive lock_step :: "nat set \<Rightarrow> nat \<Rightarrow> lock_sys \<Rightarrow> lock_sys \<Rightarrow> bool" for T R where
  lock_step: "t \<in> T \<Longrightarrow> lock_op R t h (f t) h' l' \<Longrightarrow> lock_step T R (h, f) (h', f(t := l'))"

inductive_cases lock_stepE: "lock_step T R s s'"

definition lock_start :: lock_sys where
  "lock_start = (cando_lock_init, \<lambda>_. idle_thread)"

section \<open>The invariant\<close>

text \<open>The threads whose identity is in \<open>lock_id\<close>, and their contribution to \<open>readers\<close>.\<close>

definition owns :: "lock_thread \<Rightarrow> bool" where
  "owns l \<longleftrightarrow> th_pc l \<in> {WDrain, WSet, UClear} \<or> 0 < th_depth l"

definition excludes :: "lock_thread \<Rightarrow> bool" where
  "excludes l \<longleftrightarrow> th_pc l \<in> {WSet, UClear} \<or> 0 < th_depth l"

definition read_share :: "lock_thread \<Rightarrow> nat" where
  "read_share l = th_reads l + (if th_pc l \<in> {RCheck, RBack} then 1 else 0)"

definition thread_ok :: "nat \<Rightarrow> lock_thread \<Rightarrow> bool" where
  "thread_ok R l \<longleftrightarrow>
     th_reads l \<le> R \<and> th_depth l \<le> R \<and>
     (th_pc l \<in> {RWait, RInc, RCheck, RBack} \<longrightarrow> th_reads l < R) \<and>
     (th_pc l \<in> {WEnter, WReenter, WCas, WDrain, WSet} \<longrightarrow> th_depth l < R) \<and>
     (th_pc l = RRel \<longrightarrow> 0 < th_reads l) \<and>
     (th_pc l \<in> {WReenter, URel, UDec} \<longrightarrow> 0 < th_depth l) \<and>
     (th_pc l \<in> {RInc, RCheck, RBack, WCas, WDrain, WSet, UClear} \<longrightarrow> th_depth l = 0)"

definition lock_inv :: "nat set \<Rightarrow> nat \<Rightarrow> lock_sys \<Rightarrow> bool" where
  "lock_inv T R s \<longleftrightarrow> (case s of (h, f) \<Rightarrow>
     (\<forall>t \<in> T. thread_ok R (f t)) \<and>
     (lk_id h = 0 \<or> lk_id h \<in> T) \<and>
     (\<forall>t \<in> T. lk_id h = t \<longleftrightarrow> owns (f t)) \<and>
     lk_readers h = (\<Sum>t \<in> T. read_share (f t)) \<and>
     (\<forall>t \<in> T. excludes (f t) \<longrightarrow> (\<forall>u \<in> T. th_reads (f u) = 0)) \<and>
     (\<forall>t \<in> T. 0 < th_depth (f t) \<longrightarrow> lk_depth h = th_depth (f t)))"

text \<open>The assumptions about the threads: they are finitely many, none has id 0, and the counters
  of the header can count what they nest.\<close>

definition threads_ok :: "nat set \<Rightarrow> nat \<Rightarrow> bool" where
  "threads_ok T R \<longleftrightarrow> finite T \<and> 0 \<notin> T \<and> T \<noteq> {} \<and> card T * (R + 1) \<le> u32_max"

lemma read_share_le: "thread_ok R l \<Longrightarrow> read_share l \<le> R"
  by (cases "th_pc l") (simp_all add: thread_ok_def read_share_def)

lemma lock_invD:
  assumes "lock_inv T R (h, f)" "t \<in> T"
  shows "thread_ok R (f t)" "lk_id h = t \<longleftrightarrow> owns (f t)" "lk_id h = 0 \<or> lk_id h \<in> T"
    "lk_readers h = (\<Sum>t \<in> T. read_share (f t))"
    "u \<in> T \<Longrightarrow> excludes (f t) \<Longrightarrow> th_reads (f u) = 0"
    "0 < th_depth (f t) \<Longrightarrow> lk_depth h = th_depth (f t)"
  using assms unfolding lock_inv_def by (simp_all add: split_def) blast

lemma readers_bound:
  assumes "threads_ok T R" "lock_inv T R (h, f)"
  shows "lk_readers h + card T \<le> u32_max" "R \<le> u32_max" "finite T"
proof -
  have "(\<Sum>t \<in> T. read_share (f t)) \<le> card T * R"
    using assms(2) by (intro sum_bounded_above [of T _ R, simplified]) (simp add: lock_inv_def read_share_le)
  moreover have "lk_readers h = (\<Sum>t \<in> T. read_share (f t))" using assms(2) by (simp add: lock_inv_def)
  ultimately have "lk_readers h \<le> card T * R" by simp
  moreover have c: "card T * R + card T \<le> u32_max" using assms(1) by (simp add: threads_ok_def)
  ultimately show "lk_readers h + card T \<le> u32_max" by linarith
  show "finite T" using assms(1) by (simp add: threads_ok_def)
  then have "0 < card T" using assms(1) by (simp add: threads_ok_def card_gt_0_iff)
  then have "R \<le> card T * R" by simp
  then show "R \<le> u32_max" using c by linarith
qed

lemma lock_inv_start: "threads_ok T R \<Longrightarrow> lock_inv T R lock_start"
  by (simp add: lock_inv_def lock_start_def cando_lock_init_def idle_thread_def thread_ok_def
      owns_def excludes_def read_share_def threads_ok_def) fastforce

lemmas thread_defs = thread_ok_def owns_def excludes_def read_share_def

section \<open>What one atomic operation does\<close>

lemma op_thread_ok:
  assumes "lock_op R t h l h' l'" "thread_ok R l" "lk_id h = t \<longleftrightarrow> owns l"
    "0 < th_depth l \<Longrightarrow> lk_depth h = th_depth l" "0 < t"
  shows "thread_ok R l'"
  using assms by (cases rule: lock_op.cases; simp add: thread_defs; linarith?)

lemma op_id:
  assumes "lock_op R t h l h' l'" "thread_ok R l" "lk_id h = t \<longleftrightarrow> owns l"
    "0 < th_depth l \<Longrightarrow> lk_depth h = th_depth l" "0 < t"
  shows "lk_id h' = t \<longleftrightarrow> owns l'" "u \<noteq> t \<Longrightarrow> u \<noteq> 0 \<Longrightarrow> lk_id h' = u \<longleftrightarrow> lk_id h = u"
    "lk_id h' \<in> {0, t, lk_id h}"
  using assms by (cases rule: lock_op.cases; simp add: thread_defs cando_lock_is_write_held_by_me_def; fail)+

lemma op_readers:
  assumes "lock_op R t h l h' l'" "thread_ok R l" "lk_readers h < u32_max" "read_share l \<le> lk_readers h"
  shows "lk_readers h' + read_share l = lk_readers h + read_share l'"
  using assms by (cases rule: lock_op.cases) (simp_all add: thread_defs u32_pred)

lemma op_reads:
  assumes "lock_op R t h l h' l'"
  shows "th_reads l' \<le> th_reads l \<or> lk_id h = 0"
  using assms by (cases rule: lock_op.cases) auto

lemma op_excludes:
  assumes "lock_op R t h l h' l'" "thread_ok R l" "excludes l'" "\<not> excludes l"
  shows "lk_readers h = 0 \<and> th_reads l' = th_reads l"
  using assms by (cases rule: lock_op.cases) (simp_all add: thread_defs)

lemma op_depth:
  assumes "lock_op R t h l h' l'" "thread_ok R l" "R \<le> u32_max"
    "0 < th_depth l \<Longrightarrow> lk_depth h = th_depth l"
  shows "0 < th_depth l' \<Longrightarrow> lk_depth h' = th_depth l'" "lk_depth h' = lk_depth h \<or> owns l"
  using assms by (cases rule: lock_op.cases; simp add: thread_defs u32_pred; fail)+

section \<open>The invariant is preserved\<close>

lemma lock_inv_step:
  assumes T: "threads_ok T R" and inv: "lock_inv T R s" and step: "lock_step T R s s'"
  shows "lock_inv T R s'"
proof -
  obtain t h f h' l' where s: "s = (h, f)" "s' = (h', f(t := l'))" and t: "t \<in> T"
    and op: "lock_op R t h (f t) h' l'"
    using step by (cases rule: lock_step.cases) auto
  note inv = inv [unfolded s]
  note D = lock_invD [OF inv] and Dt = lock_invD [OF inv t]
  note bound = readers_bound [OF T inv]
  have t0: "0 < t" using t T by (auto simp: threads_ok_def intro: gr0I)
  have one: "t' = t" if "t' \<in> T" "owns (f t')" "owns (f t)" for t' using that D(2) Dt(2) by metis
  note ok = op_thread_ok [OF op Dt(1,2) Dt(6) t0]
  note id = op_id [OF op Dt(1,2) Dt(6) t0]
  have "read_share (f t) \<le> lk_readers h"
    unfolding Dt(4) using t bound(3) by (intro member_le_sum) auto
  moreover have "0 < card T" using t bound(3) by (auto simp: card_gt_0_iff)
  ultimately have rd: "lk_readers h' + read_share (f t) = lk_readers h + read_share l'"
    using bound(1) by (intro op_readers [OF op Dt(1)]) linarith+
  note dp = op_depth [OF op Dt(1) bound(2) Dt(6)]
  have "thread_ok R ((f(t := l')) u)" if "u \<in> T" for u using ok D(1) that by simp
  moreover have "lk_id h' = 0 \<or> lk_id h' \<in> T" using id(3) Dt(3) t by auto
  moreover have "lk_id h' = u \<longleftrightarrow> owns ((f(t := l')) u)" if u: "u \<in> T" for u
  proof (cases "u = t")
    case False
    moreover have "u \<noteq> 0" using u T by (metis threads_ok_def)
    ultimately show ?thesis using id(2) [of u] D(2) [OF u] by simp
  qed (simp add: id(1))
  moreover have "lk_readers h' = (\<Sum>u \<in> T. read_share ((f(t := l')) u))"
    using sum_change_one [OF bound(3) t, of "\<lambda>u. read_share ((f(t := l')) u)" "\<lambda>u. read_share (f u)"]
      rd Dt(4) by simp
  moreover have "th_reads ((f(t := l')) u) = 0" if v: "v \<in> T" "excludes ((f(t := l')) v)" and u: "u \<in> T" for u v
  proof -
    have zero: "th_reads (f w) = 0" if "w \<in> T" "excludes (f v)" for w using D(5) [OF v(1)] that by simp
    have own: "excludes l \<Longrightarrow> owns l" for l by (auto simp: excludes_def owns_def)
    show ?thesis
    proof (cases "excludes (f v)")
      case True
      then have "lk_id h = v" using D(2) [OF v(1)] own by simp
      moreover have "v \<noteq> 0" using v(1) T by (auto simp: threads_ok_def)
      ultimately show ?thesis using op_reads [OF op] zero [OF t True] zero [OF u True] by auto
    next
      case False
      then have "v = t" "excludes l'" using v(2) by (auto split: if_splits)
      then have "lk_readers h = 0" "th_reads l' = th_reads (f t)"
        using op_excludes [OF op Dt(1)] False by auto
      moreover have "read_share (f w) = 0" if "w \<in> T" for w
        using that bound(3) Dt(4) \<open>lk_readers h = 0\<close> by simp
      ultimately show ?thesis using u t by (auto simp: read_share_def)
    qed
  qed
  moreover have "lk_depth h' = th_depth ((f(t := l')) u)" if u: "u \<in> T" "0 < th_depth ((f(t := l')) u)" for u
  proof (cases "u = t")
    case False
    then have "owns (f u)" using u by (simp add: owns_def)
    then have "\<not> owns (f t)" using one [OF u(1)] False by blast
    then show ?thesis using dp(2) D(6) [OF u(1)] u False by simp
  qed (use dp(1) u in simp)
  ultimately show ?thesis unfolding s lock_inv_def by blast
qed

interpretation lock_inv: step_invariant "lock_step T R" "\<lambda>s. threads_ok T R \<and> lock_inv T R s" for T R
  by unfold_locales (blast intro: lock_inv_step)

definition lock_reachable :: "nat set \<Rightarrow> nat \<Rightarrow> lock_sys \<Rightarrow> bool" where
  "lock_reachable T R s \<longleftrightarrow> (lock_step T R)\<^sup>*\<^sup>* lock_start s"

lemma reachable_inv: "threads_ok T R \<Longrightarrow> lock_reachable T R s \<Longrightarrow> lock_inv T R s"
  using lock_inv.reachable lock_inv_start by (auto simp: lock_reachable_def)

section \<open>Mutual exclusion and progress\<close>

lemma inv_mutex:
  assumes "lock_inv T R (h, f)" "t \<in> T" "u \<in> T" "0 < th_depth (f t)"
  shows "th_reads (f u) = 0" "u \<noteq> t \<Longrightarrow> th_depth (f u) = 0"
  using lock_invD(5) [OF assms(1,2,3)] lock_invD(2) [OF assms(1,2)] lock_invD(2) [OF assms(1,3)] assms(4)
  by (auto simp: excludes_def owns_def)

lemma inv_asserts:
  assumes "threads_ok T R" "lock_inv T R (h, f)" "t \<in> T"
  shows "th_pc (f t) = RRel \<Longrightarrow> 0 < lk_readers h"
    "th_pc (f t) = URel \<Longrightarrow> cando_lock_is_write_held_by_me t h"
proof -
  note D = lock_invD [OF assms(2,3)]
  have "read_share (f t) \<le> lk_readers h"
    unfolding D(4) using assms(3) readers_bound(3) [OF assms(1,2)] by (intro member_le_sum) auto
  then show "0 < lk_readers h" if "th_pc (f t) = RRel"
    using that D(1) by (simp add: thread_ok_def read_share_def)
  show "cando_lock_is_write_held_by_me t h" if "th_pc (f t) = URel"
    using that D(1,2) by (simp add: thread_ok_def owns_def cando_lock_is_write_held_by_me_def)
qed

lemma op_enabled_unlocked:
  assumes "lk_id h = 0" "th_pc l \<in> {RWait, RInc, RCheck, RBack, WEnter, WCas}"
  shows "\<exists>h' l'. lock_op R me h l h' l'"
  using assms(2)
proof (elim insertE emptyE)
  assume "th_pc l = WEnter"
  then show ?thesis by (cases "lk_id h = me") (blast intro: lock_op.write_reenter lock_op.write_fresh)+
qed (use assms(1) in \<open>blast intro: lock_op.read_wait lock_op.read_announce lock_op.read_acquired
    lock_op.read_back_off lock_op.write_cas\<close>)+

text \<open>Some thread that is inside an operation can move, when nobody sits on a lock outside of one.\<close>

lemma inv_progress:
  assumes T: "threads_ok T R" and inv: "lock_inv T R (h, f)"
    and held: "\<forall>u \<in> T. th_reads (f u) = 0 \<and> th_depth (f u) = 0"
    and busy: "t \<in> T" "th_pc (f t) \<noteq> Idle"
  shows "\<exists>u h' l'. u \<in> T \<and> th_pc (f u) \<noteq> Idle \<and> lock_op R u h (f u) h' l'"
proof (cases "lk_id h = 0")
  case True
  note D = lock_invD [OF inv busy(1)]
  have "\<not> owns (f t)" using D(2) True T busy(1) by (metis threads_ok_def)
  moreover have "th_pc (f t) \<noteq> URel" "th_pc (f t) \<noteq> UDec" "th_pc (f t) \<noteq> RRel" "th_pc (f t) \<noteq> WReenter"
    using D(1) held busy(1) by (auto simp: thread_ok_def)
  ultimately have "\<exists>h' l'. lock_op R t h (f t) h' l'"
    using busy(2) by (intro op_enabled_unlocked [OF True]) (cases "th_pc (f t)"; simp add: owns_def)
  then show ?thesis using busy by blast
next
  case False
  define w where "w = lk_id h"
  have w: "w \<in> T" using False lock_invD(3) [OF inv busy(1)] by (simp add: w_def)
  then have own: "owns (f w)" using lock_invD(2) [OF inv w] by (simp add: w_def)
  then consider "th_pc (f w) = WSet" | "th_pc (f w) = UClear" | "th_pc (f w) = WDrain"
    using held w by (auto simp: owns_def)
  then show ?thesis
  proof cases
    case 3
    show ?thesis
    proof (cases "lk_readers h = 0")
      case True
      then show ?thesis using 3 w lock_op.write_drained [of "f w" h R w] by force
    next
      case False
      then obtain u where u: "u \<in> T" "read_share (f u) \<noteq> 0"
        using lock_invD(4) [OF inv w] by (metis sum.neutral)
      then have "th_pc (f u) = RCheck \<or> th_pc (f u) = RBack"
        using held by (auto simp: read_share_def split: if_splits)
      then show ?thesis
        using u(1) \<open>lk_id h \<noteq> 0\<close> lock_op.read_beaten [of "f u" h R u] lock_op.read_back_off [of "f u" R u h]
        by force
    qed
  qed (use w lock_op.write_acquired [of "f w" R w h] lock_op.release_clear [of "f w" R w h] in force)+
qed

section \<open>Properties\<close>

text \<open>C16. Mutual exclusion, for any finite number of threads and any interleaving of their atomic
  operations: while a thread holds the write lock (at whatever depth of re-entry) no thread holds a read
  lock and no other thread holds the write lock; the depth stored in the header is that thread's depth.\<close>

theorem lock_mutual_exclusion:
  assumes "threads_ok T R" "lock_reachable T R (h, f)" "t \<in> T" "0 < th_depth (f t)" "u \<in> T"
  shows "th_reads (f u) = 0 \<and> (u \<noteq> t \<longrightarrow> th_depth (f u) = 0) \<and> lk_id h = t \<and> lk_depth h = th_depth (f t)"
proof -
  have inv: "lock_inv T R (h, f)" using reachable_inv assms(1,2) .
  have "lk_id h = t" using lock_invD(2) [OF inv assms(3)] assms(4) by (simp add: owns_def)
  then show ?thesis
    using inv_mutex [OF inv assms(3,5,4)] lock_invD(6) [OF inv assms(3) assms(4)] by simp
qed

text \<open>Two threads: thread 1 takes the write lock and re-enters it.\<close>

lemma wit_threads: "threads_ok {1, 2} 3"
  by (simp add: threads_ok_def)

lemma lock_stepI: "lock_reachable T R (h, f) \<Longrightarrow> t \<in> T \<Longrightarrow> lock_op R t h (f t) h' l' \<Longrightarrow> f' = f(t := l') \<Longrightarrow>
    lock_reachable T R (h', f')"
  unfolding lock_reachable_def by (metis lock_step.lock_step rtranclp.rtrancl_into_rtrancl)

lemma wit_write_run:
  "\<exists>h f. lock_reachable {1, 2} 3 (h, f) \<and> f 1 = \<lparr>th_pc = Idle, th_reads = 0, th_depth = 1\<rparr>"
proof -
  let ?l = "\<lambda>pc d. \<lparr>th_pc = pc, th_reads = 0, th_depth = d\<rparr>" and ?h = "\<lambda>i d. \<lparr>lk_id = i, lk_readers = 0, lk_depth = d\<rparr>"
  let ?f = "\<lambda>pc d. (\<lambda>_. idle_thread)(1 := ?l pc d)"
  have "lock_reachable {1, 2} 3 (?h 0 0, \<lambda>_. idle_thread)"
    by (simp add: lock_reachable_def lock_start_def cando_lock_init_def)
  then have "lock_reachable {1, 2} 3 (?h 0 0, ?f WEnter 0)"
    by (rule lock_stepI [of _ _ _ _ 1]) (use lock_op.call_write_acquire [of idle_thread 3 1 "?h 0 0"] in \<open>auto simp: idle_thread_def\<close>)
  then have "lock_reachable {1, 2} 3 (?h 0 0, ?f WCas 0)"
    by (rule lock_stepI [of _ _ _ _ 1]) (use lock_op.write_fresh [of "?l WEnter 0" "?h 0 0" 1 3] in auto)
  then have "lock_reachable {1, 2} 3 (?h 1 0, ?f WDrain 0)"
    by (rule lock_stepI [of _ _ _ _ 1]) (use lock_op.write_cas [of "?l WCas 0" "?h 0 0" 3 1] in auto)
  then have "lock_reachable {1, 2} 3 (?h 1 0, ?f WSet 0)"
    by (rule lock_stepI [of _ _ _ _ 1]) (use lock_op.write_drained [of "?l WDrain 0" "?h 1 0" 3 1] in auto)
  then have "lock_reachable {1, 2} 3 (?h 1 1, ?f Idle 1)"
    by (rule lock_stepI [of _ _ _ _ 1]) (use lock_op.write_acquired [of "?l WSet 0" 3 1 "?h 1 0"] in auto)
  then show ?thesis by (intro exI [of _ "?h 1 1"] exI [of _ "?f Idle 1"]) simp
qed

lemma wit_write_held: "\<exists>h f. lock_reachable {1, 2} 3 (h, f) \<and> th_depth (f 1) = 1"
  using wit_write_run by fastforce

text \<open>Thread 1 holds the write lock and is about to release it; thread 1 holds a read lock and is about to release it.\<close>

lemma wit_write_release: "\<exists>h f. lock_reachable {1, 2} 3 (h, f) \<and> th_pc (f 1) = URel"
proof -
  obtain h f where r: "lock_reachable {1, 2} 3 (h, f)" "f 1 = \<lparr>th_pc = Idle, th_reads = 0, th_depth = 1\<rparr>"
    using wit_write_run by blast
  have "lock_op 3 1 h (f 1) h ((f 1)\<lparr>th_pc := URel\<rparr>)" using r(2) by (intro lock_op.call_write_release) simp_all
  from lock_stepI [OF r(1) _ this refl] show ?thesis by fastforce
qed

lemma wit_read_release: "\<exists>h f. lock_reachable {1, 2} 3 (h, f) \<and> th_pc (f 1) = RRel"
proof -
  let ?l = "\<lambda>pc r. \<lparr>th_pc = pc, th_reads = r, th_depth = 0\<rparr>" and ?h = "\<lambda>n. \<lparr>lk_id = 0, lk_readers = n, lk_depth = 0\<rparr>"
  let ?f = "\<lambda>pc r. (\<lambda>_. idle_thread)(1 := ?l pc r)"
  have "lock_reachable {1, 2} 3 (?h 0, \<lambda>_. idle_thread)"
    by (simp add: lock_reachable_def lock_start_def cando_lock_init_def)
  then have "lock_reachable {1, 2} 3 (?h 0, ?f RWait 0)"
    by (rule lock_stepI [of _ _ _ _ 1]) (use lock_op.call_read_acquire [of idle_thread 3 1 "?h 0"] in \<open>auto simp: idle_thread_def\<close>)
  then have "lock_reachable {1, 2} 3 (?h 0, ?f RInc 0)"
    by (rule lock_stepI [of _ _ _ _ 1]) (use lock_op.read_wait [of "?l RWait 0" "?h 0" 3 1] in auto)
  then have "lock_reachable {1, 2} 3 (?h 1, ?f RCheck 0)"
    by (rule lock_stepI [of _ _ _ _ 1]) (use lock_op.read_announce [of "?l RInc 0" 3 1 "?h 0"] in auto)
  then have "lock_reachable {1, 2} 3 (?h 1, ?f Idle 1)"
    by (rule lock_stepI [of _ _ _ _ 1]) (use lock_op.read_acquired [of "?l RCheck 0" "?h 1" 3 1] in auto)
  then have "lock_reachable {1, 2} 3 (?h 1, ?f RRel 1)"
    by (rule lock_stepI [of _ _ _ _ 1]) (use lock_op.call_read_release [of "?l Idle 1" 3 1 "?h 1"] in auto)
  then show ?thesis by (intro exI [of _ "?h 1"] exI [of _ "?f RRel 1"]) simp
qed

theorem lock_mutual_exclusion_witness:
  "\<exists>h f. lock_reachable {1, 2} 3 (h, f) \<and> th_depth (f 1) = 1 \<and> th_reads (f 2) = 0 \<and> th_depth (f 2) = 0"
proof -
  obtain h f where r: "lock_reachable {1, 2} 3 (h, f)" "th_depth (f 1) = 1" using wit_write_held by blast
  then show ?thesis using lock_mutual_exclusion [OF wit_threads r(1), of 1 2] by (auto simp: r(2))
qed

text \<open>C17. The assertions of the release functions cannot fail for a client that releases only what it
  holds: whenever a thread is about to decrement the reader count it is positive, and whenever it is about
  to check ownership it is the owner.\<close>

theorem lock_release_assertions_hold:
  assumes "threads_ok T R" "lock_reachable T R (h, f)" "t \<in> T"
  shows "(th_pc (f t) = RRel \<longrightarrow> 0 < lk_readers h) \<and>
         (th_pc (f t) = URel \<longrightarrow> cando_lock_is_write_held_by_me t h)"
  using inv_asserts [OF assms(1) reachable_inv [OF assms(1,2)] assms(3)] by blast

theorem lock_release_assertions_hold_witness:
  "(\<exists>h f. lock_reachable {1, 2} 3 (h, f) \<and> th_pc (f 1) = RRel \<and> 0 < lk_readers h) \<and>
   (\<exists>h f. lock_reachable {1, 2} 3 (h, f) \<and> th_pc (f 1) = URel \<and> cando_lock_is_write_held_by_me 1 h)"
proof -
  have asserts: "(th_pc (f 1) = RRel \<longrightarrow> 0 < lk_readers h) \<and> (th_pc (f 1) = URel \<longrightarrow> cando_lock_is_write_held_by_me 1 h)"
    if "lock_reachable {1, 2} 3 (h, f)" for h f
    using lock_release_assertions_hold [OF wit_threads that, of 1] by simp
  then show ?thesis using wit_read_release wit_write_release by blast
qed

text \<open>C18. The protocol does not deadlock by itself: when no thread keeps a lock, whatever mixture of
  acquisitions is in progress, some thread inside an operation can take its next step.\<close>

theorem lock_progress:
  assumes "threads_ok T R" "lock_reachable T R (h, f)" "\<forall>u \<in> T. th_reads (f u) = 0 \<and> th_depth (f u) = 0"
    "t \<in> T" "th_pc (f t) \<noteq> Idle"
  shows "\<exists>u h' l'. u \<in> T \<and> th_pc (f u) \<noteq> Idle \<and> lock_op R u h (f u) h' l'"
  using inv_progress [OF assms(1) reachable_inv [OF assms(1,2)] assms(3-5)] .

theorem lock_progress_witness:
  "\<exists>f u h' l'. lock_reachable {1, 2} 3 (cando_lock_init, f) \<and> th_pc (f 1) = WEnter \<and> u \<in> {1, 2} \<and>
     lock_op 3 u cando_lock_init (f u) h' l'"
proof -
  let ?f = "(\<lambda>_. idle_thread)(1 := idle_thread\<lparr>th_pc := WEnter\<rparr>)"
  have "lock_reachable {1, 2} 3 (cando_lock_init, \<lambda>_. idle_thread)"
    by (simp add: lock_reachable_def lock_start_def)
  then have r: "lock_reachable {1, 2} 3 (cando_lock_init, ?f)"
    by (rule lock_stepI [of _ _ _ _ 1]) (use lock_op.call_write_acquire [of idle_thread 3 1] in \<open>auto simp: idle_thread_def\<close>)
  have "\<forall>u \<in> {1, 2}. th_reads (?f u) = 0 \<and> th_depth (?f u) = 0" by (simp add: idle_thread_def)
  then have "\<exists>u h' l'. u \<in> {1, 2} \<and> th_pc (?f u) \<noteq> Idle \<and> lock_op 3 u cando_lock_init (?f u) h' l'"
    by (rule lock_progress [OF wit_threads r, of 1]) simp_all
  then obtain u h' l' where "u \<in> {1, 2}" "lock_op 3 u cando_lock_init (?f u) h' l'" by blast
  moreover have "th_pc (?f 1) = WEnter" by simp
  ultimately show ?thesis using r by blast
qed

end
