(* ===== verification/Map_Store.thy ===== *)
theory Map_Store
  imports Prelude
begin

text \<open>
  The contract shared by the two tables scripts write to, object fields and globals: an assignment
  either takes effect on its key alone or is refused, and a frozen key (a static field, a constant)
  is one whose assignments are refused.
\<close>

text \<open>\<open>upd t k v b t'\<close>: the call that assigns \<open>v\<close> to \<open>k\<close> in \<open>t\<close> returned \<open>b\<close> and left \<open>t'\<close>. A run is a
  sequence of calls, whatever their answers.\<close>

fun run_calls :: "('t \<Rightarrow> 'k \<Rightarrow> 'v \<Rightarrow> bool \<Rightarrow> 't \<Rightarrow> bool) \<Rightarrow> 't \<Rightarrow> ('k \<times> 'v) list \<Rightarrow> 't \<Rightarrow> bool" where
  "run_calls upd t [] t' \<longleftrightarrow> t' = t"
| "run_calls upd t ((k, v) # kvs) t' \<longleftrightarrow> (\<exists>b u. upd t k v b u \<and> run_calls upd u kvs t')"

locale map_store =
  fixes upd :: "'t \<Rightarrow> 'k \<Rightarrow> 'v \<Rightarrow> bool \<Rightarrow> 't \<Rightarrow> bool"
    and look :: "'t \<Rightarrow> 'k \<rightharpoonup> 'v"
    and frozen :: "'t \<Rightarrow> 'k \<Rightarrow> bool"
    and inv :: "'t \<Rightarrow> bool"
  assumes upd_inv: "inv t \<Longrightarrow> upd t k v b t' \<Longrightarrow> inv t'"
    and upd_look: "inv t \<Longrightarrow> upd t k v b t' \<Longrightarrow> look t' = (if b then (look t)(k \<mapsto> v) else look t)"
    and upd_frozen: "inv t \<Longrightarrow> upd t k v b t' \<Longrightarrow> b \<Longrightarrow> \<not> frozen t k"
    and frozen_stays: "inv t \<Longrightarrow> upd t k v b t' \<Longrightarrow> frozen t k' \<Longrightarrow> frozen t' k'"
begin

lemma run_inv: "run_calls upd t kvs t' \<Longrightarrow> inv t \<Longrightarrow> inv t'"
proof (induction kvs arbitrary: t)
  case (Cons kv kvs)
  then show ?case by (cases kv) (auto dest: upd_inv)
qed simp

text \<open>A frozen key keeps its value through every run.\<close>

lemma frozen_run: "run_calls upd t kvs t' \<Longrightarrow> inv t \<Longrightarrow> frozen t k \<Longrightarrow> look t' k = look t k \<and> frozen t' k"
proof (induction kvs arbitrary: t)
  case (Cons kv kvs)
  obtain k' v where kv: "kv = (k', v)" by force
  obtain b u where u: "upd t k' v b u" "run_calls upd u kvs t'" using Cons.prems(1) kv by auto
  have "look u k = look t k"
    using upd_look [OF Cons.prems(2) u(1)] upd_frozen [OF Cons.prems(2) u(1)] Cons.prems(3) by auto
  then show ?case
    using Cons.IH [OF u(2) upd_inv [OF Cons.prems(2) u(1)] frozen_stays [OF Cons.prems(2) u(1) Cons.prems(3)]] by simp
qed simp

text \<open>Keys that a run does not name are not touched.\<close>

lemma run_other: "run_calls upd t kvs t' \<Longrightarrow> inv t \<Longrightarrow> k \<notin> fst ` set kvs \<Longrightarrow> look t' k = look t k"
proof (induction kvs arbitrary: t)
  case (Cons kv kvs)
  obtain k' v where kv: "kv = (k', v)" by force
  obtain b u where u: "upd t k' v b u" "run_calls upd u kvs t'" using Cons.prems(1) kv by auto
  then have "look u k = look t k" using upd_look [OF Cons.prems(2) u(1)] Cons.prems(3) kv by auto
  then show ?case using Cons.IH [OF u(2) upd_inv [OF Cons.prems(2) u(1)]] Cons.prems(3) kv by simp
qed simp

end

end
