(* ===== verification/Ref_Store.thy ===== *)
theory Ref_Store
  imports Prelude
begin

text \<open>
  The contract of reference counted values: what \<open>core/value.c\<close> and \<open>object/value.c\<close> promise of their
  copy and release operations, and what the containers (object fields, arrays, constant pools)
  may conclude for all the values they hold.
\<close>

section \<open>Counting references\<close>

text \<open>\<open>owned held vs s\<close>: how many of the values \<open>vs\<close> hold the string at \<open>s\<close>.\<close>

definition owned :: "('v \<Rightarrow> addr option) \<Rightarrow> 'v list \<Rightarrow> addr \<Rightarrow> nat" where
  "owned held vs s = length (filter (\<lambda>v. held v = Some s) vs)"

lemma owned_simps [simp]:
  "owned held [] s = 0"
  "owned held (v # vs) s = (if held v = Some s then 1 else 0) + owned held vs s"
  "owned held (vs @ ws) s = owned held vs s + owned held ws s"
  by (simp_all add: owned_def)

lemma owned_member: "v \<in> set vs \<Longrightarrow> held v = Some s \<Longrightarrow> 0 < owned held vs s"
  by (auto simp: owned_def filter_empty_conv)

lemma owned_update:
  "i < length vs \<Longrightarrow>
   owned held (vs[i := v]) s + (if held (vs ! i) = Some s then 1 else 0) =
   owned held vs s + (if held v = Some s then 1 else 0)"
proof (induction vs arbitrary: i)
  case (Cons w vs)
  then show ?case using Cons.IH [of "i - 1"] by (cases i) simp_all
qed simp

lemma owned_take_drop: "owned held (take n vs) s + owned held (drop n vs) s = owned held vs s"
  by (metis append_take_drop_id owned_simps(3))

section \<open>The contract\<close>

text \<open>
  \<open>refs H s\<close> is the number of references the string at \<open>s\<close> counts, 0 when it is not allocated, and
  \<open>contents H s\<close> its contents. A release that takes the last reference frees the string.
\<close>

locale ref_store =
  fixes copy :: "'h \<Rightarrow> 'v \<Rightarrow> 'h option"
    and release :: "'h \<Rightarrow> 'v \<Rightarrow> 'h option"
    and held :: "'v \<Rightarrow> addr option"
    and refs :: "'h \<Rightarrow> addr \<Rightarrow> nat"
    and contents :: "'h \<Rightarrow> addr \<Rightarrow> string option"
    and ok :: "'h \<Rightarrow> bool"
  assumes copy_law: "ok H \<Longrightarrow> (\<And>s. held v = Some s \<Longrightarrow> 0 < refs H s \<and> refs H s < u32_max) \<Longrightarrow>
      \<exists>H'. copy H v = Some H' \<and> ok H' \<and> contents H' = contents H \<and>
           refs H' = (\<lambda>s. refs H s + owned held [v] s)"
    and release_law: "ok H \<Longrightarrow> (\<And>s. held v = Some s \<Longrightarrow> 0 < refs H s) \<Longrightarrow>
      \<exists>H'. release H v = Some H' \<and> ok H' \<and> (\<forall>s. 0 < refs H' s \<longrightarrow> contents H' s = contents H s) \<and>
           refs H' = (\<lambda>s. refs H s - owned held [v] s)"
begin

lemma copy_release:
  assumes "ok H" "\<And>s. held v = Some s \<Longrightarrow> 0 < refs H s \<and> refs H s < u32_max"
  shows "\<exists>H' H''. copy H v = Some H' \<and> release H' v = Some H'' \<and> ok H'' \<and> refs H'' = refs H"
proof -
  obtain H' where H': "copy H v = Some H'" "ok H'" "refs H' = (\<lambda>s. refs H s + owned held [v] s)"
    using copy_law [OF assms] by blast
  then have "\<And>s. held v = Some s \<Longrightarrow> 0 < refs H' s" by simp
  then obtain H'' where "release H' v = Some H''" "ok H''" "refs H'' = (\<lambda>s. refs H' s - owned held [v] s)"
    using release_law [OF H'(2)] by blast
  then show ?thesis using H' by simp
qed

lemma copy_all:
  assumes "ok H" "\<And>s v. v \<in> set vs \<Longrightarrow> held v = Some s \<Longrightarrow> 0 < refs H s \<and> refs H s + owned held vs s \<le> u32_max"
  shows "\<exists>H'. mfold copy vs H = Some H' \<and> ok H' \<and> contents H' = contents H \<and> refs H' = (\<lambda>s. refs H s + owned held vs s)"
  using assms
proof (induction vs arbitrary: H)
  case (Cons v vs)
  have "0 < refs H s \<and> refs H s < u32_max" if "held v = Some s" for s
    using Cons.prems(2) [of v s] that by simp
  then obtain H1 where H1: "copy H v = Some H1" "ok H1" "contents H1 = contents H"
      "refs H1 = (\<lambda>s. refs H s + owned held [v] s)"
    using copy_law [OF Cons.prems(1)] by blast
  have "0 < refs H1 s \<and> refs H1 s + owned held vs s \<le> u32_max" if "w \<in> set vs" "held w = Some s" for s w
    using Cons.prems(2) [of w s] that by (auto simp: H1(4))
  then obtain H2 where "mfold copy vs H1 = Some H2" "ok H2" "contents H2 = contents H1"
      "refs H2 = (\<lambda>s. refs H1 s + owned held vs s)"
    using Cons.IH [OF H1(2)] by blast
  then show ?case using H1 by (auto simp: fun_eq_iff)
qed simp

lemma release_all:
  assumes "ok H" "\<And>s. owned held vs s \<le> refs H s"
  shows "\<exists>H'. mfold release vs H = Some H' \<and> ok H' \<and> (\<forall>s. 0 < refs H' s \<longrightarrow> contents H' s = contents H s) \<and>
              refs H' = (\<lambda>s. refs H s - owned held vs s)"
  using assms
proof (induction vs arbitrary: H)
  case (Cons v vs)
  have "0 < refs H s" if "held v = Some s" for s using Cons.prems(2) [of s] that by simp
  then obtain H1 where H1: "release H v = Some H1" "ok H1" "\<forall>s. 0 < refs H1 s \<longrightarrow> contents H1 s = contents H s"
      "refs H1 = (\<lambda>s. refs H s - owned held [v] s)"
    using release_law [OF Cons.prems(1)] by blast
  have "owned held vs s \<le> refs H1 s" for s using Cons.prems(2) [of s] by (auto simp: H1(4))
  then obtain H2 where H2: "mfold release vs H1 = Some H2" "ok H2" "\<forall>s. 0 < refs H2 s \<longrightarrow> contents H2 s = contents H1 s"
      "refs H2 = (\<lambda>s. refs H1 s - owned held vs s)"
    using Cons.IH [OF H1(2)] by blast
  have "0 < refs H1 s" if "0 < refs H2 s" for s using that H2(4) by simp
  then show ?case using H1 H2 by (auto simp: fun_eq_iff)
qed simp

end

end
