(* ===== verification/Float64.thy ===== *)
theory Float64
  imports Prelude
begin

unbundle bit_operations_syntax

text \<open>
  The C type \<open>double\<close> on the targets of the runtime: IEEE 754 binary64, held as its 64 bits.
  Comparison is on the bits; arithmetic is exact on ratios of naturals followed by one rounding to
  nearest, ties to even, which is what the standard prescribes for the basic operations.
\<close>

type_synonym f64 = "64 word"

section \<open>Fields\<close>

definition f64_bits :: "f64 \<Rightarrow> nat" where
  "f64_bits w = unat w"

definition f64_sign :: "f64 \<Rightarrow> bool" where
  "f64_sign w \<longleftrightarrow> 2 ^ 63 \<le> unat w"

text \<open>Exponent and mantissa without the sign: an ordered encoding of the magnitude.\<close>

definition f64_mag :: "f64 \<Rightarrow> nat" where
  "f64_mag w = unat w mod 2 ^ 63"

definition f64_inf_mag :: nat where
  "f64_inf_mag = 2047 * 2 ^ 52"

definition f64_is_nan :: "f64 \<Rightarrow> bool" where
  "f64_is_nan w \<longleftrightarrow> f64_inf_mag < f64_mag w"

definition f64_is_inf :: "f64 \<Rightarrow> bool" where
  "f64_is_inf w \<longleftrightarrow> f64_mag w = f64_inf_mag"

definition f64_is_finite :: "f64 \<Rightarrow> bool" where
  "f64_is_finite w \<longleftrightarrow> f64_mag w < f64_inf_mag"

definition f64_make :: "bool \<Rightarrow> nat \<Rightarrow> f64" where
  "f64_make s mag = of_nat ((if s then 2 ^ 63 else 0) + mag)"

definition f64_nan :: f64 where
  "f64_nan = f64_make False (f64_inf_mag + 2 ^ 51)"

definition f64_zero :: f64 where
  "f64_zero = 0"

text \<open>A finite magnitude is \<open>m * 2 ^ e\<close>; it is given as a ratio of naturals.\<close>

definition f64_ratio :: "f64 \<Rightarrow> nat \<times> nat" where
  "f64_ratio w =
     (let ex = f64_mag w div 2 ^ 52; man = f64_mag w mod 2 ^ 52;
          m = (if ex = 0 then man else man + 2 ^ 52); e = max 1 ex
      in if 1075 \<le> e then (m * 2 ^ (e - 1075), 1) else (m, 2 ^ (1075 - e)))"

section \<open>Comparison\<close>

definition f64_key :: "f64 \<Rightarrow> int" where
  "f64_key w = (if f64_sign w then - int (f64_mag w) else int (f64_mag w))"

definition f64_eq :: "f64 \<Rightarrow> f64 \<Rightarrow> bool" where
  "f64_eq a b \<longleftrightarrow> \<not> f64_is_nan a \<and> \<not> f64_is_nan b \<and> f64_key a = f64_key b"

definition f64_lt :: "f64 \<Rightarrow> f64 \<Rightarrow> bool" where
  "f64_lt a b \<longleftrightarrow> \<not> f64_is_nan a \<and> \<not> f64_is_nan b \<and> f64_key a < f64_key b"

definition f64_le :: "f64 \<Rightarrow> f64 \<Rightarrow> bool" where
  "f64_le a b \<longleftrightarrow> \<not> f64_is_nan a \<and> \<not> f64_is_nan b \<and> f64_key a \<le> f64_key b"

section \<open>Rounding\<close>

fun blen :: "nat \<Rightarrow> nat" where
  "blen n = (if n = 0 then 0 else Suc (blen (n div 2)))"

declare blen.simps [simp del]

text \<open>The nearest integer to \<open>n / d\<close>, ties to even.\<close>

definition div_even :: "nat \<Rightarrow> nat \<Rightarrow> nat" where
  "div_even n d =
     (let q = n div d; r = n mod d
      in if 2 * r < d then q else if d < 2 * r then Suc q else if even q then q else Suc q)"

text \<open>\<open>k\<close> is the exponent field less one, so the unit in the last place is \<open>2 ^ (k - 1074)\<close>.\<close>

definition scaled :: "nat \<Rightarrow> nat \<Rightarrow> nat \<Rightarrow> nat \<times> nat" where
  "scaled n d k = (if 1074 \<le> k then (n, d * 2 ^ (k - 1074)) else (n * 2 ^ (1074 - k), d))"

definition f64_round :: "bool \<Rightarrow> nat \<Rightarrow> nat \<Rightarrow> f64" where
  "f64_round s n d =
     (let k0 = nat (1074 + int (blen n) - int (blen d) - 53);
          k = (case scaled n d k0 of (a, b) \<Rightarrow> if 2 ^ 53 \<le> a div b then Suc k0 else k0);
          q = (case scaled n d k of (a, b) \<Rightarrow> div_even a b)
      in f64_make s (if n = 0 then 0 else min f64_inf_mag (k * 2 ^ 52 + q)))"

section \<open>Arithmetic\<close>

definition f64_neg :: "f64 \<Rightarrow> f64" where
  "f64_neg w = w XOR (push_bit 63 1)"

definition f64_add :: "f64 \<Rightarrow> f64 \<Rightarrow> f64" where
  "f64_add a b =
     (if f64_is_nan a \<or> f64_is_nan b then f64_nan
      else if f64_is_inf a then (if f64_is_inf b \<and> f64_sign a \<noteq> f64_sign b then f64_nan else a)
      else if f64_is_inf b then b
      else (case (f64_ratio a, f64_ratio b) of ((n, d), (n', d')) \<Rightarrow>
        let x = (if f64_sign a then - int (n * d') else int (n * d'));
            y = (if f64_sign b then - int (n' * d) else int (n' * d));
            z = x + y
        in if z = 0 then (if f64_sign a \<and> f64_sign b then f64_make True 0 else f64_zero)
           else f64_round (z < 0) (nat \<bar>z\<bar>) (d * d')))"

definition f64_sub :: "f64 \<Rightarrow> f64 \<Rightarrow> f64" where
  "f64_sub a b = (if f64_is_nan b then f64_nan else f64_add a (f64_neg b))"

definition f64_mul :: "f64 \<Rightarrow> f64 \<Rightarrow> f64" where
  "f64_mul a b =
     (let s = (f64_sign a \<noteq> f64_sign b)
      in if f64_is_nan a \<or> f64_is_nan b then f64_nan
         else if f64_is_inf a \<or> f64_is_inf b then
           (if f64_mag a = 0 \<or> f64_mag b = 0 then f64_nan else f64_make s f64_inf_mag)
         else (case (f64_ratio a, f64_ratio b) of ((n, d), (n', d')) \<Rightarrow> f64_round s (n * n') (d * d')))"

definition f64_div :: "f64 \<Rightarrow> f64 \<Rightarrow> f64" where
  "f64_div a b =
     (let s = (f64_sign a \<noteq> f64_sign b)
      in if f64_is_nan a \<or> f64_is_nan b then f64_nan
         else if f64_is_inf a then (if f64_is_inf b then f64_nan else f64_make s f64_inf_mag)
         else if f64_is_inf b then f64_make s 0
         else if f64_mag b = 0 then (if f64_mag a = 0 then f64_nan else f64_make s f64_inf_mag)
         else (case (f64_ratio a, f64_ratio b) of ((n, d), (n', d')) \<Rightarrow> f64_round s (n * d') (d * n')))"

section \<open>Conversions\<close>

definition f64_of_nat :: "nat \<Rightarrow> f64" where
  "f64_of_nat n = f64_round False n 1"

definition f64_of_int :: "int \<Rightarrow> f64" where
  "f64_of_int i = (if i < 0 then f64_round True (nat (- i)) 1 else f64_of_nat (nat i))"

text \<open>
  Truncation toward zero, exact. C leaves a conversion out of the range of the target undefined;
  \<open>i64_of_f64\<close> returns \<open>INT64_MIN\<close> there, as the x86-64 instruction does.
\<close>

definition f64_trunc :: "f64 \<Rightarrow> int" where
  "f64_trunc w = (case f64_ratio w of (n, d) \<Rightarrow> if f64_sign w then - int (n div d) else int (n div d))"

definition i64_of_f64 :: "f64 \<Rightarrow> int" where
  "i64_of_f64 w =
     (if f64_is_finite w \<and> - (2 ^ 63) \<le> f64_trunc w \<and> f64_trunc w < 2 ^ 63 then f64_trunc w else - (2 ^ 63))"

section \<open>Small naturals are exact\<close>

lemma unat_make: "m < 2 ^ 63 \<Longrightarrow> unat (f64_make s m) = (if s then 2 ^ 63 else 0) + m"
  unfolding f64_make_def by (subst unat_of_nat) (auto simp: take_bit_eq_mod intro!: mod_less)

lemma f64_mag_make: "m < 2 ^ 63 \<Longrightarrow> f64_mag (f64_make s m) = m"
  by (cases s) (simp_all add: f64_mag_def unat_make)

lemma f64_sign_make: "m < 2 ^ 63 \<Longrightarrow> f64_sign (f64_make s m) = s"
  by (cases s) (simp_all add: f64_sign_def unat_make)

lemma blen_bounds: "0 < n \<Longrightarrow> 2 ^ (blen n - 1) \<le> n \<and> n < 2 ^ blen n"
proof (induction n rule: blen.induct)
  case (1 n)
  show ?case
  proof (cases "n = 1")
    case False
    then have "0 < n div 2" using "1.prems" by simp
    then have IH: "2 ^ (blen (n div 2) - 1) \<le> n div 2" "n div 2 < 2 ^ blen (n div 2)"
      using "1.IH" "1.prems" by auto
    moreover have "blen (n div 2) > 0" using \<open>0 < n div 2\<close> by (simp add: blen.simps)
    ultimately have "2 ^ blen (n div 2) \<le> n" "n < 2 * 2 ^ blen (n div 2)"
      by (cases "blen (n div 2)"; simp)+
    then show ?thesis using "1.prems" by (simp add: blen.simps [of n])
  qed (simp add: blen.simps)
qed

lemma blen_le: "n < 2 ^ k \<Longrightarrow> blen n \<le> k"
proof (cases "n = 0")
  case False
  assume "n < 2 ^ k"
  then have "(2::nat) ^ (blen n - 1) < 2 ^ k" using blen_bounds [of n] False by linarith
  then show ?thesis by simp
qed (simp add: blen.simps)

lemma div_even_1 [simp]: "div_even n 1 = n" "div_even n (Suc 0) = n"
  by (simp_all add: div_even_def)

lemma f64_of_nat_0 [simp]: "f64_of_nat 0 = 0"
  by (simp add: f64_of_nat_def f64_round_def f64_make_def Let_def)

lemma bits_bound:
  assumes "L \<le> 53" "q < 2 ^ 53"
  shows "(1021 + L) * 2 ^ 52 + q < (1076::nat) * 2 ^ 52"
proof -
  have "(1021 + L) * 2 ^ 52 \<le> (1074::nat) * 2 ^ 52" using assms(1) by (intro mult_le_mono1) simp
  moreover have "q < 2 * 2 ^ 52" using assms(2) by simp
  moreover have "(1074::nat) * 2 ^ 52 + 2 * 2 ^ 52 = 1076 * 2 ^ 52" by simp
  ultimately show ?thesis by linarith
qed

lemma f64_of_nat_bits:
  assumes "0 < n" "n < 2 ^ 53"
  shows "f64_of_nat n = f64_make False ((1021 + blen n) * 2 ^ 52 + n * 2 ^ (53 - blen n))"
    and "2 ^ 52 \<le> n * 2 ^ (53 - blen n)" "n * 2 ^ (53 - blen n) < 2 ^ 53"
proof -
  let ?L = "blen n"
  have L: "1 \<le> ?L" "?L \<le> 53" using assms blen_le by (auto simp: blen.simps [of n])
  have b: "2 ^ (?L - 1) \<le> n" "n < 2 ^ ?L" using blen_bounds [OF assms(1)] by auto
  have pw: "(2::nat) ^ (?L - 1) * 2 ^ (53 - ?L) = 2 ^ 52" "(2::nat) ^ ?L * 2 ^ (53 - ?L) = 2 ^ 53"
    using L by (simp_all flip: power_add)
  show lo: "2 ^ 52 \<le> n * 2 ^ (53 - ?L)" using mult_le_mono1 [OF b(1), of "2 ^ (53 - ?L)"] unfolding pw(1) .
  have "(0::nat) < 2 ^ (53 - ?L)" by simp
  then show hi: "n * 2 ^ (53 - ?L) < 2 ^ 53" using mult_less_mono1 [OF b(2)] unfolding pw(2) [symmetric] by blast
  have b1: "blen 1 = 1" by (simp add: blen.simps)
  have k: "nat (1074 + int ?L - int 1 - 53) = 1020 + ?L" by simp
  have s0: "(case scaled n 1 (1020 + ?L) of (a, b) \<Rightarrow> a div b) = n * 2 ^ (54 - ?L)"
    using L by (simp add: scaled_def)
  have s1: "scaled n 1 (1021 + ?L) = (n * 2 ^ (53 - ?L), 1)"
    using L by (cases "?L = 53") (simp_all add: scaled_def)
  have "54 - ?L = Suc (53 - ?L)" using L by simp
  then have "n * 2 ^ (54 - ?L) = 2 * (n * 2 ^ (53 - ?L))" by simp
  moreover have "(2::nat) ^ 53 = 2 * 2 ^ 52" by simp
  ultimately have big: "2 ^ 53 \<le> n * 2 ^ (54 - ?L)" using lo by linarith
  have "(1021 + ?L) * 2 ^ 52 + n * 2 ^ (53 - ?L) \<le> f64_inf_mag"
    using bits_bound [OF L(2) hi] by (simp add: f64_inf_mag_def)
  then show "f64_of_nat n = f64_make False ((1021 + ?L) * 2 ^ 52 + n * 2 ^ (53 - ?L))"
    using s0 big s1 unfolding f64_of_nat_def f64_round_def b1 k Let_def
    using assms(1) by (simp add: split_def min_absorb2)
qed

lemma f64_of_nat_ratio:
  assumes "n < 2 ^ 53"
  shows "\<exists>k. f64_ratio (f64_of_nat n) = (n * 2 ^ k, 2 ^ k)" "\<not> f64_sign (f64_of_nat n)"
proof (atomize (full), cases "n = 0")
  case True
  then show "(\<exists>k. f64_ratio (f64_of_nat n) = (n * 2 ^ k, 2 ^ k)) \<and> \<not> f64_sign (f64_of_nat n)"
    by (auto simp: f64_ratio_def f64_mag_def f64_sign_def Let_def intro!: exI [of _ 1074])
next
  case False
  then have n: "0 < n" by simp
  let ?L = "blen n" and ?q = "n * 2 ^ (53 - blen n)"
  note q = f64_of_nat_bits [OF n assms]
  have L: "1 \<le> ?L" "?L \<le> 53" using n assms blen_le by (auto simp: blen.simps [of n])
  define mag where "mag = (1021 + ?L) * 2 ^ 52 + ?q"
  have eq: "mag = (?q - 2 ^ 52) + (1022 + ?L) * 2 ^ 52" using q(2) by (simp add: mag_def)
  have lt: "?q - 2 ^ 52 < 2 ^ 52" using q(2,3) by simp
  have dm: "mag div 2 ^ 52 = 1022 + ?L" "mag mod 2 ^ 52 = ?q - 2 ^ 52"
    unfolding eq using lt by (simp_all only: div_mult_self1 mod_mult_self1 mod_less div_less add_0)
  have "mag < 2 ^ 63" using bits_bound [OF L(2) q(3)] by (simp add: mag_def)
  then have m: "f64_mag (f64_of_nat n) = mag" "\<not> f64_sign (f64_of_nat n)"
    unfolding q(1) mag_def [symmetric] by (simp_all add: f64_mag_make f64_sign_make)
  have "?q - 2 ^ 52 + 2 ^ 52 = ?q" using q(2) by simp
  then have "f64_ratio (f64_of_nat n) = (?q, 2 ^ (53 - ?L))"
    using L unfolding f64_ratio_def m dm Let_def by auto
  then show "(\<exists>k. f64_ratio (f64_of_nat n) = (n * 2 ^ k, 2 ^ k)) \<and> \<not> f64_sign (f64_of_nat n)" using m(2) by blast
qed

lemma f64_trunc_of_nat:
  assumes "n < 2 ^ 53"
  shows "f64_trunc (f64_of_nat n) = int n"
proof -
  obtain k where "f64_ratio (f64_of_nat n) = (n * 2 ^ k, 2 ^ k)" using f64_of_nat_ratio(1) [OF assms] by blast
  then show ?thesis using f64_of_nat_ratio(2) [OF assms] by (simp add: f64_trunc_def)
qed

text \<open>Rounding treats the sign apart from the magnitude.\<close>

lemma f64_round_sign: "f64_sign (f64_round s n d) = s" "f64_mag (f64_round s n d) = f64_mag (f64_round False n d)"
proof -
  obtain m where m: "\<And>s. f64_round s n d = f64_make s m" "m < 2 ^ 63"
  proof
    show "f64_round s n d = f64_make s (f64_mag (f64_round False n d))" for s
      by (simp add: f64_round_def Let_def f64_mag_make f64_inf_mag_def)
    show "f64_mag (f64_round False n d) < 2 ^ 63" by (simp add: f64_mag_def)
  qed
  then show "f64_sign (f64_round s n d) = s" "f64_mag (f64_round s n d) = f64_mag (f64_round False n d)"
    by (simp_all add: f64_sign_make f64_mag_make)
qed

lemma f64_round_signed: "f64_ratio (f64_round s n d) = f64_ratio (f64_round False n d)"
    "f64_is_finite (f64_round s n d) = f64_is_finite (f64_round False n d)"
  using f64_round_sign(2) [of s n d] by (simp_all add: f64_ratio_def f64_is_finite_def)


lemma f64_of_nat_finite: "n < 2 ^ 53 \<Longrightarrow> f64_is_finite (f64_of_nat n)"
proof (cases "n = 0")
  case True
  then show ?thesis by (simp add: f64_is_finite_def f64_mag_def f64_inf_mag_def)
next
  case False
  assume n: "n < 2 ^ 53"
  have "(1021 + blen n) * 2 ^ 52 + n * 2 ^ (53 - blen n) < f64_inf_mag"
    using bits_bound [OF blen_le [OF n] f64_of_nat_bits(3) [OF _ n]] False by (simp add: f64_inf_mag_def)
  moreover have "f64_inf_mag < 2 ^ 63" by (simp add: f64_inf_mag_def)
  ultimately show ?thesis
    using f64_of_nat_bits(1) [of n] n False by (simp add: f64_is_finite_def f64_mag_make)
qed

lemma i64_of_nat: "n < 2 ^ 53 \<Longrightarrow> i64_of_f64 (f64_of_nat n) = int n"
  by (simp add: i64_of_f64_def f64_trunc_of_nat f64_of_nat_finite)

end
