(* ===== verification/Core_Value.thy ===== *)
theory Core_Value
  imports Ref_Store Float64
begin

text \<open>
  Values and strings of the virtual machine (\<open>source/core/value.c\<close>): the tagged union \<open>CandoValue\<close>,
  the reference counted \<open>CandoString\<close> with its lazily computed FNV-1a hash, equality, copy, release.
\<close>

section \<open>Data\<close>

datatype cando_value = VNull | VBool bool | VNumber f64 | VString addr | VObject nat

text \<open>A string in memory; its length is the length of the data.\<close>

record cando_string =
  st_refs :: nat
  st_hash :: "32 word"
  st_data :: string

type_synonym string_heap = "addr \<rightharpoonup> cando_string"

definition cando_value_type_name :: "cando_value \<Rightarrow> string" where
  "cando_value_type_name v = (case v of
     VNull \<Rightarrow> ''null'' | VBool _ \<Rightarrow> ''bool'' | VNumber _ \<Rightarrow> ''number'' | VString _ \<Rightarrow> ''string'' | VObject _ \<Rightarrow> ''object'')"

section \<open>Strings\<close>

definition fnv1a :: "string \<Rightarrow> 32 word" where
  "fnv1a data = foldl (\<lambda>h c. (h XOR of_nat (byte_of c)) * 16777619) 2166136261 data"

definition cando_string_new :: "string_heap \<Rightarrow> addr \<Rightarrow> string \<Rightarrow> string_heap" where
  "cando_string_new H a src = H(a \<mapsto> \<lparr>st_refs = 1, st_hash = 0, st_data = src\<rparr>)"

definition cando_string_retain :: "string_heap \<Rightarrow> addr \<Rightarrow> string_heap option" where
  "cando_string_retain H s =
     do {
       check (s \<noteq> 0);
       c \<leftarrow> H s;
       Some (H(s \<mapsto> c\<lparr>st_refs := u32 (st_refs c + 1)\<rparr>))
     }"

definition cando_string_release :: "string_heap \<Rightarrow> addr \<Rightarrow> string_heap option" where
  "cando_string_release H s =
     (if s = 0 then Some H
      else do {
        c \<leftarrow> H s;
        check (st_refs c > 0);
        Some (H(s := if st_refs c - 1 = 0 then None else Some (c\<lparr>st_refs := st_refs c - 1\<rparr>)))
      })"

definition cando_string_hash :: "string_heap \<Rightarrow> addr \<Rightarrow> (string_heap \<times> 32 word) option" where
  "cando_string_hash H s =
     do {
       c \<leftarrow> H s;
       let h = (if st_hash c = 0 then fnv1a (st_data c) else st_hash c);
       Some (H(s \<mapsto> c\<lparr>st_hash := h\<rparr>), h)
     }"

section \<open>Values\<close>

definition cando_value_copy :: "string_heap \<Rightarrow> cando_value \<Rightarrow> string_heap option" where
  "cando_value_copy H v = (case v of VString s \<Rightarrow> if s \<noteq> 0 then cando_string_retain H s else Some H | _ \<Rightarrow> Some H)"

definition cando_value_release :: "string_heap \<Rightarrow> cando_value \<Rightarrow> string_heap option" where
  "cando_value_release H v = (case v of VString s \<Rightarrow> cando_string_release H s | _ \<Rightarrow> Some H)"

definition cando_string_equal :: "string_heap \<Rightarrow> addr \<Rightarrow> addr \<Rightarrow> (string_heap \<times> bool) option" where
  "cando_string_equal H sa sb =
     (if sa = sb then Some (H, True)
      else do {
        a \<leftarrow> H sa;
        b \<leftarrow> H sb;
        if length (st_data a) \<noteq> length (st_data b) then Some (H, False)
        else do {
          (H, ha) \<leftarrow> cando_string_hash H sa;
          (H, hb) \<leftarrow> cando_string_hash H sb;
          if ha \<noteq> hb then Some (H, False) else Some (H, st_data a = st_data b)
        }
      })"

definition cando_value_equal :: "string_heap \<Rightarrow> cando_value \<Rightarrow> cando_value \<Rightarrow> (string_heap \<times> bool) option" where
  "cando_value_equal H a b = (case (a, b) of
     (VNull, VNull) \<Rightarrow> Some (H, True)
   | (VBool x, VBool y) \<Rightarrow> Some (H, x = y)
   | (VNumber x, VNumber y) \<Rightarrow> Some (H, f64_eq x y)
   | (VString x, VString y) \<Rightarrow> cando_string_equal H x y
   | (VObject x, VObject y) \<Rightarrow> Some (H, x = y)
   | _ \<Rightarrow> Some (H, False))"

section \<open>The heap invariant\<close>

text \<open>Every allocated string is referenced, and its cached hash is that of its data.\<close>

definition strings_ok :: "(addr \<rightharpoonup> 'a cando_string_scheme) \<Rightarrow> bool" where
  "strings_ok H \<longleftrightarrow> H 0 = None \<and>
     (\<forall>s c. H s = Some c \<longrightarrow> 0 < st_refs c \<and> st_refs c \<le> u32_max \<and> st_hash c \<in> {0, fnv1a (st_data c)})"

definition str_refs :: "(addr \<rightharpoonup> 'a cando_string_scheme) \<Rightarrow> addr \<Rightarrow> nat" where
  "str_refs H s = (case H s of None \<Rightarrow> 0 | Some c \<Rightarrow> st_refs c)"

definition str_text :: "(addr \<rightharpoonup> 'a cando_string_scheme) \<Rightarrow> addr \<Rightarrow> string option" where
  "str_text H s = map_option st_data (H s)"

definition value_held :: "cando_value \<Rightarrow> addr option" where
  "value_held v = (case v of VString s \<Rightarrow> if s = 0 then None else Some s | _ \<Rightarrow> None)"

lemma str_refs_pos: "0 < str_refs H s \<Longrightarrow> \<exists>c. H s = Some c \<and> st_refs c = str_refs H s"
  by (auto simp: str_refs_def split: option.splits)

lemma strings_ok_upd:
  assumes "strings_ok H" "s \<noteq> 0" "0 < st_refs c" "st_refs c \<le> u32_max" "st_hash c \<in> {0, fnv1a (st_data c)}"
  shows "strings_ok (H(s \<mapsto> c))"
  using assms by (auto simp: strings_ok_def)

lemma strings_ok_del: "strings_ok H \<Longrightarrow> strings_ok (H(s := None))"
  by (auto simp: strings_ok_def)

lemma new_ok: "strings_ok H \<Longrightarrow> a \<noteq> 0 \<Longrightarrow> strings_ok (cando_string_new H a src)"
  by (simp add: cando_string_new_def strings_ok_upd)

lemma strings_okD:
  "strings_ok H \<Longrightarrow> H s = Some c \<Longrightarrow> s \<noteq> 0 \<and> 0 < st_refs c \<and> st_refs c \<le> u32_max \<and> st_hash c \<in> {0, fnv1a (st_data c)}"
  unfolding strings_ok_def by (metis option.distinct(1))

text \<open>The two updates a reference count makes.\<close>

lemma set_refs_spec:
  assumes "strings_ok H" "H s = Some c" "0 < n" "n \<le> u32_max"
  shows "strings_ok (H(s \<mapsto> c\<lparr>st_refs := n\<rparr>))" "str_text (H(s \<mapsto> c\<lparr>st_refs := n\<rparr>)) = str_text H"
    "str_refs (H(s \<mapsto> c\<lparr>st_refs := n\<rparr>)) = (str_refs H)(s := n)"
  using strings_okD [OF assms(1,2)] assms
  by (auto simp: str_text_def str_refs_def fun_eq_iff intro!: strings_ok_upd)

lemma free_refs_spec:
  "str_refs (H(s := None)) = (str_refs H)(s := 0)" "x \<noteq> s \<Longrightarrow> str_text (H(s := None)) x = str_text H x"
  by (simp_all add: str_refs_def str_text_def fun_eq_iff)

lemma set_hash_spec:
  assumes "strings_ok H" "H s = Some c"
  shows "strings_ok (H(s \<mapsto> c\<lparr>st_hash := fnv1a (st_data c)\<rparr>))"
    "str_text (H(s \<mapsto> c\<lparr>st_hash := fnv1a (st_data c)\<rparr>)) = str_text H"
    "str_refs (H(s \<mapsto> c\<lparr>st_hash := fnv1a (st_data c)\<rparr>)) = str_refs H"
  using strings_okD [OF assms] assms
  by (auto simp: str_text_def str_refs_def fun_eq_iff intro!: strings_ok_upd)

text \<open>What a retain and a release of a live string must do, for either kind of string.\<close>

definition retained :: "(addr \<rightharpoonup> 'a cando_string_scheme) \<Rightarrow> addr \<Rightarrow> (addr \<rightharpoonup> 'a cando_string_scheme) \<Rightarrow> bool" where
  "retained H s H' \<longleftrightarrow> strings_ok H' \<and> str_text H' = str_text H \<and> str_refs H' = (str_refs H)(s := str_refs H s + 1)"

definition released :: "(addr \<rightharpoonup> 'a cando_string_scheme) \<Rightarrow> addr \<Rightarrow> (addr \<rightharpoonup> 'a cando_string_scheme) \<Rightarrow> bool" where
  "released H s H' \<longleftrightarrow> strings_ok H' \<and> (\<forall>x. 0 < str_refs H' x \<longrightarrow> str_text H' x = str_text H x) \<and>
     str_refs H' = (str_refs H)(s := str_refs H s - 1)"

lemma retainedI:
  assumes "strings_ok H" "H s = Some c" "st_refs c < u32_max"
  shows "retained H s (H(s \<mapsto> c\<lparr>st_refs := u32 (st_refs c + 1)\<rparr>))"
  using assms set_refs_spec [OF assms(1,2), of "st_refs c + 1"] by (simp add: retained_def str_refs_def)

lemma releasedI:
  assumes "strings_ok H" "H s = Some c"
  shows "released H s (H(s := if st_refs c - 1 = 0 then None else Some (c\<lparr>st_refs := st_refs c - 1\<rparr>)))"
proof (cases "st_refs c - 1 = 0")
  case True
  then have "str_refs H s - 1 = 0" using assms(2) by (simp add: str_refs_def)
  then show ?thesis using True strings_ok_del [OF assms(1), of s]
    by (auto simp: released_def free_refs_spec split: if_splits)
next
  case False
  moreover have "st_refs c - 1 \<le> u32_max" using strings_okD [OF assms] by auto
  ultimately show ?thesis
    using set_refs_spec [OF assms, of "st_refs c - 1"] assms(2) str_refs_def [of H s] by (simp add: released_def)
qed

lemma retain_spec:
  assumes "strings_ok H" "0 < str_refs H s" "str_refs H s < u32_max"
  shows "\<exists>H'. cando_string_retain H s = Some H' \<and> retained H s H'"
proof -
  obtain c where c: "H s = Some c" "st_refs c = str_refs H s" using str_refs_pos [OF assms(2)] by blast
  then show ?thesis using strings_okD [OF assms(1) c(1)] retainedI [OF assms(1) c(1)] assms(3)
    by (simp add: cando_string_retain_def)
qed

lemma release_spec:
  assumes "strings_ok H" "0 < str_refs H s"
  shows "\<exists>H'. cando_string_release H s = Some H' \<and> released H s H'"
proof -
  obtain c where c: "H s = Some c" "st_refs c = str_refs H s" using str_refs_pos [OF assms(2)] by blast
  then show ?thesis using strings_okD [OF assms(1) c(1)] releasedI [OF assms(1) c(1)]
    by (simp add: cando_string_release_def)
qed

interpretation vals: ref_store cando_value_copy cando_value_release value_held str_refs str_text strings_ok
proof unfold_locales
  fix H :: string_heap and v
  assume ok: "strings_ok H"
  show "\<exists>H'. cando_value_copy H v = Some H' \<and> strings_ok H' \<and> str_text H' = str_text H \<and>
      str_refs H' = (\<lambda>s. str_refs H s + owned value_held [v] s)"
    if "\<And>s. value_held v = Some s \<Longrightarrow> 0 < str_refs H s \<and> str_refs H s < u32_max"
  proof (cases "value_held v")
    case None
    then show ?thesis using ok by (cases v) (simp_all add: cando_value_copy_def value_held_def split: if_splits)
  next
    case (Some s)
    then have "cando_value_copy H v = cando_string_retain H s"
      by (cases v) (simp_all add: cando_value_copy_def value_held_def split: if_splits)
    moreover have "(\<lambda>x. str_refs H x + owned value_held [v] x) = (str_refs H)(s := str_refs H s + 1)"
      using Some by (simp add: fun_eq_iff)
    ultimately show ?thesis using retain_spec [OF ok] that Some by (simp add: retained_def)
  qed
  show "\<exists>H'. cando_value_release H v = Some H' \<and> strings_ok H' \<and>
      (\<forall>s. 0 < str_refs H' s \<longrightarrow> str_text H' s = str_text H s) \<and>
      str_refs H' = (\<lambda>s. str_refs H s - owned value_held [v] s)"
    if "\<And>s. value_held v = Some s \<Longrightarrow> 0 < str_refs H s"
  proof (cases "value_held v")
    case None
    then show ?thesis using ok
      by (cases v) (simp_all add: cando_value_release_def value_held_def cando_string_release_def split: if_splits)
  next
    case (Some s)
    then have "cando_value_release H v = cando_string_release H s"
      by (cases v) (simp_all add: cando_value_release_def value_held_def split: if_splits)
    moreover have "(\<lambda>x. str_refs H x - owned value_held [v] x) = (str_refs H)(s := str_refs H s - 1)"
      using Some by (simp add: fun_eq_iff)
    ultimately show ?thesis using release_spec [OF ok, of s] that Some by (simp add: released_def)
  qed
qed

section \<open>Equality\<close>

text \<open>What equality means: contents for strings, identity for objects, IEEE for numbers.\<close>

definition value_eq_spec :: "(addr \<Rightarrow> string option) \<Rightarrow> cando_value \<Rightarrow> cando_value \<Rightarrow> bool" where
  "value_eq_spec text a b = (case (a, b) of
     (VNull, VNull) \<Rightarrow> True
   | (VBool x, VBool y) \<Rightarrow> x = y
   | (VNumber x, VNumber y) \<Rightarrow> f64_eq x y
   | (VString x, VString y) \<Rightarrow> text x = text y
   | (VObject x, VObject y) \<Rightarrow> x = y
   | _ \<Rightarrow> False)"

text \<open>Caching a hash changes neither contents nor counts.\<close>

lemma hash_spec:
  assumes "strings_ok H" "str_text H s = Some d"
  shows "\<exists>H'. cando_string_hash H s = Some (H', fnv1a d) \<and> strings_ok H' \<and> str_text H' = str_text H \<and>
              str_refs H' = str_refs H"
proof -
  obtain c where c: "H s = Some c" "st_data c = d" using assms(2) by (auto simp: str_text_def)
  note ok = strings_okD [OF assms(1) c(1)]
  have "(if st_hash c = 0 then fnv1a (st_data c) else st_hash c) = fnv1a d" using ok c by auto
  then have "cando_string_hash H s = Some (H(s \<mapsto> c\<lparr>st_hash := fnv1a (st_data c)\<rparr>), fnv1a d)"
    using c by (simp add: cando_string_hash_def Let_def)
  then show ?thesis using set_hash_spec [OF assms(1) c(1)] by blast
qed

lemma string_equal_spec:
  assumes "strings_ok H" "str_text H x = Some d" "str_text H y = Some e"
  shows "\<exists>H'. cando_string_equal H x y = Some (H', d = e) \<and> strings_ok H' \<and> str_text H' = str_text H \<and>
              str_refs H' = str_refs H"
proof (cases "x = y \<or> length d \<noteq> length e")
  case True
  then show ?thesis using assms by (auto simp: cando_string_equal_def str_text_def)
next
  case False
  obtain a b where ab: "H x = Some a" "st_data a = d" "H y = Some b" "st_data b = e"
    using assms by (auto simp: str_text_def)
  obtain H1 where H1: "cando_string_hash H x = Some (H1, fnv1a d)" "strings_ok H1" "str_text H1 = str_text H"
      "str_refs H1 = str_refs H"
    using hash_spec [OF assms(1,2)] by blast
  obtain H2 where H2: "cando_string_hash H1 y = Some (H2, fnv1a e)" "strings_ok H2" "str_text H2 = str_text H1"
      "str_refs H2 = str_refs H1"
    using hash_spec [OF H1(2)] H1(3) assms(3) by metis
  have "cando_string_equal H x y = Some (H2, d = e)"
    using False ab H1(1) H2(1) by (auto simp: cando_string_equal_def)
  then show ?thesis using H1 H2 by auto
qed

lemma value_equal_spec:
  assumes "strings_ok H" "\<And>s. a = VString s \<or> b = VString s \<Longrightarrow> str_text H s \<noteq> None"
  shows "\<exists>H'. cando_value_equal H a b = Some (H', value_eq_spec (str_text H) a b) \<and> strings_ok H' \<and>
              str_text H' = str_text H \<and> str_refs H' = str_refs H"
proof (cases "\<exists>x y. a = VString x \<and> b = VString y")
  case True
  then obtain x y where xy: "a = VString x" "b = VString y" by blast
  then obtain d e where "str_text H x = Some d" "str_text H y = Some e" using assms(2) by fastforce
  then show ?thesis using string_equal_spec [OF assms(1), of x d y e] xy
    by (simp add: cando_value_equal_def value_eq_spec_def)
next
  case False
  then have "cando_value_equal H a b = Some (H, value_eq_spec (str_text H) a b)"
    by (cases a; cases b) (simp_all add: cando_value_equal_def value_eq_spec_def)
  then show ?thesis using assms(1) by blast
qed

section \<open>Properties\<close>

text \<open>C19. Equality of values is decided by contents: for strings the pointer test, the length test and the
  cached FNV-1a hashes never change the answer of the byte comparison, and computing it changes no text and no
  reference count (only hash caches); numbers compare as IEEE doubles, objects by handle, different tags are unequal.\<close>

theorem value_equal_decides_contents:
  assumes "strings_ok H" "\<forall>s. a = VString s \<or> b = VString s \<longrightarrow> str_text H s \<noteq> None"
  shows "\<exists>H'. cando_value_equal H a b = Some (H', value_eq_spec (str_text H) a b) \<and> strings_ok H' \<and>
           str_text H' = str_text H \<and> str_refs H' = str_refs H"
  using value_equal_spec [OF assms(1), of a b] assms(2) by blast

definition wit_strings :: string_heap where
  "wit_strings = [16 \<mapsto> \<lparr>st_refs = 1, st_hash = 0, st_data = ''ab''\<rparr>, 32 \<mapsto> \<lparr>st_refs = 2, st_hash = 0, st_data = ''ab''\<rparr>]"

lemma wit_strings_ok: "strings_ok wit_strings"
  by (simp add: strings_ok_def wit_strings_def)

theorem value_equal_decides_contents_witness:
  "\<exists>H'. cando_value_equal wit_strings (VString 16) (VString 32) = Some (H', True)"
proof -
  have "\<forall>s. VString 16 = VString s \<or> VString 32 = VString s \<longrightarrow> str_text wit_strings s \<noteq> None"
    by (auto simp: str_text_def wit_strings_def)
  moreover have "value_eq_spec (str_text wit_strings) (VString 16) (VString 32)"
    by (simp add: value_eq_spec_def str_text_def wit_strings_def)
  ultimately show ?thesis using value_equal_decides_contents [OF wit_strings_ok, of "VString 16" "VString 32"] by auto
qed

text \<open>Copying values and releasing them again is neutral: as long as the counts do not overflow, copying a
  whole list of live values succeeds and releasing the same list afterwards restores every reference count, so no
  string is freed early or leaked.\<close>

theorem copy_release_neutral:
  assumes "strings_ok H" "\<forall>v \<in> set vs. \<forall>s. value_held v = Some s \<longrightarrow>
      0 < str_refs H s \<and> str_refs H s + owned value_held vs s \<le> u32_max"
  shows "\<exists>H' H''. mfold cando_value_copy vs H = Some H' \<and> mfold cando_value_release vs H' = Some H'' \<and>
           strings_ok H'' \<and> str_refs H'' = str_refs H"
proof -
  obtain H' where H': "mfold cando_value_copy vs H = Some H'" "strings_ok H'"
      "str_refs H' = (\<lambda>s. str_refs H s + owned value_held vs s)"
    using vals.copy_all [OF assms(1), of vs] assms(2) by blast
  have "owned value_held vs s \<le> str_refs H' s" for s by (simp add: H'(3))
  then obtain H'' where "mfold cando_value_release vs H' = Some H''" "strings_ok H''"
      "str_refs H'' = (\<lambda>s. str_refs H' s - owned value_held vs s)"
    using vals.release_all [OF H'(2)] by blast
  then show ?thesis using H' by auto
qed

theorem copy_release_neutral_witness:
  "\<exists>H' H''. mfold cando_value_copy [VString 16, VNull, VString 16] wit_strings = Some H' \<and>
     mfold cando_value_release [VString 16, VNull, VString 16] H' = Some H'' \<and> str_refs H'' = str_refs wit_strings"
proof -
  have "\<forall>v \<in> set [VString 16, VNull, VString 16]. \<forall>s. value_held v = Some s \<longrightarrow>
      0 < str_refs wit_strings s \<and> str_refs wit_strings s + owned value_held [VString 16, VNull, VString 16] s \<le> u32_max"
    by (simp add: value_held_def str_refs_def wit_strings_def)
  from copy_release_neutral [OF wit_strings_ok this] show ?thesis by blast
qed

end
