(* ===== verification/Cdo_String.thy ===== *)
theory Cdo_String
  imports Core_Value
begin

text \<open>
  Strings and values of the object layer (\<open>source/object/string.c\<close>, \<open>source/object/value.c\<close>): atomic
  reference counts, the lazily cached hash, and the intern table that gives every text one address,
  so that object fields can compare keys by pointer.
\<close>

section \<open>Strings\<close>

record cdo_string = cando_string +
  st_interned :: bool

type_synonym cdo_heap = "addr \<rightharpoonup> cdo_string"

text \<open>The address of \<open>g_tombstone_storage\<close>: static, never returned by an allocation.\<close>

definition cdo_string_tombstone :: addr where
  "cdo_string_tombstone = 1"

definition cdo_string_new :: "cdo_heap \<Rightarrow> addr \<Rightarrow> string \<Rightarrow> cdo_heap" where
  "cdo_string_new H a src = H(a \<mapsto> \<lparr>st_refs = 1, st_hash = 0, st_data = src, st_interned = False\<rparr>)"

definition cdo_string_retain :: "cdo_heap \<Rightarrow> addr \<Rightarrow> cdo_heap option" where
  "cdo_string_retain H s =
     do {
       check (s \<noteq> 0);
       c \<leftarrow> H s;
       Some (H(s \<mapsto> c\<lparr>st_refs := u32 (st_refs c + 1)\<rparr>))
     }"

definition cdo_string_release :: "cdo_heap \<Rightarrow> addr \<Rightarrow> cdo_heap option" where
  "cdo_string_release H s =
     (if s = 0 \<or> s = cdo_string_tombstone then Some H
      else do {
        c \<leftarrow> H s;
        let prev = st_refs c;
        check (prev > 0);
        Some (H(s := if prev = 1 then None else Some (c\<lparr>st_refs := prev - 1\<rparr>)))
      })"

definition cdo_string_hash :: "cdo_heap \<Rightarrow> addr \<Rightarrow> (cdo_heap \<times> 32 word) option" where
  "cdo_string_hash H s =
     do {
       check (s \<noteq> 0);
       c \<leftarrow> H s;
       let h = st_hash c;
       if h = 0 then
         let h = fnv1a (st_data c) in Some (H(s \<mapsto> c\<lparr>st_hash := h\<rparr>), h)
       else Some (H, h)
     }"

section \<open>Values\<close>

datatype cdo_value = CNull | CBool bool | CNumber f64 | CString addr
  | CObject addr | CArray addr | CFunction addr | CNative addr

definition cdo_is_any_object :: "cdo_value \<Rightarrow> bool" where
  "cdo_is_any_object v = (case v of CObject _ \<Rightarrow> True | CArray _ \<Rightarrow> True | CFunction _ \<Rightarrow> True | CNative _ \<Rightarrow> True | _ \<Rightarrow> False)"

text \<open>The pointer of an object value (the union member \<open>as.object\<close>).\<close>

definition cdo_as_object :: "cdo_value \<Rightarrow> addr" where
  "cdo_as_object v = (case v of CObject a \<Rightarrow> a | CArray a \<Rightarrow> a | CFunction a \<Rightarrow> a | CNative a \<Rightarrow> a | _ \<Rightarrow> 0)"

definition cdo_value_copy :: "cdo_heap \<Rightarrow> cdo_value \<Rightarrow> cdo_heap option" where
  "cdo_value_copy H v = (case v of CString s \<Rightarrow> if s \<noteq> 0 then cdo_string_retain H s else Some H | _ \<Rightarrow> Some H)"

definition cdo_value_release :: "cdo_heap \<Rightarrow> cdo_value \<Rightarrow> cdo_heap option" where
  "cdo_value_release H v = (case v of CString s \<Rightarrow> cdo_string_release H s | _ \<Rightarrow> Some H)"

definition cdo_value_equal :: "cdo_heap \<Rightarrow> cdo_value \<Rightarrow> cdo_value \<Rightarrow> (cdo_heap \<times> bool) option" where
  "cdo_value_equal H a b = (case (a, b) of
     (CNull, CNull) \<Rightarrow> Some (H, True)
   | (CBool x, CBool y) \<Rightarrow> Some (H, x = y)
   | (CNumber x, CNumber y) \<Rightarrow> Some (H, f64_eq x y)
   | (CString sa, CString sb) \<Rightarrow>
       if sa = sb then Some (H, True)
       else if sa = 0 \<or> sb = 0 then Some (H, False)
       else do {
         ca \<leftarrow> H sa;
         cb \<leftarrow> H sb;
         if length (st_data ca) \<noteq> length (st_data cb) then Some (H, False)
         else do {
           (H, ha) \<leftarrow> cdo_string_hash H sa;
           (H, hb) \<leftarrow> cdo_string_hash H sb;
           if ha \<noteq> hb then Some (H, False) else Some (H, st_data ca = st_data cb)
         }
       }
   | (CObject x, CObject y) \<Rightarrow> Some (H, x = y)
   | (CArray x, CArray y) \<Rightarrow> Some (H, x = y)
   | (CFunction x, CFunction y) \<Rightarrow> Some (H, x = y)
   | (CNative x, CNative y) \<Rightarrow> Some (H, x = y)
   | _ \<Rightarrow> Some (H, False))"

section \<open>The intern table\<close>

text \<open>256 chains; a chain lists the addresses of the strings it owns, newest first.\<close>

record intern_table =
  it_buckets :: "addr list list"
  it_ready :: bool

definition cdo_intern_init :: "intern_table \<Rightarrow> intern_table" where
  "cdo_intern_init t =
     (if it_ready t then t else \<lparr>it_buckets = replicate 256 [], it_ready = True\<rparr>)"

definition cdo_intern_destroy :: "cdo_heap \<Rightarrow> intern_table \<Rightarrow> (cdo_heap \<times> intern_table) option" where
  "cdo_intern_destroy H t =
     do {
       H \<leftarrow> mfold (\<lambda>H b. mfold cdo_string_release b H) (it_buckets t) H;
       Some (H, \<lparr>it_buckets = replicate 256 [], it_ready = False\<rparr>)
     }"

definition intern_bucket :: "string \<Rightarrow> nat" where
  "intern_bucket src = unat (fnv1a src AND 255)"

text \<open>The walk along a chain; \<open>Some 0\<close> when the text is not there.\<close>

fun intern_find :: "cdo_heap \<Rightarrow> string \<Rightarrow> addr list \<Rightarrow> addr option" where
  "intern_find H src [] = Some 0"
| "intern_find H src (e # es) =
     do {
       c \<leftarrow> H e;
       if length (st_data c) = length src \<and> st_data c = src then Some e else intern_find H src es
     }"

text \<open>\<open>a\<close> is the address the allocator returns for a new string.\<close>

definition cdo_string_intern :: "cdo_heap \<Rightarrow> intern_table \<Rightarrow> addr \<Rightarrow> string \<Rightarrow> (cdo_heap \<times> intern_table \<times> addr) option" where
  "cdo_string_intern H t a src =
     do {
       check (it_ready t);
       let h = intern_bucket src;
       chain \<leftarrow> aget (it_buckets t) h;
       e \<leftarrow> intern_find H src chain;
       if e \<noteq> 0 then do { H \<leftarrow> cdo_string_retain H e; Some (H, t, e) }
       else do {
         let H = cdo_string_new H a src;
         c \<leftarrow> H a;
         let H = H(a \<mapsto> c\<lparr>st_interned := True\<rparr>);
         H \<leftarrow> cdo_string_retain H a;
         Some (H, t\<lparr>it_buckets := (it_buckets t)[h := a # chain]\<rparr>, a)
       }
     }"

definition cdo_intern_weak :: "cdo_heap \<Rightarrow> intern_table \<Rightarrow> string \<Rightarrow> addr option" where
  "cdo_intern_weak H t src =
     (if \<not> it_ready t then Some 0
      else do {
        chain \<leftarrow> aget (it_buckets t) (intern_bucket src);
        intern_find H src chain
      })"

section \<open>Counting\<close>

definition cdo_strings_ok :: "cdo_heap \<Rightarrow> bool" where
  "cdo_strings_ok H \<longleftrightarrow> strings_ok H \<and> H cdo_string_tombstone = None"

definition cdo_held :: "cdo_value \<Rightarrow> addr option" where
  "cdo_held v = (case v of CString s \<Rightarrow> if s = 0 then None else Some s | _ \<Rightarrow> None)"

lemma cdo_strings_okD: "cdo_strings_ok H \<Longrightarrow> strings_ok H" "cdo_strings_ok H \<Longrightarrow> H cdo_string_tombstone = None"
  by (simp_all add: cdo_strings_ok_def)

lemma cdo_live: "cdo_strings_ok H \<Longrightarrow> 0 < str_refs H s \<Longrightarrow> s \<noteq> 0 \<and> s \<noteq> cdo_string_tombstone"
  by (auto simp: cdo_strings_ok_def strings_ok_def str_refs_def intro: gr0I)

lemma tombstone_refs: "H cdo_string_tombstone = None \<longleftrightarrow> str_refs H cdo_string_tombstone = 0" if "strings_ok H"
  using that by (auto simp: str_refs_def strings_ok_def split: option.splits)

lemma cdo_okI: "strings_ok H' \<Longrightarrow> cdo_strings_ok H \<Longrightarrow> str_refs H' cdo_string_tombstone = str_refs H cdo_string_tombstone \<Longrightarrow>
    cdo_strings_ok H'"
  using tombstone_refs [of H] tombstone_refs [of H'] by (auto simp: cdo_strings_ok_def)

lemma cdo_retain_spec:
  assumes "cdo_strings_ok H" "0 < str_refs H s" "str_refs H s < u32_max"
  shows "\<exists>H'. cdo_string_retain H s = Some H' \<and> retained H s H' \<and> cdo_strings_ok H'"
proof -
  obtain c where c: "H s = Some c" "st_refs c = str_refs H s" using str_refs_pos [OF assms(2)] by blast
  let ?H = "H(s \<mapsto> c\<lparr>st_refs := u32 (st_refs c + 1)\<rparr>)"
  have r: "retained H s ?H" using retainedI [OF cdo_strings_okD(1) [OF assms(1)] c(1)] c(2) assms(3) by simp
  then have "cdo_strings_ok ?H"
    using cdo_live [OF assms(1,2)] by (intro cdo_okI [OF _ assms(1)]) (auto simp: retained_def)
  then show ?thesis using r cdo_live [OF assms(1,2)] c by (simp add: cdo_string_retain_def)
qed

lemma cdo_release_spec:
  assumes "cdo_strings_ok H" "0 < str_refs H s"
  shows "\<exists>H'. cdo_string_release H s = Some H' \<and> released H s H' \<and> cdo_strings_ok H'"
proof -
  obtain c where c: "H s = Some c" "st_refs c = str_refs H s" using str_refs_pos [OF assms(2)] by blast
  let ?H = "H(s := if st_refs c - 1 = 0 then None else Some (c\<lparr>st_refs := st_refs c - 1\<rparr>))"
  have r: "released H s ?H" using releasedI [OF cdo_strings_okD(1) [OF assms(1)] c(1)] .
  then have "cdo_strings_ok ?H"
    using cdo_live [OF assms(1,2)] by (intro cdo_okI [OF _ assms(1)]) (auto simp: released_def)
  moreover have "cdo_string_release H s = Some ?H"
    using cdo_live [OF assms(1,2)] c assms(2) by (auto simp: cdo_string_release_def Let_def)
  ultimately show ?thesis using r by blast
qed

interpretation cdo: ref_store cdo_value_copy cdo_value_release cdo_held str_refs str_text cdo_strings_ok
proof unfold_locales
  fix H :: cdo_heap and v
  assume ok: "cdo_strings_ok H"
  show "\<exists>H'. cdo_value_copy H v = Some H' \<and> cdo_strings_ok H' \<and> str_text H' = str_text H \<and>
      str_refs H' = (\<lambda>s. str_refs H s + owned cdo_held [v] s)"
    if "\<And>s. cdo_held v = Some s \<Longrightarrow> 0 < str_refs H s \<and> str_refs H s < u32_max"
  proof (cases "cdo_held v")
    case None
    then show ?thesis using ok by (cases v) (simp_all add: cdo_value_copy_def cdo_held_def split: if_splits)
  next
    case (Some s)
    then have "cdo_value_copy H v = cdo_string_retain H s"
      by (cases v) (simp_all add: cdo_value_copy_def cdo_held_def split: if_splits)
    moreover have "(\<lambda>x. str_refs H x + owned cdo_held [v] x) = (str_refs H)(s := str_refs H s + 1)"
      using Some by (simp add: fun_eq_iff)
    ultimately show ?thesis using cdo_retain_spec [OF ok] that Some by (simp add: retained_def) blast
  qed
  show "\<exists>H'. cdo_value_release H v = Some H' \<and> cdo_strings_ok H' \<and>
      (\<forall>s. 0 < str_refs H' s \<longrightarrow> str_text H' s = str_text H s) \<and>
      str_refs H' = (\<lambda>s. str_refs H s - owned cdo_held [v] s)"
    if "\<And>s. cdo_held v = Some s \<Longrightarrow> 0 < str_refs H s"
  proof (cases "cdo_held v")
    case None
    then show ?thesis using ok
      by (cases v) (simp_all add: cdo_value_release_def cdo_held_def cdo_string_release_def split: if_splits)
  next
    case (Some s)
    then have "cdo_value_release H v = cdo_string_release H s"
      by (cases v) (simp_all add: cdo_value_release_def cdo_held_def split: if_splits)
    moreover have "(\<lambda>x. str_refs H x - owned cdo_held [v] x) = (str_refs H)(s := str_refs H s - 1)"
      using Some by (simp add: fun_eq_iff)
    ultimately show ?thesis using cdo_release_spec [OF ok, of s] that Some by (simp add: released_def) blast
  qed
qed

section \<open>The intern table is canonical\<close>

text \<open>The addresses the table owns, and its invariant: each is a live string in the bucket of its
  text, and no text occurs twice.\<close>

definition interned :: "intern_table \<Rightarrow> addr set" where
  "interned t = (\<Union>b \<in> set (it_buckets t). set b)"

definition intern_inv :: "cdo_heap \<Rightarrow> intern_table \<Rightarrow> bool" where
  "intern_inv H t \<longleftrightarrow>
     it_ready t \<and> length (it_buckets t) = 256 \<and>
     (\<forall>h < 256. \<forall>s \<in> set (it_buckets t ! h). \<exists>d. str_text H s = Some d \<and> intern_bucket d = h) \<and>
     (\<forall>s \<in> interned t. \<forall>s' \<in> interned t. str_text H s = str_text H s' \<longrightarrow> s = s')"

lemma intern_bucket_less: "intern_bucket src < 256"
proof -
  have "fnv1a src AND 255 \<le> 255" by (rule word_and_le1)
  then show ?thesis by (simp add: intern_bucket_def word_le_nat_alt)
qed

lemma interned_iff: "length (it_buckets t) = 256 \<Longrightarrow> s \<in> interned t \<longleftrightarrow> (\<exists>h < 256. s \<in> set (it_buckets t ! h))"
  unfolding interned_def by (metis (no_types, lifting) UN_iff in_set_conv_nth nth_mem)

lemma intern_invD:
  assumes "intern_inv H t"
  shows "it_ready t" "length (it_buckets t) = 256"
    "h < 256 \<Longrightarrow> s \<in> set (it_buckets t ! h) \<Longrightarrow> \<exists>d. str_text H s = Some d \<and> intern_bucket d = h"
    "s \<in> interned t \<Longrightarrow> s' \<in> interned t \<Longrightarrow> str_text H s = str_text H s' \<Longrightarrow> s = s'"
  using assms by (auto simp: intern_inv_def)

lemma cdo_text_live:
  assumes "cdo_strings_ok H" "str_text H s = Some d"
  shows "s \<noteq> 0" "s \<noteq> cdo_string_tombstone" "0 < str_refs H s"
proof -
  obtain c where c: "H s = Some c" using assms(2) by (auto simp: str_text_def)
  then have "0 < st_refs c" using strings_okD [OF cdo_strings_okD(1) [OF assms(1)]] by blast
  then show "0 < str_refs H s" using c by (simp add: str_refs_def)
  then show "s \<noteq> 0" "s \<noteq> cdo_string_tombstone" using cdo_live [OF assms(1)] by auto
qed

lemma interned_bucket:
  assumes "intern_inv H t" "s \<in> interned t" "str_text H s = Some d"
  shows "s \<in> set (it_buckets t ! intern_bucket d)"
proof -
  obtain h where "h < 256" "s \<in> set (it_buckets t ! h)"
    using assms(2) interned_iff [OF intern_invD(2) [OF assms(1)]] by blast
  moreover from this obtain d' where "str_text H s = Some d'" "intern_bucket d' = h"
    using intern_invD(3) [OF assms(1)] by blast
  ultimately show ?thesis using assms(3) by simp
qed

lemma interned_live: "intern_inv H t \<Longrightarrow> s \<in> interned t \<Longrightarrow> \<exists>d. str_text H s = Some d"
  using interned_iff intern_invD(2,3) by blast

lemma bucket_interned: "length (it_buckets t) = 256 \<Longrightarrow> s \<in> set (it_buckets t ! intern_bucket d) \<Longrightarrow> s \<in> interned t"
  using intern_bucket_less [of d] interned_iff by blast

lemma intern_find_spec:
  assumes "\<forall>s \<in> set es. s \<noteq> 0 \<and> str_text H s \<noteq> None"
  shows "\<exists>e. intern_find H src es = Some e \<and> (e = 0 \<and> (\<forall>s \<in> set es. str_text H s \<noteq> Some src) \<or>
              e \<in> set es \<and> e \<noteq> 0 \<and> str_text H e = Some src)"
  using assms by (induction es) (auto simp: str_text_def)

text \<open>What the table means: the address of each text it knows.\<close>

definition intern_map :: "cdo_heap \<Rightarrow> intern_table \<Rightarrow> string \<rightharpoonup> addr" where
  "intern_map H t src =
     (if \<exists>s \<in> interned t. str_text H s = Some src then Some (THE s. s \<in> interned t \<and> str_text H s = Some src)
      else None)"

lemma intern_map_iff:
  assumes "intern_inv H t"
  shows "intern_map H t src = Some s \<longleftrightarrow> s \<in> interned t \<and> str_text H s = Some src"
proof
  assume s: "s \<in> interned t \<and> str_text H s = Some src"
  then have "(THE s. s \<in> interned t \<and> str_text H s = Some src) = s"
    using assms by (intro the_equality) (auto simp: intern_inv_def)
  then show "intern_map H t src = Some s" using s by (auto simp: intern_map_def)
next
  assume m: "intern_map H t src = Some s"
  then obtain s' where s': "s' \<in> interned t" "str_text H s' = Some src" by (auto simp: intern_map_def split: if_splits)
  then have "(THE s. s \<in> interned t \<and> str_text H s = Some src) = s'"
    using assms by (intro the_equality) (auto simp: intern_inv_def)
  then show "s \<in> interned t \<and> str_text H s = Some src" using m s' by (auto simp: intern_map_def split: if_splits)
qed

lemma intern_weak_spec:
  assumes "cdo_strings_ok H" "intern_inv H t"
  shows "cdo_intern_weak H t src = Some (case intern_map H t src of None \<Rightarrow> 0 | Some s \<Rightarrow> s)"
proof -
  let ?b = "it_buckets t ! intern_bucket src"
  have len: "length (it_buckets t) = 256" "it_ready t" using assms(2) by (auto simp: intern_inv_def)
  have "\<forall>s \<in> set ?b. s \<noteq> 0 \<and> str_text H s \<noteq> None"
    using bucket_interned [OF len(1), of _ src] interned_live [OF assms(2)] cdo_text_live(1) [OF assms(1)]
    by fastforce
  then obtain e where e: "intern_find H src ?b = Some e"
    "e = 0 \<and> (\<forall>s \<in> set ?b. str_text H s \<noteq> Some src) \<or> e \<in> set ?b \<and> e \<noteq> 0 \<and> str_text H e = Some src"
    using intern_find_spec by blast
  have "(case intern_map H t src of None \<Rightarrow> 0 | Some s \<Rightarrow> s) = e"
  proof (cases "e = 0")
    case True
    then have "intern_map H t src = None"
      using e(2) interned_bucket [OF assms(2)] intern_map_iff [OF assms(2), of src] by (metis option.exhaust)
    then show ?thesis using True by simp
  next
    case False
    then have "intern_map H t src = Some e"
      using e(2) bucket_interned [OF len(1)] intern_map_iff [OF assms(2)] by auto
    then show ?thesis by simp
  qed
  then show ?thesis using e(1) len intern_bucket_less [of src] by (simp add: cdo_intern_weak_def)
qed

lemma intern_inv_text:
  "intern_inv H t \<Longrightarrow> (\<And>s. s \<in> interned t \<Longrightarrow> str_text H' s = str_text H s) \<Longrightarrow> intern_inv H' t"
  using interned_iff [of t] unfolding intern_inv_def by (simp add: Ball_def) metis

text \<open>Interning: the same address for a known text, a fresh string with two references otherwise.\<close>

lemma intern_known_spec:
  assumes "cdo_strings_ok H" "intern_inv H t" "intern_map H t src = Some s" "str_refs H s < u32_max"
  shows "\<exists>H'. cdo_string_intern H t a src = Some (H', t, s) \<and> cdo_strings_ok H' \<and> retained H s H' \<and> intern_inv H' t"
proof -
  have s: "s \<in> interned t" "str_text H s = Some src" using assms(3) intern_map_iff [OF assms(2)] by auto
  have find: "intern_find H src (it_buckets t ! intern_bucket src) = Some s" "it_ready t"
      "intern_bucket src < length (it_buckets t)"
    using intern_weak_spec [OF assms(1,2), of src] assms(2,3) intern_bucket_less [of src]
    by (auto simp: cdo_intern_weak_def intern_inv_def)
  note live = cdo_text_live [OF assms(1) s(2)]
  then obtain H' where H': "cdo_string_retain H s = Some H'" "retained H s H'" "cdo_strings_ok H'"
    using cdo_retain_spec [OF assms(1) live(3) assms(4)] by blast
  moreover have "intern_inv H' t" using H'(2) by (intro intern_inv_text [OF assms(2)]) (simp add: retained_def)
  ultimately show ?thesis using find live(1) by (simp add: cdo_string_intern_def Let_def)
qed

lemma interned_insert:
  assumes "length (it_buckets t) = 256" "h < 256"
  shows "interned (t\<lparr>it_buckets := (it_buckets t)[h := a # it_buckets t ! h]\<rparr>) = insert a (interned t)"
  using assms by (auto simp: interned_iff nth_list_update split: if_splits)

lemma intern_new_spec:
  assumes ok: "cdo_strings_ok H" and inv: "intern_inv H t" and none: "intern_map H t src = None"
    and a: "H a = None" "a \<noteq> 0" "a \<noteq> cdo_string_tombstone"
  shows "\<exists>H' t'. cdo_string_intern H t a src = Some (H', t', a) \<and> cdo_strings_ok H' \<and> intern_inv H' t' \<and>
           interned t' = insert a (interned t) \<and> str_text H' = (str_text H)(a \<mapsto> src) \<and>
           str_refs H' = (str_refs H)(a := 2)"
proof -
  note I = intern_invD [OF inv]
  let ?h = "intern_bucket src"
  let ?t = "t\<lparr>it_buckets := (it_buckets t)[?h := a # it_buckets t ! ?h]\<rparr>"
  let ?c = "\<lparr>st_refs = 2, st_hash = 0, st_data = src, st_interned = True\<rparr>"
  let ?H = "H(a \<mapsto> ?c)"
  have h: "?h < 256" by (rule intern_bucket_less)
  have find: "intern_find H src (it_buckets t ! ?h) = Some 0"
    using intern_weak_spec [OF ok inv, of src] none I h by (simp add: cdo_intern_weak_def)
  have "cdo_string_intern H t a src = Some (?H, ?t, a)"
    using find I h a by (simp add: cdo_string_intern_def cdo_string_new_def cdo_string_retain_def Let_def numeral_2_eq_2)
  moreover have "cdo_strings_ok ?H" using ok a by (auto simp: cdo_strings_ok_def intro!: strings_ok_upd)
  moreover have tx: "str_text ?H = (str_text H)(a \<mapsto> src)" "str_refs ?H = (str_refs H)(a := 2)"
    by (simp_all add: str_text_def str_refs_def fun_eq_iff)
  moreover have ins: "interned ?t = insert a (interned t)" by (rule interned_insert [OF I(2) h])
  moreover have "intern_inv ?H ?t"
  proof -
    have a_new: "a \<notin> interned t" using interned_live [OF inv, of a] a(1) by (auto simp: str_text_def)
    have new: "str_text H s \<noteq> Some src" if "s \<in> interned t" for s
      using that none intern_map_iff [OF inv] by (metis option.distinct(1))
    have "\<exists>d. str_text ?H s = Some d \<and> intern_bucket d = k" if k: "k < 256" "s \<in> set (it_buckets ?t ! k)" for k s
    proof (cases "s = a")
      case True
      then have "k = ?h" using k I(2) a_new interned_iff [OF I(2), of a] by (cases "k = ?h") auto
      then show ?thesis using True tx by simp
    next
      case False
      then have "s \<in> set (it_buckets t ! k)" using k I(2) h by (auto simp: nth_list_update split: if_splits)
      then show ?thesis using I(3) [OF k(1)] False tx by simp
    qed
    moreover have "s = s'" if "s \<in> interned ?t" "s' \<in> interned ?t" "str_text ?H s = str_text ?H s'" for s s'
      using that new I(4) unfolding ins tx by (auto split: if_splits)
    ultimately show ?thesis using I(1,2) unfolding intern_inv_def by simp
  qed
  ultimately show ?thesis by blast
qed

section \<open>Properties\<close>

text \<open>C20. Interning is canonical: the call succeeds and returns the one interned address whose text is the given
  one (so equal texts get equal addresses and different texts different ones), gives the caller a reference of
  its own, keeps every string already interned with its text, and a second call with the same text returns the
  same address.\<close>

theorem intern_canonical:
  assumes "cdo_strings_ok H" "intern_inv H t" "H a = None" "a \<noteq> 0" "a \<noteq> cdo_string_tombstone"
    "\<forall>s. str_refs H s + 1 < u32_max"
  shows "\<exists>H' t' s H''. cdo_string_intern H t a src = Some (H', t', s) \<and> cdo_strings_ok H' \<and> intern_inv H' t' \<and>
           (\<forall>x. x \<in> interned t' \<and> str_text H' x = Some src \<longleftrightarrow> x = s) \<and>
           str_refs H' s = (if intern_map H t src = None then 2 else str_refs H s + 1) \<and>
           (\<forall>x \<in> interned t. x \<in> interned t' \<and> str_text H' x = str_text H x) \<and>
           cdo_string_intern H' t' b src = Some (H'', t', s)"
proof (cases "intern_map H t src")
  case None
  obtain H' t' where H': "cdo_string_intern H t a src = Some (H', t', a)" "cdo_strings_ok H'" "intern_inv H' t'"
      "interned t' = insert a (interned t)" "str_text H' = (str_text H)(a \<mapsto> src)" "str_refs H' = (str_refs H)(a := 2)"
    using intern_new_spec [OF assms(1,2) None assms(3-5)] by blast
  have m: "intern_map H' t' src = Some a" using H'(4,5) by (simp add: intern_map_iff [OF H'(3)])
  then have u: "x \<in> interned t' \<and> str_text H' x = Some src \<longleftrightarrow> x = a" for x
    using intern_map_iff [OF H'(3), of src x] by auto
  obtain H'' where "cdo_string_intern H' t' b src = Some (H'', t', a)"
    using intern_known_spec [OF H'(2,3) m] H'(6) by auto
  moreover have "str_text H' x = str_text H x" if "x \<in> interned t" for x
    using that interned_live [OF assms(2) that] assms(3) H'(5) by (auto simp: str_text_def)
  ultimately show ?thesis using H'(1,2,3,4,6) u None by (intro exI conjI) auto
next
  case (Some s)
  have "str_refs H s < u32_max" using assms(6) [rule_format, of s] by simp
  then obtain H' where H': "cdo_string_intern H t a src = Some (H', t, s)" "cdo_strings_ok H'" "retained H s H'" "intern_inv H' t"
    using intern_known_spec [OF assms(1,2) Some] by blast
  have tx: "str_text H' = str_text H" "str_refs H' s = str_refs H s + 1" using H'(3) by (simp_all add: retained_def)
  have m: "intern_map H' t src = Some s"
    using Some tx(1) by (simp add: intern_map_iff [OF H'(4)] intern_map_iff [OF assms(2)])
  then have u: "x \<in> interned t \<and> str_text H' x = Some src \<longleftrightarrow> x = s" for x
    using intern_map_iff [OF H'(4), of src x] by auto
  obtain H'' where "cdo_string_intern H' t b src = Some (H'', t, s)"
    using intern_known_spec [OF H'(2,4) m] tx(2) assms(6) by auto
  then show ?thesis using H'(1,2,4) u tx Some by (intro exI conjI) auto
qed

theorem intern_canonical_witness:
  "\<exists>H' t' s H''. cdo_string_intern Map.empty (cdo_intern_init \<lparr>it_buckets = [], it_ready = False\<rparr>) 48 ''name'' = Some (H', t', s) \<and>
     str_refs H' s = 2 \<and> cdo_string_intern H' t' 64 ''name'' = Some (H'', t', s)"
proof -
  let ?t = "cdo_intern_init \<lparr>it_buckets = [], it_ready = False\<rparr>"
  have ok: "cdo_strings_ok Map.empty" by (simp add: cdo_strings_ok_def strings_ok_def)
  have i0: "interned ?t = {}" by (auto simp: interned_def cdo_intern_init_def)
  have inv: "intern_inv Map.empty ?t" using i0 by (simp add: intern_inv_def cdo_intern_init_def)
  have "intern_map Map.empty ?t ''name'' = None" using i0 by (simp add: intern_map_def)
  moreover have "\<forall>s. str_refs (Map.empty :: cdo_heap) s + 1 < u32_max" by (simp add: str_refs_def)
  ultimately show ?thesis
    using intern_canonical [OF ok inv, of 48 "''name''" 64] by (auto simp: cdo_string_tombstone_def)
qed

end
