(* ===== verification/Open_Addressing.thy ===== *)
theory Open_Addressing
  imports Prelude
begin

unbundle bit_operations_syntax

text \<open>
  Linear probing over a table whose capacity is a power of two, as the object fields
  (\<open>object.c\<close>) and the globals (\<open>vm.c\<close>) use it: an index is masked by \<open>cap - 1\<close>, a search starts at
  the home of a key and steps cyclically.
\<close>

section \<open>Masking\<close>

definition pow2 :: "nat \<Rightarrow> bool" where
  "pow2 cap \<longleftrightarrow> cap > 0 \<and> cap AND (cap - 1) = 0"

lemma mask_mod: "n AND (2 ^ k - 1) = n mod 2 ^ k" for n :: nat
  by (simp flip: take_bit_eq_mod add: take_bit_eq_mask mask_eq_exp_minus_1)

definition is_pow2 :: "nat \<Rightarrow> bool" where
  "is_pow2 cap \<longleftrightarrow> (\<exists>k. cap = 2 ^ k)"

lemma is_pow2_mask: "is_pow2 cap \<Longrightarrow> n AND (cap - 1) = n mod cap"
  using mask_mod by (auto simp: is_pow2_def)

lemma is_pow2_pos [simp]: "is_pow2 cap \<Longrightarrow> 0 < cap"
  by (auto simp: is_pow2_def)

lemma is_pow2_pow2: "is_pow2 cap \<Longrightarrow> pow2 cap"
  using is_pow2_mask [of cap cap] by (simp add: pow2_def)

lemma is_pow2_double: "is_pow2 cap \<Longrightarrow> is_pow2 (2 * cap)"
  unfolding is_pow2_def by (metis power_Suc)

lemma is_pow2_8: "is_pow2 8"
  unfolding is_pow2_def by (rule exI [of _ 3]) simp

section \<open>The probe sequence\<close>

definition probe_at :: "nat \<Rightarrow> nat \<Rightarrow> nat \<Rightarrow> nat" where
  "probe_at cap h d = (h + d) mod cap"

lemma probe_at_0 [simp]: "h < cap \<Longrightarrow> probe_at cap h 0 = h"
  by (simp add: probe_at_def)

lemma probe_at_less [simp]: "is_pow2 cap \<Longrightarrow> probe_at cap h d < cap"
  by (simp add: probe_at_def)

lemma probe_at_Suc: "is_pow2 cap \<Longrightarrow> (probe_at cap h d + 1) AND (cap - 1) = probe_at cap h (Suc d)"
  unfolding is_pow2_mask probe_at_def by (simp add: mod_Suc_eq)

lemma probe_at_inj:
  assumes "probe_at cap h d = probe_at cap h e" "d < cap" "e < cap"
  shows "d = e"
proof -
  have "d = e" if "d \<le> e" "probe_at cap h d = probe_at cap h e" "e < cap" for d e
  proof -
    have "cap dvd (h + e) - (h + d)"
      using that by (intro mod_eq_dvd_iff_nat [THEN iffD1]) (auto simp: probe_at_def)
    then show ?thesis using that by (auto dest: dvd_imp_le)
  qed
  then show ?thesis using assms by (metis nle_le)
qed

lemma probe_at_surj:
  assumes "i < cap" "h < cap"
  shows "\<exists>d < cap. probe_at cap h d = i"
proof (cases "h \<le> i")
  case True
  then show ?thesis using assms by (intro exI [of _ "i - h"]) (simp add: probe_at_def less_imp_diff_less)
next
  case False
  then have "(h + (i + cap - h)) mod cap = i" using assms by simp
  then show ?thesis using False assms by (intro exI [of _ "i + cap - h"]) (auto simp: probe_at_def)
qed

lemma probe_at_back: "h < cap \<Longrightarrow> d < cap \<Longrightarrow> probe_at cap h (Suc d) = h \<longleftrightarrow> Suc d = cap"
  using probe_at_inj [of cap h "Suc d" 0] by (cases "Suc d = cap") (auto simp: probe_at_def)

text \<open>A slot can be found from a home: everything probed before it is occupied.\<close>

definition probe_ok :: "nat \<Rightarrow> (nat \<Rightarrow> bool) \<Rightarrow> nat \<Rightarrow> nat \<Rightarrow> bool" where
  "probe_ok cap occ h i \<longleftrightarrow> (\<exists>d < cap. probe_at cap h d = i \<and> (\<forall>e < d. occ (probe_at cap h e)))"

lemma probe_ok_mono: "probe_ok cap occ h i \<Longrightarrow> (\<And>j. occ j \<Longrightarrow> occ' j) \<Longrightarrow> probe_ok cap occ' h i"
  by (auto simp: probe_ok_def)

lemma probe_okI: "d < cap \<Longrightarrow> (\<And>e. e < d \<Longrightarrow> occ (probe_at cap h e)) \<Longrightarrow> probe_ok cap occ h (probe_at cap h d)"
  by (auto simp: probe_ok_def)

text \<open>When the first free slot of the sequence is met, every slot found from the home is before it.\<close>

lemma probe_ok_before_free:
  assumes "probe_ok cap occ h i" "\<not> occ (probe_at cap h d)"
  shows "\<exists>e \<le> d. probe_at cap h e = i"
  using assms unfolding probe_ok_def by (metis nle_le order.strict_iff_order)

lemma exists_free:
  assumes "card {i. i < cap \<and> occ i} < cap" "h < cap"
  shows "\<exists>d < cap. \<not> occ (probe_at cap h d)"
proof -
  have "{i. i < cap \<and> occ i} \<noteq> {..<cap}" using assms(1) by force
  then obtain i where "i < cap" "\<not> occ i" by auto
  then show ?thesis using probe_at_surj [OF _ assms(2)] by metis
qed

section \<open>The search loop\<close>

text \<open>Step from \<open>h\<close> until a slot satisfies \<open>P\<close>; \<open>None\<close> when the fuel is spent.\<close>

fun probe_first :: "(nat \<Rightarrow> bool) \<Rightarrow> nat \<Rightarrow> nat \<Rightarrow> nat \<Rightarrow> nat option" where
  "probe_first P cap 0 h = None"
| "probe_first P cap (Suc n) h = (if P h then Some h else probe_first P cap n ((h + 1) AND (cap - 1)))"

lemma probe_first_from:
  assumes "is_pow2 cap" "d \<le> e" "e < d + n" "P (probe_at cap h e)"
    "\<And>j. d \<le> j \<Longrightarrow> j < e \<Longrightarrow> \<not> P (probe_at cap h j)"
  shows "probe_first P cap n (probe_at cap h d) = Some (probe_at cap h e)"
  using assms(2-5)
proof (induction n arbitrary: d)
  case (Suc n)
  show ?case
  proof (cases "d = e")
    case False
    then have "probe_first P cap n (probe_at cap h (Suc d)) = Some (probe_at cap h e)"
      using Suc.prems by (intro Suc.IH) auto
    moreover have "\<not> P (probe_at cap h d)" using Suc.prems False by simp
    ultimately show ?thesis using probe_at_Suc [OF assms(1), of h d] by simp
  qed (use Suc.prems in simp)
qed simp

lemma probe_first_spec:
  assumes "is_pow2 cap" "h < cap" "\<exists>d < cap. P (probe_at cap h d)"
  shows "\<exists>d < cap. probe_first P cap cap h = Some (probe_at cap h d) \<and> P (probe_at cap h d) \<and>
               (\<forall>e < d. \<not> P (probe_at cap h e))"
proof -
  define d where "d = (LEAST d. P (probe_at cap h d))"
  have d: "P (probe_at cap h d)" "\<And>e. e < d \<Longrightarrow> \<not> P (probe_at cap h e)" "d < cap"
    using assms(3) LeastI_ex [of "\<lambda>d. P (probe_at cap h d)"] not_less_Least [of _ "\<lambda>d. P (probe_at cap h d)"]
      Least_le [of "\<lambda>d. P (probe_at cap h d)"] unfolding d_def by (blast, blast, meson le_less_trans)
  then have "probe_first P cap cap (probe_at cap h 0) = Some (probe_at cap h d)"
    by (intro probe_first_from [OF assms(1)]) auto
  then show ?thesis using d assms(2) by auto
qed

text \<open>When nothing on the whole sequence satisfies \<open>P\<close> the loop runs its bound out.\<close>

lemma probe_first_None:
  assumes "is_pow2 cap" "\<And>d. \<not> P (probe_at cap h d)"
  shows "probe_first P cap n (probe_at cap h d) = None"
  using assms by (induction n arbitrary: d) (simp_all add: probe_at_Suc [simplified])

end
