(* ===== verification/Obj_Table.thy ===== *)
theory Obj_Table
  imports Map_Store Cdo_String Open_Addressing
begin

text \<open>
  Script objects (\<open>source/object/object.c\<close>): an open addressing hash table with tombstones whose live
  slots are linked in insertion order. Keys are interned strings, compared by address. The abstract
  object is the list of its fields in insertion order; reads, writes and deletions refine the list
  operations, growing keeps the order, and reference counts stay balanced.
\<close>

section \<open>State\<close>

datatype object_kind = OBJ_OBJECT | OBJ_ARRAY | OBJ_FUNCTION | OBJ_NATIVE | OBJ_THREAD

record obj_slot =
  os_key :: addr
  os_value :: cdo_value
  os_flags :: nat
  os_prev :: nat
  os_next :: nat

text \<open>The union \<open>fn\<close>: zeroed, a script closure, or a native function.\<close>

datatype fn_data = FnZero
  | FnScript (fn_params: nat) (fn_upvalues: "cdo_value list") (fn_bytecode: addr)
  | FnNative (fn_native: addr) (fn_params: nat)

text \<open>
  \<open>slot_cap\<close> is the length of \<open>ob_slots\<close> and \<open>items_cap\<close> the length of \<open>ob_items\<close>; an item that was
  never written is \<open>None\<close> (uninitialised memory).
\<close>

record cdo_object =
  ob_kind :: object_kind
  ob_readonly :: bool
  ob_slots :: "obj_slot list"
  ob_field_count :: nat
  ob_tombstone_count :: nat
  ob_head :: nat
  ob_tail :: nat
  ob_items :: "cdo_value option list"
  ob_items_len :: nat
  ob_fn :: fn_data

abbreviation slot_cap :: "cdo_object \<Rightarrow> nat" where
  "slot_cap obj \<equiv> length (ob_slots obj)"

definition field_static :: "nat \<Rightarrow> bool" where
  "field_static flags \<longleftrightarrow> flags AND 1 \<noteq> 0"

definition empty_slot :: obj_slot where
  "empty_slot = \<lparr>os_key = 0, os_value = CNull, os_flags = 0, os_prev = u32_max, os_next = u32_max\<rparr>"

definition cdo_obj_alloc :: "object_kind \<Rightarrow> cdo_object" where
  "cdo_obj_alloc kind =
     \<lparr>ob_kind = kind, ob_readonly = False, ob_slots = [], ob_field_count = 0, ob_tombstone_count = 0,
      ob_head = u32_max, ob_tail = u32_max, ob_items = [], ob_items_len = 0, ob_fn = FnZero\<rparr>"

definition cdo_object_new :: cdo_object where
  "cdo_object_new = cdo_obj_alloc OBJ_OBJECT"

section \<open>Hash table internals\<close>

definition ptr_hash :: "addr \<Rightarrow> nat" where
  "ptr_hash key =
     (let p = (of_nat key :: 64 word);
          p = p XOR drop_bit 16 p;
          p = p * 0x45d9f3b;
          p = p XOR drop_bit 16 p
      in u32 (unat p))"

text \<open>The slot at which the search for a key starts.\<close>

definition home :: "nat \<Rightarrow> addr \<Rightarrow> nat" where
  "home cap key = ptr_hash key AND (cap - 1)"

text \<open>The loop of \<open>obj_lookup\<close>: the slot found (or \<open>UINT32_MAX\<close>) and the slot to insert at.\<close>

fun obj_probe :: "obj_slot list \<Rightarrow> addr \<Rightarrow> nat \<Rightarrow> nat \<Rightarrow> nat \<Rightarrow> nat \<Rightarrow> (nat \<times> nat) option" where
  "obj_probe ss key start 0 h tomb = None"
| "obj_probe ss key start (Suc n) h tomb =
     do {
       s \<leftarrow> aget ss h;
       if os_key s = key then Some (h, h)
       else if os_key s \<noteq> cdo_string_tombstone \<and> os_key s = 0 then
         Some (u32_max, if tomb \<noteq> u32_max then tomb else h)
       else
         let tomb = (if os_key s = cdo_string_tombstone \<and> tomb = u32_max then h else tomb);
             h = (h + 1) AND (length ss - 1)
         in if h = start then Some (u32_max, tomb) else obj_probe ss key start n h tomb
     }"

definition obj_lookup :: "cdo_object \<Rightarrow> addr \<Rightarrow> (nat \<times> nat) option" where
  "obj_lookup obj key =
     (if slot_cap obj = 0 then Some (u32_max, u32_max)
      else let h = home (slot_cap obj) key
           in obj_probe (ob_slots obj) key h (slot_cap obj) h u32_max)"

text \<open>Linking a fresh slot at the tail of the insertion order.\<close>

definition link_tail :: "obj_slot list \<Rightarrow> nat \<Rightarrow> nat \<Rightarrow> nat \<Rightarrow> obj_slot list option" where
  "link_tail ss hi ti i =
     (if hi = u32_max then Some ss
      else do { t \<leftarrow> aget ss ti; Some (ss[ti := t\<lparr>os_next := i\<rparr>]) })"

text \<open>Re-insertion of the live slots in FIFO order; the state is the new slots, head and tail.\<close>

fun rehash_loop :: "obj_slot list \<Rightarrow> nat \<Rightarrow> nat \<Rightarrow> obj_slot list \<Rightarrow> nat \<Rightarrow> nat \<Rightarrow> (obj_slot list \<times> nat \<times> nat) option" where
  "rehash_loop old 0 idx ns hi ti = (if idx = u32_max then Some (ns, hi, ti) else None)"
| "rehash_loop old (Suc n) idx ns hi ti =
     (if idx = u32_max then Some (ns, hi, ti)
      else do {
        s \<leftarrow> aget old idx;
        h \<leftarrow> probe_first (\<lambda>h. os_key (ns ! h) = 0) (length ns) (length ns) (home (length ns) (os_key s));
        ns \<leftarrow> link_tail (ns[h := s\<lparr>os_prev := ti, os_next := u32_max\<rparr>]) hi ti h;
        rehash_loop old n (os_next s) ns (if hi = u32_max then h else hi) h
      })"

definition obj_rehash :: "cdo_object \<Rightarrow> nat \<Rightarrow> cdo_object option" where
  "obj_rehash obj new_cap =
     do {
       check (pow2 new_cap);
       (ns, hi, ti) \<leftarrow> rehash_loop (ob_slots obj) (slot_cap obj) (ob_head obj) (replicate new_cap empty_slot) u32_max u32_max;
       Some (obj\<lparr>ob_slots := ns, ob_tombstone_count := 0, ob_head := hi, ob_tail := ti\<rparr>)
     }"

text \<open>\<open>while ((field_count + 1) * 4 > new_cap * 3) new_cap *= 2\<close>\<close>

fun grow_cap :: "nat \<Rightarrow> nat \<Rightarrow> nat \<Rightarrow> nat option" where
  "grow_cap 0 need cap = None"
| "grow_cap (Suc n) need cap = (if u32 (need * 4) > u32 (cap * 3) then grow_cap n need (u32 (cap * 2)) else Some cap)"

definition obj_ensure_capacity :: "cdo_object \<Rightarrow> cdo_object option" where
  "obj_ensure_capacity obj =
     (let used = u32 (ob_field_count obj + ob_tombstone_count obj + 1)
      in if slot_cap obj = 0 \<or> u32 (used * 4) > u32 (slot_cap obj * 3) then
           do {
             new_cap \<leftarrow> grow_cap 33 (ob_field_count obj + 1) (if slot_cap obj = 0 then 8 else u32 (slot_cap obj * 2));
             obj_rehash obj new_cap
           }
         else Some obj)"

section \<open>Raw field access\<close>

definition key_ok :: "addr \<Rightarrow> bool" where
  "key_ok key \<longleftrightarrow> key \<noteq> 0 \<and> key \<noteq> cdo_string_tombstone"

definition cdo_object_rawget :: "cdo_object \<Rightarrow> addr \<Rightarrow> cdo_value option option" where
  "cdo_object_rawget obj key =
     do {
       check (key_ok key);
       if ob_kind obj \<noteq> OBJ_OBJECT then Some None
       else do {
         (idx, _) \<leftarrow> obj_lookup obj key;
         if idx = u32_max then Some None
         else do { s \<leftarrow> aget (ob_slots obj) idx; Some (Some (os_value s)) }
       }
     }"

definition cdo_object_rawset ::
  "cdo_heap \<Rightarrow> cdo_object \<Rightarrow> addr \<Rightarrow> cdo_value \<Rightarrow> nat \<Rightarrow> (cdo_heap \<times> cdo_object \<times> bool) option" where
  "cdo_object_rawset H obj key val flags =
     do {
       check (key_ok key);
       if ob_readonly obj then Some (H, obj, False)
       else do {
         obj \<leftarrow> obj_ensure_capacity obj;
         (found, insert_at) \<leftarrow> obj_lookup obj key;
         if found \<noteq> u32_max then do {
           s \<leftarrow> aget (ob_slots obj) found;
           if field_static (os_flags s) then Some (H, obj, False)
           else do {
             H \<leftarrow> cdo_value_release H (os_value s);
             H \<leftarrow> cdo_value_copy H val;
             Some (H, obj\<lparr>ob_slots := (ob_slots obj)[found := s\<lparr>os_value := val, os_flags := flags\<rparr>]\<rparr>, True)
           }
         }
         else do {
           check (insert_at \<noteq> u32_max);
           s \<leftarrow> aget (ob_slots obj) insert_at;
           H \<leftarrow> cdo_value_copy H val;
           ss \<leftarrow> link_tail
                  ((ob_slots obj)[insert_at := \<lparr>os_key = key, os_value = val, os_flags = flags,
                                                os_prev = ob_tail obj, os_next = u32_max\<rparr>])
                  (ob_head obj) (ob_tail obj) insert_at;
           Some (H, obj\<lparr>ob_slots := ss,
                        ob_tombstone_count := (if os_key s = cdo_string_tombstone
                                               then u32 (ob_tombstone_count obj + u32_max)
                                               else ob_tombstone_count obj),
                        ob_head := (if ob_head obj = u32_max then insert_at else ob_head obj),
                        ob_tail := insert_at,
                        ob_field_count := u32 (ob_field_count obj + 1)\<rparr>, True)
         }
       }
     }"

definition tomb_slot :: obj_slot where
  "tomb_slot = \<lparr>os_key = cdo_string_tombstone, os_value = CNull, os_flags = 0, os_prev = u32_max, os_next = u32_max\<rparr>"

text \<open>Taking a slot out of the insertion order: its neighbours are linked to each other.\<close>

definition unlink_prev :: "obj_slot list \<Rightarrow> obj_slot \<Rightarrow> obj_slot list option" where
  "unlink_prev ss s =
     (if os_prev s \<noteq> u32_max
      then do { p \<leftarrow> aget ss (os_prev s); Some (ss[os_prev s := p\<lparr>os_next := os_next s\<rparr>]) }
      else Some ss)"

definition unlink_next :: "obj_slot list \<Rightarrow> obj_slot \<Rightarrow> obj_slot list option" where
  "unlink_next ss s =
     (if os_next s \<noteq> u32_max
      then do { n \<leftarrow> aget ss (os_next s); Some (ss[os_next s := n\<lparr>os_prev := os_prev s\<rparr>]) }
      else Some ss)"

definition cdo_object_rawdelete :: "cdo_heap \<Rightarrow> cdo_object \<Rightarrow> addr \<Rightarrow> (cdo_heap \<times> cdo_object \<times> bool) option" where
  "cdo_object_rawdelete H obj key =
     do {
       check (key_ok key);
       if ob_readonly obj then Some (H, obj, False)
       else do {
         (idx, _) \<leftarrow> obj_lookup obj key;
         if idx = u32_max then Some (H, obj, False)
         else do {
           s \<leftarrow> aget (ob_slots obj) idx;
           if field_static (os_flags s) then Some (H, obj, False)
           else do {
             ss \<leftarrow> unlink_prev (ob_slots obj) s;
             ss \<leftarrow> unlink_next ss s;
             H \<leftarrow> cdo_value_release H (os_value s);
             Some (H, obj\<lparr>ob_slots := ss[idx := tomb_slot],
                          ob_head := (if os_prev s \<noteq> u32_max then ob_head obj else os_next s),
                          ob_tail := (if os_next s \<noteq> u32_max then ob_tail obj else os_prev s),
                          ob_field_count := u32 (ob_field_count obj + u32_max),
                          ob_tombstone_count := u32 (ob_tombstone_count obj + 1)\<rparr>, True)
           }
         }
       }
     }"

definition cdo_object_set_readonly :: "cdo_object \<Rightarrow> bool \<Rightarrow> cdo_object" where
  "cdo_object_set_readonly obj ro = obj\<lparr>ob_readonly := ro\<rparr>"

definition cdo_object_is_readonly :: "cdo_object \<Rightarrow> bool" where
  "cdo_object_is_readonly obj = ob_readonly obj"

definition cdo_object_length :: "cdo_object \<Rightarrow> nat" where
  "cdo_object_length obj = (if ob_kind obj = OBJ_ARRAY then ob_items_len obj else ob_field_count obj)"

section \<open>Invariant and abstraction\<close>

text \<open>A segment of the doubly linked insertion order: it starts at \<open>h\<close> behind \<open>p\<close>, visits \<open>is\<close>,
  ends in \<open>t\<close>, whose successor is \<open>n\<close>.\<close>

fun fifo_seg :: "obj_slot list \<Rightarrow> nat \<Rightarrow> nat \<Rightarrow> nat list \<Rightarrow> nat \<Rightarrow> nat \<Rightarrow> bool" where
  "fifo_seg ss p h [] t n \<longleftrightarrow> h = n \<and> t = p"
| "fifo_seg ss p h (i # is) t n \<longleftrightarrow>
     h = i \<and> i < length ss \<and> os_prev (ss ! i) = p \<and> fifo_seg ss i (os_next (ss ! i)) is t n"

fun fifo_walk :: "obj_slot list \<Rightarrow> nat \<Rightarrow> nat \<Rightarrow> nat list" where
  "fifo_walk ss 0 h = []"
| "fifo_walk ss (Suc n) h = (if h = u32_max then [] else h # fifo_walk ss n (os_next (ss ! h)))"

type_synonym field = "addr \<times> cdo_value \<times> nat"

definition slot_entry :: "obj_slot \<Rightarrow> field" where
  "slot_entry s = (os_key s, os_value s, os_flags s)"

text \<open>The fields of an object, oldest first.\<close>

definition obj_fields :: "cdo_object \<Rightarrow> field list" where
  "obj_fields obj = map (\<lambda>i. slot_entry (ob_slots obj ! i)) (fifo_walk (ob_slots obj) (slot_cap obj) (ob_head obj))"


definition occupied :: "obj_slot list \<Rightarrow> nat \<Rightarrow> bool" where
  "occupied ss i \<longleftrightarrow> os_key (ss ! i) \<noteq> 0"

definition live_idx :: "obj_slot list \<Rightarrow> nat set" where
  "live_idx ss = {i. i < length ss \<and> key_ok (os_key (ss ! i))}"

definition tomb_idx :: "obj_slot list \<Rightarrow> nat set" where
  "tomb_idx ss = {i. i < length ss \<and> os_key (ss ! i) = cdo_string_tombstone}"

text \<open>The shape of the slots alone: a path \<open>is\<close> over exactly the live slots, keys unique and findable.\<close>

definition slots_wf :: "obj_slot list \<Rightarrow> nat \<Rightarrow> nat list \<Rightarrow> nat \<Rightarrow> bool" where
  "slots_wf ss h is t \<longleftrightarrow>
     fifo_seg ss u32_max h is t u32_max \<and> distinct is \<and> set is = live_idx ss \<and>
     inj_on (\<lambda>i. os_key (ss ! i)) (set is) \<and>
     (\<forall>i \<in> set is. probe_ok (length ss) (occupied ss) (home (length ss) (os_key (ss ! i))) i)"

definition obj_wf :: "cdo_object \<Rightarrow> nat list \<Rightarrow> bool" where
  "obj_wf obj is \<longleftrightarrow>
     slots_wf (ob_slots obj) (ob_head obj) is (ob_tail obj) \<and>
     (slot_cap obj = 0 \<or> is_pow2 (slot_cap obj)) \<and> slot_cap obj \<le> 2 ^ 28 \<and>
     ob_field_count obj = length is \<and>
     ob_tombstone_count obj = card (tomb_idx (ob_slots obj)) \<and>
     4 * (ob_field_count obj + ob_tombstone_count obj) \<le> 3 * slot_cap obj"

definition obj_inv :: "cdo_object \<Rightarrow> bool" where
  "obj_inv obj \<longleftrightarrow> (\<exists>is. obj_wf obj is)"

lemma tombstone_neq_0 [simp]: "cdo_string_tombstone \<noteq> 0" "0 < cdo_string_tombstone" "0 \<noteq> cdo_string_tombstone"
  by (simp_all add: cdo_string_tombstone_def)

lemma key_okD: "key_ok k \<Longrightarrow> k \<noteq> 0 \<and> k \<noteq> cdo_string_tombstone"
  by (simp add: key_ok_def)

lemma finite_idx [simp]: "finite (live_idx ss)" "finite (tomb_idx ss)"
  by (simp_all add: live_idx_def tomb_idx_def)

lemma card_occupied: "card {i. i < length ss \<and> occupied ss i} = card (live_idx ss) + card (tomb_idx ss)"
proof -
  have "{i. i < length ss \<and> occupied ss i} = live_idx ss \<union> tomb_idx ss"
    by (auto simp: occupied_def live_idx_def tomb_idx_def key_ok_def cdo_string_tombstone_def)
  moreover have "live_idx ss \<inter> tomb_idx ss = {}" by (auto simp: live_idx_def tomb_idx_def key_ok_def)
  ultimately show ?thesis by (simp add: card_Un_disjoint)
qed

lemma live_idx_less: "i \<in> live_idx ss \<Longrightarrow> i < length ss"
  by (simp add: live_idx_def)

lemma home_less [simp]: "is_pow2 cap \<Longrightarrow> home cap k < cap"
  by (simp only: home_def is_pow2_mask mod_less_divisor is_pow2_pos)

section \<open>The path\<close>

lemma fifo_walk_seg:
  "fifo_seg ss p h is t u32_max \<Longrightarrow> length is \<le> n \<Longrightarrow> (\<forall>i \<in> set is. i \<noteq> u32_max) \<Longrightarrow> fifo_walk ss n h = is"
proof (induction "is" arbitrary: p h n)
  case Nil
  then show ?case by (cases n) simp_all
next
  case (Cons i "is")
  then show ?case by (cases n) auto
qed

lemma fifo_seg_bounds: "fifo_seg ss p h is t n \<Longrightarrow> i \<in> set is \<Longrightarrow> i < length ss"
  by (induction "is" arbitrary: p h) auto

lemma fifo_seg_cong:
  "fifo_seg ss p h is t n \<Longrightarrow> length ss' = length ss \<Longrightarrow>
   (\<And>i. i \<in> set is \<Longrightarrow> os_prev (ss' ! i) = os_prev (ss ! i) \<and> os_next (ss' ! i) = os_next (ss ! i)) \<Longrightarrow>
   fifo_seg ss' p h is t n"
  by (induction "is" arbitrary: p h) auto

lemma fifo_seg_update [simp]: "i \<notin> set is \<Longrightarrow> fifo_seg (ss[i := s]) p h is t n = fifo_seg ss p h is t n"
  by (induction "is" arbitrary: p h) auto

lemma fifo_seg_append:
  "fifo_seg ss p h (is @ js) t n \<longleftrightarrow> (\<exists>q m. fifo_seg ss p h is q m \<and> fifo_seg ss q m js t n)"
  by (induction "is" arbitrary: p h) auto

lemma fifo_seg_tail: "fifo_seg ss p h is t n \<Longrightarrow> t = (if is = [] then p else last is)"
  by (induction "is" arbitrary: p h) auto

lemma fifo_seg_head: "fifo_seg ss p h is t n \<Longrightarrow> h = (if is = [] then n else hd is)"
  by (cases "is") auto

text \<open>Redirecting the end of a segment, and its front.\<close>

lemma fifo_seg_end:
  assumes "fifo_seg ss p h is t n" "distinct is" "is \<noteq> []"
  shows "fifo_seg (ss[t := (ss ! t)\<lparr>os_next := m\<rparr>]) p h is t m"
proof -
  obtain bs l where b: "is = bs @ [l]" using assms(3) by (metis rev_exhaust)
  then have "t = l" "l \<notin> set bs" using fifo_seg_tail [OF assms(1)] assms(2) by auto
  then show ?thesis using assms(1) unfolding b by (auto simp: fifo_seg_append)
qed

lemma fifo_seg_front:
  assumes "fifo_seg ss p h is t n" "distinct is" "is \<noteq> []"
  shows "fifo_seg (ss[h := (ss ! h)\<lparr>os_prev := q\<rparr>]) q h is t n"
  using assms by (cases "is") auto

lemma fifo_seg_snoc:
  assumes "fifo_seg ss p h is t u32_max" "distinct is" "i \<notin> set is" "i < length ss"
    "os_prev s = t" "os_next s = u32_max"
  shows "fifo_seg ((if is = [] then ss else ss[t := (ss ! t)\<lparr>os_next := i\<rparr>])[i := s]) p
           (if is = [] then i else h) (is @ [i]) i u32_max"
proof (cases "is = []")
  case True
  then show ?thesis using assms by simp
next
  case False
  then have "fifo_seg (ss[t := (ss ! t)\<lparr>os_next := i\<rparr>]) p h is t i"
    using fifo_seg_end [OF assms(1,2)] by simp
  then show ?thesis using False assms by (auto simp: fifo_seg_append)
qed

text \<open>Unlinking a slot from the middle of the order.\<close>

lemma fifo_seg_remove:
  assumes seg: "fifo_seg ss u32_max h (as @ i # bs) t u32_max" and d: "distinct (as @ i # bs)"
    and ss1: "ss1 = (if as = [] then ss else ss[os_prev (ss ! i) := (ss ! os_prev (ss ! i))\<lparr>os_next := os_next (ss ! i)\<rparr>])"
    and ss2: "ss2 = (if bs = [] then ss1 else ss1[os_next (ss ! i) := (ss1 ! os_next (ss ! i))\<lparr>os_prev := os_prev (ss ! i)\<rparr>])"
  shows "fifo_seg (ss2[i := s]) u32_max (if as = [] then os_next (ss ! i) else h) (as @ bs)
           (if bs = [] then os_prev (ss ! i) else t) u32_max"
proof -
  obtain q where a: "fifo_seg ss u32_max h as q i" and q: "os_prev (ss ! i) = q"
    and b: "fifo_seg ss i (os_next (ss ! i)) bs t u32_max"
    using seg by (auto simp: fifo_seg_append)
  let ?m = "os_next (ss ! i)"
  have qa: "as \<noteq> [] \<Longrightarrow> q \<in> set as" using fifo_seg_tail [OF a] by auto
  have mb: "bs \<noteq> [] \<Longrightarrow> ?m \<in> set bs" using fifo_seg_head [OF b] by auto
  have mbs: "bs \<noteq> [] \<Longrightarrow> ?m \<notin> set as" using mb d by auto
  have a1: "fifo_seg ss1 u32_max (if as = [] then ?m else h) as q ?m"
    using fifo_seg_end [OF a, of ?m] a d q by (auto simp: ss1)
  have "as \<noteq> [] \<Longrightarrow> q \<notin> set bs" using qa d by auto
  then have b1: "fifo_seg ss1 i ?m bs t u32_max" using b q by (simp add: ss1)
  have b2: "fifo_seg ss2 q ?m bs (if bs = [] then q else t) u32_max"
    using fifo_seg_front [OF b1, of q] b1 d q by (auto simp: ss2)
  have a2: "fifo_seg ss2 u32_max (if as = [] then ?m else h) as q ?m"
    using a1 mbs by (cases "as = []") (simp_all add: ss2)
  have "fifo_seg ss2 u32_max (if as = [] then ?m else h) (as @ bs) (if bs = [] then q else t) u32_max"
    using a2 b2 unfolding fifo_seg_append by blast
  moreover have "i \<notin> set (as @ bs)" using d by simp
  ultimately show ?thesis unfolding q by (subst fifo_seg_update)
qed

section \<open>Lookup\<close>

lemma obj_probe_spec:
  assumes pow: "is_pow2 (length ss)" and key: "key_ok k" and start: "start < length ss"
    and e: "d \<le> e" "e < length ss" "os_key (ss ! probe_at (length ss) start e) \<in> {k, 0}"
      "\<And>j. d \<le> j \<Longrightarrow> j < e \<Longrightarrow> os_key (ss ! probe_at (length ss) start j) \<notin> {k, 0}"
    and n: "e < d + n" and cap: "length ss \<le> u32_max"
  shows "obj_probe ss k start n (probe_at (length ss) start d) tomb =
      Some (if os_key (ss ! probe_at (length ss) start e) = k
            then (probe_at (length ss) start e, probe_at (length ss) start e)
            else (u32_max, if tomb \<noteq> u32_max then tomb
              else case filter (\<lambda>j. os_key (ss ! j) = cdo_string_tombstone) (map (probe_at (length ss) start) [d..<e])
                   of [] \<Rightarrow> probe_at (length ss) start e | j # _ \<Rightarrow> j))"
  using e n
proof (induction n arbitrary: d tomb)
  case (Suc n)
  let ?at = "probe_at (length ss) start"
  have at: "?at d < length ss" using probe_at_less [OF pow] .
  then have "?at d < u32_max" using cap by (rule order_less_le_trans)
  then have at: "?at d < length ss" "?at d \<noteq> u32_max" using at by auto
  show ?case
  proof (cases "d = e")
    case True
    then show ?thesis using Suc.prems(3) at key_okD [OF key] by auto
  next
    case False
    then have d: "d < e" using Suc.prems(1) by simp
    have nk: "os_key (ss ! ?at d) \<notin> {k, 0}" using Suc.prems(4) d by simp
    have "?at (Suc d) \<noteq> start" using probe_at_back [OF start, of d] d Suc.prems(2) by auto
    then have step: "obj_probe ss k start (Suc n) (?at d) tomb = obj_probe ss k start n (?at (Suc d))
        (if os_key (ss ! ?at d) = cdo_string_tombstone \<and> tomb = u32_max then ?at d else tomb)"
      using nk at(1) probe_at_Suc [OF pow, of start d] by (simp add: Let_def)
    have u: "[d..<e] = d # [Suc d..<e]" using d by (simp add: upt_conv_Cons)
    show ?thesis unfolding step u
      by (subst Suc.IH) (use Suc.prems d at(2) in auto)
  qed
qed simp

lemma slots_wf_occ:
  assumes "slots_wf ss h is t" "4 * (length is + card (tomb_idx ss)) \<le> 3 * length ss" "is_pow2 (length ss)" "st < length ss"
  shows "\<exists>d < length ss. \<not> occupied ss (probe_at (length ss) st d)"
proof (rule exists_free [OF _ assms(4)])
  have "card (live_idx ss) = length is"
    using assms(1) distinct_card [of "is"] by (simp add: slots_wf_def)
  then show "card {i. i < length ss \<and> occupied ss i} < length ss"
    using assms(2) is_pow2_pos [OF assms(3)] unfolding card_occupied
    by (simp only: distrib_left)
qed

text \<open>A lookup finds the slot of a present key; for an absent one it names a slot to insert at that
  is free (or a tombstone) and that a later lookup of the key reaches.\<close>

lemma obj_lookup_spec:
  assumes wf: "slots_wf (ob_slots obj) h is t"
    and load: "4 * (length is + card (tomb_idx (ob_slots obj))) \<le> 3 * slot_cap obj"
    and pow: "is_pow2 (slot_cap obj)" and cap: "slot_cap obj \<le> u32_max" and key: "key_ok k"
  obtains
    (found) i where "obj_lookup obj k = Some (i, i)" "i \<in> set is" "os_key (ob_slots obj ! i) = k"
  | (missing) i where "obj_lookup obj k = Some (u32_max, i)" "\<forall>j \<in> set is. os_key (ob_slots obj ! j) \<noteq> k"
      "i < slot_cap obj" "os_key (ob_slots obj ! i) \<in> {0, cdo_string_tombstone}"
      "probe_ok (slot_cap obj) (occupied (ob_slots obj)) (home (slot_cap obj) k) i"
proof -
  let ?ss = "ob_slots obj" and ?cap = "slot_cap obj"
  let ?st = "home ?cap k" and ?at = "probe_at ?cap (home ?cap k)"
  let ?stop = "\<lambda>d. os_key (?ss ! ?at d) \<in> {k, 0}"
  have st: "?st < ?cap" using pow by simp
  have live: "set is = live_idx ?ss" using wf by (simp add: slots_wf_def)
  obtain d where d: "d < ?cap" "\<not> occupied ?ss (?at d)" using slots_wf_occ [OF wf load pow st] by blast
  define e where "e = (LEAST d. ?stop d)"
  have "?stop d" using d by (simp add: occupied_def)
  then have e: "?stop e" "e \<le> d" unfolding e_def by (rule LeastI, rule Least_le)
  have nstop: "\<not> ?stop j" if "j < e" for j using that not_less_Least unfolding e_def by blast
  have ecap: "e < ?cap" using e d by simp
  have ate: "?at e < ?cap" using pow by simp
  have occ: "occupied ?ss (?at j)" if "j < e" for j using nstop [OF that] by (simp add: occupied_def)
  have look: "obj_lookup obj k = Some (if os_key (?ss ! ?at e) = k then (?at e, ?at e)
      else (u32_max, case filter (\<lambda>j. os_key (?ss ! j) = cdo_string_tombstone) (map ?at [0..<e])
                     of [] \<Rightarrow> ?at e | j # _ \<Rightarrow> j))"
  proof -
    have "obj_probe ?ss k ?st ?cap (?at 0) u32_max = Some (if os_key (?ss ! ?at e) = k then (?at e, ?at e)
      else (u32_max, case filter (\<lambda>j. os_key (?ss ! j) = cdo_string_tombstone) (map ?at [0..<e])
                     of [] \<Rightarrow> ?at e | j # _ \<Rightarrow> j))"
      using obj_probe_spec [OF pow key st _ ecap e(1) _ _ cap, of 0 ?cap u32_max] nstop ecap by simp
    then show ?thesis using st is_pow2_pos [OF pow] by (auto simp: obj_lookup_def Let_def)
  qed
  show thesis
  proof (cases "os_key (?ss ! ?at e) = k")
    case True
    then have "?at e \<in> set is" using ate key by (simp add: live live_idx_def)
    then show ?thesis using found look True by simp
  next
    case False
    then have z: "os_key (?ss ! ?at e) = 0" using e(1) by simp
    have absent: "os_key (?ss ! i) \<noteq> k" if "i \<in> set is" for i
    proof
      assume ki: "os_key (?ss ! i) = k"
      then have "probe_ok ?cap (occupied ?ss) ?st i" using wf that by (auto simp: slots_wf_def)
      then obtain j where "j \<le> e" "?at j = i" using probe_ok_before_free z by (metis occupied_def)
      then show False using ki nstop [of j] False by (cases "j = e") auto
    qed
    define i where "i = (case filter (\<lambda>j. os_key (?ss ! j) = cdo_string_tombstone) (map ?at [0..<e])
                     of [] \<Rightarrow> ?at e | j # _ \<Rightarrow> j)"
    have "\<exists>j \<le> e. i = ?at j \<and> os_key (?ss ! i) \<in> {0, cdo_string_tombstone}"
    proof (cases "filter (\<lambda>j. os_key (?ss ! j) = cdo_string_tombstone) (map ?at [0..<e])")
      case Nil
      then show ?thesis using z by (auto simp: i_def)
    next
      case (Cons j js)
      then have "j \<in> set (filter (\<lambda>j. os_key (?ss ! j) = cdo_string_tombstone) (map ?at [0..<e]))"
        by (simp only: list.set_intros)
      then have "\<exists>l < e. j = ?at l \<and> os_key (?ss ! j) = cdo_string_tombstone" by auto
      moreover have "i = j" by (simp add: i_def Cons)
      ultimately show ?thesis by (metis insertCI order.strict_implies_order)
    qed
    then obtain j where j: "j \<le> e" "i = ?at j" "os_key (?ss ! i) \<in> {0, cdo_string_tombstone}" by blast
    then have "probe_ok ?cap (occupied ?ss) ?st i"
      using occ ecap unfolding j(2) by (intro probe_okI) auto
    moreover have "obj_lookup obj k = Some (u32_max, i)" using look False by (simp add: i_def)
    moreover have "i < ?cap" using j(2) pow by simp
    ultimately show ?thesis using missing [of i] absent j(3) by blast
  qed
qed

section \<open>Insertion into the slots\<close>

abbreviation entries :: "obj_slot list \<Rightarrow> nat list \<Rightarrow> field list" where
  "entries ss is \<equiv> map (\<lambda>i. slot_entry (ss ! i)) is"

lemma slots_wfD:
  assumes "slots_wf ss h is t"
  shows "fifo_seg ss u32_max h is t u32_max" "distinct is" "set is = live_idx ss"
    "inj_on (\<lambda>i. os_key (ss ! i)) (set is)"
    "i \<in> set is \<Longrightarrow> probe_ok (length ss) (occupied ss) (home (length ss) (os_key (ss ! i))) i"
  using assms by (auto simp: slots_wf_def)

lemma head_none:
  assumes "slots_wf ss h is t" "length ss \<le> u32_max"
  shows "h = u32_max \<longleftrightarrow> is = []"
proof (cases "is")
  case Nil
  then show ?thesis using slots_wfD(1) [OF assms(1)] by simp
next
  case (Cons j js)
  then have "h = j" "j < length ss" using slots_wfD(1) [OF assms(1)] by auto
  then show ?thesis using Cons assms(2) by auto
qed

lemma slots_link:
  assumes wf: "slots_wf ss h is t" and len: "length ss \<le> u32_max"
    and i: "i < length ss" "os_key (ss ! i) \<in> {0, cdo_string_tombstone}"
    and reach: "probe_ok (length ss) (occupied ss) (home (length ss) (os_key s)) i"
    and key: "key_ok (os_key s)" "\<forall>j \<in> set is. os_key (ss ! j) \<noteq> os_key s"
    and links: "os_prev s = t" "os_next s = u32_max"
  shows "\<exists>ss'. link_tail (ss[i := s]) h t i = Some ss' \<and> length ss' = length ss \<and>
           slots_wf ss' (if h = u32_max then i else h) (is @ [i]) i \<and>
           entries ss' (is @ [i]) = entries ss is @ [slot_entry s] \<and> tomb_idx ss' = tomb_idx ss - {i}"
proof -
  note W = slots_wfD [OF wf]
  have i_new: "i \<notin> set is" using i(2) by (auto simp: W(3) live_idx_def key_ok_def)
  let ?ss0 = "if is = [] then ss else ss[t := (ss ! t)\<lparr>os_next := i\<rparr>]"
  define ss2 where "ss2 = ?ss0[i := s]"
  have t: "is \<noteq> [] \<Longrightarrow> t \<in> set is" using fifo_seg_tail [OF W(1)] by auto
  have ti: "is \<noteq> [] \<Longrightarrow> t \<noteq> i" "is \<noteq> [] \<Longrightarrow> t < length ss" using t i_new W(3) by (auto simp: live_idx_def)
  have link: "link_tail (ss[i := s]) h t i = Some ss2"
    using head_none [OF wf len] ti i by (auto simp: ss2_def link_tail_def list_update_swap)
  have len': "length ss2 = length ss" by (simp add: ss2_def)
  have key': "os_key (ss2 ! j) = (if j = i then os_key s else os_key (ss ! j))"
    and ent': "slot_entry (ss2 ! j) = (if j = i then slot_entry s else slot_entry (ss ! j))"
    if "j < length ss" for j
    using that i ti by (auto simp: ss2_def nth_list_update slot_entry_def)
  have live: "live_idx ss2 = insert i (live_idx ss)"
    unfolding live_idx_def len' using key' key i(1) by (auto split: if_splits)
  have tomb: "tomb_idx ss2 = tomb_idx ss - {i}"
    unfolding tomb_idx_def len' using key' key_okD [OF key(1)] by (auto split: if_splits)
  have occ: "occupied ss j \<Longrightarrow> j < length ss \<Longrightarrow> occupied ss2 j" for j
    using key' key_okD [OF key(1)] by (simp add: occupied_def)
  have mono: "probe_ok (length ss) (occupied ss) x j \<Longrightarrow> probe_ok (length ss) (occupied ss2) x j" for x j
  proof -
    have "probe_at (length ss) x e < length ss" for e using i(1) by (auto simp: probe_at_def intro!: mod_less_divisor)
    then show "probe_ok (length ss) (occupied ss) x j \<Longrightarrow> probe_ok (length ss) (occupied ss2) x j"
      unfolding probe_ok_def using occ by blast
  qed
  have bound: "j \<in> set is \<Longrightarrow> j < length ss" for j by (simp add: W(3) live_idx_def)
  have seg: "fifo_seg ss2 u32_max (if is = [] then i else h) (is @ [i]) i u32_max"
    unfolding ss2_def by (rule fifo_seg_snoc [OF W(1,2) i_new i(1) links])
  have "slots_wf ss2 (if h = u32_max then i else h) (is @ [i]) i"
    unfolding slots_wf_def
  proof (intro conjI ballI)
    show "fifo_seg ss2 u32_max (if h = u32_max then i else h) (is @ [i]) i u32_max"
      using seg head_none [OF wf len] by simp
    show "distinct (is @ [i])" using W(2) i_new by simp
    show "set (is @ [i]) = live_idx ss2" by (simp add: live W(3))
    show "inj_on (\<lambda>j. os_key (ss2 ! j)) (set (is @ [i]))"
    proof (rule inj_onI)
      fix x y assume xy: "x \<in> set (is @ [i])" "y \<in> set (is @ [i])" "os_key (ss2 ! x) = os_key (ss2 ! y)"
      have "x < length ss" "y < length ss" using xy(1,2) bound i(1) by auto
      then have "(if x = i then os_key s else os_key (ss ! x)) = (if y = i then os_key s else os_key (ss ! y))"
        using xy(3) key' by metis
      then show "x = y" using xy(1,2) key(2) inj_onD [OF W(4), of x y] i_new by (auto split: if_splits)
    qed
    fix x assume x: "x \<in> set (is @ [i])"
    show "probe_ok (length ss2) (occupied ss2) (home (length ss2) (os_key (ss2 ! x))) x"
    proof (cases "x = i")
      case True
      then show ?thesis using mono [OF reach] key' [OF i(1)] unfolding len' by simp
    next
      case False
      then have "x \<in> set is" using x by simp
      then show ?thesis using mono [OF W(5)] key' [OF bound] False unfolding len' by simp
    qed
  qed
  moreover have "entries ss2 (is @ [i]) = entries ss is @ [slot_entry s]"
    using ent' bound i(1) i_new by (auto intro!: map_cong)
  ultimately show ?thesis using link len' tomb by blast
qed

section \<open>Growing\<close>

lemma entries_keys: "map fst (entries ss is) = map (\<lambda>i. os_key (ss ! i)) is"
  by (simp add: slot_entry_def comp_def)

lemma rehash_loop_spec:
  assumes "fifo_seg old p idx js t u32_max" "\<forall>j \<in> set js. j \<noteq> u32_max \<and> key_ok (os_key (old ! j))"
    and "length js \<le> n" "slots_wf ns h ds tt" "tomb_idx ns = {}" "is_pow2 (length ns)" "length ns \<le> u32_max"
    and "distinct (map fst (entries ns ds @ entries old js))"
    and "4 * (length ds + length js) \<le> 3 * length ns"
  shows "\<exists>ns' h' ds' t'. rehash_loop old n idx ns h tt = Some (ns', h', t') \<and> slots_wf ns' h' ds' t' \<and>
           tomb_idx ns' = {} \<and> length ns' = length ns \<and> entries ns' ds' = entries ns ds @ entries old js"
  using assms
proof (induction js arbitrary: p idx n ns h ds tt)
  case Nil
  then show ?case by (cases n) auto
next
  case (Cons j js)
  obtain m where n: "n = Suc m" "length js \<le> m" using Cons.prems(3) by (cases n) auto
  have j: "idx = j" "j < length old" "fifo_seg old j (os_next (old ! j)) js t u32_max" "j \<noteq> u32_max"
      "key_ok (os_key (old ! j))"
    using Cons.prems(1,2) by auto
  note wf = Cons.prems(4) and tomb = Cons.prems(5) and pow = Cons.prems(6) and cap = Cons.prems(7)
  let ?k = "os_key (old ! j)" and ?c = "length ns"
  have load: "4 * (length ds + card (tomb_idx ns)) \<le> 3 * ?c" using Cons.prems(9) tomb by simp
  have st: "home ?c ?k < ?c" using pow by simp
  obtain d where d: "d < ?c" "probe_first (\<lambda>h. os_key (ns ! h) = 0) ?c ?c (home ?c ?k) = Some (probe_at ?c (home ?c ?k) d)"
      "os_key (ns ! probe_at ?c (home ?c ?k) d) = 0" "\<forall>e < d. os_key (ns ! probe_at ?c (home ?c ?k) e) \<noteq> 0"
  proof -
    have ex: "\<exists>d < ?c. os_key (ns ! probe_at ?c (home ?c ?k) d) = 0"
      using slots_wf_occ [OF wf load pow st] by (simp add: occupied_def)
    show thesis
      using probe_first_spec [OF pow st, of "\<lambda>h. os_key (ns ! h) = 0", OF ex] by (elim exE conjE) (rule that)
  qed
  let ?i = "probe_at ?c (home ?c ?k) d" and ?s = "(old ! j)\<lparr>os_prev := tt, os_next := u32_max\<rparr>"
  have reach: "probe_ok ?c (occupied ns) (home ?c (os_key ?s)) ?i"
    using d(1,4) probe_okI [of d ?c "occupied ns" "home ?c ?k"] by (simp add: occupied_def)
  have new: "\<forall>x \<in> set ds. os_key (ns ! x) \<noteq> os_key ?s"
  proof -
    have "os_key (old ! j) \<notin> (\<lambda>x. os_key (ns ! x)) ` set ds"
      using Cons.prems(8) by (auto simp: slot_entry_def)
    then show ?thesis by (metis (mono_tags, lifting) image_eqI obj_slot.select_convs(1) obj_slot.surjective
        obj_slot.update_convs(4) obj_slot.update_convs(5))
  qed
  obtain ns1 where ns1: "link_tail (ns[?i := ?s]) h tt ?i = Some ns1" "length ns1 = ?c"
      "slots_wf ns1 (if h = u32_max then ?i else h) (ds @ [?i]) ?i"
      "entries ns1 (ds @ [?i]) = entries ns ds @ [slot_entry ?s]" "tomb_idx ns1 = tomb_idx ns - {?i}"
  proof -
    have a: "os_key (ns ! ?i) \<in> {0, cdo_string_tombstone}" and k: "key_ok (os_key ?s)"
      and l: "os_prev ?s = tt" "os_next ?s = u32_max"
      using d(3) j(5) by simp_all
    show thesis using that slots_link [OF wf cap probe_at_less [OF pow] a reach k new l] by blast
  qed
  have se: "slot_entry ?s = slot_entry (old ! j)" by (simp add: slot_entry_def)
  have "\<exists>ns' h' ds' t'. rehash_loop old m (os_next (old ! j)) ns1 (if h = u32_max then ?i else h) ?i = Some (ns', h', t') \<and>
      slots_wf ns' h' ds' t' \<and> tomb_idx ns' = {} \<and> length ns' = length ns1 \<and>
      entries ns' ds' = entries ns1 (ds @ [?i]) @ entries old js"
  proof (rule Cons.IH [OF j(3) _ n(2) ns1(3)])
    show "distinct (map fst (entries ns1 (ds @ [?i]) @ entries old js))"
      using Cons.prems(8) unfolding ns1(4) se by simp
    show "4 * (length (ds @ [?i]) + length js) \<le> 3 * length ns1" using Cons.prems(9) ns1(2) by simp
  qed (use Cons.prems(2) tomb pow cap ns1 in auto)
  moreover have "rehash_loop old n idx ns h tt =
      rehash_loop old m (os_next (old ! j)) ns1 (if h = u32_max then ?i else h) ?i"
    using d(2) ns1(1) j by (simp add: n(1))
  ultimately show ?case unfolding ns1(2,4) se by simp
qed

lemma empty_slots_wf: "slots_wf (replicate c empty_slot) u32_max [] u32_max" "tomb_idx (replicate c empty_slot) = {}"
  by (auto simp: slots_wf_def live_idx_def tomb_idx_def empty_slot_def key_ok_def)

text \<open>What growing keeps: everything but the slots, and the fields in order.\<close>

lemma obj_rehash_spec:
  assumes wf: "obj_wf obj is" and cap: "is_pow2 cap" "cap \<le> 2 ^ 28" and load: "4 * length is \<le> 3 * cap"
  shows "\<exists>obj' is'. obj_rehash obj cap = Some obj' \<and> obj_wf obj' is' \<and> slot_cap obj' = cap \<and>
           entries (ob_slots obj') is' = entries (ob_slots obj) is \<and> ob_tombstone_count obj' = 0 \<and>
           (\<exists>ss n h t. obj' = obj\<lparr>ob_slots := ss, ob_tombstone_count := n, ob_head := h, ob_tail := t\<rparr>)"
proof -
  have sw: "slots_wf (ob_slots obj) (ob_head obj) is (ob_tail obj)" and c: "slot_cap obj \<le> 2 ^ 28"
    using wf by (auto simp: obj_wf_def)
  note W = slots_wfD [OF sw]
  have lt: "j \<noteq> u32_max \<and> key_ok (os_key (ob_slots obj ! j))" if "j \<in> set is" for j
    using that W(3) c by (auto simp: live_idx_def)
  have "length is \<le> slot_cap obj"
    using W(2,3) card_mono [of "{..<slot_cap obj}" "set is"] distinct_card [of "is"] by (auto simp: live_idx_def)
  moreover have "distinct (map fst (entries (replicate cap empty_slot) [] @ entries (ob_slots obj) is))"
    using W(2,4) by (simp add: entries_keys distinct_map comp_def slot_entry_def)
  ultimately obtain ns h ds t where r: "rehash_loop (ob_slots obj) (slot_cap obj) (ob_head obj) (replicate cap empty_slot) u32_max u32_max = Some (ns, h, t)"
      "slots_wf ns h ds t" "tomb_idx ns = {}" "length ns = cap" "entries ns ds = entries (ob_slots obj) is"
    using rehash_loop_spec [OF W(1) _ _ empty_slots_wf, of "slot_cap obj" cap] lt cap load by auto
  let ?o = "obj\<lparr>ob_slots := ns, ob_tombstone_count := 0, ob_head := h, ob_tail := t\<rparr>"
  have "obj_rehash obj cap = Some ?o" using r(1) is_pow2_pow2 [OF cap(1)] by (simp add: obj_rehash_def)
  moreover have "length ds = length is" using r(5) by (metis length_map)
  then have "obj_wf ?o ds" using wf r cap load by (simp add: obj_wf_def)
  ultimately show ?thesis using r by (intro exI [of _ ?o] exI [of _ ds]) auto
qed

lemma obj_wfD:
  assumes "obj_wf obj is"
  shows "slots_wf (ob_slots obj) (ob_head obj) is (ob_tail obj)"
    "slot_cap obj \<noteq> 0 \<Longrightarrow> is_pow2 (slot_cap obj)" "slot_cap obj \<le> 2 ^ 28" "slot_cap obj \<le> u32_max"
    "ob_field_count obj = length is" "ob_tombstone_count obj = card (tomb_idx (ob_slots obj))"
    "4 * (length is + card (tomb_idx (ob_slots obj))) \<le> 3 * slot_cap obj"
  using assms by (auto simp: obj_wf_def)

text \<open>Only the table part of an object changes when it grows.\<close>

definition same_but_table :: "cdo_object \<Rightarrow> cdo_object \<Rightarrow> bool" where
  "same_but_table obj obj' \<longleftrightarrow> (\<exists>ss n m h t. obj' =
     obj\<lparr>ob_slots := ss, ob_field_count := m, ob_tombstone_count := n, ob_head := h, ob_tail := t\<rparr>)"

lemma same_but_table_fields:
  assumes "same_but_table obj obj'"
  shows "ob_kind obj' = ob_kind obj" "ob_readonly obj' = ob_readonly obj" "ob_items obj' = ob_items obj"
    "ob_items_len obj' = ob_items_len obj" "ob_fn obj' = ob_fn obj"
  using assms by (auto simp: same_but_table_def)

lemma same_but_table_refl [simp]: "same_but_table obj obj"
  unfolding same_but_table_def by (intro exI [of _ "ob_slots obj"] exI [of _ "ob_tombstone_count obj"]
      exI [of _ "ob_field_count obj"] exI [of _ "ob_head obj"] exI [of _ "ob_tail obj"]) simp

lemma same_but_table_iff:
  "same_but_table obj obj' \<longleftrightarrow> ob_kind obj' = ob_kind obj \<and> ob_readonly obj' = ob_readonly obj \<and>
     ob_items obj' = ob_items obj \<and> ob_items_len obj' = ob_items_len obj \<and> ob_fn obj' = ob_fn obj"
proof
  assume r: "ob_kind obj' = ob_kind obj \<and> ob_readonly obj' = ob_readonly obj \<and>
     ob_items obj' = ob_items obj \<and> ob_items_len obj' = ob_items_len obj \<and> ob_fn obj' = ob_fn obj"
  show "same_but_table obj obj'" unfolding same_but_table_def
    by (intro exI [of _ "ob_slots obj'"] exI [of _ "ob_tombstone_count obj'"] exI [of _ "ob_field_count obj'"]
        exI [of _ "ob_head obj'"] exI [of _ "ob_tail obj'"]) (use r in \<open>cases obj; cases obj'; simp\<close>)
qed (auto dest: same_but_table_fields)

lemma grow_cap_done: "\<not> u32 (cap * 3) < u32 (need * 4) \<Longrightarrow> 0 < n \<Longrightarrow> grow_cap n need cap = Some cap"
  by (cases n) auto

lemma obj_ensure_spec:
  assumes wf: "obj_wf obj is" and room: "slot_cap obj \<le> 2 ^ 27"
  obtains obj' is' where "obj_ensure_capacity obj = Some obj'" "obj_wf obj' is'"
    "entries (ob_slots obj') is' = entries (ob_slots obj) is" "same_but_table obj obj'"
    "is_pow2 (slot_cap obj')" "4 * (length is' + ob_tombstone_count obj' + 1) \<le> 3 * slot_cap obj'"
    "slot_cap obj' \<le> max 8 (2 * slot_cap obj)"
proof -
  note D = obj_wfD [OF wf]
  let ?f = "ob_field_count obj" and ?t = "ob_tombstone_count obj" and ?c = "slot_cap obj"
  let ?new = "if ?c = 0 then 8 else 2 * ?c"
  have load: "4 * (?f + ?t) \<le> 3 * ?c" using D(5,6,7) by simp
  have small: "?f + ?t \<le> 2 ^ 27" using load room by simp
  have u: "u32 (?f + ?t + 1) = ?f + ?t + 1" "u32 ((?f + ?t + 1) * 4) = (?f + ?t + 1) * 4" "u32 (?c * 3) = ?c * 3"
    using small room by simp_all
  show thesis
  proof (cases "?c = 0 \<or> (?f + ?t + 1) * 4 > ?c * 3")
    case False
    then have "obj_ensure_capacity obj = Some obj" unfolding obj_ensure_capacity_def Let_def u by simp
    moreover have "is_pow2 ?c" using False D(2) by simp
    ultimately show thesis using that [of obj "is"] wf D(5) False by simp
  next
    case True
    have fit: "(?f + 1) * 4 \<le> ?new * 3"
    proof (cases "?c = 0")
      case False
      moreover have "4 * ?f \<le> 3 * ?c" using load by simp
      moreover have "4 * f \<le> 3 * c \<Longrightarrow> 0 < c \<Longrightarrow> (f + 1) * 4 \<le> 2 * c * 3" for f c :: nat by presburger
      ultimately have "(?f + 1) * 4 \<le> 2 * ?c * 3" by (metis gr0I)
      then show ?thesis unfolding if_not_P [OF False] .
    qed (use load in simp)
    have g: "grow_cap 33 (?f + 1) (if ?c = 0 then 8 else u32 (?c * 2)) = Some ?new"
    proof -
      have w: "u32 ((?f + 1) * 4) = (?f + 1) * 4" "u32 (?new * 3) = ?new * 3" "(if ?c = 0 then 8 else u32 (?c * 2)) = ?new"
        using small room by simp_all
      have "\<not> u32 (?new * 3) < u32 ((?f + 1) * 4)" unfolding w(1,2) using fit by simp
      then show ?thesis unfolding w(3) by (rule grow_cap_done) simp
    qed
    have "is_pow2 ?new" using D(2) is_pow2_8 is_pow2_double by simp
    moreover have "?new \<le> 2 ^ 28" using room by simp
    moreover have "4 * length is \<le> 3 * ?new" using load D(5) by auto
    ultimately obtain obj' is' where o: "obj_rehash obj ?new = Some obj'" "obj_wf obj' is'" "slot_cap obj' = ?new"
        "entries (ob_slots obj') is' = entries (ob_slots obj) is" "ob_tombstone_count obj' = 0"
        "\<exists>ss n h t. obj' = obj\<lparr>ob_slots := ss, ob_tombstone_count := n, ob_head := h, ob_tail := t\<rparr>"
      using obj_rehash_spec [OF wf] by blast
    have ens: "obj_ensure_capacity obj = Some obj'"
      unfolding obj_ensure_capacity_def Let_def u using True g o(1) by simp
    have same: "same_but_table obj obj'" using o(6) by (auto simp: same_but_table_iff)
    have "length is' = length is" using o(4) by (metis length_map)
    then have l: "4 * (length is' + ob_tombstone_count obj' + 1) \<le> 3 * slot_cap obj'"
      using fit D(5) o(3,5) by simp
    show thesis using that [OF ens o(2,4) same _ l] \<open>is_pow2 ?new\<close> o(3) by simp
  qed
qed

section \<open>Update and removal in the slots\<close>

lemma probe_ok_cong:
  assumes "0 < cap" "\<And>j. j < cap \<Longrightarrow> occ j \<Longrightarrow> occ' j" "probe_ok cap occ h i"
  shows "probe_ok cap occ' h i"
proof -
  have "probe_at cap h e < cap" for e using assms(1) by (simp add: probe_at_def)
  then show ?thesis using assms(2,3) unfolding probe_ok_def by blast
qed

text \<open>The shape depends on keys and links only.\<close>

lemma slots_wf_same:
  assumes wf: "slots_wf ss h is t" and len: "length ss' = length ss"
    and same: "\<And>i. i < length ss \<Longrightarrow> os_key (ss' ! i) = os_key (ss ! i) \<and>
      os_prev (ss' ! i) = os_prev (ss ! i) \<and> os_next (ss' ! i) = os_next (ss ! i)"
  shows "slots_wf ss' h is t" "tomb_idx ss' = tomb_idx ss"
proof -
  note W = slots_wfD [OF wf]
  have b: "i \<in> set is \<Longrightarrow> i < length ss" for i by (simp add: W(3) live_idx_def)
  show "slots_wf ss' h is t" unfolding slots_wf_def len
  proof (intro conjI ballI)
    show "fifo_seg ss' u32_max h is t u32_max" by (rule fifo_seg_cong [OF W(1) len]) (use same b in auto)
    show "distinct is" by (rule W(2))
    show "set is = live_idx ss'" using same by (auto simp: W(3) live_idx_def len)
    show "inj_on (\<lambda>i. os_key (ss' ! i)) (set is)" using W(4) same b by (simp add: inj_on_def)
    fix i assume i: "i \<in> set is"
    then have "0 < length ss" using b by force
    then show "probe_ok (length ss) (occupied ss') (home (length ss) (os_key (ss' ! i))) i"
      using probe_ok_cong [OF _ _ W(5) [OF i]] same b [OF i] by (simp add: occupied_def)
  qed
  have "i \<in> tomb_idx ss' \<longleftrightarrow> i \<in> tomb_idx ss" for i
    using same [of i] by (cases "i < length ss") (simp_all add: tomb_idx_def len)
  then show "tomb_idx ss' = tomb_idx ss" by blast
qed

lemma proj_update: "f v = f (ss ! p) \<Longrightarrow> f (ss[p := v] ! j) = f (ss ! j)"
  by (cases "p < length ss"; cases "p = j") (simp_all add: list_update_beyond)

lemma relink_nth [simp]:
  "os_key (ss[p := (ss ! p)\<lparr>os_next := x\<rparr>] ! j) = os_key (ss ! j)"
  "os_key (ss[p := (ss ! p)\<lparr>os_prev := x\<rparr>] ! j) = os_key (ss ! j)"
  "slot_entry (ss[p := (ss ! p)\<lparr>os_next := x\<rparr>] ! j) = slot_entry (ss ! j)"
  "slot_entry (ss[p := (ss ! p)\<lparr>os_prev := x\<rparr>] ! j) = slot_entry (ss ! j)"
  by (rule proj_update; simp add: slot_entry_def)+

lemma slots_delete:
  assumes wf: "slots_wf ss h (as @ i # bs) t"
    and ss1: "ss1 = (if as = [] then ss else ss[os_prev (ss ! i) := (ss ! os_prev (ss ! i))\<lparr>os_next := os_next (ss ! i)\<rparr>])"
    and ss2: "ss2 = (if bs = [] then ss1 else ss1[os_next (ss ! i) := (ss1 ! os_next (ss ! i))\<lparr>os_prev := os_prev (ss ! i)\<rparr>])"
  shows "slots_wf (ss2[i := tomb_slot]) (if as = [] then os_next (ss ! i) else h) (as @ bs)
           (if bs = [] then os_prev (ss ! i) else t)"
    and "tomb_idx (ss2[i := tomb_slot]) = insert i (tomb_idx ss)" "i \<notin> tomb_idx ss" "i < length ss"
    and "entries (ss2[i := tomb_slot]) (as @ bs) = entries ss (as @ bs)"
proof -
  note W = slots_wfD [OF wf]
  have seg: "fifo_seg (ss2[i := tomb_slot]) u32_max (if as = [] then os_next (ss ! i) else h) (as @ bs)
           (if bs = [] then os_prev (ss ! i) else t) u32_max"
    by (rule fifo_seg_remove [OF W(1,2) ss1 ss2])
  have d: "i \<notin> set (as @ bs)" using W(2) by auto
  have mem: "i \<in> live_idx ss" using W(3) by auto
  then show il: "i < length ss" "i \<notin> tomb_idx ss" by (auto simp: live_idx_def tomb_idx_def key_ok_def)
  have keep1: "os_key (ss1 ! j) = os_key (ss ! j) \<and> slot_entry (ss1 ! j) = slot_entry (ss ! j)" for j
    by (simp add: ss1)
  have keep2: "os_key (ss2 ! j) = os_key (ss1 ! j) \<and> slot_entry (ss2 ! j) = slot_entry (ss1 ! j)" for j
    by (simp add: ss2)
  define ss3 where "ss3 = ss2[i := tomb_slot]"
  have len: "length ss3 = length ss" by (simp add: ss3_def ss2 ss1)
  have key: "os_key (ss3 ! j) = (if j = i then cdo_string_tombstone else os_key (ss ! j))"
    and ent: "j \<noteq> i \<Longrightarrow> slot_entry (ss3 ! j) = slot_entry (ss ! j)" if "j < length ss" for j
    using that keep1 [of j] keep2 [of j] il(1) len by (auto simp: ss3_def nth_list_update tomb_slot_def ss1 ss2)
  have b: "j \<in> set (as @ bs) \<Longrightarrow> j < length ss" for j using W(3) by (auto simp: live_idx_def)
  have "slots_wf ss3 (if as = [] then os_next (ss ! i) else h) (as @ bs) (if bs = [] then os_prev (ss ! i) else t)"
    unfolding slots_wf_def len
  proof (intro conjI ballI)
    show "fifo_seg ss3 u32_max (if as = [] then os_next (ss ! i) else h) (as @ bs)
        (if bs = [] then os_prev (ss ! i) else t) u32_max"
      unfolding ss3_def by (rule seg)
    show "distinct (as @ bs)" using W(2) by auto
    have "x \<in> live_idx ss3 \<longleftrightarrow> x \<in> live_idx ss \<and> x \<noteq> i" for x
      using key [of x] key_ok_def [of cdo_string_tombstone] by (cases "x = i") (auto simp: live_idx_def len)
    then show "set (as @ bs) = live_idx ss3" using W(3) d by auto
    show "inj_on (\<lambda>j. os_key (ss3 ! j)) (set (as @ bs))"
    proof (rule inj_onI)
      fix x y assume xy: "x \<in> set (as @ bs)" "y \<in> set (as @ bs)" "os_key (ss3 ! x) = os_key (ss3 ! y)"
      then have "os_key (ss ! x) = os_key (ss ! y)" using key b d by metis
      then show "x = y" using xy inj_onD [OF W(4), of x y] by auto
    qed
    fix x assume x: "x \<in> set (as @ bs)"
    then have "probe_ok (length ss) (occupied ss) (home (length ss) (os_key (ss ! x))) x" using W(5) by auto
    then have "probe_ok (length ss) (occupied ss3) (home (length ss) (os_key (ss ! x))) x"
      by (rule probe_ok_cong [rotated 2]) (use il(1) key in \<open>auto simp: occupied_def\<close>)
    then show "probe_ok (length ss) (occupied ss3) (home (length ss) (os_key (ss3 ! x))) x"
      using key [OF b [OF x]] x d by auto
  qed
  then show "slots_wf (ss2[i := tomb_slot]) (if as = [] then os_next (ss ! i) else h) (as @ bs)
           (if bs = [] then os_prev (ss ! i) else t)" by (simp only: ss3_def)
  have "tomb_idx ss3 = insert i (tomb_idx ss)" using key il by (auto simp: tomb_idx_def len)
  then show "tomb_idx (ss2[i := tomb_slot]) = insert i (tomb_idx ss)" by (simp only: ss3_def)
  have "entries ss3 (as @ bs) = entries ss (as @ bs)" using ent b d by (intro map_cong) auto
  then show "entries (ss2[i := tomb_slot]) (as @ bs) = entries ss (as @ bs)" by (simp only: ss3_def)
qed

lemma obj_fields_wf: "obj_wf obj is \<Longrightarrow> obj_fields obj = entries (ob_slots obj) is"
proof -
  assume wf: "obj_wf obj is"
  note D = obj_wfD [OF wf]
  note W = slots_wfD [OF D(1)]
  have "length is \<le> slot_cap obj" using D(7) by simp
  moreover have "\<forall>i \<in> set is. i \<noteq> u32_max" using W(3) D(4) by (auto simp: live_idx_def)
  ultimately show ?thesis unfolding obj_fields_def using fifo_walk_seg [OF W(1)] by simp
qed

section \<open>The abstract object\<close>

definition fields_get :: "field list \<Rightarrow> addr \<Rightarrow> cdo_value option" where
  "fields_get fs k = map_option fst (map_of fs k)"

definition fields_static :: "field list \<Rightarrow> addr \<Rightarrow> bool" where
  "fields_static fs k \<longleftrightarrow> (\<exists>v fl. map_of fs k = Some (v, fl) \<and> field_static fl)"

text \<open>Assignment: in place when the key is there, at the end when it is new.\<close>

definition fields_set :: "field list \<Rightarrow> addr \<Rightarrow> cdo_value \<Rightarrow> nat \<Rightarrow> field list" where
  "fields_set fs k v fl =
     (if map_of fs k = None then fs @ [(k, v, fl)]
      else map (\<lambda>(k', e). if k' = k then (k, v, fl) else (k', e)) fs)"

definition fields_del :: "field list \<Rightarrow> addr \<Rightarrow> field list" where
  "fields_del fs k = filter (\<lambda>(k', _). k' \<noteq> k) fs"

definition field_values :: "field list \<Rightarrow> cdo_value list" where
  "field_values fs = map (\<lambda>(_, v, _). v) fs"

lemma fields_distinct: "obj_wf obj is \<Longrightarrow> distinct (map fst (obj_fields obj))"
  using slots_wfD(2,4) [OF obj_wfD(1)] by (simp add: obj_fields_wf entries_keys distinct_map comp_def slot_entry_def)

text \<open>Lookup, in terms of the fields.\<close>

lemma lookup_fields:
  assumes wf: "obj_wf obj is" and key: "key_ok k" and pos: "slot_cap obj \<noteq> 0"
  obtains
    (found) as i bs s where "obj_lookup obj k = Some (i, i)" "is = as @ i # bs" "ob_slots obj ! i = s"
      "os_key s = k" "i < slot_cap obj" "i \<noteq> u32_max" "map_of (obj_fields obj) k = Some (os_value s, os_flags s)"
  | (missing) i where "obj_lookup obj k = Some (u32_max, i)" "map_of (obj_fields obj) k = None"
      "\<forall>j \<in> set is. os_key (ob_slots obj ! j) \<noteq> k"
      "i < slot_cap obj" "i \<noteq> u32_max" "os_key (ob_slots obj ! i) \<in> {0, cdo_string_tombstone}"
      "probe_ok (slot_cap obj) (occupied (ob_slots obj)) (home (slot_cap obj) k) i"
proof -
  note D = obj_wfD [OF wf]
  have bound: "i < slot_cap obj \<Longrightarrow> i \<noteq> u32_max" for i using D(4) by auto
  show thesis
  proof (rule obj_lookup_spec [OF D(1,7) D(2) [OF pos] D(4) key], goal_cases)
    case (1 i)
    obtain as bs where "is": "is = as @ i # bs" using 1(2) by (meson split_list)
    have "i < slot_cap obj" using 1(2) slots_wfD(3) [OF D(1)] by (simp add: live_idx_def)
    moreover have "(k, os_value (ob_slots obj ! i), os_flags (ob_slots obj ! i)) \<in> set (obj_fields obj)"
      using 1(2,3) by (force simp: obj_fields_wf [OF wf] slot_entry_def)
    then have "map_of (obj_fields obj) k = Some (os_value (ob_slots obj ! i), os_flags (ob_slots obj ! i))"
      using fields_distinct [OF wf] by (simp add: map_of_eq_Some_iff)
    ultimately show thesis using found [OF 1(1) "is" refl 1(3)] bound by blast
  next
    case (2 i)
    have "map_of (obj_fields obj) k = None"
      using 2(2) by (auto simp: map_of_eq_None_iff obj_fields_wf [OF wf] slot_entry_def)
    then show thesis using missing 2 bound by blast
  qed
qed

lemma no_table: "obj_wf obj is \<Longrightarrow> slot_cap obj = 0 \<Longrightarrow> obj_fields obj = [] \<and> is = []"
  using slots_wfD(3) [OF obj_wfD(1), of obj "is"] by (auto simp: obj_fields_def live_idx_def)

lemma rawget_spec:
  assumes "obj_inv obj" "key_ok k"
  shows "cdo_object_rawget obj k =
     Some (if ob_kind obj = OBJ_OBJECT then fields_get (obj_fields obj) k else None)"
proof -
  obtain "is" where wf: "obj_wf obj is" using assms(1) by (auto simp: obj_inv_def)
  show ?thesis
  proof (cases "slot_cap obj = 0")
    case True
    then show ?thesis using no_table [OF wf] assms(2)
      by (simp add: cdo_object_rawget_def obj_lookup_def fields_get_def)
  next
    case False
    show ?thesis
      by (rule lookup_fields [OF wf assms(2) False])
        (use assms(2) in \<open>auto simp: cdo_object_rawget_def fields_get_def\<close>)
  qed
qed

section \<open>Assignment\<close>

text \<open>The caller and the fields each hold the references they count.\<close>

definition refs_cover :: "cdo_heap \<Rightarrow> cdo_value list \<Rightarrow> bool" where
  "refs_cover H vs \<longleftrightarrow> cdo_strings_ok H \<and> (\<forall>s. owned cdo_held vs s \<le> str_refs H s \<and> str_refs H s < u32_max)"

text \<open>Every reference gained or lost is one of a field.\<close>

definition balanced :: "cdo_heap \<Rightarrow> cdo_value list \<Rightarrow> cdo_heap \<Rightarrow> cdo_value list \<Rightarrow> bool" where
  "balanced H vs H' vs' \<longleftrightarrow> cdo_strings_ok H' \<and> (\<forall>s. 0 < str_refs H' s \<longrightarrow> str_text H' s = str_text H s) \<and>
     (\<forall>s. str_refs H' s + owned cdo_held vs s = str_refs H s + owned cdo_held vs' s)"

lemma balanced_refl: "cdo_strings_ok H \<Longrightarrow> balanced H vs H vs"
  by (simp add: balanced_def)

lemma copy_balanced:
  assumes "refs_cover H (v # vs)"
  shows "\<exists>H'. cdo_value_copy H v = Some H' \<and> balanced H vs H' (vs @ [v])"
proof -
  have ok: "cdo_strings_ok H" using assms by (simp add: refs_cover_def)
  have "0 < str_refs H s \<and> str_refs H s < u32_max" if "cdo_held v = Some s" for s
  proof -
    have "owned cdo_held (v # vs) s \<le> str_refs H s \<and> str_refs H s < u32_max"
      using assms unfolding refs_cover_def by blast
    then show ?thesis using that by simp
  qed
  then show ?thesis using cdo.copy_law [OF ok, of v] by (auto simp: balanced_def)
qed

lemma release_balanced:
  assumes ok: "cdo_strings_ok H" and le: "\<And>s. owned cdo_held [v] s \<le> str_refs H s"
  shows "\<exists>H'. cdo_value_release H v = Some H' \<and> cdo_strings_ok H' \<and>
     (\<forall>s. 0 < str_refs H' s \<longrightarrow> str_text H' s = str_text H s) \<and>
     (\<forall>s. str_refs H' s + owned cdo_held [v] s = str_refs H s)"
proof -
  have "0 < str_refs H s" if "cdo_held v = Some s" for s using le [of s] that by simp
  then obtain H' where H': "cdo_value_release H v = Some H'" "cdo_strings_ok H'"
      "\<forall>s. 0 < str_refs H' s \<longrightarrow> str_text H' s = str_text H s"
      "str_refs H' = (\<lambda>s. str_refs H s - owned cdo_held [v] s)"
    using cdo.release_law [OF ok, of v] by blast
  have "str_refs H' s + owned cdo_held [v] s = str_refs H s" for s using le [of s] H'(4) by simp
  then show ?thesis using H' by blast
qed

lemma replace_balanced:
  assumes cover: "refs_cover H (v # vs)" and i: "i < length vs"
  shows "\<exists>H1 H'. cdo_value_release H (vs ! i) = Some H1 \<and> cdo_value_copy H1 v = Some H' \<and>
           balanced H vs H' (vs[i := v])"
proof -
  have ok: "cdo_strings_ok H" and le: "\<And>s. owned cdo_held (v # vs) s \<le> str_refs H s" "\<And>s. str_refs H s < u32_max"
    using cover by (simp_all add: refs_cover_def)
  have mem: "owned cdo_held [vs ! i] s \<le> owned cdo_held vs s" for s
    using i owned_member [of "vs ! i" vs cdo_held s] by auto
  have "owned cdo_held [vs ! i] s \<le> str_refs H s" for s
    using mem [of s] le(1) [of s] by simp
  then obtain H1 where H1: "cdo_value_release H (vs ! i) = Some H1" "cdo_strings_ok H1"
      "\<forall>s. 0 < str_refs H1 s \<longrightarrow> str_text H1 s = str_text H s"
      "\<forall>s. str_refs H1 s + owned cdo_held [vs ! i] s = str_refs H s"
    using release_balanced [OF ok] by blast
  have pre: "0 < str_refs H1 s \<and> str_refs H1 s < u32_max" if "cdo_held v = Some s" for s
  proof -
    have "owned cdo_held (v # vs) s = Suc (owned cdo_held vs s)" using that by simp
    then show ?thesis using mem [of s] le [of s] H1(4) [rule_format, of s] by linarith
  qed
  obtain H' where H': "cdo_value_copy H1 v = Some H'" "cdo_strings_ok H'" "str_text H' = str_text H1"
      "str_refs H' = (\<lambda>s. str_refs H1 s + owned cdo_held [v] s)"
    using cdo.copy_law [OF H1(2) pre] by blast
  have cnt: "str_refs H' s + owned cdo_held vs s = str_refs H s + owned cdo_held (vs[i := v]) s" for s
    using owned_update [OF i, of cdo_held v s] H1(4) [rule_format, of s] H'(4) by simp
  have "str_text H' s = str_text H s" if "0 < str_refs H' s" for s
  proof (cases "0 < str_refs H1 s")
    case True
    then show ?thesis using H1(3) H'(3) by simp
  next
    case False
    then have "cdo_held v = Some s" using that H'(4) by (simp split: if_splits)
    then show ?thesis using False pre [of s] by simp
  qed
  then show ?thesis using H1(1) H'(1,2) cnt unfolding balanced_def by blast
qed

lemma fields_set_middle:
  assumes "distinct (map fst (fs @ (k, e) # gs))"
  shows "fields_set (fs @ (k, e) # gs) k v fl = fs @ (k, v, fl) # gs"
proof -
  have "k \<notin> fst ` set fs" "k \<notin> fst ` set gs" using assms by auto
  then have "map (\<lambda>(k', e). if k' = k then (k, v, fl) else (k', e)) fs = fs"
    "map (\<lambda>(k', e). if k' = k then (k, v, fl) else (k', e)) gs = gs"
    by (force intro!: map_idI)+
  moreover have "map_of (fs @ (k, e) # gs) k \<noteq> None" by (simp add: map_of_eq_None_iff)
  ultimately show ?thesis by (simp add: fields_set_def)
qed

lemma entries_update: "i \<notin> set is \<Longrightarrow> entries (ss[i := s]) is = entries ss is"
  by (rule map_cong) (metis nth_list_update_neq)+

lemma obj_update_wf:
  assumes wf: "obj_wf obj (as @ i # bs)"
    and o: "obj' = obj\<lparr>ob_slots := (ob_slots obj)[i := (ob_slots obj ! i)\<lparr>os_value := v, os_flags := fl\<rparr>]\<rparr>"
  shows "obj_wf obj' (as @ i # bs)"
    "obj_fields obj' = fields_set (obj_fields obj) (os_key (ob_slots obj ! i)) v fl"
    "field_values (obj_fields obj') = (field_values (obj_fields obj))[length as := v]"
    "field_values (obj_fields obj) ! length as = os_value (ob_slots obj ! i)"
    "length as < length (field_values (obj_fields obj))"
proof -
  note D = obj_wfD [OF wf]
  note W = slots_wfD [OF D(1)]
  let ?ss = "(ob_slots obj)[i := (ob_slots obj ! i)\<lparr>os_value := v, os_flags := fl\<rparr>]"
  have same: "os_key (?ss ! j) = os_key (ob_slots obj ! j) \<and> os_prev (?ss ! j) = os_prev (ob_slots obj ! j) \<and>
      os_next (?ss ! j) = os_next (ob_slots obj ! j)" for j
    by (auto intro!: proj_update)
  have i: "i < slot_cap obj" using W(3) by (auto simp: live_idx_def)
  have ni: "i \<notin> set as" "i \<notin> set bs" using W(2) by auto
  have sw: "slots_wf ?ss (ob_head obj) (as @ i # bs) (ob_tail obj)" "tomb_idx ?ss = tomb_idx (ob_slots obj)"
    using slots_wf_same [OF D(1), of ?ss] same by auto
  then show wf': "obj_wf obj' (as @ i # bs)" using wf by (simp add: o obj_wf_def)
  have e: "entries ?ss as = entries (ob_slots obj) as" "entries ?ss bs = entries (ob_slots obj) bs"
    using ni by (simp_all add: entries_update)
  have f: "obj_fields obj = entries (ob_slots obj) as @
      (os_key (ob_slots obj ! i), os_value (ob_slots obj ! i), os_flags (ob_slots obj ! i)) # entries (ob_slots obj) bs"
    by (simp add: obj_fields_wf [OF wf] slot_entry_def)
  have f': "obj_fields obj' = entries (ob_slots obj) as @ (os_key (ob_slots obj ! i), v, fl) # entries (ob_slots obj) bs"
  proof -
    have so: "ob_slots obj' = ?ss" by (simp add: o)
    have "slot_entry (?ss ! i) = (os_key (ob_slots obj ! i), v, fl)" using i by (simp add: slot_entry_def)
    then show ?thesis unfolding obj_fields_wf [OF wf'] so map_append list.map e by simp
  qed
  show "obj_fields obj' = fields_set (obj_fields obj) (os_key (ob_slots obj ! i)) v fl"
    unfolding f' f by (rule fields_set_middle [symmetric, OF fields_distinct [OF wf, unfolded f]])
  show "field_values (obj_fields obj') = (field_values (obj_fields obj))[length as := v]"
    "field_values (obj_fields obj) ! length as = os_value (ob_slots obj ! i)"
    "length as < length (field_values (obj_fields obj))"
    unfolding f f' by (simp_all add: field_values_def slot_entry_def list_update_append nth_append)
qed

lemma obj_insert_wf:
  assumes wf: "obj_wf obj is" and pow: "is_pow2 (slot_cap obj)"
    and load: "4 * (length is + ob_tombstone_count obj + 1) \<le> 3 * slot_cap obj"
    and i: "i < slot_cap obj" "os_key (ob_slots obj ! i) \<in> {0, cdo_string_tombstone}"
    and reach: "probe_ok (slot_cap obj) (occupied (ob_slots obj)) (home (slot_cap obj) k) i"
    and key: "key_ok k" "\<forall>j \<in> set is. os_key (ob_slots obj ! j) \<noteq> k"
    and s: "s = \<lparr>os_key = k, os_value = v, os_flags = fl, os_prev = ob_tail obj, os_next = u32_max\<rparr>"
  shows "\<exists>ss. link_tail ((ob_slots obj)[i := s]) (ob_head obj) (ob_tail obj) i = Some ss \<and>
      (let obj' = obj\<lparr>ob_slots := ss,
                        ob_tombstone_count := (if os_key (ob_slots obj ! i) = cdo_string_tombstone
                                               then u32 (ob_tombstone_count obj + u32_max)
                                               else ob_tombstone_count obj),
                        ob_head := (if ob_head obj = u32_max then i else ob_head obj),
                        ob_tail := i,
                        ob_field_count := u32 (ob_field_count obj + 1)\<rparr>
       in obj_wf obj' (is @ [i]) \<and> obj_fields obj' = obj_fields obj @ [(k, v, fl)] \<and> slot_cap obj' = slot_cap obj)"
proof -
  note D = obj_wfD [OF wf]
  have r: "probe_ok (slot_cap obj) (occupied (ob_slots obj)) (home (slot_cap obj) (os_key s)) i"
    and ks: "key_ok (os_key s)" "\<forall>j \<in> set is. os_key (ob_slots obj ! j) \<noteq> os_key s"
    and ls: "os_prev s = ob_tail obj" "os_next s = u32_max"
    using reach key by (simp_all add: s)
  obtain ss where ss: "link_tail ((ob_slots obj)[i := s]) (ob_head obj) (ob_tail obj) i = Some ss"
      "length ss = slot_cap obj" "slots_wf ss (if ob_head obj = u32_max then i else ob_head obj) (is @ [i]) i"
      "entries ss (is @ [i]) = entries (ob_slots obj) is @ [slot_entry s]" "tomb_idx ss = tomb_idx (ob_slots obj) - {i}"
    using slots_link [OF D(1,4) i r ks ls] by blast
  define obj' where "obj' = obj\<lparr>ob_slots := ss,
                        ob_tombstone_count := (if os_key (ob_slots obj ! i) = cdo_string_tombstone
                                               then u32 (ob_tombstone_count obj + u32_max)
                                               else ob_tombstone_count obj),
                        ob_head := (if ob_head obj = u32_max then i else ob_head obj),
                        ob_tail := i,
                        ob_field_count := u32 (ob_field_count obj + 1)\<rparr>"
  have small: "length is + card (tomb_idx (ob_slots obj)) + 1 \<le> 2 ^ 28" using load D(3,6) by simp
  have fc: "ob_field_count obj' = length (is @ [i])" using small D(5) by (simp add: obj'_def)
  have tc: "ob_tombstone_count obj' = card (tomb_idx ss)"
  proof (cases "os_key (ob_slots obj ! i) = cdo_string_tombstone")
    case True
    then have m: "i \<in> tomb_idx (ob_slots obj)" using i(1) by (simp add: tomb_idx_def)
    then have "0 < card (tomb_idx (ob_slots obj))" by (auto simp: card_gt_0_iff)
    then have "u32 (ob_tombstone_count obj + u32_max) = card (tomb_idx (ob_slots obj)) - 1"
      using small D(6) by (simp add: u32_pred)
    then show ?thesis using m True ss(5) by (simp add: obj'_def card_Diff_singleton)
  next
    case False
    then have "tomb_idx ss = tomb_idx (ob_slots obj)" using ss(5) by (auto simp: tomb_idx_def)
    then show ?thesis using False D(6) by (simp add: obj'_def)
  qed
  have "card (tomb_idx ss) \<le> card (tomb_idx (ob_slots obj))" unfolding ss(5) by (intro card_mono) auto
  then have "4 * (ob_field_count obj' + ob_tombstone_count obj') \<le> 3 * slot_cap obj'"
    using load D(6) ss(2) unfolding fc tc by (simp add: obj'_def)
  moreover have sl: "ob_slots obj' = ss" "ob_head obj' = (if ob_head obj = u32_max then i else ob_head obj)" "ob_tail obj' = i"
    by (simp_all add: obj'_def)
  ultimately have wf': "obj_wf obj' (is @ [i])"
    unfolding obj_wf_def using ss(2,3) pow D(3) fc tc unfolding sl by auto
  have "obj_fields obj' = obj_fields obj @ [(k, v, fl)]"
    using ss(4) by (simp add: obj_fields_wf [OF wf'] obj_fields_wf [OF wf] sl slot_entry_def s)
  then show ?thesis
    by (intro exI [of _ ss] conjI ss(1)) (use wf' ss(2) sl(1) in \<open>simp only: Let_def obj'_def [symmetric]\<close>)
qed

lemma field_values_append [simp]: "field_values (fs @ gs) = field_values fs @ field_values gs"
  by (simp add: field_values_def)

lemma field_values_Cons [simp]: "field_values ((k, v, fl) # fs) = v # field_values fs"
  by (simp add: field_values_def)

lemma refs_cover_perm:
  "refs_cover H vs \<Longrightarrow> (\<And>s. owned cdo_held ws s \<le> owned cdo_held vs s) \<Longrightarrow> refs_cover H ws"
  unfolding refs_cover_def by (meson le_trans)

text \<open>Whether an assignment to a key is allowed.\<close>

definition obj_writable :: "cdo_object \<Rightarrow> addr \<Rightarrow> bool" where
  "obj_writable obj k \<longleftrightarrow> \<not> ob_readonly obj \<and> \<not> fields_static (obj_fields obj) k"

lemma rawset_spec:
  assumes inv: "obj_inv obj" and room: "slot_cap obj \<le> 2 ^ 27" and key: "key_ok k"
    and cover: "refs_cover H (val # field_values (obj_fields obj))"
  shows "\<exists>H' obj'. cdo_object_rawset H obj k val fl = Some (H', obj', obj_writable obj k) \<and> obj_inv obj' \<and>
           obj_fields obj' = (if obj_writable obj k then fields_set (obj_fields obj) k val fl else obj_fields obj) \<and>
           balanced H (field_values (obj_fields obj)) H' (field_values (obj_fields obj')) \<and>
           same_but_table obj obj' \<and> slot_cap obj' \<le> max 8 (2 * slot_cap obj)"
proof -
  have ok: "cdo_strings_ok H" using cover by (simp add: refs_cover_def)
  obtain "is" where wf: "obj_wf obj is" using inv by (auto simp: obj_inv_def)
  show ?thesis
  proof (cases "ob_readonly obj")
    case True
    then show ?thesis using inv key balanced_refl [OF ok]
      by (intro exI [of _ H] exI [of _ obj]) (simp add: cdo_object_rawset_def obj_writable_def)
  next
    case rw: False
    obtain o1 is1 where o1: "obj_ensure_capacity obj = Some o1" "obj_wf o1 is1"
        "entries (ob_slots o1) is1 = entries (ob_slots obj) is" "same_but_table obj o1" "is_pow2 (slot_cap o1)"
        "4 * (length is1 + ob_tombstone_count o1 + 1) \<le> 3 * slot_cap o1" "slot_cap o1 \<le> max 8 (2 * slot_cap obj)"
      using obj_ensure_spec [OF wf room] by metis
    have fs: "obj_fields o1 = obj_fields obj" using o1(3) by (simp add: obj_fields_wf [OF wf] obj_fields_wf [OF o1(2)])
    have cap1: "slot_cap o1 \<noteq> 0" using is_pow2_pos [OF o1(5)] by simp
    show ?thesis
    proof (rule lookup_fields [OF o1(2) key cap1], goal_cases)
      case (1 as i bs s)
      have st: "fields_static (obj_fields obj) k \<longleftrightarrow> field_static (os_flags s)"
        using 1(7) by (simp add: fields_static_def fs)
      show ?thesis
      proof (cases "field_static (os_flags s)")
        case True
        then have "cdo_object_rawset H obj k val fl = Some (H, o1, obj_writable obj k)"
          using rw key o1(1) 1 st by (simp add: cdo_object_rawset_def obj_writable_def)
        moreover have "obj_inv o1" using o1(2) by (auto simp: obj_inv_def)
        ultimately show ?thesis using fs st True o1(4,7) balanced_refl [OF ok] by (simp add: obj_writable_def)
      next
        case False
        let ?o = "o1\<lparr>ob_slots := (ob_slots o1)[i := (ob_slots o1 ! i)\<lparr>os_value := val, os_flags := fl\<rparr>]\<rparr>"
        note U = obj_update_wf [where v = val and fl = fl, OF o1(2) [unfolded 1(2)] refl]
        obtain H1 H2 where H: "cdo_value_release H (os_value s) = Some H1" "cdo_value_copy H1 val = Some H2"
            "balanced H (field_values (obj_fields obj)) H2 (field_values (obj_fields ?o))"
          using replace_balanced [OF cover U(5) [unfolded fs]] U(3,4) unfolding fs 1(3) by auto
        have "cdo_object_rawset H obj k val fl = Some (H2, ?o, obj_writable obj k)"
          using rw key o1(1) 1 st False H(1,2) by (simp add: cdo_object_rawset_def obj_writable_def)
        moreover have "obj_inv ?o" using U(1) by (auto simp: obj_inv_def)
        moreover have "obj_fields ?o = fields_set (obj_fields obj) k val fl" using U(2) 1(3,4) fs by simp
        moreover have "same_but_table obj ?o" using o1(4) by (simp add: same_but_table_iff)
        ultimately show ?thesis using st False rw H(3) o1(7) by (simp add: obj_writable_def)
      qed
    next
      case (2 i)
      have st: "\<not> fields_static (obj_fields obj) k" using 2(2) by (simp add: fields_static_def fs)
      let ?s = "\<lparr>os_key = k, os_value = val, os_flags = fl, os_prev = ob_tail o1, os_next = u32_max\<rparr>"
      obtain ss where ss: "link_tail ((ob_slots o1)[i := ?s]) (ob_head o1) (ob_tail o1) i = Some ss"
        and w: "let obj' = o1\<lparr>ob_slots := ss,
                        ob_tombstone_count := (if os_key (ob_slots o1 ! i) = cdo_string_tombstone
                                               then u32 (ob_tombstone_count o1 + u32_max)
                                               else ob_tombstone_count o1),
                        ob_head := (if ob_head o1 = u32_max then i else ob_head o1),
                        ob_tail := i,
                        ob_field_count := u32 (ob_field_count o1 + 1)\<rparr>
          in obj_wf obj' (is1 @ [i]) \<and> obj_fields obj' = obj_fields o1 @ [(k, val, fl)] \<and> slot_cap obj' = slot_cap o1"
        using obj_insert_wf [where v = val and fl = fl, OF o1(2,5,6) 2(4,6,7) key 2(3) refl] by blast
      define o2 where "o2 = o1\<lparr>ob_slots := ss,
                        ob_tombstone_count := (if os_key (ob_slots o1 ! i) = cdo_string_tombstone
                                               then u32 (ob_tombstone_count o1 + u32_max)
                                               else ob_tombstone_count o1),
                        ob_head := (if ob_head o1 = u32_max then i else ob_head o1),
                        ob_tail := i,
                        ob_field_count := u32 (ob_field_count o1 + 1)\<rparr>"
      have w': "obj_wf o2 (is1 @ [i])" "obj_fields o2 = obj_fields obj @ [(k, val, fl)]" "slot_cap o2 = slot_cap o1"
        using w unfolding Let_def o2_def fs by blast+
      obtain H2 where H: "cdo_value_copy H val = Some H2" "balanced H (field_values (obj_fields obj)) H2 (field_values (obj_fields obj) @ [val])"
        using copy_balanced [OF cover] by blast
      have "cdo_object_rawset H obj k val fl = Some (H2, o2, True)"
        using rw key o1(1) 2(1,4,5) ss H(1) unfolding o2_def by (simp add: cdo_object_rawset_def)
      moreover have "same_but_table obj o2" using o1(4) by (simp add: same_but_table_iff o2_def)
      moreover have "obj_inv o2" using w'(1) by (auto simp: obj_inv_def)
      moreover have "fields_set (obj_fields obj) k val fl = obj_fields obj @ [(k, val, fl)]"
        using 2(2) by (simp add: fields_set_def fs)
      ultimately show ?thesis using st rw w'(2,3) H(2) o1(7) by (simp add: obj_writable_def field_values_def)
    qed
  qed
qed

lemma remove_balanced:
  assumes cover: "refs_cover H (vs @ v # ws)"
  shows "\<exists>H'. cdo_value_release H v = Some H' \<and> balanced H (vs @ v # ws) H' (vs @ ws)"
proof -
  have ok: "cdo_strings_ok H" and le: "\<And>s. owned cdo_held (vs @ v # ws) s \<le> str_refs H s"
    using cover by (simp_all add: refs_cover_def)
  have "owned cdo_held [v] s \<le> str_refs H s" for s using le [of s] by simp
  then obtain H' where H': "cdo_value_release H v = Some H'" "cdo_strings_ok H'"
      "\<forall>s. 0 < str_refs H' s \<longrightarrow> str_text H' s = str_text H s"
      "\<forall>s. str_refs H' s + owned cdo_held [v] s = str_refs H s"
    using release_balanced [OF ok] by blast
  have "str_refs H' s + owned cdo_held (vs @ v # ws) s = str_refs H s + owned cdo_held (vs @ ws) s" for s
    using H'(4) [rule_format, of s] by simp
  then show ?thesis using H' by (auto simp only: balanced_def)
qed

lemma link_ends:
  assumes "slots_wf ss h (as @ i # bs) t" "length ss \<le> u32_max"
  shows "os_prev (ss ! i) \<noteq> u32_max \<longleftrightarrow> as \<noteq> []" "as \<noteq> [] \<Longrightarrow> os_prev (ss ! i) < length ss"
    "os_next (ss ! i) \<noteq> u32_max \<longleftrightarrow> bs \<noteq> []" "bs \<noteq> [] \<Longrightarrow> os_next (ss ! i) < length ss"
proof -
  obtain q where a: "fifo_seg ss u32_max h as q i" and q: "os_prev (ss ! i) = q"
    and b: "fifo_seg ss i (os_next (ss ! i)) bs t u32_max"
    using slots_wfD(1) [OF assms(1)] by (auto simp: fifo_seg_append)
  have lt: "j < length ss" if "j \<in> set as \<union> set bs" for j
    using that slots_wfD(3) [OF assms(1)] by (auto simp: live_idx_def)
  have A: "if as = [] then q = u32_max else q < length ss" using fifo_seg_tail [OF a] lt by auto
  have B: "if bs = [] then os_next (ss ! i) = u32_max else os_next (ss ! i) < length ss"
    using fifo_seg_head [OF b] lt by auto
  show "os_prev (ss ! i) \<noteq> u32_max \<longleftrightarrow> as \<noteq> []" "as \<noteq> [] \<Longrightarrow> os_prev (ss ! i) < length ss"
    "os_next (ss ! i) \<noteq> u32_max \<longleftrightarrow> bs \<noteq> []" "bs \<noteq> [] \<Longrightarrow> os_next (ss ! i) < length ss"
    using A B assms(2) q by (auto split: if_splits)
qed

lemma fields_del_absent: "k \<notin> fst ` set fs \<Longrightarrow> filter (\<lambda>(k', _). k' \<noteq> k) fs = fs"
  by (rule filter_True) force

lemma rawdelete_spec:
  assumes inv: "obj_inv obj" and key: "key_ok k" and cover: "refs_cover H (field_values (obj_fields obj))"
  defines "hit \<equiv> obj_writable obj k \<and> map_of (obj_fields obj) k \<noteq> None"
  shows "\<exists>H' obj'. cdo_object_rawdelete H obj k = Some (H', obj', hit) \<and> obj_inv obj' \<and>
           obj_fields obj' = (if hit then fields_del (obj_fields obj) k else obj_fields obj) \<and>
           balanced H (field_values (obj_fields obj)) H' (field_values (obj_fields obj')) \<and>
           same_but_table obj obj' \<and> slot_cap obj' = slot_cap obj"
proof -
  have ok: "cdo_strings_ok H" using cover by (simp add: refs_cover_def)
  obtain "is" where wf: "obj_wf obj is" using inv by (auto simp: obj_inv_def)
  note D = obj_wfD [OF wf]
  have miss: ?thesis if "cdo_object_rawdelete H obj k = Some (H, obj, False)" "\<not> hit"
    using that inv balanced_refl [OF ok] by simp
  show ?thesis
  proof (cases "ob_readonly obj \<or> slot_cap obj = 0")
    case True
    then show ?thesis using miss no_table [OF wf] key
      by (auto simp: cdo_object_rawdelete_def hit_def obj_writable_def obj_lookup_def)
  next
    case rw: False
    then have cap: "slot_cap obj \<noteq> 0" by simp
    show ?thesis
    proof (rule lookup_fields [OF wf key cap], goal_cases)
      case (2 i)
      then show ?thesis using miss rw key by (simp add: cdo_object_rawdelete_def hit_def)
    next
      case (1 as i bs s)
      have st: "fields_static (obj_fields obj) k \<longleftrightarrow> field_static (os_flags s)"
        using 1(7) by (simp add: fields_static_def)
      show ?thesis
      proof (cases "field_static (os_flags s)")
        case True
        then show ?thesis using miss rw key 1 st by (simp add: cdo_object_rawdelete_def hit_def obj_writable_def)
      next
        case False
        let ?ss = "ob_slots obj"
        note sw = D(1) [unfolded 1(2)]
        define ss1 where "ss1 = (if as = [] then ?ss else ?ss[os_prev (?ss ! i) := (?ss ! os_prev (?ss ! i))\<lparr>os_next := os_next (?ss ! i)\<rparr>])"
        define ss2 where "ss2 = (if bs = [] then ss1 else ss1[os_next (?ss ! i) := (ss1 ! os_next (?ss ! i))\<lparr>os_prev := os_prev (?ss ! i)\<rparr>])"
        note X = slots_delete [OF sw ss1_def ss2_def] and L = link_ends [OF sw D(4)]
        have len: "length ss1 = slot_cap obj" "length ss2 = slot_cap obj" by (simp_all add: ss1_def ss2_def)
        have fs: "obj_fields obj = entries ?ss as @ (k, os_value s, os_flags s) # entries ?ss bs"
          by (simp add: obj_fields_wf [OF wf] 1(2-4) slot_entry_def)
        obtain H' where H': "cdo_value_release H (os_value s) = Some H'"
            "balanced H (field_values (obj_fields obj)) H' (field_values (entries ?ss as @ entries ?ss bs))"
          using remove_balanced [of H "field_values (entries ?ss as)" "os_value s" "field_values (entries ?ss bs)"] cover
          by (auto simp only: fs field_values_append field_values_Cons)
        define o2 where "o2 = obj\<lparr>ob_slots := ss2[i := tomb_slot],
                          ob_head := (if os_prev s \<noteq> u32_max then ob_head obj else os_next s),
                          ob_tail := (if os_next s \<noteq> u32_max then ob_tail obj else os_prev s),
                          ob_field_count := u32 (ob_field_count obj + u32_max),
                          ob_tombstone_count := u32 (ob_tombstone_count obj + 1)\<rparr>"
        have p1: "unlink_prev ?ss s = Some ss1"
          using L(1,2) 1(3) by (auto simp: ss1_def unlink_prev_def)
        have p2: "unlink_next ss1 s = Some ss2"
          using L(3,4) 1(3) len by (auto simp: ss2_def unlink_next_def)
        have sget: "aget ?ss i = Some s" using 1(3,5) by simp
        have del: "cdo_object_rawdelete H obj k = Some (H', o2, True)"
          using rw key 1(1,6) sget False H'(1)
          by (simp add: cdo_object_rawdelete_def o2_def p1 p2)
        have cnt: "length is + card (tomb_idx ?ss) \<le> 2 ^ 28" using D(3,7) by simp
        have fc: "ob_field_count o2 = length (as @ bs)"
          using u32_pred [of "length is"] cnt 1(2) D(5) by (simp add: o2_def)
        have tc: "ob_tombstone_count o2 = card (tomb_idx (ss2[i := tomb_slot]))"
          using X(2,3) cnt D(6) by (simp add: o2_def)
        have sl: "ob_slots o2 = ss2[i := tomb_slot]" "ob_head o2 = (if as = [] then os_next (?ss ! i) else ob_head obj)"
            "ob_tail o2 = (if bs = [] then os_prev (?ss ! i) else ob_tail obj)" "slot_cap o2 = slot_cap obj"
          using L(1,3) 1(3) len by (auto simp: o2_def)
        have "4 * (ob_field_count o2 + ob_tombstone_count o2) \<le> 3 * slot_cap o2"
          using D(7) X(2,3) 1(2) unfolding fc tc sl(4) by simp
        then have wf2: "obj_wf o2 (as @ bs)"
          using X(1) D(2,3) cap fc tc unfolding obj_wf_def sl(1-3) by (simp add: len)
        have f2: "obj_fields o2 = entries ?ss as @ entries ?ss bs"
          using X(5) unfolding obj_fields_wf [OF wf2] sl(1) by simp
        have "k \<notin> fst ` set (entries ?ss as)" "k \<notin> fst ` set (entries ?ss bs)"
          using fields_distinct [OF wf] unfolding fs by auto
        then have "filter (\<lambda>(k', _). k' \<noteq> k) (entries ?ss as) = entries ?ss as"
            "filter (\<lambda>(k', _). k' \<noteq> k) (entries ?ss bs) = entries ?ss bs"
          by (simp_all only: fields_del_absent not_False_eq_True)
        then have "fields_del (obj_fields obj) k = obj_fields o2"
          unfolding f2 fs fields_del_def by simp
        moreover have hit using rw st False 1(7) by (simp add: hit_def obj_writable_def)
        moreover have "same_but_table obj o2" by (simp add: same_but_table_iff o2_def)
        moreover have "obj_inv o2" using wf2 by (auto simp: obj_inv_def)
        ultimately show ?thesis using del H'(2) [folded f2] sl(4)
          by (intro exI [of _ H'] exI [of _ o2]) simp
      qed
    qed
  qed
qed

section \<open>Properties\<close>

text \<open>C21. Assignment to a field refines the ordered field list: it never faults, fails (changing nothing) exactly when
  the object is read-only or the field is static, overwrites an existing key in its place and appends a new key at
  the end, keeps that order when the table grows and drops its tombstones, and moves exactly one reference from the
  old value to the new one.\<close>

theorem rawset_refines_fields:
  assumes "obj_inv obj" "slot_cap obj \<le> 2 ^ 27" "key_ok k" "refs_cover H (v # field_values (obj_fields obj))"
  shows "\<exists>H' obj'. cdo_object_rawset H obj k v fl = Some (H', obj', obj_writable obj k) \<and> obj_inv obj' \<and>
           obj_fields obj' = (if obj_writable obj k then fields_set (obj_fields obj) k v fl else obj_fields obj) \<and>
           balanced H (field_values (obj_fields obj)) H' (field_values (obj_fields obj'))"
  using rawset_spec [OF assms, of fl] by metis

definition wit_cdo_heap :: cdo_heap where
  "wit_cdo_heap = [16 \<mapsto> \<lparr>st_refs = 2, st_hash = 0, st_data = ''v'', st_interned = False\<rparr>]"

lemma wit_cdo_heap_ok: "cdo_strings_ok wit_cdo_heap"
  by (simp add: cdo_strings_ok_def strings_ok_def wit_cdo_heap_def cdo_string_tombstone_def)

lemma wit_new_inv: "obj_inv cdo_object_new" "obj_fields cdo_object_new = []"
proof -
  have "obj_wf cdo_object_new []"
    by (simp add: obj_wf_def slots_wf_def cdo_object_new_def cdo_obj_alloc_def live_idx_def tomb_idx_def)
  then show "obj_inv cdo_object_new" by (auto simp: obj_inv_def)
qed (simp add: obj_fields_def cdo_object_new_def cdo_obj_alloc_def)

lemma wit_cover: "refs_cover wit_cdo_heap (CString 16 # field_values (obj_fields cdo_object_new))"
  using wit_cdo_heap_ok
  by (simp add: refs_cover_def wit_new_inv field_values_def cdo_held_def) (simp add: str_refs_def wit_cdo_heap_def)

theorem rawset_refines_fields_witness:
  "\<exists>H' obj'. cdo_object_rawset wit_cdo_heap cdo_object_new 48 (CString 16) 0 = Some (H', obj', True) \<and>
     obj_fields obj' = [(48, CString 16, 0)]"
proof -
  have k: "key_ok 48" by (simp add: key_ok_def cdo_string_tombstone_def)
  have c: "slot_cap cdo_object_new \<le> 2 ^ 27" by (simp add: cdo_object_new_def cdo_obj_alloc_def)
  have "obj_writable cdo_object_new 48"
    by (simp add: obj_writable_def fields_static_def wit_new_inv) (simp add: cdo_object_new_def cdo_obj_alloc_def)
  then show ?thesis
    using rawset_refines_fields [OF wit_new_inv(1) c k wit_cover, of 0] by (auto simp: wit_new_inv fields_set_def)
qed

text \<open>C22. Reading back: after a successful assignment to a plain object the key reads as the assigned value and every other
  key as before, and no read faults; on an array or a function the assignment succeeds as well, but every key, the
  assigned one included, reads as absent, before and after.\<close>

theorem rawset_then_rawget:
  assumes "obj_inv obj" "slot_cap obj \<le> 2 ^ 27" "key_ok k" "key_ok k'"
    "refs_cover H (v # field_values (obj_fields obj))" "obj_writable obj k"
  shows "\<exists>H' obj'. cdo_object_rawset H obj k v fl = Some (H', obj', True) \<and>
           cdo_object_rawget obj' k' =
             (if ob_kind obj \<noteq> OBJ_OBJECT then Some None else if k' = k then Some (Some v) else cdo_object_rawget obj k') \<and>
           (\<exists>r. cdo_object_rawget obj k' = Some r) \<and> (ob_kind obj \<noteq> OBJ_OBJECT \<longrightarrow> cdo_object_rawget obj k' = Some None)"
proof -
  obtain H' obj' where s: "cdo_object_rawset H obj k v fl = Some (H', obj', True)" "obj_inv obj'"
      "obj_fields obj' = fields_set (obj_fields obj) k v fl" "same_but_table obj obj'"
    using rawset_spec [OF assms(1,2,3,5), of fl] assms(6) by auto
  have "fields_get (fields_set fs k v fl) k' = (if k' = k then Some v else fields_get fs k')" for fs
  proof (cases "map_of fs k")
    case None
    then show ?thesis by (auto simp: fields_get_def fields_set_def map_add_def split: option.splits)
  next
    case (Some e)
    have "map_of (map (\<lambda>(k', e). if k' = k then (k, v, fl) else (k', e)) fs) k' =
        (if k' = k then (if map_of fs k = None then None else Some (v, fl)) else map_of fs k')" for k'
      by (induction fs) auto
    then show ?thesis using Some by (simp add: fields_get_def fields_set_def)
  qed
  then show ?thesis
    using s rawget_spec [OF s(2) assms(4)] rawget_spec [OF assms(1,4)] same_but_table_fields(1) [OF s(4)] by auto
qed

theorem rawset_then_rawget_witness:
  "\<exists>H' obj'. cdo_object_rawset wit_cdo_heap cdo_object_new 48 (CString 16) 0 = Some (H', obj', True) \<and>
     cdo_object_rawget obj' 48 = Some (Some (CString 16))"
proof -
  have k: "key_ok 48" by (simp add: key_ok_def cdo_string_tombstone_def)
  have c: "slot_cap cdo_object_new \<le> 2 ^ 27" "ob_kind cdo_object_new = OBJ_OBJECT"
    by (simp_all add: cdo_object_new_def cdo_obj_alloc_def)
  have w: "obj_writable cdo_object_new 48"
    by (simp add: obj_writable_def fields_static_def wit_new_inv) (simp add: cdo_object_new_def cdo_obj_alloc_def)
  show ?thesis using rawset_then_rawget [OF wit_new_inv(1) c(1) k k wit_cover w, of 0] c(2) by auto
qed

text \<open>C23. Deleting a field never faults, succeeds exactly when the object is writable there and the key present, removes
  that field and keeps the others in their order (the tombstone it leaves hides nothing from later lookups), and
  releases exactly the value it held.\<close>

theorem rawdelete_refines_fields:
  assumes "obj_inv obj" "key_ok k" "refs_cover H (field_values (obj_fields obj))"
  shows "\<exists>H' obj' ok. cdo_object_rawdelete H obj k = Some (H', obj', ok) \<and> obj_inv obj' \<and>
           (ok \<longleftrightarrow> obj_writable obj k \<and> map_of (obj_fields obj) k \<noteq> None) \<and>
           obj_fields obj' = (if ok then fields_del (obj_fields obj) k else obj_fields obj) \<and>
           balanced H (field_values (obj_fields obj)) H' (field_values (obj_fields obj'))"
  using rawdelete_spec [OF assms] by metis

theorem rawdelete_refines_fields_witness:
  "\<exists>H' obj'. cdo_object_rawdelete wit_cdo_heap cdo_object_new 48 = Some (H', obj', False) \<and> obj_fields obj' = []"
proof -
  have k: "key_ok 48" by (simp add: key_ok_def cdo_string_tombstone_def)
  have c: "refs_cover wit_cdo_heap (field_values (obj_fields cdo_object_new))"
    using wit_cover by (rule refs_cover_perm) simp
  show ?thesis using rawdelete_refines_fields [OF wit_new_inv(1) k c] by (auto simp: wit_new_inv)
qed

section \<open>Fields as a write-protected map\<close>

text \<open>One assignment of a value with flags, at any heap that covers the references held.\<close>

definition field_assign :: "cdo_object \<Rightarrow> addr \<Rightarrow> cdo_value \<times> nat \<Rightarrow> bool \<Rightarrow> cdo_object \<Rightarrow> bool" where
  "field_assign obj k vf b obj' \<longleftrightarrow> slot_cap obj \<le> 2 ^ 27 \<and> key_ok k \<and>
     (\<exists>H H'. refs_cover H (fst vf # field_values (obj_fields obj)) \<and>
             cdo_object_rawset H obj k (fst vf) (snd vf) = Some (H', obj', b))"

lemma map_of_fields_set: "map_of (fields_set fs k v fl) = (map_of fs)(k \<mapsto> (v, fl))"
proof (cases "map_of fs k")
  case None
  then show ?thesis by (auto simp: fields_set_def fun_eq_iff map_add_def split: option.splits)
next
  case (Some e)
  have "map_of (map (\<lambda>(k', e). if k' = k then (k, v, fl) else (k', e)) fs) k' =
      (if k' = k then (if map_of fs k = None then None else Some (v, fl)) else map_of fs k')" for k'
    by (induction fs) auto
  then show ?thesis using Some by (auto simp: fields_set_def)
qed

lemma field_assign_spec:
  assumes "obj_inv obj" "field_assign obj k vf b obj'"
  shows "obj_inv obj' \<and> b = obj_writable obj k \<and> ob_readonly obj' = ob_readonly obj \<and>
         map_of (obj_fields obj') = (if b then (map_of (obj_fields obj))(k \<mapsto> vf) else map_of (obj_fields obj))"
proof -
  obtain H H' where a: "slot_cap obj \<le> 2 ^ 27" "key_ok k" "refs_cover H (fst vf # field_values (obj_fields obj))"
      "cdo_object_rawset H obj k (fst vf) (snd vf) = Some (H', obj', b)"
    using assms(2) unfolding field_assign_def by blast
  then show ?thesis
    using rawset_spec [OF assms(1) a(1-3), of "snd vf"] by (auto simp: map_of_fields_set same_but_table_fields)
qed

interpretation fields: map_store field_assign "\<lambda>obj. map_of (obj_fields obj)" "\<lambda>obj k. \<not> obj_writable obj k" obj_inv
proof unfold_locales
  fix obj k vf b obj' k'
  assume a: "obj_inv obj" "field_assign obj k vf b obj'"
  note S = field_assign_spec [OF a]
  show "obj_inv obj'" "map_of (obj_fields obj') = (if b then (map_of (obj_fields obj))(k \<mapsto> vf) else map_of (obj_fields obj))"
    using S by simp_all
  show "b \<Longrightarrow> \<not> \<not> obj_writable obj k" using S by simp
  show "\<not> obj_writable obj k' \<Longrightarrow> \<not> obj_writable obj' k'"
    using S unfolding obj_writable_def fields_static_def by (cases b; cases "k = k'") (auto split: option.splits)
qed

text \<open>C24. A static field, and every field of a read-only object, keeps its value and flags through any sequence of
  assignments to the object, whatever they answer and however often the table is rebuilt.\<close>

theorem protected_field_is_forever:
  assumes "obj_inv obj" "\<not> obj_writable obj k" "run_calls field_assign obj calls obj'"
  shows "map_of (obj_fields obj') k = map_of (obj_fields obj) k \<and> \<not> obj_writable obj' k"
  using fields.frozen_run [OF assms(3,1,2)] .

theorem protected_field_is_forever_witness:
  "\<exists>obj obj'. \<not> obj_writable obj 48 \<and> run_calls field_assign obj [(48, CNull, 0)] obj' \<and>
     map_of (obj_fields obj') 48 = Some (CString 16, 1)"
proof -
  have k: "key_ok 48" by (simp add: key_ok_def cdo_string_tombstone_def)
  have c: "slot_cap cdo_object_new = 0" by (simp add: cdo_object_new_def cdo_obj_alloc_def)
  have "obj_writable cdo_object_new 48"
    by (simp add: obj_writable_def fields_static_def wit_new_inv) (simp add: cdo_object_new_def cdo_obj_alloc_def)
  then obtain obj where o: "obj_inv obj" "obj_fields obj = [(48, CString 16, 1)]" "slot_cap obj \<le> 2 ^ 27"
    using rawset_spec [OF wit_new_inv(1) _ k wit_cover, of 1] c by (auto simp: wit_new_inv fields_set_def)
  have nw: "\<not> obj_writable obj 48" by (simp add: obj_writable_def fields_static_def o(2) field_static_def)
  have cover: "refs_cover wit_cdo_heap (CNull # field_values (obj_fields obj))"
    using wit_cdo_heap_ok by (simp add: refs_cover_def o(2) field_values_def cdo_held_def)
      (simp add: str_refs_def wit_cdo_heap_def)
  obtain H' obj' where "cdo_object_rawset wit_cdo_heap obj 48 CNull 0 = Some (H', obj', False)"
    using rawset_spec [OF o(1,3) k cover, of 0] nw by auto
  then have "field_assign obj 48 (CNull, 0) False obj'"
    using o(3) k cover unfolding field_assign_def by auto
  then have run: "run_calls field_assign obj [(48, CNull, 0)] obj'" by auto
  from protected_field_is_forever [OF o(1) nw run] show ?thesis using nw run o(2) by auto
qed

end
