(* ===== verification/Obj_Ops.thy ===== *)
theory Obj_Ops
  imports Obj_Table
begin

text \<open>
  What is built on the field table: prototype chains, iteration and destruction of
  \<open>source/object/object.c\<close>, the meta keys, and the constructors of \<open>class.c\<close> and \<open>function.c\<close>.
\<close>

section \<open>Prototype-chain lookup\<close>

type_synonym obj_heap = "addr \<rightharpoonup> cdo_object"

text \<open>At most \<open>CANDO_PROTO_DEPTH_MAX\<close> objects are asked.\<close>

definition proto_depth_max :: nat where
  "proto_depth_max = 32"

fun proto_get :: "obj_heap \<Rightarrow> addr \<Rightarrow> nat \<Rightarrow> addr \<Rightarrow> addr \<Rightarrow> cdo_value option option" where
  "proto_get objs meta 0 cur key = Some None"
| "proto_get objs meta (Suc depth) cur key =
     do {
       obj \<leftarrow> objs cur;
       r \<leftarrow> cdo_object_rawget obj key;
       if r \<noteq> None then Some r
       else if meta = 0 then Some None
       else do {
         idx_val \<leftarrow> cdo_object_rawget obj meta;
         case idx_val of
           None \<Rightarrow> Some None
         | Some v \<Rightarrow>
             if \<not> cdo_is_any_object v \<or> cdo_as_object v = 0 then Some None
             else if cdo_as_object v = cur then Some None
             else proto_get objs meta depth (cdo_as_object v) key
       }
     }"

text \<open>\<open>g_meta_index\<close>, or the interned \<open>__index\<close> when the cache is not set.\<close>

definition cdo_object_get ::
  "cdo_heap \<Rightarrow> intern_table \<Rightarrow> addr \<Rightarrow> obj_heap \<Rightarrow> addr \<Rightarrow> addr \<Rightarrow> cdo_value option option" where
  "cdo_object_get H t g_meta_index objs obj key =
     do {
       meta \<leftarrow> (if g_meta_index \<noteq> 0 then Some g_meta_index else cdo_intern_weak H t ''__index'');
       proto_get objs meta proto_depth_max obj key
     }"

section \<open>Iteration and destruction\<close>

text \<open>The callback sees and may change only its own state \<open>'u\<close>; it answers whether to go on.\<close>

fun foreach_loop ::
  "obj_slot list \<Rightarrow> ('u \<Rightarrow> addr \<Rightarrow> cdo_value \<Rightarrow> nat \<Rightarrow> 'u \<times> bool) \<Rightarrow> nat \<Rightarrow> nat \<Rightarrow> 'u \<Rightarrow> 'u option" where
  "foreach_loop ss fn 0 idx u = (if idx = u32_max then Some u else None)"
| "foreach_loop ss fn (Suc n) idx u =
     (if idx = u32_max then Some u
      else do {
        s \<leftarrow> aget ss idx;
        case fn u (os_key s) (os_value s) (os_flags s) of
          (u, cont) \<Rightarrow> if cont then foreach_loop ss fn n (os_next s) u else Some u
      })"

definition cdo_object_foreach ::
  "cdo_object \<Rightarrow> ('u \<Rightarrow> addr \<Rightarrow> cdo_value \<Rightarrow> nat \<Rightarrow> 'u \<times> bool) \<Rightarrow> 'u \<Rightarrow> 'u option" where
  "cdo_object_foreach obj fn u = foreach_loop (ob_slots obj) fn (slot_cap obj) (ob_head obj) u"

fun release_fields :: "obj_slot list \<Rightarrow> nat \<Rightarrow> nat \<Rightarrow> cdo_heap \<Rightarrow> cdo_heap option" where
  "release_fields ss 0 idx H = (if idx = u32_max then Some H else None)"
| "release_fields ss (Suc n) idx H =
     (if idx = u32_max then Some H
      else do {
        s \<leftarrow> aget ss idx;
        H \<leftarrow> cdo_value_release H (os_value s);
        release_fields ss n (os_next s) H
      })"

definition cdo_object_destroy :: "cdo_heap \<Rightarrow> obj_heap \<Rightarrow> addr \<Rightarrow> (cdo_heap \<times> obj_heap) option" where
  "cdo_object_destroy H objs a =
     (if a = 0 then Some (H, objs)
      else do {
        obj \<leftarrow> objs a;
        H \<leftarrow> release_fields (ob_slots obj) (slot_cap obj) (ob_head obj) H;
        H \<leftarrow> mfold (\<lambda>H i. Option.bind i (cdo_value_release H)) (take (ob_items_len obj) (ob_items obj)) H;
        H \<leftarrow> (case ob_fn obj of
               FnScript _ ups _ \<Rightarrow> if ob_kind obj = OBJ_FUNCTION then mfold cdo_value_release ups H else Some H
             | _ \<Rightarrow> Some H);
        Some (H, objs(a := None))
      })"

section \<open>Meta keys\<close>

definition meta_names :: "string list" where
  "meta_names =
     [''__index'', ''__call'', ''__type'', ''__tostring'', ''__eq'', ''__lt'', ''__le'', ''__add'', ''__sub'',
      ''__mul'', ''__div'', ''__mod'', ''__pow'', ''__unm'', ''__idiv'', ''__len'', ''__newindex'']"

text \<open>Interning a list of names; \<open>as\<close> are the addresses the allocator offers, one per name. The
  result lists the cached keys in the order of \<open>meta_names\<close>.\<close>

fun intern_names :: "cdo_heap \<Rightarrow> intern_table \<Rightarrow> addr list \<Rightarrow> string list \<Rightarrow> (cdo_heap \<times> intern_table \<times> addr list) option" where
  "intern_names H t as [] = Some (H, t, [])"
| "intern_names H t as (n # ns) =
     do {
       a \<leftarrow> aget as 0;
       (H, t, k) \<leftarrow> cdo_string_intern H t a n;
       (H, t, ks) \<leftarrow> intern_names H t (drop 1 as) ns;
       Some (H, t, k # ks)
     }"

definition cdo_object_init :: "cdo_heap \<Rightarrow> intern_table \<Rightarrow> addr list \<Rightarrow> (cdo_heap \<times> intern_table \<times> addr list) option" where
  "cdo_object_init H t as = intern_names H (cdo_intern_init t) as meta_names"

definition cdo_object_destroy_globals :: "cdo_heap \<Rightarrow> intern_table \<Rightarrow> addr list \<Rightarrow> (cdo_heap \<times> intern_table) option" where
  "cdo_object_destroy_globals H t metas =
     do {
       H \<leftarrow> mfold cdo_string_release metas H;
       cdo_intern_destroy H t
     }"

section \<open>Constructors\<close>

definition cdo_class_new ::
  "cdo_heap \<Rightarrow> addr \<Rightarrow> addr \<Rightarrow> addr \<Rightarrow> addr \<Rightarrow> (cdo_heap \<times> cdo_object) option" where
  "cdo_class_new H g_meta_type g_meta_index type_name proto =
     do {
       let cls = cdo_object_new;
       (H, cls) \<leftarrow>
         (if type_name \<noteq> 0 \<and> g_meta_type \<noteq> 0 then do {
            H \<leftarrow> cdo_string_retain H type_name;
            let tv = CString type_name;
            (H, cls, _) \<leftarrow> cdo_object_rawset H cls g_meta_type tv 1;
            H \<leftarrow> cdo_value_release H tv;
            Some (H, cls)
          } else Some (H, cls));
       if proto \<noteq> 0 \<and> g_meta_index \<noteq> 0 then do {
         (H, cls, _) \<leftarrow> cdo_object_rawset H cls g_meta_index (CObject proto) 0;
         Some (H, cls)
       } else Some (H, cls)
     }"

definition cdo_function_new :: "cdo_heap \<Rightarrow> nat \<Rightarrow> addr \<Rightarrow> cdo_value list \<Rightarrow> (cdo_heap \<times> cdo_object) option" where
  "cdo_function_new H param_count bytecode upvalues =
     do {
       H \<leftarrow> mfold cdo_value_copy upvalues H;
       Some (H, (cdo_obj_alloc OBJ_FUNCTION)\<lparr>ob_fn := FnScript param_count upvalues bytecode\<rparr>)
     }"

definition cdo_native_new :: "addr \<Rightarrow> nat \<Rightarrow> cdo_object option" where
  "cdo_native_new fn param_count =
     do {
       check (fn \<noteq> 0);
       Some ((cdo_obj_alloc OBJ_NATIVE)\<lparr>ob_fn := FnNative fn param_count\<rparr>)
     }"

section \<open>The chain that a lookup follows\<close>

text \<open>The objects asked in turn, from \<open>cur\<close>, at most \<open>n\<close> of them.\<close>

definition proto_next :: "obj_heap \<Rightarrow> addr \<Rightarrow> addr \<Rightarrow> addr option" where
  "proto_next objs meta cur =
     (case objs cur of
        None \<Rightarrow> None
      | Some obj \<Rightarrow>
          if meta = 0 \<or> ob_kind obj \<noteq> OBJ_OBJECT then None
          else case fields_get (obj_fields obj) meta of
            None \<Rightarrow> None
          | Some v \<Rightarrow> if cdo_is_any_object v \<and> cdo_as_object v \<notin> {0, cur} then Some (cdo_as_object v) else None)"

fun proto_chain :: "obj_heap \<Rightarrow> addr \<Rightarrow> nat \<Rightarrow> addr \<Rightarrow> addr list" where
  "proto_chain objs meta 0 cur = []"
| "proto_chain objs meta (Suc n) cur =
     cur # (case proto_next objs meta cur of None \<Rightarrow> [] | Some nx \<Rightarrow> proto_chain objs meta n nx)"

definition own_field :: "obj_heap \<Rightarrow> addr \<Rightarrow> addr \<Rightarrow> cdo_value option" where
  "own_field objs key a =
     (case objs a of
        None \<Rightarrow> None
      | Some obj \<Rightarrow> if ob_kind obj = OBJ_OBJECT then fields_get (obj_fields obj) key else None)"

text \<open>The first object of a list that has the key.\<close>

fun first_field :: "obj_heap \<Rightarrow> addr \<Rightarrow> addr list \<Rightarrow> cdo_value option" where
  "first_field objs key [] = None"
| "first_field objs key (a # as) = (case own_field objs key a of Some v \<Rightarrow> Some v | None \<Rightarrow> first_field objs key as)"

text \<open>Every object is well formed, and every object pointer in a field is valid.\<close>

definition objs_ok :: "obj_heap \<Rightarrow> bool" where
  "objs_ok objs \<longleftrightarrow> (\<forall>a obj. objs a = Some obj \<longrightarrow> obj_inv obj \<and>
     (\<forall>v \<in> set (field_values (obj_fields obj)). cdo_is_any_object v \<and> cdo_as_object v \<noteq> 0 \<longrightarrow>
        objs (cdo_as_object v) \<noteq> None))"

lemma fields_get_member: "fields_get fs k = Some v \<Longrightarrow> v \<in> set (field_values fs)"
  by (auto simp: fields_get_def field_values_def dest!: map_of_SomeD) force

lemma proto_get_spec:
  assumes "objs_ok objs" "key_ok key" "meta \<noteq> 0 \<longrightarrow> key_ok meta" "objs cur \<noteq> None"
  shows "proto_get objs meta n cur key = Some (first_field objs key (proto_chain objs meta n cur))"
  using assms(4)
proof (induction n arbitrary: cur)
  case (Suc n)
  obtain obj where obj: "objs cur = Some obj" "obj_inv obj" using Suc.prems assms(1) by (auto simp: objs_ok_def)
  have get: "cdo_object_rawget obj key = Some (own_field objs key cur)"
    using rawget_spec [OF obj(2) assms(2)] obj(1) by (simp add: own_field_def)
  show ?case
  proof (cases "own_field objs key cur")
    case (Some v)
    then show ?thesis using obj(1) get by simp
  next
    case None
    show ?thesis
    proof (cases "meta = 0")
      case True
      then show ?thesis using obj(1) get None by (simp add: proto_next_def)
    next
      case meta: False
      then have mget: "cdo_object_rawget obj meta =
          Some (if ob_kind obj = OBJ_OBJECT then fields_get (obj_fields obj) meta else None)"
        using rawget_spec [OF obj(2)] assms(3) by simp
      have "proto_get objs meta n (cdo_as_object v) key =
          Some (first_field objs key (proto_chain objs meta n (cdo_as_object v)))"
        if "fields_get (obj_fields obj) meta = Some v" "cdo_is_any_object v" "cdo_as_object v \<noteq> 0" for v
        using that fields_get_member assms(1) obj(1) by (intro Suc.IH) (auto simp: objs_ok_def)
      then show ?thesis using obj(1) get None meta mget
        by (auto simp: proto_next_def split: option.splits)
    qed
  qed
qed simp

lemma proto_chain_length: "length (proto_chain objs meta n cur) \<le> n"
  by (induction n arbitrary: cur) (auto split: option.splits)

section \<open>Iteration visits the fields in insertion order\<close>

fun visit :: "('u \<Rightarrow> addr \<Rightarrow> cdo_value \<Rightarrow> nat \<Rightarrow> 'u \<times> bool) \<Rightarrow> field list \<Rightarrow> 'u \<Rightarrow> 'u" where
  "visit fn [] u = u"
| "visit fn ((k, v, fl) # fs) u = (case fn u k v fl of (u, cont) \<Rightarrow> if cont then visit fn fs u else u)"

lemma foreach_loop_spec:
  "fifo_seg ss p h is t u32_max \<Longrightarrow> length is \<le> n \<Longrightarrow> u32_max \<notin> set is \<Longrightarrow>
   foreach_loop ss fn n h u = Some (visit fn (entries ss is) u)"
proof (induction "is" arbitrary: p h n u)
  case Nil
  then show ?case by (cases n) auto
next
  case (Cons i "is")
  then obtain m where "n = Suc m" by (cases n) auto
  then show ?case using Cons by (auto simp: slot_entry_def split: prod.split)
qed

lemma release_fields_spec:
  "fifo_seg ss p h is t u32_max \<Longrightarrow> length is \<le> n \<Longrightarrow> u32_max \<notin> set is \<Longrightarrow>
   release_fields ss n h H = mfold cdo_value_release (field_values (entries ss is)) H"
proof (induction "is" arbitrary: p h n H)
  case Nil
  then show ?case by (cases n) (auto simp: field_values_def)
next
  case (Cons i "is")
  then obtain m where "n = Suc m" by (cases n) auto
  then show ?case using Cons by (auto simp: slot_entry_def field_values_def split: Option.bind_split)
qed

lemma obj_path:
  assumes "obj_wf obj is"
  shows "fifo_seg (ob_slots obj) u32_max (ob_head obj) is (ob_tail obj) u32_max" "length is \<le> slot_cap obj" "u32_max \<notin> set is"
proof -
  note D = obj_wfD [OF assms] and W = slots_wfD [OF obj_wfD(1) [OF assms]]
  show "fifo_seg (ob_slots obj) u32_max (ob_head obj) is (ob_tail obj) u32_max" by (rule W(1))
  show "length is \<le> slot_cap obj" using D(7) by simp
  show "u32_max \<notin> set is" using W(3) D(4) by (auto simp: live_idx_def)
qed

lemma foreach_spec:
  assumes "obj_inv obj"
  shows "cdo_object_foreach obj fn u = Some (visit fn (obj_fields obj) u)"
proof -
  obtain "is" where wf: "obj_wf obj is" using assms by (auto simp: obj_inv_def)
  show ?thesis unfolding cdo_object_foreach_def obj_fields_wf [OF wf] by (rule foreach_loop_spec [OF obj_path [OF wf]])
qed

section \<open>Destruction gives back exactly what the object holds\<close>

definition items_init :: "cdo_object \<Rightarrow> bool" where
  "items_init obj \<longleftrightarrow> ob_items_len obj \<le> length (ob_items obj) \<and> None \<notin> set (take (ob_items_len obj) (ob_items obj))"

definition upvalues_of :: "cdo_object \<Rightarrow> cdo_value list" where
  "upvalues_of obj = (case ob_fn obj of FnScript _ ups _ \<Rightarrow> if ob_kind obj = OBJ_FUNCTION then ups else [] | _ \<Rightarrow> [])"

definition obj_values :: "cdo_object \<Rightarrow> cdo_value list" where
  "obj_values obj = field_values (obj_fields obj) @ map the (take (ob_items_len obj) (ob_items obj)) @ upvalues_of obj"

lemma release_items:
  "None \<notin> set xs \<Longrightarrow> mfold (\<lambda>H i. Option.bind i (cdo_value_release H)) xs H = mfold cdo_value_release (map the xs) H"
  by (induction xs arbitrary: H) (auto split: Option.bind_split)

lemma destroy_spec:
  assumes obj: "objs a = Some obj" "a \<noteq> 0" "obj_inv obj" "items_init obj"
    and ok: "cdo_strings_ok H" and own: "\<And>s. owned cdo_held (obj_values obj) s \<le> str_refs H s"
  shows "\<exists>H'. cdo_object_destroy H objs a = Some (H', objs(a := None)) \<and> cdo_strings_ok H' \<and>
              str_refs H' = (\<lambda>s. str_refs H s - owned cdo_held (obj_values obj) s)"
proof -
  obtain "is" where wf: "obj_wf obj is" using obj(3) by (auto simp: obj_inv_def)
  have ups: "(case ob_fn obj of
               FnScript _ ups _ \<Rightarrow> if ob_kind obj = OBJ_FUNCTION then mfold cdo_value_release ups H else Some H
             | _ \<Rightarrow> Some H) = mfold cdo_value_release (upvalues_of obj) H" for H
    by (simp add: upvalues_of_def split: fn_data.split)
  have "None \<notin> set (take (ob_items_len obj) (ob_items obj))" using obj(4) by (simp add: items_init_def)
  note items = release_items [OF this]
  obtain H' where H': "mfold cdo_value_release (obj_values obj) H = Some H'" "cdo_strings_ok H'"
      "str_refs H' = (\<lambda>s. str_refs H s - owned cdo_held (obj_values obj) s)"
    using cdo.release_all [OF ok own] by blast
  obtain H1 H2 where "mfold cdo_value_release (field_values (obj_fields obj)) H = Some H1"
      "mfold cdo_value_release (map the (take (ob_items_len obj) (ob_items obj))) H1 = Some H2"
      "mfold cdo_value_release (upvalues_of obj) H2 = Some H'"
    using H'(1) by (auto simp: obj_values_def mfold_append fault_simps)
  then have "cdo_object_destroy H objs a = Some (H', objs(a := None))"
    using obj(1,2) by (simp add: cdo_object_destroy_def release_fields_spec [OF obj_path [OF wf]] items ups
        obj_fields_wf [OF wf])
  then show ?thesis using H'(2,3) by blast
qed

section \<open>A class carries its type and its prototype\<close>

lemma fresh_object: "obj_inv cdo_object_new" "obj_fields cdo_object_new = []" "slot_cap cdo_object_new = 0"
    "ob_readonly cdo_object_new = False" "ob_kind cdo_object_new = OBJ_OBJECT"
proof -
  have "obj_wf (cdo_obj_alloc k) []" for k
    by (simp add: obj_wf_def slots_wf_def cdo_obj_alloc_def live_idx_def tomb_idx_def)
  then show "obj_inv cdo_object_new" by (auto simp: obj_inv_def cdo_object_new_def)
qed (simp_all add: obj_fields_def cdo_object_new_def cdo_obj_alloc_def)

lemma class_new_spec:
  assumes ok: "cdo_strings_ok H" and refs: "\<forall>s. str_refs H s + 2 < u32_max" "0 < str_refs H ty"
    and keys: "key_ok mt" "key_ok mi" "mt \<noteq> mi" and proto: "proto \<noteq> 0"
  shows "\<exists>H' cls. cdo_class_new H mt mi ty proto = Some (H', cls) \<and> obj_inv cls \<and> ob_kind cls = OBJ_OBJECT \<and>
           obj_fields cls = [(mt, CString ty, 1), (mi, CObject proto, 0)] \<and> cdo_strings_ok H' \<and>
           str_refs H' = (str_refs H)(ty := str_refs H ty + 1)"
proof -
  have ty: "ty \<noteq> 0" using cdo_live [OF ok refs(2)] by simp
  have held: "cdo_held (CString ty) = Some ty" "cdo_held (CObject proto) = None" using ty by (simp_all add: cdo_held_def)
  have "str_refs H ty < u32_max" using refs(1) [rule_format, of ty] by simp
  then obtain H1 where H1: "cdo_string_retain H ty = Some H1" "cdo_strings_ok H1"
      "str_refs H1 = (str_refs H)(ty := str_refs H ty + 1)"
    using cdo_retain_spec [OF ok refs(2)] by (auto simp: retained_def)
  have lt1: "str_refs H1 s + 1 < u32_max" for s
    using refs(1) [rule_format, of s] H1(3) by (cases "s = ty") simp_all
  have cov1: "refs_cover H1 (CString ty # field_values (obj_fields cdo_object_new))"
  proof -
    have "owned cdo_held [CString ty] s \<le> str_refs H1 s \<and> str_refs H1 s < u32_max" for s
      using lt1 [of s] H1(3) held by (cases "s = ty") simp_all
    then show ?thesis using H1(2) by (simp add: refs_cover_def fresh_object field_values_def)
  qed
  have w1: "obj_writable cdo_object_new mt" by (simp add: obj_writable_def fields_static_def fresh_object)
  obtain H2 c1 where H2: "cdo_object_rawset H1 cdo_object_new mt (CString ty) 1 = Some (H2, c1, True)" "obj_inv c1"
      "obj_fields c1 = [(mt, CString ty, 1)]" "balanced H1 [] H2 [CString ty]"
      "same_but_table cdo_object_new c1" "slot_cap c1 \<le> 8"
    using rawset_spec [OF fresh_object(1) _ keys(1) cov1, of 1] w1
    by (auto simp: fresh_object fields_set_def field_values_def)
  have r2: "cdo_strings_ok H2" "str_refs H2 s = str_refs H1 s + owned cdo_held [CString ty] s" for s
    using H2(4) by (auto simp: balanced_def)
  have "owned cdo_held [CString ty] s \<le> str_refs H2 s" for s using r2(2) by simp
  then obtain H3 where H3: "cdo_value_release H2 (CString ty) = Some H3" "cdo_strings_ok H3"
      "\<forall>s. str_refs H3 s + owned cdo_held [CString ty] s = str_refs H2 s"
    using release_balanced [OF r2(1)] by blast
  have r3: "str_refs H3 s = str_refs H1 s" for s using H3(3) [rule_format, of s] r2(2) [of s] by simp
  have cov3: "refs_cover H3 (CObject proto # field_values (obj_fields c1))"
  proof -
    have "owned cdo_held [CObject proto, CString ty] s \<le> str_refs H3 s \<and> str_refs H3 s < u32_max" for s
      using lt1 [of s] H1(3) held r3 [of s] by (cases "s = ty") simp_all
    then show ?thesis using H3(2) by (simp add: refs_cover_def H2(3) field_values_def)
  qed
  have w2: "obj_writable c1 mi"
    using keys(3) same_but_table_fields [OF H2(5)] by (simp add: obj_writable_def fields_static_def H2(3) fresh_object)
  obtain H4 c2 where H4: "cdo_object_rawset H3 c1 mi (CObject proto) 0 = Some (H4, c2, True)" "obj_inv c2"
      "obj_fields c2 = [(mt, CString ty, 1), (mi, CObject proto, 0)]"
      "balanced H3 [CString ty] H4 [CString ty, CObject proto]" "same_but_table c1 c2"
    using rawset_spec [OF H2(2) _ keys(2) cov3, of 0] w2 H2(6) keys(3)
    by (auto simp: H2(3) fields_set_def field_values_def)
  have "cdo_class_new H mt mi ty proto = Some (H4, c2)"
    using H1(1) H2(1) H3(1) H4(1) ty proto keys(1,2) by (simp add: cdo_class_new_def key_ok_def)
  moreover have "str_refs H4 = (str_refs H)(ty := str_refs H ty + 1)"
    using H4(4) r3 H1(3) held by (auto simp: balanced_def fun_eq_iff)
  moreover have "ob_kind c2 = OBJ_OBJECT"
    using same_but_table_fields(1) [OF H4(5)] same_but_table_fields(1) [OF H2(5)] by (simp add: fresh_object)
  ultimately show ?thesis using H4(2,3,4) by (auto simp: balanced_def)
qed

section \<open>Properties\<close>

text \<open>C25. Lookup along prototypes returns the field of the first object on the \<open>__index\<close> chain that has it, asks at
  most 32 objects, and always returns, also when the prototypes form a cycle.\<close>

theorem proto_lookup_first_on_chain:
  assumes "objs_ok objs" "key_ok key" "key_ok meta" "objs obj \<noteq> None"
  shows "cdo_object_get H t meta objs obj key = Some (first_field objs key (proto_chain objs meta 32 obj)) \<and>
         length (proto_chain objs meta 32 obj) \<le> 32"
  using proto_get_spec [OF assms(1,2) _ assms(4), of meta 32] assms(3) proto_chain_length [of objs meta 32 obj]
  by (simp add: cdo_object_get_def proto_depth_max_def key_ok_def)

theorem proto_lookup_first_on_chain_witness:
  "cdo_object_get Map.empty \<lparr>it_buckets = [], it_ready = False\<rparr> 48 [4096 \<mapsto> cdo_object_new] 4096 64 = Some None"
proof -
  have ok: "objs_ok [4096 \<mapsto> cdo_object_new]" by (auto simp: objs_ok_def fresh_object field_values_def split: if_splits)
  have k: "key_ok 64" "key_ok 48" by (simp_all add: key_ok_def cdo_string_tombstone_def)
  have n: "proto_next [4096 \<mapsto> cdo_object_new] 48 4096 = None"
    by (simp add: proto_next_def fresh_object fields_get_def)
  have "proto_chain [4096 \<mapsto> cdo_object_new] 48 32 4096 = [4096]"
    using n by (simp add: numeral_eq_Suc)
  moreover have "own_field [4096 \<mapsto> cdo_object_new] 64 4096 = None"
    by (simp add: own_field_def fresh_object fields_get_def)
  ultimately show ?thesis
    using proto_lookup_first_on_chain [OF ok k, of 4096] by simp
qed

text \<open>C26. Iteration presents every field once, oldest first, with its key, value and flags, and stops early exactly
  when the callback says so.\<close>

theorem foreach_visits_in_order:
  assumes "obj_inv obj"
  shows "cdo_object_foreach obj fn u = Some (visit fn (obj_fields obj) u)"
  by (rule foreach_spec [OF assms])

theorem foreach_visits_in_order_witness:
  "cdo_object_foreach cdo_object_new (\<lambda>n k v fl. (n + 1, True)) (0 :: nat) = Some 0"
  using foreach_visits_in_order [OF fresh_object(1), of "\<lambda>n k v fl. (n + 1, True)" "0 :: nat"]
  by (simp add: fresh_object)

text \<open>C27. Destroying an object releases exactly what it holds: its field values, the items in use and, for a
  closure, its upvalues; no release faults and every other reference count is unchanged.\<close>

theorem destroy_releases_exactly:
  assumes "objs a = Some obj" "a \<noteq> 0" "obj_inv obj" "items_init obj" "cdo_strings_ok H"
    "\<forall>s. owned cdo_held (obj_values obj) s \<le> str_refs H s"
  shows "\<exists>H'. cdo_object_destroy H objs a = Some (H', objs(a := None)) \<and> cdo_strings_ok H' \<and>
              str_refs H' = (\<lambda>s. str_refs H s - owned cdo_held (obj_values obj) s)"
  by (rule destroy_spec [where obj = obj]) (use assms in auto)

theorem destroy_releases_exactly_witness:
  "\<exists>H'. cdo_object_destroy wit_cdo_heap [4096 \<mapsto> cdo_object_new\<lparr>ob_kind := OBJ_FUNCTION, ob_fn := FnScript 0 [CString 16] 0\<rparr>] 4096
     = Some (H', Map.empty) \<and> str_refs H' 16 = 1"
proof -
  let ?o = "cdo_object_new\<lparr>ob_kind := OBJ_FUNCTION, ob_fn := FnScript 0 [CString 16] 0\<rparr>"
  have i: "obj_inv ?o" "items_init ?o"
  proof -
    have "obj_wf ?o []"
      by (simp add: obj_wf_def slots_wf_def cdo_object_new_def cdo_obj_alloc_def live_idx_def tomb_idx_def)
    then show "obj_inv ?o" by (auto simp: obj_inv_def)
    show "items_init ?o" by (simp add: items_init_def cdo_object_new_def cdo_obj_alloc_def)
  qed
  have v: "obj_values ?o = [CString 16]"
    by (simp add: obj_values_def upvalues_of_def obj_fields_def field_values_def cdo_object_new_def cdo_obj_alloc_def)
  have "\<forall>s. owned cdo_held (obj_values ?o) s \<le> str_refs wit_cdo_heap s"
    unfolding v by (simp add: cdo_held_def str_refs_def wit_cdo_heap_def)
  then obtain H' where "cdo_object_destroy wit_cdo_heap [4096 \<mapsto> ?o] 4096 = Some (H', [4096 \<mapsto> ?o](4096 := None))"
      "str_refs H' = (\<lambda>s. str_refs wit_cdo_heap s - owned cdo_held [CString 16] s)"
    using destroy_releases_exactly [of "[4096 \<mapsto> ?o]" 4096 ?o, OF _ _ i wit_cdo_heap_ok] unfolding v by auto
  moreover from this have "str_refs H' 16 = 1"
    by (simp add: cdo_held_def) (simp add: str_refs_def wit_cdo_heap_def)
  ultimately show ?thesis by auto
qed

text \<open>A class scaffold has exactly its type name, as a static field, and its prototype as \<open>__index\<close>, takes one
  reference to the name, and its type can never be reassigned afterwards.\<close>

theorem class_new_type_is_static:
  assumes "cdo_strings_ok H" "\<forall>s. str_refs H s + 2 < u32_max" "0 < str_refs H ty"
    "key_ok mt" "key_ok mi" "mt \<noteq> mi" "proto \<noteq> 0"
  shows "\<exists>H' cls. cdo_class_new H mt mi ty proto = Some (H', cls) \<and> obj_inv cls \<and>
           obj_fields cls = [(mt, CString ty, 1), (mi, CObject proto, 0)] \<and>
           str_refs H' = (str_refs H)(ty := str_refs H ty + 1) \<and> \<not> obj_writable cls mt"
proof -
  have "field_static 1" by (simp add: field_static_def)
  then show ?thesis using class_new_spec [OF assms] by (auto simp: obj_writable_def fields_static_def)
qed

theorem class_new_type_is_static_witness:
  "\<exists>H' cls. cdo_class_new wit_cdo_heap 48 64 16 4096 = Some (H', cls) \<and> \<not> obj_writable cls 48 \<and>
     obj_fields cls = [(48, CString 16, 1), (64, CObject 4096, 0)]"
proof -
  have "\<forall>s. str_refs wit_cdo_heap s + 2 < u32_max" "0 < str_refs wit_cdo_heap 16" "key_ok 48" "key_ok 64"
    by (simp_all add: str_refs_def wit_cdo_heap_def key_ok_def cdo_string_tombstone_def)
  from class_new_type_is_static [OF wit_cdo_heap_ok this, of 4096] show ?thesis by auto
qed

end
