(* ===== verification/Dense_Array.thy ===== *)
theory Dense_Array
  imports Obj_Ops
begin

text \<open>
  The dense part of array objects (\<open>source/object/array.c\<close>): push, insert, remove and indexed access
  on a growing block of values. Abstractly the array is the list of its items. Memory that was
  allocated and never written is \<open>None\<close>; reading it as a value is a fault.
\<close>

section \<open>Operations\<close>

definition cdo_array_new :: cdo_object where
  "cdo_array_new = cdo_obj_alloc OBJ_ARRAY"

text \<open>Room for one more item: 8, then doubling; the new part is not initialised.\<close>

definition array_grow :: "cdo_object \<Rightarrow> cdo_object option" where
  "array_grow arr =
     (if ob_items_len arr \<ge> length (ob_items arr) then
        let cap = length (ob_items arr); new_cap = (if cap = 0 then 8 else u32 (cap * 2))
        in if new_cap < cap then None
           else Some (arr\<lparr>ob_items := ob_items arr @ replicate (new_cap - cap) None\<rparr>)
      else Some arr)"

definition cdo_array_push :: "cdo_heap \<Rightarrow> cdo_object \<Rightarrow> cdo_value \<Rightarrow> (cdo_heap \<times> cdo_object \<times> bool) option" where
  "cdo_array_push H arr val =
     do {
       check (ob_kind arr = OBJ_ARRAY);
       if ob_readonly arr then Some (H, arr, False)
       else do {
         arr \<leftarrow> array_grow arr;
         H \<leftarrow> cdo_value_copy H val;
         items \<leftarrow> aput (ob_items arr) (ob_items_len arr) (Some val);
         Some (H, arr\<lparr>ob_items := items, ob_items_len := u32 (ob_items_len arr + 1)\<rparr>, True)
       }
     }"

definition cdo_array_rawget_idx :: "cdo_object \<Rightarrow> nat \<Rightarrow> cdo_value option option" where
  "cdo_array_rawget_idx arr idx =
     do {
       check (ob_kind arr = OBJ_ARRAY);
       if idx < ob_items_len arr then do {
         cell \<leftarrow> aget (ob_items arr) idx;
         v \<leftarrow> cell;
         Some (Some v)
       } else Some None
     }"

text \<open>\<open>while (new_cap <= idx) new_cap *= 2\<close>\<close>

fun array_cap_for :: "nat \<Rightarrow> nat \<Rightarrow> nat \<Rightarrow> nat option" where
  "array_cap_for 0 idx cap = None"
| "array_cap_for (Suc n) idx cap = (if cap \<le> idx then array_cap_for n idx (u32 (cap * 2)) else Some cap)"

text \<open>The items from the length up to \<open>idx\<close> become null; \<open>items[idx]\<close> itself is left as it is.\<close>

definition array_fill :: "cdo_value option list \<Rightarrow> nat \<Rightarrow> nat \<Rightarrow> cdo_value option list \<times> nat" where
  "array_fill items len idx =
     (if idx \<ge> len then (take len items @ replicate (idx - len) (Some CNull) @ drop idx items, u32 (idx + 1))
      else (items, len))"

definition cdo_array_rawset_idx :: "cdo_heap \<Rightarrow> cdo_object \<Rightarrow> nat \<Rightarrow> cdo_value \<Rightarrow> (cdo_heap \<times> cdo_object \<times> bool) option" where
  "cdo_array_rawset_idx H arr idx val =
     do {
       check (ob_kind arr = OBJ_ARRAY);
       if ob_readonly arr then Some (H, arr, False)
       else do {
         items \<leftarrow>
           (if idx \<ge> length (ob_items arr) then do {
              new_cap \<leftarrow> array_cap_for 33 idx (if length (ob_items arr) = 0 then 8 else length (ob_items arr));
              Some (ob_items arr @ replicate (new_cap - length (ob_items arr)) (Some CNull))
            } else Some (ob_items arr));
         let (items, len) = array_fill items (ob_items_len arr) idx;
         cell \<leftarrow> aget items idx;
         old \<leftarrow> cell;
         H \<leftarrow> cdo_value_release H old;
         H \<leftarrow> cdo_value_copy H val;
         Some (H, arr\<lparr>ob_items := items[idx := Some val], ob_items_len := len\<rparr>, True)
       }
     }"

definition cdo_array_len :: "cdo_object \<Rightarrow> nat option" where
  "cdo_array_len arr = do { check (ob_kind arr = OBJ_ARRAY); Some (ob_items_len arr) }"

text \<open>\<open>for (i = items_len; i > idx; i--) items[i] = items[i - 1]\<close>\<close>

fun shift_right :: "'a list \<Rightarrow> nat \<Rightarrow> nat \<Rightarrow> 'a list option" where
  "shift_right xs idx 0 = Some xs"
| "shift_right xs idx (Suc i) =
     (if Suc i > idx then do {
        x \<leftarrow> aget xs i;
        xs \<leftarrow> aput xs (Suc i) x;
        shift_right xs idx i
      } else Some xs)"

definition cdo_array_insert :: "cdo_heap \<Rightarrow> cdo_object \<Rightarrow> nat \<Rightarrow> cdo_value \<Rightarrow> (cdo_heap \<times> cdo_object \<times> bool) option" where
  "cdo_array_insert H arr idx val =
     do {
       check (ob_kind arr = OBJ_ARRAY);
       if ob_readonly arr then Some (H, arr, False)
       else do {
         let idx = (if idx > ob_items_len arr then ob_items_len arr else idx);
         arr \<leftarrow> array_grow arr;
         items \<leftarrow> shift_right (ob_items arr) idx (ob_items_len arr);
         H \<leftarrow> cdo_value_copy H val;
         items \<leftarrow> aput items idx (Some val);
         Some (H, arr\<lparr>ob_items := items, ob_items_len := u32 (ob_items_len arr + 1)\<rparr>, True)
       }
     }"

text \<open>\<open>for (i = idx; i + 1 < items_len; i++) items[i] = items[i + 1]\<close>; the counter is the number of
  moves left, and the last item stays behind in its old place.\<close>

fun shift_left :: "'a list \<Rightarrow> nat \<Rightarrow> nat \<Rightarrow> 'a list option" where
  "shift_left xs i 0 = Some xs"
| "shift_left xs i (Suc n) =
     do {
       x \<leftarrow> aget xs (Suc i);
       xs \<leftarrow> aput xs i x;
       shift_left xs (Suc i) n
     }"

text \<open>With an \<open>out\<close> pointer the caller receives the item and its reference.\<close>

definition cdo_array_remove ::
  "cdo_heap \<Rightarrow> cdo_object \<Rightarrow> nat \<Rightarrow> bool \<Rightarrow> (cdo_heap \<times> cdo_object \<times> cdo_value option \<times> bool) option" where
  "cdo_array_remove H arr idx out =
     do {
       check (ob_kind arr = OBJ_ARRAY);
       if ob_readonly arr \<or> idx \<ge> ob_items_len arr then Some (H, arr, None, False)
       else do {
         cell \<leftarrow> aget (ob_items arr) idx;
         v \<leftarrow> cell;
         H \<leftarrow> (if out then Some H else cdo_value_release H v);
         items \<leftarrow> shift_left (ob_items arr) idx (ob_items_len arr - 1 - idx);
         Some (H, arr\<lparr>ob_items := items, ob_items_len := ob_items_len arr - 1\<rparr>, if out then Some v else None, True)
       }
     }"

section \<open>The array as a list\<close>

definition arr_inv :: "cdo_object \<Rightarrow> bool" where
  "arr_inv arr \<longleftrightarrow> ob_kind arr = OBJ_ARRAY \<and> length (ob_items arr) \<le> 2 ^ 31 \<and>
     ob_items_len arr \<le> length (ob_items arr) \<and>
     (\<forall>i < ob_items_len arr. ob_items arr ! i \<noteq> None)"

definition arr_items :: "cdo_object \<Rightarrow> cdo_value list" where
  "arr_items arr = map the (take (ob_items_len arr) (ob_items arr))"

text \<open>The cells that hold a list of values, and what is behind them.\<close>

lemma arr_rep:
  "arr_inv arr \<longleftrightarrow> ob_kind arr = OBJ_ARRAY \<and> length (ob_items arr) \<le> 2 ^ 31 \<and>
     (\<exists>rest. ob_items arr = map Some (arr_items arr) @ rest) \<and> ob_items_len arr = length (arr_items arr)"
proof (intro iffI conjI; (elim conjE)?)
  assume i: "arr_inv arr"
  then show "ob_kind arr = OBJ_ARRAY" "length (ob_items arr) \<le> 2 ^ 31" "ob_items_len arr = length (arr_items arr)"
    by (auto simp: arr_inv_def arr_items_def)
  have "map Some (arr_items arr) = take (ob_items_len arr) (ob_items arr)"
    using i by (auto simp: arr_inv_def arr_items_def list_eq_iff_nth_eq)
  then show "\<exists>rest. ob_items arr = map Some (arr_items arr) @ rest" by (metis append_take_drop_id)
next
  assume "ob_kind arr = OBJ_ARRAY" "length (ob_items arr) \<le> 2 ^ 31"
    and r: "\<exists>rest. ob_items arr = map Some (arr_items arr) @ rest" "ob_items_len arr = length (arr_items arr)"
  moreover from r have "ob_items_len arr \<le> length (ob_items arr)"
      "\<forall>i < ob_items_len arr. ob_items arr ! i \<noteq> None"
    by (auto simp: nth_append)
  ultimately show "arr_inv arr" unfolding arr_inv_def by blast
qed

lemma arr_repI:
  assumes "ob_kind arr = OBJ_ARRAY" "length (ob_items arr) \<le> 2 ^ 31" "ob_items arr = map Some xs @ rest"
    "ob_items_len arr = length xs"
  shows "arr_inv arr" "arr_items arr = xs"
proof -
  show x: "arr_items arr = xs" using assms(3,4) by (simp add: arr_items_def comp_def)
  show "arr_inv arr" using assms x by (auto simp: arr_rep)
qed

lemma arr_repE:
  assumes "arr_inv arr"
  obtains rest where "ob_kind arr = OBJ_ARRAY" "length (ob_items arr) \<le> 2 ^ 31"
    "ob_items arr = map Some (arr_items arr) @ rest" "ob_items_len arr = length (arr_items arr)"
  using assms by (auto simp: arr_rep)

lemma array_new_inv: "arr_inv cdo_array_new" "arr_items cdo_array_new = []"
  by (simp_all add: arr_inv_def arr_items_def cdo_array_new_def cdo_obj_alloc_def)

lemma array_grow_spec:
  assumes "arr_inv arr" "length (ob_items arr) \<le> 2 ^ 30"
  shows "\<exists>items. array_grow arr = Some (arr\<lparr>ob_items := items\<rparr>) \<and> length items \<le> 2 ^ 31 \<and>
           (\<exists>c rest. items = map Some (arr_items arr) @ c # rest)"
proof -
  obtain rest where r: "ob_items arr = map Some (arr_items arr) @ rest" "ob_items_len arr = length (arr_items arr)"
    using assms(1) by (rule arr_repE)
  let ?n = "length (ob_items arr)" and ?new = "if length (ob_items arr) = 0 then 8 else length (ob_items arr) * 2"
  show ?thesis
  proof (cases "rest")
    case Nil
    then have full: "ob_items_len arr \<ge> ?n" using r by simp
    have "array_grow arr = Some (arr\<lparr>ob_items := ob_items arr @ replicate (?new - ?n) None\<rparr>)"
      using full assms(2) by (simp add: array_grow_def Let_def)
    moreover have "?new - ?n > 0" by simp
    then obtain m where "?new - ?n = Suc m" by (metis Suc_pred)
    moreover have "length (ob_items arr @ replicate (?new - ?n) None) \<le> 2 ^ 31"
      using assms(2) by (cases "?n = 0") simp_all
    ultimately show ?thesis using r Nil
      by (intro exI [of _ "ob_items arr @ replicate (?new - ?n) None"]) auto
  next
    case (Cons c rs)
    then have "array_grow arr = Some arr" using r by (simp add: array_grow_def)
    then show ?thesis using r Cons assms by (intro exI [of _ "ob_items arr"]) (auto simp: arr_inv_def)
  qed
qed

lemma push_spec:
  assumes inv: "arr_inv arr" and cap: "length (ob_items arr) \<le> 2 ^ 30"
    and cover: "refs_cover H (v # arr_items arr)"
  shows "\<exists>H' arr'. cdo_array_push H arr v = Some (H', arr', \<not> ob_readonly arr) \<and> arr_inv arr' \<and>
           arr_items arr' = (if ob_readonly arr then arr_items arr else arr_items arr @ [v]) \<and>
           balanced H (arr_items arr) H' (arr_items arr')"
proof (cases "ob_readonly arr")
  case True
  then show ?thesis using inv cover balanced_refl
    by (auto simp: cdo_array_push_def arr_inv_def refs_cover_def)
next
  case False
  obtain rest0 where k: "ob_kind arr = OBJ_ARRAY" "ob_items_len arr = length (arr_items arr)"
    using inv by (rule arr_repE)
  obtain items c rest where g: "array_grow arr = Some (arr\<lparr>ob_items := items\<rparr>)" "length items \<le> 2 ^ 31"
      "items = map Some (arr_items arr) @ c # rest"
    using array_grow_spec [OF inv cap] by blast
  obtain H' where H': "cdo_value_copy H v = Some H'" "balanced H (arr_items arr) H' (arr_items arr @ [v])"
    using copy_balanced [OF cover] by blast
  let ?arr = "arr\<lparr>ob_items := items[length (arr_items arr) := Some v], ob_items_len := Suc (length (arr_items arr))\<rparr>"
  have "length (arr_items arr) < 2 ^ 31" using g(2,3) by simp
  then have "cdo_array_push H arr v = Some (H', ?arr, True)"
    using False k g(1,3) H'(1) by (simp add: cdo_array_push_def)
  moreover have "arr_inv ?arr" "arr_items ?arr = arr_items arr @ [v]"
    using k g(2,3) by (auto intro!: arr_repI [of _ "arr_items arr @ [v]" rest] simp: list_update_append)
  ultimately show ?thesis using False H'(2) by auto
qed

lemma get_idx_spec:
  "arr_inv arr \<Longrightarrow> cdo_array_rawget_idx arr i = Some (if i < length (arr_items arr) then Some (arr_items arr ! i) else None)"
  by (elim arr_repE) (auto simp: cdo_array_rawget_idx_def nth_append)

section \<open>Insertion and removal\<close>

lemma shift_right_spec:
  "idx \<le> length as \<Longrightarrow> shift_right (as @ c # rest) idx (length as) =
     Some (take idx as @ (if idx < length as then as ! idx else c) # drop idx as @ rest)"
proof (induction as arbitrary: c rest rule: rev_induct)
  case (snoc x as)
  show ?case
  proof (cases "idx \<le> length as")
    case True
    have "shift_right ((as @ [x]) @ c # rest) idx (length (as @ [x])) = shift_right (as @ x # x # rest) idx (length as)"
      using True by (simp add: nth_append list_update_append)
    then show ?thesis using snoc.IH [OF True, of x "x # rest"] True by (auto simp: nth_append)
  next
    case False
    then have "idx = Suc (length as)" using snoc.prems by simp
    then show ?thesis by simp
  qed
qed simp

lemma shift_left_spec:
  "shift_left (as @ x # bs @ rest) (length as) (length bs) = Some (as @ bs @ last (x # bs) # rest)"
proof (induction bs arbitrary: as x)
  case (Cons b bs)
  have "shift_left (as @ x # (b # bs) @ rest) (length as) (length (b # bs)) =
      shift_left ((as @ [b]) @ b # bs @ rest) (length (as @ [b])) (length bs)"
    by (simp add: nth_append list_update_append)
  then show ?case using Cons.IH [of "as @ [b]" b] by simp
qed simp

definition insert_at :: "nat \<Rightarrow> 'a \<Rightarrow> 'a list \<Rightarrow> 'a list" where
  "insert_at i x xs = take i xs @ x # drop i xs"

definition remove_at :: "nat \<Rightarrow> 'a list \<Rightarrow> 'a list" where
  "remove_at i xs = take i xs @ drop (Suc i) xs"

lemma insert_spec:
  assumes inv: "arr_inv arr" and cap: "length (ob_items arr) \<le> 2 ^ 30"
    and cover: "refs_cover H (v # arr_items arr)"
  shows "\<exists>H' arr'. cdo_array_insert H arr i v = Some (H', arr', \<not> ob_readonly arr) \<and> arr_inv arr' \<and>
           arr_items arr' = (if ob_readonly arr then arr_items arr
                             else insert_at (min i (length (arr_items arr))) v (arr_items arr)) \<and>
           balanced H (arr_items arr) H' (arr_items arr')"
proof (cases "ob_readonly arr")
  case True
  then show ?thesis using inv cover balanced_refl
    by (auto simp: cdo_array_insert_def arr_inv_def refs_cover_def)
next
  case False
  let ?xs = "arr_items arr" and ?i = "min i (length (arr_items arr))"
  obtain rest0 where k: "ob_kind arr = OBJ_ARRAY" "ob_items_len arr = length ?xs"
    using inv by (rule arr_repE)
  obtain items c rest where g: "array_grow arr = Some (arr\<lparr>ob_items := items\<rparr>)" "length items \<le> 2 ^ 31"
      "items = map Some ?xs @ c # rest"
    using array_grow_spec [OF inv cap] by blast
  obtain H' where H': "cdo_value_copy H v = Some H'" "balanced H ?xs H' (?xs @ [v])"
    using copy_balanced [OF cover] by blast
  have bal: "balanced H ?xs H' (insert_at ?i v ?xs)"
  proof -
    have "owned cdo_held (insert_at ?i v ?xs) s = owned cdo_held (?xs @ [v]) s" for s
      using owned_take_drop [of cdo_held ?i ?xs s] by (simp add: insert_at_def)
    then show ?thesis using H'(2) by (simp add: balanced_def)
  qed
  define items1 where "items1 = map Some (take ?i ?xs) @ (if ?i < length ?xs then Some (?xs ! ?i) else c) # map Some (drop ?i ?xs) @ rest"
  have sr: "shift_right items ?i (length ?xs) = Some items1"
    using shift_right_spec [of ?i "map Some ?xs" c rest] by (simp add: g(3) items1_def take_map drop_map)
  have ii: "(if i > length ?xs then length ?xs else i) = ?i" by simp
  let ?arr = "arr\<lparr>ob_items := items1[?i := Some v], ob_items_len := Suc (length ?xs)\<rparr>"
  have len1: "length items1 = length items" by (simp add: items1_def g(3))
  have upd: "items1[?i := Some v] = map Some (insert_at ?i v ?xs) @ rest"
    by (simp add: items1_def insert_at_def list_update_append)
  have "length ?xs < 2 ^ 31" "?i < length items1" using g(2,3) len1 by auto
  then have "cdo_array_insert H arr i v = Some (H', ?arr, True)"
    using False k g(1) sr H'(1) unfolding ii [symmetric]
    by (cases "i > length ?xs") (simp_all add: cdo_array_insert_def Let_def)
  moreover have "length (insert_at ?i v ?xs) = Suc (length ?xs)" by (simp add: insert_at_def)
  then have "arr_inv ?arr" "arr_items ?arr = insert_at ?i v ?xs"
    using k g(2) len1 upd arr_repI [of ?arr "insert_at ?i v ?xs" rest] by (simp_all add: g(3))
  ultimately show ?thesis using False bal by auto
qed

lemma remove_spec:
  fixes i :: nat and out :: bool
  assumes inv: "arr_inv arr" and cover: "refs_cover H (arr_items arr)"
  defines "hit \<equiv> \<not> ob_readonly arr \<and> i < length (arr_items arr)"
  shows "\<exists>H' arr'. cdo_array_remove H arr i out =
             Some (H', arr', if hit \<and> out then Some (arr_items arr ! i) else None, hit) \<and> arr_inv arr' \<and>
           arr_items arr' = (if hit then remove_at i (arr_items arr) else arr_items arr) \<and>
           balanced H (arr_items arr) H' (arr_items arr' @ (if hit \<and> out then [arr_items arr ! i] else []))"
proof (cases hit)
  case False
  then show ?thesis using inv cover balanced_refl
    by (auto simp: cdo_array_remove_def arr_rep refs_cover_def hit_def)
next
  case True
  let ?xs = "arr_items arr"
  obtain rest where k: "ob_kind arr = OBJ_ARRAY" "length (ob_items arr) \<le> 2 ^ 31"
      "ob_items arr = map Some ?xs @ rest" "ob_items_len arr = length ?xs"
    using inv by (rule arr_repE)
  have h: "\<not> ob_readonly arr" "i < length ?xs" using True by (auto simp: hit_def)
  define ys zs where "ys = take i ?xs" and "zs = drop (Suc i) ?xs"
  have xs: "?xs = ys @ ?xs ! i # zs" "length ys = i" using h(2) id_take_nth_drop [of i ?xs] by (auto simp: ys_def zs_def)
  let ?v = "?xs ! i"
  have rm: "remove_at i ?xs = ys @ zs" by (simp add: remove_at_def ys_def zs_def)
  obtain H1 where H1: "(if out then Some H else cdo_value_release H ?v) = Some H1"
      "balanced H ?xs H1 (ys @ zs @ (if out then [?v] else []))"
  proof (cases out)
    case True
    have "owned cdo_held ?xs s = owned cdo_held (ys @ zs @ [?v]) s" for s
      by (subst xs(1)) simp
    then show thesis using that [of H] True cover by (simp add: balanced_def refs_cover_def)
  next
    case False
    then show thesis using that remove_balanced [of H ys ?v zs] cover xs(1) by auto
  qed
  let ?tail = "last (map Some (?v # zs)) # rest"
  have "length ?xs - 1 - i = length (map Some zs)" using xs by (metis add_diff_cancel_left' diff_Suc_1
      add_Suc_right length_Cons length_append length_map)
  then have sl: "shift_left (ob_items arr) i (length ?xs - 1 - i) = Some (map Some (ys @ zs) @ ?tail)"
    using shift_left_spec [of "map Some ys" "Some ?v" "map Some zs" rest] xs k(3)
    by (metis (no_types, lifting) append.assoc append_Cons length_map list.simps(9) map_append)
  let ?arr = "arr\<lparr>ob_items := map Some (ys @ zs) @ ?tail, ob_items_len := length ?xs - 1\<rparr>"
  have "cdo_array_remove H arr i out = Some (H1, ?arr, if out then Some ?v else None, True)"
    using h k sl H1(1) by (simp add: cdo_array_remove_def nth_append)
  moreover have len: "length ?xs - 1 = length (ys @ zs)" using xs by (metis length_append length_Cons add_Suc_right diff_Suc_1)
  have "length (map Some (ys @ zs) @ ?tail) = length (ob_items arr)"
    using len h(2) k(3) by simp
  then have "arr_inv ?arr" "arr_items ?arr = ys @ zs"
    using k arr_repI [of ?arr "ys @ zs" ?tail] len by simp_all
  ultimately show ?thesis using True H1(2) rm by auto
qed

section \<open>Indexed assignment\<close>

lemma array_cap_for_spec:
  assumes "idx < 2 ^ 30" "0 < cap" "cap \<le> 2 ^ 31" "idx < cap * 2 ^ n"
  shows "\<exists>c. array_cap_for (Suc n) idx cap = Some c \<and> idx < c \<and> cap \<le> c \<and> c \<le> max cap (2 * idx)"
  using assms(2-4)
proof (induction n arbitrary: cap)
  case (Suc n)
  show ?case
  proof (cases "cap \<le> idx")
    case True
    then have c: "u32 (cap * 2) = cap * 2" "cap * 2 \<le> 2 * idx" "cap * 2 \<le> 2 ^ 31" using assms(1) by simp_all
    moreover have "idx < (cap * 2) * 2 ^ n" using Suc.prems(3) by simp
    ultimately obtain c where "array_cap_for (Suc n) idx (cap * 2) = Some c" "idx < c" "cap * 2 \<le> c" "c \<le> max (cap * 2) (2 * idx)"
      using Suc.IH [of "cap * 2"] Suc.prems(1) by auto
    then show ?thesis using True c by (simp del: array_cap_for.simps(2) add: array_cap_for.simps(2) [of "Suc n"])
  qed simp
qed simp

lemma rawset_idx_spec:
  assumes inv: "arr_inv arr" and cover: "refs_cover H (v # arr_items arr)" and rw: "\<not> ob_readonly arr"
    and idx: "i < length (arr_items arr) \<or> length (ob_items arr) \<le> i \<and> i < 2 ^ 30"
  shows "\<exists>H' arr'. cdo_array_rawset_idx H arr i v = Some (H', arr', True) \<and> arr_inv arr' \<and>
           arr_items arr' = (arr_items arr @ replicate (Suc i - length (arr_items arr)) CNull)[i := v] \<and>
           balanced H (arr_items arr) H' (arr_items arr')"
proof -
  let ?xs = "arr_items arr"
  define ys where "ys = ?xs @ replicate (Suc i - length ?xs) CNull"
  obtain rest where k: "ob_kind arr = OBJ_ARRAY" "length (ob_items arr) \<le> 2 ^ 31"
      "ob_items arr = map Some ?xs @ rest" "ob_items_len arr = length ?xs"
    using inv by (rule arr_repE)
  have iy: "i < length ys" by (simp add: ys_def)
  have own: "owned cdo_held ys s = owned cdo_held ?xs s" for s by (simp add: ys_def owned_def cdo_held_def)
  then have cov: "refs_cover H (v # ys)" using cover by (simp add: refs_cover_def)
  obtain H1 H2 where H: "cdo_value_release H (ys ! i) = Some H1" "cdo_value_copy H1 v = Some H2"
      "balanced H ys H2 (ys[i := v])"
    using replace_balanced [OF cov iy] by blast
  have bal: "balanced H ?xs H2 (ys[i := v])" using H(3) own by (simp add: balanced_def)
  have "\<exists>rest'. cdo_array_rawset_idx H arr i v =
      Some (H2, arr\<lparr>ob_items := map Some (ys[i := v]) @ rest', ob_items_len := length ys\<rparr>, True) \<and>
      length ys + length rest' \<le> 2 ^ 31"
  proof (cases "i < length ?xs")
    case True
    then have "ys = ?xs" by (simp add: ys_def)
    then show ?thesis using True rw k H(1,2)
      by (intro exI [of _ rest]) (auto simp: cdo_array_rawset_idx_def array_fill_def nth_append list_update_append map_update)
  next
    case False
    then have i: "length (ob_items arr) \<le> i" "i < 2 ^ 30" using idx by auto
    let ?cap = "if length (ob_items arr) = 0 then 8 else length (ob_items arr)"
    obtain c where c: "array_cap_for 33 i ?cap = Some c" "i < c" "?cap \<le> c" "c \<le> max ?cap (2 * i)"
    proof -
      have "1 \<le> ?cap" by (simp add: Suc_le_eq)
      then have "1 * 2 ^ 32 \<le> ?cap * 2 ^ 32" by (rule mult_le_mono1)
      moreover have "(2::nat) ^ 30 < 1 * 2 ^ 32" by simp
      ultimately have "i < ?cap * 2 ^ 32" using i(2) by (meson less_le_trans less_trans)
      moreover have "0 < ?cap" "?cap \<le> 2 ^ 31" using i by simp_all
      ultimately show thesis using that array_cap_for_spec [OF i(2), of ?cap 32] by auto
    qed
    have split: "replicate (c - length (ob_items arr)) (Some CNull) =
        replicate (i - length (ob_items arr)) (Some CNull) @ replicate (c - i) (Some CNull)"
      using i(1) c(2) by (simp flip: replicate_add)
    let ?items = "ob_items arr @ replicate (c - length (ob_items arr)) (Some CNull)"
    have d: "drop i ?items = replicate (c - i) (Some CNull)" using i(1) by (simp add: split)
    have t: "take (length ?xs) ?items = map Some ?xs" using k(3) by simp
    have "c - i = Suc (c - Suc i)" using c(2) by simp
    then have it: "map Some ?xs @ replicate (i - length ?xs) (Some CNull) @ replicate (c - i) (Some CNull) =
        map Some ys @ replicate (c - Suc i) (Some CNull)"
      using False by (simp add: ys_def Suc_diff_le replicate_append_same [symmetric])
    have len: "length ys = Suc i" using False by (simp add: ys_def)
    have "cdo_array_rawset_idx H arr i v =
        Some (H2, arr\<lparr>ob_items := map Some (ys[i := v]) @ replicate (c - Suc i) (Some CNull), ob_items_len := length ys\<rparr>, True)"
    proof -
      have fill: "array_fill ?items (length ?xs) i = (map Some ys @ replicate (c - Suc i) (Some CNull), Suc i)"
        unfolding array_fill_def t d it using False i(2) by simp
      show ?thesis
        using rw k(1,4) i(1) c(1) H(1,2) iy len fill
        by (simp add: cdo_array_rawset_idx_def nth_append list_update_append map_update)
    qed
    moreover have "length ys + length (replicate (c - Suc i) (Some CNull)) \<le> 2 ^ 31"
      using len c(2,4) i k(2) by (auto split: if_splits)
    ultimately show ?thesis by blast
  qed
  then obtain rest' where r: "cdo_array_rawset_idx H arr i v =
      Some (H2, arr\<lparr>ob_items := map Some (ys[i := v]) @ rest', ob_items_len := length ys\<rparr>, True)"
      "length ys + length rest' \<le> 2 ^ 31" by blast
  let ?arr = "arr\<lparr>ob_items := map Some (ys[i := v]) @ rest', ob_items_len := length ys\<rparr>"
  have "arr_inv ?arr" "arr_items ?arr = ys[i := v]"
    using arr_repI [of ?arr "ys[i := v]" rest'] k(1) r(2) by simp_all
  then show ?thesis using r(1) bal by (auto simp: ys_def)
qed

text \<open>Between the length and the capacity the old contents of the cell are released: uninitialised
  memory faults, and the leftover of a removal is released a second time.\<close>

lemma rawset_gap_fault:
  assumes "arr_inv arr" "\<not> ob_readonly arr" "length (arr_items arr) \<le> i" "i < length (ob_items arr)"
    "ob_items arr ! i = None"
  shows "cdo_array_rawset_idx H arr i v = None"
proof -
  have "ob_items_len arr = length (arr_items arr)" "ob_kind arr = OBJ_ARRAY" using assms(1) by (auto simp: arr_rep)
  then show ?thesis using assms by (simp add: cdo_array_rawset_idx_def array_fill_def aget_def nth_append min_absorb2)
qed

lemma first_push:
  "cdo_array_push H cdo_array_new v =
     map_option (\<lambda>H'. (H', cdo_array_new\<lparr>ob_items := Some v # replicate 7 None, ob_items_len := 1\<rparr>, True)) (cdo_value_copy H v)"
proof -
  have r: "replicate 8 (None :: cdo_value option) = None # replicate 7 None"
    by (simp flip: replicate_Suc)
  show ?thesis
    by (simp add: cdo_array_push_def array_grow_def cdo_array_new_def cdo_obj_alloc_def r map_option_bind map_conv_bind_option
        split: Option.bind_split)
qed

section \<open>Properties\<close>

text \<open>C28. Insertion at an index (clamped to the length), on every branch: a read-only array is unchanged and the call
  returns false; otherwise the items are those before with the value inserted at its place, also when the block has
  to grow, and one reference to the value is taken.\<close>

theorem array_insert_refines_list:
  assumes "arr_inv arr" "length (ob_items arr) \<le> 2 ^ 30" "refs_cover H (v # arr_items arr)"
  shows "\<exists>H' arr'. cdo_array_insert H arr i v = Some (H', arr', \<not> ob_readonly arr) \<and> arr_inv arr' \<and>
           arr_items arr' = (if ob_readonly arr then arr_items arr
                             else insert_at (min i (length (arr_items arr))) v (arr_items arr)) \<and>
           balanced H (arr_items arr) H' (arr_items arr')"
  by (rule insert_spec [OF assms])

lemma wit_arr_cover: "refs_cover wit_cdo_heap (CString 16 # arr_items cdo_array_new)"
  using wit_cover by (simp add: array_new_inv wit_new_inv field_values_def)

theorem array_insert_refines_list_witness:
  "\<exists>H' arr'. cdo_array_insert wit_cdo_heap cdo_array_new 5 (CString 16) = Some (H', arr', True) \<and> arr_items arr' = [CString 16]"
proof -
  have "length (ob_items cdo_array_new) \<le> 2 ^ 30" "\<not> ob_readonly cdo_array_new"
    by (simp_all add: cdo_array_new_def cdo_obj_alloc_def)
  then show ?thesis
    using array_insert_refines_list [OF array_new_inv(1) _ wit_arr_cover, of 5] by (auto simp: array_new_inv insert_at_def)
qed

text \<open>Removing what was pushed: after a push the last item is the value, and removing that index with an \<open>out\<close>
  pointer hands the value with its reference to the caller and leaves the items as before the push.\<close>

theorem array_push_remove_roundtrip:
  assumes "arr_inv arr" "length (ob_items arr) \<le> 2 ^ 30" "refs_cover H (v # arr_items arr)" "\<not> ob_readonly arr"
    "\<forall>s. str_refs H s + 1 < u32_max"
  shows "\<exists>H1 arr1 H2 arr2. cdo_array_push H arr v = Some (H1, arr1, True) \<and> arr_items arr1 = arr_items arr @ [v] \<and>
           cdo_array_remove H1 arr1 (length (arr_items arr)) True = Some (H2, arr2, Some v, True) \<and>
           arr_items arr2 = arr_items arr \<and> arr_inv arr2 \<and> H2 = H1"
proof -
  obtain H1 arr1 where p: "cdo_array_push H arr v = Some (H1, arr1, True)" "arr_inv arr1"
      "arr_items arr1 = arr_items arr @ [v]" "balanced H (arr_items arr) H1 (arr_items arr @ [v])"
    using push_spec [OF assms(1-3)] assms(4) by auto
  have ro: "\<not> ob_readonly arr1"
    using p(1) assms(4) by (auto simp: cdo_array_push_def array_grow_def Let_def fault_simps split: if_splits)
  have cover: "refs_cover H1 (arr_items arr1)"
  proof -
    have "owned cdo_held (arr_items arr @ [v]) s \<le> str_refs H1 s \<and> str_refs H1 s < u32_max" for s
    proof -
      have "str_refs H1 s + owned cdo_held (arr_items arr) s = str_refs H s + owned cdo_held (arr_items arr @ [v]) s"
        using p(4) by (simp add: balanced_def)
      moreover have "owned cdo_held (v # arr_items arr) s \<le> str_refs H s" using assms(3) by (simp add: refs_cover_def)
      moreover have "owned cdo_held [v] s \<le> 1" by simp
      ultimately show ?thesis using assms(5) [rule_format, of s] by (simp add: owned_simps(3))
    qed
    then show ?thesis using p(3,4) by (simp add: refs_cover_def balanced_def)
  qed
  obtain H2 arr2 where r: "cdo_array_remove H1 arr1 (length (arr_items arr)) True = Some (H2, arr2, Some v, True)"
      "arr_inv arr2" "arr_items arr2 = remove_at (length (arr_items arr)) (arr_items arr1)"
    using remove_spec [OF p(2) cover, of "length (arr_items arr)" True] ro p(3) by auto
  moreover have "H2 = H1"
    using r(1) ro p(3) arr_repE [OF p(2)] by (auto simp: cdo_array_remove_def fault_simps split: if_splits)
  ultimately show ?thesis using p by (auto simp: remove_at_def)
qed

theorem array_push_remove_roundtrip_witness:
  "\<exists>H1 arr1 H2 arr2. cdo_array_push wit_cdo_heap cdo_array_new (CString 16) = Some (H1, arr1, True) \<and>
     cdo_array_remove H1 arr1 0 True = Some (H2, arr2, Some (CString 16), True) \<and> arr_items arr2 = []"
proof -
  have c: "length (ob_items cdo_array_new) \<le> 2 ^ 30" "\<not> ob_readonly cdo_array_new"
    by (simp_all add: cdo_array_new_def cdo_obj_alloc_def)
  have "\<forall>s. str_refs wit_cdo_heap s + 1 < u32_max" by (simp add: str_refs_def wit_cdo_heap_def)
  from array_push_remove_roundtrip [OF array_new_inv(1) c(1) wit_arr_cover c(2) this]
  show ?thesis by (auto simp: array_new_inv)
qed

text \<open>C29. Assigning one past the end of an array that still has spare capacity is not safe: the code releases the old
  contents of that cell, which is uninitialised memory after a push.\<close>

theorem array_append_by_index_faults:
  assumes "refs_cover H (v # arr_items cdo_array_new)"
  shows "\<exists>H1 arr1. cdo_array_push H cdo_array_new v = Some (H1, arr1, True) \<and> arr_inv arr1 \<and>
           length (arr_items arr1) = 1 \<and> cdo_array_rawset_idx H1 arr1 1 w = None"
proof -
  have c: "length (ob_items cdo_array_new) \<le> 2 ^ 30" "\<not> ob_readonly cdo_array_new"
    by (simp_all add: cdo_array_new_def cdo_obj_alloc_def)
  obtain H1 arr1 where p: "cdo_array_push H cdo_array_new v = Some (H1, arr1, True)" "arr_inv arr1"
      "arr_items arr1 = [v]"
    using push_spec [OF array_new_inv(1) c(1) assms] c(2) by (auto simp: array_new_inv)
  have "ob_items arr1 = Some v # replicate 7 None" "\<not> ob_readonly arr1"
    using p(1) c(2) unfolding first_push by (auto simp: fault_simps)
  then have "cdo_array_rawset_idx H1 arr1 1 w = None"
    using p(2,3) by (intro rawset_gap_fault) auto
  then show ?thesis using p by auto
qed

theorem array_append_by_index_faults_witness:
  "\<exists>H1 arr1. cdo_array_push wit_cdo_heap cdo_array_new (CString 16) = Some (H1, arr1, True) \<and>
     cdo_array_rawset_idx H1 arr1 1 CNull = None"
  using array_append_by_index_faults [OF wit_arr_cover, of CNull] by auto

end
