(* ===== verification/Globals.thy ===== *)
theory Globals
  imports Core_Value Open_Addressing Map_Store
begin

text \<open>
  Global variables of the virtual machine (\<open>source/vm/vm.c\<close>): an open addressing table keyed by name,
  with constants that reject assignment. Capacity is the length of the entry list; a key is the
  text of the private copy the table makes of the name.
\<close>

section \<open>State and operations\<close>

record global_entry =
  ge_key :: "string option"
  ge_value :: cando_value
  ge_const :: bool

record global_env =
  gl_entries :: "global_entry list"
  gl_count :: nat

abbreviation gl_cap :: "global_env \<Rightarrow> nat" where
  "gl_cap g \<equiv> length (gl_entries g)"

definition empty_entry :: global_entry where
  "empty_entry = \<lparr>ge_key = None, ge_value = VNull, ge_const = False\<rparr>"

definition vm_global_hash :: "string \<Rightarrow> nat" where
  "vm_global_hash str = unat (fnv1a str)"

definition global_home :: "nat \<Rightarrow> string \<Rightarrow> nat" where
  "global_home cap name = vm_global_hash name AND (cap - 1)"

text \<open>The probing loop: it stops at the entry of the name or at a free one; on a table with neither
  it does not return (\<open>None\<close>).\<close>

definition global_slot :: "global_entry list \<Rightarrow> string \<Rightarrow> nat option" where
  "global_slot es name =
     probe_first (\<lambda>i. ge_key (es ! i) = None \<or> ge_key (es ! i) = Some name) (length es) (length es) (global_home (length es) name)"

definition free_entry_slot :: "global_entry list \<Rightarrow> string \<Rightarrow> nat option" where
  "free_entry_slot es name =
     probe_first (\<lambda>i. ge_key (es ! i) = None) (length es) (length es) (global_home (length es) name)"

fun resize_loop :: "global_entry list \<Rightarrow> global_entry list \<Rightarrow> nat \<Rightarrow> (global_entry list \<times> nat) option" where
  "resize_loop [] es n = Some (es, n)"
| "resize_loop (e # old) es n =
     (case ge_key e of
        None \<Rightarrow> resize_loop old es n
      | Some k \<Rightarrow> do {
          i \<leftarrow> free_entry_slot es k;
          resize_loop old (es[i := e]) (u32 (n + 1))
        })"

definition vm_globals_resize :: "global_env \<Rightarrow> nat \<Rightarrow> global_env option" where
  "vm_globals_resize g new_cap =
     do {
       (es, n) \<leftarrow> resize_loop (gl_entries g) (replicate new_cap empty_entry) 0;
       Some \<lparr>gl_entries = es, gl_count = n\<rparr>
     }"

definition cando_vm_set_global ::
  "string_heap \<Rightarrow> global_env \<Rightarrow> string \<Rightarrow> cando_value \<Rightarrow> bool \<Rightarrow> (string_heap \<times> global_env \<times> bool) option" where
  "cando_vm_set_global H g name val is_const =
     do {
       let name = c_text name;
       idx \<leftarrow> global_slot (gl_entries g) name;
       e \<leftarrow> aget (gl_entries g) idx;
       if ge_key e \<noteq> None then
         (if ge_const e then Some (H, g, False)
          else do {
            H \<leftarrow> cando_value_release H (ge_value e);
            Some (H, g\<lparr>gl_entries := (gl_entries g)[idx := e\<lparr>ge_value := val, ge_const := is_const\<rparr>]\<rparr>, True)
          })
       else do {
         (g, idx) \<leftarrow>
           (if u32 (gl_count g + 1) > u32 (gl_cap g * 3) div 4 then do {
              g \<leftarrow> vm_globals_resize g (u32 (gl_cap g * 2));
              idx \<leftarrow> free_entry_slot (gl_entries g) name;
              Some (g, idx)
            } else Some (g, idx));
         es \<leftarrow> aput (gl_entries g) idx \<lparr>ge_key = Some name, ge_value = val, ge_const = is_const\<rparr>;
         Some (H, g\<lparr>gl_entries := es, gl_count := u32 (gl_count g + 1)\<rparr>, True)
       }
     }"

definition vm_get_global_str :: "global_env \<Rightarrow> string \<Rightarrow> cando_value option option" where
  "vm_get_global_str g key =
     do {
       idx \<leftarrow> global_slot (gl_entries g) key;
       e \<leftarrow> aget (gl_entries g) idx;
       Some (if ge_key e \<noteq> None then Some (ge_value e) else None)
     }"

definition cando_vm_get_global :: "global_env \<Rightarrow> string \<Rightarrow> cando_value option option" where
  "cando_vm_get_global g name =
     do {
       let name = c_text name;
       idx \<leftarrow> global_slot (gl_entries g) name;
       e \<leftarrow> aget (gl_entries g) idx;
       Some (if ge_key e \<noteq> None then Some (ge_value e) else None)
     }"

definition vm_set_global_str ::
  "string_heap \<Rightarrow> global_env \<Rightarrow> string \<Rightarrow> cando_value \<Rightarrow> bool \<Rightarrow> (string_heap \<times> global_env \<times> bool) option" where
  "vm_set_global_str H g key val is_const = cando_vm_set_global H g key val is_const"

section \<open>Invariant and abstraction\<close>

definition used_idx :: "global_entry list \<Rightarrow> nat set" where
  "used_idx es = {i. i < length es \<and> ge_key (es ! i) \<noteq> None}"

definition entry_used :: "global_entry list \<Rightarrow> nat \<Rightarrow> bool" where
  "entry_used es i \<longleftrightarrow> ge_key (es ! i) \<noteq> None"

definition entries_wf :: "global_entry list \<Rightarrow> bool" where
  "entries_wf es \<longleftrightarrow> is_pow2 (length es) \<and> length es \<le> 2 ^ 28 \<and> card (used_idx es) < length es \<and>
     inj_on (\<lambda>i. ge_key (es ! i)) (used_idx es) \<and>
     (\<forall>i \<in> used_idx es. probe_ok (length es) (entry_used es) (global_home (length es) (the (ge_key (es ! i)))) i)"

definition globals_inv :: "global_env \<Rightarrow> bool" where
  "globals_inv g \<longleftrightarrow> entries_wf (gl_entries g) \<and> gl_count g = card (used_idx (gl_entries g)) \<and>
     4 * gl_count g \<le> 3 * gl_cap g \<and> 2 \<le> gl_cap g"

definition entries_map :: "global_entry list \<Rightarrow> string \<rightharpoonup> (cando_value \<times> bool)" where
  "entries_map es k = map_option (\<lambda>e. (ge_value e, ge_const e)) (find (\<lambda>e. ge_key e = Some k) es)"

definition globals_map :: "global_env \<Rightarrow> string \<rightharpoonup> (cando_value \<times> bool)" where
  "globals_map g = entries_map (gl_entries g)"

lemma finite_used [simp]: "finite (used_idx es)"
  by (simp add: used_idx_def)

lemma global_home_less: "is_pow2 cap \<Longrightarrow> global_home cap k < cap"
  by (simp only: global_home_def is_pow2_mask mod_less_divisor is_pow2_pos)

lemma entries_wfD:
  assumes "entries_wf es"
  shows "is_pow2 (length es)" "length es \<le> 2 ^ 28" "card (used_idx es) < length es"
    "i \<in> used_idx es \<Longrightarrow> j \<in> used_idx es \<Longrightarrow> ge_key (es ! i) = ge_key (es ! j) \<Longrightarrow> i = j"
    "i \<in> used_idx es \<Longrightarrow> ge_key (es ! i) = Some k \<Longrightarrow> probe_ok (length es) (entry_used es) (global_home (length es) k) i"
proof -
  show "is_pow2 (length es)" "length es \<le> 2 ^ 28" "card (used_idx es) < length es"
    using assms by (simp_all add: entries_wf_def)
  have inj: "inj_on (\<lambda>i. ge_key (es ! i)) (used_idx es)" using assms by (simp add: entries_wf_def)
  show "i \<in> used_idx es \<Longrightarrow> j \<in> used_idx es \<Longrightarrow> ge_key (es ! i) = ge_key (es ! j) \<Longrightarrow> i = j"
    using inj_onD [OF inj] by blast
  have "\<forall>i \<in> used_idx es. probe_ok (length es) (entry_used es) (global_home (length es) (the (ge_key (es ! i)))) i"
    using assms by (simp add: entries_wf_def)
  then show "i \<in> used_idx es \<Longrightarrow> ge_key (es ! i) = Some k \<Longrightarrow>
      probe_ok (length es) (entry_used es) (global_home (length es) k) i"
    by fastforce
qed

lemma entries_map_simps [simp]:
  "entries_map [] k = None"
  "entries_map (e # es) k = (if ge_key e = Some k then Some (ge_value e, ge_const e) else entries_map es k)"
  by (simp_all add: entries_map_def)

lemma entries_map_None: "entries_map es k = None \<longleftrightarrow> (\<forall>i < length es. ge_key (es ! i) \<noteq> Some k)"
  by (simp add: entries_map_def find_None_iff) (metis in_set_conv_nth)

lemma entries_map_Some:
  assumes "entries_wf es" "i < length es" "ge_key (es ! i) = Some k"
  shows "entries_map es k = Some (ge_value (es ! i), ge_const (es ! i))"
proof -
  have "j = i" if "j < length es" "ge_key (es ! j) = Some k" for j
    using that assms(2,3) by (intro entries_wfD(4) [OF assms(1)]) (simp_all add: used_idx_def)
  then have "find (\<lambda>e. ge_key e = Some k) es = Some (es ! i)"
    unfolding find_Some_iff using assms(2,3) by (intro exI [of _ i]) (metis nat_neq_iff less_trans)
  then show ?thesis by (simp add: entries_map_def)
qed

section \<open>Finding\<close>

lemma entries_free: "entries_wf es \<Longrightarrow> \<exists>d < length es. \<not> entry_used es (probe_at (length es) (global_home (length es) k) d)"
proof (rule exists_free)
  assume wf: "entries_wf es"
  have "{i. i < length es \<and> entry_used es i} = used_idx es" by (auto simp: used_idx_def entry_used_def)
  then show "card {i. i < length es \<and> entry_used es i} < length es" using entries_wfD(3) [OF wf] by simp
  show "global_home (length es) k < length es" using entries_wfD(1) [OF wf] by (rule global_home_less)
qed

text \<open>A search ends at the entry of the name, or at a free slot that a later search for the name reaches.\<close>

lemma global_slot_spec:
  assumes wf: "entries_wf es"
  obtains (found) i where "global_slot es k = Some i" "i < length es" "ge_key (es ! i) = Some k"
  | (free) i where "global_slot es k = Some i" "i < length es" "ge_key (es ! i) = None" "entries_map es k = None"
      "probe_ok (length es) (entry_used es) (global_home (length es) k) i"
proof -
  note W = entries_wfD [OF wf]
  let ?at = "probe_at (length es) (global_home (length es) k)"
  let ?P = "\<lambda>i. ge_key (es ! i) = None \<or> ge_key (es ! i) = Some k"
  have ex: "\<exists>d < length es. ?P (?at d)" using entries_free [OF wf, of k] by (auto simp: entry_used_def)
  obtain d where d: "d < length es" "global_slot es k = Some (?at d)" "?P (?at d)" "\<forall>e < d. \<not> ?P (?at e)"
    using probe_first_spec [of "length es" "global_home (length es) k" ?P, OF W(1) global_home_less [OF W(1)] ex]
    by (elim exE conjE) (rule that, simp_all only: global_slot_def)
  have lt: "?at d < length es" using W(1) by simp
  show thesis
  proof (cases "ge_key (es ! ?at d)")
    case None
    have "ge_key (es ! i) \<noteq> Some k" if "i < length es" for i
    proof
      assume ki: "ge_key (es ! i) = Some k"
      then have "probe_ok (length es) (entry_used es) (global_home (length es) k) i"
        using that by (intro W(5)) (simp_all add: used_idx_def)
      then obtain e where "e \<le> d" "?at e = i"
        using probe_ok_before_free [of _ "entry_used es"] None by (metis entry_used_def)
      then show False using ki d(4) None by (metis le_neq_implies_less option.distinct(1))
    qed
    then have "entries_map es k = None" by (simp add: entries_map_None)
    moreover have "probe_ok (length es) (entry_used es) (global_home (length es) k) (?at d)"
      using d(1,4) by (intro probe_okI) (auto simp: entry_used_def)
    ultimately show thesis using free [OF d(2) lt None] by blast
  next
    case (Some k')
    then show thesis using found [OF d(2) lt] d(3) by simp
  qed
qed

text \<open>For a name that is not there both searches end at the same slot.\<close>

lemma free_slot_spec:
  assumes wf: "entries_wf es" and none: "entries_map es k = None"
  shows "free_entry_slot es k = global_slot es k"
proof -
  have "ge_key (es ! i) \<noteq> Some k" if "i < length es" for i using none that by (simp add: entries_map_None)
  then have "probe_first (\<lambda>i. ge_key (es ! i) = None) (length es) n h =
      probe_first (\<lambda>i. ge_key (es ! i) = None \<or> ge_key (es ! i) = Some k) (length es) n h" if "h < length es" for n h
    using that
  proof (induction n arbitrary: h)
    case (Suc n)
    have "(h + 1) AND (length es - 1) < length es"
      using entries_wfD(1) [OF wf] by (simp only: is_pow2_mask mod_less_divisor is_pow2_pos)
    then show ?case using Suc by simp
  qed simp
  then show ?thesis unfolding free_entry_slot_def global_slot_def
    using global_home_less [OF entries_wfD(1) [OF wf]] by blast
qed

section \<open>Inserting and growing\<close>

lemma entries_wf_upd:
  assumes wf: "entries_wf es" and i: "i < length es"
    and key: "ge_key (es ! i) = None \<or> ge_key (es ! i) = Some k" and none: "ge_key (es ! i) = None \<Longrightarrow> entries_map es k = None"
    and reach: "probe_ok (length es) (entry_used es) (global_home (length es) k) i"
    and e: "ge_key e = Some k" and room: "card (insert i (used_idx es)) < length es"
  shows "entries_wf (es[i := e])" "used_idx (es[i := e]) = insert i (used_idx es)"
    "entries_map (es[i := e]) = (entries_map es)(k \<mapsto> (ge_value e, ge_const e))"
proof -
  note W = entries_wfD [OF wf]
  let ?es = "es[i := e]"
  show used: "used_idx ?es = insert i (used_idx es)"
    using i e by (auto simp: used_idx_def nth_list_update)
  have other: "ge_key (es ! j) \<noteq> Some k" if "j < length es" "j \<noteq> i" for j
    using key
  proof
    assume "ge_key (es ! i) = None"
    then show ?thesis using none that(1) by (simp add: entries_map_None)
  next
    assume "ge_key (es ! i) = Some k"
    then show ?thesis using W(4) [of j i] that i by (auto simp: used_idx_def)
  qed
  show wf': "entries_wf ?es" unfolding entries_wf_def length_list_update
  proof (intro conjI ballI)
    show "card (used_idx ?es) < length es" using room used by simp
    show "inj_on (\<lambda>j. ge_key (?es ! j)) (used_idx ?es)"
    proof (rule inj_onI)
      fix x y assume xy: "x \<in> used_idx ?es" "y \<in> used_idx ?es" "ge_key (?es ! x) = ge_key (?es ! y)"
      then have lt: "x < length es" "y < length es" by (auto simp: used_idx_def)
      have "x = i \<longleftrightarrow> y = i" using xy(3) other lt e by (metis nth_list_update_eq nth_list_update_neq)
      then show "x = y" using xy(1,2,3) W(4) [of x y] unfolding used by (cases "x = i") auto
    qed
    fix x assume x: "x \<in> used_idx ?es"
    have mono: "probe_ok (length es) (entry_used es) h j \<Longrightarrow> probe_ok (length es) (entry_used ?es) h j" for h j
      by (erule probe_ok_mono) (use e i in \<open>auto simp: entry_used_def nth_list_update\<close>)
    show "probe_ok (length es) (entry_used ?es) (global_home (length es) (the (ge_key (?es ! x)))) x"
    proof (cases "x = i")
      case True
      then show ?thesis using mono [OF reach] e i by simp
    next
      case False
      then obtain k' where "x \<in> used_idx es" "ge_key (es ! x) = Some k'" using x used by (auto simp: used_idx_def)
      then show ?thesis using mono [OF W(5)] False by simp
    qed
  qed (use W in auto)
  show "entries_map ?es = (entries_map es)(k \<mapsto> (ge_value e, ge_const e))"
  proof
    fix k'
    show "entries_map ?es k' = ((entries_map es)(k \<mapsto> (ge_value e, ge_const e))) k'"
    proof (cases "\<exists>j < length es. j \<noteq> i \<and> ge_key (es ! j) = Some k'")
      case True
      then obtain j where j: "j < length es" "j \<noteq> i" "ge_key (es ! j) = Some k'" by blast
      then show ?thesis using entries_map_Some [OF wf j(1,3)] entries_map_Some [OF wf', of j k'] other by auto
    next
      case False
      show ?thesis
      proof (cases "k' = k")
        case True
        then show ?thesis using entries_map_Some [OF wf', of i k] i e by simp
      next
        case nk: False
        then have "ge_key (?es ! j) \<noteq> Some k'" "ge_key (es ! j) \<noteq> Some k'" if "j < length es" for j
          using False that key e by (cases "j = i"; auto)+
        then have "entries_map ?es k' = None" "entries_map es k' = None" by (simp_all add: entries_map_None)
        then show ?thesis using nk by simp
      qed
    qed
  qed
qed

lemma entries_reach:
  assumes "entries_wf es" "i < length es" "ge_key (es ! i) = Some k"
  shows "probe_ok (length es) (entry_used es) (global_home (length es) k) i"
  using assms by (intro entries_wfD(5)) (auto simp: used_idx_def)

lemma replicate_empty_wf:
  assumes "is_pow2 cap" "cap \<le> 2 ^ 28"
  shows "entries_wf (replicate cap empty_entry)" "used_idx (replicate cap empty_entry) = {}"
    "entries_map (replicate cap empty_entry) k = None"
proof -
  show u: "used_idx (replicate cap empty_entry) = {}" by (auto simp: used_idx_def empty_entry_def)
  show "entries_wf (replicate cap empty_entry)" using assms is_pow2_pos [OF assms(1)] by (simp add: entries_wf_def u)
  show "entries_map (replicate cap empty_entry) k = None" by (simp add: entries_map_None empty_entry_def)
qed

lemma used_idx_Cons: "card (used_idx (e # es)) = (if ge_key e = None then 0 else 1) + card (used_idx es)"
proof -
  have "i \<in> used_idx (e # es) \<longleftrightarrow> i \<in> (if ge_key e = None then {} else {0}) \<union> Suc ` used_idx es" for i
    by (cases i) (auto simp: used_idx_def)
  then have "used_idx (e # es) = (if ge_key e = None then {} else {0}) \<union> Suc ` used_idx es" by blast
  moreover have "0 \<notin> Suc ` used_idx es" by auto
  ultimately show ?thesis by (simp add: card_image)
qed

lemma resize_loop_spec:
  assumes "entries_wf es" "\<forall>i < length old. \<forall>j < length old. ge_key (old ! i) = ge_key (old ! j) \<and> ge_key (old ! i) \<noteq> None \<longrightarrow> i = j"
    "\<forall>k. entries_map old k \<noteq> None \<longrightarrow> entries_map es k = None" "card (used_idx es) + card (used_idx old) < length es"
    "n = card (used_idx es)"
  shows "\<exists>es'. resize_loop old es n = Some (es', card (used_idx es')) \<and> entries_wf es' \<and> length es' = length es \<and>
           card (used_idx es') = card (used_idx es) + card (used_idx old) \<and> entries_map es' = entries_map es ++ entries_map old"
  using assms
proof (induction old arbitrary: es n)
  case Nil
  then show ?case by (simp add: used_idx_def map_add_def)
next
  case (Cons e old)
  have dist: "\<forall>i < length old. \<forall>j < length old. ge_key (old ! i) = ge_key (old ! j) \<and> ge_key (old ! i) \<noteq> None \<longrightarrow> i = j"
    using Cons.prems(2) by (metis Suc_less_eq length_Cons nat.inject nth_Cons_Suc)
  show ?case
  proof (cases "ge_key e")
    case None
    then have "entries_map (e # old) = entries_map old" "card (used_idx (e # old)) = card (used_idx old)"
      by (auto simp: fun_eq_iff used_idx_Cons)
    then show ?thesis using Cons.IH [OF Cons.prems(1) dist] Cons.prems(3-5) None by simp
  next
    case (Some k)
    have new: "entries_map es k = None" using Cons.prems(3) Some by auto
    obtain i where i: "global_slot es k = Some i" "i < length es" "ge_key (es ! i) = None"
        "probe_ok (length es) (entry_used es) (global_home (length es) k) i"
      using global_slot_spec [OF Cons.prems(1), of k] new by (metis entries_map_None)
    have "i \<notin> used_idx es" using i(3) by (simp add: used_idx_def)
    then have room: "card (insert i (used_idx es)) < length es"
      using Cons.prems(4) by (simp add: used_idx_Cons Some)
    note U = entries_wf_upd [OF Cons.prems(1) i(2) _ new i(4) Some room]
    have free: "free_entry_slot es k = Some i" using free_slot_spec [OF Cons.prems(1) new] i(1) by simp
    have cnt: "card (used_idx (es[i := e])) = card (used_idx es) + 1"
      using U(2) i(3) \<open>i \<notin> used_idx es\<close> by simp
    have k_old: "entries_map old k = None"
      unfolding entries_map_None using Cons.prems(2) Some
      by (metis Suc_less_eq Zero_not_Suc length_Cons nth_Cons_0 nth_Cons_Suc option.distinct(1) zero_less_Suc)
    have "\<exists>es'. resize_loop old (es[i := e]) (u32 (n + 1)) = Some (es', card (used_idx es')) \<and> entries_wf es' \<and>
        length es' = length (es[i := e]) \<and>
        card (used_idx es') = card (used_idx (es[i := e])) + card (used_idx old) \<and>
        entries_map es' = entries_map (es[i := e]) ++ entries_map old"
    proof (rule Cons.IH [OF _ dist])
      show "entries_wf (es[i := e])" using U(1) i(3) by simp
      show "\<forall>k'. entries_map old k' \<noteq> None \<longrightarrow> entries_map (es[i := e]) k' = None"
        using Cons.prems(3) U(3) i(3) k_old by auto
      show "card (used_idx (es[i := e])) + card (used_idx old) < length (es[i := e])"
        using Cons.prems(4) cnt by (simp add: used_idx_Cons Some)
      show "u32 (n + 1) = card (used_idx (es[i := e]))"
        using cnt Cons.prems(4,5) entries_wfD(2) [OF Cons.prems(1)] by simp
    qed
    moreover have "entries_map (es[i := e]) ++ entries_map old = entries_map es ++ entries_map (e # old)"
      using U(3) i(3) k_old Some by (auto simp: fun_eq_iff map_add_def split: option.splits)
    ultimately show ?thesis using Some free cnt by (simp add: used_idx_Cons del: entries_map_simps)
  qed
qed

text \<open>Growing keeps every name, its value and its constness.\<close>

lemma entries_distinct:
  assumes "entries_wf es"
  shows "\<forall>i < length es. \<forall>j < length es. ge_key (es ! i) = ge_key (es ! j) \<and> ge_key (es ! i) \<noteq> None \<longrightarrow> i = j"
  using entries_wfD(4) [OF assms] unfolding used_idx_def by (metis (mono_tags, lifting) mem_Collect_eq)

lemma vm_globals_resize_spec:
  assumes "entries_wf (gl_entries g)" "is_pow2 cap" "cap \<le> 2 ^ 28" "card (used_idx (gl_entries g)) < cap"
  shows "\<exists>g'. vm_globals_resize g cap = Some g' \<and> entries_wf (gl_entries g') \<and> gl_cap g' = cap \<and>
           gl_count g' = card (used_idx (gl_entries g')) \<and>
           card (used_idx (gl_entries g')) = card (used_idx (gl_entries g)) \<and> globals_map g' = globals_map g"
proof -
  note R = replicate_empty_wf [OF assms(2,3)]
  obtain es where "resize_loop (gl_entries g) (replicate cap empty_entry) 0 = Some (es, card (used_idx es))"
      "entries_wf es" "length es = cap" "card (used_idx es) = card (used_idx (gl_entries g))"
      "entries_map es = entries_map (replicate cap empty_entry) ++ entries_map (gl_entries g)"
    using resize_loop_spec [OF R(1) entries_distinct [OF assms(1)], of 0] R(2,3) assms(4)
    by auto
  moreover have "entries_map (replicate cap empty_entry) = Map.empty" using R(3) by auto
  ultimately show ?thesis by (simp add: vm_globals_resize_def globals_map_def)
qed

section \<open>The operations\<close>

lemma globals_invD:
  assumes "globals_inv g"
  shows "entries_wf (gl_entries g)" "gl_count g = card (used_idx (gl_entries g))" "4 * gl_count g \<le> 3 * gl_cap g"
    "2 \<le> gl_cap g" "is_pow2 (gl_cap g)" "gl_cap g \<le> 2 ^ 28"
  using assms entries_wfD(1,2) by (simp_all add: globals_inv_def)

lemma get_slot:
  assumes "globals_inv g"
  shows "\<exists>i. global_slot (gl_entries g) k = Some i \<and> i < gl_cap g \<and>
      globals_map g k = (if ge_key (gl_entries g ! i) = None then None
                         else Some (ge_value (gl_entries g ! i), ge_const (gl_entries g ! i)))"
  using globals_invD(1) [OF assms]
  by (cases rule: global_slot_spec [of _ k]) (auto simp: globals_map_def entries_map_Some [OF globals_invD(1) [OF assms]])

lemma get_global_spec:
  assumes "globals_inv g"
  shows "cando_vm_get_global g name = Some (map_option fst (globals_map g (c_text name)))"
    "vm_get_global_str g key = Some (map_option fst (globals_map g key))"
  using get_slot [OF assms, of "c_text name"] get_slot [OF assms, of key]
  by (auto simp: cando_vm_get_global_def vm_get_global_str_def Let_def)

text \<open>What an assignment may do: refuse on a constant, else bind the name.\<close>

definition global_writable :: "global_env \<Rightarrow> string \<Rightarrow> bool" where
  "global_writable g k \<longleftrightarrow> (\<forall>v. globals_map g k \<noteq> Some (v, True))"

lemma global_cases:
  obtains (const) v where "globals_map g k = Some (v, True)" | (new) "globals_map g k = None"
    | (old) v where "globals_map g k = Some (v, False)"
  by (metis (full_types) option.exhaust surj_pair)

lemma set_global_const:
  assumes "globals_inv g" "\<not> global_writable g (c_text name)"
  shows "cando_vm_set_global H g name val c = Some (H, g, False)"
  using get_slot [OF assms(1), of "c_text name"] assms(2)
  by (auto simp: cando_vm_set_global_def Let_def global_writable_def split: if_splits)

lemma set_global_overwrite:
  assumes "globals_inv g" "globals_map g (c_text name) = Some (v, False)"
    "cando_value_release H v = Some H'"
  shows "\<exists>g'. cando_vm_set_global H g name val c = Some (H', g', True) \<and> globals_inv g' \<and> gl_cap g' = gl_cap g \<and>
           globals_map g' = (globals_map g)(c_text name \<mapsto> (val, c))"
proof -
  note G = globals_invD [OF assms(1)]
  let ?es = "gl_entries g" and ?k = "c_text name"
  show ?thesis using G(1)
  proof (cases rule: global_slot_spec [of _ ?k])
    case (found i)
    have v: "ge_value (?es ! i) = v" "\<not> ge_const (?es ! i)"
      using entries_map_Some [OF G(1) found(2,3)] assms(2) by (simp_all add: globals_map_def)
    let ?e = "(?es ! i)\<lparr>ge_value := val, ge_const := c\<rparr>"
    have ins: "insert i (used_idx ?es) = used_idx ?es" using found by (auto simp: used_idx_def)
    have none: "ge_key (?es ! i) = None \<Longrightarrow> entries_map ?es ?k = None" using found by simp
    have "ge_key ?e = Some ?k" using found by simp
    moreover have "card (insert i (used_idx ?es)) < length ?es" using entries_wfD(3) [OF G(1)] ins by simp
    ultimately have U: "entries_wf (?es[i := ?e])" "used_idx (?es[i := ?e]) = used_idx ?es"
        "entries_map (?es[i := ?e]) = (entries_map ?es)(?k \<mapsto> (val, c))"
      using entries_wf_upd [OF G(1) found(2) disjI2 [OF found(3)] none entries_reach [OF G(1) found(2,3)], of ?e] ins
      by simp_all
    show ?thesis using found v assms(3) U G
      by (simp add: cando_vm_set_global_def Let_def globals_inv_def globals_map_def)
  next
    case (free i)
    then show ?thesis using assms(2) by (simp add: globals_map_def)
  qed
qed

lemma insert_entry:
  assumes "globals_inv g" "globals_map g k = None" "4 * (gl_count g + 1) \<le> 3 * gl_cap g"
    "global_slot (gl_entries g) k = Some i"
  shows "let g' = g\<lparr>gl_entries := (gl_entries g)[i := \<lparr>ge_key = Some k, ge_value = val, ge_const = c\<rparr>],
                    gl_count := u32 (gl_count g + 1)\<rparr>
         in i < gl_cap g \<and> globals_inv g' \<and> gl_cap g' = gl_cap g \<and> globals_map g' = (globals_map g)(k \<mapsto> (val, c))"
proof -
  note G = globals_invD [OF assms(1)]
  let ?es = "gl_entries g" and ?e = "\<lparr>ge_key = Some k, ge_value = val, ge_const = c\<rparr>"
  have none: "entries_map ?es k = None" using assms(2) by (simp add: globals_map_def)
  show ?thesis using G(1)
  proof (cases rule: global_slot_spec [of _ k])
    case (free j)
    then have i: "j = i" using assms(4) by simp
    have nin: "i \<notin> used_idx ?es" using free i by (simp add: used_idx_def)
    have room: "card (insert i (used_idx ?es)) < length ?es" using nin assms(3) G(2,4) by simp
    note U = entries_wf_upd [OF G(1) free(2) [unfolded i] disjI1 [OF free(3) [unfolded i]] none free(5) [unfolded i] _ room, of ?e]
    have "u32 (gl_count g + 1) = gl_count g + 1" using G(6) assms(3) by (intro u32_small) simp
    then show ?thesis using U free(2) i nin G assms(3) by (simp add: Let_def globals_inv_def globals_map_def)
  next
    case (found j)
    then show ?thesis using none entries_map_Some [OF G(1) found(2,3)] by simp
  qed
qed

lemma below_three_quarters: "\<not> cap * 3 div 4 < n \<Longrightarrow> 4 * n \<le> 3 * cap" for cap n :: nat
  by presburger

lemma set_global_insert:
  assumes inv: "globals_inv g" and none: "globals_map g (c_text name) = None" and room: "gl_cap g \<le> 2 ^ 27"
  shows "\<exists>g'. cando_vm_set_global H g name val c = Some (H, g', True) \<and> globals_inv g' \<and> gl_cap g' \<le> 2 * gl_cap g \<and>
           globals_map g' = (globals_map g)(c_text name \<mapsto> (val, c))"
proof -
  note G = globals_invD [OF inv]
  let ?k = "c_text name"
  obtain i where i: "global_slot (gl_entries g) ?k = Some i" "i < gl_cap g" "ge_key (gl_entries g ! i) = None"
    using get_slot [OF inv, of ?k] none by (auto split: if_splits)
  have small: "u32 (gl_count g + 1) = gl_count g + 1" "u32 (gl_cap g * 3) = gl_cap g * 3" "u32 (gl_cap g * 2) = 2 * gl_cap g"
    using G(3) room by (auto intro!: u32_small)
  show ?thesis
  proof (cases "gl_count g + 1 > gl_cap g * 3 div 4")
    case False
    then have "4 * (gl_count g + 1) \<le> 3 * gl_cap g" by (rule below_three_quarters)
    from insert_entry [OF inv none this i(1)] show ?thesis using False i
      by (simp add: cando_vm_set_global_def Let_def small [simplified])
  next
    case True
    obtain g1 where g1: "vm_globals_resize g (2 * gl_cap g) = Some g1" "entries_wf (gl_entries g1)" "gl_cap g1 = 2 * gl_cap g"
        "gl_count g1 = card (used_idx (gl_entries g1))" "card (used_idx (gl_entries g1)) = card (used_idx (gl_entries g))"
        "globals_map g1 = globals_map g"
      using vm_globals_resize_spec [OF G(1) is_pow2_double [OF G(5)]] room G(2,3,4) by auto
    have inv1: "globals_inv g1" using g1 G by (simp add: globals_inv_def)
    have none1: "globals_map g1 ?k = None" using none g1 by simp
    obtain j where j: "global_slot (gl_entries g1) ?k = Some j" using get_slot [OF inv1] by blast
    have free: "free_entry_slot (gl_entries g1) ?k = Some j"
      using free_slot_spec [OF g1(2), of ?k] none1 j by (simp add: globals_map_def)
    have "4 * (gl_count g1 + 1) \<le> 3 * gl_cap g1" using g1 G by simp
    from insert_entry [OF inv1 none1 this j, of val c] show ?thesis using True i free g1
      by (simp add: cando_vm_set_global_def Let_def small [simplified])
  qed
qed

text \<open>One call, whatever the heap: what it answers and what it leaves.\<close>

definition global_assign :: "global_env \<Rightarrow> string \<Rightarrow> cando_value \<times> bool \<Rightarrow> bool \<Rightarrow> global_env \<Rightarrow> bool" where
  "global_assign g k vc b g' \<longleftrightarrow> gl_cap g \<le> 2 ^ 27 \<and>
     (\<exists>H H' name. c_text name = k \<and> cando_vm_set_global H g name (fst vc) (snd vc) = Some (H', g', b))"

lemma global_assign_spec:
  assumes inv: "globals_inv g" and run: "global_assign g k vc b g'"
  shows "globals_inv g' \<and> b = global_writable g k \<and> globals_map g' = (if b then (globals_map g)(k \<mapsto> vc) else globals_map g)"
proof -
  obtain H H' name where s: "c_text name = k" "cando_vm_set_global H g name (fst vc) (snd vc) = Some (H', g', b)"
    and room: "gl_cap g \<le> 2 ^ 27"
    using run by (auto simp: global_assign_def)
  show ?thesis
  proof (cases rule: global_cases [of g k])
    case (const v)
    then have "\<not> global_writable g k" by (simp add: global_writable_def)
    then show ?thesis using set_global_const [OF inv, of name H "fst vc" "snd vc"] s inv by simp
  next
    case new
    then show ?thesis using set_global_insert [OF inv _ room, of name H "fst vc" "snd vc"] s
      by (auto simp: global_writable_def)
  next
    case (old v)
    obtain i where "global_slot (gl_entries g) k = Some i" "i < gl_cap g" "ge_value (gl_entries g ! i) = v"
        "ge_key (gl_entries g ! i) \<noteq> None" "\<not> ge_const (gl_entries g ! i)"
      using get_slot [OF inv, of k] old by (auto split: if_splits)
    then obtain H1 where "cando_value_release H v = Some H1"
      using s by (auto simp: cando_vm_set_global_def Let_def fault_simps)
    then show ?thesis using set_global_overwrite [OF inv _, of name v H H1 "fst vc" "snd vc"] s old
      by (auto simp: global_writable_def)
  qed
qed

interpretation gmap: map_store global_assign globals_map "\<lambda>g k. \<not> global_writable g k" globals_inv
proof unfold_locales
  fix g k vc b g' k'
  assume a: "globals_inv g" "global_assign g k vc b g'"
  note S = global_assign_spec [OF a]
  show "globals_inv g'" "globals_map g' = (if b then (globals_map g)(k \<mapsto> vc) else globals_map g)" using S by simp_all
  show "b \<Longrightarrow> \<not> \<not> global_writable g k" using S by simp
  show "\<not> global_writable g k' \<Longrightarrow> \<not> global_writable g' k'"
    using S unfolding global_writable_def by (cases b; cases "k = k'") auto
qed

section \<open>The initial environment and native functions\<close>

definition vm_globals_init :: global_env where
  "vm_globals_init = \<lparr>gl_entries = replicate 64 empty_entry, gl_count = 0\<rparr>"

lemma vm_globals_init_inv: "globals_inv vm_globals_init" "globals_map vm_globals_init = Map.empty"
proof -
  have p: "is_pow2 64" unfolding is_pow2_def by (rule exI [of _ 6]) simp
  have c: "(64::nat) \<le> 2 ^ 28" by simp
  note R = replicate_empty_wf [OF p c]
  show "globals_inv vm_globals_init" using R(1,2) by (simp add: globals_inv_def vm_globals_init_def)
  show "globals_map vm_globals_init = Map.empty" using R(3) by (simp add: globals_map_def vm_globals_init_def fun_eq_iff)
qed

definition cando_native_max :: nat where
  "cando_native_max = 128"

text \<open>A native function is called through a negative number: function \<open>idx\<close> is \<open>-(idx + 1)\<close>.\<close>

definition native_sentinel :: "nat \<Rightarrow> cando_value" where
  "native_sentinel idx = VNumber (f64_neg (f64_of_nat (idx + 1)))"

definition cando_vm_register_native ::
  "string_heap \<Rightarrow> global_env \<Rightarrow> 'f list \<Rightarrow> string \<Rightarrow> 'f \<Rightarrow> (string_heap \<times> global_env \<times> 'f list \<times> bool) option" where
  "cando_vm_register_native H g fns name fn =
     (if length fns \<ge> cando_native_max then Some (H, g, fns, False)
      else do {
        (H, g, _) \<leftarrow> cando_vm_set_global H g name (native_sentinel (length fns)) True;
        Some (H, g, fns @ [fn], True)
      })"

definition cando_vm_add_native :: "'f list \<Rightarrow> 'f \<Rightarrow> 'f list \<times> cando_value" where
  "cando_vm_add_native fns fn =
     (if length fns \<ge> cando_native_max then (fns, VNull) else (fns @ [fn], native_sentinel (length fns)))"

text \<open>The two macros of the call instructions.\<close>

definition is_native_fn :: "cando_value \<Rightarrow> bool" where
  "is_native_fn v = (case v of VNumber n \<Rightarrow> f64_lt n f64_zero | _ \<Rightarrow> False)"

definition native_index :: "f64 \<Rightarrow> nat" where
  "native_index n = u32 (nat (f64_trunc (f64_sub (f64_neg n) (f64_of_nat 1)) mod 2 ^ 32))"

section \<open>Properties\<close>

text \<open>C4. Assigning a global refines the map of names: it never faults or loops, is refused exactly when the name is bound
  as a constant (leaving table and heap as they are), otherwise binds exactly that name to the new value and constness
  (growing the table when it is three quarters full without losing a binding) and releases exactly the value it
  replaces; a later read returns what the map says.\<close>

theorem set_global_refines_map:
  assumes "globals_inv g" "gl_cap g \<le> 2 ^ 27" "strings_ok H"
    "\<And>v c s. globals_map g (c_text name) = Some (v, c) \<Longrightarrow> value_held v = Some s \<Longrightarrow> 0 < str_refs H s"
  shows "\<exists>H' g'. cando_vm_set_global H g name val is_const = Some (H', g', global_writable g (c_text name)) \<and>
           globals_inv g' \<and> strings_ok H' \<and>
           globals_map g' = (if global_writable g (c_text name) then (globals_map g)(c_text name \<mapsto> (val, is_const)) else globals_map g) \<and>
           (\<forall>name'. cando_vm_get_global g' name' = Some (map_option fst (globals_map g' (c_text name')))) \<and>
           (\<forall>s. str_refs H' s = str_refs H s -
              (case globals_map g (c_text name) of Some (v, False) \<Rightarrow> owned value_held [v] s | _ \<Rightarrow> 0))"
proof -
  let ?k = "c_text name"
  show ?thesis
  proof (cases rule: global_cases [of g ?k])
    case (const v)
    then have w: "\<not> global_writable g ?k" by (auto simp: global_writable_def)
    from set_global_const [OF assms(1) this] show ?thesis
      using get_global_spec(1) [OF assms(1)] const w assms(1,3) by simp
  next
    case new
    then have w: "global_writable g ?k" by (simp add: global_writable_def)
    obtain g' where "cando_vm_set_global H g name val is_const = Some (H, g', True)" "globals_inv g'"
        "globals_map g' = (globals_map g)(?k \<mapsto> (val, is_const))"
      using set_global_insert [OF assms(1) new assms(2)] by blast
    then show ?thesis using get_global_spec(1) new w assms(3) by simp
  next
    case (old v)
    then have w: "global_writable g ?k" by (simp add: global_writable_def)
    obtain H' where H': "cando_value_release H v = Some H'" "strings_ok H'" "str_refs H' = (\<lambda>s. str_refs H s - owned value_held [v] s)"
      using vals.release_law [OF assms(3)] assms(4) [OF old] by blast
    obtain g' where "cando_vm_set_global H g name val is_const = Some (H', g', True)" "globals_inv g'"
        "globals_map g' = (globals_map g)(?k \<mapsto> (val, is_const))"
      using set_global_overwrite [OF assms(1) old H'(1)] by blast
    then show ?thesis using get_global_spec(1) old w H'(2,3) by simp
  qed
qed

theorem set_global_refines_map_witness:
  "\<exists>H' g'. cando_vm_set_global Map.empty vm_globals_init ''x'' VNull True = Some (H', g', True) \<and>
     globals_map g' = [''x'' \<mapsto> (VNull, True)] \<and> cando_vm_get_global g' ''x'' = Some (Some VNull)"
proof -
  have cap: "gl_cap vm_globals_init \<le> 2 ^ 27" by (simp add: vm_globals_init_def)
  have x: "c_text ''x'' = ''x''" by (simp add: c_text_def)
  have ok: "strings_ok (Map.empty :: string_heap)" by (simp add: strings_ok_def)
  have w: "global_writable vm_globals_init ''x''" by (simp add: global_writable_def vm_globals_init_inv)
  show ?thesis
    using set_global_refines_map [OF vm_globals_init_inv(1) cap ok, of "''x''" VNull True] w
    by (auto simp: x vm_globals_init_inv(2))
qed

text \<open>C5. A constant never changes: through any sequence of assignments to globals, accepted or refused, growing the
  table or not, a name bound as a constant reads as the value it was bound to and stays a constant.\<close>

theorem global_const_is_forever:
  assumes "globals_inv g" "globals_map g (c_text name) = Some (v, True)" "run_calls global_assign g calls g'"
  shows "cando_vm_get_global g' name = Some (Some v) \<and> globals_map g' (c_text name) = Some (v, True)"
proof -
  have "\<not> global_writable g (c_text name)" using assms(2) by (simp add: global_writable_def)
  then have "globals_map g' (c_text name) = Some (v, True)" using gmap.frozen_run [OF assms(3,1)] assms(2) by simp
  then show ?thesis using get_global_spec(1) [OF gmap.run_inv [OF assms(3,1)]] by simp
qed

theorem global_const_is_forever_witness:
  "\<exists>g g'. globals_map g = [''x'' \<mapsto> (VNull, True)] \<and> run_calls global_assign g [(''x'', VBool True, False)] g' \<and>
     cando_vm_get_global g' ''x'' = Some (Some VNull)"
proof -
  have x: "c_text ''x'' = ''x''" by (simp add: c_text_def)
  have room: "gl_cap vm_globals_init \<le> 2 ^ 26" by (simp add: vm_globals_init_def)
  obtain g where g: "globals_inv g" "gl_cap g \<le> 2 * gl_cap vm_globals_init" "globals_map g = [''x'' \<mapsto> (VNull, True)]"
    using set_global_insert [OF vm_globals_init_inv(1), of "''x''" Map.empty VNull True] room
    by (auto simp: vm_globals_init_inv(2) x)
  have w: "\<not> global_writable g ''x''" using g(3) by (simp add: global_writable_def)
  have "global_assign g ''x'' (VBool True, False) False g"
    unfolding global_assign_def using set_global_const [OF g(1), of "''x''" Map.empty "VBool True" False] w x g(2) room
    by (intro conjI exI [of _ Map.empty] exI [of _ "''x''"]) simp_all
  then have run: "run_calls global_assign g [(''x'', VBool True, False)] g" by auto
  have "globals_map g (c_text ''x'') = Some (VNull, True)" using g(3) x by simp
  from global_const_is_forever [OF g(1) this run] show ?thesis using g(3) run by blast
qed

end
