(* ===== verification/C_Format.thy ===== *)
theory C_Format
  imports Float64
begin

text \<open>
  Text of numbers, as the formats of \<open>printf\<close> the runtime uses produce it, and back: \<open>%u\<close>, \<open>%lld\<close>,
  \<open>%x\<close>, \<open>%.0f\<close>, \<open>%.17g\<close>, and \<open>strtod\<close> on decimal literals. Conversions are exact on ratios, with the
  one correct rounding (to nearest, ties to even) that the C library of the targets performs.
\<close>

section \<open>Decimal digits\<close>

fun decimal :: "nat \<Rightarrow> string" where
  "decimal n = (if n < 10 then [char_of (48 + n)] else decimal (n div 10) @ [char_of (48 + n mod 10)])"

declare decimal.simps [simp del]

definition digit_value :: "char \<Rightarrow> nat" where
  "digit_value c = byte_of c - 48"

definition digits_value :: "string \<Rightarrow> nat" where
  "digits_value s = foldl (\<lambda>n c. 10 * n + digit_value c) 0 s"

lemma digit_char [simp]: "n < 10 \<Longrightarrow> digit_value (char_of (48 + n)) = n" "n < 10 \<Longrightarrow> c_isdigit (char_of (48 + n))"
  by (simp_all add: digit_value_def c_isdigit_def)

lemma digits_value_snoc [simp]: "digits_value (s @ [c]) = 10 * digits_value s + digit_value c"
  by (simp add: digits_value_def)

lemma digits_value_decimal [simp]: "digits_value (decimal n) = n"
proof (induction n rule: decimal.induct)
  case (1 n)
  show ?case
  proof (cases "n < 10")
    case True
    then show ?thesis by (simp add: decimal.simps [of n] digits_value_def)
  next
    case False
    then have "digits_value (decimal n) = 10 * (n div 10) + n mod 10" using 1 by (simp add: decimal.simps [of n])
    then show ?thesis by simp
  qed
qed

lemma decimal_digits: "list_all c_isdigit (decimal n)"
  by (induction n rule: decimal.induct) (simp add: decimal.simps)

lemma decimal_nonempty [simp]: "decimal n \<noteq> []"
  by (simp add: decimal.simps [of n])

lemma decimal_0 [simp]: "decimal 0 = ''0''"
  by (simp add: decimal.simps char_of_eq_iff)

lemma decimal_head: "0 < n \<Longrightarrow> hd (decimal n) \<noteq> CHR ''0''"
proof (induction n rule: decimal.induct)
  case (1 n)
  show ?case
  proof (cases "n < 10")
    case True
    have v: "digit_value (char_of (48 + n)) = n" by (rule digit_char(1) [OF True])
    have "char_of (48 + n) \<noteq> CHR ''0''"
    proof
      assume "char_of (48 + n) = CHR ''0''"
      then have "n = digit_value CHR ''0''" using v by simp
      then show False using 1(2) by (simp add: digit_value_def)
    qed
    then show ?thesis using True by (simp add: decimal.simps [of n])
  next
    case False
    then have "0 < n div 10" by simp
    then show ?thesis using False 1 by (simp add: decimal.simps [of n])
  qed
qed

lemma decimal_length: "n < 10 ^ k \<Longrightarrow> 0 < k \<Longrightarrow> length (decimal n) \<le> k"
proof (induction n arbitrary: k rule: decimal.induct)
  case (1 n)
  show ?case
  proof (cases "n < 10")
    case True
    then show ?thesis using 1(3) by (simp add: decimal.simps [of n])
  next
    case False
    then have k: "1 < k" using 1(2,3) by (cases "k = 1") auto
    then obtain j where j: "k = Suc j" "0 < j" by (cases k) auto
    then have "n div 10 < 10 ^ j" using 1(2) by (simp add: less_mult_imp_div_less mult.commute)
    then have "length (decimal (n div 10)) \<le> j" using 1(1) False j by simp
    then show ?thesis using False j by (simp add: decimal.simps [of n])
  qed
qed

section \<open>Other bases\<close>

definition hex_upper :: "nat \<Rightarrow> char" where
  "hex_upper n = char_of (if n < 10 then 48 + n else 55 + n)"

definition hex_lower :: "nat \<Rightarrow> char" where
  "hex_lower n = char_of (if n < 10 then 48 + n else 87 + n)"

fun hex_text :: "nat \<Rightarrow> string" where
  "hex_text n = (if n < 16 then [hex_lower n] else hex_text (n div 16) @ [hex_lower (n mod 16)])"

declare hex_text.simps [simp del]

text \<open>\<open>%p\<close>\<close>

definition fmt_p :: "nat \<Rightarrow> string" where
  "fmt_p a = (if a = 0 then ''(nil)'' else ''0x'' @ hex_text a)"

text \<open>\<open>%lld\<close>\<close>

definition fmt_int :: "int \<Rightarrow> string" where
  "fmt_int i = (if i < 0 then ''-'' @ decimal (nat (- i)) else decimal (nat i))"

section \<open>Doubles\<close>

definition sign_text :: "f64 \<Rightarrow> string" where
  "sign_text w = (if f64_sign w then ''-'' else [])"

definition not_finite_text :: "f64 \<Rightarrow> string" where
  "not_finite_text w = sign_text w @ (if f64_is_nan w then ''nan'' else ''inf'')"

text \<open>\<open>%.0f\<close>\<close>

definition fmt_f0 :: "f64 \<Rightarrow> string" where
  "fmt_f0 w = (if f64_is_finite w then sign_text w @ decimal (case f64_ratio w of (n, d) \<Rightarrow> div_even n d)
               else not_finite_text w)"

text \<open>\<open>n / d < 10 ^ (k - 400)\<close>, so the first such \<open>k\<close> gives the decimal exponent of the ratio.\<close>

definition below_pow10 :: "nat \<Rightarrow> nat \<Rightarrow> nat \<Rightarrow> bool" where
  "below_pow10 n d k \<longleftrightarrow> (if 400 \<le> k then n < d * 10 ^ (k - 400) else n * 10 ^ (400 - k) < d)"

definition dec_exponent :: "nat \<Rightarrow> nat \<Rightarrow> int" where
  "dec_exponent n d = (case find (below_pow10 n d) [0..<800] of Some k \<Rightarrow> int k - 401 | None \<Rightarrow> 0)"

text \<open>Seventeen significant digits with their exponent; rounding can carry into the next power.\<close>

definition sig17 :: "nat \<Rightarrow> nat \<Rightarrow> nat \<times> int" where
  "sig17 n d =
     (let x = dec_exponent n d;
          q = (if x \<le> 16 then div_even (n * 10 ^ nat (16 - x)) d else div_even n (d * 10 ^ nat (x - 16)))
      in if q = 10 ^ 17 then (10 ^ 16, x + 1) else (q, x))"

definition strip_zeros :: "string \<Rightarrow> string" where
  "strip_zeros s = rev (dropWhile (\<lambda>c. c = CHR ''0'') (rev s))"

definition with_fraction :: "string \<Rightarrow> string \<Rightarrow> string" where
  "with_fraction ip fp = (if strip_zeros fp = [] then ip else ip @ ''.'' @ strip_zeros fp)"

definition exp_text :: "int \<Rightarrow> string" where
  "exp_text x = (if x < 0 then ''-'' else ''+'') @ (if nat \<bar>x\<bar> < 10 then ''0'' else []) @ decimal (nat \<bar>x\<bar>)"

text \<open>\<open>%.17g\<close>\<close>

definition fmt_g17 :: "f64 \<Rightarrow> string" where
  "fmt_g17 w =
     (if \<not> f64_is_finite w then not_finite_text w
      else case f64_ratio w of (n, d) \<Rightarrow>
        if n = 0 then sign_text w @ ''0''
        else case sig17 n d of (q, x) \<Rightarrow>
          sign_text w @
          (if x < -4 \<or> 17 \<le> x then with_fraction (take 1 (decimal q)) (drop 1 (decimal q)) @ ''e'' @ exp_text x
           else if x < 0 then with_fraction ''0'' (replicate (nat (- x) - 1) CHR ''0'' @ decimal q)
           else with_fraction (take (nat x + 1) (decimal q)) (drop (nat x + 1) (decimal q))))"

section \<open>Reading a decimal literal\<close>

text \<open>\<open>strtod\<close> on \<open>[-] digits [. digits] [(e|E) [+|-] digits]\<close>.\<close>

definition strtod :: "string \<Rightarrow> f64" where
  "strtod s =
     (let neg = (s \<noteq> [] \<and> hd s = CHR ''-'');
          s = (if neg then drop 1 s else s);
          ip = takeWhile c_isdigit s; s = dropWhile c_isdigit s;
          fp = (if s \<noteq> [] \<and> hd s = CHR ''.'' then takeWhile c_isdigit (drop 1 s) else []);
          s = (if s \<noteq> [] \<and> hd s = CHR ''.'' then dropWhile c_isdigit (drop 1 s) else s);
          ex = (if s \<noteq> [] \<and> hd s \<in> {CHR ''e'', CHR ''E''} then
                  (let t = drop 1 s; esign = (t \<noteq> [] \<and> hd t = CHR ''-'');
                       t = (if t \<noteq> [] \<and> hd t \<in> {CHR ''+'', CHR ''-''} then drop 1 t else t);
                       e = int (digits_value (takeWhile c_isdigit t))
                   in if esign then - e else e)
                else 0) - int (length fp);
          m = digits_value (ip @ fp)
      in if 0 \<le> ex then f64_round neg (m * 10 ^ nat ex) 1 else f64_round neg m (10 ^ nat (- ex)))"

section \<open>Whole numbers\<close>

text \<open>A negated whole number has its sign bit set and nothing else changed.\<close>

definition f64_signed :: "bool \<Rightarrow> nat \<Rightarrow> f64" where
  "f64_signed s n = f64_round s n 1"

lemma f64_signed_pos: "f64_signed False n = f64_of_nat n"
  by (simp add: f64_signed_def f64_of_nat_def)

lemma takeWhile_all: "list_all P w \<Longrightarrow> takeWhile P w = w" "list_all P w \<Longrightarrow> dropWhile P w = []"
  by (auto simp: takeWhile_eq_all_conv list_all_iff)

lemma strtod_whole: "strtod ((if s then ''-'' else []) @ decimal n) = f64_signed s n"
proof -
  have h: "hd (decimal n) \<noteq> CHR ''-''"
    using decimal_digits [of n] by (cases "decimal n") (auto simp: c_isdigit_def)
  show ?thesis
    using h by (cases s) (simp_all add: strtod_def Let_def f64_signed_def takeWhile_all [OF decimal_digits])
qed

lemma f64_signed_ratio:
  assumes "n < 2 ^ 53"
  shows "\<exists>k. f64_ratio (f64_signed s n) = (n * 2 ^ k, 2 ^ k)" "f64_is_finite (f64_signed s n)" "f64_sign (f64_signed s n) = s"
  using f64_of_nat_ratio(1) [OF assms] f64_of_nat_finite [OF assms]
  by (simp_all add: f64_signed_def f64_round_signed [of s] f64_round_sign(1) f64_of_nat_def)

lemma fmt_f0_whole: "n < 2 ^ 53 \<Longrightarrow> fmt_f0 (f64_signed s n) = (if s then ''-'' else []) @ decimal n"
  using f64_signed_ratio [of n s] by (auto simp: fmt_f0_def sign_text_def div_even_def)

end
