(* ===== verification/Value_Text.thy ===== *)
theory Value_Text
  imports Cdo_String C_Format
begin

text \<open>
  The text of a value, \<open>cando_value_tostring\<close> (\<open>source/core/value.c\<close>) and \<open>cdo_value_tostring\<close>
  (\<open>source/object/value.c\<close>). The result is the C string the caller gets: it ends at the first NUL. \<open>None\<close>
  is a string value whose string is not allocated.
\<close>

definition number_text :: "f64 \<Rightarrow> string" where
  "number_text n = (if f64_eq n (f64_of_int (i64_of_f64 n)) then fmt_int (i64_of_f64 n) else fmt_g17 n)"

definition cando_value_tostring :: "string_heap \<Rightarrow> cando_value \<Rightarrow> string option" where
  "cando_value_tostring H v = (case v of
     VNull \<Rightarrow> Some ''null''
   | VBool b \<Rightarrow> Some (if b then ''true'' else ''false'')
   | VNumber n \<Rightarrow> Some (number_text n)
   | VString s \<Rightarrow> map_option c_text (str_text H s)
   | VObject h \<Rightarrow> Some (''object('' @ decimal h @ '')''))"

definition cdo_value_tostring :: "cdo_heap \<Rightarrow> cdo_value \<Rightarrow> string option" where
  "cdo_value_tostring H v = (case v of
     CNull \<Rightarrow> Some ''null''
   | CBool b \<Rightarrow> Some (if b then ''true'' else ''false'')
   | CNumber n \<Rightarrow> Some (number_text n)
   | CString s \<Rightarrow> if s = 0 then Some [] else map_option c_text (str_text H s)
   | CObject a \<Rightarrow> Some (''object('' @ fmt_p a @ '')'')
   | CArray a \<Rightarrow> Some (''array('' @ fmt_p a @ '')'')
   | CFunction a \<Rightarrow> Some (''function('' @ fmt_p a @ '')'')
   | CNative a \<Rightarrow> Some (''native('' @ fmt_p a @ '')''))"

lemma f64_of_int_nat: "f64_of_int (int n) = f64_of_nat n"
  by (simp add: f64_of_int_def)

lemma f64_eq_refl: "f64_is_finite w \<Longrightarrow> f64_eq w w"
  by (simp add: f64_eq_def f64_is_finite_def f64_is_nan_def)

text \<open>A whole number below \<open>2 ^ 53\<close> prints as its decimal digits, without a fraction or an exponent, through both
  functions, and reading the text back with the C library gives the same double.\<close>

theorem whole_number_text:
  assumes "n < 2 ^ 53"
  shows "cando_value_tostring H (VNumber (f64_of_nat n)) = Some (decimal n) \<and>
         cdo_value_tostring H' (CNumber (f64_of_nat n)) = Some (decimal n) \<and> strtod (decimal n) = f64_of_nat n"
  using i64_of_nat [OF assms] f64_eq_refl [OF f64_of_nat_finite [OF assms]] strtod_whole [of False n]
  by (simp add: cando_value_tostring_def cdo_value_tostring_def number_text_def f64_of_int_nat fmt_int_def f64_signed_pos)

theorem whole_number_text_witness:
  "cando_value_tostring Map.empty (VNumber (f64_of_nat 42)) = Some (decimal 42) \<and> strtod (decimal 42) = f64_of_nat 42"
  using whole_number_text [of 42 Map.empty Map.empty] by simp

end
