(* ===== verification/Lexer.thy ===== *)
theory Lexer
  imports C_Format
begin

text \<open>
  The scanner (\<open>source/parser/lexer.c\<close>, \<open>token.h\<close>): a cursor over the source text with line tracking,
  one function per kind of lexeme, and \<open>cando_lexer_next\<close>, which skips blanks and comments and returns
  one token. A token refers to the source by offset and length. Every loop of the code ends because the
  cursor moves; the functions below are total with that measure.
\<close>

section \<open>Tokens\<close>

datatype (plugins only: code) token_type =
    TOK_NUMBER | TOK_STRING_DQ | TOK_STRING_SQ | TOK_STRING_BT | TOK_IDENT | TOK_IF | TOK_ELSE | TOK_WHILE
    | TOK_FOR | TOK_FUNCTION | TOK_CLASS | TOK_RETURN | TOK_THROW | TOK_TRY | TOK_CATCH | TOK_FINALY
    | TOK_CONST | TOK_VAR | TOK_GLOBAL | TOK_STATIC | TOK_PRIVATE | TOK_ASYNC | TOK_AWAIT | TOK_THREAD
    | TOK_NULL_KW | TOK_TRUE_KW | TOK_FALSE_KW | TOK_IN | TOK_OF | TOK_OVER | TOK_CONTINUE | TOK_BREAK
    | TOK_PIPE_KW | TOK_PIPE_OP | TOK_FILTER_OP | TOK_RANGE_ASC | TOK_RANGE_DESC | TOK_FLUENT | TOK_VARARG
    | TOK_FAT_ARROW | TOK_AND | TOK_OR | TOK_EQ | TOK_NEQ | TOK_LEQ | TOK_GEQ | TOK_LSHIFT | TOK_RSHIFT
    | TOK_BITXOR | TOK_PLUS_ASSIGN | TOK_MINUS_ASSIGN | TOK_STAR_ASSIGN | TOK_SLASH_ASSIGN
    | TOK_PERCENT_ASSIGN | TOK_CARET_ASSIGN | TOK_INCR | TOK_DECR | TOK_PLUS | TOK_MINUS | TOK_STAR
    | TOK_SLASH | TOK_PERCENT | TOK_CARET | TOK_AMP | TOK_BITOR | TOK_LT | TOK_GT | TOK_ASSIGN | TOK_BANG
    | TOK_TILDE | TOK_DOT | TOK_HASH | TOK_LPAREN | TOK_RPAREN | TOK_LBRACE | TOK_RBRACE | TOK_LBRACKET
    | TOK_RBRACKET | TOK_SEMI | TOK_COMMA | TOK_COLON | TOK_EOF | TOK_ERROR

definition cando_token_type_name :: "token_type \<Rightarrow> string" where
  "cando_token_type_name t = (case t of
     TOK_NUMBER \<Rightarrow> ''NUMBER'' | TOK_STRING_DQ \<Rightarrow> ''STRING_DQ''
      | TOK_STRING_SQ \<Rightarrow> ''STRING_SQ'' | TOK_STRING_BT \<Rightarrow> ''STRING_BT''
      | TOK_IDENT \<Rightarrow> ''IDENT'' | TOK_IF \<Rightarrow> ''IF'' | TOK_ELSE \<Rightarrow> ''ELSE''
      | TOK_WHILE \<Rightarrow> ''WHILE'' | TOK_FOR \<Rightarrow> ''FOR''
      | TOK_FUNCTION \<Rightarrow> ''FUNCTION'' | TOK_CLASS \<Rightarrow> ''CLASS''
      | TOK_RETURN \<Rightarrow> ''RETURN'' | TOK_THROW \<Rightarrow> ''THROW'' | TOK_TRY \<Rightarrow> ''TRY''
      | TOK_CATCH \<Rightarrow> ''CATCH'' | TOK_FINALY \<Rightarrow> ''FINALY''
      | TOK_CONST \<Rightarrow> ''CONST'' | TOK_VAR \<Rightarrow> ''VAR'' | TOK_GLOBAL \<Rightarrow> ''GLOBAL''
      | TOK_STATIC \<Rightarrow> ''STATIC'' | TOK_PRIVATE \<Rightarrow> ''PRIVATE''
      | TOK_ASYNC \<Rightarrow> ''ASYNC'' | TOK_AWAIT \<Rightarrow> ''AWAIT''
      | TOK_THREAD \<Rightarrow> ''THREAD'' | TOK_NULL_KW \<Rightarrow> ''NULL''
      | TOK_TRUE_KW \<Rightarrow> ''TRUE'' | TOK_FALSE_KW \<Rightarrow> ''FALSE'' | TOK_IN \<Rightarrow> ''IN''
      | TOK_OF \<Rightarrow> ''OF'' | TOK_OVER \<Rightarrow> ''OVER'' | TOK_CONTINUE \<Rightarrow> ''CONTINUE''
      | TOK_BREAK \<Rightarrow> ''BREAK'' | TOK_PIPE_KW \<Rightarrow> ''pipe'' | TOK_PIPE_OP \<Rightarrow> ''~>''
      | TOK_FILTER_OP \<Rightarrow> ''~!>'' | TOK_RANGE_ASC \<Rightarrow> ''->''
      | TOK_RANGE_DESC \<Rightarrow> ''<-'' | TOK_FLUENT \<Rightarrow> ''::'' | TOK_VARARG \<Rightarrow> ''...''
      | TOK_FAT_ARROW \<Rightarrow> ''=>'' | TOK_AND \<Rightarrow> ''&&'' | TOK_OR \<Rightarrow> ''||''
      | TOK_EQ \<Rightarrow> ''=='' | TOK_NEQ \<Rightarrow> ''!='' | TOK_LEQ \<Rightarrow> ''<=''
      | TOK_GEQ \<Rightarrow> ''>='' | TOK_LSHIFT \<Rightarrow> ''<<'' | TOK_RSHIFT \<Rightarrow> ''>>''
      | TOK_BITXOR \<Rightarrow> ''|&'' | TOK_PLUS_ASSIGN \<Rightarrow> ''+=''
      | TOK_MINUS_ASSIGN \<Rightarrow> ''-='' | TOK_STAR_ASSIGN \<Rightarrow> ''*=''
      | TOK_SLASH_ASSIGN \<Rightarrow> ''/='' | TOK_PERCENT_ASSIGN \<Rightarrow> ''%=''
      | TOK_CARET_ASSIGN \<Rightarrow> ''^='' | TOK_INCR \<Rightarrow> ''++'' | TOK_DECR \<Rightarrow> ''--''
      | TOK_PLUS \<Rightarrow> ''+'' | TOK_MINUS \<Rightarrow> ''-'' | TOK_STAR \<Rightarrow> ''*''
      | TOK_SLASH \<Rightarrow> ''/'' | TOK_PERCENT \<Rightarrow> ''%'' | TOK_CARET \<Rightarrow> ''^''
      | TOK_AMP \<Rightarrow> ''&'' | TOK_BITOR \<Rightarrow> ''|'' | TOK_LT \<Rightarrow> ''<''
      | TOK_GT \<Rightarrow> ''>'' | TOK_ASSIGN \<Rightarrow> ''='' | TOK_BANG \<Rightarrow> ''!''
      | TOK_TILDE \<Rightarrow> ''~'' | TOK_DOT \<Rightarrow> ''.'' | TOK_HASH \<Rightarrow> ''#''
      | TOK_LPAREN \<Rightarrow> ''('' | TOK_RPAREN \<Rightarrow> '')'' | TOK_LBRACE \<Rightarrow> ''{''
      | TOK_RBRACE \<Rightarrow> ''}'' | TOK_LBRACKET \<Rightarrow> ''['' | TOK_RBRACKET \<Rightarrow> '']''
      | TOK_SEMI \<Rightarrow> '';'' | TOK_COMMA \<Rightarrow> '','' | TOK_COLON \<Rightarrow> '':''
      | TOK_EOF \<Rightarrow> ''EOF'' | TOK_ERROR \<Rightarrow> ''ERROR'')"

record cando_token =
  tk_type :: token_type
  tk_start :: nat
  tk_length :: nat
  tk_line :: nat
  tk_col :: nat

definition KEYWORDS :: "(string \<times> token_type) list" where
  "KEYWORDS =
     [(''IF'', TOK_IF), (''ELSE'', TOK_ELSE), (''WHILE'', TOK_WHILE), (''FOR'', TOK_FOR), 
      (''FUNCTION'', TOK_FUNCTION), (''CLASS'', TOK_CLASS), (''RETURN'', TOK_RETURN), (''THROW'', TOK_THROW), 
      (''TRY'', TOK_TRY), (''CATCH'', TOK_CATCH), (''FINALY'', TOK_FINALY), (''CONST'', TOK_CONST), 
      (''VAR'', TOK_VAR), (''GLOBAL'', TOK_GLOBAL), (''STATIC'', TOK_STATIC), (''PRIVATE'', TOK_PRIVATE), 
      (''ASYNC'', TOK_ASYNC), (''AWAIT'', TOK_AWAIT), (''THREAD'', TOK_THREAD), (''NULL'', TOK_NULL_KW), 
      (''TRUE'', TOK_TRUE_KW), (''FALSE'', TOK_FALSE_KW), (''IN'', TOK_IN), (''OF'', TOK_OF), 
      (''OVER'', TOK_OVER), (''CONTINUE'', TOK_CONTINUE), (''BREAK'', TOK_BREAK), (''pipe'', TOK_PIPE_KW)]"

text \<open>All upper case or all lower case; then the first entry that is equal up to case.\<close>

definition cando_keyword_type :: "string \<Rightarrow> token_type" where
  "cando_keyword_type ident =
     (if list_ex c_isupper ident \<and> list_ex c_islower ident then TOK_IDENT
      else case find (\<lambda>(kw, _). length kw = length ident \<and> map c_tolower kw = map c_tolower ident) KEYWORDS of
             Some (_, t) \<Rightarrow> t
           | None \<Rightarrow> TOK_IDENT)"

section \<open>The cursor\<close>

record cando_lexer =
  lx_source :: string
  lx_pos :: nat
  lx_line :: nat
  lx_line_start :: nat
  lx_error_msg :: string

definition cando_lexer_init :: "string \<Rightarrow> cando_lexer" where
  "cando_lexer_init source = \<lparr>lx_source = source, lx_pos = 0, lx_line = 1, lx_line_start = 0, lx_error_msg = []\<rparr>"

definition lex_peek_char :: "cando_lexer \<Rightarrow> char" where
  "lex_peek_char lx = (if lx_pos lx \<ge> length (lx_source lx) then CHR 0x00 else lx_source lx ! lx_pos lx)"

definition lex_peek_char2 :: "cando_lexer \<Rightarrow> char" where
  "lex_peek_char2 lx = (if lx_pos lx + 1 \<ge> length (lx_source lx) then CHR 0x00 else lx_source lx ! (lx_pos lx + 1))"

definition lex_advance :: "cando_lexer \<Rightarrow> char \<times> cando_lexer" where
  "lex_advance lx =
     (if lx_pos lx \<ge> length (lx_source lx) then (CHR 0x00, lx)
      else let c = lx_source lx ! lx_pos lx; lx = lx\<lparr>lx_pos := lx_pos lx + 1\<rparr>
           in if c = CHR 0x0A then (c, lx\<lparr>lx_line := u32 (lx_line lx + 1), lx_line_start := lx_pos lx\<rparr>)
              else (c, lx))"

definition lex_at_end :: "cando_lexer \<Rightarrow> bool" where
  "lex_at_end lx \<longleftrightarrow> lx_pos lx \<ge> length (lx_source lx)"

definition lex_match :: "cando_lexer \<Rightarrow> char \<Rightarrow> cando_lexer option" where
  "lex_match lx expected =
     (if lex_at_end lx \<or> lx_source lx ! lx_pos lx \<noteq> expected then None else Some (lx\<lparr>lx_pos := lx_pos lx + 1\<rparr>))"

abbreviation lex_left :: "cando_lexer \<Rightarrow> nat" where
  "lex_left lx \<equiv> length (lx_source lx) - lx_pos lx"

lemma lex_advance_left [simp]: "\<not> lex_at_end lx \<Longrightarrow> lex_left (snd (lex_advance lx)) < lex_left lx"
  by (auto simp: lex_advance_def lex_at_end_def Let_def)

lemma lex_advance_less: "(c, lx') = lex_advance lx \<Longrightarrow> \<not> lex_at_end lx \<Longrightarrow> lex_left lx' < lex_left lx"
  using lex_advance_left [of lx] by (metis snd_conv)

lemma lex_advance_less2:
  "(c, lx') = lex_advance lx \<Longrightarrow> \<not> lex_at_end lx \<Longrightarrow> lex_left (snd (lex_advance lx')) < lex_left lx"
  using lex_advance_less [of c lx' lx] lex_advance_left [of lx'] by (cases "lex_at_end lx'")
    (auto simp: lex_advance_def lex_at_end_def)

lemma lex_advance_source [simp]: "lx_source (snd (lex_advance lx)) = lx_source lx"
  by (auto simp: lex_advance_def Let_def)

lemma lex_advance_pos: "lx_pos (snd (lex_advance lx)) = (if lex_at_end lx then lx_pos lx else lx_pos lx + 1)"
  by (auto simp: lex_advance_def lex_at_end_def Let_def)

definition make_token :: "cando_lexer \<Rightarrow> token_type \<Rightarrow> nat \<Rightarrow> nat \<Rightarrow> nat \<Rightarrow> cando_token" where
  "make_token lx type start_pos start_line start_line_start =
     \<lparr>tk_type = type, tk_start = start_pos, tk_length = u32 (lx_pos lx - start_pos), tk_line = start_line,
      tk_col = u32 (u32 (start_pos - start_line_start) + 1)\<rparr>"

definition lex_error :: "cando_lexer \<Rightarrow> nat \<Rightarrow> nat \<Rightarrow> nat \<Rightarrow> string \<Rightarrow> cando_lexer \<times> cando_token" where
  "lex_error lx start_pos start_line start_line_start msg =
     (let lx = lx\<lparr>lx_error_msg := take 255 msg\<rparr>
      in (lx, make_token lx TOK_ERROR start_pos start_line start_line_start))"

section \<open>Scanning loops\<close>

text \<open>Advance while there is a character that satisfies \<open>P\<close>.\<close>

function lex_while :: "(char \<Rightarrow> bool) \<Rightarrow> cando_lexer \<Rightarrow> cando_lexer" where
  "lex_while P lx =
     (if \<not> lex_at_end lx \<and> P (lex_peek_char lx) then lex_while P (snd (lex_advance lx)) else lx)"
  by auto
termination by (relation "measure (lex_left \<circ> snd)") (auto simp: lex_advance_left [simplified])

definition skip_line_comment :: "cando_lexer \<Rightarrow> cando_lexer" where
  "skip_line_comment lx = lex_while (\<lambda>c. c \<noteq> CHR 0x0A) lx"

text \<open>The flag tells whether the closing pair was found.\<close>

function skip_block_comment :: "cando_lexer \<Rightarrow> cando_lexer \<times> bool" where
  "skip_block_comment lx =
     (if lex_at_end lx then (lx, False)
      else let (c, lx) = lex_advance lx
           in if c = CHR ''*'' \<and> lex_peek_char lx = CHR ''/'' then (snd (lex_advance lx), True)
              else skip_block_comment lx)"
  by auto
termination by (relation "measure lex_left") (simp_all add: lex_advance_less)

text \<open>The body of a quoted string up to and including the closing quote; a backslash takes the next
  character with it.\<close>

function lex_quoted :: "char \<Rightarrow> cando_lexer \<Rightarrow> cando_lexer \<times> bool" where
  "lex_quoted q lx =
     (if lex_at_end lx then (lx, False)
      else let (c, lx) = lex_advance lx
           in if c = CHR 0x5C then
                (if lex_at_end lx then (lx, False) else lex_quoted q (snd (lex_advance lx)))
              else if c = q then (lx, True)
              else lex_quoted q lx)"
  by auto
termination by (relation "measure (lex_left \<circ> snd)") (simp_all add: lex_advance_less lex_advance_less2 [simplified])

definition lex_string_dq :: "cando_lexer \<Rightarrow> nat \<Rightarrow> nat \<Rightarrow> nat \<Rightarrow> cando_lexer \<times> cando_token" where
  "lex_string_dq lx start_pos start_line start_line_start =
     (case lex_quoted CHR 0x22 lx of
        (lx, True) \<Rightarrow> (lx, make_token lx TOK_STRING_DQ start_pos start_line start_line_start)
      | (lx, False) \<Rightarrow> lex_error lx start_pos start_line start_line_start ''unterminated double-quoted string'')"

definition lex_string_sq :: "cando_lexer \<Rightarrow> nat \<Rightarrow> nat \<Rightarrow> nat \<Rightarrow> cando_lexer \<times> cando_token" where
  "lex_string_sq lx start_pos start_line start_line_start =
     (case lex_quoted CHR 0x27 lx of
        (lx, True) \<Rightarrow> (lx, make_token lx TOK_STRING_SQ start_pos start_line start_line_start)
      | (lx, False) \<Rightarrow> lex_error lx start_pos start_line start_line_start ''unterminated single-quoted string'')"

text \<open>Inside \<open>${\<close> braces are counted, whatever they are part of.\<close>

function skip_interpolation :: "nat \<Rightarrow> cando_lexer \<Rightarrow> cando_lexer \<times> nat" where
  "skip_interpolation depth lx =
     (if lex_at_end lx \<or> depth = 0 then (lx, depth)
      else let (ic, lx) = lex_advance lx
           in skip_interpolation (if ic = CHR ''{'' then depth + 1 else if ic = CHR ''}'' then depth - 1 else depth) lx)"
  by auto
termination by (relation "measure (lex_left \<circ> snd)") (simp_all add: lex_advance_less)

lemma skip_interpolation_pos:
  "skip_interpolation depth lx = (lx', n) \<Longrightarrow> lx_source lx' = lx_source lx \<and> lx_pos lx \<le> lx_pos lx'"
proof (induction depth lx rule: skip_interpolation.induct)
  case (1 depth lx)
  show ?case
  proof (cases "lex_at_end lx \<or> depth = 0")
    case True
    then show ?thesis using "1.prems" by simp
  next
    case False
    obtain ic l1 where a: "lex_advance lx = (ic, l1)" by force
    have p: "lx_source l1 = lx_source lx" "lx_pos lx \<le> lx_pos l1"
      using lex_advance_source [of lx] lex_advance_pos [of lx] a by (simp_all split: if_splits)
    have "skip_interpolation (if ic = CHR ''{'' then depth + 1 else if ic = CHR ''}'' then depth - 1 else depth) l1 = (lx', n)"
      using "1.prems" False a by (simp add: skip_interpolation.simps [of depth lx])
    from "1.IH" [OF False a [symmetric] refl this] show ?thesis using p by simp
  qed
qed

lemma interpolation_less:
  assumes "(c, l1) = lex_advance lx" "\<not> lex_at_end lx" "(l2, n) = skip_interpolation d (snd (lex_advance l1))"
  shows "lex_left l2 < lex_left lx"
  using skip_interpolation_pos [OF assms(3) [symmetric]] lex_advance_less2 [OF assms(1,2)] by auto

declare skip_interpolation.simps [simp del] lex_quoted.simps [simp del] skip_block_comment.simps [simp del] lex_while.simps [simp del]

datatype bt_end = BtClosed | BtOpen | BtOpenInterpolation

function lex_backtick :: "cando_lexer \<Rightarrow> cando_lexer \<times> bt_end" where
  "lex_backtick lx =
     (if lex_at_end lx then (lx, BtOpen)
      else let (c, lx) = lex_advance lx
           in if c = CHR 0x5C then
                (if lex_at_end lx then (lx, BtOpen) else lex_backtick (snd (lex_advance lx)))
              else if c = CHR ''$'' \<and> lex_peek_char lx = CHR ''{'' then
                (case skip_interpolation 1 (snd (lex_advance lx)) of
                   (lx, depth) \<Rightarrow> if depth \<noteq> 0 then (lx, BtOpenInterpolation) else lex_backtick lx)
              else if c = CHR 0x60 then (lx, BtClosed)
              else lex_backtick lx)"
  by auto
termination
proof (relation "measure lex_left")
  show "wf (measure lex_left)" by simp
qed (simp_all add: lex_advance_less lex_advance_less2 [simplified] interpolation_less)

declare lex_backtick.simps [simp del]

definition lex_string_bt :: "cando_lexer \<Rightarrow> nat \<Rightarrow> nat \<Rightarrow> nat \<Rightarrow> cando_lexer \<times> cando_token" where
  "lex_string_bt lx start_pos start_line start_line_start =
     (case lex_backtick lx of
        (lx, BtClosed) \<Rightarrow> (lx, make_token lx TOK_STRING_BT start_pos start_line start_line_start)
      | (lx, BtOpenInterpolation) \<Rightarrow>
          lex_error lx start_pos start_line start_line_start ''unterminated interpolation in backtick string''
      | (lx, BtOpen) \<Rightarrow> lex_error lx start_pos start_line start_line_start ''unterminated backtick string'')"

definition lex_number :: "cando_lexer \<Rightarrow> nat \<Rightarrow> nat \<Rightarrow> nat \<Rightarrow> cando_lexer \<times> cando_token" where
  "lex_number lx start_pos start_line start_line_start =
     (let lx = lex_while c_isdigit lx;
          lx = (if lex_peek_char lx = CHR ''.'' \<and> c_isdigit (lex_peek_char2 lx)
                then lex_while c_isdigit (snd (lex_advance lx)) else lx)
      in (lx, make_token lx TOK_NUMBER start_pos start_line start_line_start))"

definition is_ident_char :: "char \<Rightarrow> bool" where
  "is_ident_char c \<longleftrightarrow> c_isalnum c \<or> c = CHR ''_''"

definition lex_ident :: "cando_lexer \<Rightarrow> nat \<Rightarrow> nat \<Rightarrow> nat \<Rightarrow> cando_lexer \<times> cando_token" where
  "lex_ident lx start_pos start_line start_line_start =
     (let lx = lex_while is_ident_char lx;
          len = u32 (lx_pos lx - start_pos);
          kw = cando_keyword_type (take len (drop start_pos (lx_source lx)))
      in (lx, make_token lx kw start_pos start_line start_line_start))"

section \<open>The next token\<close>

text \<open>The operators: after the first character \<open>c\<close>, what the code tries to match next, in order, with the
  token it makes; the last entry has nothing to match.\<close>

definition operator_choices :: "char \<Rightarrow> (char option \<times> token_type) list" where
  "operator_choices c =
     (if c = CHR ''('' then [(None, TOK_LPAREN)]
      else if c = CHR '')'' then [(None, TOK_RPAREN)]
      else if c = CHR ''{'' then [(None, TOK_LBRACE)]
      else if c = CHR ''}'' then [(None, TOK_RBRACE)]
      else if c = CHR ''['' then [(None, TOK_LBRACKET)]
      else if c = CHR '']'' then [(None, TOK_RBRACKET)]
      else if c = CHR '';'' then [(None, TOK_SEMI)]
      else if c = CHR '','' then [(None, TOK_COMMA)]
      else if c = CHR ''#'' then [(None, TOK_HASH)]
      else if c = CHR ''^'' then [(Some CHR ''='', TOK_CARET_ASSIGN), (None, TOK_CARET)]
      else if c = CHR ''%'' then [(Some CHR ''='', TOK_PERCENT_ASSIGN), (None, TOK_PERCENT)]
      else if c = CHR ''*'' then [(Some CHR ''='', TOK_STAR_ASSIGN), (None, TOK_STAR)]
      else if c = CHR ''/'' then [(Some CHR ''='', TOK_SLASH_ASSIGN), (None, TOK_SLASH)]
      else if c = CHR ''+'' then [(Some CHR ''+'', TOK_INCR), (Some CHR ''='', TOK_PLUS_ASSIGN), (None, TOK_PLUS)]
      else if c = CHR ''-'' then
        [(Some CHR ''-'', TOK_DECR), (Some CHR ''='', TOK_MINUS_ASSIGN), (Some CHR ''>'', TOK_RANGE_ASC), (None, TOK_MINUS)]
      else if c = CHR ''<'' then
        [(Some CHR ''='', TOK_LEQ), (Some CHR ''<'', TOK_LSHIFT), (Some CHR ''-'', TOK_RANGE_DESC), (None, TOK_LT)]
      else if c = CHR ''>'' then [(Some CHR ''='', TOK_GEQ), (Some CHR ''>'', TOK_RSHIFT), (None, TOK_GT)]
      else if c = CHR ''='' then [(Some CHR ''='', TOK_EQ), (Some CHR ''>'', TOK_FAT_ARROW), (None, TOK_ASSIGN)]
      else if c = CHR ''!'' then [(Some CHR ''='', TOK_NEQ), (None, TOK_BANG)]
      else if c = CHR ''&'' then [(Some CHR ''&'', TOK_AND), (None, TOK_AMP)]
      else if c = CHR ''|'' then [(Some CHR ''|'', TOK_OR), (Some CHR ''&'', TOK_BITXOR), (None, TOK_BITOR)]
      else if c = CHR '':'' then [(Some CHR '':'', TOK_FLUENT), (None, TOK_COLON)]
      else if c = CHR ''~'' then [(Some CHR ''>'', TOK_PIPE_OP), (None, TOK_TILDE)]
      else [])"

fun match_choices :: "cando_lexer \<Rightarrow> (char option \<times> token_type) list \<Rightarrow> (cando_lexer \<times> token_type) option" where
  "match_choices lx [] = None"
| "match_choices lx ((None, t) # cs) = Some (lx, t)"
| "match_choices lx ((Some c, t) # cs) =
     (case lex_match lx c of Some lx' \<Rightarrow> Some (lx', t) | None \<Rightarrow> match_choices lx cs)"

text \<open>\<open>%02X\<close> of a byte.\<close>

definition hex2 :: "nat \<Rightarrow> string" where
  "hex2 n = [hex_upper (n div 16), hex_upper (n mod 16)]"

definition unexpected_msg :: "char \<Rightarrow> nat \<Rightarrow> string" where
  "unexpected_msg c line =
     take 63 (''unexpected character '' @ [CHR 0x27, CHR 0x5C] @ ''x'' @ hex2 (byte_of c) @ [CHR 0x27] @
              '' (line '' @ decimal line @ '')'')"

text \<open>One token from its first character on: \<open>c\<close> has been consumed and is neither blank nor the start of a
  comment.\<close>

definition lex_token :: "cando_lexer \<Rightarrow> char \<Rightarrow> nat \<Rightarrow> nat \<Rightarrow> nat \<Rightarrow> cando_lexer \<times> cando_token" where
  "lex_token lx c start_pos start_line start_line_start =
     (let tok = (\<lambda>lx t. (lx, make_token lx t start_pos start_line start_line_start))
      in if c = CHR ''.'' then
           (if lex_peek_char lx = CHR ''.'' \<and> lex_peek_char2 lx = CHR ''.''
            then tok (snd (lex_advance (snd (lex_advance lx)))) TOK_VARARG
            else tok lx TOK_DOT)
         else if c = CHR ''~'' \<and> lex_peek_char lx = CHR ''!'' \<and> lex_peek_char2 lx = CHR ''>''
           then tok (snd (lex_advance (snd (lex_advance lx)))) TOK_FILTER_OP
         else if c = CHR 0x22 then lex_string_dq lx start_pos start_line start_line_start
         else if c = CHR 0x27 then lex_string_sq lx start_pos start_line start_line_start
         else if c = CHR 0x60 then lex_string_bt lx start_pos start_line start_line_start
         else case match_choices lx (operator_choices c) of
           Some (lx, t) \<Rightarrow> tok lx t
         | None \<Rightarrow>
             if c_isdigit c then lex_number lx start_pos start_line start_line_start
             else if c_isalpha c \<or> c = CHR ''_'' then lex_ident lx start_pos start_line start_line_start
             else lex_error lx start_pos start_line start_line_start (unexpected_msg c start_line))"

text \<open>After the blanks: a comment, and the search starts again; or one token.\<close>

definition skip_blanks :: "cando_lexer \<Rightarrow> cando_lexer" where
  "skip_blanks lx = lex_while c_isspace lx"

lemma lex_while_pos: "lx_source (lex_while P lx) = lx_source lx \<and> lx_pos lx \<le> lx_pos (lex_while P lx)"
proof (induction P lx rule: lex_while.induct)
  case (1 P lx)
  then show ?case using lex_advance_pos [of lx] by (subst (1 2) lex_while.simps) (auto split: if_splits)
qed

lemma skip_block_comment_pos:
  "skip_block_comment lx = (lx', b) \<Longrightarrow> lx_source lx' = lx_source lx \<and> lx_pos lx \<le> lx_pos lx'"
proof (induction lx rule: skip_block_comment.induct)
  case (1 lx)
  show ?case
  proof (cases "lex_at_end lx")
    case True
    then show ?thesis using "1.prems" by (simp add: skip_block_comment.simps)
  next
    case False
    obtain c l1 where a: "lex_advance lx = (c, l1)" by force
    have p: "lx_source l1 = lx_source lx" "lx_pos lx \<le> lx_pos l1"
      using lex_advance_source [of lx] lex_advance_pos [of lx] a by (simp_all split: if_splits)
    then show ?thesis
      using "1.prems" False a "1.IH" [OF False a [symmetric] refl] lex_advance_source [of l1] lex_advance_pos [of l1]
      by (auto simp: skip_block_comment.simps [of lx] split: if_splits)
  qed
qed

function cando_lexer_next :: "cando_lexer \<Rightarrow> cando_lexer \<times> cando_token" where
  "cando_lexer_next lx =
     (let lx = skip_blanks lx
      in if lex_at_end lx then (lx, make_token lx TOK_EOF (lx_pos lx) (lx_line lx) (lx_line_start lx))
         else let start_pos = lx_pos lx; start_line = lx_line lx; start_line_start = lx_line_start lx;
                  (c, lx) = lex_advance lx
           in if c = CHR ''/'' \<and> lex_peek_char lx = CHR ''/'' then
                cando_lexer_next (skip_line_comment (snd (lex_advance lx)))
              else if c = CHR ''/'' \<and> lex_peek_char lx = CHR ''*'' then
                (case skip_block_comment (snd (lex_advance lx)) of
                   (lx, True) \<Rightarrow> cando_lexer_next lx
                 | (lx, False) \<Rightarrow> lex_error lx start_pos start_line start_line_start ''unterminated block comment'')
              else lex_token lx c start_pos start_line start_line_start)"
  by auto

lemma comment_less:
  assumes "(c, l1) = lex_advance (skip_blanks lx)" "\<not> lex_at_end (skip_blanks lx)"
  shows "lex_left (skip_line_comment (snd (lex_advance l1))) < lex_left lx"
    "(l2, b) = skip_block_comment (snd (lex_advance l1)) \<Longrightarrow> lex_left l2 < lex_left lx"
proof -
  have "lex_left (skip_blanks lx) \<le> lex_left lx" using lex_while_pos [of c_isspace lx] by (auto simp: skip_blanks_def)
  then have 1: "lex_left (snd (lex_advance l1)) < lex_left lx" using lex_advance_less2 [OF assms] by simp
  then show "lex_left (skip_line_comment (snd (lex_advance l1))) < lex_left lx"
    using lex_while_pos [of "\<lambda>c. c \<noteq> CHR 0x0A" "snd (lex_advance l1)"] by (auto simp: skip_line_comment_def)
  show "lex_left l2 < lex_left lx" if "(l2, b) = skip_block_comment (snd (lex_advance l1))"
    using skip_block_comment_pos [OF that [symmetric]] 1 by auto
qed

termination cando_lexer_next by (relation "measure lex_left") (simp_all add: comment_less)

declare cando_lexer_next.simps [simp del]

text \<open>Peeking restores everything the scan changed.\<close>

definition cando_lexer_peek :: "cando_lexer \<Rightarrow> cando_lexer \<times> cando_token" where
  "cando_lexer_peek lx =
     (case cando_lexer_next lx of
        (lx', tok) \<Rightarrow> (lx'\<lparr>lx_pos := lx_pos lx, lx_line := lx_line lx, lx_line_start := lx_line_start lx,
                          lx_error_msg := lx_error_msg lx\<rparr>, tok))"

definition cando_lexer_error_msg :: "cando_lexer \<Rightarrow> string option" where
  "cando_lexer_error_msg lx = (if lx_error_msg lx = [] then None else Some (lx_error_msg lx))"

section \<open>The cursor invariant\<close>

text \<open>Line number and start of the line of a position, read off the source.\<close>

definition line_no :: "string \<Rightarrow> nat \<Rightarrow> nat" where
  "line_no src p = 1 + count_list (take p src) CHR 0x0A"

definition line_begin :: "string \<Rightarrow> nat \<Rightarrow> nat" where
  "line_begin src p = p - length (takeWhile (\<lambda>c. c \<noteq> CHR 0x0A) (rev (take p src)))"

definition lex_ok :: "cando_lexer \<Rightarrow> bool" where
  "lex_ok lx \<longleftrightarrow> lx_pos lx \<le> length (lx_source lx) \<and> lx_line lx = u32 (line_no (lx_source lx) (lx_pos lx)) \<and>
     lx_line_start lx = line_begin (lx_source lx) (lx_pos lx)"

text \<open>Moving the cursor forward, lines tracked.\<close>

definition lex_moves :: "cando_lexer \<Rightarrow> cando_lexer \<Rightarrow> bool" where
  "lex_moves lx lx' \<longleftrightarrow> lx_source lx' = lx_source lx \<and> lx_pos lx \<le> lx_pos lx' \<and> (lex_ok lx \<longrightarrow> lex_ok lx')"

lemma lex_moves_refl [simp]: "lex_moves lx lx"
  by (simp add: lex_moves_def)

lemma lex_moves_trans [trans]: "lex_moves a b \<Longrightarrow> lex_moves b c \<Longrightarrow> lex_moves a c"
  by (auto simp: lex_moves_def)

lemma lex_moves_error [simp]: "lex_moves a (b\<lparr>lx_error_msg := m\<rparr>) \<longleftrightarrow> lex_moves a b"
  by (simp add: lex_moves_def lex_ok_def)

lemma init_ok: "lex_ok (cando_lexer_init src)"
  by (simp add: lex_ok_def cando_lexer_init_def line_no_def line_begin_def)

lemma line_Suc:
  assumes "p < length src"
  shows "line_no src (Suc p) = line_no src p + (if src ! p = CHR 0x0A then 1 else 0)"
    "line_begin src (Suc p) = (if src ! p = CHR 0x0A then Suc p else line_begin src p)"
proof -
  have "length (takeWhile (\<lambda>c. c \<noteq> CHR 0x0A) (rev (take p src))) \<le> p"
    by (rule le_trans [OF length_takeWhile_le]) simp
  then show "line_no src (Suc p) = line_no src p + (if src ! p = CHR 0x0A then 1 else 0)"
    "line_begin src (Suc p) = (if src ! p = CHR 0x0A then Suc p else line_begin src p)"
    using assms by (auto simp: line_no_def line_begin_def take_Suc_conv_app_nth)
qed

lemma advance_moves: "lex_moves lx (snd (lex_advance lx))"
  by (auto simp: lex_moves_def lex_ok_def lex_advance_def Let_def line_Suc mod_Suc_eq)

lemma match_moves: "lex_match lx c = Some lx' \<Longrightarrow> c \<noteq> CHR 0x0A \<Longrightarrow> lex_moves lx lx' \<and> lx_pos lx < lx_pos lx'"
  by (auto simp: lex_moves_def lex_ok_def lex_match_def lex_at_end_def line_Suc split: if_splits)

lemma while_moves: "lex_moves lx (lex_while P lx)"
proof (induction P lx rule: lex_while.induct)
  case (1 P lx)
  then show ?case by (subst lex_while.simps) (auto intro: lex_moves_trans [OF advance_moves])
qed

lemma quoted_moves: "lex_moves lx (fst (lex_quoted q lx))"
proof (induction q lx rule: lex_quoted.induct)
  case (1 q lx)
  obtain c l1 where a: "lex_advance lx = (c, l1)" by force
  have m: "lex_moves lx l1" "lex_moves l1 (snd (lex_advance l1))"
    using advance_moves [of lx] advance_moves [of l1] a by simp_all
  show ?case
  proof (cases "lex_at_end lx \<or> c = CHR 0x5C \<and> lex_at_end l1 \<or> c \<noteq> CHR 0x5C \<and> c = q")
    case True
    then show ?thesis using m a by (subst lex_quoted.simps) auto
  next
    case False
    then have "lex_moves (if c = CHR 0x5C then snd (lex_advance l1) else l1) (fst (lex_quoted q lx))"
      using "1.IH" [OF _ a [symmetric] refl] a by (auto simp: lex_quoted.simps [of q lx])
    then show ?thesis using m by (auto intro: lex_moves_trans split: if_splits)
  qed
qed

lemma interpolation_moves: "lex_moves lx (fst (skip_interpolation d lx))"
proof (induction d lx rule: skip_interpolation.induct)
  case (1 d lx)
  obtain c l1 where a: "lex_advance lx = (c, l1)" by force
  have m: "lex_moves lx l1" using advance_moves [of lx] a by simp
  show ?case
  proof (cases "lex_at_end lx \<or> d = 0")
    case True
    then show ?thesis by (subst skip_interpolation.simps) simp
  next
    case False
    then show ?thesis using "1.IH" [OF False a [symmetric] refl] a m
      by (subst skip_interpolation.simps) (auto intro: lex_moves_trans)
  qed
qed

lemma block_comment_moves: "lex_moves lx (fst (skip_block_comment lx))"
proof (induction lx rule: skip_block_comment.induct)
  case (1 lx)
  obtain c l1 where a: "lex_advance lx = (c, l1)" by force
  have m: "lex_moves lx l1" "lex_moves l1 (snd (lex_advance l1))"
    using advance_moves [of lx] advance_moves [of l1] a by simp_all
  then show ?case using "1.IH" [OF _ a [symmetric] refl] a
    by (subst skip_block_comment.simps) (auto intro: lex_moves_trans)
qed

lemma backtick_moves: "lex_moves lx (fst (lex_backtick lx))"
proof (induction lx rule: lex_backtick.induct)
  case (1 lx)
  obtain c l1 where a: "lex_advance lx = (c, l1)" by force
  obtain l2 n where i: "skip_interpolation 1 (snd (lex_advance l1)) = (l2, n)" by force
  have m: "lex_moves lx l1" "lex_moves lx (snd (lex_advance l1))" "lex_moves lx l2"
    using advance_moves [of lx] advance_moves [of l1] interpolation_moves [of "snd (lex_advance l1)" 1] a i
    by (auto intro: lex_moves_trans)
  have eq: "lex_backtick lx =
      (if lex_at_end lx then (lx, BtOpen)
       else if c = CHR 0x5C then (if lex_at_end l1 then (l1, BtOpen) else lex_backtick (snd (lex_advance l1)))
       else if c = CHR ''$'' \<and> lex_peek_char l1 = CHR ''{'' then
         (if n \<noteq> 0 then (l2, BtOpenInterpolation) else lex_backtick l2)
       else if c = CHR 0x60 then (l1, BtClosed) else lex_backtick l1)"
    by (simp add: lex_backtick.simps [of lx] a i del: One_nat_def)
  note IH = "1.IH"(1) [OF _ a [symmetric] refl] "1.IH"(2) [OF _ a [symmetric] refl _ _ i [symmetric]]
    "1.IH"(3) [OF _ a [symmetric] refl]
  show ?case unfolding eq
    using m lex_moves_trans [OF m(1) IH(3)] lex_moves_trans [OF m(2) IH(1)] lex_moves_trans [OF m(3) IH(2)] by auto
qed

section \<open>What one token is\<close>

lemma keyword_not_eof: "cando_keyword_type w \<noteq> TOK_EOF"
proof -
  have "t \<noteq> TOK_EOF" if "(kw, t) \<in> set KEYWORDS" for kw t
    using that by (auto simp: KEYWORDS_def)
  then show ?thesis
    by (auto simp: cando_keyword_type_def find_Some_iff split: option.splits) (metis nth_mem)+
qed

lemma operator_choices_ok: "(o', t) \<in> set (operator_choices c) \<Longrightarrow> t \<noteq> TOK_EOF \<and> o' \<noteq> Some CHR 0x0A"
  by (auto simp: operator_choices_def split: if_splits)

lemma match_choices_moves:
  "match_choices lx cs = Some (lx', t) \<Longrightarrow> (\<And>o' t. (o', t) \<in> set cs \<Longrightarrow> t \<noteq> TOK_EOF \<and> o' \<noteq> Some CHR 0x0A) \<Longrightarrow>
   lex_moves lx lx' \<and> t \<noteq> TOK_EOF"
proof (induction lx cs rule: match_choices.induct)
  case (2 lx t cs)
  then show ?case by auto
next
  case (3 lx c t cs)
  then have c: "c \<noteq> CHR 0x0A" "t \<noteq> TOK_EOF" by force+
  show ?case
  proof (cases "lex_match lx c")
    case None
    then show ?thesis using 3 by auto
  next
    case (Some l)
    then show ?thesis using match_moves [OF Some c(1)] c(2) "3.prems"(1) by simp
  qed
qed simp

definition token_from :: "nat \<Rightarrow> nat \<Rightarrow> nat \<Rightarrow> cando_lexer \<Rightarrow> cando_lexer \<times> cando_token \<Rightarrow> bool" where
  "token_from s l b lx r \<longleftrightarrow> lex_moves lx (fst r) \<and> (\<exists>ty. ty \<noteq> TOK_EOF \<and> snd r = make_token (fst r) ty s l b)"

lemma token_fromI: "lex_moves lx lx' \<Longrightarrow> ty \<noteq> TOK_EOF \<Longrightarrow> token_from s l b lx (lx', make_token lx' ty s l b)"
  by (auto simp: token_from_def)

lemma token_from_error: "lex_moves lx lx' \<Longrightarrow> token_from s l b lx (lex_error lx' s l b m)"
  by (auto simp: token_from_def lex_error_def make_token_def Let_def)

lemma lex_token_from: "token_from s l b lx (lex_token lx c s l b)"
proof -
  have two: "lex_moves lx (snd (lex_advance (snd (lex_advance lx))))"
    using advance_moves lex_moves_trans by blast
  have num: "token_from s l b lx (lex_number lx s l b)"
    unfolding lex_number_def Let_def
    by (rule token_fromI) (simp, meson lex_moves_trans while_moves advance_moves, simp)
  have ident: "token_from s l b lx (lex_ident lx s l b)"
    unfolding lex_ident_def Let_def by (rule token_fromI [OF while_moves keyword_not_eof])
  have dq: "token_from s l b lx (lex_string_dq lx s l b)" and sq: "token_from s l b lx (lex_string_sq lx s l b)"
    using quoted_moves [of lx "CHR 0x22"] quoted_moves [of lx "CHR 0x27"]
    by (auto simp: lex_string_dq_def lex_string_sq_def intro: token_fromI token_from_error split: prod.split bool.split)
  have bt: "token_from s l b lx (lex_string_bt lx s l b)"
    using backtick_moves [of lx]
    by (auto simp: lex_string_bt_def intro: token_fromI token_from_error split: prod.split bt_end.split)
  have err: "token_from s l b lx (lex_error lx s l b m)" for m by (rule token_from_error) simp
  have op: "match_choices lx (operator_choices c) = Some (l1, t) \<Longrightarrow> token_from s l b lx (l1, make_token l1 t s l b)" for l1 t
    using match_choices_moves [of lx "operator_choices c" l1 t] operator_choices_ok by (intro token_fromI) blast+
  note rules = two num ident dq sq bt err op token_fromI
  show ?thesis
  proof (cases "match_choices lx (operator_choices c)")
    case None
    then show ?thesis unfolding lex_token_def Let_def by (simp add: rules)
  next
    case (Some r)
    then show ?thesis unfolding lex_token_def Let_def by (cases r) (simp add: rules)
  qed
qed

section \<open>Blanks and comments\<close>

definition seg :: "string \<Rightarrow> nat \<Rightarrow> nat \<Rightarrow> string" where
  "seg src i j = take (j - i) (drop i src)"

lemma seg_refl [simp]: "seg src i i = []"
  by (simp add: seg_def)

lemma seg_append: "i \<le> j \<Longrightarrow> j \<le> k \<Longrightarrow> seg src i j @ seg src j k = seg src i k"
proof -
  assume a: "i \<le> j" "j \<le> k"
  then have "k - i = (j - i) + (k - j)" by simp
  then have "seg src i k = take (j - i) (drop i src) @ take (k - j) (drop (j - i) (drop i src))"
    unfolding seg_def by (simp only: take_add)
  then show ?thesis using a by (simp add: seg_def)
qed

lemma seg_one: "i < length src \<Longrightarrow> seg src i (Suc i) = [src ! i]"
  by (simp add: seg_def take_Suc_conv_app_nth Suc_diff_le)

text \<open>What may stand between two tokens. A block comment ends at the first closing pair.\<close>

inductive trivia :: "string \<Rightarrow> bool" where
  trivia_end: "trivia []"
| trivia_blank: "c_isspace c \<Longrightarrow> trivia s \<Longrightarrow> trivia (c # s)"
| trivia_line: "CHR 0x0A \<notin> set b \<Longrightarrow> trivia s \<Longrightarrow> s = [] \<or> hd s = CHR 0x0A \<Longrightarrow> trivia (''//'' @ b @ s)"
| trivia_block: "\<nexists>u v. b @ ''*'' = u @ ''*/'' @ v \<Longrightarrow> trivia s \<Longrightarrow> trivia (''/*'' @ b @ ''*/'' @ s)"

lemma trivia_blanks: "list_all c_isspace w \<Longrightarrow> trivia s \<Longrightarrow> trivia (w @ s)"
  by (induction w) (auto intro: trivia_blank)

lemma peek_nth: "\<not> lex_at_end lx \<Longrightarrow> lex_peek_char lx = lx_source lx ! lx_pos lx"
  by (simp add: lex_at_end_def lex_peek_char_def)

lemma advance_char:
  assumes "\<not> lex_at_end lx" "lex_advance lx = (c, l1)"
  shows "c = lx_source lx ! lx_pos lx" "lx_pos l1 = Suc (lx_pos lx)" "lx_source l1 = lx_source lx"
    "seg (lx_source lx) (lx_pos lx) (lx_pos l1) = [c]"
  using assms lex_advance_pos [of lx] lex_advance_source [of lx]
  by (auto simp: lex_advance_def lex_at_end_def Let_def seg_one split: if_splits)

lemma while_segment:
  "list_all P (seg (lx_source lx) (lx_pos lx) (lx_pos (lex_while P lx))) \<and>
   (lex_at_end (lex_while P lx) \<or> \<not> P (lex_peek_char (lex_while P lx)))"
proof (induction P lx rule: lex_while.induct)
  case (1 P lx)
  show ?case
  proof (cases "\<not> lex_at_end lx \<and> P (lex_peek_char lx)")
    case True
    obtain c l1 where a: "lex_advance lx = (c, l1)" by force
    note A = advance_char [OF conjunct1 [OF True] a]
    have e: "lex_while P lx = lex_while P l1" using True a by (simp add: lex_while.simps [of P lx])
    have "seg (lx_source lx) (lx_pos lx) (lx_pos (lex_while P l1)) =
        [c] @ seg (lx_source lx) (lx_pos l1) (lx_pos (lex_while P l1))"
      using lex_while_pos [of P l1] A by (subst seg_append [symmetric, of _ "lx_pos l1"]) auto
    moreover have "P c" using True A(1) peek_nth [of lx] by simp
    ultimately show ?thesis using "1.IH" [OF True] a A e by simp
  next
    case False
    then show ?thesis by (auto simp: lex_while.simps [of P lx])
  qed
qed

lemma no_close_Cons:
  assumes "\<nexists>u v. b @ ''*'' = u @ ''*/'' @ v" "\<not> (c = CHR ''*'' \<and> b \<noteq> [] \<and> hd b = CHR ''/'')"
  shows "\<nexists>u v. (c # b) @ ''*'' = u @ ''*/'' @ v"
proof
  assume "\<exists>u v. (c # b) @ ''*'' = u @ ''*/'' @ v"
  then obtain u v where uv: "(c # b) @ ''*'' = u @ ''*/'' @ v" by blast
  show False
  proof (cases u)
    case Nil
    then show False using uv assms(2) by (cases b) auto
  next
    case (Cons x u')
    then show False using uv assms(1) by auto
  qed
qed

lemma block_comment_segment:
  assumes "skip_block_comment lx = (lx', True)"
  shows "\<exists>b. seg (lx_source lx) (lx_pos lx) (lx_pos lx') = b @ ''*/'' \<and> (\<nexists>u v. b @ ''*'' = u @ ''*/'' @ v)"
  using assms
proof (induction lx rule: skip_block_comment.induct)
  case (1 lx)
  have ne: "\<not> lex_at_end lx" using "1.prems" by (auto simp: skip_block_comment.simps [of lx])
  obtain c l1 where a: "lex_advance lx = (c, l1)" by force
  note A = advance_char [OF ne a]
  show ?case
  proof (cases "c = CHR ''*'' \<and> lex_peek_char l1 = CHR ''/''")
    case True
    then have ne1: "\<not> lex_at_end l1" by (auto simp: lex_peek_char_def lex_at_end_def split: if_splits)
    obtain d l2 where a2: "lex_advance l1 = (d, l2)" by force
    note B = advance_char [OF ne1 a2]
    have "lx' = l2" using "1.prems" True ne a a2 by (simp add: skip_block_comment.simps [of lx])
    then have "seg (lx_source lx) (lx_pos lx) (lx_pos lx') = [c] @ [d]"
      using A B by (metis seg_append lessI less_imp_le)
    moreover have "d = CHR ''/''" using True B(1) peek_nth [OF ne1] by simp
    ultimately show ?thesis using True by (intro exI [of _ "[]"]) auto
  next
    case False
    then have e: "skip_block_comment l1 = (lx', True)"
      using "1.prems" ne a by (auto simp: skip_block_comment.simps [of lx])
    from "1.IH" [OF ne a [symmetric] refl False e] obtain b where
      b: "seg (lx_source l1) (lx_pos l1) (lx_pos lx') = b @ ''*/''" "\<nexists>u v. b @ ''*'' = u @ ''*/'' @ v" by blast
    have s: "seg (lx_source lx) (lx_pos lx) (lx_pos lx') = (c # b) @ ''*/''"
      using skip_block_comment_pos [OF e] A b(1) by (metis append_Cons append_Nil lessI less_imp_le seg_append)
    have ne1: "\<not> lex_at_end l1" using e by (auto simp: skip_block_comment.simps [of l1])
    have "lx_pos l1 < lx_pos lx'" using b(1) by (cases "lx_pos l1 < lx_pos lx'") (auto simp: seg_def)
    then have "hd (seg (lx_source l1) (lx_pos l1) (lx_pos lx')) = lx_source l1 ! lx_pos l1"
      using ne1 by (simp add: seg_def lex_at_end_def hd_drop_conv_nth)
    then have "\<not> (c = CHR ''*'' \<and> b \<noteq> [] \<and> hd b = CHR ''/'')"
      using False peek_nth [OF ne1] b(1) by (cases b) auto
    from no_close_Cons [OF b(2) this] show ?thesis using s by blast
  qed
qed

lemma blanks_segment:
  "list_all c_isspace (seg (lx_source lx) (lx_pos lx) (lx_pos (skip_blanks lx)))"
  "lex_moves lx (skip_blanks lx)" "lx_pos lx \<le> lx_pos (skip_blanks lx)" "lx_source (skip_blanks lx) = lx_source lx"
  using while_segment [of c_isspace lx] while_moves [of lx c_isspace] lex_while_pos [of c_isspace lx]
  by (simp_all add: skip_blanks_def)

text \<open>What one call leaves: where the cursor is and what has been passed over.\<close>

definition next_spec :: "cando_lexer \<Rightarrow> cando_lexer \<Rightarrow> cando_token \<Rightarrow> bool" where
  "next_spec lx lx' t \<longleftrightarrow> lex_moves lx lx' \<and> lx_pos lx \<le> tk_start t \<and>
     trivia (seg (lx_source lx) (lx_pos lx) (tk_start t)) \<and>
     (\<exists>l0. lex_moves lx l0 \<and> lx_pos l0 = tk_start t \<and> tk_line t = lx_line l0 \<and>
           tk_col t = u32 (u32 (tk_start t - lx_line_start l0) + 1)) \<and>
     tk_length t = u32 (lx_pos lx' - tk_start t) \<and> tk_start t \<le> lx_pos lx' \<and>
     (tk_type t = TOK_EOF \<longleftrightarrow> tk_start t = lx_pos lx') \<and> (tk_type t = TOK_EOF \<longrightarrow> lex_at_end lx')"

lemma next_specI:
  assumes "next_spec l1 lx' t" "lex_moves lx l1" "\<And>s. trivia s \<Longrightarrow> s = [] \<or> P (hd s) \<Longrightarrow>
      trivia (seg (lx_source lx) (lx_pos lx) (lx_pos l1) @ s)"
    "lex_at_end l1 \<or> P (lex_peek_char l1)"
  shows "next_spec lx lx' t"
proof -
  let ?s = "seg (lx_source lx) (lx_pos l1) (tk_start t)"
  have src: "lx_source l1 = lx_source lx" "lx_pos lx \<le> lx_pos l1" "lx_pos l1 \<le> tk_start t"
    using assms(1,2) by (simp_all add: next_spec_def lex_moves_def)
  have "?s = [] \<or> P (hd ?s)"
  proof (cases "lex_at_end l1 \<or> tk_start t = lx_pos l1")
    case True
    then show ?thesis using src by (auto simp: seg_def lex_at_end_def)
  next
    case False
    then have "hd ?s = lx_source l1 ! lx_pos l1"
      using src by (simp add: seg_def lex_at_end_def hd_drop_conv_nth)
    then show ?thesis using False assms(4) peek_nth [of l1] by simp
  qed
  moreover have "trivia ?s" using assms(1) src by (simp add: next_spec_def)
  ultimately have "trivia (seg (lx_source lx) (lx_pos lx) (tk_start t))"
    using assms(3) src seg_append [of "lx_pos lx" "lx_pos l1" "tk_start t" "lx_source lx"] by metis
  then show ?thesis using assms(1,2) src lex_moves_trans [OF assms(2)] unfolding next_spec_def by (meson order_trans)
qed

lemma next_spec_token:
  assumes "lex_moves lx l0" "seg (lx_source lx) (lx_pos lx) (lx_pos l0) = w" "trivia w" "\<not> lex_at_end l0"
    "lex_advance l0 = (c, l1)" "token_from (lx_pos l0) (lx_line l0) (lx_line_start l0) l1 (lx', t)"
  shows "next_spec lx lx' t"
proof -
  have "lx_pos l1 = Suc (lx_pos l0)" "lex_moves l0 l1"
    using advance_char(2) [OF assms(4,5)] advance_moves [of l0] assms(5) by simp_all
  then show ?thesis
    using assms lex_moves_trans [OF assms(1)]
    unfolding next_spec_def token_from_def by (auto simp: make_token_def lex_moves_def)
qed

lemma line_comment_segment:
  assumes "skip_line_comment l2 = l3"
  shows "CHR 0x0A \<notin> set (seg (lx_source l2) (lx_pos l2) (lx_pos l3))"
    "lex_at_end l3 \<or> lex_peek_char l3 = CHR 0x0A" "lex_moves l2 l3"
  using while_segment [of "\<lambda>c. c \<noteq> CHR 0x0A" l2] while_moves [of l2 "\<lambda>c. c \<noteq> CHR 0x0A"] assms
  by (auto simp: skip_line_comment_def list_all_iff)

lemma lexer_next_spec: "cando_lexer_next lx = (lx', t) \<Longrightarrow> next_spec lx lx' t"
proof (induction lx arbitrary: lx' t rule: cando_lexer_next.induct)
  case (1 lx)
  define l0 where "l0 = skip_blanks lx"
  note B = blanks_segment [of lx, folded l0_def]
  note blank = trivia_blanks [OF B(1)]
  show ?case
  proof (cases "lex_at_end l0")
    case True
    then have "lx' = l0" "t = make_token l0 TOK_EOF (lx_pos l0) (lx_line l0) (lx_line_start l0)"
      using "1.prems" by (auto simp: cando_lexer_next.simps [of lx] l0_def Let_def)
    then show ?thesis
      using B True blank [OF trivia_end] unfolding next_spec_def by (auto simp: make_token_def)
  next
    case ne: False
    obtain c l1 where a: "lex_advance l0 = (c, l1)" by force
    note A = advance_char [OF ne a]
    have e: "cando_lexer_next lx =
        (if c = CHR ''/'' \<and> lex_peek_char l1 = CHR ''/'' then cando_lexer_next (skip_line_comment (snd (lex_advance l1)))
         else if c = CHR ''/'' \<and> lex_peek_char l1 = CHR ''*'' then
           (case skip_block_comment (snd (lex_advance l1)) of
              (lx, True) \<Rightarrow> cando_lexer_next lx
            | (lx, False) \<Rightarrow> lex_error lx (lx_pos l0) (lx_line l0) (lx_line_start l0) ''unterminated block comment'')
         else lex_token l1 c (lx_pos l0) (lx_line l0) (lx_line_start l0))"
      using ne a by (simp add: cando_lexer_next.simps [of lx] l0_def Let_def)
    note IH = "1.IH" [OF l0_def ne [unfolded l0_def, folded l0_def] refl refl refl, OF a [symmetric] refl]
    have two: "\<exists>l2. lex_advance l1 = (d, l2) \<and> lex_moves lx l2 \<and> lx_pos l0 \<le> lx_pos l2 \<and>
        seg (lx_source lx) (lx_pos l0) (lx_pos l2) = [c, d]" if "lex_peek_char l1 = d" "d \<in> {CHR ''/'', CHR ''*''}" for d
    proof -
      have ne1: "\<not> lex_at_end l1" using that by (auto simp: lex_peek_char_def lex_at_end_def)
      obtain d' l2 where a2: "lex_advance l1 = (d', l2)" by force
      note C = advance_char [OF ne1 a2]
      have "d' = d" using C(1) peek_nth [OF ne1] that by simp
      moreover have "seg (lx_source lx) (lx_pos l0) (lx_pos l2) = [c] @ [d']"
        using A C B(4) by (metis seg_append lessI less_imp_le)
      moreover have "lex_moves l0 l1" "lex_moves l1 l2" using advance_moves [of l0] advance_moves [of l1] a a2 by simp_all
      then have "lex_moves lx l2" using B(2) lex_moves_trans by blast
      ultimately show ?thesis using a2 A(2) C(2) by (intro exI [of _ l2]) simp
    qed
    have pre: "seg (lx_source lx) (lx_pos lx) p = seg (lx_source lx) (lx_pos lx) (lx_pos l0) @ seg (lx_source lx) (lx_pos l0) p"
      if "lx_pos l0 \<le> p" for p
      using seg_append [OF B(3) that] by simp
    consider (line) "c = CHR ''/''" "lex_peek_char l1 = CHR ''/''"
      | (block) "c = CHR ''/''" "lex_peek_char l1 = CHR ''*''"
      | (tok) "\<not> (c = CHR ''/'' \<and> lex_peek_char l1 = CHR ''/'')" "\<not> (c = CHR ''/'' \<and> lex_peek_char l1 = CHR ''*'')"
      by blast
    then show ?thesis
    proof cases
      case tok
      then have "token_from (lx_pos l0) (lx_line l0) (lx_line_start l0) l1 (lx', t)"
        using e "1.prems" lex_token_from by metis
      from next_spec_token [OF B(2) refl _ ne a this] show ?thesis using blank [OF trivia_end] by simp
    next
      case line
      obtain l2 where l2: "lex_advance l1 = (CHR ''/'', l2)" "lex_moves lx l2" "lx_pos l0 \<le> lx_pos l2"
          "seg (lx_source lx) (lx_pos l0) (lx_pos l2) = ''//''"
        using two [of "CHR ''/''"] line by auto
      define l3 where "l3 = skip_line_comment l2"
      note L = line_comment_segment [OF l3_def [symmetric]]
      have m: "lex_moves lx l3" using l2(2) L(3) by (rule lex_moves_trans)
      have "cando_lexer_next l3 = (lx', t)" using e "1.prems" line l2(1) by (simp add: l3_def)
      then have "next_spec l3 lx' t" using IH(1) line l2(1) by (simp add: l3_def)
      then show ?thesis
      proof (rule next_specI [OF _ m, of _ _ "\<lambda>c. c = CHR 0x0A"])
        fix s assume s: "trivia s" "s = [] \<or> hd s = CHR 0x0A"
        have "seg (lx_source lx) (lx_pos l0) (lx_pos l3) = ''//'' @ seg (lx_source lx) (lx_pos l2) (lx_pos l3)"
          using seg_append [of "lx_pos l0" "lx_pos l2" "lx_pos l3" "lx_source lx"] l2(3,4) L(3) by (simp add: lex_moves_def)
        moreover have "lx_source l2 = lx_source lx" using l2(2) by (simp add: lex_moves_def)
        ultimately have "trivia (seg (lx_source lx) (lx_pos l0) (lx_pos l3) @ s)"
          using trivia_line [OF _ s, of "seg (lx_source lx) (lx_pos l2) (lx_pos l3)"] L(1) by simp
        moreover have "lx_pos l0 \<le> lx_pos l3" using l2(3) L(3) by (simp add: lex_moves_def)
        ultimately show "trivia (seg (lx_source lx) (lx_pos lx) (lx_pos l3) @ s)" using pre [of "lx_pos l3"] blank by simp
      qed (use L(2) in simp)
    next
      case block
      obtain l2 where l2: "lex_advance l1 = (CHR ''*'', l2)" "lex_moves lx l2" "lx_pos l0 \<le> lx_pos l2"
          "seg (lx_source lx) (lx_pos l0) (lx_pos l2) = ''/*''"
        using two [of "CHR ''*''"] block by auto
      obtain l3 b where s3: "skip_block_comment l2 = (l3, b)" by force
      have m23: "lex_moves l2 l3" using block_comment_moves [of l2] s3 by simp
      show ?thesis
      proof (cases b)
        case False
        have m13: "lex_moves l1 l3" using advance_moves [of l1] l2(1) m23 lex_moves_trans [of l1 l2 l3] by simp
        have er: "(lx', t) = lex_error l3 (lx_pos l0) (lx_line l0) (lx_line_start l0) ''unterminated block comment''"
          using e "1.prems" block l2(1) s3 False by simp
        have "token_from (lx_pos l0) (lx_line l0) (lx_line_start l0) l1 (lx', t)"
          unfolding er by (rule token_from_error [OF m13])
        from next_spec_token [OF B(2) refl _ ne a this] show ?thesis using blank [OF trivia_end] by simp
      next
        case True
        have m: "lex_moves lx l3" using l2(2) m23 by (rule lex_moves_trans)
        obtain body where body: "seg (lx_source l2) (lx_pos l2) (lx_pos l3) = body @ ''*/''"
            "\<nexists>u v. body @ ''*'' = u @ ''*/'' @ v"
          using block_comment_segment [of l2 l3] s3 True by auto
        have "cando_lexer_next l3 = (lx', t)" using e "1.prems" block l2(1) s3 True by simp
        then have "next_spec l3 lx' t" using IH(2) block l2(1) s3 True by simp
        then show ?thesis
        proof (rule next_specI [OF _ m, of _ _ "\<lambda>_. True"])
          fix s assume s: "trivia s"
          have "seg (lx_source lx) (lx_pos l0) (lx_pos l3) = ''/*'' @ seg (lx_source lx) (lx_pos l2) (lx_pos l3)"
            using seg_append [of "lx_pos l0" "lx_pos l2" "lx_pos l3" "lx_source lx"] l2(3,4) m23 by (simp add: lex_moves_def)
          moreover have "lx_source l2 = lx_source lx" using l2(2) by (simp add: lex_moves_def)
          ultimately have "trivia (seg (lx_source lx) (lx_pos l0) (lx_pos l3) @ s)"
            using trivia_block [OF body(2) s] body(1) by simp
          moreover have "lx_pos l0 \<le> lx_pos l3" using l2(3) m23 by (simp add: lex_moves_def)
          ultimately show "trivia (seg (lx_source lx) (lx_pos lx) (lx_pos l3) @ s)" using pre [of "lx_pos l3"] blank by simp
        qed simp
      qed
    qed
  qed
qed

section \<open>Lexing what was spelled\<close>

text \<open>The text not yet read determines what the scanner does.\<close>

definition lex_rest :: "cando_lexer \<Rightarrow> string" where
  "lex_rest lx = drop (lx_pos lx) (lx_source lx)"

lemma rest_end: "lex_at_end lx \<longleftrightarrow> lex_rest lx = []"
  by (simp add: lex_at_end_def lex_rest_def)

lemma rest_peek: "lex_peek_char lx = (case lex_rest lx of [] \<Rightarrow> CHR 0x00 | c # _ \<Rightarrow> c)"
  by (auto simp: lex_peek_char_def lex_rest_def Cons_nth_drop_Suc [symmetric] split: list.split)

lemma rest_peek2: "lex_peek_char2 lx = (case lex_rest lx of c # d # _ \<Rightarrow> d | _ \<Rightarrow> CHR 0x00)"
proof (cases "Suc (lx_pos lx) < length (lx_source lx)")
  case True
  then have "lex_rest lx = lx_source lx ! lx_pos lx # lx_source lx ! Suc (lx_pos lx) # drop (Suc (Suc (lx_pos lx))) (lx_source lx)"
    by (simp add: lex_rest_def Cons_nth_drop_Suc)
  then show ?thesis using True by (simp add: lex_peek_char2_def)
next
  case False
  then have "length (lex_rest lx) \<le> 1" by (simp add: lex_rest_def)
  then show ?thesis using False by (auto simp: lex_peek_char2_def split: list.split)
qed

lemma rest_advance:
  assumes "lex_rest lx = c # r"
  shows "fst (lex_advance lx) = c" "lex_rest (snd (lex_advance lx)) = r" "lx_pos (snd (lex_advance lx)) = Suc (lx_pos lx)"
proof -
  have ne: "\<not> lex_at_end lx" using assms by (simp add: rest_end)
  obtain d l1 where a: "lex_advance lx = (d, l1)" by force
  note A = advance_char [OF ne a]
  have "lex_rest lx = lx_source lx ! lx_pos lx # drop (Suc (lx_pos lx)) (lx_source lx)"
    using ne by (simp add: lex_rest_def lex_at_end_def Cons_nth_drop_Suc)
  then show "fst (lex_advance lx) = c" "lex_rest (snd (lex_advance lx)) = r" "lx_pos (snd (lex_advance lx)) = Suc (lx_pos lx)"
    using assms a A by (simp_all add: lex_rest_def)
qed

lemma rest_match:
  "lex_match lx d = (case lex_rest lx of c # r \<Rightarrow> if c = d then Some (lx\<lparr>lx_pos := Suc (lx_pos lx)\<rparr>) else None | [] \<Rightarrow> None)"
proof (cases "lex_rest lx")
  case Nil
  then show ?thesis by (simp add: lex_match_def rest_end)
next
  case (Cons c r)
  then have "\<not> lex_at_end lx" by (simp add: rest_end)
  moreover have "lx_source lx ! lx_pos lx = c" using Cons rest_peek [of lx] peek_nth [OF calculation] by simp
  ultimately show ?thesis using Cons by (simp add: lex_match_def)
qed

lemma rest_pos: "lex_rest lx = c # r \<Longrightarrow> lex_rest (lx\<lparr>lx_pos := Suc (lx_pos lx)\<rparr>) = r"
  by (simp add: lex_rest_def) (metis drop_Suc list.sel(3) tl_drop)

lemma rest_while:
  assumes "lex_rest lx = w @ r" "list_all P w" "r = [] \<or> \<not> P (hd r)"
  shows "lex_rest (lex_while P lx) = r \<and> lx_pos (lex_while P lx) = lx_pos lx + length w"
  using assms
proof (induction w arbitrary: lx)
  case Nil
  then show ?case by (cases r) (simp_all add: lex_while.simps [of P lx] rest_end rest_peek)
next
  case (Cons c w)
  then have r: "lex_rest lx = c # (w @ r)" by simp
  have "lex_while P lx = lex_while P (snd (lex_advance lx))"
    using Cons.prems(2) r by (subst lex_while.simps) (simp add: rest_end rest_peek)
  then show ?case using Cons.IH [of "snd (lex_advance lx)"] rest_advance [OF r] Cons.prems by simp
qed

text \<open>The tokens whose spelling is their name: keywords and operators.\<close>

definition keyword_token :: "token_type \<Rightarrow> bool" where
  "keyword_token t \<longleftrightarrow> t \<in> snd ` set KEYWORDS"

lemma keyword_spelling:
  assumes "keyword_token t"
  shows "cando_keyword_type (cando_token_type_name t) = t" "list_all is_ident_char (cando_token_type_name t)"
    "cando_token_type_name t \<noteq> []" "c_isalpha (hd (cando_token_type_name t))" "length (cando_token_type_name t) < 10"
proof -
  have "t \<in> set (map snd KEYWORDS)" using assms by (simp add: keyword_token_def)
  then have "cando_keyword_type (cando_token_type_name t) = t \<and> list_all is_ident_char (cando_token_type_name t) \<and>
    cando_token_type_name t \<noteq> [] \<and> c_isalpha (hd (cando_token_type_name t)) \<and> length (cando_token_type_name t) < 10"
    unfolding KEYWORDS_def list.map snd_conv set_simps
    by (elim insertE emptyE; simp add: cando_token_type_name_def cando_keyword_type_def KEYWORDS_def is_ident_char_def
        c_isalnum_def c_isalpha_def c_isupper_def c_islower_def c_tolower_def char_of_def)
  then show "cando_keyword_type (cando_token_type_name t) = t" "list_all is_ident_char (cando_token_type_name t)"
    "cando_token_type_name t \<noteq> []" "c_isalpha (hd (cando_token_type_name t))" "length (cando_token_type_name t) < 10"
    by simp_all
qed

lemma space_not_op:
  assumes "c_isspace c"
  shows "c \<notin> {CHR ''='', CHR ''+'', CHR ''-'', CHR ''>'', CHR ''<'', CHR ''&'', CHR ''|'', CHR '':'', CHR ''.'', CHR ''!'',
              CHR ''/'', CHR ''*''}"
  using assms by (auto simp: c_isspace_def)

lemma peek_not_op:
  assumes "r = [] \<or> c_isspace (hd r)"
  shows "(case r of [] \<Rightarrow> CHR 0x00 | c # _ \<Rightarrow> c) \<notin> {CHR ''='', CHR ''+'', CHR ''-'', CHR ''>'', CHR ''<'', CHR ''&'',
      CHR ''|'', CHR '':'', CHR ''.'', CHR ''!'', CHR ''/'', CHR ''*''}"
  using assms space_not_op [of "hd r"] by (cases r) auto

lemma operator_choices_chars:
  "operator_choices c \<noteq> [] \<Longrightarrow> c \<in> set (''(){}[];,#^%*/+-<>=!&|:~'')"
  unfolding operator_choices_def by (split if_split_asm, simp)+ simp

lemma alpha_plain:
  assumes "c_isalpha c"
  shows "operator_choices c = []" "c \<notin> {CHR ''/'', CHR ''.'', CHR ''~'', CHR 0x22, CHR 0x27, CHR 0x60}"
    "\<not> c_isdigit c" "\<not> c_isspace c"
proof -
  show "c \<notin> {CHR ''/'', CHR ''.'', CHR ''~'', CHR 0x22, CHR 0x27, CHR 0x60}"
    using assms by (auto simp: c_isalpha_def c_isupper_def c_islower_def)
  have "c \<notin> set (''(){}[];,#^%*/+-<>=!&|:~'')"
    using assms by (auto simp: c_isalpha_def c_isupper_def c_islower_def)
  then show "operator_choices c = []" using operator_choices_chars by blast
qed (use assms in \<open>auto simp: c_isalpha_def c_isupper_def c_islower_def c_isdigit_def c_isspace_def\<close>)

definition operator_token :: "token_type \<Rightarrow> bool" where
  "operator_token t \<longleftrightarrow> t \<in>
    {TOK_PIPE_OP, TOK_FILTER_OP, TOK_RANGE_ASC, TOK_RANGE_DESC, TOK_FLUENT, TOK_VARARG, TOK_FAT_ARROW, 
     TOK_AND, TOK_OR, TOK_EQ, TOK_NEQ, TOK_LEQ, TOK_GEQ, TOK_LSHIFT, TOK_RSHIFT, TOK_BITXOR, 
     TOK_PLUS_ASSIGN, TOK_MINUS_ASSIGN, TOK_STAR_ASSIGN, TOK_SLASH_ASSIGN, TOK_PERCENT_ASSIGN, 
     TOK_CARET_ASSIGN, TOK_INCR, TOK_DECR, TOK_PLUS, TOK_MINUS, TOK_STAR, TOK_SLASH, TOK_PERCENT, 
     TOK_CARET, TOK_AMP, TOK_BITOR, TOK_LT, TOK_GT, TOK_ASSIGN, TOK_BANG, TOK_TILDE, TOK_DOT, TOK_HASH, 
     TOK_LPAREN, TOK_RPAREN, TOK_LBRACE, TOK_RBRACE, TOK_LBRACKET, TOK_RBRACKET, TOK_SEMI, TOK_COMMA, 
     TOK_COLON}"

definition fixed_token :: "token_type \<Rightarrow> bool" where
  "fixed_token t \<longleftrightarrow> keyword_token t \<or> operator_token t"

text \<open>The choice the scanner makes, given the next character.\<close>

fun pick_choice :: "char option \<Rightarrow> (char option \<times> token_type) list \<Rightarrow> (bool \<times> token_type) option" where
  "pick_choice d [] = None"
| "pick_choice d ((None, t) # cs) = Some (False, t)"
| "pick_choice d ((Some c, t) # cs) = (if d = Some c then Some (True, t) else pick_choice d cs)"

lemma match_pick:
  "match_choices lx cs =
     map_option (\<lambda>(b, t). (if b then lx\<lparr>lx_pos := Suc (lx_pos lx)\<rparr> else lx, t))
       (pick_choice (case lex_rest lx of [] \<Rightarrow> None | d # _ \<Rightarrow> Some d) cs)"
  by (induction lx cs rule: match_choices.induct) (auto simp: rest_match split: list.splits)

text \<open>The spelling of an operator, as the scanner reads it: one or two characters with their choice, or one of
  the two three-character operators or the dot.\<close>

definition operator_read :: "token_type \<Rightarrow> bool" where
  "operator_read t \<longleftrightarrow> (case cando_token_type_name t of
       [c] \<Rightarrow> \<not> c_isspace c \<and> c \<notin> {CHR 0x22, CHR 0x27, CHR 0x60} \<and>
              (if c = CHR ''.'' then t = TOK_DOT else pick_choice None (operator_choices c) = Some (False, t))
     | [c, d] \<Rightarrow> \<not> c_isspace c \<and> c \<notin> {CHR 0x22, CHR 0x27, CHR 0x60, CHR ''.''} \<and> d \<noteq> CHR ''!'' \<and>
              \<not> (c = CHR ''/'' \<and> d \<in> {CHR ''/'', CHR ''*''}) \<and> pick_choice (Some d) (operator_choices c) = Some (True, t)
     | w \<Rightarrow> w = ''...'' \<and> t = TOK_VARARG \<or> w = ''~!>'' \<and> t = TOK_FILTER_OP)"

lemma operator_reads: "operator_token t \<Longrightarrow> operator_read t"
  unfolding operator_token_def
  by (elim insertE emptyE) (simp_all add: operator_read_def cando_token_type_name_def operator_choices_def c_isspace_def)

lemma operator_choices_next:
  "(Some e, t) \<in> set (operator_choices c) \<Longrightarrow> e \<in> set (''=+-><&|:'')"
  unfolding operator_choices_def by (split if_split_asm, force)+ simp

lemma pick_other: "(\<And>t. (Some d, t) \<notin> set cs) \<Longrightarrow> pick_choice (Some d) cs = pick_choice None cs"
proof (induction cs)
  case (Cons a cs)
  then show ?case by (cases a; cases "fst a") auto
qed simp

lemma pick_blank:
  assumes "r = [] \<or> c_isspace (hd r)"
  shows "pick_choice (case r of [] \<Rightarrow> None | d # _ \<Rightarrow> Some d) (operator_choices c) = pick_choice None (operator_choices c)"
proof (cases r)
  case (Cons d r')
  then have "d \<notin> set (''=+-><&|:'')" using assms space_not_op [of d] by simp
  then have "pick_choice (Some d) (operator_choices c) = pick_choice None (operator_choices c)"
    using operator_choices_next [of d _ c] by (intro pick_other) blast
  then show ?thesis using Cons by simp
qed simp

text \<open>An operator from its second character on, when a blank or the end follows.\<close>

lemma operator_spelled:
  assumes "operator_token t" "cando_token_type_name t = c # w" "lex_rest lx = w @ r" "r = [] \<or> c_isspace (hd r)"
  shows "\<exists>lx'. lex_token lx c s l b = (lx', make_token lx' t s l b) \<and> lex_rest lx' = r \<and>
           lx_pos lx' = lx_pos lx + length w \<and> \<not> c_isspace c \<and> \<not> (c = CHR ''/'' \<and> lex_peek_char lx \<in> {CHR ''/'', CHR ''*''})"
proof -
  have read: "operator_read t" using assms(1) by (rule operator_reads)
  note peek = peek_not_op [OF assms(4)]
  show ?thesis
  proof (cases w rule: remdups_adj.cases)
    case 1
    then have c: "\<not> c_isspace c" "c \<notin> {CHR 0x22, CHR 0x27, CHR 0x60}"
        "if c = CHR ''.'' then t = TOK_DOT else pick_choice None (operator_choices c) = Some (False, t)"
      using read assms(2) by (simp_all add: operator_read_def)
    have rest: "lex_rest lx = r" using assms(3) 1 by simp
    have "lex_peek_char lx \<notin> {CHR ''.'', CHR ''!'', CHR ''/'', CHR ''*''}" using peek by (simp add: rest_peek rest)
    then show ?thesis using 1 c rest pick_blank [OF assms(4), of c]
      by (auto simp: lex_token_def Let_def match_pick split: if_splits)
  next
    case (2 d)
    then have c: "\<not> c_isspace c" "c \<notin> {CHR 0x22, CHR 0x27, CHR 0x60, CHR ''.''}" "d \<noteq> CHR ''!''"
        "\<not> (c = CHR ''/'' \<and> d \<in> {CHR ''/'', CHR ''*''})" "pick_choice (Some d) (operator_choices c) = Some (True, t)"
      using read assms(2) by (simp_all add: operator_read_def)
    have rest: "lex_rest lx = d # r" using assms(3) 2 by simp
    have "lex_peek_char lx = d" by (simp add: rest_peek rest)
    then show ?thesis using 2 c rest rest_pos [OF rest] by (auto simp: lex_token_def Let_def match_pick)
  next
    case (3 d e w')
    then have t: "c # w = ''...'' \<and> t = TOK_VARARG \<or> c # w = ''~!>'' \<and> t = TOK_FILTER_OP"
      using read assms(2) by (auto simp: operator_read_def split: list.splits)
    then have rest: "lex_rest lx = d # e # r" using assms(3) 3 by auto
    note R = rest_advance [OF rest] rest_advance [OF rest_advance(2) [OF rest]]
    have "lex_peek_char lx = d" "lex_peek_char2 lx = e" by (simp_all add: rest_peek rest_peek2 rest)
    note facts = R this 3
    from t show ?thesis
    proof
      assume "c # w = ''...'' \<and> t = TOK_VARARG"
      then show ?thesis using facts by (simp add: lex_token_def c_isspace_def)
    next
      assume "c # w = ''~!>'' \<and> t = TOK_FILTER_OP"
      then show ?thesis using facts by (simp add: lex_token_def c_isspace_def)
    qed
  qed
qed

lemma keyword_spelled:
  assumes "keyword_token t" "cando_token_type_name t = c # w" "lex_rest lx = w @ r" "r = [] \<or> c_isspace (hd r)"
    "take (length w + 1) (drop s (lx_source lx)) = c # w" "lx_pos lx = Suc s"
  shows "\<exists>lx'. lex_token lx c s l b = (lx', make_token lx' t s l b) \<and> lex_rest lx' = r \<and>
           lx_pos lx' = lx_pos lx + length w \<and> \<not> c_isspace c \<and> \<not> (c = CHR ''/'' \<and> lex_peek_char lx \<in> {CHR ''/'', CHR ''*''})"
proof -
  note K = keyword_spelling [OF assms(1), unfolded assms(2)]
  have alpha: "c_isalpha c" using K(4) by simp
  note A = alpha_plain [OF this]
  have "r = [] \<or> \<not> is_ident_char (hd r)"
    using assms(4) by (auto simp: is_ident_char_def c_isspace_def c_isalnum_def c_isalpha_def c_isupper_def c_islower_def c_isdigit_def)
  then have W: "lex_rest (lex_while is_ident_char lx) = r" "lx_pos (lex_while is_ident_char lx) = lx_pos lx + length w"
    using rest_while [OF assms(3), of is_ident_char] K(2) by simp_all
  have "u32 (lx_pos lx + length w - s) = length w + 1" using assms(6) K(5) by simp
  then have "lex_ident lx s l b = (lex_while is_ident_char lx, make_token (lex_while is_ident_char lx) t s l b)"
    using W(2) K(1) assms(5) lex_while_pos [of is_ident_char lx] by (simp add: lex_ident_def Let_def)
  then have "lex_token lx c s l b = (lex_while is_ident_char lx, make_token (lex_while is_ident_char lx) t s l b)"
    using A alpha by (simp add: lex_token_def Let_def)
  then show ?thesis using W A by (intro exI [of _ "lex_while is_ident_char lx"]) simp
qed

lemma next_spelled:
  assumes "fixed_token t" "lex_rest lx = b @ cando_token_type_name t @ r" "list_all c_isspace b" "r = [] \<or> c_isspace (hd r)"
  shows "\<exists>lx' tok. cando_lexer_next lx = (lx', tok) \<and> tk_type tok = t \<and> lex_rest lx' = r"
proof -
  define l0 where "l0 = skip_blanks lx"
  have "cando_token_type_name t \<noteq> [] \<and> \<not> c_isspace (hd (cando_token_type_name t))"
    using assms(1) unfolding fixed_token_def
  proof
    assume "keyword_token t"
    then show ?thesis using keyword_spelling(3,4) alpha_plain(4) by blast
  next
    assume "operator_token t"
    then have "operator_read t" by (rule operator_reads)
    then show ?thesis
      by (auto simp: operator_read_def c_isspace_def split: list.splits)
  qed
  then obtain c w where cw: "cando_token_type_name t = c # w" "\<not> c_isspace c" by (cases "cando_token_type_name t") auto
  have rest0: "lex_rest l0 = c # (w @ r)"
    using rest_while [OF assms(2,3)] cw by (simp add: l0_def skip_blanks_def)
  obtain l1 where a: "lex_advance l0 = (c, l1)" using rest_advance(1) [OF rest0] by (metis prod.collapse)
  have ne: "\<not> lex_at_end l0" using rest0 by (simp add: rest_end)
  note A = rest_advance [OF rest0, unfolded a snd_conv]
  have src: "lx_source l1 = lx_source l0" using advance_char(3) [OF ne a] .
  let ?s = "lx_pos l0" and ?l = "lx_line l0" and ?b = "lx_line_start l0"
  have "\<exists>lx'. lex_token l1 c ?s ?l ?b = (lx', make_token lx' t ?s ?l ?b) \<and> lex_rest lx' = r \<and>
      \<not> (c = CHR ''/'' \<and> lex_peek_char l1 \<in> {CHR ''/'', CHR ''*''})"
    using assms(1) unfolding fixed_token_def
  proof
    assume k: "keyword_token t"
    have "take (length w + 1) (drop ?s (lx_source l1)) = c # w" using rest0 src by (simp add: lex_rest_def)
    then show ?thesis using keyword_spelled [OF k cw(1) A(2) assms(4), of ?s ?l ?b] A(3) by auto
  next
    assume "operator_token t"
    then show ?thesis using operator_spelled [OF _ cw(1) A(2) assms(4), of ?s ?l ?b] by auto
  qed
  then obtain lx' where L: "lex_token l1 c ?s ?l ?b = (lx', make_token lx' t ?s ?l ?b)" "lex_rest lx' = r"
      "\<not> (c = CHR ''/'' \<and> lex_peek_char l1 \<in> {CHR ''/'', CHR ''*''})" by blast
  have "cando_lexer_next lx = lex_token l1 c ?s ?l ?b"
    using ne a L(3) by (auto simp: cando_lexer_next.simps [of lx] l0_def Let_def)
  then show ?thesis using L by (simp add: make_token_def)
qed

section \<open>Driving the scanner\<close>

text \<open>The loop of the API documentation: scan until the end or an error. A token that is neither moves the
  cursor, so the loop ends.\<close>

lemma next_less: "cando_lexer_next lx = (lx', t) \<Longrightarrow> tk_type t \<noteq> TOK_EOF \<Longrightarrow> lx_pos lx < lx_pos lx'"
  using lexer_next_spec [of lx lx' t] by (auto simp: next_spec_def)

function lex_all :: "cando_lexer \<Rightarrow> cando_token list" where
  "lex_all lx =
     (case cando_lexer_next lx of
        (lx', t) \<Rightarrow> if tk_type t = TOK_EOF \<or> tk_type t = TOK_ERROR \<or> lex_left lx \<le> lex_left lx' then [t]
                    else t # lex_all lx')"
  by auto
termination by (relation "measure lex_left") auto

declare lex_all.simps [simp del]

text \<open>The third stop never happens on its own: from a position inside the source every token makes it shorter.\<close>

lemma lex_all_step:
  assumes "lex_ok lx" "cando_lexer_next lx = (lx', t)"
  shows "lex_ok lx'" "lex_all lx = (if tk_type t = TOK_EOF \<or> tk_type t = TOK_ERROR then [t] else t # lex_all lx')"
proof -
  have m: "lex_moves lx lx'" using lexer_next_spec [OF assms(2)] by (simp add: next_spec_def)
  then show ok: "lex_ok lx'" using assms(1) by (simp add: lex_moves_def)
  have "\<not> lex_left lx \<le> lex_left lx'" if "tk_type t \<noteq> TOK_EOF"
  proof -
    have "lx_source lx' = lx_source lx" "lx_pos lx' \<le> length (lx_source lx)"
      using m ok by (auto simp: lex_moves_def lex_ok_def)
    then show ?thesis using next_less [OF assms(2) that] by auto
  qed
  then show "lex_all lx = (if tk_type t = TOK_EOF \<or> tk_type t = TOK_ERROR then [t] else t # lex_all lx')"
    using assms(2) by (subst lex_all.simps) auto
qed

text \<open>Spelling a list of fixed tokens, each followed by its own non-empty blank.\<close>

definition spell :: "(token_type \<times> string) list \<Rightarrow> string" where
  "spell ts = concat (map (\<lambda>(t, b). cando_token_type_name t @ b) ts)"

lemma fixed_not_end: "fixed_token t \<Longrightarrow> t \<noteq> TOK_EOF \<and> t \<noteq> TOK_ERROR"
  by (auto simp: fixed_token_def keyword_token_def KEYWORDS_def operator_token_def)

lemma next_at_end:
  assumes "list_all c_isspace (lex_rest lx)"
  shows "\<exists>lx' tok. cando_lexer_next lx = (lx', tok) \<and> tk_type tok = TOK_EOF"
proof -
  have "lex_rest (skip_blanks lx) = []"
    using rest_while [of lx "lex_rest lx" "[]" c_isspace] assms by (simp add: skip_blanks_def)
  then show ?thesis by (simp add: cando_lexer_next.simps [of lx] rest_end Let_def make_token_def)
qed

lemma lex_all_spelled:
  assumes "lex_ok lx" "lex_rest lx = b @ spell ts" "list_all c_isspace b"
    "\<forall>(t, w) \<in> set ts. fixed_token t \<and> w \<noteq> [] \<and> list_all c_isspace w"
  shows "map tk_type (lex_all lx) = map fst ts @ [TOK_EOF]"
  using assms
proof (induction ts arbitrary: lx b)
  case Nil
  then obtain lx' tok where n: "cando_lexer_next lx = (lx', tok)" "tk_type tok = TOK_EOF"
    using next_at_end [of lx] by (auto simp: spell_def)
  then show ?case using lex_all_step(2) [OF Nil.prems(1) n(1)] by simp
next
  case (Cons tw ts)
  obtain t w where tw: "tw = (t, w)" by force
  have fx: "fixed_token t" "w \<noteq> []" "list_all c_isspace w" using Cons.prems(4) tw by auto
  have "lex_rest lx = b @ cando_token_type_name t @ (w @ spell ts)" using Cons.prems(2) tw by (simp add: spell_def)
  then obtain lx' tok where n: "cando_lexer_next lx = (lx', tok)" "tk_type tok = t" "lex_rest lx' = w @ spell ts"
    using next_spelled [OF fx(1) _ Cons.prems(3), of lx "w @ spell ts"] fx(2,3) by (cases w) auto
  note S = lex_all_step [OF Cons.prems(1) n(1)]
  have "map tk_type (lex_all lx') = map fst ts @ [TOK_EOF]"
    using Cons.IH [OF S(1) n(3) fx(3)] Cons.prems(4) by auto
  then show ?case using S(2) n(2) fixed_not_end [OF fx(1)] tw by simp
qed

section \<open>Properties\<close>

lemma line_no_le: "line_no src p \<le> length src + 1"
  unfolding line_no_def using count_le_length [of "take p src" "CHR 0x0A"] by simp

text \<open>C30. One scan is exact: it always returns; between the old position and the token there is nothing but blanks and
  complete comments (a block comment ends at its first closing pair); the token's length is what was consumed, it is
  positive except for the end token, which is returned only at the end of the source; the line is one more than the
  line feeds before the token and the column counts from the last of them; and the position tracking stays correct.\<close>

theorem lexer_next_exact:
  assumes "lex_ok lx" "length (lx_source lx) < u32_max"
  shows "\<exists>lx' t. cando_lexer_next lx = (lx', t) \<and> lex_ok lx' \<and> lx_source lx' = lx_source lx \<and>
           lx_pos lx \<le> tk_start t \<and> trivia (seg (lx_source lx) (lx_pos lx) (tk_start t)) \<and>
           lx_pos lx' = tk_start t + tk_length t \<and> (tk_type t = TOK_EOF \<longleftrightarrow> tk_length t = 0) \<and>
           (tk_type t = TOK_EOF \<longrightarrow> tk_start t = length (lx_source lx)) \<and>
           tk_line t = line_no (lx_source lx) (tk_start t) \<and>
           tk_col t = tk_start t - line_begin (lx_source lx) (tk_start t) + 1"
proof -
  obtain lx' t where n: "cando_lexer_next lx = (lx', t)" by force
  have N: "next_spec lx lx' t" using lexer_next_spec [OF n] .
  then have m: "lex_ok lx'" "lx_source lx' = lx_source lx" using assms(1) by (simp_all add: next_spec_def lex_moves_def)
  then have le: "lx_pos lx' \<le> length (lx_source lx)" by (auto simp: lex_ok_def)
  obtain l0 where l0: "lex_moves lx l0" "lx_pos l0 = tk_start t" "tk_line t = lx_line l0"
      "tk_col t = u32 (u32 (tk_start t - lx_line_start l0) + 1)"
    using N by (auto simp: next_spec_def)
  have ok0: "lex_ok l0" "lx_source l0 = lx_source lx" using l0(1) assms(1) by (simp_all add: lex_moves_def)
  have st: "tk_start t \<le> lx_pos lx'" using N by (simp add: next_spec_def)
  have len: "tk_length t = lx_pos lx' - tk_start t"
    using N le assms(2) by (auto simp: next_spec_def)
  have line: "tk_line t = line_no (lx_source lx) (tk_start t)"
    using ok0 l0(2,3) line_no_le [of "lx_source lx" "tk_start t"] assms(2) by (simp add: lex_ok_def)
  have col: "tk_col t = tk_start t - line_begin (lx_source lx) (tk_start t) + 1"
    using ok0 l0(2,4) st le assms(2) by (simp add: lex_ok_def)
  show ?thesis
    using n m N st len line col le unfolding next_spec_def
    by (intro exI [of _ lx'] exI [of _ t]) (auto simp: lex_at_end_def)
qed

theorem lexer_next_exact_witness:
  "\<exists>lx' t. cando_lexer_next (cando_lexer_init ''// x if'') = (lx', t) \<and>
     trivia (seg ''// x if'' 0 (tk_start t)) \<and> lx_pos lx' = tk_start t + tk_length t"
proof -
  have "length (lx_source (cando_lexer_init ''// x if'')) < u32_max" by (simp add: cando_lexer_init_def)
  from lexer_next_exact [OF init_ok this] show ?thesis by (auto simp: cando_lexer_init_def)
qed

text \<open>C31. Scanning is the inverse of spelling: for every sequence of keywords and operators, each spelled by its name and
  followed by any non-empty run of blanks, the scanner returns exactly that sequence and then the end token.\<close>

theorem lexer_spell_roundtrip:
  assumes "\<forall>(t, w) \<in> set ts. fixed_token t \<and> w \<noteq> [] \<and> list_all c_isspace w"
  shows "map tk_type (lex_all (cando_lexer_init (spell ts))) = map fst ts @ [TOK_EOF]"
  by (rule lex_all_spelled [where b = "[]", OF init_ok _ _ assms]) (simp_all add: lex_rest_def cando_lexer_init_def)

theorem lexer_spell_roundtrip_witness:
  "map tk_type (lex_all (cando_lexer_init ''WHILE ~!> == ... '')) = [TOK_WHILE, TOK_FILTER_OP, TOK_EQ, TOK_VARARG, TOK_EOF]"
proof -
  let ?ts = "map (\<lambda>t. (t, '' '')) [TOK_WHILE, TOK_FILTER_OP, TOK_EQ, TOK_VARARG]"
  have "\<forall>(t, w) \<in> set ?ts. fixed_token t \<and> w \<noteq> [] \<and> list_all c_isspace w"
    by (simp add: fixed_token_def keyword_token_def KEYWORDS_def operator_token_def c_isspace_def)
  from lexer_spell_roundtrip [OF this] show ?thesis by (simp add: spell_def cando_token_type_name_def)
qed

end
