(* ===== verification/Script_Tree.thy ===== *)
theory Script_Tree
  imports C_Format
begin

text \<open>
  Script values as the text libraries see them: the tree of what a value holds, fields in insertion
  order, and the pieces of text the libraries share. \<open>TFunction\<close> is a cell tagged \<open>CDO_FUNCTION\<close> or
  \<open>CDO_NATIVE\<close>; a function object stored under the tag \<open>CDO_OBJECT\<close> is a \<open>TObject\<close> of its fields.
\<close>

datatype script_tree = TNull | TBool bool | TNumber f64 | TString string
  | TArray "script_tree list" | TObject "(string \<times> script_tree) list" | TFunction

text \<open>Storing a field keeps the place of a key that is already there.\<close>

definition tree_set :: "(string \<times> script_tree) list \<Rightarrow> string \<Rightarrow> script_tree \<Rightarrow> (string \<times> script_tree) list" where
  "tree_set fs k v = (if k \<in> fst ` set fs then map (\<lambda>(k', e). if k' = k then (k, v) else (k', e)) fs else fs @ [(k, v)])"

lemma tree_set_new: "k \<notin> fst ` set fs \<Longrightarrow> tree_set fs k v = fs @ [(k, v)]"
  by (simp add: tree_set_def)

text \<open>The test \<open>n == floor(n) && fabs(n) < 1e15\<close>.\<close>

definition f64_whole_below_1e15 :: "f64 \<Rightarrow> bool" where
  "f64_whole_below_1e15 n \<longleftrightarrow> f64_is_finite n \<and> (case f64_ratio n of (p, q) \<Rightarrow> p mod q = 0 \<and> p < 10 ^ 15 * q)"

lemma f64_signed_whole:
  assumes "n < 10 ^ 15"
  shows "f64_whole_below_1e15 (f64_signed s n)" "fmt_f0 (f64_signed s n) = (if s then ''-'' else []) @ decimal n"
proof -
  have n: "n < 2 ^ 53" using assms by simp
  obtain k where "f64_ratio (f64_signed s n) = (n * 2 ^ k, 2 ^ k)" using f64_signed_ratio(1) [OF n] by blast
  then show "f64_whole_below_1e15 (f64_signed s n)"
    using f64_signed_ratio(2) [OF n, of s] assms by (simp add: f64_whole_below_1e15_def)
  show "fmt_f0 (f64_signed s n) = (if s then ''-'' else []) @ decimal n" by (rule fmt_f0_whole [OF n])
qed

fun join :: "string \<Rightarrow> string list \<Rightarrow> string" where
  "join sep [] = []"
| "join sep [x] = x"
| "join sep (x # xs) = x @ sep @ join sep xs"

lemma join_Cons: "join sep (x # xs) = x @ (if xs = [] then [] else sep @ join sep xs)"
  by (cases xs) simp_all

end
