(* ===== verification/Json_Codec.thy ===== *)
theory Json_Codec
  imports Script_Tree
begin

text \<open>
  The JSON library (\<open>source/lib/json.c\<close>). A script value is the tree of what it holds: the containers the
  parser makes are fresh, and the writer follows fields in insertion order. The parser state is the
  unread input; an error carries its message and the unread input at that point, so its offset is the
  difference of the lengths. Recursion is bounded by fuel, and enough fuel is always given.
\<close>

type_synonym 'a jresult = "(string \<times> nat) + ('a \<times> string)"

section \<open>The parser\<close>

definition json_blank :: "char \<Rightarrow> bool" where
  "json_blank c \<longleftrightarrow> c = CHR '' '' \<or> c = CHR 0x09 \<or> c = CHR 0x0D \<or> c = CHR 0x0A"

definition jp_skip_ws :: "string \<Rightarrow> string" where
  "jp_skip_ws s = dropWhile json_blank s"

definition jp_match :: "string \<Rightarrow> string \<Rightarrow> string option" where
  "jp_match lit s = (if length s < length lit then None
                     else if take (length lit) s \<noteq> lit then None else Some (drop (length lit) s))"

definition hex_value :: "char \<Rightarrow> nat option" where
  "hex_value c =
     (let b = byte_of c
      in if 48 \<le> b \<and> b \<le> 57 then Some (b - 48)
         else if 97 \<le> b \<and> b \<le> 102 then Some (b - 87)
         else if 65 \<le> b \<and> b \<le> 70 then Some (b - 55) else None)"

fun hex_digits :: "nat \<Rightarrow> string \<Rightarrow> nat option" where
  "hex_digits acc [] = Some acc"
| "hex_digits acc (c # s) = (case hex_value c of None \<Rightarrow> None | Some v \<Rightarrow> hex_digits (16 * acc + v) s)"

definition utf8 :: "nat \<Rightarrow> string" where
  "utf8 cp =
     (if cp < 128 then [char_of cp]
      else if cp < 2048 then [char_of (192 + cp div 64), char_of (128 + cp mod 64)]
      else if cp < 65536 then
        [char_of (224 + cp div 4096), char_of (128 + cp div 64 mod 64), char_of (128 + cp mod 64)]
      else [char_of (240 + cp div 262144), char_of (128 + cp div 4096 mod 64), char_of (128 + cp div 64 mod 64),
            char_of (128 + cp mod 64)])"

text \<open>The four digits after \<open>\u\<close>, and the second escape a high surrogate needs.\<close>

definition jp_decode_unicode :: "string \<Rightarrow> string jresult" where
  "jp_decode_unicode s =
     (if length s < 4 then Inl (''truncated '' @ [CHR 0x5C] @ ''u escape'', length s)
      else case hex_digits 0 (take 4 s) of
        None \<Rightarrow> Inl (''invalid hex digit in '' @ [CHR 0x5C] @ ''u escape'', length s)
      | Some cp \<Rightarrow>
          let s = drop 4 s in
          if 0xD800 \<le> cp \<and> cp \<le> 0xDBFF then
            (if 6 \<le> length s \<and> s ! 0 = CHR 0x5C \<and> s ! 1 = CHR ''u'' then
               let s = drop 2 s in
               case hex_digits 0 (take 4 s) of
                 None \<Rightarrow> Inl (''invalid hex digit in surrogate'', length s)
               | Some low \<Rightarrow>
                   let s = drop 4 s in
                   if 0xDC00 \<le> low \<and> low \<le> 0xDFFF
                   then Inr (utf8 (0x10000 + (cp - 0xD800) * 1024 + (low - 0xDC00)), s)
                   else Inl (''invalid surrogate pair'', length s)
             else Inl (''unpaired high surrogate'', length s))
          else Inr (utf8 cp, s))"

lemma decode_unicode_length: "jp_decode_unicode s = Inr (bs, s') \<Longrightarrow> length s' \<le> length s"
  by (auto simp: jp_decode_unicode_def Let_def split: if_splits option.splits)

definition simple_escape :: "char \<Rightarrow> char option" where
  "simple_escape e =
     (if e = CHR 0x22 then Some CHR 0x22
      else if e = CHR 0x5C then Some CHR 0x5C
      else if e = CHR ''/'' then Some CHR ''/''
      else if e = CHR ''n'' then Some CHR 0x0A
      else if e = CHR ''r'' then Some CHR 0x0D
      else if e = CHR ''t'' then Some CHR 0x09
      else if e = CHR ''b'' then Some CHR 0x08
      else if e = CHR ''f'' then Some CHR 0x0C
      else None)"

text \<open>The loop after the opening quote; \<open>acc\<close> is the buffer. Input that ends before the closing quote ends
  the loop without an error.\<close>

function jp_string_body :: "string \<Rightarrow> string \<Rightarrow> string jresult" where
  "jp_string_body acc [] = Inr (acc, [])"
| "jp_string_body acc (c # s) =
     (if c = CHR 0x22 then Inr (acc, s)
      else if c = CHR 0x5C then
        (case s of
           [] \<Rightarrow> Inl (''unexpected end of string escape'', 0)
         | e # s \<Rightarrow>
             (case simple_escape e of
                Some x \<Rightarrow> jp_string_body (acc @ [x]) s
              | None \<Rightarrow>
                  if e = CHR ''u'' then
                    (case jp_decode_unicode s of
                       Inl err \<Rightarrow> Inl err
                     | Inr (bs, s) \<Rightarrow> jp_string_body (acc @ bs) s)
                  else Inl (''invalid escape sequence'', length s)))
      else if byte_of c < 32 then Inl (''unescaped control character in string'', length (c # s))
      else jp_string_body (acc @ [c]) s)"
  by pat_completeness auto
termination
  by (relation "measure (length \<circ> snd)") (auto dest!: decode_unicode_length)

definition jp_parse_string :: "string \<Rightarrow> string jresult" where
  "jp_parse_string s = (case s of
     c # r \<Rightarrow> if c = CHR 0x22 then jp_string_body [] r
              else Inl (''expected '' @ [CHR 0x27, CHR 0x22, CHR 0x27], length s)
   | [] \<Rightarrow> Inl (''expected '' @ [CHR 0x27, CHR 0x22, CHR 0x27], 0))"

definition digit_next :: "string \<Rightarrow> bool" where
  "digit_next s = (case s of c # _ \<Rightarrow> c_isdigit c | [] \<Rightarrow> False)"

text \<open>The parts of a number literal: each returns what it leaves unread, or the error.\<close>

definition scan_integer :: "string \<Rightarrow> (string \<times> nat) + string" where
  "scan_integer s =
     (let s = (case s of c # r \<Rightarrow> if c = CHR ''-'' then r else s | [] \<Rightarrow> s)
      in if \<not> digit_next s then Inl (''invalid number: expected digit'', length s)
         else Inr (if hd s = CHR ''0'' then tl s else dropWhile c_isdigit s))"

definition scan_fraction :: "string \<Rightarrow> (string \<times> nat) + string" where
  "scan_fraction s =
     (if s \<noteq> [] \<and> hd s = CHR ''.'' then
        (if \<not> digit_next (tl s) then Inl (''expected digit after decimal point'', length (tl s))
         else Inr (dropWhile c_isdigit (tl s)))
      else Inr s)"

definition scan_exponent :: "string \<Rightarrow> (string \<times> nat) + string" where
  "scan_exponent s =
     (if s \<noteq> [] \<and> (hd s = CHR ''e'' \<or> hd s = CHR ''E'') then
        (let s = tl s; s = (if s \<noteq> [] \<and> (hd s = CHR ''+'' \<or> hd s = CHR ''-'') then tl s else s)
         in if \<not> digit_next s then Inl (''expected digit in exponent'', length s)
            else Inr (dropWhile c_isdigit s))
      else Inr s)"

definition jp_scan_number :: "string \<Rightarrow> (string \<times> nat) + string" where
  "jp_scan_number s =
     (case scan_integer s of
        Inl e \<Rightarrow> Inl e
      | Inr s \<Rightarrow> (case scan_fraction s of Inl e \<Rightarrow> Inl e | Inr s \<Rightarrow> scan_exponent s))"

definition jp_parse_number :: "string \<Rightarrow> f64 jresult" where
  "jp_parse_number s =
     (case jp_scan_number s of
        Inl e \<Rightarrow> Inl e
      | Inr r \<Rightarrow>
          if 64 \<le> length s - length r then Inl (''number literal too long'', length r)
          else Inr (strtod (take (length s - length r) s), r))"

text \<open>Arrays are entered after the \<open>[\<close>, objects after the \<open>{\<close>. \<open>None\<close>: out of fuel.\<close>

fun jp_parse_value :: "nat \<Rightarrow> string \<Rightarrow> script_tree jresult option"
  and jp_parse_array :: "nat \<Rightarrow> script_tree list \<Rightarrow> string \<Rightarrow> script_tree jresult option"
  and jp_parse_object :: "nat \<Rightarrow> (string \<times> script_tree) list \<Rightarrow> string \<Rightarrow> script_tree jresult option" where
  "jp_parse_value 0 s = None"
| "jp_parse_value (Suc n) s =
     (case jp_skip_ws s of
        [] \<Rightarrow> Some (Inl (''unexpected end of input'', 0))
      | c # r \<Rightarrow>
          let s = c # r in
          if c = CHR 0x22 then
            Some (case jp_parse_string s of Inl e \<Rightarrow> Inl e | Inr (t, r) \<Rightarrow> Inr (TString t, r))
          else if c = CHR ''['' then
            (case jp_skip_ws r of
               d # r' \<Rightarrow> if d = CHR '']'' then Some (Inr (TArray [], r')) else jp_parse_array n [] (d # r')
             | [] \<Rightarrow> jp_parse_array n [] [])
          else if c = CHR ''{'' then
            (case jp_skip_ws r of
               d # r' \<Rightarrow> if d = CHR ''}'' then Some (Inr (TObject [], r')) else jp_parse_object n [] (d # r')
             | [] \<Rightarrow> jp_parse_object n [] [])
          else if c = CHR ''t'' then
            Some (case jp_match ''true'' s of Some r \<Rightarrow> Inr (TBool True, r) | None \<Rightarrow> Inl (''invalid token'', length s))
          else if c = CHR ''f'' then
            Some (case jp_match ''false'' s of Some r \<Rightarrow> Inr (TBool False, r) | None \<Rightarrow> Inl (''invalid token'', length s))
          else if c = CHR ''n'' then
            Some (case jp_match ''null'' s of Some r \<Rightarrow> Inr (TNull, r) | None \<Rightarrow> Inl (''invalid token'', length s))
          else if c = CHR ''-'' \<or> c_isdigit c then
            Some (case jp_parse_number s of Inl e \<Rightarrow> Inl e | Inr (x, r) \<Rightarrow> Inr (TNumber x, r))
          else Some (Inl (''unexpected character'', length s)))"
| "jp_parse_array 0 acc s = None"
| "jp_parse_array (Suc n) acc s =
     (case jp_parse_value n (jp_skip_ws s) of
        None \<Rightarrow> None
      | Some (Inl e) \<Rightarrow> Some (Inl e)
      | Some (Inr (v, s)) \<Rightarrow>
          (case jp_skip_ws s of
             [] \<Rightarrow> Some (Inl (''unterminated array'', 0))
           | c # r \<Rightarrow>
               if c = CHR '']'' then Some (Inr (TArray (acc @ [v]), r))
               else if c \<noteq> CHR '','' then
                 Some (Inl (''expected '' @ [CHR 0x27] @ '','' @ [CHR 0x27] @ '' or '' @ [CHR 0x27] @ '']'' @ [CHR 0x27] @ '' in array'',
                            length (c # r)))
               else jp_parse_array n (acc @ [v]) r))"
| "jp_parse_object 0 fs s = None"
| "jp_parse_object (Suc n) fs s =
     (let s = jp_skip_ws s in
      if s = [] \<or> hd s \<noteq> CHR 0x22 then Some (Inl (''expected string key in object'', length s))
      else case jp_parse_string s of
        Inl e \<Rightarrow> Some (Inl e)
      | Inr (k, s) \<Rightarrow>
          (case jp_skip_ws s of
             [] \<Rightarrow> Some (Inl (''expected '' @ [CHR 0x27] @ '':'' @ [CHR 0x27] @ '' after object key'', 0))
           | c # r \<Rightarrow>
               if c \<noteq> CHR '':'' then
                 Some (Inl (''expected '' @ [CHR 0x27] @ '':'' @ [CHR 0x27] @ '' after object key'', length (c # r)))
               else
                 (case jp_parse_value n (jp_skip_ws r) of
                    None \<Rightarrow> None
                  | Some (Inl e) \<Rightarrow> Some (Inl e)
                  | Some (Inr (v, s)) \<Rightarrow>
                      (case jp_skip_ws s of
                         [] \<Rightarrow> Some (Inl (''unterminated object'', 0))
                       | c # r \<Rightarrow>
                           if c = CHR ''}'' then Some (Inr (TObject (tree_set fs k v), r))
                           else if c \<noteq> CHR '','' then
                             Some (Inl (''expected '' @ [CHR 0x27] @ '','' @ [CHR 0x27] @ '' or '' @ [CHR 0x27] @ ''}'' @ [CHR 0x27] @ '' in object'',
                                        length (c # r)))
                           else jp_parse_object n (tree_set fs k v) r))))"

text \<open>\<open>json.parse\<close> on a string argument: the error text of the script, or the value. What follows the value is
  not looked at.\<close>

definition json_parse :: "string \<Rightarrow> (string + script_tree) option" where
  "json_parse src =
     (case jp_parse_value (2 * length src + 1) src of
        None \<Rightarrow> None
      | Some (Inl (msg, unread)) \<Rightarrow>
          Some (Inl (''json.parse: '' @ msg @ '' (at offset '' @ decimal (length src - unread) @ '')''))
      | Some (Inr (v, _)) \<Rightarrow> Some (Inr v))"

section \<open>The writer\<close>

text \<open>\<open>w\<close> is the number of blanks per level, 0 for the compact form.\<close>

definition jw_indent :: "nat \<Rightarrow> nat \<Rightarrow> string" where
  "jw_indent w depth = (if w = 0 then [] else CHR 0x0A # replicate (depth * w) CHR '' '')"

definition json_char :: "char \<Rightarrow> string" where
  "json_char c =
     (if c = CHR 0x22 then [CHR 0x5C, CHR 0x22]
      else if c = CHR 0x5C then [CHR 0x5C, CHR 0x5C]
      else if c = CHR 0x0A then [CHR 0x5C, CHR ''n'']
      else if c = CHR 0x0D then [CHR 0x5C, CHR ''r'']
      else if c = CHR 0x09 then [CHR 0x5C, CHR ''t'']
      else if c = CHR 0x08 then [CHR 0x5C, CHR ''b'']
      else if c = CHR 0x0C then [CHR 0x5C, CHR ''f'']
      else if byte_of c < 32 then
        [CHR 0x5C, CHR ''u'', CHR ''0'', CHR ''0'', hex_lower (byte_of c div 16), hex_lower (byte_of c mod 16)]
      else [c])"

definition jw_write_string :: "string \<Rightarrow> string" where
  "jw_write_string s = [CHR 0x22] @ concat (map json_char s) @ [CHR 0x22]"

definition jw_write_number :: "f64 \<Rightarrow> string" where
  "jw_write_number n =
     (if f64_is_nan n \<or> f64_is_inf n then ''null''
      else if f64_whole_below_1e15 n then fmt_f0 n else fmt_g17 n)"

fun jw_write_cdo_value :: "nat \<Rightarrow> nat \<Rightarrow> script_tree \<Rightarrow> string" where
  "jw_write_cdo_value w depth TNull = ''null''"
| "jw_write_cdo_value w depth (TBool b) = (if b then ''true'' else ''false'')"
| "jw_write_cdo_value w depth (TNumber n) = jw_write_number n"
| "jw_write_cdo_value w depth (TString s) = jw_write_string s"
| "jw_write_cdo_value w depth (TArray vs) =
     ''['' @ join '','' (map (\<lambda>v. jw_indent w (depth + 1) @ jw_write_cdo_value w (depth + 1) v) vs) @
     (if vs = [] then [] else jw_indent w depth) @ '']''"
| "jw_write_cdo_value w depth (TObject fs) =
     ''{'' @ join '','' (map (\<lambda>(k, v). jw_indent w (depth + 1) @ jw_write_string k @ '':'' @ (if w = 0 then [] else '' '') @
                                  jw_write_cdo_value w (depth + 1) v) fs) @
     (if fs = [] then [] else jw_indent w depth) @ ''}''"
| "jw_write_cdo_value w depth TFunction = ''null''"

text \<open>\<open>json.stringify\<close> of a value with the requested indent.\<close>

definition json_stringify :: "script_tree \<Rightarrow> int \<Rightarrow> string" where
  "json_stringify v indent =
     (let w = nat (if indent < 0 then 0 else if 16 < indent then 16 else indent);
          s = jw_write_cdo_value w 0 v
      in if 0 < w \<and> s \<noteq> [] then s @ [CHR 0x0A] else s)"

section \<open>Termination\<close>

lemma skip_ws_length: "length (jp_skip_ws s) \<le> length s"
  by (simp add: jp_skip_ws_def length_dropWhile_le)

lemma string_body_length: "jp_string_body acc s = Inr (t, r) \<Longrightarrow> length r \<le> length s"
proof (induction acc s rule: jp_string_body.induct)
  case (2 acc c s)
  show ?case
  proof (cases "c = CHR 0x5C")
    case False
    then show ?thesis using "2.prems" "2.IH"(3) by (auto split: if_splits)
  next
    case esc: True
    show ?thesis
    proof (cases s)
      case Nil
      then show ?thesis using "2.prems" esc by simp
    next
      case (Cons e s')
      show ?thesis
      proof (cases "simple_escape e")
        case None
        then obtain bs u where u: "e = CHR ''u''" "jp_decode_unicode s' = Inr (bs, u)" "jp_string_body (acc @ bs) u = Inr (t, r)"
          using "2.prems" esc Cons by (auto split: if_splits sum.splits)
        then have "length r \<le> length u" using "2.IH"(1) [OF _ esc Cons None u(1,2) refl u(3)] esc by simp
        then show ?thesis using decode_unicode_length [OF u(2)] Cons by simp
      next
        case (Some x)
        then show ?thesis using "2.prems" esc Cons "2.IH"(2) [OF _ esc Cons Some] by simp
      qed
    qed
  qed
qed simp

lemma parse_string_length: "jp_parse_string s = Inr (t, r) \<Longrightarrow> length r < length s"
  by (auto simp: jp_parse_string_def split: list.splits if_splits dest!: string_body_length)

lemma drop_digits_length [simp]: "length (dropWhile P s) \<le> length s"
  by (rule length_dropWhile_le)

lemma scan_integer_length: "scan_integer s = Inr r \<Longrightarrow> length r < length s"
proof -
  assume a: "scan_integer s = Inr r"
  define s1 where "s1 = (case s of c # r \<Rightarrow> if c = CHR ''-'' then r else s | [] \<Rightarrow> s)"
  have r: "digit_next s1" "r = (if hd s1 = CHR ''0'' then tl s1 else dropWhile c_isdigit s1)"
    using a by (auto simp: scan_integer_def s1_def [symmetric] Let_def split: if_splits)
  then obtain c t where s1: "s1 = c # t" "c_isdigit c" by (auto simp: digit_next_def split: list.splits)
  then have "length r < length s1" using r by (auto intro: le_imp_less_Suc)
  moreover have "length s1 \<le> length s" by (auto simp: s1_def split: list.splits)
  ultimately show ?thesis by simp
qed

lemma scan_rest_length:
  "scan_fraction s = Inr r \<Longrightarrow> length r \<le> length s" "scan_exponent s = Inr r \<Longrightarrow> length r \<le> length s"
proof -
  have t: "length (dropWhile c_isdigit (tl x)) \<le> length x" "length (dropWhile c_isdigit (tl (tl x))) \<le> length x" for x
    by (rule order_trans [OF length_dropWhile_le], simp)+
  show "scan_fraction s = Inr r \<Longrightarrow> length r \<le> length s"
    using t by (auto simp: scan_fraction_def split: if_splits)
  show "scan_exponent s = Inr r \<Longrightarrow> length r \<le> length s"
    using t by (auto simp: scan_exponent_def Let_def split: if_splits)
qed

lemma scan_number_length: "jp_scan_number s = Inr r \<Longrightarrow> length r < length s"
  by (auto simp: jp_scan_number_def split: sum.splits dest!: scan_integer_length scan_rest_length)

lemma match_length: "jp_match lit s = Some r \<Longrightarrow> lit \<noteq> [] \<Longrightarrow> length r < length s"
  by (cases lit; cases s) (auto simp: jp_match_def split: if_splits)

text \<open>A value consumes input, so enough fuel is twice the length; nothing then runs out.\<close>

definition consumes :: "string \<Rightarrow> script_tree jresult option \<Rightarrow> bool" where
  "consumes s res \<longleftrightarrow> res \<noteq> None \<and> (\<forall>v r. res = Some (Inr (v, r)) \<longrightarrow> length r < length s)"

lemma consumes_simps [simp]:
  "\<not> consumes s None" "consumes s (Some (Inl e))" "consumes s (Some (Inr (v, r))) \<longleftrightarrow> length r < length s"
  by (simp_all add: consumes_def)

lemma consumes_if: "consumes s x \<Longrightarrow> consumes s y \<Longrightarrow> consumes s (if b then x else y)"
  by simp

lemma consumes_mono: "consumes s res \<Longrightarrow> length s \<le> length s' \<Longrightarrow> consumes s' res"
  by (auto simp: consumes_def)

lemma consumes_cases:
  assumes "consumes s res"
  obtains (err) e where "res = Some (Inl e)" | (val) v r where "res = Some (Inr (v, r))" "length r < length s"
  using assms by (cases res) (auto simp: consumes_def elim: sumE, metis old.sum.exhaust surj_pair)

lemma consumes_array:
  assumes "consumes (jp_skip_ws s) (jp_parse_value n (jp_skip_ws s))"
    "\<And>acc r. length r < length s \<Longrightarrow> consumes r (jp_parse_array n acc r)"
  shows "consumes s (jp_parse_array (Suc n) acc s)"
  using assms(1)
proof (cases rule: consumes_cases)
  case (val v r)
  then have r: "length (jp_skip_ws r) < length s" using skip_ws_length [of s] skip_ws_length [of r] by linarith
  show ?thesis
  proof (cases "jp_skip_ws r")
    case (Cons c t)
    then have "consumes s (jp_parse_array n (acc @ [v]) t)"
      using r by (intro consumes_mono [OF assms(2)]) auto
    then show ?thesis using val Cons r by simp
  qed (use val in simp)
qed simp

lemma consumes_object:
  assumes val: "\<And>t. length t < length s \<Longrightarrow> consumes t (jp_parse_value n t)"
    and more: "\<And>fs r. length r < length s \<Longrightarrow> consumes r (jp_parse_object n fs r)"
  shows "consumes s (jp_parse_object (Suc n) fs s)"
proof (cases "jp_skip_ws s = [] \<or> hd (jp_skip_ws s) \<noteq> CHR 0x22 \<or> (\<exists>e. jp_parse_string (jp_skip_ws s) = Inl e)")
  case True
  then show ?thesis by (auto simp: Let_def)
next
  case False
  then obtain k s1 where k: "jp_parse_string (jp_skip_ws s) = Inr (k, s1)" by (metis old.sum.exhaust surj_pair)
  then have 1: "length (jp_skip_ws s1) < length s"
    using parse_string_length [OF k] skip_ws_length [of s] skip_ws_length [of s1] by linarith
  show ?thesis
  proof (cases "jp_skip_ws s1")
    case Nil
    then show ?thesis using False k by (simp add: Let_def)
  next
    case (Cons c r)
    then have r: "length (jp_skip_ws r) < length s" using 1 skip_ws_length [of r] by simp
    show ?thesis
    proof (cases "c = CHR '':''")
      case neq: False
      then show ?thesis using False k Cons by (simp add: Let_def)
    next
      case True
      show ?thesis using val [OF r]
      proof (cases rule: consumes_cases)
        case (err e)
        then show ?thesis using False k Cons True by (simp add: Let_def)
      next
        case (val v t)
        then have t: "length (jp_skip_ws t) < length s" using r skip_ws_length [of t] by linarith
        show ?thesis
        proof (cases "jp_skip_ws t")
          case Nil
          then show ?thesis using False k Cons True val by (simp add: Let_def)
        next
          case (Cons d u)
          then have "consumes s (jp_parse_object n (tree_set fs k v) u)"
            using t by (intro consumes_mono [OF more]) auto
          then show ?thesis using False k \<open>jp_skip_ws s1 = c # r\<close> True val Cons t by (simp add: Let_def)
        qed
      qed
    qed
  qed
qed

lemma consumes_value:
  assumes arr: "\<And>acc r. length r < length s \<Longrightarrow> consumes r (jp_parse_array n acc r)"
    and obj: "\<And>fs r. length r < length s \<Longrightarrow> consumes r (jp_parse_object n fs r)"
  shows "consumes s (jp_parse_value (Suc n) s)"
proof (cases "jp_skip_ws s")
  case (Cons c r)
  then have r: "length (c # r) \<le> length s" using skip_ws_length [of s] by simp
  then have rest: "length (jp_skip_ws r) < length s" using skip_ws_length [of r] by simp
  have lit: "lit \<noteq> [] \<Longrightarrow>
      consumes s (Some (case jp_match lit (c # r) of Some r \<Rightarrow> Inr (v, r) | None \<Rightarrow> Inl e))" for lit v e
    using match_length [of lit "c # r"] r by (cases "jp_match lit (c # r)") fastforce+
  have str: "consumes s (Some (case jp_parse_string (c # r) of Inl e \<Rightarrow> Inl e | Inr (t, r) \<Rightarrow> Inr (TString t, r)))"
    using parse_string_length [of "c # r"] r by (cases "jp_parse_string (c # r)") fastforce+
  have num: "consumes s (Some (case jp_parse_number (c # r) of Inl e \<Rightarrow> Inl e | Inr (x, r) \<Rightarrow> Inr (TNumber x, r)))"
    using scan_number_length [of "c # r"] r
    by (cases "jp_scan_number (c # r)") (fastforce simp: jp_parse_number_def)+
  have a: "consumes s (case jp_skip_ws r of
             d # r' \<Rightarrow> if d = CHR '']'' then Some (Inr (TArray [], r')) else jp_parse_array n [] (d # r')
           | [] \<Rightarrow> jp_parse_array n [] [])"
    using rest consumes_mono [OF arr [OF rest]] by (cases "jp_skip_ws r") auto
  have o: "consumes s (case jp_skip_ws r of
             d # r' \<Rightarrow> if d = CHR ''}'' then Some (Inr (TObject [], r')) else jp_parse_object n [] (d # r')
           | [] \<Rightarrow> jp_parse_object n [] [])"
    using rest consumes_mono [OF obj [OF rest]] by (cases "jp_skip_ws r") auto
  show ?thesis unfolding jp_parse_value.simps Cons list.case Let_def
    by (intro consumes_if lit str num a o consumes_simps) simp_all
qed simp

lemma enough_fuel:
  "2 * length s + 1 \<le> n \<Longrightarrow> consumes s (jp_parse_value n s)"
  "2 * length s + 2 \<le> n \<Longrightarrow> consumes s (jp_parse_array n acc s)"
  "2 * length s + 2 \<le> n \<Longrightarrow> consumes s (jp_parse_object n fs s)"
proof (induction n arbitrary: s acc fs)
  case (Suc n)
  {
    case 1
    show ?case by (rule consumes_value; rule Suc.IH; use 1 in simp)
  next
    case 2
    show ?case by (rule consumes_array; rule Suc.IH; use 2 skip_ws_length [of s] in linarith)
  next
    case 3
    show ?case by (rule consumes_object; rule Suc.IH; use 3 in simp)
  }
qed simp_all

section \<open>Reading back what was written\<close>

text \<open>Values whose text the parser gives back bit for bit: whole numbers below \<open>10 ^ 15\<close>, objects without
  repeated keys.\<close>

fun tree_ok :: "script_tree \<Rightarrow> bool" where
  "tree_ok TNull = True"
| "tree_ok (TBool b) = True"
| "tree_ok (TNumber x) \<longleftrightarrow> (\<exists>s n. x = f64_signed s n \<and> n < 10 ^ 15)"
| "tree_ok (TString s) = True"
| "tree_ok (TArray vs) \<longleftrightarrow> (\<forall>v \<in> set vs. tree_ok v)"
| "tree_ok (TObject fs) \<longleftrightarrow> distinct (map fst fs) \<and> (\<forall>(k, v) \<in> set fs. tree_ok v)"
| "tree_ok TFunction = False"

lemma skip_ws_plain: "\<not> json_blank c \<Longrightarrow> jp_skip_ws (c # r) = c # r"
  by (simp add: jp_skip_ws_def)

lemma skip_ws_nonblank: "s \<noteq> [] \<Longrightarrow> \<not> json_blank (hd s) \<Longrightarrow> jp_skip_ws (s @ r) = s @ r"
  by (cases s) (simp_all add: jp_skip_ws_def)

lemma skip_ws_blanks: "list_all json_blank b \<Longrightarrow> jp_skip_ws (b @ s) = jp_skip_ws s"
  by (induction b) (simp_all add: jp_skip_ws_def)

lemma indent_blank: "list_all json_blank (jw_indent w d)"
  by (auto simp: jw_indent_def json_blank_def list_all_iff)

lemma skip_ws_indent: "\<not> json_blank c \<Longrightarrow> jp_skip_ws (jw_indent w d @ c # r) = c # r"
  by (simp add: skip_ws_blanks [OF indent_blank] skip_ws_plain)

lemma hex_lower_value: "n < 16 \<Longrightarrow> hex_value (hex_lower n) = Some n"
  by (auto simp: hex_value_def hex_lower_def Let_def)

lemma decode_control:
  assumes "byte_of c < 32"
  shows "jp_decode_unicode ([CHR ''0'', CHR ''0'', hex_lower (byte_of c div 16), hex_lower (byte_of c mod 16)] @ r) = Inr ([c], r)"
proof -
  have "byte_of c div 16 < 16" "byte_of c mod 16 < 16" using assms by simp_all
  note hx = this [THEN hex_lower_value]
  have z: "hex_value CHR ''0'' = Some 0" by (simp add: hex_value_def)
  have "hex_digits 0 [CHR ''0'', CHR ''0'', hex_lower (byte_of c div 16), hex_lower (byte_of c mod 16)] =
      Some (16 * (byte_of c div 16) + byte_of c mod 16)"
    using hx z by simp
  also have "16 * (byte_of c div 16) + byte_of c mod 16 = byte_of c" by simp
  finally show ?thesis using assms by (simp add: jp_decode_unicode_def utf8_def Let_def)
qed

lemma string_body_char: "jp_string_body acc (json_char c @ r) = jp_string_body (acc @ [c]) r"
proof (cases "c \<in> {CHR 0x22, CHR 0x5C, CHR 0x0A, CHR 0x0D, CHR 0x09, CHR 0x08, CHR 0x0C}")
  case True
  then show ?thesis by (auto simp: json_char_def simple_escape_def)
next
  case False
  show ?thesis
  proof (cases "byte_of c < 32")
    case True
    then have "json_char c @ r = CHR 0x5C # CHR ''u'' #
        ([CHR ''0'', CHR ''0'', hex_lower (byte_of c div 16), hex_lower (byte_of c mod 16)] @ r)"
      using False by (simp add: json_char_def)
    then show ?thesis using decode_control [OF True, of r] by (simp add: simple_escape_def)
  qed (use False in \<open>simp add: json_char_def\<close>)
qed

lemma string_body_written: "jp_string_body acc (concat (map json_char s) @ CHR 0x22 # r) = Inr (acc @ s, r)"
  by (induction s arbitrary: acc) (simp_all add: string_body_char)

lemma parse_written_string: "jp_parse_string (jw_write_string s @ r) = Inr (s, r)"
  by (simp add: jp_parse_string_def jw_write_string_def string_body_written)

text \<open>What follows a value in the writer's output.\<close>

definition json_stop :: "string \<Rightarrow> bool" where
  "json_stop r \<longleftrightarrow> r = [] \<or> hd r \<in> {CHR '','', CHR '']'', CHR ''}'', CHR 0x0A}"

lemma json_stop_scan:
  assumes "json_stop r"
  shows "\<not> digit_next r" "scan_fraction r = Inr r" "scan_exponent r = Inr r"
  using assms
  by (auto simp: json_stop_def digit_next_def scan_fraction_def scan_exponent_def c_isdigit_def split: list.splits)

lemma scan_written_digits:
  assumes "json_stop r"
  shows "scan_integer (decimal n @ r) = Inr r"
proof -
  obtain c t where ct: "decimal n = c # t" by (cases "decimal n") simp_all
  have dig: "list_all c_isdigit (c # t)" using decimal_digits [of n] ct by simp
  have neq: "c \<noteq> CHR ''-''" "digit_next (c # t @ r)" using dig by (auto simp: c_isdigit_def digit_next_def)
  have tail: "dropWhile c_isdigit (t @ r) = r"
    using dig json_stop_scan(1) [OF assms] by (induction t) (auto simp: digit_next_def split: list.splits)
  have "c = CHR ''0'' \<Longrightarrow> t = []"
  proof -
    assume "c = CHR ''0''"
    then have "n = 0" using decimal_head [of n] ct by (cases "n = 0") auto
    then show "t = []" using ct by simp
  qed
  then show ?thesis using ct neq tail dig by (auto simp: scan_integer_def Let_def)
qed

lemma parse_written_number:
  assumes "n < 10 ^ 15" "json_stop r"
  shows "jp_parse_number ((if s then ''-'' else []) @ decimal n @ r) = Inr (f64_signed s n, r)"
proof -
  let ?w = "(if s then ''-'' else []) @ decimal n"
  have "scan_integer (?w @ r) = Inr r"
    using scan_written_digits [OF assms(2), of n] decimal_digits [of n] decimal_nonempty [of n]
    by (cases "decimal n") (auto simp: scan_integer_def Let_def digit_next_def c_isdigit_def split: if_splits)
  then have sc: "jp_scan_number (?w @ r) = Inr r" using json_stop_scan [OF assms(2)] by (simp add: jp_scan_number_def)
  have "length (decimal n) \<le> 15" by (rule decimal_length [OF assms(1)]) simp
  then have "length ?w < 64" by simp
  then show ?thesis using sc strtod_whole [of s n] by (simp add: jp_parse_number_def)
qed

lemma write_whole:
  assumes "n < 10 ^ 15"
  shows "jw_write_number (f64_signed s n) = (if s then ''-'' else []) @ decimal n"
proof -
  have "f64_is_finite (f64_signed s n)" using assms by (intro f64_signed_ratio(2)) simp
  then have "\<not> f64_is_nan (f64_signed s n)" "\<not> f64_is_inf (f64_signed s n)"
    by (simp_all add: f64_is_finite_def f64_is_nan_def f64_is_inf_def)
  then show ?thesis using f64_signed_whole [OF assms] by (simp add: jw_write_number_def)
qed

text \<open>The first character of a written value decides which branch of the parser reads it.\<close>

lemma written_start:
  assumes "tree_ok v"
  shows "jw_write_cdo_value w d v \<noteq> [] \<and> \<not> json_blank (hd (jw_write_cdo_value w d v))"
    "hd (jw_write_cdo_value w d v) \<noteq> CHR '']''"
proof -
  have "jw_write_cdo_value w d v \<noteq> [] \<and> \<not> json_blank (hd (jw_write_cdo_value w d v)) \<and>
      hd (jw_write_cdo_value w d v) \<noteq> CHR '']''"
  proof (cases v)
    case (TNumber x)
    then obtain s n where "x = f64_signed s n" "n < 10 ^ 15" using assms by auto
    moreover have "c_isdigit (hd (decimal n))" using decimal_digits [of n] by (cases "decimal n") auto
    ultimately show ?thesis using write_whole [of n s] TNumber by (auto simp: json_blank_def c_isdigit_def)
  qed (use assms in \<open>auto simp: json_blank_def jw_write_string_def\<close>)
  then show "jw_write_cdo_value w d v \<noteq> [] \<and> \<not> json_blank (hd (jw_write_cdo_value w d v))"
    "hd (jw_write_cdo_value w d v) \<noteq> CHR '']''" by simp_all
qed

lemma skip_ws_idem [simp]: "jp_skip_ws (jp_skip_ws s) = jp_skip_ws s"
  by (induction s) (simp_all add: jp_skip_ws_def)

lemma parse_after_skip: "jp_parse_array n acc (jp_skip_ws s) = jp_parse_array n acc s"
    "jp_parse_object n fs (jp_skip_ws s) = jp_parse_object n fs s"
  by (cases n; simp)+

text \<open>The writer's layout of a list of items: each after its indent, separated by commas, closed on a line of
  its own.\<close>

lemma parse_written_items:
  assumes "\<And>v n r. v \<in> set vs \<Longrightarrow> json_stop r \<Longrightarrow> 2 * length (enc v @ r) + 1 \<le> n \<Longrightarrow>
      jp_parse_value n (enc v @ r) = Some (Inr (v, r))"
    "\<And>v. v \<in> set vs \<Longrightarrow> enc v \<noteq> [] \<and> \<not> json_blank (hd (enc v))"
    "vs \<noteq> []" "2 * length (join '','' (map (\<lambda>v. jw_indent w e @ enc v) vs) @ jw_indent w d @ '']'' @ r) + 2 \<le> n"
  shows "jp_parse_array n acc (join '','' (map (\<lambda>v. jw_indent w e @ enc v) vs) @ jw_indent w d @ '']'' @ r) =
         Some (Inr (TArray (acc @ vs), r))"
  using assms
proof (induction vs arbitrary: n acc)
  case (Cons v vs)
  note pv = Cons.prems(1) [of v] and st = Cons.prems(2) [of v]
  obtain m where n: "n = Suc m" using Cons.prems(4) by (cases n) auto
  define rest where "rest = (if vs = [] then jw_indent w d @ '']'' @ r
      else '','' @ join '','' (map (\<lambda>v. jw_indent w e @ enc v) vs) @ jw_indent w d @ '']'' @ r)"
  have inp: "join '','' (map (\<lambda>v. jw_indent w e @ enc v) (v # vs)) @ jw_indent w d @ '']'' @ r = jw_indent w e @ enc v @ rest"
    by (simp add: join_Cons rest_def)
  have stop: "json_stop rest" by (auto simp: rest_def json_stop_def jw_indent_def)
  have ws: "jp_skip_ws (jw_indent w e @ enc v @ rest) = enc v @ rest"
    using st by (simp add: skip_ws_blanks [OF indent_blank] skip_ws_nonblank)
  have "2 * length (enc v @ rest) + 1 \<le> m" using Cons.prems(4) unfolding inp n by simp
  then have v: "jp_parse_value m (enc v @ rest) = Some (Inr (v, rest))" using pv [of rest m] stop by simp
  show ?case
  proof (cases "vs = []")
    case True
    then have "jp_skip_ws rest = '']'' @ r" by (simp add: rest_def skip_ws_indent json_blank_def)
    then show ?thesis unfolding inp n using True by (simp add: ws v)
  next
    case False
    let ?more = "join '','' (map (\<lambda>v. jw_indent w e @ enc v) vs) @ jw_indent w d @ '']'' @ r"
    have "jp_skip_ws rest = CHR '','' # ?more" using False by (simp add: rest_def skip_ws_plain json_blank_def)
    moreover have "2 * length ?more + 2 \<le> m"
      using Cons.prems(4) False unfolding inp n by (simp add: rest_def)
    then have "jp_parse_array m (acc @ [v]) ?more = Some (Inr (TArray ((acc @ [v]) @ vs), r))"
      by (intro Cons.IH) (use Cons.prems(1,2) False in simp_all)
    ultimately show ?thesis unfolding inp n by (simp add: ws v)
  qed
qed simp

lemma parse_written_fields:
  assumes "\<And>k v n r. (k, v) \<in> set fs \<Longrightarrow> json_stop r \<Longrightarrow> 2 * length (enc v @ r) + 1 \<le> n \<Longrightarrow>
      jp_parse_value n (enc v @ r) = Some (Inr (v, r))"
    "\<And>k v. (k, v) \<in> set fs \<Longrightarrow> enc v \<noteq> [] \<and> \<not> json_blank (hd (enc v))"
    "fs \<noteq> []" "distinct (map fst (acc @ fs))" "list_all json_blank gap"
    "2 * length (join '','' (map (\<lambda>(k, v). jw_indent w e @ jw_write_string k @ '':'' @ gap @ enc v) fs) @
                 jw_indent w d @ ''}'' @ r) + 2 \<le> n"
  shows "jp_parse_object n acc (join '','' (map (\<lambda>(k, v). jw_indent w e @ jw_write_string k @ '':'' @ gap @ enc v) fs) @
            jw_indent w d @ ''}'' @ r) = Some (Inr (TObject (acc @ fs), r))"
  using assms
proof (induction fs arbitrary: n acc)
  case (Cons kv fs)
  obtain k v where kv: "kv = (k, v)" by force
  note pv = Cons.prems(1) [of k v] and st = Cons.prems(2) [of k v]
  obtain m where n: "n = Suc m" using Cons.prems(6) by (cases n) auto
  let ?enc = "\<lambda>(k, v). jw_indent w e @ jw_write_string k @ '':'' @ gap @ enc v"
  define rest where "rest = (if fs = [] then jw_indent w d @ ''}'' @ r
      else '','' @ join '','' (map ?enc fs) @ jw_indent w d @ ''}'' @ r)"
  have inp: "join '','' (map ?enc (kv # fs)) @ jw_indent w d @ ''}'' @ r =
      jw_indent w e @ jw_write_string k @ '':'' @ gap @ enc v @ rest"
    by (simp add: join_Cons rest_def kv)
  have stop: "json_stop rest" by (auto simp: rest_def json_stop_def jw_indent_def)
  obtain t where t: "jw_write_string k = CHR 0x22 # t" by (simp add: jw_write_string_def)
  have ws1: "jp_skip_ws (jw_indent w e @ jw_write_string k @ s) = jw_write_string k @ s" for s
    by (simp add: t skip_ws_indent json_blank_def)
  have key: "jp_parse_string (jw_write_string k @ '':'' @ gap @ enc v @ rest) = Inr (k, '':'' @ gap @ enc v @ rest)"
    by (rule parse_written_string)
  have ws2: "jp_skip_ws (gap @ enc v @ rest) = enc v @ rest"
    using st kv by (simp add: skip_ws_blanks [OF Cons.prems(5)] skip_ws_nonblank)
  have "2 * length (enc v @ rest) + 1 \<le> m" using Cons.prems(6) unfolding inp n by simp
  then have v: "jp_parse_value m (enc v @ rest) = Some (Inr (v, rest))" using pv [of rest m] stop kv by simp
  have set: "tree_set acc k v = acc @ [(k, v)]" using Cons.prems(4) kv by (intro tree_set_new) auto
  have hd: "jw_write_string k @ s \<noteq> []" "hd (jw_write_string k @ s) = CHR 0x22" for s by (simp_all add: t)
  note step = ws1 key ws2 v set hd skip_ws_plain [of "CHR '':''"] json_blank_def Let_def
  show ?case
  proof (cases "fs = []")
    case True
    then have "jp_skip_ws rest = ''}'' @ r" by (simp add: rest_def skip_ws_indent json_blank_def)
    then show ?thesis unfolding inp n using True kv key by (simp add: step)
  next
    case False
    let ?more = "join '','' (map ?enc fs) @ jw_indent w d @ ''}'' @ r"
    have "jp_skip_ws rest = CHR '','' # ?more" using False by (simp add: rest_def skip_ws_plain json_blank_def)
    moreover have "2 * length ?more + 2 \<le> m"
      using Cons.prems(6) False unfolding inp n by (simp add: rest_def)
    then have "jp_parse_object m (acc @ [(k, v)]) ?more = Some (Inr (TObject ((acc @ [(k, v)]) @ fs), r))"
    proof (intro Cons.IH)
      show "distinct (map fst ((acc @ [(k, v)]) @ fs))" using Cons.prems(4) kv by auto
      show "jp_parse_value n (enc v @ r) = Some (Inr (v, r))"
        if "(k, v) \<in> set fs" "json_stop r" "2 * length (enc v @ r) + 1 \<le> n" for k v n r
        by (rule Cons.prems(1) [of k]) (use that in simp_all)
      show "enc v \<noteq> [] \<and> \<not> json_blank (hd (enc v))" if "(k, v) \<in> set fs" for k v
        by (rule Cons.prems(2) [of k]) (use that in simp)
    qed (use Cons.prems(5) False in simp_all)
    ultimately show ?thesis unfolding inp n using kv key by (simp add: step)
  qed
qed simp

lemma parse_literal:
  "2 * length s + 1 \<le> n \<Longrightarrow> s = ''true'' @ r \<Longrightarrow> jp_parse_value n s = Some (Inr (TBool True, r))"
  "2 * length s + 1 \<le> n \<Longrightarrow> s = ''false'' @ r \<Longrightarrow> jp_parse_value n s = Some (Inr (TBool False, r))"
  "2 * length s + 1 \<le> n \<Longrightarrow> s = ''null'' @ r \<Longrightarrow> jp_parse_value n s = Some (Inr (TNull, r))"
  by (cases n; simp add: skip_ws_plain json_blank_def jp_match_def Let_def)+

lemma parse_written:
  assumes "tree_ok v" "json_stop r" "2 * length (jw_write_cdo_value w d v @ r) + 1 \<le> n"
  shows "jp_parse_value n (jw_write_cdo_value w d v @ r) = Some (Inr (v, r))"
  using assms
proof (induction v arbitrary: d n r)
  case TNull
  then show ?case by (intro parse_literal(3)) simp_all
next
  case (TBool b)
  then show ?case by (cases b) (auto intro!: parse_literal)
next
  case (TNumber x)
  then obtain s m where x: "x = f64_signed s m" "m < 10 ^ 15" by auto
  obtain k where n: "n = Suc k" using TNumber.prems(3) by (cases n) auto
  obtain c t where ct: "(if s then ''-'' else []) @ decimal m = c # t" by (cases "(if s then ''-'' else []) @ decimal m") auto
  have c: "c = CHR ''-'' \<or> c_isdigit c"
    using ct decimal_digits [of m] by (cases "decimal m") (auto split: if_splits)
  then have nc: "\<not> json_blank c" "c \<notin> {CHR 0x22, CHR ''['', CHR ''{'', CHR ''t'', CHR ''f'', CHR ''n''}"
    by (auto simp: json_blank_def c_isdigit_def)
  have "jp_parse_number (c # t @ r) = Inr (x, r)"
    using parse_written_number [OF x(2) TNumber.prems(2), of s] ct x by (metis append.assoc append_Cons)
  moreover have "jw_write_number x = c # t" using write_whole [OF x(2), of s] x(1) ct by simp
  ultimately show ?case using nc c n by (simp add: skip_ws_plain Let_def)
next
  case (TString s)
  obtain k where n: "n = Suc k" using TString.prems(3) by (cases n) auto
  obtain t where t: "jw_write_string s = CHR 0x22 # t" by (simp add: jw_write_string_def)
  then have "jp_parse_string (CHR 0x22 # t @ r) = Inr (s, r)" using parse_written_string [of s r] by simp
  then show ?case using n t by (simp add: skip_ws_plain json_blank_def Let_def)
next
  case (TArray vs)
  obtain k where n: "n = Suc k" using TArray.prems(3) by (cases n) auto
  show ?case
  proof (cases "vs = []")
    case True
    then show ?thesis using n by (simp add: skip_ws_plain json_blank_def Let_def)
  next
    case False
    let ?enc = "jw_write_cdo_value w (d + 1)"
    let ?body = "join '','' (map (\<lambda>v. jw_indent w (d + 1) @ ?enc v) vs) @ jw_indent w d @ '']'' @ r"
    have inp: "jw_write_cdo_value w d (TArray vs) @ r = CHR ''['' # ?body" using False by simp
    have arr: "jp_parse_array k [] ?body = Some (Inr (TArray ([] @ vs), r))"
    proof (rule parse_written_items)
      show "jp_parse_value n (?enc v @ r) = Some (Inr (v, r))"
        if "v \<in> set vs" "json_stop r" "2 * length (?enc v @ r) + 1 \<le> n" for v n r
        by (rule TArray.IH) (use that TArray.prems(1) in simp_all)
      show "?enc v \<noteq> [] \<and> \<not> json_blank (hd (?enc v))" if "v \<in> set vs" for v
        by (rule written_start) (use that TArray.prems(1) in simp)
      show "2 * length ?body + 2 \<le> k" using TArray.prems(3) unfolding inp n by simp
    qed (rule False)
    obtain v vs' where vs: "vs = v # vs'" using False by (cases vs) auto
    have st: "?enc v \<noteq> []" "\<not> json_blank (hd (?enc v))" "hd (?enc v) \<noteq> CHR '']''"
      using written_start [of v w "d + 1"] TArray.prems(1) vs by auto
    have "\<exists>u. jp_skip_ws ?body = hd (?enc v) # u"
      unfolding vs using st(1,2) by (cases "?enc v") (simp_all add: join_Cons skip_ws_blanks [OF indent_blank] skip_ws_plain)
    then obtain u where u: "jp_skip_ws ?body = hd (?enc v) # u" by blast
    have "jp_parse_array k [] (hd (?enc v) # u) = Some (Inr (TArray vs, r))"
      using arr unfolding u [symmetric] parse_after_skip by simp
    then show ?thesis unfolding inp n using u st(3) by (simp add: skip_ws_plain json_blank_def Let_def)
  qed
next
  case (TObject fs)
  obtain k where n: "n = Suc k" using TObject.prems(3) by (cases n) auto
  show ?case
  proof (cases "fs = []")
    case True
    then show ?thesis using n by (simp add: skip_ws_plain json_blank_def Let_def)
  next
    case False
    let ?enc = "jw_write_cdo_value w (d + 1)" and ?gap = "if w = 0 then [] else '' ''"
    let ?body = "join '','' (map (\<lambda>(k, v). jw_indent w (d + 1) @ jw_write_string k @ '':'' @ ?gap @ ?enc v) fs) @
        jw_indent w d @ ''}'' @ r"
    have inp: "jw_write_cdo_value w d (TObject fs) @ r = CHR ''{'' # ?body" using False by simp
    have obj: "jp_parse_object k [] ?body = Some (Inr (TObject ([] @ fs), r))"
    proof (rule parse_written_fields)
      show "jp_parse_value n (?enc v @ r) = Some (Inr (v, r))"
        if "(k, v) \<in> set fs" "json_stop r" "2 * length (?enc v @ r) + 1 \<le> n" for k v n r
        by (rule TObject.IH [of "(k, v)"]) (use that TObject.prems(1) in \<open>auto simp: Basic_BNFs.snds.simps\<close>)
      show "?enc v \<noteq> [] \<and> \<not> json_blank (hd (?enc v))" if "(k, v) \<in> set fs" for k v
        by (rule written_start) (use that TObject.prems(1) in auto)
      show "distinct (map fst ([] @ fs))" "list_all json_blank ?gap" using TObject.prems(1) by (simp_all add: json_blank_def)
      show "2 * length ?body + 2 \<le> k" using TObject.prems(3) unfolding inp n by simp
    qed (rule False)
    obtain kv fs' where fs: "fs = kv # fs'" using False by (cases fs) auto
    have "\<exists>u. jp_skip_ws ?body = CHR 0x22 # u"
      unfolding fs by (cases kv) (simp add: join_Cons jw_write_string_def skip_ws_indent json_blank_def)
    then obtain u where u: "jp_skip_ws ?body = CHR 0x22 # u" by blast
    have "jp_parse_object k [] (CHR 0x22 # u) = Some (Inr (TObject fs, r))"
      using obj unfolding u [symmetric] parse_after_skip by simp
    then show ?thesis unfolding inp n using u by (simp add: skip_ws_plain json_blank_def Let_def)
  qed
qed simp

section \<open>Properties\<close>

text \<open>C32. JSON round trip: every script value made of null, booleans, whole numbers below \<open>10 ^ 15\<close> (either sign, minus
  zero included), arbitrary byte strings, arrays and objects without repeated keys is given back exactly by
  \<open>json.parse\<close> from the text \<open>json.stringify\<close> makes of it, for every requested indent.\<close>

theorem json_roundtrip:
  assumes "tree_ok v"
  shows "json_parse (json_stringify v indent) = Some (Inr v)"
proof -
  define w where "w = nat (if indent < 0 then 0 else if 16 < indent then 16 else indent)"
  define r where "r = (if 0 < w \<and> jw_write_cdo_value w 0 v \<noteq> [] then [CHR 0x0A] else [])"
  have s: "json_stringify v indent = jw_write_cdo_value w 0 v @ r"
    by (simp add: json_stringify_def w_def r_def Let_def)
  have "json_stop r" by (simp add: r_def json_stop_def)
  then have p: "jp_parse_value (2 * length (jw_write_cdo_value w 0 v @ r) + 1) (jw_write_cdo_value w 0 v @ r) = Some (Inr (v, r))"
    by (intro parse_written [OF assms]) simp_all
  show ?thesis unfolding json_parse_def s p by (simp only: option.case sum.case prod.case)
qed

theorem json_roundtrip_witness:
  "json_parse (json_stringify (TObject [(''a'', TArray [TNumber (f64_signed True 12), TString [CHR 0x22, CHR 0x01]]), (''b'', TNull)]) 2) =
     Some (Inr (TObject [(''a'', TArray [TNumber (f64_signed True 12), TString [CHR 0x22, CHR 0x01]]), (''b'', TNull)]))"
  by (rule json_roundtrip) (auto intro!: exI [of _ True] exI [of _ 12])

text \<open>C33. Parsing always ends, whatever the bytes: every input gives a value or an error message (which \<open>json.parse\<close> raises),
  wherever it stops. The loops and the recursion together take at most twice as many rounds as the input has bytes, and
  one more; the C stack, which \<open>json.c\<close> does not guard against deep nesting, is taken to hold that many calls.\<close>

theorem json_parse_total:
  "\<exists>res. json_parse src = Some res"
proof -
  have "consumes src (jp_parse_value (2 * length src + 1) src)" by (rule enough_fuel) simp
  then obtain res where "jp_parse_value (2 * length src + 1) src = Some res" by (auto simp: consumes_def)
  then show ?thesis unfolding json_parse_def by (simp only: option.case split: sum.split prod.split) blast
qed

lemma json_parse_total_witness: "\<exists>msg. json_parse ''[ '' = Some (Inl msg)"
proof -
  obtain res where res: "json_parse ''[ '' = Some res" using json_parse_total by blast
  have "jp_parse_value (2 * length ''[ '' + 1) ''[ '' = Some (Inl (''unexpected end of input'', 0))"
    by (simp add: eval_nat_numeral jp_skip_ws_def json_blank_def Let_def)
  then have "map_option isl (json_parse ''[ '') = Some True" by (simp add: json_parse_def)
  then show ?thesis using res by (cases res) auto
qed

end
