(* ===== verification/Csv_Codec.thy ===== *)
theory Csv_Codec
  imports Script_Tree
begin

text \<open>
  The CSV library (\<open>source/lib/csv.c\<close>): a field scanner with quoted and bare fields, rows, tables with and
  without a header, and the writer. The parser state is the unread input.
\<close>

section \<open>The parser\<close>

fun csv_skip_crlf :: "string \<Rightarrow> string" where
  "csv_skip_crlf s =
     (let s = (if s \<noteq> [] \<and> hd s = CHR 0x0D then tl s else s)
      in if s \<noteq> [] \<and> hd s = CHR 0x0A then tl s else s)"

text \<open>The inside of a quoted field; a quote that is not doubled ends it, and so does the end of the input.\<close>

fun csv_quoted :: "string \<Rightarrow> string \<Rightarrow> string \<times> string" where
  "csv_quoted acc [] = (acc, [])"
| "csv_quoted acc [c] = (if c = CHR 0x22 then (acc, []) else (acc @ [c], []))"
| "csv_quoted acc (c # d # s) =
     (if c = CHR 0x22 then
        (if d = CHR 0x22 then csv_quoted (acc @ [CHR 0x22]) s else (acc, d # s))
      else csv_quoted (acc @ [c]) (d # s))"

definition csv_bare_char :: "char \<Rightarrow> char \<Rightarrow> bool" where
  "csv_bare_char delim c \<longleftrightarrow> \<not> (c = delim \<or> c = CHR 0x0A \<or> c = CHR 0x0D)"

definition csv_parse_field :: "char \<Rightarrow> string \<Rightarrow> string \<times> string" where
  "csv_parse_field delim s =
     (if s \<noteq> [] \<and> hd s = CHR 0x22 then csv_quoted [] (tl s)
      else (takeWhile (csv_bare_char delim) s, dropWhile (csv_bare_char delim) s))"

lemma csv_quoted_length: "csv_quoted acc s = (f, r) \<Longrightarrow> length r \<le> length s"
  by (induction acc s rule: csv_quoted.induct) (auto split: if_splits)

lemma csv_field_length: "csv_parse_field delim s = (f, r) \<Longrightarrow> length r \<le> length s"
proof (cases "s \<noteq> [] \<and> hd s = CHR 0x22")
  case True
  assume "csv_parse_field delim s = (f, r)"
  then have "csv_quoted [] (tl s) = (f, r)" using True by (simp add: csv_parse_field_def)
  then show ?thesis using csv_quoted_length [of "[]" "tl s" f r] by (cases s) auto
next
  case False
  assume "csv_parse_field delim s = (f, r)"
  then have "r = dropWhile (csv_bare_char delim) s" using False by (auto simp: csv_parse_field_def)
  then show ?thesis by (simp add: length_dropWhile_le)
qed

function csv_row_loop :: "char \<Rightarrow> string list \<Rightarrow> string \<Rightarrow> string list \<times> string" where
  "csv_row_loop delim arr s =
     (case csv_parse_field delim s of
        (f, []) \<Rightarrow> (arr @ [f], [])
      | (f, c # r) \<Rightarrow> if c = delim then csv_row_loop delim (arr @ [f]) r else (arr @ [f], csv_skip_crlf (c # r)))"
  by auto
termination by (relation "measure (\<lambda>(_, _, s). length s)") (auto dest!: csv_field_length [OF sym])

declare csv_row_loop.simps [simp del]

definition csv_parse_row :: "char \<Rightarrow> string \<Rightarrow> string list \<times> string" where
  "csv_parse_row delim s = csv_row_loop delim [] s"

text \<open>A row always reads something.\<close>

lemma crlf_length: "length (csv_skip_crlf s) \<le> length s"
  by (cases s; cases "tl s") (auto simp: Let_def)

lemma row_loop_length: "csv_row_loop delim arr s = (row, r) \<Longrightarrow> length r \<le> length s"
proof (induction delim arr s rule: csv_row_loop.induct)
  case (1 delim arr s)
  obtain f t where ft: "csv_parse_field delim s = (f, t)" by force
  note len = csv_field_length [OF ft]
  show ?case
  proof (cases t)
    case Nil
    then show ?thesis using "1.prems" ft by (simp add: csv_row_loop.simps [of delim arr s])
  next
    case (Cons c u)
    show ?thesis
    proof (cases "c = delim")
      case True
      then show ?thesis using "1.prems" "1.IH" [OF ft [symmetric] Cons True] ft Cons len
        by (simp add: csv_row_loop.simps [of delim arr s])
    next
      case False
      then have "r = csv_skip_crlf t" using "1.prems" ft Cons by (simp add: csv_row_loop.simps [of delim arr s] del: csv_skip_crlf.simps)
      then show ?thesis using crlf_length [of t] len by simp
    qed
  qed
qed

lemma row_progress:
  assumes "s \<noteq> []" "csv_parse_row delim s = (row, r)"
  shows "length r < length s"
proof -
  obtain f t where ft: "csv_parse_field delim s = (f, t)" by force
  have loop: "csv_row_loop delim [] s = (row, r)" using assms(2) by (simp add: csv_parse_row_def)
  obtain c0 s' where s: "s = c0 # s'" using assms(1) by (cases s) auto
  show ?thesis
  proof (cases t)
    case Nil
    then have "r = []" using loop ft by (simp add: csv_row_loop.simps [of delim "[]" s])
    then show ?thesis using s by simp
  next
    case (Cons c u)
    show ?thesis
    proof (cases "c = delim")
      case True
      then have "csv_row_loop delim [f] u = (row, r)" using loop ft Cons by (simp add: csv_row_loop.simps [of delim "[]" s])
      then show ?thesis using row_loop_length [of delim "[f]" u row r] csv_field_length [OF ft] Cons by simp
    next
      case False
      then have r: "r = csv_skip_crlf t" using loop ft Cons by (simp add: csv_row_loop.simps [of delim "[]" s] del: csv_skip_crlf.simps)
      show ?thesis
      proof (cases "c0 = CHR 0x22")
        case True
        then have "length t \<le> length s'" using ft s csv_quoted_length [of "[]" s' f t] by (simp add: csv_parse_field_def)
        then show ?thesis using crlf_length [of t] r s by simp
      next
        case bare: False
        then have t: "t = dropWhile (csv_bare_char delim) s" using ft s by (auto simp: csv_parse_field_def)
        then have "dropWhile (csv_bare_char delim) s = c # u" using Cons by simp
        then have "\<not> csv_bare_char delim c" by (simp add: dropWhile_eq_Cons_conv)
        then have "length (csv_skip_crlf t) < length t"
          using False Cons by (cases u) (auto simp: csv_bare_char_def Let_def)
        moreover have "length t \<le> length s" unfolding t by (rule length_dropWhile_le)
        ultimately show ?thesis using r by simp
      qed
    qed
  qed
qed

function csv_rows :: "char \<Rightarrow> string \<Rightarrow> string list list" where
  "csv_rows delim s =
     (if s = [] then [] else case csv_parse_row delim s of (row, r) \<Rightarrow> row # csv_rows delim r)"
  by auto
termination by (relation "measure (length \<circ> snd)") (auto dest: row_progress [OF _ sym])

declare csv_rows.simps [simp del]

text \<open>A row under a header becomes an object; a repeated header keeps its first place and last cell.\<close>

definition csv_row_object :: "string list \<Rightarrow> string list \<Rightarrow> script_tree" where
  "csv_row_object header row = TObject (foldl (\<lambda>fs (k, cell). tree_set fs k (TString cell)) [] (zip header row))"

definition csv_delim :: "string option \<Rightarrow> char" where
  "csv_delim d = (case d of Some (c # _) \<Rightarrow> c | _ \<Rightarrow> CHR '','')"

definition csv_parse :: "string \<Rightarrow> string option \<Rightarrow> bool \<Rightarrow> script_tree" where
  "csv_parse src delim_arg header_mode =
     (let delim = csv_delim delim_arg
      in if header_mode \<and> src \<noteq> [] then
           (case csv_parse_row delim src of
              (header, r) \<Rightarrow> TArray (map (csv_row_object header) (csv_rows delim r)))
         else TArray (map (\<lambda>row. TArray (map TString row)) (csv_rows delim src)))"

section \<open>The writer\<close>

definition csv_cell_to_str :: "script_tree \<Rightarrow> string" where
  "csv_cell_to_str v = (case v of
     TNull \<Rightarrow> []
   | TBool b \<Rightarrow> if b then ''true'' else ''false''
   | TNumber n \<Rightarrow> if f64_whole_below_1e15 n then fmt_f0 n else fmt_g17 n
   | TString s \<Rightarrow> s
   | _ \<Rightarrow> [])"

definition csv_write_field :: "string \<Rightarrow> char \<Rightarrow> string" where
  "csv_write_field cell delim =
     (if list_ex (\<lambda>c. c = CHR 0x22 \<or> c = CHR 0x0D \<or> c = CHR 0x0A \<or> c = delim) cell
      then [CHR 0x22] @ concat (map (\<lambda>c. if c = CHR 0x22 then [CHR 0x22, c] else [c]) cell) @ [CHR 0x22]
      else cell)"

definition csv_max_cols :: nat where
  "csv_max_cols = 4096"

definition csv_extract_headers :: "script_tree list \<Rightarrow> string option list" where
  "csv_extract_headers hdr = map (\<lambda>v. case v of TString s \<Rightarrow> Some s | _ \<Rightarrow> None) (take csv_max_cols hdr)"

definition crlf :: string where
  "crlf = [CHR 0x0D, CHR 0x0A]"

definition csv_header_row :: "string option list \<Rightarrow> char \<Rightarrow> string" where
  "csv_header_row keys delim = join [delim] (map (\<lambda>k. case k of Some k \<Rightarrow> csv_write_field k delim | None \<Rightarrow> []) keys) @ crlf"

definition csv_array_row :: "char \<Rightarrow> script_tree \<Rightarrow> string" where
  "csv_array_row delim row = (case row of
     TArray cells \<Rightarrow> join [delim] (map (\<lambda>v. csv_write_field (csv_cell_to_str v) delim) cells) @ crlf
   | _ \<Rightarrow> [])"

definition csv_object_row :: "string option list \<Rightarrow> char \<Rightarrow> script_tree \<Rightarrow> string" where
  "csv_object_row keys delim row = (case row of
     TObject fs \<Rightarrow>
       join [delim] (map (\<lambda>k. case k of
           Some k \<Rightarrow> csv_write_field (case map_of fs k of Some v \<Rightarrow> csv_cell_to_str v | None \<Rightarrow> []) delim
         | None \<Rightarrow> []) keys)
   | _ \<Rightarrow> join [delim] (map (\<lambda>_. []) keys)) @ crlf"

text \<open>\<open>csv.stringify\<close> of the rows of an array, with the optional array of headers.\<close>

definition csv_stringify :: "script_tree list \<Rightarrow> string option \<Rightarrow> script_tree list option \<Rightarrow> string" where
  "csv_stringify data delim_arg headers =
     (let delim = csv_delim delim_arg
      in case headers of
           Some hdr \<Rightarrow>
             (let keys = csv_extract_headers hdr
              in csv_header_row keys delim @ concat (map (csv_object_row keys delim) data))
         | None \<Rightarrow>
             (case data of
                TObject fs # _ \<Rightarrow>
                  (let keys = map (Some \<circ> fst) (take csv_max_cols fs)
                   in (if keys = [] then [] else csv_header_row keys delim) @ concat (map (csv_object_row keys delim) data))
              | _ \<Rightarrow> concat (map (csv_array_row delim) data)))"

section \<open>What is written is read back\<close>

lemma quoted_reads_escape:
  "r = [] \<or> hd r \<noteq> CHR 0x22 \<Longrightarrow>
   csv_quoted acc (concat (map (\<lambda>c. if c = CHR 0x22 then [CHR 0x22, c] else [c]) cell) @ CHR 0x22 # r) = (acc @ cell, r)"
proof (induction cell arbitrary: acc)
  case Nil
  then show ?case by (cases r) auto
next
  case (Cons c cell)
  show ?case
  proof (cases "c = CHR 0x22")
    case True
    then show ?thesis using Cons by simp
  next
    case False
    obtain d u where "concat (map (\<lambda>c. if c = CHR 0x22 then [CHR 0x22, c] else [c]) cell) @ CHR 0x22 # r = d # u"
      by (cases "concat (map (\<lambda>c. if c = CHR 0x22 then [CHR 0x22, c] else [c]) cell)") auto
    then show ?thesis using Cons False by simp
  qed
qed

definition csv_field_end :: "char \<Rightarrow> string \<Rightarrow> bool" where
  "csv_field_end delim r \<longleftrightarrow> r = [] \<or> hd r = delim \<or> hd r = CHR 0x0D \<or> hd r = CHR 0x0A"

lemma field_read_back:
  assumes "csv_field_end delim r" "delim \<noteq> CHR 0x22"
  shows "csv_parse_field delim (csv_write_field cell delim @ r) = (cell, r)"
proof (cases "list_ex (\<lambda>c. c = CHR 0x22 \<or> c = CHR 0x0D \<or> c = CHR 0x0A \<or> c = delim) cell")
  case True
  have "r = [] \<or> hd r \<noteq> CHR 0x22" using assms by (auto simp: csv_field_end_def)
  then show ?thesis using True quoted_reads_escape [of r "[]" cell] by (simp add: csv_parse_field_def csv_write_field_def)
next
  case False
  then have all: "\<forall>c\<in>set cell. csv_bare_char delim c" and no_quote: "\<forall>c\<in>set cell. c \<noteq> CHR 0x22"
    by (auto simp: list_ex_iff csv_bare_char_def)
  have rest: "takeWhile (csv_bare_char delim) r = []" "dropWhile (csv_bare_char delim) r = r"
    using assms(1) by (cases r; auto simp: csv_field_end_def csv_bare_char_def)+
  have "\<not> (cell @ r \<noteq> [] \<and> hd (cell @ r) = CHR 0x22)"
    using no_quote assms by (cases cell) (auto simp: csv_field_end_def)
  moreover have "csv_write_field cell delim = cell" using False by (simp add: csv_write_field_def)
  ultimately have "csv_parse_field delim (csv_write_field cell delim @ r)
      = (takeWhile (csv_bare_char delim) (cell @ r), dropWhile (csv_bare_char delim) (cell @ r))"
    by (simp only: csv_parse_field_def if_False)
  then show ?thesis using all rest by (simp add: takeWhile_append2 dropWhile_append2)
qed

text \<open>The two characters of the line end, seen from the parser.\<close>

lemma crlf_ends_field: "csv_field_end delim (crlf @ r)"
  by (simp add: csv_field_end_def crlf_def)

lemma crlf_case: "delim \<noteq> CHR 0x0D \<Longrightarrow>
  (case (f, crlf @ r) of (f, []) \<Rightarrow> (arr @ [f], [])
   | (f, c # r) \<Rightarrow> if c = delim then csv_row_loop delim (arr @ [f]) r else (arr @ [f], csv_skip_crlf (c # r))) = (arr @ [f], r)"
  by (simp add: crlf_def)

abbreviation csv_cells :: "char \<Rightarrow> string list \<Rightarrow> string" where
  "csv_cells delim cells \<equiv> join [delim] (map (\<lambda>c. csv_write_field c delim) cells)"

lemma row_read_back:
  assumes "cells \<noteq> []" "delim \<notin> {CHR 0x22, CHR 0x0D, CHR 0x0A}"
  shows "csv_row_loop delim acc (csv_cells delim cells @ crlf @ r) = (acc @ cells, r)"
  using assms(1)
proof (induction cells arbitrary: acc)
  case (Cons c cells)
  show ?case
  proof (cases cells)
    case Nil
    have "csv_parse_field delim (csv_write_field c delim @ crlf @ r) = (c, crlf @ r)"
      using assms(2) by (intro field_read_back crlf_ends_field) auto
    then have "csv_row_loop delim acc (csv_write_field c delim @ crlf @ r) = (acc @ [c], r)"
      using crlf_case [where delim = delim and f = c and r = r and arr = acc] assms(2)
      by (simp only: csv_row_loop.simps [of delim acc "csv_write_field c delim @ crlf @ r"]) simp
    then show ?thesis using Nil by simp
  next
    case (Cons d ds)
    define rest where "rest = csv_cells delim cells @ crlf @ r"
    have "csv_parse_field delim (csv_write_field c delim @ delim # rest) = (c, delim # rest)"
      using assms(2) by (intro field_read_back) (auto simp: csv_field_end_def)
    then have "csv_row_loop delim acc (csv_write_field c delim @ delim # rest) = csv_row_loop delim (acc @ [c]) rest"
      by (simp add: csv_row_loop.simps [of delim acc "csv_write_field c delim @ delim # rest"])
    moreover have "csv_cells delim (c # cells) @ crlf @ r = csv_write_field c delim @ delim # rest"
      using Cons by (simp add: join_Cons rest_def)
    ultimately show ?thesis using Cons.IH [of "acc @ [c]"] Cons by (simp add: rest_def)
  qed
qed simp

abbreviation csv_rows_text :: "char \<Rightarrow> string list list \<Rightarrow> string" where
  "csv_rows_text delim rows \<equiv> concat (map (\<lambda>row. csv_cells delim row @ crlf) rows)"

lemma rows_read_back:
  assumes "\<forall>row\<in>set rows. row \<noteq> []" "delim \<notin> {CHR 0x22, CHR 0x0D, CHR 0x0A}"
  shows "csv_rows delim (csv_rows_text delim rows) = rows"
  using assms(1)
proof (induction rows)
  case Nil
  then show ?case by (simp add: csv_rows.simps)
next
  case (Cons row rows)
  then have "csv_parse_row delim (csv_rows_text delim (row # rows)) = (row, csv_rows_text delim rows)"
    using row_read_back [of row delim "[]" "csv_rows_text delim rows"] assms(2) by (simp add: csv_parse_row_def)
  moreover have "csv_rows_text delim (row # rows) \<noteq> []" by (simp add: crlf_def)
  ultimately show ?case using Cons by (simp only: csv_rows.simps [of delim "csv_rows_text delim (row # rows)"]) simp
qed

lemma array_row_text: "csv_array_row delim (TArray (map TString row)) = csv_cells delim row @ crlf"
  by (simp add: csv_array_row_def csv_cell_to_str_def comp_def)

abbreviation csv_table :: "string list list \<Rightarrow> script_tree list" where
  "csv_table rows \<equiv> map (\<lambda>row. TArray (map TString row)) rows"

lemma stringify_table:
  "csv_stringify (csv_table rows) d None = csv_rows_text (csv_delim d) rows"
proof (cases rows)
  case (Cons row rest)
  then show ?thesis by (simp add: csv_stringify_def array_row_text comp_def Let_def)
qed (simp add: csv_stringify_def)

text \<open>C34. A table of non-empty rows of strings written by \<open>csv.stringify\<close> is read back by \<open>csv.parse\<close> as the same
  table, for every delimiter that is not a quote or a line end: delimiters, quotes, carriage returns and line feeds
  inside the cells are preserved.\<close>

theorem csv_roundtrip:
  assumes "\<forall>row\<in>set rows. row \<noteq> []" "csv_delim d \<notin> {CHR 0x22, CHR 0x0D, CHR 0x0A}"
  shows "csv_parse (csv_stringify (csv_table rows) d None) d False = TArray (csv_table rows)"
  using rows_read_back [OF assms] by (simp add: csv_parse_def stringify_table)

lemma csv_roundtrip_witness:
  "csv_parse (csv_stringify (csv_table [[''a,b'', [], [CHR 0x22, CHR 0x0A]], [''c'']]) None None) None False
     = TArray (csv_table [[''a,b'', [], [CHR 0x22, CHR 0x0A]], [''c'']])"
  by (rule csv_roundtrip) (simp_all add: csv_delim_def)


end
