(* ===== verification/Opcodes.thy ===== *)
theory Opcodes
  imports Prelude
begin

text \<open>
  The instruction set (\<open>source/vm/opcodes.h\<close>, \<open>source/vm/opcodes.c\<close>): the numbers of the opcodes, their names and
  operand formats, and the little-endian operands.
\<close>

section \<open>The opcodes\<close>

abbreviation (input) OP_CONST :: nat where "OP_CONST \<equiv> 0"
abbreviation (input) OP_NULL :: nat where "OP_NULL \<equiv> 1"
abbreviation (input) OP_TRUE :: nat where "OP_TRUE \<equiv> 2"
abbreviation (input) OP_FALSE :: nat where "OP_FALSE \<equiv> 3"
abbreviation (input) OP_POP :: nat where "OP_POP \<equiv> 4"
abbreviation (input) OP_POP_N :: nat where "OP_POP_N \<equiv> 5"
abbreviation (input) OP_DUP :: nat where "OP_DUP \<equiv> 6"
abbreviation (input) OP_LOAD_LOCAL :: nat where "OP_LOAD_LOCAL \<equiv> 7"
abbreviation (input) OP_STORE_LOCAL :: nat where "OP_STORE_LOCAL \<equiv> 8"
abbreviation (input) OP_DEF_LOCAL :: nat where "OP_DEF_LOCAL \<equiv> 9"
abbreviation (input) OP_DEF_CONST_LOCAL :: nat where "OP_DEF_CONST_LOCAL \<equiv> 10"
abbreviation (input) OP_LOAD_GLOBAL :: nat where "OP_LOAD_GLOBAL \<equiv> 11"
abbreviation (input) OP_STORE_GLOBAL :: nat where "OP_STORE_GLOBAL \<equiv> 12"
abbreviation (input) OP_DEF_GLOBAL :: nat where "OP_DEF_GLOBAL \<equiv> 13"
abbreviation (input) OP_DEF_CONST_GLOBAL :: nat where "OP_DEF_CONST_GLOBAL \<equiv> 14"
abbreviation (input) OP_LOAD_UPVAL :: nat where "OP_LOAD_UPVAL \<equiv> 15"
abbreviation (input) OP_STORE_UPVAL :: nat where "OP_STORE_UPVAL \<equiv> 16"
abbreviation (input) OP_CLOSE_UPVAL :: nat where "OP_CLOSE_UPVAL \<equiv> 17"
abbreviation (input) OP_ADD :: nat where "OP_ADD \<equiv> 18"
abbreviation (input) OP_SUB :: nat where "OP_SUB \<equiv> 19"
abbreviation (input) OP_MUL :: nat where "OP_MUL \<equiv> 20"
abbreviation (input) OP_DIV :: nat where "OP_DIV \<equiv> 21"
abbreviation (input) OP_MOD :: nat where "OP_MOD \<equiv> 22"
abbreviation (input) OP_POW :: nat where "OP_POW \<equiv> 23"
abbreviation (input) OP_NEG :: nat where "OP_NEG \<equiv> 24"
abbreviation (input) OP_POS :: nat where "OP_POS \<equiv> 25"
abbreviation (input) OP_INCR :: nat where "OP_INCR \<equiv> 26"
abbreviation (input) OP_DECR :: nat where "OP_DECR \<equiv> 27"
abbreviation (input) OP_EQ :: nat where "OP_EQ \<equiv> 28"
abbreviation (input) OP_NEQ :: nat where "OP_NEQ \<equiv> 29"
abbreviation (input) OP_LT :: nat where "OP_LT \<equiv> 30"
abbreviation (input) OP_GT :: nat where "OP_GT \<equiv> 31"
abbreviation (input) OP_LEQ :: nat where "OP_LEQ \<equiv> 32"
abbreviation (input) OP_GEQ :: nat where "OP_GEQ \<equiv> 33"
abbreviation (input) OP_EQ_STACK :: nat where "OP_EQ_STACK \<equiv> 34"
abbreviation (input) OP_NEQ_STACK :: nat where "OP_NEQ_STACK \<equiv> 35"
abbreviation (input) OP_LT_STACK :: nat where "OP_LT_STACK \<equiv> 36"
abbreviation (input) OP_GT_STACK :: nat where "OP_GT_STACK \<equiv> 37"
abbreviation (input) OP_LEQ_STACK :: nat where "OP_LEQ_STACK \<equiv> 38"
abbreviation (input) OP_GEQ_STACK :: nat where "OP_GEQ_STACK \<equiv> 39"
abbreviation (input) OP_RANGE_CHECK :: nat where "OP_RANGE_CHECK \<equiv> 40"
abbreviation (input) OP_BIT_AND :: nat where "OP_BIT_AND \<equiv> 41"
abbreviation (input) OP_BIT_OR :: nat where "OP_BIT_OR \<equiv> 42"
abbreviation (input) OP_BIT_XOR :: nat where "OP_BIT_XOR \<equiv> 43"
abbreviation (input) OP_BIT_NOT :: nat where "OP_BIT_NOT \<equiv> 44"
abbreviation (input) OP_LSHIFT :: nat where "OP_LSHIFT \<equiv> 45"
abbreviation (input) OP_RSHIFT :: nat where "OP_RSHIFT \<equiv> 46"
abbreviation (input) OP_NOT :: nat where "OP_NOT \<equiv> 47"
abbreviation (input) OP_AND_JUMP :: nat where "OP_AND_JUMP \<equiv> 48"
abbreviation (input) OP_OR_JUMP :: nat where "OP_OR_JUMP \<equiv> 49"
abbreviation (input) OP_NEW_OBJECT :: nat where "OP_NEW_OBJECT \<equiv> 50"
abbreviation (input) OP_NEW_ARRAY :: nat where "OP_NEW_ARRAY \<equiv> 51"
abbreviation (input) OP_GET_FIELD :: nat where "OP_GET_FIELD \<equiv> 52"
abbreviation (input) OP_SET_FIELD :: nat where "OP_SET_FIELD \<equiv> 53"
abbreviation (input) OP_GET_INDEX :: nat where "OP_GET_INDEX \<equiv> 54"
abbreviation (input) OP_SET_INDEX :: nat where "OP_SET_INDEX \<equiv> 55"
abbreviation (input) OP_LEN :: nat where "OP_LEN \<equiv> 56"
abbreviation (input) OP_KEYS_OF :: nat where "OP_KEYS_OF \<equiv> 57"
abbreviation (input) OP_VALS_OF :: nat where "OP_VALS_OF \<equiv> 58"
abbreviation (input) OP_JUMP :: nat where "OP_JUMP \<equiv> 59"
abbreviation (input) OP_JUMP_IF_FALSE :: nat where "OP_JUMP_IF_FALSE \<equiv> 60"
abbreviation (input) OP_JUMP_IF_TRUE :: nat where "OP_JUMP_IF_TRUE \<equiv> 61"
abbreviation (input) OP_LOOP :: nat where "OP_LOOP \<equiv> 62"
abbreviation (input) OP_BREAK :: nat where "OP_BREAK \<equiv> 63"
abbreviation (input) OP_CONTINUE :: nat where "OP_CONTINUE \<equiv> 64"
abbreviation (input) OP_LOOP_MARK :: nat where "OP_LOOP_MARK \<equiv> 65"
abbreviation (input) OP_LOOP_END :: nat where "OP_LOOP_END \<equiv> 66"
abbreviation (input) OP_CLOSURE :: nat where "OP_CLOSURE \<equiv> 67"
abbreviation (input) OP_CALL :: nat where "OP_CALL \<equiv> 68"
abbreviation (input) OP_METHOD_CALL :: nat where "OP_METHOD_CALL \<equiv> 69"
abbreviation (input) OP_FLUENT_CALL :: nat where "OP_FLUENT_CALL \<equiv> 70"
abbreviation (input) OP_RETURN :: nat where "OP_RETURN \<equiv> 71"
abbreviation (input) OP_TAIL_CALL :: nat where "OP_TAIL_CALL \<equiv> 72"
abbreviation (input) OP_LOAD_VARARG :: nat where "OP_LOAD_VARARG \<equiv> 73"
abbreviation (input) OP_VARARG_LEN :: nat where "OP_VARARG_LEN \<equiv> 74"
abbreviation (input) OP_UNPACK :: nat where "OP_UNPACK \<equiv> 75"
abbreviation (input) OP_RANGE_ASC :: nat where "OP_RANGE_ASC \<equiv> 76"
abbreviation (input) OP_RANGE_DESC :: nat where "OP_RANGE_DESC \<equiv> 77"
abbreviation (input) OP_FOR_INIT :: nat where "OP_FOR_INIT \<equiv> 78"
abbreviation (input) OP_FOR_NEXT :: nat where "OP_FOR_NEXT \<equiv> 79"
abbreviation (input) OP_FOR_OVER_INIT :: nat where "OP_FOR_OVER_INIT \<equiv> 80"
abbreviation (input) OP_FOR_OVER_NEXT :: nat where "OP_FOR_OVER_NEXT \<equiv> 81"
abbreviation (input) OP_PIPE_INIT :: nat where "OP_PIPE_INIT \<equiv> 82"
abbreviation (input) OP_PIPE_NEXT :: nat where "OP_PIPE_NEXT \<equiv> 83"
abbreviation (input) OP_FILTER_NEXT :: nat where "OP_FILTER_NEXT \<equiv> 84"
abbreviation (input) OP_PIPE_END :: nat where "OP_PIPE_END \<equiv> 85"
abbreviation (input) OP_PIPE_COLLECT :: nat where "OP_PIPE_COLLECT \<equiv> 86"
abbreviation (input) OP_FILTER_COLLECT :: nat where "OP_FILTER_COLLECT \<equiv> 87"
abbreviation (input) OP_TRY_BEGIN :: nat where "OP_TRY_BEGIN \<equiv> 88"
abbreviation (input) OP_TRY_END :: nat where "OP_TRY_END \<equiv> 89"
abbreviation (input) OP_CATCH_BEGIN :: nat where "OP_CATCH_BEGIN \<equiv> 90"
abbreviation (input) OP_FINALLY_BEGIN :: nat where "OP_FINALLY_BEGIN \<equiv> 91"
abbreviation (input) OP_THROW :: nat where "OP_THROW \<equiv> 92"
abbreviation (input) OP_RERAISE :: nat where "OP_RERAISE \<equiv> 93"
abbreviation (input) OP_ASYNC :: nat where "OP_ASYNC \<equiv> 94"
abbreviation (input) OP_AWAIT :: nat where "OP_AWAIT \<equiv> 95"
abbreviation (input) OP_YIELD :: nat where "OP_YIELD \<equiv> 96"
abbreviation (input) OP_THREAD :: nat where "OP_THREAD \<equiv> 97"
abbreviation (input) OP_NEW_CLASS :: nat where "OP_NEW_CLASS \<equiv> 98"
abbreviation (input) OP_BIND_METHOD :: nat where "OP_BIND_METHOD \<equiv> 99"
abbreviation (input) OP_INHERIT :: nat where "OP_INHERIT \<equiv> 100"
abbreviation (input) OP_MASK_PASS :: nat where "OP_MASK_PASS \<equiv> 101"
abbreviation (input) OP_MASK_SKIP :: nat where "OP_MASK_SKIP \<equiv> 102"
abbreviation (input) OP_MASK_APPLY :: nat where "OP_MASK_APPLY \<equiv> 103"
abbreviation (input) OP_SPREAD_RET :: nat where "OP_SPREAD_RET \<equiv> 104"
abbreviation (input) OP_ARRAY_SPREAD :: nat where "OP_ARRAY_SPREAD \<equiv> 105"
abbreviation (input) OP_TRUNCATE_RET :: nat where "OP_TRUNCATE_RET \<equiv> 106"
abbreviation (input) OP_EQ_SPREAD :: nat where "OP_EQ_SPREAD \<equiv> 107"
abbreviation (input) OP_NEQ_SPREAD :: nat where "OP_NEQ_SPREAD \<equiv> 108"
abbreviation (input) OP_LT_SPREAD :: nat where "OP_LT_SPREAD \<equiv> 109"
abbreviation (input) OP_GT_SPREAD :: nat where "OP_GT_SPREAD \<equiv> 110"
abbreviation (input) OP_LEQ_SPREAD :: nat where "OP_LEQ_SPREAD \<equiv> 111"
abbreviation (input) OP_GEQ_SPREAD :: nat where "OP_GEQ_SPREAD \<equiv> 112"
abbreviation (input) OP_NOP :: nat where "OP_NOP \<equiv> 113"
abbreviation (input) OP_HALT :: nat where "OP_HALT \<equiv> 114"

abbreviation (input) OP_COUNT :: nat where "OP_COUNT \<equiv> 115"

text \<open>The kinds of loop of \<open>OP_LOOP_MARK\<close>.\<close>

abbreviation (input) LOOP_WHILE :: nat where "LOOP_WHILE \<equiv> 0"
abbreviation (input) LOOP_FOR :: nat where "LOOP_FOR \<equiv> 1"
abbreviation (input) LOOP_FOR_OVER :: nat where "LOOP_FOR_OVER \<equiv> 2"

section \<open>Names and operand formats\<close>

datatype op_fmt = OPFMT_NONE | OPFMT_A | OPFMT_A_B

definition s_opcode_names :: "(nat \<times> string) list" where
  "s_opcode_names = [
    (OP_CONST, ''OP_CONST''), (OP_NULL, ''OP_NULL''), (OP_TRUE, ''OP_TRUE''), (OP_FALSE, ''OP_FALSE''),
     (OP_POP, ''OP_POP''), (OP_POP_N, ''OP_POP_N''), (OP_DUP, ''OP_DUP''), (OP_LOAD_LOCAL, ''OP_LOAD_LOCAL''),
     (OP_STORE_LOCAL, ''OP_STORE_LOCAL''), (OP_DEF_LOCAL, ''OP_DEF_LOCAL''),
     (OP_DEF_CONST_LOCAL, ''OP_DEF_CONST_LOCAL''), (OP_LOAD_GLOBAL, ''OP_LOAD_GLOBAL''),
     (OP_STORE_GLOBAL, ''OP_STORE_GLOBAL''), (OP_DEF_GLOBAL, ''OP_DEF_GLOBAL''),
     (OP_DEF_CONST_GLOBAL, ''OP_DEF_CONST_GLOBAL''), (OP_LOAD_UPVAL, ''OP_LOAD_UPVAL''),
     (OP_STORE_UPVAL, ''OP_STORE_UPVAL''), (OP_CLOSE_UPVAL, ''OP_CLOSE_UPVAL''), (OP_ADD, ''OP_ADD''),
     (OP_SUB, ''OP_SUB''), (OP_MUL, ''OP_MUL''), (OP_DIV, ''OP_DIV''), (OP_MOD, ''OP_MOD''),
     (OP_POW, ''OP_POW''), (OP_NEG, ''OP_NEG''), (OP_POS, ''OP_POS''), (OP_INCR, ''OP_INCR''),
     (OP_DECR, ''OP_DECR''), (OP_EQ, ''OP_EQ''), (OP_NEQ, ''OP_NEQ''), (OP_LT, ''OP_LT''), (OP_GT, ''OP_GT''),
     (OP_LEQ, ''OP_LEQ''), (OP_GEQ, ''OP_GEQ''), (OP_EQ_STACK, ''OP_EQ_STACK''),
     (OP_NEQ_STACK, ''OP_NEQ_STACK''), (OP_LT_STACK, ''OP_LT_STACK''), (OP_GT_STACK, ''OP_GT_STACK''),
     (OP_LEQ_STACK, ''OP_LEQ_STACK''), (OP_GEQ_STACK, ''OP_GEQ_STACK''), (OP_RANGE_CHECK, ''OP_RANGE_CHECK''),
     (OP_BIT_AND, ''OP_BIT_AND''), (OP_BIT_OR, ''OP_BIT_OR''), (OP_BIT_XOR, ''OP_BIT_XOR''),
     (OP_BIT_NOT, ''OP_BIT_NOT''), (OP_LSHIFT, ''OP_LSHIFT''), (OP_RSHIFT, ''OP_RSHIFT''),
     (OP_NOT, ''OP_NOT''), (OP_AND_JUMP, ''OP_AND_JUMP''), (OP_OR_JUMP, ''OP_OR_JUMP''),
     (OP_NEW_OBJECT, ''OP_NEW_OBJECT''), (OP_NEW_ARRAY, ''OP_NEW_ARRAY''), (OP_GET_FIELD, ''OP_GET_FIELD''),
     (OP_SET_FIELD, ''OP_SET_FIELD''), (OP_GET_INDEX, ''OP_GET_INDEX''), (OP_SET_INDEX, ''OP_SET_INDEX''),
     (OP_LEN, ''OP_LEN''), (OP_KEYS_OF, ''OP_KEYS_OF''), (OP_VALS_OF, ''OP_VALS_OF''), (OP_JUMP, ''OP_JUMP''),
     (OP_JUMP_IF_FALSE, ''OP_JUMP_IF_FALSE''), (OP_JUMP_IF_TRUE, ''OP_JUMP_IF_TRUE''), (OP_LOOP, ''OP_LOOP''),
     (OP_BREAK, ''OP_BREAK''), (OP_CONTINUE, ''OP_CONTINUE''), (OP_LOOP_MARK, ''OP_LOOP_MARK''),
     (OP_LOOP_END, ''OP_LOOP_END''), (OP_CLOSURE, ''OP_CLOSURE''), (OP_CALL, ''OP_CALL''),
     (OP_METHOD_CALL, ''OP_METHOD_CALL''), (OP_FLUENT_CALL, ''OP_FLUENT_CALL''), (OP_RETURN, ''OP_RETURN''),
     (OP_TAIL_CALL, ''OP_TAIL_CALL''), (OP_LOAD_VARARG, ''OP_LOAD_VARARG''),
     (OP_VARARG_LEN, ''OP_VARARG_LEN''), (OP_UNPACK, ''OP_UNPACK''), (OP_RANGE_ASC, ''OP_RANGE_ASC''),
     (OP_RANGE_DESC, ''OP_RANGE_DESC''), (OP_FOR_INIT, ''OP_FOR_INIT''), (OP_FOR_NEXT, ''OP_FOR_NEXT''),
     (OP_FOR_OVER_INIT, ''OP_FOR_OVER_INIT''), (OP_FOR_OVER_NEXT, ''OP_FOR_OVER_NEXT''),
     (OP_PIPE_INIT, ''OP_PIPE_INIT''), (OP_PIPE_NEXT, ''OP_PIPE_NEXT''), (OP_FILTER_NEXT, ''OP_FILTER_NEXT''),
     (OP_PIPE_END, ''OP_PIPE_END''), (OP_PIPE_COLLECT, ''OP_PIPE_COLLECT''),
     (OP_FILTER_COLLECT, ''OP_FILTER_COLLECT''), (OP_TRY_BEGIN, ''OP_TRY_BEGIN''),
     (OP_TRY_END, ''OP_TRY_END''), (OP_CATCH_BEGIN, ''OP_CATCH_BEGIN''),
     (OP_FINALLY_BEGIN, ''OP_FINALLY_BEGIN''), (OP_THROW, ''OP_THROW''), (OP_RERAISE, ''OP_RERAISE''),
     (OP_ASYNC, ''OP_ASYNC''), (OP_AWAIT, ''OP_AWAIT''), (OP_YIELD, ''OP_YIELD''), (OP_THREAD, ''OP_THREAD''),
     (OP_NEW_CLASS, ''OP_NEW_CLASS''), (OP_BIND_METHOD, ''OP_BIND_METHOD''), (OP_INHERIT, ''OP_INHERIT''),
     (OP_MASK_PASS, ''OP_MASK_PASS''), (OP_MASK_SKIP, ''OP_MASK_SKIP''), (OP_MASK_APPLY, ''OP_MASK_APPLY''),
     (OP_SPREAD_RET, ''OP_SPREAD_RET''), (OP_ARRAY_SPREAD, ''OP_ARRAY_SPREAD''),
     (OP_TRUNCATE_RET, ''OP_TRUNCATE_RET''), (OP_EQ_SPREAD, ''OP_EQ_SPREAD''),
     (OP_NEQ_SPREAD, ''OP_NEQ_SPREAD''), (OP_LT_SPREAD, ''OP_LT_SPREAD''), (OP_GT_SPREAD, ''OP_GT_SPREAD''),
     (OP_LEQ_SPREAD, ''OP_LEQ_SPREAD''), (OP_GEQ_SPREAD, ''OP_GEQ_SPREAD''), (OP_NOP, ''OP_NOP''),
     (OP_HALT, ''OP_HALT'')]"

definition s_opcode_fmts :: "(nat \<times> op_fmt) list" where
  "s_opcode_fmts = [
    (OP_CONST, OPFMT_A), (OP_NULL, OPFMT_NONE), (OP_TRUE, OPFMT_NONE), (OP_FALSE, OPFMT_NONE),
     (OP_POP, OPFMT_NONE), (OP_POP_N, OPFMT_A), (OP_DUP, OPFMT_NONE), (OP_LOAD_LOCAL, OPFMT_A),
     (OP_STORE_LOCAL, OPFMT_A), (OP_DEF_LOCAL, OPFMT_A), (OP_DEF_CONST_LOCAL, OPFMT_A),
     (OP_LOAD_GLOBAL, OPFMT_A), (OP_STORE_GLOBAL, OPFMT_A), (OP_DEF_GLOBAL, OPFMT_A),
     (OP_DEF_CONST_GLOBAL, OPFMT_A), (OP_LOAD_UPVAL, OPFMT_A), (OP_STORE_UPVAL, OPFMT_A),
     (OP_CLOSE_UPVAL, OPFMT_A), (OP_ADD, OPFMT_NONE), (OP_SUB, OPFMT_NONE), (OP_MUL, OPFMT_NONE),
     (OP_DIV, OPFMT_NONE), (OP_MOD, OPFMT_NONE), (OP_POW, OPFMT_NONE), (OP_NEG, OPFMT_NONE),
     (OP_POS, OPFMT_NONE), (OP_INCR, OPFMT_NONE), (OP_DECR, OPFMT_NONE), (OP_EQ, OPFMT_NONE),
     (OP_NEQ, OPFMT_NONE), (OP_LT, OPFMT_NONE), (OP_GT, OPFMT_NONE), (OP_LEQ, OPFMT_NONE),
     (OP_GEQ, OPFMT_NONE), (OP_EQ_STACK, OPFMT_A), (OP_NEQ_STACK, OPFMT_A), (OP_LT_STACK, OPFMT_A),
     (OP_GT_STACK, OPFMT_A), (OP_LEQ_STACK, OPFMT_A), (OP_GEQ_STACK, OPFMT_A), (OP_RANGE_CHECK, OPFMT_A),
     (OP_BIT_AND, OPFMT_NONE), (OP_BIT_OR, OPFMT_NONE), (OP_BIT_XOR, OPFMT_NONE), (OP_BIT_NOT, OPFMT_NONE),
     (OP_LSHIFT, OPFMT_NONE), (OP_RSHIFT, OPFMT_NONE), (OP_NOT, OPFMT_NONE), (OP_AND_JUMP, OPFMT_A),
     (OP_OR_JUMP, OPFMT_A), (OP_NEW_OBJECT, OPFMT_NONE), (OP_NEW_ARRAY, OPFMT_A), (OP_GET_FIELD, OPFMT_A),
     (OP_SET_FIELD, OPFMT_A), (OP_GET_INDEX, OPFMT_NONE), (OP_SET_INDEX, OPFMT_NONE), (OP_LEN, OPFMT_NONE),
     (OP_KEYS_OF, OPFMT_NONE), (OP_VALS_OF, OPFMT_NONE), (OP_JUMP, OPFMT_A), (OP_JUMP_IF_FALSE, OPFMT_A),
     (OP_JUMP_IF_TRUE, OPFMT_A), (OP_LOOP, OPFMT_A), (OP_BREAK, OPFMT_A), (OP_CONTINUE, OPFMT_A),
     (OP_LOOP_MARK, OPFMT_A_B), (OP_LOOP_END, OPFMT_NONE), (OP_CLOSURE, OPFMT_A), (OP_CALL, OPFMT_A),
     (OP_METHOD_CALL, OPFMT_A_B), (OP_FLUENT_CALL, OPFMT_A_B), (OP_RETURN, OPFMT_A), (OP_TAIL_CALL, OPFMT_A),
     (OP_LOAD_VARARG, OPFMT_A), (OP_VARARG_LEN, OPFMT_NONE), (OP_UNPACK, OPFMT_NONE),
     (OP_RANGE_ASC, OPFMT_NONE), (OP_RANGE_DESC, OPFMT_NONE), (OP_FOR_INIT, OPFMT_A), (OP_FOR_NEXT, OPFMT_A),
     (OP_FOR_OVER_INIT, OPFMT_A_B), (OP_FOR_OVER_NEXT, OPFMT_A), (OP_PIPE_INIT, OPFMT_A),
     (OP_PIPE_NEXT, OPFMT_A), (OP_FILTER_NEXT, OPFMT_A), (OP_PIPE_END, OPFMT_NONE),
     (OP_PIPE_COLLECT, OPFMT_NONE), (OP_FILTER_COLLECT, OPFMT_NONE), (OP_TRY_BEGIN, OPFMT_A),
     (OP_TRY_END, OPFMT_NONE), (OP_CATCH_BEGIN, OPFMT_A), (OP_FINALLY_BEGIN, OPFMT_A), (OP_THROW, OPFMT_A),
     (OP_RERAISE, OPFMT_NONE), (OP_ASYNC, OPFMT_NONE), (OP_AWAIT, OPFMT_NONE), (OP_YIELD, OPFMT_NONE),
     (OP_THREAD, OPFMT_NONE), (OP_NEW_CLASS, OPFMT_A), (OP_BIND_METHOD, OPFMT_A), (OP_INHERIT, OPFMT_NONE),
     (OP_MASK_PASS, OPFMT_NONE), (OP_MASK_SKIP, OPFMT_NONE), (OP_MASK_APPLY, OPFMT_A_B),
     (OP_SPREAD_RET, OPFMT_NONE), (OP_ARRAY_SPREAD, OPFMT_NONE), (OP_TRUNCATE_RET, OPFMT_NONE),
     (OP_EQ_SPREAD, OPFMT_NONE), (OP_NEQ_SPREAD, OPFMT_NONE), (OP_LT_SPREAD, OPFMT_NONE),
     (OP_GT_SPREAD, OPFMT_NONE), (OP_LEQ_SPREAD, OPFMT_NONE), (OP_GEQ_SPREAD, OPFMT_NONE),
     (OP_NOP, OPFMT_NONE), (OP_HALT, OPFMT_NONE)]"

definition cando_opcode_name :: "nat \<Rightarrow> string" where
  "cando_opcode_name op =
     (if op \<ge> OP_COUNT then ''OP_UNKNOWN''
      else case map_of s_opcode_names op of Some name \<Rightarrow> name | None \<Rightarrow> ''OP_UNKNOWN'')"

text \<open>An entry a designated initialiser leaves out is 0, the first format.\<close>

definition cando_opcode_fmt :: "nat \<Rightarrow> op_fmt" where
  "cando_opcode_fmt op =
     (if op \<ge> OP_COUNT then OPFMT_NONE
      else case map_of s_opcode_fmts op of Some fmt \<Rightarrow> fmt | None \<Rightarrow> OPFMT_NONE)"

definition cando_opcode_size :: "nat \<Rightarrow> nat" where
  "cando_opcode_size op = (case cando_opcode_fmt op of OPFMT_NONE \<Rightarrow> 1 | OPFMT_A \<Rightarrow> 3 | OPFMT_A_B \<Rightarrow> 5)"

section \<open>Operands\<close>

type_synonym byte = "8 word"

definition cando_read_u16 :: "byte list \<Rightarrow> nat \<Rightarrow> nat option" where
  "cando_read_u16 code i =
     do {
       lo \<leftarrow> aget code i;
       hi \<leftarrow> aget code (i + 1);
       Some (unat lo + 256 * unat hi)
     }"

definition i16_of_u16 :: "nat \<Rightarrow> int" where
  "i16_of_u16 n = (if n < 32768 then int n else int n - 65536)"

definition cando_read_i16 :: "byte list \<Rightarrow> nat \<Rightarrow> int option" where
  "cando_read_i16 code i = map_option i16_of_u16 (cando_read_u16 code i)"

definition u16_bytes :: "nat \<Rightarrow> byte list" where
  "u16_bytes v = [of_nat (v mod 256), of_nat (v div 256)]"

definition cando_write_u16 :: "byte list \<Rightarrow> nat \<Rightarrow> nat \<Rightarrow> byte list option" where
  "cando_write_u16 code i v =
     do {
       code \<leftarrow> aput code i (of_nat (v mod 256));
       aput code (i + 1) (of_nat (v div 256))
     }"

text \<open>Reduction to 16 bits, and the bit pattern of a signed 16-bit offset.\<close>

abbreviation u16 :: "nat \<Rightarrow> nat" where
  "u16 n \<equiv> n mod 65536"

definition u16_of_int :: "int \<Rightarrow> nat" where
  "u16_of_int i = nat (i mod 65536)"

lemma byte_roundtrip: "n < 256 \<Longrightarrow> unat (of_nat n :: byte) = n"
  by (simp add: unat_of_nat)

lemma read_u16_bytes:
  assumes "v < 65536"
  shows "cando_read_u16 (xs @ u16_bytes v @ ys) (length xs) = Some v"
proof -
  have "v div 256 < 256" using assms by simp
  then show ?thesis by (simp add: cando_read_u16_def u16_bytes_def nth_append byte_roundtrip)
qed

lemma write_u16_bytes: "cando_write_u16 (xs @ [a, b] @ ys) (length xs) v = Some (xs @ u16_bytes v @ ys)"
  by (simp add: cando_write_u16_def u16_bytes_def list_update_append)

lemma i16_roundtrip: "- 32768 \<le> i \<Longrightarrow> i < 32768 \<Longrightarrow> i16_of_u16 (u16_of_int i) = i"
proof (cases "0 \<le> i")
  case True
  then show "i < 32768 \<Longrightarrow> ?thesis" by (simp add: i16_of_u16_def u16_of_int_def)
next
  case False
  assume "- 32768 \<le> i"
  then have "(i + 65536) mod 65536 = i + 65536" using False by (intro mod_pos_pos_trivial) simp_all
  then have "i mod 65536 = i + 65536" by simp
  then show ?thesis using False \<open>- 32768 \<le> i\<close> by (simp add: i16_of_u16_def u16_of_int_def)
qed

lemma u16_of_int_bound: "u16_of_int i < 65536"
  by (simp add: u16_of_int_def nat_less_iff)

end
