(* ===== verification/Chunk.thy ===== *)
theory Chunk
  imports Opcodes Core_Value
begin

text \<open>
  Bytecode chunks (\<open>source/vm/chunk.h\<close>, \<open>source/vm/chunk.c\<close>): the code and line tables, the constant pool, the
  emitters and the patching of jumps. The code list holds the bytes written so far; the capacities are those of
  the allocations.
\<close>

section \<open>State and lifecycle\<close>

record cando_chunk =
  ck_code :: "byte list"
  ck_code_cap :: nat
  ck_consts :: "cando_value list"
  ck_const_cap :: nat
  ck_lines :: "nat list"
  ck_name :: string
  ck_arity :: nat
  ck_local_count :: nat
  ck_upval_count :: nat
  ck_has_vararg :: bool

definition cando_chunk_new :: "string option \<Rightarrow> nat \<Rightarrow> bool \<Rightarrow> cando_chunk" where
  "cando_chunk_new name arity has_vararg =
     \<lparr>ck_code = [], ck_code_cap = 0, ck_consts = [], ck_const_cap = 0, ck_lines = [],
      ck_name = (case name of Some n \<Rightarrow> n | None \<Rightarrow> ''<anonymous>''),
      ck_arity = arity, ck_local_count = arity, ck_upval_count = 0, ck_has_vararg = has_vararg\<rparr>"

text \<open>Freeing releases every constant.\<close>

definition cando_chunk_free :: "string_heap \<Rightarrow> cando_chunk \<Rightarrow> string_heap option" where
  "cando_chunk_free H c = mfold cando_value_release (ck_consts c) H"

section \<open>Growth\<close>

definition chunk_grow :: "nat \<Rightarrow> nat" where
  "chunk_grow cap = (if cap < 8 then 8 else u32 (cap * 2))"

text \<open>The doubling loop; with a capacity that has wrapped to 0 it does not end. 33 rounds are more than a
  32-bit capacity can double.\<close>

fun chunk_cap_for :: "nat \<Rightarrow> nat \<Rightarrow> nat \<Rightarrow> nat option" where
  "chunk_cap_for 0 need cap = None"
| "chunk_cap_for (Suc n) need cap = (if cap < need then chunk_cap_for n need (u32 (cap * 2)) else Some cap)"

definition chunk_ensure_code :: "cando_chunk \<Rightarrow> nat \<Rightarrow> cando_chunk option" where
  "chunk_ensure_code c extra =
     (let need = u32 (length (ck_code c) + extra)
      in if need \<le> ck_code_cap c then Some c
         else do { cap \<leftarrow> chunk_cap_for 33 need (chunk_grow (ck_code_cap c)); Some (c\<lparr>ck_code_cap := cap\<rparr>) })"

definition chunk_ensure_const :: "cando_chunk \<Rightarrow> nat \<Rightarrow> cando_chunk option" where
  "chunk_ensure_const c extra =
     (let need = u32 (length (ck_consts c) + extra)
      in if need \<le> ck_const_cap c then Some c
         else do { cap \<leftarrow> chunk_cap_for 33 need (chunk_grow (ck_const_cap c)); Some (c\<lparr>ck_const_cap := cap\<rparr>) })"

section \<open>Emitting\<close>

text \<open>Writing past the allocation is a fault.\<close>

definition chunk_write :: "cando_chunk \<Rightarrow> byte list \<Rightarrow> nat \<Rightarrow> cando_chunk option" where
  "chunk_write c bs line =
     do {
       check (length (ck_code c) + length bs \<le> ck_code_cap c);
       Some (c\<lparr>ck_code := ck_code c @ bs, ck_lines := ck_lines c @ replicate (length bs) line\<rparr>)
     }"

definition cando_chunk_emit_byte :: "cando_chunk \<Rightarrow> byte \<Rightarrow> nat \<Rightarrow> cando_chunk option" where
  "cando_chunk_emit_byte c b line =
     do { c \<leftarrow> chunk_ensure_code c 1; chunk_write c [b] line }"

definition cando_chunk_emit_op :: "cando_chunk \<Rightarrow> nat \<Rightarrow> nat \<Rightarrow> cando_chunk option" where
  "cando_chunk_emit_op c op line =
     do { check (cando_opcode_fmt op = OPFMT_NONE); cando_chunk_emit_byte c (of_nat op) line }"

definition cando_chunk_emit_op_a :: "cando_chunk \<Rightarrow> nat \<Rightarrow> nat \<Rightarrow> nat \<Rightarrow> cando_chunk option" where
  "cando_chunk_emit_op_a c op a line =
     do {
       check (cando_opcode_fmt op = OPFMT_A);
       c \<leftarrow> chunk_ensure_code c 3;
       chunk_write c (of_nat op # u16_bytes a) line
     }"

definition cando_chunk_emit_op_ab :: "cando_chunk \<Rightarrow> nat \<Rightarrow> nat \<Rightarrow> nat \<Rightarrow> nat \<Rightarrow> cando_chunk option" where
  "cando_chunk_emit_op_ab c op a b line =
     do {
       check (cando_opcode_fmt op = OPFMT_A_B);
       c \<leftarrow> chunk_ensure_code c 5;
       chunk_write c (of_nat op # u16_bytes a @ u16_bytes b) line
     }"

section \<open>Jumps\<close>

definition cando_chunk_emit_jump :: "cando_chunk \<Rightarrow> nat \<Rightarrow> nat \<Rightarrow> (cando_chunk \<times> nat) option" where
  "cando_chunk_emit_jump c op line =
     do {
       check (cando_opcode_fmt op = OPFMT_A);
       let patch_at = u32 (length (ck_code c) + 1);
       c \<leftarrow> cando_chunk_emit_op_a c op 0x7FFF line;
       Some (c, patch_at)
     }"

definition cando_chunk_patch_jump :: "cando_chunk \<Rightarrow> nat \<Rightarrow> cando_chunk option" where
  "cando_chunk_patch_jump c patch_offset =
     do {
       let instr_end = u32 (patch_offset + 2);
       check (length (ck_code c) \<ge> instr_end);
       code \<leftarrow> cando_write_u16 (ck_code c) patch_offset (u16 (length (ck_code c) - instr_end));
       Some (c\<lparr>ck_code := code\<rparr>)
     }"

definition cando_chunk_patch_jump_to :: "cando_chunk \<Rightarrow> nat \<Rightarrow> nat \<Rightarrow> cando_chunk option" where
  "cando_chunk_patch_jump_to c patch_offset target =
     do {
       let instr_end = u32 (patch_offset + 2);
       code \<leftarrow> cando_write_u16 (ck_code c) patch_offset (u16_of_int (int target - int instr_end));
       Some (c\<lparr>ck_code := code\<rparr>)
     }"

definition cando_chunk_emit_loop :: "cando_chunk \<Rightarrow> nat \<Rightarrow> nat \<Rightarrow> cando_chunk option" where
  "cando_chunk_emit_loop c loop_start line =
     do {
       let instr_end = u32 (length (ck_code c) + 3);
       check (instr_end > loop_start);
       cando_chunk_emit_op_a c OP_LOOP (u16 (instr_end - loop_start)) line
     }"

section \<open>The constant pool\<close>

text \<open>The search for an equal constant: numbers by value, strings by contents, nothing else is shared.\<close>

fun const_find :: "string_heap \<Rightarrow> cando_value \<Rightarrow> cando_value list \<Rightarrow> nat \<Rightarrow> nat option option" where
  "const_find H val [] i = Some None"
| "const_find H val (k # ks) i =
     (case (k, val) of
        (VNumber x, VNumber y) \<Rightarrow> if f64_eq x y then Some (Some i) else const_find H val ks (i + 1)
      | (VString x, VString y) \<Rightarrow>
          do {
            a \<leftarrow> H x;
            b \<leftarrow> H y;
            if length (st_data a) = length (st_data b) \<and> st_data a = st_data b then Some (Some i)
            else const_find H val ks (i + 1)
          }
      | _ \<Rightarrow> const_find H val ks (i + 1))"

definition cando_chunk_add_const :: "string_heap \<Rightarrow> cando_chunk \<Rightarrow> cando_value \<Rightarrow> (string_heap \<times> cando_chunk \<times> nat) option" where
  "cando_chunk_add_const H c val =
     do {
       found \<leftarrow> const_find H val (ck_consts c) 0;
       case found of
         Some i \<Rightarrow> do { H \<leftarrow> cando_value_release H val; Some (H, c, u16 i) }
       | None \<Rightarrow> do {
           check (length (ck_consts c) < 65535);
           c \<leftarrow> chunk_ensure_const c 1;
           check (length (ck_consts c) < ck_const_cap c);
           Some (H, c\<lparr>ck_consts := ck_consts c @ [val]\<rparr>, u16 (length (ck_consts c)))
         }
     }"

definition cando_chunk_add_string_const :: "string_heap \<Rightarrow> addr \<Rightarrow> cando_chunk \<Rightarrow> string \<Rightarrow> (string_heap \<times> cando_chunk \<times> nat) option" where
  "cando_chunk_add_string_const H a c str = cando_chunk_add_const (cando_string_new H a str) c (VString a)"

section \<open>Invariant\<close>

definition cap_ok :: "nat \<Rightarrow> bool" where
  "cap_ok cap \<longleftrightarrow> cap = 0 \<or> (\<exists>k \<le> 28. cap = 2 ^ (k + 3))"

definition chunk_ok :: "cando_chunk \<Rightarrow> bool" where
  "chunk_ok c \<longleftrightarrow> length (ck_lines c) = length (ck_code c) \<and> length (ck_code c) \<le> ck_code_cap c \<and> cap_ok (ck_code_cap c) \<and>
     length (ck_consts c) \<le> ck_const_cap c \<and> cap_ok (ck_const_cap c)"

lemma chunk_new_ok: "chunk_ok (cando_chunk_new name arity va)"
  by (simp add: chunk_ok_def cando_chunk_new_def cap_ok_def)

lemma cap_ok_bound: "cap_ok cap \<Longrightarrow> cap \<le> 2 ^ 31"
proof (unfold cap_ok_def, elim disjE exE conjE)
  fix k :: nat assume "k \<le> 28" "cap = 2 ^ (k + 3)"
  then show ?thesis using power_increasing [of "k + 3" 31 "2::nat"] by simp
qed simp

lemma cap_for_pow2:
  assumes "need \<le> 2 ^ 31" "k \<le> 28" "28 < n + k"
  shows "\<exists>cap. chunk_cap_for n need (2 ^ (k + 3)) = Some cap \<and> need \<le> cap \<and> cap_ok cap"
  using assms
proof (induction n arbitrary: k)
  case (Suc n)
  show ?case
  proof (cases "(2::nat) ^ (k + 3) < need")
    case False
    then show ?thesis using Suc.prems(2) by (auto simp: cap_ok_def)
  next
    case True
    have "k \<noteq> 28" using True Suc.prems(1) by auto
    then have k: "Suc k \<le> 28" using Suc.prems(2) by simp
    have "(2::nat) ^ (k + 3) * 2 < 4294967296" using True Suc.prems(1) by simp
    then have "u32 (2 ^ (k + 3) * 2) = 2 ^ (Suc k + 3)" by (simp add: power_add)
    then show ?thesis using True Suc.IH [of "Suc k"] k Suc.prems(1,3) by simp
  qed
qed simp

lemma grow_pow2: "cap_ok cap \<Longrightarrow> cap < 2 ^ 31 \<Longrightarrow> \<exists>k \<le> 28. chunk_grow cap = 2 ^ (k + 3)"
proof (unfold cap_ok_def, elim disjE exE conjE)
  show "cap = 0 \<Longrightarrow> \<exists>k \<le> 28. chunk_grow cap = 2 ^ (k + 3)" by (intro exI [of _ 0]) (simp add: chunk_grow_def)
  fix k :: nat assume k: "k \<le> 28" "cap = 2 ^ (k + 3)" and lt: "cap < 2 ^ 31"
  have "k \<noteq> 28" using k lt by auto
  moreover have "8 \<le> cap" unfolding k(2) using power_increasing [of 3 "k + 3" "2::nat"] by simp
  ultimately show "\<exists>k \<le> 28. chunk_grow cap = 2 ^ (k + 3)" using k lt
    by (intro exI [of _ "Suc k"]) (simp add: chunk_grow_def power_add)
qed

lemma ensure_cap:
  assumes "cap_ok cap" "\<not> need \<le> cap" "need \<le> 2 ^ 31"
  shows "\<exists>cap'. chunk_cap_for 33 need (chunk_grow cap) = Some cap' \<and> need \<le> cap' \<and> cap_ok cap'"
proof -
  have "cap < 2 ^ 31" using assms by simp
  then obtain k where "k \<le> 28" "chunk_grow cap = 2 ^ (k + 3)" using grow_pow2 [OF assms(1)] by blast
  then show ?thesis using cap_for_pow2 [of need k 33] assms(3) by simp
qed

lemma emit_bytes:
  assumes "chunk_ok c" "length (ck_code c) + length bs \<le> 2 ^ 31" "length bs = n"
  shows "\<exists>cap. Option.bind (chunk_ensure_code c n) (\<lambda>c. chunk_write c bs line) =
           Some (c\<lparr>ck_code := ck_code c @ bs, ck_code_cap := cap, ck_lines := ck_lines c @ replicate n line\<rparr>) \<and>
           length (ck_code c) + n \<le> cap \<and> cap_ok cap"
proof (cases "length (ck_code c) + n \<le> ck_code_cap c")
  case True
  then show ?thesis using assms
    by (intro exI [of _ "ck_code_cap c"]) (simp add: chunk_ensure_code_def chunk_write_def chunk_ok_def)
next
  case False
  have c: "cap_ok (ck_code_cap c)" using assms(1) by (simp add: chunk_ok_def)
  obtain cap where "chunk_cap_for 33 (length (ck_code c) + n) (chunk_grow (ck_code_cap c)) = Some cap"
      "length (ck_code c) + n \<le> cap" "cap_ok cap"
    using ensure_cap [OF c False] assms(2,3) by auto
  then show ?thesis using assms False
    by (intro exI [of _ cap]) (simp add: chunk_ensure_code_def chunk_write_def)
qed

section \<open>What is emitted is what is read\<close>

text \<open>The instruction at an offset: its opcode and operands.\<close>

definition instr_at :: "byte list \<Rightarrow> nat \<Rightarrow> (nat \<times> nat list) option" where
  "instr_at code i =
     do {
       op \<leftarrow> aget code i;
       case cando_opcode_fmt (unat op) of
         OPFMT_NONE \<Rightarrow> Some (unat op, [])
       | OPFMT_A \<Rightarrow> do { a \<leftarrow> cando_read_u16 code (i + 1); Some (unat op, [a]) }
       | OPFMT_A_B \<Rightarrow> do { a \<leftarrow> cando_read_u16 code (i + 1); b \<leftarrow> cando_read_u16 code (i + 3); Some (unat op, [a, b]) }
     }"

definition instr_bytes :: "nat \<Rightarrow> nat \<Rightarrow> nat \<Rightarrow> byte list" where
  "instr_bytes op a b = of_nat op #
     (case cando_opcode_fmt op of OPFMT_NONE \<Rightarrow> [] | OPFMT_A \<Rightarrow> u16_bytes a | OPFMT_A_B \<Rightarrow> u16_bytes a @ u16_bytes b)"

definition instr_args :: "nat \<Rightarrow> nat \<Rightarrow> nat \<Rightarrow> nat list" where
  "instr_args op a b = (case cando_opcode_fmt op of OPFMT_NONE \<Rightarrow> [] | OPFMT_A \<Rightarrow> [a] | OPFMT_A_B \<Rightarrow> [a, b])"

definition chunk_emit :: "cando_chunk \<Rightarrow> nat \<Rightarrow> nat \<Rightarrow> nat \<Rightarrow> nat \<Rightarrow> cando_chunk option" where
  "chunk_emit c op a b line =
     (case cando_opcode_fmt op of
        OPFMT_NONE \<Rightarrow> cando_chunk_emit_op c op line
      | OPFMT_A \<Rightarrow> cando_chunk_emit_op_a c op a line
      | OPFMT_A_B \<Rightarrow> cando_chunk_emit_op_ab c op a b line)"

lemma u16_bytes_length [simp]: "length (u16_bytes v) = 2"
  by (simp add: u16_bytes_def)

lemma instr_bytes_length: "length (instr_bytes op a b) = cando_opcode_size op"
  by (simp add: instr_bytes_def cando_opcode_size_def split: op_fmt.split)

lemma read_u16_at:
  assumes "v < 65536" "i = length xs"
  shows "cando_read_u16 (xs @ u16_bytes v @ ys) i = Some v"
  using read_u16_bytes assms by simp

lemma instr_at_bytes:
  assumes "op < OP_COUNT" "a < 65536" "b < 65536"
  shows "instr_at (xs @ instr_bytes op a b @ ys) (length xs) = Some (op, instr_args op a b)"
proof -
  have op: "unat (of_nat op :: byte) = op" using assms(1) by (intro byte_roundtrip) simp
  have at: "aget (xs @ instr_bytes op a b @ ys) (length xs) = Some (of_nat op)"
    by (simp add: instr_bytes_def nth_append)
  show ?thesis
  proof (cases "cando_opcode_fmt op")
    case OPFMT_NONE
    then show ?thesis using at op by (simp add: instr_at_def instr_args_def)
  next
    case OPFMT_A
    have "cando_read_u16 (xs @ instr_bytes op a b @ ys) (length xs + 1) = Some a"
      using read_u16_at [of a "length xs + 1" "xs @ [of_nat op]" ys] assms(2) OPFMT_A by (simp add: instr_bytes_def)
    then show ?thesis using at op OPFMT_A by (simp add: instr_at_def instr_args_def)
  next
    case OPFMT_A_B
    have "cando_read_u16 (xs @ instr_bytes op a b @ ys) (length xs + 1) = Some a"
      using read_u16_at [of a "length xs + 1" "xs @ [of_nat op]" "u16_bytes b @ ys"] assms(2) OPFMT_A_B
      by (simp add: instr_bytes_def)
    moreover have "cando_read_u16 (xs @ instr_bytes op a b @ ys) (length xs + 3) = Some b"
      using read_u16_at [of b "length xs + 3" "xs @ [of_nat op] @ u16_bytes a" ys] assms(3) OPFMT_A_B
      by (simp add: instr_bytes_def)
    ultimately show ?thesis using at op OPFMT_A_B by (simp add: instr_at_def instr_args_def)
  qed
qed

lemma emit_is_write:
  assumes "chunk_ok c" "length (ck_code c) + cando_opcode_size op \<le> 2 ^ 31"
  shows "\<exists>cap. chunk_emit c op a b line =
           Some (c\<lparr>ck_code := ck_code c @ instr_bytes op a b, ck_code_cap := cap,
                   ck_lines := ck_lines c @ replicate (cando_opcode_size op) line\<rparr>) \<and>
           length (ck_code c) + cando_opcode_size op \<le> cap \<and> cap_ok cap"
  using emit_bytes [of c "instr_bytes op a b" "cando_opcode_size op" line] assms instr_bytes_length [of op a b]
  by (simp add: chunk_emit_def cando_chunk_emit_op_def cando_chunk_emit_byte_def cando_chunk_emit_op_a_def
      cando_chunk_emit_op_ab_def cando_opcode_size_def instr_bytes_def split: op_fmt.splits)

text \<open>C35. Emitting an instruction of the set into a well-formed chunk always succeeds (growing the code as needed), keeps
  the chunk well-formed with the line table parallel to the code, appends exactly the instruction's size in bytes
  after the old code, and the bytes read back at the old end are the opcode and the operands that were emitted.\<close>

theorem emit_then_decode:
  assumes "chunk_ok c" "length (ck_code c) + cando_opcode_size op \<le> 2 ^ 31" "op < OP_COUNT" "a < 65536" "b < 65536"
  shows "\<exists>c'. chunk_emit c op a b line = Some c' \<and> chunk_ok c' \<and>
           (\<exists>bs. ck_code c' = ck_code c @ bs \<and> length bs = cando_opcode_size op) \<and>
           ck_lines c' = ck_lines c @ replicate (cando_opcode_size op) line \<and> ck_consts c' = ck_consts c \<and>
           instr_at (ck_code c') (length (ck_code c)) = Some (op, instr_args op a b)"
proof -
  obtain cap where cap: "chunk_emit c op a b line =
           Some (c\<lparr>ck_code := ck_code c @ instr_bytes op a b, ck_code_cap := cap,
                   ck_lines := ck_lines c @ replicate (cando_opcode_size op) line\<rparr>)"
      "length (ck_code c) + cando_opcode_size op \<le> cap" "cap_ok cap"
    using emit_is_write [OF assms(1,2)] by blast
  then show ?thesis
    using assms(1) instr_bytes_length [of op a b] instr_at_bytes [OF assms(3-5), of "ck_code c" "[]"]
    by (simp add: chunk_ok_def)
qed

theorem emit_then_decode_witness:
  "\<exists>c'. chunk_emit (cando_chunk_new None 0 False) OP_LOOP_MARK 300 16387 7 = Some c' \<and>
        instr_at (ck_code c') 0 = Some (OP_LOOP_MARK, [300, 16387])"
  using emit_then_decode [OF chunk_new_ok, of None 0 False OP_LOOP_MARK 300 16387 7]
  by (auto simp: cando_chunk_new_def cando_opcode_size_def cando_opcode_fmt_def s_opcode_fmts_def instr_args_def)

section \<open>Jumps land where they are patched to\<close>

lemma read_i16_at:
  assumes "v < 65536" "i = length xs"
  shows "cando_read_i16 (xs @ u16_bytes v @ ys) i = Some (i16_of_u16 v)"
  using read_u16_at [OF assms] by (simp add: cando_read_i16_def)

lemma i16_exact: "n < 65536 \<Longrightarrow> i16_of_u16 n = int n \<longleftrightarrow> n < 32768"
  by (simp add: i16_of_u16_def)

lemma i16_of_distance: "i16_of_u16 (u16 n) = int n \<longleftrightarrow> n < 32768"
proof (cases "n < 65536")
  case True
  then show ?thesis by (simp add: i16_of_u16_def)
next
  case False
  have "u16 n < 65536" by simp
  then have "i16_of_u16 (u16 n) < 32768" by (simp add: i16_of_u16_def del: mod_less_divisor)
  then show ?thesis using False by auto
qed

text \<open>C36. A forward jump emitted with a placeholder, followed by a body and then patched, changes no byte but its
  operand, and the operand read back takes the jump exactly to the end of the code if and only if the body is shorter
  than 32768 bytes: a longer one wraps the 16-bit offset and the jump lands elsewhere.\<close>

theorem patched_jump_lands_iff:
  assumes "chunk_ok c" "cando_opcode_fmt op = OPFMT_A" "length (ck_code c) + 3 + length body \<le> 2 ^ 31"
  shows "\<exists>c1 c3 xs d. cando_chunk_emit_jump c op line = Some (c1, length (ck_code c) + 1) \<and>
           cando_chunk_patch_jump (c1\<lparr>ck_code := ck_code c1 @ body\<rparr>) (length (ck_code c) + 1) = Some c3 \<and>
           ck_code c3 = ck_code c @ [of_nat op] @ xs @ body \<and> length xs = 2 \<and>
           cando_read_i16 (ck_code c3) (length (ck_code c) + 1) = Some d \<and>
           (int (length (ck_code c) + 3) + d = int (length (ck_code c3)) \<longleftrightarrow> length body < 32768)"
proof -
  have sz: "cando_opcode_size op = 3" using assms(2) by (simp add: cando_opcode_size_def)
  obtain cap where cap: "cando_chunk_emit_op_a c op 0x7FFF line =
           Some (c\<lparr>ck_code := ck_code c @ of_nat op # u16_bytes 0x7FFF, ck_code_cap := cap,
                   ck_lines := ck_lines c @ replicate 3 line\<rparr>)"
    using emit_is_write [OF assms(1), of op "0x7FFF" 0 line] assms sz
    by (auto simp: chunk_emit_def instr_bytes_def)
  obtain lo hi where u: "u16_bytes 0x7FFF = [lo, hi]" by (simp add: u16_bytes_def)
  let ?d = "u16 (length body)"
  have w: "cando_write_u16 (ck_code c @ of_nat op # [lo, hi] @ body) (Suc (length (ck_code c))) ?d
      = Some (ck_code c @ of_nat op # u16_bytes ?d @ body)"
    using write_u16_bytes [of "ck_code c @ [of_nat op]" lo hi body ?d] by simp
  have r: "cando_read_i16 (ck_code c @ of_nat op # u16_bytes ?d @ body) (Suc (length (ck_code c))) = Some (i16_of_u16 ?d)"
    using read_i16_at [of ?d "Suc (length (ck_code c))" "ck_code c @ [of_nat op]" body] by simp
  show ?thesis
    using assms(2,3) cap w r i16_of_distance [of "length body"]
    by (simp add: cando_chunk_emit_jump_def cando_chunk_patch_jump_def u)
qed

theorem patched_jump_lands_iff_witness:
  "\<exists>c1 c3 d. cando_chunk_emit_jump (cando_chunk_new None 0 False) OP_JUMP_IF_FALSE 1 = Some (c1, 1) \<and>
     cando_chunk_patch_jump (c1\<lparr>ck_code := ck_code c1 @ replicate 5 0\<rparr>) 1 = Some c3 \<and>
     cando_read_i16 (ck_code c3) 1 = Some d \<and> int 3 + d = int (length (ck_code c3))"
proof -
  have "cando_opcode_fmt OP_JUMP_IF_FALSE = OPFMT_A" by (simp add: cando_opcode_fmt_def s_opcode_fmts_def)
  from patched_jump_lands_iff [OF chunk_new_ok this, of None 0 False "replicate 5 0" 1] show ?thesis
    by (auto simp: cando_chunk_new_def)
qed

section \<open>The constant pool keeps what it holds\<close>

definition const_live :: "string_heap \<Rightarrow> cando_value \<Rightarrow> bool" where
  "const_live H v \<longleftrightarrow> (case v of VString s \<Rightarrow> s \<noteq> 0 \<and> H s \<noteq> None | _ \<Rightarrow> True)"

lemma const_find_spec:
  assumes "\<forall>k\<in>set ks. const_live H k" "const_live H val"
  shows "const_find H val ks i = Some None \<or>
         (\<exists>j < length ks. const_find H val ks i = Some (Some (i + j)) \<and> value_eq_spec (str_text H) (ks ! j) val)"
  using assms
proof (induction ks arbitrary: i)
  case (Cons k ks)
  show ?case
  proof (cases "const_find H val (k # ks) i = Some (Some i) \<and> value_eq_spec (str_text H) k val")
    case True
    then show ?thesis by auto
  next
    case False
    have "const_find H val (k # ks) i = const_find H val ks (i + 1)"
      using False Cons.prems
      by (auto simp: const_live_def value_eq_spec_def str_text_def split: cando_value.splits if_splits)
    moreover have "const_find H val ks (i + 1) = Some None \<or>
        (\<exists>j < length ks. const_find H val ks (i + 1) = Some (Some (i + 1 + j)) \<and> value_eq_spec (str_text H) (ks ! j) val)"
      using Cons.prems by (intro Cons.IH) simp_all
    ultimately show ?thesis
      by (elim disjE exE conjE) (simp, rule disjI2, rule_tac x = "Suc j" in exI, simp)
  qed
qed simp

lemma add_const_spec:
  assumes "chunk_ok c" "strings_ok H" "\<forall>v\<in>set (val # ck_consts c). const_live H v" "length (ck_consts c) < 65535"
  shows "\<exists>H' c' i. cando_chunk_add_const H c val = Some (H', c', i) \<and> chunk_ok c' \<and> ck_code c' = ck_code c \<and>
           i < length (ck_consts c') \<and>
           (ck_consts c' = ck_consts c @ [val] \<and> i = length (ck_consts c) \<and> H' = H \<or>
            ck_consts c' = ck_consts c \<and> value_eq_spec (str_text H) (ck_consts c ! i) val \<and>
            cando_value_release H val = Some H')"
proof -
  have live: "\<forall>k\<in>set (ck_consts c). const_live H k" "const_live H val" using assms(3) by simp_all
  show ?thesis using const_find_spec [OF live, of 0]
  proof (elim disjE exE conjE)
    fix j assume j: "j < length (ck_consts c)" "const_find H val (ck_consts c) 0 = Some (Some (0 + j))"
      "value_eq_spec (str_text H) (ck_consts c ! j) val"
    have "\<exists>H'. cando_value_release H val = Some H'"
      using live(2) assms(2)
      by (auto simp: cando_value_release_def cando_string_release_def const_live_def strings_ok_def split: cando_value.splits)
    then show ?thesis using j assms(1,4) by (auto simp: cando_chunk_add_const_def)
  next
    assume none: "const_find H val (ck_consts c) 0 = Some None"
    have "\<exists>cap. chunk_ensure_const c 1 = Some (c\<lparr>ck_const_cap := cap\<rparr>) \<and> length (ck_consts c) < cap \<and> cap_ok cap"
    proof (cases "length (ck_consts c) + 1 \<le> ck_const_cap c")
      case True
      then show ?thesis using assms(1,4) by (intro exI [of _ "ck_const_cap c"]) (simp add: chunk_ensure_const_def chunk_ok_def)
    next
      case False
      have "cap_ok (ck_const_cap c)" using assms(1) by (simp add: chunk_ok_def)
      from ensure_cap [OF this False] assms(4) show ?thesis using False by (auto simp: chunk_ensure_const_def)
    qed
    then show ?thesis using none assms(1,4) by (auto simp: cando_chunk_add_const_def chunk_ok_def)
  qed
qed

text \<open>Adding a constant to a pool that is not full always succeeds: the pool only grows at its end, by at most one
  entry, so every index handed out before keeps its constant; the index returned is inside the pool and holds the
  added value itself or a constant that compares equal to it, and in the second case the added reference is
  released and nothing is stored.\<close>

theorem add_const_keeps_pool:
  assumes "chunk_ok c" "strings_ok H" "\<forall>v\<in>set (val # ck_consts c). const_live H v" "length (ck_consts c) < 65535"
  shows "\<exists>H' c' i. cando_chunk_add_const H c val = Some (H', c', i) \<and> chunk_ok c' \<and> ck_code c' = ck_code c \<and>
           i < length (ck_consts c') \<and>
           (ck_consts c' = ck_consts c @ [val] \<and> i = length (ck_consts c) \<and> H' = H \<or>
            ck_consts c' = ck_consts c \<and> value_eq_spec (str_text H) (ck_consts c ! i) val \<and>
            cando_value_release H val = Some H')"
  by (rule add_const_spec [OF assms])

theorem add_const_keeps_pool_witness:
  "\<exists>H' c' i. cando_chunk_add_const wit_strings ((cando_chunk_new None 0 False)\<lparr>ck_consts := [VString 16], ck_const_cap := 8\<rparr>)
     (VString 32) = Some (H', c', i) \<and> i = 0 \<and> ck_consts c' = [VString 16]"
proof -
  let ?c = "(cando_chunk_new None 0 False)\<lparr>ck_consts := [VString 16], ck_const_cap := 8\<rparr>"
  have ok: "chunk_ok ?c" using exI [of "\<lambda>k. k \<le> 28 \<and> (8::nat) = 2 ^ (k + 3)" 0]
    by (simp add: chunk_ok_def cando_chunk_new_def cap_ok_def)
  have H: "strings_ok wit_strings" by (auto simp: strings_ok_def wit_strings_def)
  have live: "\<forall>v\<in>set (VString 32 # ck_consts ?c). const_live wit_strings v"
    by (simp add: const_live_def wit_strings_def)
  show ?thesis
    using add_const_keeps_pool [OF ok H live]
    by (auto simp: cando_chunk_add_const_def wit_strings_def cando_value_release_def cando_string_release_def)
qed

text \<open>A backward jump returns to its start exactly when the distance fits 16 bits.\<close>

lemma emit_loop_lands:
  assumes "chunk_ok c" "length (ck_code c) + 3 \<le> 2 ^ 31" "start \<le> length (ck_code c)"
  shows "\<exists>c' back. cando_chunk_emit_loop c start line = Some c' \<and> chunk_ok c' \<and>
           instr_at (ck_code c') (length (ck_code c)) = Some (OP_LOOP, [back]) \<and>
           (length (ck_code c') - back = start \<longleftrightarrow> length (ck_code c) + 3 - start < 65536)"
proof -
  let ?d = "length (ck_code c) + 3 - start"
  have f: "cando_opcode_fmt OP_LOOP = OPFMT_A" by (simp add: cando_opcode_fmt_def s_opcode_fmts_def)
  then have sz: "cando_opcode_size OP_LOOP = 3" by (simp add: cando_opcode_size_def)
  obtain c' where c': "cando_chunk_emit_op_a c OP_LOOP (u16 ?d) line = Some c'" "chunk_ok c'"
      "\<exists>bs. ck_code c' = ck_code c @ bs \<and> length bs = 3"
      "instr_at (ck_code c') (length (ck_code c)) = Some (OP_LOOP, [u16 ?d])"
  proof -
    obtain cap where "cando_chunk_emit_op_a c OP_LOOP (u16 ?d) line =
           Some (c\<lparr>ck_code := ck_code c @ instr_bytes OP_LOOP (u16 ?d) 0, ck_code_cap := cap,
                   ck_lines := ck_lines c @ replicate 3 line\<rparr>)" "length (ck_code c) + 3 \<le> cap" "cap_ok cap"
      using emit_is_write [OF assms(1), of OP_LOOP "u16 ?d" 0 line] assms(2) f sz by (auto simp: chunk_emit_def)
    then show thesis
      using that assms(1) f sz instr_bytes_length [of OP_LOOP "u16 ?d" 0]
        instr_at_bytes [of OP_LOOP "u16 ?d" 0 "ck_code c" "[]"] by (simp add: chunk_ok_def instr_args_def)
  qed
  have "length (ck_code c') - u16 ?d = start \<longleftrightarrow> ?d < 65536"
  proof
    assume "?d < 65536"
    then show "length (ck_code c') - u16 ?d = start" using c'(3) assms(3) by auto
  next
    assume eq: "length (ck_code c') - u16 ?d = start"
    have "u16 ?d < 65536" by simp
    then show "?d < 65536" using eq c'(3) by auto
  qed
  then show ?thesis using c' assms(2,3) by (auto simp: cando_chunk_emit_loop_def)
qed

end
