(* ===== verification/Disasm.thy ===== *)
theory Disasm
  imports Chunk Value_Text
begin

text \<open>
  The disassembler (\<open>source/vm/debug.c\<close>): the line it prints for an instruction and the offset it goes on from.
  What is printed is the returned string; \<open>None\<close> is a read outside the code.
\<close>

section \<open>Printing\<close>

definition pad_left :: "nat \<Rightarrow> char \<Rightarrow> string \<Rightarrow> string" where
  "pad_left n c s = replicate (n - length s) c @ s"

definition pad_right :: "nat \<Rightarrow> string \<Rightarrow> string" where
  "pad_right n s = s @ replicate (n - length s) CHR '' ''"

text \<open>How an opcode is printed: the printer its \<open>case\<close> calls.\<close>

datatype dis_kind = DisSimple | DisConst | DisU16 | DisU16U16 | DisJump int

definition dis_table :: "(nat \<times> dis_kind) list" where
  "dis_table = [
    (OP_NULL, DisSimple), (OP_TRUE, DisSimple), (OP_FALSE, DisSimple), (OP_POP, DisSimple),
     (OP_DUP, DisSimple), (OP_ADD, DisSimple), (OP_SUB, DisSimple), (OP_MUL, DisSimple), (OP_DIV, DisSimple),
     (OP_MOD, DisSimple), (OP_POW, DisSimple), (OP_NEG, DisSimple), (OP_POS, DisSimple), (OP_INCR, DisSimple),
     (OP_DECR, DisSimple), (OP_EQ, DisSimple), (OP_NEQ, DisSimple), (OP_LT, DisSimple), (OP_GT, DisSimple),
     (OP_LEQ, DisSimple), (OP_GEQ, DisSimple), (OP_BIT_AND, DisSimple), (OP_BIT_OR, DisSimple),
     (OP_BIT_XOR, DisSimple), (OP_BIT_NOT, DisSimple), (OP_LSHIFT, DisSimple), (OP_RSHIFT, DisSimple),
     (OP_NOT, DisSimple), (OP_NEW_OBJECT, DisSimple), (OP_GET_INDEX, DisSimple), (OP_SET_INDEX, DisSimple),
     (OP_LEN, DisSimple), (OP_KEYS_OF, DisSimple), (OP_VALS_OF, DisSimple), (OP_LOOP_END, DisSimple),
     (OP_VARARG_LEN, DisSimple), (OP_UNPACK, DisSimple), (OP_RANGE_ASC, DisSimple), (OP_RANGE_DESC, DisSimple),
     (OP_TRY_END, DisSimple), (OP_THROW, DisSimple), (OP_RERAISE, DisSimple), (OP_ASYNC, DisSimple),
     (OP_AWAIT, DisSimple), (OP_YIELD, DisSimple), (OP_INHERIT, DisSimple), (OP_MASK_PASS, DisSimple),
     (OP_MASK_SKIP, DisSimple), (OP_MASK_APPLY, DisU16U16), (OP_PIPE_END, DisSimple),
     (OP_PIPE_COLLECT, DisSimple), (OP_FILTER_COLLECT, DisSimple), (OP_SPREAD_RET, DisSimple),
     (OP_NOP, DisSimple), (OP_HALT, DisSimple), (OP_CONST, DisConst), (OP_LOAD_GLOBAL, DisConst),
     (OP_STORE_GLOBAL, DisConst), (OP_DEF_GLOBAL, DisConst), (OP_DEF_CONST_GLOBAL, DisConst),
     (OP_GET_FIELD, DisConst), (OP_SET_FIELD, DisConst), (OP_CLOSURE, DisConst), (OP_NEW_CLASS, DisConst),
     (OP_BIND_METHOD, DisConst), (OP_LOAD_LOCAL, DisU16), (OP_STORE_LOCAL, DisU16), (OP_DEF_LOCAL, DisU16),
     (OP_DEF_CONST_LOCAL, DisU16), (OP_LOAD_UPVAL, DisU16), (OP_STORE_UPVAL, DisU16), (OP_CLOSE_UPVAL, DisU16),
     (OP_POP_N, DisU16), (OP_NEW_ARRAY, DisU16), (OP_RETURN, DisU16), (OP_CALL, DisU16),
     (OP_TAIL_CALL, DisU16), (OP_LOAD_VARARG, DisU16), (OP_FOR_INIT, DisU16), (OP_FOR_OVER_INIT, DisU16),
     (OP_PIPE_INIT, DisU16), (OP_CATCH_BEGIN, DisU16), (OP_EQ_STACK, DisU16), (OP_NEQ_STACK, DisU16),
     (OP_LT_STACK, DisU16), (OP_GT_STACK, DisU16), (OP_LEQ_STACK, DisU16), (OP_GEQ_STACK, DisU16),
     (OP_RANGE_CHECK, DisU16), (OP_LOOP_MARK, DisU16U16), (OP_BREAK, DisU16), (OP_CONTINUE, DisU16),
     (OP_JUMP, DisJump (1)), (OP_JUMP_IF_FALSE, DisJump (1)), (OP_JUMP_IF_TRUE, DisJump (1)),
     (OP_LOOP, DisJump (-1)), (OP_AND_JUMP, DisJump (1)), (OP_OR_JUMP, DisJump (1)),
     (OP_TRY_BEGIN, DisJump (1)), (OP_FINALLY_BEGIN, DisJump (1)), (OP_FOR_NEXT, DisJump (1)),
     (OP_FOR_OVER_NEXT, DisJump (1)), (OP_PIPE_NEXT, DisJump (1)), (OP_FILTER_NEXT, DisJump (1)),
     (OP_METHOD_CALL, DisU16U16), (OP_FLUENT_CALL, DisU16U16)]"

abbreviation newline :: string where
  "newline \<equiv> [CHR 0x0A]"

definition print_const :: "string_heap \<Rightarrow> cando_value \<Rightarrow> string option" where
  "print_const H v = map_option (\<lambda>s. [CHR 0x27] @ s @ [CHR 0x27]) (cando_value_tostring H v)"

definition disasm_simple :: "string \<Rightarrow> nat \<Rightarrow> string \<times> nat" where
  "disasm_simple name offset = (name @ newline, u32 (offset + 1))"

definition disasm_const :: "string_heap \<Rightarrow> cando_chunk \<Rightarrow> string \<Rightarrow> nat \<Rightarrow> (string \<times> nat) option" where
  "disasm_const H c name offset =
     do {
       idx \<leftarrow> cando_read_u16 (ck_code c) (offset + 1);
       k \<leftarrow> (if idx < length (ck_consts c) then print_const H (ck_consts c ! idx) else Some []);
       Some (pad_right 22 name @ '' '' @ pad_left 5 CHR '' '' (decimal idx) @ ''    '' @ k @ newline, u32 (offset + 3))
     }"

definition disasm_jump :: "string \<Rightarrow> nat \<Rightarrow> int \<Rightarrow> cando_chunk \<Rightarrow> (string \<times> nat) option" where
  "disasm_jump name offset sign c =
     do {
       jump \<leftarrow> cando_read_i16 (ck_code c) (offset + 1);
       let target = nat ((int (offset + 3) + sign * jump) mod 2 ^ 32);
       Some (pad_right 22 name @ '' '' @ pad_left 5 CHR '' '' (fmt_int jump) @ '' -> '' @ pad_left 4 CHR ''0'' (decimal target) @ newline,
             u32 (offset + 3))
     }"

definition disasm_u16 :: "string \<Rightarrow> nat \<Rightarrow> cando_chunk \<Rightarrow> (string \<times> nat) option" where
  "disasm_u16 name offset c =
     do {
       a \<leftarrow> cando_read_u16 (ck_code c) (offset + 1);
       Some (pad_right 22 name @ '' '' @ pad_left 5 CHR '' '' (decimal a) @ newline, u32 (offset + 3))
     }"

definition disasm_u16_u16 :: "string \<Rightarrow> nat \<Rightarrow> cando_chunk \<Rightarrow> (string \<times> nat) option" where
  "disasm_u16_u16 name offset c =
     do {
       a \<leftarrow> cando_read_u16 (ck_code c) (offset + 1);
       b \<leftarrow> cando_read_u16 (ck_code c) (offset + 3);
       Some (pad_right 22 name @ '' '' @ pad_left 5 CHR '' '' (decimal a) @ '' '' @ pad_left 5 CHR '' '' (decimal b) @ newline,
             u32 (offset + 5))
     }"

section \<open>Instructions and chunks\<close>

definition line_prefix :: "cando_chunk \<Rightarrow> nat \<Rightarrow> string option" where
  "line_prefix c offset =
     do {
       line \<leftarrow> aget (ck_lines c) offset;
       Some (pad_left 4 CHR ''0'' (decimal offset) @ '' '' @
             (if 0 < offset \<and> line = ck_lines c ! (offset - 1) then ''   | '' else pad_left 4 CHR '' '' (decimal line) @ '' ''))
     }"

definition cando_instr_disasm :: "string_heap \<Rightarrow> cando_chunk \<Rightarrow> nat \<Rightarrow> (string \<times> nat) option" where
  "cando_instr_disasm H c offset =
     do {
       prefix \<leftarrow> line_prefix c offset;
       raw \<leftarrow> aget (ck_code c) offset;
       let op = unat raw;
       let name = cando_opcode_name op;
       (txt, nxt) \<leftarrow>
         (case map_of dis_table op of
            Some DisSimple \<Rightarrow> Some (disasm_simple name offset)
          | Some DisConst \<Rightarrow> disasm_const H c name offset
          | Some DisU16 \<Rightarrow> disasm_u16 name offset c
          | Some DisU16U16 \<Rightarrow> disasm_u16_u16 name offset c
          | Some (DisJump sign) \<Rightarrow> disasm_jump name offset sign c
          | None \<Rightarrow> Some (''OP_UNKNOWN('' @ [hex_lower (op div 16), hex_lower (op mod 16)] @ '')'' @ newline, u32 (offset + 1)));
       Some (prefix @ txt, nxt)
     }"

text \<open>The listing of a chunk. A chunk has at most as many instructions as bytes.\<close>

fun disasm_loop :: "nat \<Rightarrow> string_heap \<Rightarrow> cando_chunk \<Rightarrow> nat \<Rightarrow> string \<Rightarrow> string option" where
  "disasm_loop 0 H c offset out = (if offset < length (ck_code c) then None else Some out)"
| "disasm_loop (Suc n) H c offset out =
     (if offset < length (ck_code c) then do {
        (txt, nxt) \<leftarrow> cando_instr_disasm H c offset;
        disasm_loop n H c nxt (out @ txt)
      } else Some out)"

definition cando_chunk_disasm :: "string_heap \<Rightarrow> cando_chunk \<Rightarrow> string option" where
  "cando_chunk_disasm H c =
     disasm_loop (length (ck_code c)) H c 0
       (''== '' @ ck_name c @ '' =='' @ newline @ ''  arity='' @ decimal (ck_arity c) @ ''  locals='' @ decimal (ck_local_count c) @
        ''  upvals='' @ decimal (ck_upval_count c) @ ''  vararg='' @ (if ck_has_vararg c then ''yes'' else ''no'') @ newline)"

section \<open>The disassembler steps by instructions\<close>

text \<open>The size the printer of an opcode steps by.\<close>

definition dis_size :: "nat \<Rightarrow> nat" where
  "dis_size op = (case map_of dis_table op of
     Some DisConst \<Rightarrow> 3 | Some DisU16 \<Rightarrow> 3 | Some DisU16U16 \<Rightarrow> 5 | Some (DisJump _) \<Rightarrow> 3 | _ \<Rightarrow> 1)"

lemma disasm_next:
  assumes "cando_instr_disasm H c offset = Some (txt, nxt)"
  shows "nxt = u32 (offset + dis_size (unat (ck_code c ! offset)))"
proof -
  let ?op = "unat (ck_code c ! offset)"
  obtain txt' where k: "(case map_of dis_table ?op of
            Some DisSimple \<Rightarrow> Some (disasm_simple (cando_opcode_name ?op) offset)
          | Some DisConst \<Rightarrow> disasm_const H c (cando_opcode_name ?op) offset
          | Some DisU16 \<Rightarrow> disasm_u16 (cando_opcode_name ?op) offset c
          | Some DisU16U16 \<Rightarrow> disasm_u16_u16 (cando_opcode_name ?op) offset c
          | Some (DisJump sign) \<Rightarrow> disasm_jump (cando_opcode_name ?op) offset sign c
          | None \<Rightarrow> Some (''OP_UNKNOWN('' @ [hex_lower (?op div 16), hex_lower (?op mod 16)] @ '')'' @ newline, u32 (offset + 1)))
        = Some (txt', nxt)"
    using assms by (auto simp: cando_instr_disasm_def Let_def fault_simps)
  show ?thesis
  proof (cases "map_of dis_table ?op")
    case None
    then show ?thesis using k by (simp add: dis_size_def)
  next
    case (Some kind)
    show ?thesis using k Some
      by (cases kind) (auto simp: dis_size_def disasm_simple_def disasm_const_def disasm_u16_def disasm_u16_u16_def
          disasm_jump_def fault_simps)
  qed
qed

text \<open>The two tables compared, column by column.\<close>

definition ops_where :: "('k \<Rightarrow> bool) \<Rightarrow> (nat \<times> 'k) list \<Rightarrow> nat list" where
  "ops_where P xs = map fst (filter (\<lambda>x. P (snd x)) xs)"

lemma ops_where_simps: "ops_where P [] = []" "ops_where P ((a, k) # xs) = (if P k then a # ops_where P xs else ops_where P xs)"
  by (simp_all add: ops_where_def)

lemma lookup_ops_where:
  assumes "distinct (map fst xs)"
  shows "(\<exists>k. map_of xs op = Some k \<and> P k) \<longleftrightarrow> op \<in> set (ops_where P xs)"
  using map_of_eq_Some_iff [OF assms] by (force simp: ops_where_def)

lemma distinct_ops: "distinct (map fst xs) \<Longrightarrow> distinct (ops_where P xs)"
  by (induction xs) (auto simp: ops_where_def)

lemma dis_table_distinct: "distinct (map fst dis_table)"
  by (simp add: dis_table_def)

lemma fmts_distinct: "distinct (map fst s_opcode_fmts)"
  by (simp add: s_opcode_fmts_def)

lemma fmts_total: "op < OP_COUNT \<Longrightarrow> map_of s_opcode_fmts op \<noteq> None"
proof -
  assume "op < OP_COUNT"
  moreover have "map fst s_opcode_fmts = [0..<OP_COUNT]"
    by (simp add: s_opcode_fmts_def upt_rec_numeral upt_rec [of 0] upt_rec [of "Suc 0"] flip: numeral_2_eq_2)
  ultimately show ?thesis by (metis atLeastLessThan_iff le0 map_of_eq_None_iff set_map set_upt)
qed

definition dis_width :: "dis_kind \<Rightarrow> nat" where
  "dis_width k = (case k of DisSimple \<Rightarrow> 1 | DisConst \<Rightarrow> 3 | DisU16 \<Rightarrow> 3 | DisU16U16 \<Rightarrow> 5 | DisJump _ \<Rightarrow> 3)"

lemma dis_widths: "dis_width DisSimple = 1" "dis_width DisConst = 3" "dis_width DisU16 = 3" "dis_width DisU16U16 = 5"
  "dis_width (DisJump s) = 3"
  by (simp_all add: dis_width_def)

lemma columns_A: "sort (OP_THROW # remove1 OP_FOR_OVER_INIT (ops_where (\<lambda>k. dis_width k = 3) dis_table)) =
    ops_where ((=) OPFMT_A) s_opcode_fmts"
  by (simp add: dis_table_def s_opcode_fmts_def ops_where_simps dis_widths)

lemma columns_A_B: "sort (OP_FOR_OVER_INIT # ops_where (\<lambda>k. dis_width k = 5) dis_table) = ops_where ((=) OPFMT_A_B) s_opcode_fmts"
  by (simp add: dis_table_def s_opcode_fmts_def ops_where_simps dis_widths)

text \<open>C37. Wherever the disassembler prints an instruction of the set it goes on at the next instruction of the encoding,
  except for two opcodes it prints with the wrong shape (\<open>OP_FOR_OVER_INIT\<close> with one operand of its two and
  \<open>OP_THROW\<close> without its operand), after which it is out of step.\<close>

theorem disasm_steps_by_instructions:
  assumes "cando_instr_disasm H c offset = Some (txt, nxt)" "op = unat (ck_code c ! offset)" "op < OP_COUNT"
    and "offset + 5 \<le> u32_max"
  shows "nxt = offset + cando_opcode_size op \<longleftrightarrow> op \<notin> {OP_FOR_OVER_INIT, OP_THROW}"
proof -
  have size: "dis_size op = (case map_of dis_table op of None \<Rightarrow> 1 | Some k \<Rightarrow> dis_width k)"
    by (simp add: dis_size_def dis_width_def split: option.split dis_kind.split)
  then have "dis_size op \<le> 5" by (simp add: dis_width_def split: option.split dis_kind.split)
  then have nxt: "nxt = offset + dis_size op" using disasm_next [OF assms(1)] assms(2,4) by simp
  note D = lookup_ops_where [OF dis_table_distinct, of op] and F = lookup_ops_where [OF fmts_distinct, of op]
  have D3: "dis_size op = 3 \<longleftrightarrow> op \<in> set (ops_where (\<lambda>k. dis_width k = 3) dis_table)"
    and D5: "dis_size op = 5 \<longleftrightarrow> op \<in> set (ops_where (\<lambda>k. dis_width k = 5) dis_table)"
    and D1: "dis_size op \<in> {1, 3, 5}"
    unfolding size D [symmetric] by (auto simp: dis_width_def split: option.splits dis_kind.splits)
  obtain fmt where fmt: "map_of s_opcode_fmts op = Some fmt" using fmts_total [OF assms(3)] by blast
  have C3: "cando_opcode_size op = 3 \<longleftrightarrow> op \<in> set (ops_where ((=) OPFMT_A) s_opcode_fmts)"
    and C5: "cando_opcode_size op = 5 \<longleftrightarrow> op \<in> set (ops_where ((=) OPFMT_A_B) s_opcode_fmts)"
    and C1: "cando_opcode_size op \<in> {1, 3, 5}"
    unfolding F [symmetric] using fmt assms(3)
    by (simp_all add: cando_opcode_size_def cando_opcode_fmt_def split: op_fmt.splits)
  have A: "set (ops_where ((=) OPFMT_A) s_opcode_fmts) =
      insert OP_THROW (set (ops_where (\<lambda>k. dis_width k = 3) dis_table) - {OP_FOR_OVER_INIT})"
    unfolding columns_A [symmetric] by (simp add: set_insort_key set_remove1_eq distinct_ops dis_table_distinct)
  have B: "set (ops_where ((=) OPFMT_A_B) s_opcode_fmts) =
      insert OP_FOR_OVER_INIT (set (ops_where (\<lambda>k. dis_width k = 5) dis_table))"
    unfolding columns_A_B [symmetric] by (simp add: set_insort_key)
  have wrong: "dis_size OP_THROW = 1" "dis_size OP_FOR_OVER_INIT = 3"
    by (simp_all add: dis_size_def dis_table_def)
  consider (throw) "op = OP_THROW" | (over) "op = OP_FOR_OVER_INIT" | (other) "op \<noteq> OP_THROW" "op \<noteq> OP_FOR_OVER_INIT" by blast
  then have "dis_size op = cando_opcode_size op \<longleftrightarrow> op \<notin> {OP_FOR_OVER_INIT, OP_THROW}"
  proof cases
    case throw
    then have "cando_opcode_size op = 3" unfolding C3 A by blast
    then show ?thesis using throw wrong(1) by simp
  next
    case over
    then have "cando_opcode_size op = 5" unfolding C5 B by blast
    then show ?thesis using over wrong(2) by simp
  next
    case other
    have "cando_opcode_size op = 3 \<longleftrightarrow> dis_size op = 3" unfolding C3 D3 A using other by blast
    moreover have "cando_opcode_size op = 5 \<longleftrightarrow> dis_size op = 5" unfolding C5 D5 B using other by blast
    ultimately show ?thesis using C1 D1 other by auto
  qed
  then show ?thesis using nxt by simp
qed

definition wit_listing :: cando_chunk where
  "wit_listing = (cando_chunk_new None 0 False)\<lparr>ck_code := [of_nat OP_POP, of_nat OP_HALT], ck_lines := [1, 1]\<rparr>"

theorem disasm_steps_by_instructions_witness:
  "\<exists>txt. cando_instr_disasm Map.empty wit_listing 0 = Some (txt, 1)"
proof -
  obtain t nxt where printed: "cando_instr_disasm Map.empty wit_listing 0 = Some (t, nxt)"
    by (simp add: cando_instr_disasm_def wit_listing_def line_prefix_def dis_table_def disasm_simple_def Let_def)
  have op: "OP_POP = unat (ck_code wit_listing ! 0)" by (simp add: wit_listing_def)
  have "nxt = 0 + cando_opcode_size OP_POP"
    using disasm_steps_by_instructions [OF printed op] by simp
  then show ?thesis using printed by (simp add: cando_opcode_size_def cando_opcode_fmt_def s_opcode_fmts_def)
qed

end
