(* ===== verification/Vm_State.thy ===== *)
theory Vm_State
  imports Chunk Globals Handle_Table Obj_Ops Dense_Array Value_Text
begin

text \<open>
  The state of the virtual machine (\<open>source/vm/vm.h\<close>), its stack helpers, operand readers, error reporting, upvalues
  and frames (\<open>source/vm/vm.c\<close>), and the conversions between machine values and object values
  (\<open>source/vm/bridge.c\<close>).

  Pointers into the stack and into the code are indices; the cells at and above the stack top are not part of the
  state. \<open>m_malloc\<close> lists the addresses \<open>malloc\<close> returns next: running out of it is running out of memory, which
  aborts.
\<close>

section \<open>State\<close>

record upvalue =
  uv_slot :: "nat option"
  uv_closed :: cando_value

record cando_closure =
  cl_chunk :: addr
  cl_upvalues :: "addr list"

text \<open>What the machine shares with its threads and with the libraries.\<close>

record vm_mem =
  m_strings :: string_heap
  m_cdo :: cdo_heap
  m_objs :: obj_heap
  m_intern :: intern_table
  m_metas :: "addr list"
  m_handles :: handle_table
  m_globals :: global_env
  m_chunks :: "addr \<rightharpoonup> cando_chunk"
  m_closures :: "addr \<rightharpoonup> cando_closure"
  m_upvals :: "addr \<rightharpoonup> upvalue"
  m_malloc :: "addr list"

record call_frame =
  fr_closure :: addr
  fr_ip :: nat
  fr_slots :: nat
  fr_ret_count :: nat
  fr_fluent :: bool

record try_frame =
  tf_catch_ip :: "nat option"
  tf_finally_ip :: "nat option"
  tf_stack_save :: nat
  tf_frame_save :: nat
  tf_loop_save :: nat

record loop_frame =
  lf_break_ip :: nat
  lf_cont_ip :: nat
  lf_stack_save :: nat
  lf_type :: nat

text \<open>The machine proper. Frames and stack are listed from the bottom, handlers from the innermost. \<open>vm_loops\<close> is the
  part of the array of loops that has been written, of which the first \<open>vm_loop_depth\<close> are active.
  \<open>vm_ip\<close> and \<open>vm_fp\<close> are the locals \<open>ip\<close> and \<open>frame\<close> of the dispatch loop; a stop boundary \<open>~0u\<close> is \<open>None\<close>.\<close>

record cando_vm = vm_mem +
  vm_stack :: "cando_value list"
  vm_frames :: "call_frame list"
  vm_tries :: "try_frame list"
  vm_loops :: "loop_frame list"
  vm_loop_depth :: nat
  vm_open_upvalues :: "addr list"
  vm_native_count :: nat
  vm_error_vals :: "cando_value list"
  vm_error_count :: nat
  vm_has_error :: bool
  vm_error_msg :: string
  vm_last_ret_count :: int
  vm_spread_extra :: int
  vm_array_extra :: int
  vm_eval_stop :: "nat option"
  vm_eval_results :: "cando_value list"
  vm_thread_stop :: "nat option"
  vm_thread_results :: "cando_value list"
  vm_thread_count :: nat
  vm_string_proto :: cando_value
  vm_array_proto :: cando_value
  vm_ip :: nat
  vm_fp :: nat

datatype cando_vm_result = VM_OK | VM_RUNTIME_ERR | VM_HALT | VM_EVAL_DONE

text \<open>How the code of an instruction ends: with \<open>DISPATCH()\<close>, with \<open>goto handle_error\<close>, or by leaving the loop.\<close>

datatype vm_next = Dispatch cando_vm | Handle_error cando_vm | Leave cando_vm_result cando_vm

abbreviation (input) STACK_MAX :: nat where "STACK_MAX \<equiv> 2048"
abbreviation (input) FRAMES_MAX :: nat where "FRAMES_MAX \<equiv> 256"
abbreviation (input) TRY_MAX :: nat where "TRY_MAX \<equiv> 64"
abbreviation (input) LOOP_MAX :: nat where "LOOP_MAX \<equiv> 64"
abbreviation (input) MAX_THROW_ARGS :: nat where "MAX_THROW_ARGS \<equiv> 32"

section \<open>Memory\<close>

definition vm_malloc :: "'a vm_mem_scheme \<Rightarrow> (addr \<times> 'a vm_mem_scheme) option" where
  "vm_malloc s = (case m_malloc s of [] \<Rightarrow> None | a # as \<Rightarrow> Some (a, s\<lparr>m_malloc := as\<rparr>))"

definition vm_new_string :: "'a vm_mem_scheme \<Rightarrow> string \<Rightarrow> (cando_value \<times> 'a vm_mem_scheme) option" where
  "vm_new_string s txt =
     do { (a, s) \<leftarrow> vm_malloc s; Some (VString a, s\<lparr>m_strings := cando_string_new (m_strings s) a txt\<rparr>) }"

definition vm_copy :: "'a vm_mem_scheme \<Rightarrow> cando_value \<Rightarrow> 'a vm_mem_scheme option" where
  "vm_copy s v = map_option (\<lambda>H. s\<lparr>m_strings := H\<rparr>) (cando_value_copy (m_strings s) v)"

definition vm_release :: "'a vm_mem_scheme \<Rightarrow> cando_value \<Rightarrow> 'a vm_mem_scheme option" where
  "vm_release s v = map_option (\<lambda>H. s\<lparr>m_strings := H\<rparr>) (cando_value_release (m_strings s) v)"

definition vm_value_equal :: "'a vm_mem_scheme \<Rightarrow> cando_value \<Rightarrow> cando_value \<Rightarrow> (bool \<times> 'a vm_mem_scheme) option" where
  "vm_value_equal s a b = map_option (\<lambda>(H, r). (r, s\<lparr>m_strings := H\<rparr>)) (cando_value_equal (m_strings s) a b)"

definition cdo_release :: "'a vm_mem_scheme \<Rightarrow> cdo_value \<Rightarrow> 'a vm_mem_scheme option" where
  "cdo_release s v = map_option (\<lambda>H. s\<lparr>m_cdo := H\<rparr>) (cdo_value_release (m_cdo s) v)"

definition cdo_copy :: "'a vm_mem_scheme \<Rightarrow> cdo_value \<Rightarrow> 'a vm_mem_scheme option" where
  "cdo_copy s v = map_option (\<lambda>H. s\<lparr>m_cdo := H\<rparr>) (cdo_value_copy (m_cdo s) v)"

section \<open>The bridge\<close>

definition cando_bridge_resolve :: "'a vm_mem_scheme \<Rightarrow> nat \<Rightarrow> addr option" where
  "cando_bridge_resolve s h = cando_handle_get (m_handles s) h"

text \<open>A handle for an object, as a value.\<close>

definition handle_value :: "'a vm_mem_scheme \<Rightarrow> addr \<Rightarrow> (cando_value \<times> 'a vm_mem_scheme) option" where
  "handle_value s a = map_option (\<lambda>(t, h). (VObject h, s\<lparr>m_handles := t\<rparr>)) (cando_handle_alloc (m_handles s) a)"

definition new_handle :: "'a vm_mem_scheme \<Rightarrow> cdo_object \<Rightarrow> (cando_value \<times> 'a vm_mem_scheme) option" where
  "new_handle s obj =
     do { (a, s) \<leftarrow> vm_malloc s; handle_value (s\<lparr>m_objs := (m_objs s)(a \<mapsto> obj)\<rparr>) a }"

definition cando_bridge_new_object :: "'a vm_mem_scheme \<Rightarrow> (cando_value \<times> 'a vm_mem_scheme) option" where
  "cando_bridge_new_object s = new_handle s cdo_object_new"

definition cando_bridge_new_array :: "'a vm_mem_scheme \<Rightarrow> (cando_value \<times> 'a vm_mem_scheme) option" where
  "cando_bridge_new_array s = new_handle s cdo_array_new"

text \<open>Interning takes an address only when the text is new.\<close>

definition vm_intern :: "'a vm_mem_scheme \<Rightarrow> string \<Rightarrow> (addr \<times> 'a vm_mem_scheme) option" where
  "vm_intern s txt =
     do {
       (a, s') \<leftarrow> vm_malloc s;
       (H, t, k) \<leftarrow> cdo_string_intern (m_cdo s) (m_intern s) a txt;
       Some (k, (if k = a then s' else s)\<lparr>m_cdo := H, m_intern := t\<rparr>)
     }"

definition cando_bridge_intern_key :: "'a vm_mem_scheme \<Rightarrow> addr \<Rightarrow> (addr \<times> 'a vm_mem_scheme) option" where
  "cando_bridge_intern_key s cs = do { c \<leftarrow> m_strings s cs; vm_intern s (st_data c) }"

definition cando_bridge_to_cando :: "'a vm_mem_scheme \<Rightarrow> cdo_value \<Rightarrow> (cando_value \<times> 'a vm_mem_scheme) option" where
  "cando_bridge_to_cando s v = (case v of
     CNull \<Rightarrow> Some (VNull, s)
   | CBool b \<Rightarrow> Some (VBool b, s)
   | CNumber n \<Rightarrow> Some (VNumber n, s)
   | CString x \<Rightarrow> do { c \<leftarrow> m_cdo s x; vm_new_string s (st_data c) }
   | CObject a \<Rightarrow> handle_value s a
   | CArray a \<Rightarrow> handle_value s a
   | CFunction a \<Rightarrow> handle_value s a
   | CNative a \<Rightarrow> handle_value s a)"

definition cando_bridge_to_cdo :: "'a vm_mem_scheme \<Rightarrow> cando_value \<Rightarrow> (cdo_value \<times> 'a vm_mem_scheme) option" where
  "cando_bridge_to_cdo s v = (case v of
     VNull \<Rightarrow> Some (CNull, s)
   | VBool b \<Rightarrow> Some (CBool b, s)
   | VNumber n \<Rightarrow> Some (CNumber n, s)
   | VString x \<Rightarrow>
       do {
         c \<leftarrow> m_strings s x;
         (a, s) \<leftarrow> vm_malloc s;
         Some (CString a, s\<lparr>m_cdo := cdo_string_new (m_cdo s) a (st_data c)\<rparr>)
       }
   | VObject h \<Rightarrow>
       do {
         a \<leftarrow> cando_bridge_resolve s h;
         obj \<leftarrow> m_objs s a;
         Some (case ob_kind obj of OBJ_ARRAY \<Rightarrow> CArray a | OBJ_FUNCTION \<Rightarrow> CFunction a | OBJ_NATIVE \<Rightarrow> CNative a | _ \<Rightarrow> CObject a, s)
       })"

section \<open>Stack helpers\<close>

definition cando_vm_push :: "cando_vm \<Rightarrow> cando_value \<Rightarrow> cando_vm option" where
  "cando_vm_push s v = do { check (length (vm_stack s) < STACK_MAX); Some (s\<lparr>vm_stack := vm_stack s @ [v]\<rparr>) }"

definition cando_vm_pop :: "cando_vm \<Rightarrow> (cando_value \<times> cando_vm) option" where
  "cando_vm_pop s =
     do { check (vm_stack s \<noteq> []); Some (last (vm_stack s), s\<lparr>vm_stack := butlast (vm_stack s)\<rparr>) }"

definition cando_vm_peek :: "cando_vm \<Rightarrow> nat \<Rightarrow> cando_value option" where
  "cando_vm_peek s dist =
     do { check (dist < length (vm_stack s)); Some (vm_stack s ! (length (vm_stack s) - 1 - dist)) }"

definition cando_vm_stack_depth :: "cando_vm \<Rightarrow> nat" where
  "cando_vm_stack_depth s = u32 (length (vm_stack s))"

definition pop_release :: "cando_vm \<Rightarrow> cando_vm option" where
  "pop_release s = do { (v, s) \<leftarrow> cando_vm_pop s; vm_release s v }"

fun pop_release_n :: "nat \<Rightarrow> cando_vm \<Rightarrow> cando_vm option" where
  "pop_release_n 0 s = Some s"
| "pop_release_n (Suc n) s = Option.bind (pop_release s) (pop_release_n n)"

fun push_nulls :: "nat \<Rightarrow> cando_vm \<Rightarrow> cando_vm option" where
  "push_nulls 0 s = Some s"
| "push_nulls (Suc n) s = Option.bind (cando_vm_push s VNull) (push_nulls n)"

text \<open>A cell, counted from the bottom; the cells of the current frame.\<close>

definition put_cell :: "cando_vm \<Rightarrow> nat \<Rightarrow> cando_value \<Rightarrow> cando_vm option" where
  "put_cell s i v = map_option (\<lambda>st. s\<lparr>vm_stack := st\<rparr>) (aput (vm_stack s) i v)"

definition cur_frame :: "cando_vm \<Rightarrow> call_frame option" where
  "cur_frame s = aget (vm_frames s) (vm_fp s)"

definition frame_chunk :: "cando_vm \<Rightarrow> call_frame \<Rightarrow> cando_chunk option" where
  "frame_chunk s f = do { cl \<leftarrow> m_closures s (fr_closure f); m_chunks s (cl_chunk cl) }"

definition cur_chunk :: "cando_vm \<Rightarrow> cando_chunk option" where
  "cur_chunk s = do { f \<leftarrow> cur_frame s; frame_chunk s f }"

definition local_slot :: "cando_vm \<Rightarrow> nat \<Rightarrow> nat option" where
  "local_slot s i = map_option (\<lambda>f. fr_slots f + i) (cur_frame s)"

section \<open>Reading the code\<close>

definition read_byte :: "cando_vm \<Rightarrow> (nat \<times> cando_vm) option" where
  "read_byte s =
     do { c \<leftarrow> cur_chunk s; b \<leftarrow> aget (ck_code c) (vm_ip s); Some (unat b, s\<lparr>vm_ip := vm_ip s + 1\<rparr>) }"

definition read_u16 :: "cando_vm \<Rightarrow> (nat \<times> cando_vm) option" where
  "read_u16 s =
     do { c \<leftarrow> cur_chunk s; v \<leftarrow> cando_read_u16 (ck_code c) (vm_ip s); Some (v, s\<lparr>vm_ip := vm_ip s + 2\<rparr>) }"

definition read_i16 :: "cando_vm \<Rightarrow> (int \<times> cando_vm) option" where
  "read_i16 s = map_option (\<lambda>(v, s). (i16_of_u16 v, s)) (read_u16 s)"

definition const_at :: "cando_vm \<Rightarrow> nat \<Rightarrow> cando_value option" where
  "const_at s i = do { c \<leftarrow> cur_chunk s; aget (ck_consts c) i }"

definition const_string :: "cando_vm \<Rightarrow> nat \<Rightarrow> addr option" where
  "const_string s i = do { v \<leftarrow> const_at s i; case v of VString a \<Rightarrow> Some a | _ \<Rightarrow> None }"

text \<open>Moving \<open>ip\<close>; a target before the code is a fault.\<close>

definition jump_target :: "nat \<Rightarrow> int \<Rightarrow> nat option" where
  "jump_target ip off = (if 0 \<le> int ip + off then Some (nat (int ip + off)) else None)"

definition jump_by :: "cando_vm \<Rightarrow> int \<Rightarrow> cando_vm option" where
  "jump_by s off = map_option (\<lambda>ip. s\<lparr>vm_ip := ip\<rparr>) (jump_target (vm_ip s) off)"

text \<open>\<open>SYNC_IP\<close> and \<open>LOAD_FRAME\<close>.\<close>

definition sync_ip :: "cando_vm \<Rightarrow> cando_vm option" where
  "sync_ip s =
     do { f \<leftarrow> cur_frame s; fs \<leftarrow> aput (vm_frames s) (vm_fp s) (f\<lparr>fr_ip := vm_ip s\<rparr>); Some (s\<lparr>vm_frames := fs\<rparr>) }"

definition load_frame :: "cando_vm \<Rightarrow> cando_vm option" where
  "load_frame s =
     do {
       check (vm_frames s \<noteq> []);
       Some (s\<lparr>vm_fp := length (vm_frames s) - 1, vm_ip := fr_ip (last (vm_frames s))\<rparr>)
     }"

section \<open>Errors\<close>

definition vm_error_commit :: "cando_vm \<Rightarrow> cando_vm option" where
  "vm_error_commit s =
     do {
       v0 \<leftarrow> aget (vm_error_vals s) 0;
       s \<leftarrow> vm_release (s\<lparr>vm_has_error := True\<rparr>) v0;
       (v, s) \<leftarrow> vm_new_string s (vm_error_msg s);
       Some (s\<lparr>vm_error_vals := (vm_error_vals s)[0 := v], vm_error_count := 1\<rparr>)
     }"

text \<open>The formatted message in its buffer of 512 bytes.\<close>

definition cando_vm_error :: "cando_vm \<Rightarrow> string \<Rightarrow> cando_vm option" where
  "cando_vm_error s msg = vm_error_commit (s\<lparr>vm_error_msg := take 511 msg\<rparr>)"

definition error_location :: "cando_vm \<Rightarrow> string option" where
  "error_location s =
     (if vm_frames s = [] then Some []
      else do {
        let f = last (vm_frames s);
        c \<leftarrow> frame_chunk s f;
        if 0 < fr_ip f \<and> fr_ip f - 1 < length (ck_code c) then do {
          line \<leftarrow> aget (ck_lines c) (fr_ip f - 1);
          Some (take 127 ('' ['' @ c_text (ck_name c) @ '' line '' @ decimal line @ '']''))
        } else Some []
      })"

definition vm_runtime_error :: "cando_vm \<Rightarrow> string \<Rightarrow> cando_vm option" where
  "vm_runtime_error s msg =
     do {
       loc \<leftarrow> error_location s;
       vm_error_commit (s\<lparr>vm_error_msg := take 511 (take 511 msg @ loc)\<rparr>)
     }"

definition throw_error :: "cando_vm \<Rightarrow> string \<Rightarrow> vm_next option" where
  "throw_error s msg = map_option Handle_error (vm_runtime_error s msg)"

section \<open>Upvalues\<close>

text \<open>Whether an open upvalue sits above a slot; the list is sorted by falling slot.\<close>

fun capture_split :: "(addr \<rightharpoonup> upvalue) \<Rightarrow> nat \<Rightarrow> addr list \<Rightarrow> (addr list \<times> addr list) option" where
  "capture_split U slot [] = Some ([], [])"
| "capture_split U slot (u # us) =
     do {
       uv \<leftarrow> U u;
       i \<leftarrow> uv_slot uv;
       if i > slot then do { (above, rest) \<leftarrow> capture_split U slot us; Some (u # above, rest) }
       else Some ([], u # us)
     }"

definition vm_capture_upvalue :: "cando_vm \<Rightarrow> nat \<Rightarrow> (addr \<times> cando_vm) option" where
  "vm_capture_upvalue s slot =
     do {
       (above, rest) \<leftarrow> capture_split (m_upvals s) slot (vm_open_upvalues s);
       at \<leftarrow> (case rest of [] \<Rightarrow> Some None | u # _ \<Rightarrow> map_option uv_slot (m_upvals s u));
       if at = Some slot then Some (hd rest, s)
       else do {
         (a, s) \<leftarrow> vm_malloc s;
         Some (a, s\<lparr>m_upvals := (m_upvals s)(a \<mapsto> \<lparr>uv_slot = Some slot, uv_closed = VNull\<rparr>),
                    vm_open_upvalues := above @ a # rest\<rparr>)
       }
     }"

fun close_loop :: "nat \<Rightarrow> cando_value list \<Rightarrow> (addr \<rightharpoonup> upvalue) \<Rightarrow> addr list \<Rightarrow> ((addr \<rightharpoonup> upvalue) \<times> addr list) option" where
  "close_loop slot st U [] = Some (U, [])"
| "close_loop slot st U (u # us) =
     do {
       uv \<leftarrow> U u;
       i \<leftarrow> uv_slot uv;
       if i \<ge> slot then do { v \<leftarrow> aget st i; close_loop slot st (U(u \<mapsto> \<lparr>uv_slot = None, uv_closed = v\<rparr>)) us }
       else Some (U, u # us)
     }"

definition vm_close_upvalues :: "cando_vm \<Rightarrow> nat \<Rightarrow> cando_vm option" where
  "vm_close_upvalues s slot =
     map_option (\<lambda>(U, us). s\<lparr>m_upvals := U, vm_open_upvalues := us\<rparr>) (close_loop slot (vm_stack s) (m_upvals s) (vm_open_upvalues s))"

section \<open>Truthiness\<close>

definition vm_is_truthy :: "cando_value \<Rightarrow> bool" where
  "vm_is_truthy v = (case v of VNull \<Rightarrow> False | VBool b \<Rightarrow> b | _ \<Rightarrow> True)"

section \<open>Frames\<close>

definition closure_chunk :: "cando_vm \<Rightarrow> addr \<Rightarrow> cando_chunk option" where
  "closure_chunk s cl = do { c \<leftarrow> m_closures s cl; m_chunks s (cl_chunk c) }"

definition push_frame :: "cando_vm \<Rightarrow> addr \<Rightarrow> nat \<Rightarrow> nat \<Rightarrow> bool \<Rightarrow> cando_vm" where
  "push_frame s cl ip slots fluent =
     s\<lparr>vm_frames := vm_frames s @ [\<lparr>fr_closure = cl, fr_ip = ip, fr_slots = slots, fr_ret_count = 0, fr_fluent = fluent\<rparr>]\<rparr>"

text \<open>A new frame on the call stack, with the missing locals filled with nulls.\<close>

definition enter_frame :: "cando_vm \<Rightarrow> addr \<Rightarrow> nat \<Rightarrow> nat \<Rightarrow> bool \<Rightarrow> nat \<Rightarrow> cando_vm option" where
  "enter_frame s cl ip slots fluent n_present =
     do { k \<leftarrow> closure_chunk s cl; push_nulls (ck_local_count k - n_present) (push_frame s cl ip slots fluent) }"

definition vm_call :: "cando_vm \<Rightarrow> addr \<Rightarrow> nat \<Rightarrow> (bool \<times> cando_vm) option" where
  "vm_call s cl arg_count =
     do {
       k \<leftarrow> closure_chunk s cl;
       if \<not> ck_has_vararg k \<and> arg_count \<noteq> ck_arity k then
         map_option (Pair False) (vm_runtime_error s
           (''function '' @ [CHR 0x27] @ c_text (ck_name k) @ [CHR 0x27] @ '' expects '' @ decimal (ck_arity k) @
            '' argument(s) but got '' @ decimal arg_count))
       else if length (vm_frames s) \<ge> FRAMES_MAX then map_option (Pair False) (vm_runtime_error s ''call stack overflow'')
       else do {
         check (arg_count + 1 \<le> length (vm_stack s));
         map_option (Pair True) (enter_frame s cl 0 (length (vm_stack s) - arg_count - 1) False (arg_count + 1))
       }
     }"

end
