(* ===== verification/Vm_Calls.thy ===== *)
theory Vm_Calls
  imports Vm_State
begin

text \<open>
  Calls that run the machine again inside an instruction (\<open>source/vm/vm.c\<close>): meta-methods, calls of function values from
  native code, and the entry points that execute a chunk. The inner \<open>vm_run\<close> is an argument, tied by the machine.
\<close>

section \<open>The world outside the machine\<close>

text \<open>Registered native functions (by index, over the argument window), functions of native objects, \<open>pow\<close> of the
  C library, and the two instructions that work on other threads.\<close>

record vm_env =
  env_native :: "nat \<Rightarrow> cando_vm \<Rightarrow> cando_value list \<Rightarrow> (int \<times> cando_vm) option"
  env_cdo_native :: "addr \<Rightarrow> cando_vm \<Rightarrow> cdo_value list \<Rightarrow> (cdo_value \<times> cando_vm) option"
  env_pow :: "f64 \<Rightarrow> f64 \<Rightarrow> f64"
  env_await :: "cando_vm \<Rightarrow> vm_next option"
  env_thread :: "cando_vm \<Rightarrow> vm_next option"

type_synonym vm_runner = "cando_vm \<Rightarrow> (cando_vm_result \<times> cando_vm) option"

text \<open>An inner run starts at the frame on top and leaves the locals of the outer loop alone.\<close>

definition run_inner :: "vm_runner \<Rightarrow> cando_vm \<Rightarrow> (cando_vm_result \<times> cando_vm) option" where
  "run_inner run s =
     do {
       s0 \<leftarrow> load_frame s;
       (r, s') \<leftarrow> run s0;
       Some (r, s'\<lparr>vm_ip := vm_ip s, vm_fp := vm_fp s\<rparr>)
     }"

definition u32_of_f64 :: "f64 \<Rightarrow> nat" where
  "u32_of_f64 n = nat (i64_of_f64 n mod 2 ^ 32)"

fun push_copies :: "cando_value list \<Rightarrow> cando_vm \<Rightarrow> cando_vm option" where
  "push_copies [] s = Some s"
| "push_copies (v # vs) s = do { s \<leftarrow> vm_copy s v; s \<leftarrow> cando_vm_push s v; push_copies vs s }"

definition reset_thread_results :: "cando_vm \<Rightarrow> cando_vm option" where
  "reset_thread_results s =
     do {
       s \<leftarrow> mfold vm_release (vm_thread_results s) (s\<lparr>vm_thread_count := 0\<rparr>);
       Some (s\<lparr>vm_thread_results := replicate MAX_THROW_ARGS VNull\<rparr>)
     }"

section \<open>Calling function values\<close>

text \<open>The frame of a call with given arguments: sentinel, arguments, nulls for the remaining locals.\<close>

definition call_with_args :: "cando_vm \<Rightarrow> addr \<Rightarrow> nat \<Rightarrow> cando_value list \<Rightarrow> cando_vm option" where
  "call_with_args s cl pc args =
     do {
       k \<leftarrow> closure_chunk s cl;
       s \<leftarrow> push_copies args (push_frame s cl pc (length (vm_stack s) - 1) False);
       push_nulls (ck_local_count k - (length args + 1)) s
     }"

definition vm_call_closure_with_args :: "vm_runner \<Rightarrow> cando_vm \<Rightarrow> cdo_object \<Rightarrow> cando_value list \<Rightarrow> cando_vm option" where
  "vm_call_closure_with_args run s fn_obj args = (case ob_fn fn_obj of
     FnScript fn_pc _ cl \<Rightarrow>
       if ob_kind fn_obj \<noteq> OBJ_FUNCTION \<or> cl = 0 then Some s
       else do {
         let saved_stop = vm_thread_stop s;
         s \<leftarrow> reset_thread_results (s\<lparr>vm_thread_stop := Some (length (vm_frames s))\<rparr>);
         s \<leftarrow> cando_vm_push s VNull;
         if length (vm_frames s) \<ge> FRAMES_MAX then do {
           (_, s) \<leftarrow> cando_vm_pop s;
           Some (s\<lparr>vm_thread_stop := saved_stop\<rparr>)
         } else do {
           s \<leftarrow> call_with_args s cl fn_pc args;
           (_, s) \<leftarrow> run_inner run s;
           Some (s\<lparr>vm_thread_stop := saved_stop\<rparr>)
         }
       }
   | _ \<Rightarrow> Some s)"

definition cando_vm_call_value :: "vm_env \<Rightarrow> vm_runner \<Rightarrow> cando_vm \<Rightarrow> cando_value \<Rightarrow> cando_value list \<Rightarrow> (int \<times> cando_vm) option" where
  "cando_vm_call_value env run s fn_val args = (case fn_val of
     VNumber n \<Rightarrow>
       if is_native_fn fn_val then
         (if native_index n \<ge> vm_native_count s then Some (0, s)
          else do {
            (ret, s) \<leftarrow> env_native env (native_index n) s args;
            Some (if vm_has_error s \<or> ret < 0 then 0 else ret, s)
          })
       else Some (0, s)
   | VObject h \<Rightarrow>
       do {
         a \<leftarrow> cando_bridge_resolve s h;
         fn_obj \<leftarrow> m_objs s a;
         if ob_kind fn_obj \<noteq> OBJ_FUNCTION then Some (0, s)
         else do {
           s \<leftarrow> vm_call_closure_with_args run s fn_obj args;
           s' \<leftarrow> push_copies (take (vm_thread_count s) (vm_thread_results s)) s;
           Some (int (vm_thread_count s), s')
         }
       }
   | _ \<Rightarrow> Some (0, s))"

section \<open>Meta-methods\<close>

definition meta_index :: "string \<Rightarrow> nat option" where
  "meta_index name = (case filter (\<lambda>i. meta_names ! i = name) [0..<length meta_names] of i # _ \<Rightarrow> Some i | [] \<Rightarrow> None)"

text \<open>The global \<open>g_meta_...\<close> of a meta name; 0 while the names are not interned.\<close>

definition meta_key :: "cando_vm \<Rightarrow> string \<Rightarrow> addr" where
  "meta_key s name = (case meta_index name of Some i \<Rightarrow> if i < length (m_metas s) then m_metas s ! i else 0 | None \<Rightarrow> 0)"

definition object_get :: "cando_vm \<Rightarrow> addr \<Rightarrow> addr \<Rightarrow> cdo_value option option" where
  "object_get s obj key = cdo_object_get (m_cdo s) (m_intern s) (meta_key s ''__index'') (m_objs s) obj key"

fun pop_to :: "nat \<Rightarrow> nat \<Rightarrow> cando_vm \<Rightarrow> cando_vm option" where
  "pop_to 0 depth s = (if length (vm_stack s) > depth then None else Some s)"
| "pop_to (Suc n) depth s =
     (if length (vm_stack s) > depth then Option.bind (pop_release s) (pop_to n depth) else Some s)"

text \<open>Releasing down to a depth; the stack length bounds the rounds.\<close>

definition pop_down_to :: "nat \<Rightarrow> cando_vm \<Rightarrow> cando_vm option" where
  "pop_down_to depth s = pop_to (length (vm_stack s)) depth s"

definition call_meta_native :: "vm_env \<Rightarrow> cando_vm \<Rightarrow> f64 \<Rightarrow> cando_value list \<Rightarrow> (bool \<times> cando_vm) option" where
  "call_meta_native env s n args =
     (let ni = native_index n in
      if ni \<ge> vm_native_count s then
        map_option (Pair False) (vm_runtime_error s (''meta-method: invalid native index '' @ decimal ni))
      else do {
        let before = length (vm_stack s);
        (ret, s) \<leftarrow> env_native env ni s args;
        if vm_has_error s then Some (False, s)
        else do {
          s \<leftarrow> (if ret \<le> 0 \<and> length (vm_stack s) \<le> before then cando_vm_push s VNull else Some s);
          s \<leftarrow> pop_down_to (before + 1) s;
          Some (True, s)
        }
      })"

definition call_meta_pc :: "vm_runner \<Rightarrow> cando_vm \<Rightarrow> f64 \<Rightarrow> cando_value list \<Rightarrow> (bool \<times> cando_vm) option" where
  "call_meta_pc run s n args =
     do {
       check (vm_frames s \<noteq> []);
       let cl = fr_closure (last (vm_frames s));
       let saved_stop = vm_thread_stop s;
       s \<leftarrow> reset_thread_results (s\<lparr>vm_thread_stop := Some (length (vm_frames s))\<rparr>);
       s \<leftarrow> cando_vm_push s VNull;
       if length (vm_frames s) \<ge> FRAMES_MAX then do {
         (_, s) \<leftarrow> cando_vm_pop s;
         s \<leftarrow> vm_runtime_error (s\<lparr>vm_thread_stop := saved_stop\<rparr>) ''call stack overflow in meta-method'';
         Some (False, s)
       } else do {
         s \<leftarrow> call_with_args s cl (u32_of_f64 n) args;
         (_, s) \<leftarrow> run_inner run s;
         let s = s\<lparr>vm_thread_stop := saved_stop\<rparr>;
         if vm_has_error s then Some (False, s)
         else do {
           s \<leftarrow> (if 0 < vm_thread_count s then push_copies (take 1 (vm_thread_results s)) s else cando_vm_push s VNull);
           Some (True, s)
         }
       }
     }"

fun to_cdo_all :: "cando_vm \<Rightarrow> cando_value list \<Rightarrow> (cdo_value list \<times> cando_vm) option" where
  "to_cdo_all s [] = Some ([], s)"
| "to_cdo_all s (v # vs) =
     do { (c, s) \<leftarrow> cando_bridge_to_cdo s v; (cs, s) \<leftarrow> to_cdo_all s vs; Some (c # cs, s) }"

definition call_meta_object :: "vm_env \<Rightarrow> vm_runner \<Rightarrow> cando_vm \<Rightarrow> nat \<Rightarrow> cando_value list \<Rightarrow> (bool \<times> cando_vm) option" where
  "call_meta_object env run s h args =
     do {
       a \<leftarrow> cando_bridge_resolve s h;
       fn_obj \<leftarrow> m_objs s a;
       case (ob_kind fn_obj, ob_fn fn_obj) of
         (OBJ_NATIVE, FnNative f _) \<Rightarrow>
           if f = 0 then map_option (Pair False) (vm_runtime_error s ''meta-method is not callable'')
           else do {
             (cs, s) \<leftarrow> to_cdo_all s args;
             (result, s) \<leftarrow> env_cdo_native env f s cs;
             s \<leftarrow> mfold cdo_release cs s;
             (v, s) \<leftarrow> cando_bridge_to_cando s result;
             s \<leftarrow> cando_vm_push s v;
             s \<leftarrow> cdo_release s result;
             Some (True, s)
           }
       | (OBJ_FUNCTION, FnScript _ _ cl) \<Rightarrow>
           if cl = 0 then map_option (Pair False) (vm_runtime_error s ''meta-method is not callable'')
           else do {
             (ret, s) \<leftarrow> cando_vm_call_value env run s (VObject h) args;
             if vm_has_error s then Some (False, s)
             else if 1 < ret then do {
               (top, s) \<leftarrow> cando_vm_pop s;
               s \<leftarrow> pop_release_n (nat (ret - 1)) s;
               s \<leftarrow> cando_vm_push s top;
               Some (True, s)
             }
             else if ret = 0 then map_option (Pair True) (cando_vm_push s VNull)
             else Some (True, s)
           }
       | _ \<Rightarrow> map_option (Pair False) (vm_runtime_error s ''meta-method is not callable'')
     }"

definition cando_vm_call_meta ::
  "vm_env \<Rightarrow> vm_runner \<Rightarrow> cando_vm \<Rightarrow> nat \<Rightarrow> addr \<Rightarrow> cando_value list \<Rightarrow> (bool \<times> cando_vm) option" where
  "cando_vm_call_meta env run s h key args =
     do {
       obj \<leftarrow> cando_bridge_resolve s h;
       if obj = 0 \<or> key = 0 then Some (False, s)
       else do {
         found \<leftarrow> object_get s obj key;
         case found of
           None \<Rightarrow> Some (False, s)
         | Some raw \<Rightarrow>
             do {
               (callee, s) \<leftarrow> cando_bridge_to_cando s raw;
               case callee of
                 VNumber n \<Rightarrow> if is_native_fn callee then call_meta_native env s n args else call_meta_pc run s n args
               | VObject fh \<Rightarrow> call_meta_object env run s fh args
               | _ \<Rightarrow> map_option (Pair False) (vm_runtime_error s ''meta-method is not callable'')
             }
       }
     }"

section \<open>Executing a chunk\<close>

definition cando_closure_new :: "cando_vm \<Rightarrow> addr \<Rightarrow> (addr \<times> cando_vm) option" where
  "cando_closure_new s ca =
     do {
       k \<leftarrow> m_chunks s ca;
       (a, s) \<leftarrow> vm_malloc s;
       Some (a, s\<lparr>m_closures := (m_closures s)(a \<mapsto> \<lparr>cl_chunk = ca, cl_upvalues = replicate (ck_upval_count k) 0\<rparr>)\<rparr>)
     }"

definition cando_closure_free :: "cando_vm \<Rightarrow> addr \<Rightarrow> cando_vm" where
  "cando_closure_free s a = s\<lparr>m_closures := (m_closures s)(a := None)\<rparr>"

text \<open>No thread is waited for: the sequential machine has none.\<close>

definition cando_vm_exec :: "vm_runner \<Rightarrow> cando_vm \<Rightarrow> addr \<Rightarrow> (cando_vm_result \<times> cando_vm) option" where
  "cando_vm_exec run s chunk =
     do {
       (cl, s) \<leftarrow> cando_closure_new s chunk;
       s \<leftarrow> cando_vm_push s VNull;
       (ok, s) \<leftarrow> vm_call s cl 0;
       if \<not> ok then Some (VM_RUNTIME_ERR, cando_closure_free s cl)
       else do {
         (r, s) \<leftarrow> run_inner run s;
         Some (r, cando_closure_free s cl)
       }
     }"

text \<open>The results of an \<open>eval\<close> are handed to the caller; the state of an enclosing \<open>eval\<close> is saved around it.\<close>

definition exec_eval_with ::
  "bool \<Rightarrow> vm_runner \<Rightarrow> cando_vm \<Rightarrow> addr \<Rightarrow> (cando_vm_result \<times> cando_value list \<times> addr \<times> cando_vm) option" where
  "exec_eval_with free_closure run s chunk =
     do {
       let restore = (\<lambda>s'. s'\<lparr>vm_eval_stop := vm_eval_stop s, vm_eval_results := vm_eval_results s\<rparr>);
       let s = s\<lparr>vm_eval_stop := Some (length (vm_frames s)), vm_eval_results := []\<rparr>;
       (cl, s) \<leftarrow> cando_closure_new s chunk;
       s \<leftarrow> cando_vm_push s VNull;
       (ok, s) \<leftarrow> vm_call s cl 0;
       if \<not> ok then do {
         (_, s) \<leftarrow> cando_vm_pop s;
         Some (VM_RUNTIME_ERR, [], 0, restore (cando_closure_free s cl))
       } else do {
         (r, s) \<leftarrow> run_inner run s;
         let results = vm_eval_results s;
         Some (r, results, cl, restore (if free_closure then cando_closure_free s cl else s))
       }
     }"

definition cando_vm_exec_eval :: "vm_runner \<Rightarrow> cando_vm \<Rightarrow> addr \<Rightarrow> (cando_vm_result \<times> cando_value list \<times> cando_vm) option" where
  "cando_vm_exec_eval run s chunk = map_option (\<lambda>(r, vs, _, s). (r, vs, s)) (exec_eval_with True run s chunk)"

definition cando_vm_exec_eval_module ::
  "vm_runner \<Rightarrow> cando_vm \<Rightarrow> addr \<Rightarrow> (cando_vm_result \<times> cando_value list \<times> addr \<times> cando_vm) option" where
  "cando_vm_exec_eval_module run s chunk = exec_eval_with False run s chunk"

definition cando_vm_exec_closure :: "vm_runner \<Rightarrow> cando_vm \<Rightarrow> addr \<Rightarrow> nat \<Rightarrow> (cando_vm_result \<times> cando_vm) option" where
  "cando_vm_exec_closure run s cl fn_pc =
     do {
       let saved_stop = vm_thread_stop s;
       let saved_count = vm_thread_count s;
       s \<leftarrow> reset_thread_results (s\<lparr>vm_thread_stop := Some (length (vm_frames s))\<rparr>);
       s \<leftarrow> cando_vm_push s VNull;
       if length (vm_frames s) \<ge> FRAMES_MAX then do {
         s \<leftarrow> vm_runtime_error s ''call stack overflow in thread'';
         (_, s) \<leftarrow> cando_vm_pop (s\<lparr>vm_thread_stop := saved_stop, vm_thread_count := saved_count\<rparr>);
         Some (VM_RUNTIME_ERR, s)
       } else do {
         s \<leftarrow> call_with_args s cl fn_pc [];
         (r, s) \<leftarrow> run_inner run s;
         Some (r, s\<lparr>vm_thread_stop := saved_stop\<rparr>)
       }
     }"

end
