(* ===== verification/Vm_Data.thy ===== *)
theory Vm_Data
  imports Vm_Calls
begin

text \<open>
  The instructions that move and compute values (\<open>vm_run\<close> in \<open>source/vm/vm.c\<close>, bands 0 to 8 and 19): constants, the
  stack, locals, globals, upvalues, arithmetic, comparison, bitwise and logical operators, and the jumps that peek.
\<close>

definition dispatch_push :: "cando_vm \<Rightarrow> cando_value \<Rightarrow> vm_next option" where
  "dispatch_push s v = map_option Dispatch (cando_vm_push s v)"

section \<open>Constants and the stack\<close>

definition op_const :: "cando_vm \<Rightarrow> vm_next option" where
  "op_const s =
     do { (idx, s) \<leftarrow> read_u16 s; v \<leftarrow> const_at s idx; s \<leftarrow> vm_copy s v; dispatch_push s v }"

definition op_null :: "cando_vm \<Rightarrow> vm_next option" where "op_null s = dispatch_push s VNull"
definition op_true :: "cando_vm \<Rightarrow> vm_next option" where "op_true s = dispatch_push s (VBool True)"
definition op_false :: "cando_vm \<Rightarrow> vm_next option" where "op_false s = dispatch_push s (VBool False)"

definition op_pop :: "cando_vm \<Rightarrow> vm_next option" where
  "op_pop s = map_option Dispatch (pop_release s)"

definition op_pop_n :: "cando_vm \<Rightarrow> vm_next option" where
  "op_pop_n s = do { (n, s) \<leftarrow> read_u16 s; map_option Dispatch (pop_release_n n s) }"

definition op_dup :: "cando_vm \<Rightarrow> vm_next option" where
  "op_dup s = do { v \<leftarrow> cando_vm_peek s 0; s \<leftarrow> vm_copy s v; dispatch_push s v }"

section \<open>Locals\<close>

definition op_load_local :: "cando_vm \<Rightarrow> vm_next option" where
  "op_load_local s =
     do {
       (slot, s) \<leftarrow> read_u16 s;
       i \<leftarrow> local_slot s slot;
       v \<leftarrow> aget (vm_stack s) i;
       s \<leftarrow> vm_copy s v;
       dispatch_push s v
     }"

definition op_store_local :: "cando_vm \<Rightarrow> vm_next option" where
  "op_store_local s =
     do {
       (slot, s) \<leftarrow> read_u16 s;
       i \<leftarrow> local_slot s slot;
       old \<leftarrow> aget (vm_stack s) i;
       s \<leftarrow> vm_release s old;
       v \<leftarrow> cando_vm_peek s 0;
       s \<leftarrow> vm_copy s v;
       map_option Dispatch (put_cell s i v)
     }"

text \<open>\<open>OP_DEF_LOCAL\<close> and \<open>OP_DEF_CONST_LOCAL\<close> are the same at this level.\<close>

definition op_def_local :: "cando_vm \<Rightarrow> vm_next option" where
  "op_def_local s =
     do {
       (slot, s) \<leftarrow> read_u16 s;
       i \<leftarrow> local_slot s slot;
       old \<leftarrow> aget (vm_stack s) i;
       s \<leftarrow> vm_release s old;
       (v, s) \<leftarrow> cando_vm_pop s;
       s \<leftarrow> put_cell s i v;
       Some (Dispatch (s\<lparr>vm_spread_extra := 0\<rparr>))
     }"

section \<open>Globals\<close>

text \<open>The text of a name constant; it must be a string.\<close>

definition const_name :: "cando_vm \<Rightarrow> nat \<Rightarrow> string option" where
  "const_name s ci = do { a \<leftarrow> const_string s ci; str_text (m_strings s) a }"

definition set_global :: "cando_vm \<Rightarrow> string \<Rightarrow> cando_value \<Rightarrow> bool \<Rightarrow> (bool \<times> cando_vm) option" where
  "set_global s name v is_const =
     map_option (\<lambda>(H, g, ok). (ok, s\<lparr>m_strings := H, m_globals := g\<rparr>))
       (vm_set_global_str (m_strings s) (m_globals s) name v is_const)"

abbreviation (input) in_quotes :: "string \<Rightarrow> string" where
  "in_quotes t \<equiv> [CHR 0x27] @ t @ [CHR 0x27]"

definition op_load_global :: "cando_vm \<Rightarrow> vm_next option" where
  "op_load_global s =
     do {
       (ci, s) \<leftarrow> read_u16 s;
       name \<leftarrow> const_name s ci;
       found \<leftarrow> vm_get_global_str (m_globals s) name;
       case found of
         Some v \<Rightarrow> do { s \<leftarrow> vm_copy s v; dispatch_push s v }
       | None \<Rightarrow> throw_error s (''undefined variable '' @ in_quotes (c_text name))
     }"

definition op_store_global :: "cando_vm \<Rightarrow> vm_next option" where
  "op_store_global s =
     do {
       (ci, s) \<leftarrow> read_u16 s;
       name \<leftarrow> const_name s ci;
       v \<leftarrow> cando_vm_peek s 0;
       s \<leftarrow> vm_copy s v;
       (ok, s) \<leftarrow> set_global s name v False;
       if ok then Some (Dispatch s) else throw_error s (''cannot assign to constant '' @ in_quotes (c_text name))
     }"

text \<open>A definition ignores a refusal: the value of a name that is already a constant is dropped without release.\<close>

definition def_global :: "bool \<Rightarrow> cando_vm \<Rightarrow> vm_next option" where
  "def_global is_const s =
     do {
       (ci, s) \<leftarrow> read_u16 s;
       name \<leftarrow> const_name s ci;
       (v, s) \<leftarrow> cando_vm_pop s;
       (_, s) \<leftarrow> set_global s name v is_const;
       Some (Dispatch (s\<lparr>vm_spread_extra := 0\<rparr>))
     }"

definition op_def_global :: "cando_vm \<Rightarrow> vm_next option" where
  "op_def_global s = def_global False s"

definition op_def_const_global :: "cando_vm \<Rightarrow> vm_next option" where
  "op_def_const_global s = def_global True s"

section \<open>Upvalues\<close>

definition cur_upvalue :: "cando_vm \<Rightarrow> nat \<Rightarrow> (addr \<times> upvalue) option" where
  "cur_upvalue s i =
     do {
       f \<leftarrow> cur_frame s;
       cl \<leftarrow> m_closures s (fr_closure f);
       a \<leftarrow> aget (cl_upvalues cl) i;
       u \<leftarrow> m_upvals s a;
       Some (a, u)
     }"

definition upvalue_get :: "cando_vm \<Rightarrow> upvalue \<Rightarrow> cando_value option" where
  "upvalue_get s u = (case uv_slot u of Some i \<Rightarrow> aget (vm_stack s) i | None \<Rightarrow> Some (uv_closed u))"

definition upvalue_put :: "cando_vm \<Rightarrow> addr \<Rightarrow> upvalue \<Rightarrow> cando_value \<Rightarrow> cando_vm option" where
  "upvalue_put s a u v = (case uv_slot u of
     Some i \<Rightarrow> put_cell s i v
   | None \<Rightarrow> Some (s\<lparr>m_upvals := (m_upvals s)(a \<mapsto> u\<lparr>uv_closed := v\<rparr>)\<rparr>))"

definition op_load_upval :: "cando_vm \<Rightarrow> vm_next option" where
  "op_load_upval s =
     do {
       (i, s) \<leftarrow> read_u16 s;
       (_, u) \<leftarrow> cur_upvalue s i;
       v \<leftarrow> upvalue_get s u;
       s \<leftarrow> vm_copy s v;
       dispatch_push s v
     }"

definition op_store_upval :: "cando_vm \<Rightarrow> vm_next option" where
  "op_store_upval s =
     do {
       (i, s) \<leftarrow> read_u16 s;
       (a, u) \<leftarrow> cur_upvalue s i;
       old \<leftarrow> upvalue_get s u;
       s \<leftarrow> vm_release s old;
       v \<leftarrow> cando_vm_peek s 0;
       s \<leftarrow> vm_copy s v;
       map_option Dispatch (upvalue_put s a u v)
     }"

definition op_close_upval :: "cando_vm \<Rightarrow> vm_next option" where
  "op_close_upval s =
     do {
       (slot, s) \<leftarrow> read_u16 s;
       s \<leftarrow> sync_ip s;
       i \<leftarrow> local_slot s slot;
       map_option Dispatch (vm_close_upvalues s i)
     }"

section \<open>Meta-methods of operators\<close>

definition is_object :: "cando_value \<Rightarrow> bool" where
  "is_object v = (case v of VObject _ \<Rightarrow> True | _ \<Rightarrow> False)"

definition the_handle :: "cando_value \<Rightarrow> nat" where
  "the_handle v = (case v of VObject h \<Rightarrow> h | _ \<Rightarrow> 0)"

definition release2 :: "cando_vm \<Rightarrow> cando_value \<Rightarrow> cando_value \<Rightarrow> cando_vm option" where
  "release2 s a b = do { s \<leftarrow> vm_release s a; vm_release s b }"

text \<open>A binary meta-method is tried when an operand is an object; \<open>k\<close> is what follows when there is none.\<close>

definition try_binary_meta ::
  "vm_env \<Rightarrow> vm_runner \<Rightarrow> string \<Rightarrow> cando_vm \<Rightarrow> cando_value \<Rightarrow> cando_value \<Rightarrow> cando_value list \<Rightarrow>
   (cando_vm \<Rightarrow> vm_next option) \<Rightarrow> (cando_vm \<Rightarrow> vm_next option) \<Rightarrow> vm_next option" where
  "try_binary_meta env run name s a b args done_k k =
     (if meta_key s name \<noteq> 0 \<and> (is_object a \<or> is_object b) then do {
        (ok, s) \<leftarrow> cando_vm_call_meta env run s (the_handle (if is_object a then a else b)) (meta_key s name) args;
        if ok then done_k s
        else if vm_has_error s then map_option Handle_error (release2 s a b)
        else k s
      } else k s)"

definition meta_result :: "cando_value \<Rightarrow> cando_value \<Rightarrow> cando_vm \<Rightarrow> vm_next option" where
  "meta_result a b s = map_option Dispatch (release2 s a b)"

section \<open>Arithmetic\<close>

definition must_be_numbers :: "cando_value \<Rightarrow> cando_value \<Rightarrow> string" where
  "must_be_numbers a b =
     ''operands must be numbers (got '' @ cando_value_type_name a @ '' and '' @ cando_value_type_name b @ '')''"

definition op_add :: "vm_env \<Rightarrow> vm_runner \<Rightarrow> cando_vm \<Rightarrow> vm_next option" where
  "op_add env run s =
     do {
       b \<leftarrow> cando_vm_peek s 0;
       a \<leftarrow> cando_vm_peek s 1;
       (_, s) \<leftarrow> cando_vm_pop s;
       (_, s) \<leftarrow> cando_vm_pop s;
       case (a, b) of
         (VString x, VString y) \<Rightarrow>
           do {
             ca \<leftarrow> m_strings s x;
             cb \<leftarrow> m_strings s y;
             (v, s) \<leftarrow> vm_new_string s (st_data ca @ st_data cb);
             s \<leftarrow> release2 s a b;
             dispatch_push s v
           }
       | _ \<Rightarrow>
           try_binary_meta env run ''__add'' s a b [a, b] (meta_result a b) (\<lambda>s.
             case (a, b) of
               (VNumber x, VNumber y) \<Rightarrow> dispatch_push s (VNumber (f64_add x y))
             | _ \<Rightarrow> do { s \<leftarrow> release2 s a b; throw_error s (must_be_numbers a b) })
     }"

definition arith_op ::
  "string \<Rightarrow> (cando_value \<Rightarrow> cando_value \<Rightarrow> string) \<Rightarrow> (cando_vm \<Rightarrow> f64 \<Rightarrow> f64 \<Rightarrow> vm_next option) \<Rightarrow>
   vm_env \<Rightarrow> vm_runner \<Rightarrow> cando_vm \<Rightarrow> vm_next option" where
  "arith_op name msg f env run s =
     do {
       (b, s) \<leftarrow> cando_vm_pop s;
       (a, s) \<leftarrow> cando_vm_pop s;
       try_binary_meta env run name s a b [a, b] (meta_result a b) (\<lambda>s.
         case (a, b) of (VNumber x, VNumber y) \<Rightarrow> f s x y | _ \<Rightarrow> throw_error s (msg a b))
     }"

definition op_sub :: "vm_env \<Rightarrow> vm_runner \<Rightarrow> cando_vm \<Rightarrow> vm_next option" where
  "op_sub = arith_op ''__sub'' must_be_numbers (\<lambda>s x y. dispatch_push s (VNumber (f64_sub x y)))"

definition op_mul :: "vm_env \<Rightarrow> vm_runner \<Rightarrow> cando_vm \<Rightarrow> vm_next option" where
  "op_mul = arith_op ''__mul'' must_be_numbers (\<lambda>s x y. dispatch_push s (VNumber (f64_mul x y)))"

definition op_div :: "vm_env \<Rightarrow> vm_runner \<Rightarrow> cando_vm \<Rightarrow> vm_next option" where
  "op_div = arith_op ''__div'' (\<lambda>_ _. ''operands must be numbers'')
     (\<lambda>s x y. if f64_eq y f64_zero then throw_error s ''division by zero'' else dispatch_push s (VNumber (f64_div x y)))"

text \<open>\<open>fmod\<close> is exact.\<close>

definition f64_fmod :: "f64 \<Rightarrow> f64 \<Rightarrow> f64" where
  "f64_fmod a b =
     (if f64_is_nan a \<or> f64_is_nan b \<or> f64_is_inf a \<or> fst (f64_ratio b) = 0 then f64_nan
      else if f64_is_inf b then a
      else case (f64_ratio a, f64_ratio b) of
        ((na, da), (nb, db)) \<Rightarrow> f64_round (f64_sign a) (na * db mod (nb * da)) (da * db))"

definition op_mod :: "vm_env \<Rightarrow> vm_runner \<Rightarrow> cando_vm \<Rightarrow> vm_next option" where
  "op_mod = arith_op ''__mod'' (\<lambda>_ _. ''operands must be numbers'') (\<lambda>s x y. dispatch_push s (VNumber (f64_fmod x y)))"

definition op_pow :: "vm_env \<Rightarrow> vm_runner \<Rightarrow> cando_vm \<Rightarrow> vm_next option" where
  "op_pow env = arith_op ''__pow'' (\<lambda>_ _. ''operands must be numbers'')
     (\<lambda>s x y. dispatch_push s (VNumber (env_pow env x y))) env"

definition op_neg :: "vm_env \<Rightarrow> vm_runner \<Rightarrow> cando_vm \<Rightarrow> vm_next option" where
  "op_neg env run s =
     do {
       (a, s) \<leftarrow> cando_vm_pop s;
       let k = (\<lambda>s. case a of
           VNumber x \<Rightarrow> dispatch_push s (VNumber (f64_neg x))
         | _ \<Rightarrow> do { s \<leftarrow> vm_release s a; throw_error s (''unary '' @ in_quotes ''-'' @ '' requires a number'') });
       if is_object a \<and> meta_key s ''__unm'' \<noteq> 0 then do {
         (ok, s) \<leftarrow> cando_vm_call_meta env run s (the_handle a) (meta_key s ''__unm'') [a];
         if ok then map_option Dispatch (vm_release s a)
         else if vm_has_error s then map_option Handle_error (vm_release s a)
         else k s
       } else k s
     }"

definition op_pos :: "cando_vm \<Rightarrow> vm_next option" where
  "op_pos s =
     do {
       (a, s) \<leftarrow> cando_vm_pop s;
       case a of VNumber _ \<Rightarrow> dispatch_push s a | _ \<Rightarrow> throw_error s (''unary '' @ in_quotes ''+'' @ '' requires a number'')
     }"

definition step_top :: "(f64 \<Rightarrow> f64) \<Rightarrow> string \<Rightarrow> cando_vm \<Rightarrow> vm_next option" where
  "step_top f msg s =
     do {
       v \<leftarrow> cando_vm_peek s 0;
       case v of
         VNumber x \<Rightarrow> map_option Dispatch (put_cell s (length (vm_stack s) - 1) (VNumber (f x)))
       | _ \<Rightarrow> throw_error s msg
     }"

definition op_incr :: "cando_vm \<Rightarrow> vm_next option" where
  "op_incr = step_top (\<lambda>x. f64_add x (f64_of_nat 1)) (in_quotes ''++'' @ ''  requires a number'')"

definition op_decr :: "cando_vm \<Rightarrow> vm_next option" where
  "op_decr = step_top (\<lambda>x. f64_sub x (f64_of_nat 1)) (in_quotes ''--'' @ '' requires a number'')"

section \<open>Comparison\<close>

text \<open>The result of \<open>__eq\<close> stands as it is; \<open>!=\<close> negates it.\<close>

definition op_eq :: "vm_env \<Rightarrow> vm_runner \<Rightarrow> cando_vm \<Rightarrow> vm_next option" where
  "op_eq env run s =
     do {
       (b, s) \<leftarrow> cando_vm_pop s;
       (a, s) \<leftarrow> cando_vm_pop s;
       try_binary_meta env run ''__eq'' s a b [a, b] (meta_result a b) (\<lambda>s.
         do {
           (r, s) \<leftarrow> vm_value_equal s a b;
           s \<leftarrow> cando_vm_push s (VBool r);
           map_option Dispatch (release2 s a b)
         })
     }"

definition op_neq :: "vm_env \<Rightarrow> vm_runner \<Rightarrow> cando_vm \<Rightarrow> vm_next option" where
  "op_neq env run s =
     do {
       (b, s) \<leftarrow> cando_vm_pop s;
       (a, s) \<leftarrow> cando_vm_pop s;
       try_binary_meta env run ''__eq'' s a b [a, b]
         (\<lambda>s. do {
            (r, s) \<leftarrow> cando_vm_pop s;
            s \<leftarrow> cando_vm_push s (VBool (\<not> vm_is_truthy r));
            s \<leftarrow> vm_release s r;
            map_option Dispatch (release2 s a b)
          })
         (\<lambda>s. do {
            (r, s) \<leftarrow> vm_value_equal s a b;
            s \<leftarrow> cando_vm_push s (VBool (\<not> r));
            map_option Dispatch (release2 s a b)
          })
     }"

definition cmp_op :: "string \<Rightarrow> bool \<Rightarrow> (f64 \<Rightarrow> f64 \<Rightarrow> bool) \<Rightarrow> vm_env \<Rightarrow> vm_runner \<Rightarrow> cando_vm \<Rightarrow> vm_next option" where
  "cmp_op name swapped rel env run s =
     do {
       (b, s) \<leftarrow> cando_vm_pop s;
       (a, s) \<leftarrow> cando_vm_pop s;
       try_binary_meta env run name s a b (if swapped then [b, a] else [a, b]) (meta_result a b) (\<lambda>s.
         case (a, b) of
           (VNumber x, VNumber y) \<Rightarrow> dispatch_push s (VBool (rel x y))
         | _ \<Rightarrow> do { s \<leftarrow> release2 s a b; throw_error s ''comparison requires numbers'' })
     }"

definition op_lt :: "vm_env \<Rightarrow> vm_runner \<Rightarrow> cando_vm \<Rightarrow> vm_next option" where
  "op_lt = cmp_op ''__lt'' False f64_lt"

definition op_gt :: "vm_env \<Rightarrow> vm_runner \<Rightarrow> cando_vm \<Rightarrow> vm_next option" where
  "op_gt = cmp_op ''__lt'' True (\<lambda>x y. f64_lt y x)"

definition op_leq :: "vm_env \<Rightarrow> vm_runner \<Rightarrow> cando_vm \<Rightarrow> vm_next option" where
  "op_leq = cmp_op ''__le'' False f64_le"

definition op_geq :: "vm_env \<Rightarrow> vm_runner \<Rightarrow> cando_vm \<Rightarrow> vm_next option" where
  "op_geq = cmp_op ''__le'' True (\<lambda>x y. f64_le y x)"

end
