(* ===== verification/Vm_Multi.thy ===== *)
theory Vm_Multi
  imports Vm_Data
begin

text \<open>
  The instructions on several values at once and on multiple returns, the bitwise and the logical operators
  (\<open>vm_run\<close> in \<open>source/vm/vm.c\<close>, bands 6, 7, 8, 17, 18, 19).
\<close>

section \<open>Comparison with several right-hand sides\<close>

text \<open>The loops over the right-hand sides, from the lowest on; each stops at the first that decides.\<close>

fun all_equal :: "cando_value \<Rightarrow> cando_value list \<Rightarrow> cando_vm \<Rightarrow> (bool \<times> cando_vm) option" where
  "all_equal left [] s = Some (True, s)"
| "all_equal left (r # rs) s =
     do { (e, s) \<leftarrow> vm_value_equal s left r; if e then all_equal left rs s else Some (False, s) }"

fun any_equal :: "cando_value \<Rightarrow> cando_value list \<Rightarrow> cando_vm \<Rightarrow> (bool \<times> cando_vm) option" where
  "any_equal left [] s = Some (False, s)"
| "any_equal left (r # rs) s =
     do { (e, s) \<leftarrow> vm_value_equal s left r; if e then Some (True, s) else any_equal left rs s }"

definition number_rel :: "(f64 \<Rightarrow> f64 \<Rightarrow> bool) \<Rightarrow> cando_value \<Rightarrow> cando_value \<Rightarrow> bool" where
  "number_rel rel a b = (case (a, b) of (VNumber x, VNumber y) \<Rightarrow> rel x y | _ \<Rightarrow> False)"

text \<open>The values: the left one, then \<open>n\<close> right ones. All are popped and released, last first.\<close>

definition compare_n :: "(cando_value \<Rightarrow> cando_value list \<Rightarrow> cando_vm \<Rightarrow> (bool \<times> cando_vm) option) \<Rightarrow> nat \<Rightarrow> cando_vm \<Rightarrow> vm_next option" where
  "compare_n decide n s =
     do {
       check (n < length (vm_stack s));
       let base = length (vm_stack s) - n - 1;
       (r, s) \<leftarrow> decide (vm_stack s ! base) (drop (base + 1) (vm_stack s)) s;
       s \<leftarrow> pop_release_n n s;
       s \<leftarrow> pop_release s;
       dispatch_push s (VBool r)
     }"

definition none_equal :: "cando_value \<Rightarrow> cando_value list \<Rightarrow> cando_vm \<Rightarrow> (bool \<times> cando_vm) option" where
  "none_equal left rs s = map_option (\<lambda>(r, s). (\<not> r, s)) (any_equal left rs s)"

definition all_numbers :: "(f64 \<Rightarrow> f64 \<Rightarrow> bool) \<Rightarrow> cando_value \<Rightarrow> cando_value list \<Rightarrow> cando_vm \<Rightarrow> (bool \<times> cando_vm) option" where
  "all_numbers rel left rs s = Some (list_all (number_rel rel left) rs, s)"

definition stack_op :: "(cando_value \<Rightarrow> cando_value list \<Rightarrow> cando_vm \<Rightarrow> (bool \<times> cando_vm) option) \<Rightarrow> cando_vm \<Rightarrow> vm_next option" where
  "stack_op decide s = do { (n, s) \<leftarrow> read_u16 s; compare_n decide n s }"

definition op_eq_stack :: "cando_vm \<Rightarrow> vm_next option" where "op_eq_stack = stack_op all_equal"
definition op_neq_stack :: "cando_vm \<Rightarrow> vm_next option" where "op_neq_stack = stack_op none_equal"
definition op_lt_stack :: "cando_vm \<Rightarrow> vm_next option" where "op_lt_stack = stack_op (all_numbers f64_lt)"
definition op_gt_stack :: "cando_vm \<Rightarrow> vm_next option" where "op_gt_stack = stack_op (all_numbers (\<lambda>x y. f64_lt y x))"
definition op_leq_stack :: "cando_vm \<Rightarrow> vm_next option" where "op_leq_stack = stack_op (all_numbers f64_le)"
definition op_geq_stack :: "cando_vm \<Rightarrow> vm_next option" where "op_geq_stack = stack_op (all_numbers (\<lambda>x y. f64_le y x))"

text \<open>The same against all the values the last call returned; here equality asks for any.\<close>

definition spread_op :: "(cando_value \<Rightarrow> cando_value list \<Rightarrow> cando_vm \<Rightarrow> (bool \<times> cando_vm) option) \<Rightarrow> cando_vm \<Rightarrow> vm_next option" where
  "spread_op decide s =
     do { check (0 \<le> vm_last_ret_count s); compare_n decide (nat (vm_last_ret_count s)) s }"

definition op_eq_spread :: "cando_vm \<Rightarrow> vm_next option" where "op_eq_spread = spread_op any_equal"
definition op_neq_spread :: "cando_vm \<Rightarrow> vm_next option" where "op_neq_spread = spread_op none_equal"
definition op_lt_spread :: "cando_vm \<Rightarrow> vm_next option" where "op_lt_spread = spread_op (all_numbers f64_lt)"
definition op_gt_spread :: "cando_vm \<Rightarrow> vm_next option" where "op_gt_spread = spread_op (all_numbers (\<lambda>x y. f64_lt y x))"
definition op_leq_spread :: "cando_vm \<Rightarrow> vm_next option" where "op_leq_spread = spread_op (all_numbers f64_le)"
definition op_geq_spread :: "cando_vm \<Rightarrow> vm_next option" where "op_geq_spread = spread_op (all_numbers (\<lambda>x y. f64_le y x))"

definition op_range_check :: "cando_vm \<Rightarrow> vm_next option" where
  "op_range_check s =
     do {
       (flags, s) \<leftarrow> read_u16 s;
       let left_inc = (flags AND 1 \<noteq> 0);
       let right_inc = (flags AND 2 \<noteq> 0);
       (vmax, s) \<leftarrow> cando_vm_pop s;
       (vval, s) \<leftarrow> cando_vm_pop s;
       (vmin, s) \<leftarrow> cando_vm_pop s;
       case (vmin, vval, vmax) of
         (VNumber mn, VNumber v, VNumber mx) \<Rightarrow>
           dispatch_push s (VBool ((if left_inc then f64_le mn v else f64_lt mn v) \<and> (if right_inc then f64_le v mx else f64_lt v mx)))
       | _ \<Rightarrow> throw_error s ''range check requires numbers''
     }"

section \<open>Bitwise operators\<close>

text \<open>They read the number of the union without looking at the tag: on anything but a number what they read is not
  a value, a fault. A shift by less than 0 or more than 63 is undefined.\<close>

definition i64_word :: "f64 \<Rightarrow> 64 word" where
  "i64_word x = word_of_int (i64_of_f64 x)"

definition f64_of_i64 :: "64 word \<Rightarrow> f64" where
  "f64_of_i64 w = f64_of_int (sint w)"

definition bit_op :: "(64 word \<Rightarrow> 64 word \<Rightarrow> 64 word option) \<Rightarrow> cando_vm \<Rightarrow> vm_next option" where
  "bit_op f s =
     do {
       (b, s) \<leftarrow> cando_vm_pop s;
       (a, s) \<leftarrow> cando_vm_pop s;
       case (a, b) of
         (VNumber x, VNumber y) \<Rightarrow> do { r \<leftarrow> f (i64_word x) (i64_word y); dispatch_push s (VNumber (f64_of_i64 r)) }
       | _ \<Rightarrow> None
     }"

definition op_bit_and :: "cando_vm \<Rightarrow> vm_next option" where "op_bit_and = bit_op (\<lambda>x y. Some (and x y))"
definition op_bit_or :: "cando_vm \<Rightarrow> vm_next option" where "op_bit_or = bit_op (\<lambda>x y. Some (or x y))"
definition op_bit_xor :: "cando_vm \<Rightarrow> vm_next option" where "op_bit_xor = bit_op (\<lambda>x y. Some (xor x y))"

definition op_bit_not :: "cando_vm \<Rightarrow> vm_next option" where
  "op_bit_not s =
     do {
       (a, s) \<leftarrow> cando_vm_pop s;
       case a of VNumber x \<Rightarrow> dispatch_push s (VNumber (f64_of_i64 (not (i64_word x)))) | _ \<Rightarrow> None
     }"

definition shift_count :: "64 word \<Rightarrow> nat option" where
  "shift_count w = (if unat w < 64 then Some (unat w) else None)"

definition op_lshift :: "cando_vm \<Rightarrow> vm_next option" where
  "op_lshift = bit_op (\<lambda>x y. map_option (\<lambda>n. push_bit n x) (shift_count y))"

definition op_rshift :: "cando_vm \<Rightarrow> vm_next option" where
  "op_rshift = bit_op (\<lambda>x y. map_option (\<lambda>n. signed_drop_bit n x) (shift_count y))"

section \<open>Logical operators\<close>

definition op_not :: "cando_vm \<Rightarrow> vm_next option" where
  "op_not s =
     do {
       (a, s) \<leftarrow> cando_vm_pop s;
       s \<leftarrow> cando_vm_push s (VBool (\<not> vm_is_truthy a));
       map_option Dispatch (vm_release s a)
     }"

text \<open>The jumps that look at the top without popping it.\<close>

definition peek_jump :: "bool \<Rightarrow> cando_vm \<Rightarrow> vm_next option" where
  "peek_jump on s =
     do {
       (off, s) \<leftarrow> read_i16 s;
       v \<leftarrow> cando_vm_peek s 0;
       if vm_is_truthy v = on then map_option Dispatch (jump_by s off) else Some (Dispatch s)
     }"

definition op_and_jump :: "cando_vm \<Rightarrow> vm_next option" where "op_and_jump = peek_jump False"
definition op_or_jump :: "cando_vm \<Rightarrow> vm_next option" where "op_or_jump = peek_jump True"

section \<open>Masks and multiple returns\<close>

definition op_mask_pass :: "cando_vm \<Rightarrow> vm_next option" where "op_mask_pass s = Some (Dispatch s)"
definition op_mask_skip :: "cando_vm \<Rightarrow> vm_next option" where "op_mask_skip s = map_option Dispatch (pop_release s)"

text \<open>The loop over the returned values: a value whose mask bit is set is kept, in order, the others are released.\<close>

definition mask_keeps :: "nat \<Rightarrow> nat \<Rightarrow> nat \<Rightarrow> bool" where
  "mask_keeps n_bits bitmask i \<longleftrightarrow> i < n_bits \<and> and (drop_bit i bitmask) 1 \<noteq> 0"

fun mask_loop :: "nat \<Rightarrow> nat \<Rightarrow> nat \<Rightarrow> cando_value list \<Rightarrow> cando_value list \<Rightarrow> cando_vm \<Rightarrow> (cando_value list \<times> cando_vm) option" where
  "mask_loop n_bits bitmask i [] kept s = Some (kept, s)"
| "mask_loop n_bits bitmask i (v # vs) kept s =
     (if mask_keeps n_bits bitmask i then mask_loop n_bits bitmask (i + 1) vs (kept @ [v]) s
      else do { s \<leftarrow> vm_release s v; mask_loop n_bits bitmask (i + 1) vs kept s })"

definition op_mask_apply :: "cando_vm \<Rightarrow> vm_next option" where
  "op_mask_apply s =
     do {
       (n_bits, s) \<leftarrow> read_u16 s;
       (bitmask, s) \<leftarrow> read_u16 s;
       check (0 \<le> vm_last_ret_count s);
       let count = nat (vm_last_ret_count s);
       check (count \<le> length (vm_stack s));
       let base = length (vm_stack s) - count;
       (kept, s) \<leftarrow> mask_loop n_bits bitmask 0 (drop base (vm_stack s)) [] s;
       Some (Dispatch (s\<lparr>vm_stack := take base (vm_stack s) @ kept, vm_last_ret_count := int (length kept)\<rparr>))
     }"

definition op_spread_ret :: "cando_vm \<Rightarrow> vm_next option" where
  "op_spread_ret s = Some (Dispatch (s\<lparr>vm_spread_extra := vm_spread_extra s + vm_last_ret_count s - 1\<rparr>))"

definition op_array_spread :: "cando_vm \<Rightarrow> vm_next option" where
  "op_array_spread s = Some (Dispatch (s\<lparr>vm_array_extra := vm_array_extra s + vm_last_ret_count s - 1\<rparr>))"

definition op_truncate_ret :: "cando_vm \<Rightarrow> vm_next option" where
  "op_truncate_ret s =
     do { s \<leftarrow> pop_release_n (nat (vm_last_ret_count s - 1)) s; Some (Dispatch (s\<lparr>vm_last_ret_count := 1\<rparr>)) }"

end
