(* ===== verification/Vm_Control.thy ===== *)
theory Vm_Control
  imports Vm_Multi
begin

text \<open>
  Control flow and errors (\<open>vm_run\<close> in \<open>source/vm/vm.c\<close>, bands 10, 12, 14, 15 and the label \<open>handle_error\<close>): jumps, the
  loop stack with break and continue, handlers, throwing and unwinding.
\<close>

section \<open>Jumps\<close>

definition op_jump :: "cando_vm \<Rightarrow> vm_next option" where
  "op_jump s = do { (off, s) \<leftarrow> read_i16 s; map_option Dispatch (jump_by s off) }"

definition op_jump_if_false :: "cando_vm \<Rightarrow> vm_next option" where "op_jump_if_false = peek_jump False"
definition op_jump_if_true :: "cando_vm \<Rightarrow> vm_next option" where "op_jump_if_true = peek_jump True"

definition op_loop :: "cando_vm \<Rightarrow> vm_next option" where
  "op_loop s = do { (back, s) \<leftarrow> read_u16 s; map_option Dispatch (jump_by s (- int back)) }"

section \<open>Loops\<close>

text \<open>Writing the next free cell of an array that has been filled from the start.\<close>

definition put_next :: "'a list \<Rightarrow> nat \<Rightarrow> 'a \<Rightarrow> 'a list option" where
  "put_next xs i x = (if i < length xs then Some (xs[i := x]) else if i = length xs then Some (xs @ [x]) else None)"

definition op_loop_mark :: "cando_vm \<Rightarrow> vm_next option" where
  "op_loop_mark s =
     do {
       (break_fwd, s) \<leftarrow> read_u16 s;
       (b_packed, s) \<leftarrow> read_u16 s;
       let cont_back = and b_packed 0x3FFF;
       let loop_type = and (drop_bit 14 b_packed) 3;
       check (vm_loop_depth s < LOOP_MAX);
       cont \<leftarrow> jump_target (vm_ip s) (- int cont_back);
       loops \<leftarrow> put_next (vm_loops s) (vm_loop_depth s)
         \<lparr>lf_break_ip = vm_ip s + break_fwd, lf_cont_ip = cont, lf_stack_save = length (vm_stack s), lf_type = loop_type\<rparr>;
       Some (Dispatch (s\<lparr>vm_loops := loops, vm_loop_depth := vm_loop_depth s + 1\<rparr>))
     }"

definition op_loop_end :: "cando_vm \<Rightarrow> vm_next option" where
  "op_loop_end s = Some (Dispatch (if 0 < vm_loop_depth s then s\<lparr>vm_loop_depth := vm_loop_depth s - 1\<rparr> else s))"

definition outside_loop :: "string \<Rightarrow> nat \<Rightarrow> nat \<Rightarrow> string" where
  "outside_loop what depth loop_depth =
     what @ '' outside loop (depth '' @ decimal depth @ '', loop_depth '' @ decimal loop_depth @ '')''"

text \<open>What a \<open>BREAK\<close> takes off the stack for the loop itself. Of a \<open>FOR\<close> loop it reads the top cell as the number of
  values, then pops that cell, the one below, and so many more.\<close>

definition break_loop_state :: "nat \<Rightarrow> cando_vm \<Rightarrow> cando_vm option" where
  "break_loop_state loop_type s =
     (if loop_type = LOOP_FOR_OVER then pop_release_n 4 s
      else if loop_type = LOOP_FOR then do {
        top \<leftarrow> cando_vm_peek s 0;
        case top of
          VNumber count \<Rightarrow> do { s \<leftarrow> pop_release_n 2 s; pop_release_n (nat (i64_of_f64 count)) s }
        | _ \<Rightarrow> None
      }
      else Some s)"

definition op_break :: "cando_vm \<Rightarrow> vm_next option" where
  "op_break s =
     do {
       (depth, s) \<leftarrow> read_u16 s;
       if vm_loop_depth s = 0 \<or> depth \<ge> vm_loop_depth s then throw_error s (outside_loop ''BREAK'' depth (vm_loop_depth s))
       else do {
         let idx = vm_loop_depth s - 1 - depth;
         lf \<leftarrow> aget (vm_loops s) idx;
         s \<leftarrow> pop_down_to (lf_stack_save lf) s;
         s \<leftarrow> break_loop_state (lf_type lf) s;
         Some (Dispatch (s\<lparr>vm_spread_extra := 0, vm_ip := lf_break_ip lf, vm_loop_depth := idx\<rparr>))
       }
     }"

definition op_continue :: "cando_vm \<Rightarrow> vm_next option" where
  "op_continue s =
     do {
       (depth, s) \<leftarrow> read_u16 s;
       if vm_loop_depth s = 0 \<or> depth \<ge> vm_loop_depth s then throw_error s (outside_loop ''CONTINUE'' depth (vm_loop_depth s))
       else do {
         let idx = vm_loop_depth s - 1 - depth;
         lf \<leftarrow> aget (vm_loops s) idx;
         Some (Dispatch (s\<lparr>vm_ip := lf_cont_ip lf, vm_loop_depth := idx\<rparr>))
       }
     }"

section \<open>What is not implemented\<close>

definition op_tail_call :: "cando_vm \<Rightarrow> vm_next option" where
  "op_tail_call s = do { (_, s) \<leftarrow> read_u16 s; throw_error s ''tail call not yet implemented'' }"

definition op_load_vararg :: "cando_vm \<Rightarrow> vm_next option" where
  "op_load_vararg s = do { (_, s) \<leftarrow> read_u16 s; dispatch_push s VNull }"

definition op_vararg_len :: "cando_vm \<Rightarrow> vm_next option" where
  "op_vararg_len s = dispatch_push s (VNumber f64_zero)"

definition op_async :: "cando_vm \<Rightarrow> vm_next option" where
  "op_async s = throw_error s (''ASYNC not implemented (use '' @ in_quotes ''thread'' @ '' instead)'')"

definition op_yield :: "cando_vm \<Rightarrow> vm_next option" where
  "op_yield s = throw_error s (''YIELD not implemented (use '' @ in_quotes ''thread'' @ '' instead)'')"

section \<open>Handlers\<close>

definition op_try_begin :: "cando_vm \<Rightarrow> vm_next option" where
  "op_try_begin s =
     do {
       (off, s) \<leftarrow> read_i16 s;
       check (length (vm_tries s) < TRY_MAX);
       catch_ip \<leftarrow> jump_target (vm_ip s) off;
       Some (Dispatch (s\<lparr>vm_tries := \<lparr>tf_catch_ip = Some catch_ip, tf_finally_ip = None, tf_stack_save = length (vm_stack s),
                                   tf_frame_save = length (vm_frames s), tf_loop_save = vm_loop_depth s\<rparr> # vm_tries s\<rparr>))
     }"

definition op_try_end :: "cando_vm \<Rightarrow> vm_next option" where
  "op_try_end s = Some (Dispatch (s\<lparr>vm_tries := tl (vm_tries s)\<rparr>))"

definition clear_error_vals :: "cando_vm \<Rightarrow> cando_vm option" where
  "clear_error_vals s =
     do {
       s \<leftarrow> mfold vm_release (vm_error_vals s) s;
       Some (s\<lparr>vm_error_vals := replicate MAX_THROW_ARGS VNull\<rparr>)
     }"

text \<open>The error values from the last to the first, missing ones as nulls.\<close>

fun push_error_vals :: "nat \<Rightarrow> cando_vm \<Rightarrow> cando_vm option" where
  "push_error_vals 0 s = Some s"
| "push_error_vals (Suc i) s =
     (if i < vm_error_count s then do {
        v \<leftarrow> aget (vm_error_vals s) i;
        s \<leftarrow> vm_copy s v;
        s \<leftarrow> cando_vm_push s v;
        push_error_vals i s
      } else do { s \<leftarrow> cando_vm_push s VNull; push_error_vals i s })"

definition op_catch_begin :: "cando_vm \<Rightarrow> vm_next option" where
  "op_catch_begin s =
     do {
       (n, s) \<leftarrow> read_u16 s;
       s \<leftarrow> push_error_vals n s;
       s \<leftarrow> clear_error_vals s;
       Some (Dispatch (s\<lparr>vm_error_count := 0\<rparr>))
     }"

definition op_finally_begin :: "cando_vm \<Rightarrow> vm_next option" where
  "op_finally_begin s =
     do {
       (off, s) \<leftarrow> read_i16 s;
       case vm_tries s of
         [] \<Rightarrow> Some (Dispatch s)
       | tf # tfs \<Rightarrow> do { ip \<leftarrow> jump_target (vm_ip s) off; Some (Dispatch (s\<lparr>vm_tries := tf\<lparr>tf_finally_ip := Some ip\<rparr> # tfs\<rparr>)) }
     }"

text \<open>Filling the error values from the last; the array has 32 cells.\<close>

fun pop_error_vals :: "nat \<Rightarrow> cando_vm \<Rightarrow> cando_vm option" where
  "pop_error_vals 0 s = Some s"
| "pop_error_vals (Suc i) s =
     do {
       (v, s) \<leftarrow> cando_vm_pop s;
       evs \<leftarrow> aput (vm_error_vals s) i v;
       pop_error_vals i (s\<lparr>vm_error_vals := evs\<rparr>)
     }"

definition op_throw :: "cando_vm \<Rightarrow> vm_next option" where
  "op_throw s =
     do {
       (count, s) \<leftarrow> read_u16 s;
       let count = (if count = 0 then 1 else count);
       s \<leftarrow> clear_error_vals s;
       s \<leftarrow> pop_error_vals count (s\<lparr>vm_error_count := count\<rparr>);
       v0 \<leftarrow> aget (vm_error_vals s) 0;
       txt \<leftarrow> cando_value_tostring (m_strings s) v0;
       Some (Handle_error (s\<lparr>vm_has_error := True, vm_error_msg := take 511 txt\<rparr>))
     }"

definition op_reraise :: "cando_vm \<Rightarrow> vm_next option" where
  "op_reraise s = (if vm_has_error s then Some (Handle_error s) else throw_error s ''RERAISE outside of catch block'')"

section \<open>Unwinding\<close>

fun unwind_frames :: "nat \<Rightarrow> nat \<Rightarrow> cando_vm \<Rightarrow> cando_vm option" where
  "unwind_frames 0 save s = (if length (vm_frames s) > save then None else Some s)"
| "unwind_frames (Suc n) save s =
     (if length (vm_frames s) > save then do {
        s \<leftarrow> vm_close_upvalues s (fr_slots (last (vm_frames s)));
        unwind_frames n save (s\<lparr>vm_frames := butlast (vm_frames s)\<rparr>)
      } else Some s)"

text \<open>The walk over the handlers from the innermost.\<close>

fun unwind_tries :: "try_frame list \<Rightarrow> cando_vm \<Rightarrow> vm_next option" where
  "unwind_tries [] s = Some (Leave VM_RUNTIME_ERR s)"
| "unwind_tries (tf # tfs) s =
     do {
       s \<leftarrow> unwind_frames (length (vm_frames s)) (tf_frame_save tf) s;
       s \<leftarrow> pop_down_to (tf_stack_save tf) s;
       let s = s\<lparr>vm_loop_depth := tf_loop_save tf, vm_tries := tfs\<rparr>;
       case tf_catch_ip tf of
         Some ip \<Rightarrow> do { s \<leftarrow> load_frame (s\<lparr>vm_has_error := False\<rparr>); Some (Dispatch (s\<lparr>vm_ip := ip\<rparr>)) }
       | None \<Rightarrow>
           (case tf_finally_ip tf of
              Some ip \<Rightarrow> do { s \<leftarrow> load_frame s; Some (Dispatch (s\<lparr>vm_ip := ip\<rparr>)) }
            | None \<Rightarrow> unwind_tries tfs s)
     }"

definition vm_handle_error :: "cando_vm \<Rightarrow> vm_next option" where
  "vm_handle_error s = unwind_tries (vm_tries s) s"

end
