(* ===== verification/Vm_Objects.thy ===== *)
theory Vm_Objects
  imports Vm_Control
begin

text \<open>
  The instructions on objects and arrays (\<open>vm_run\<close> in \<open>source/vm/vm.c\<close>, bands 9, 12, 13 and 16): construction, fields,
  indices, iteration, pipes and classes.
\<close>

section \<open>Access through handles\<close>

definition object_at :: "cando_vm \<Rightarrow> nat \<Rightarrow> (addr \<times> cdo_object) option" where
  "object_at s h = do { a \<leftarrow> cando_bridge_resolve s h; obj \<leftarrow> m_objs s a; Some (a, obj) }"

definition put_object :: "cando_vm \<Rightarrow> addr \<Rightarrow> cdo_heap \<Rightarrow> cdo_object \<Rightarrow> cando_vm" where
  "put_object s a H obj = s\<lparr>m_cdo := H, m_objs := (m_objs s)(a \<mapsto> obj)\<rparr>"

definition array_push_at :: "cando_vm \<Rightarrow> addr \<Rightarrow> cdo_value \<Rightarrow> cando_vm option" where
  "array_push_at s a v =
     do {
       arr \<leftarrow> m_objs s a;
       (H, arr, _) \<leftarrow> cdo_array_push (m_cdo s) arr v;
       Some (put_object s a H arr)
     }"

definition rawset_at :: "cando_vm \<Rightarrow> addr \<Rightarrow> addr \<Rightarrow> cdo_value \<Rightarrow> nat \<Rightarrow> cando_vm option" where
  "rawset_at s a key v flags =
     do {
       obj \<leftarrow> m_objs s a;
       (H, obj, _) \<leftarrow> cdo_object_rawset (m_cdo s) obj key v flags;
       Some (put_object s a H obj)
     }"

definition release_key :: "cando_vm \<Rightarrow> addr \<Rightarrow> cando_vm option" where
  "release_key s key = map_option (\<lambda>H. s\<lparr>m_cdo := H\<rparr>) (cdo_string_release (m_cdo s) key)"

text \<open>Pushing what a lookup found, or null.\<close>

definition push_found :: "cando_vm \<Rightarrow> cdo_value option \<Rightarrow> cando_vm option" where
  "push_found s r = (case r of
     Some v \<Rightarrow> do { (v, s) \<leftarrow> cando_bridge_to_cando s v; cando_vm_push s v }
   | None \<Rightarrow> cando_vm_push s VNull)"

section \<open>Construction\<close>

definition op_new_object :: "cando_vm \<Rightarrow> vm_next option" where
  "op_new_object s = do { (v, s) \<leftarrow> cando_bridge_new_object s; dispatch_push s v }"

fun array_of_values :: "addr \<Rightarrow> cando_value list \<Rightarrow> cando_vm \<Rightarrow> cando_vm option" where
  "array_of_values a [] s = Some s"
| "array_of_values a (v # vs) s =
     do {
       (c, s) \<leftarrow> cando_bridge_to_cdo s v;
       s \<leftarrow> array_push_at s a c;
       s \<leftarrow> vm_release s v;
       array_of_values a vs s
     }"

definition op_new_array :: "cando_vm \<Rightarrow> vm_next option" where
  "op_new_array s =
     do {
       (static_n, s) \<leftarrow> read_u16 s;
       let n = nat (int static_n + vm_array_extra s);
       (arr_val, s) \<leftarrow> cando_bridge_new_array (s\<lparr>vm_array_extra := 0\<rparr>);
       s \<leftarrow> (if n = 0 then Some s
            else do {
              check (n \<le> length (vm_stack s));
              a \<leftarrow> cando_bridge_resolve s (the_handle arr_val);
              let base = length (vm_stack s) - n;
              s \<leftarrow> array_of_values a (drop base (vm_stack s)) s;
              Some (s\<lparr>vm_stack := take base (vm_stack s)\<rparr>)
            });
       dispatch_push s arr_val
     }"

section \<open>Fields and indices\<close>

text \<open>A field of a string is looked up in the prototype of strings.\<close>

definition string_field :: "cando_vm \<Rightarrow> nat \<Rightarrow> cando_vm option" where
  "string_field s ci = (case vm_string_proto s of
     VObject p \<Rightarrow>
       do {
         proto \<leftarrow> cando_bridge_resolve s p;
         ks \<leftarrow> const_string s ci;
         (key, s) \<leftarrow> cando_bridge_intern_key s ks;
         r \<leftarrow> object_get s proto key;
         s \<leftarrow> push_found s r;
         release_key s key
       }
   | _ \<Rightarrow> cando_vm_push s VNull)"

definition op_get_field :: "cando_vm \<Rightarrow> vm_next option" where
  "op_get_field s =
     do {
       (ci, s) \<leftarrow> read_u16 s;
       (obj_val, s) \<leftarrow> cando_vm_pop s;
       case obj_val of
         VString _ \<Rightarrow>
           do { s \<leftarrow> string_field s ci; map_option Dispatch (vm_release s obj_val) }
       | VObject h \<Rightarrow>
           do {
             (obj, _) \<leftarrow> object_at s h;
             ks \<leftarrow> const_string s ci;
             (key, s) \<leftarrow> cando_bridge_intern_key s ks;
             r \<leftarrow> object_get s obj key;
             s \<leftarrow> push_found s r;
             map_option Dispatch (release_key s key)
           }
       | _ \<Rightarrow> do { s \<leftarrow> vm_release s obj_val;
                 throw_error s (''field access on non-object (got '' @ cando_value_type_name obj_val @ '')'') }
     }"

text \<open>\<open>__newindex\<close> is tried for a key the object itself does not have; \<open>None\<close> in the first place: go on and store.\<close>

definition try_newindex ::
  "vm_env \<Rightarrow> vm_runner \<Rightarrow> cando_vm \<Rightarrow> nat \<Rightarrow> addr \<Rightarrow> cando_value \<Rightarrow> cando_value \<Rightarrow> (bool option \<times> cando_vm) option" where
  "try_newindex env run s h key key_val val =
     do {
       (_, obj) \<leftarrow> object_at s h;
       existing \<leftarrow> cdo_object_rawget obj key;
       if existing = None \<and> meta_key s ''__newindex'' \<noteq> 0 then do {
         (ok, s) \<leftarrow> cando_vm_call_meta env run s h (meta_key s ''__newindex'') [VObject h, key_val, val];
         Some (if ok then Some True else if vm_has_error s then Some False else None, s)
       } else Some (None, s)
     }"

definition op_set_field :: "vm_env \<Rightarrow> vm_runner \<Rightarrow> cando_vm \<Rightarrow> vm_next option" where
  "op_set_field env run s =
     do {
       (ci, s) \<leftarrow> read_u16 s;
       (val, s) \<leftarrow> cando_vm_pop s;
       obj_val \<leftarrow> cando_vm_peek s 0;
       case obj_val of
         VObject h \<Rightarrow>
           do {
             (obj, o0) \<leftarrow> object_at s h;
             ks \<leftarrow> const_string s ci;
             (key, s) \<leftarrow> cando_bridge_intern_key s ks;
             existing \<leftarrow> cdo_object_rawget o0 key;
             (meta, s) \<leftarrow>
               (if existing = None \<and> meta_key s ''__newindex'' \<noteq> 0 then do {
                  k \<leftarrow> m_cdo s key;
                  (key_cv, s) \<leftarrow> vm_new_string s (st_data k);
                  (r, s) \<leftarrow> try_newindex env run s h key key_cv val;
                  if r = Some True then do {
                    s \<leftarrow> release_key s key; s \<leftarrow> vm_release s key_cv; s \<leftarrow> vm_release s val; Some (r, s)
                  } else do {
                    s \<leftarrow> vm_release s key_cv;
                    if r = Some False then do { s \<leftarrow> release_key s key; s \<leftarrow> vm_release s val; Some (r, s) }
                    else Some (r, s)
                  }
                } else Some (None, s));
             case meta of
               Some True \<Rightarrow> Some (Dispatch s)
             | Some False \<Rightarrow> Some (Handle_error s)
             | None \<Rightarrow>
                 do {
                   (cv, s) \<leftarrow> cando_bridge_to_cdo s val;
                   s \<leftarrow> rawset_at s obj key cv 0;
                   s \<leftarrow> release_key s key;
                   map_option Dispatch (vm_release s val)
                 }
           }
       | _ \<Rightarrow> do { s \<leftarrow> vm_release s val; throw_error s ''field assignment on non-object'' }
     }"

definition op_get_index :: "cando_vm \<Rightarrow> vm_next option" where
  "op_get_index s =
     do {
       (idx_val, s) \<leftarrow> cando_vm_pop s;
       (obj_val, s) \<leftarrow> cando_vm_pop s;
       case obj_val of
         VObject h \<Rightarrow>
           do {
             (_, obj) \<leftarrow> object_at s h;
             case idx_val of
               VNumber n \<Rightarrow>
                 do { r \<leftarrow> cdo_array_rawget_idx obj (u32_of_f64 n); map_option Dispatch (push_found s r) }
             | VString ks \<Rightarrow>
                 do {
                   (key, s) \<leftarrow> cando_bridge_intern_key s ks;
                   r \<leftarrow> cdo_object_rawget obj key;
                   s \<leftarrow> push_found s r;
                   s \<leftarrow> release_key s key;
                   map_option Dispatch (vm_release s idx_val)
                 }
             | _ \<Rightarrow> do { s \<leftarrow> release2 s idx_val obj_val; throw_error s ''index must be a number or string'' }
           }
       | _ \<Rightarrow> do { s \<leftarrow> release2 s idx_val obj_val; throw_error s ''index access on non-object'' }
     }"

definition op_set_index :: "vm_env \<Rightarrow> vm_runner \<Rightarrow> cando_vm \<Rightarrow> vm_next option" where
  "op_set_index env run s =
     do {
       (val, s) \<leftarrow> cando_vm_pop s;
       (idx_val, s) \<leftarrow> cando_vm_pop s;
       obj_val \<leftarrow> cando_vm_peek s 0;
       case obj_val of
         VObject h \<Rightarrow>
           do {
             (obj, _) \<leftarrow> object_at s h;
             (cv, s) \<leftarrow> cando_bridge_to_cdo s val;
             case idx_val of
               VNumber n \<Rightarrow>
                 do {
                   arr \<leftarrow> m_objs s obj;
                   (H, arr, _) \<leftarrow> cdo_array_rawset_idx (m_cdo s) arr (u32_of_f64 n) cv;
                   map_option Dispatch (release2 (put_object s obj H arr) val idx_val)
                 }
             | VString ks \<Rightarrow>
                 do {
                   (key, s) \<leftarrow> cando_bridge_intern_key s ks;
                   (meta, s) \<leftarrow> try_newindex env run s h key idx_val val;
                   case meta of
                     Some ok \<Rightarrow>
                       do {
                         s \<leftarrow> release_key s key;
                         map_option (if ok then Dispatch else Handle_error) (release2 s val idx_val)
                       }
                   | None \<Rightarrow>
                       do {
                         s \<leftarrow> rawset_at s obj key cv 0;
                         s \<leftarrow> release_key s key;
                         map_option Dispatch (release2 s val idx_val)
                       }
                 }
             | _ \<Rightarrow> do { s \<leftarrow> release2 s val idx_val; throw_error s ''index must be a number or string'' }
           }
       | _ \<Rightarrow> do { s \<leftarrow> release2 s val idx_val; throw_error s ''index assignment on non-object'' }
     }"

definition op_len :: "vm_env \<Rightarrow> vm_runner \<Rightarrow> cando_vm \<Rightarrow> vm_next option" where
  "op_len env run s =
     do {
       (a, s) \<leftarrow> cando_vm_pop s;
       case a of
         VString x \<Rightarrow>
           do { c \<leftarrow> m_strings s x; s \<leftarrow> vm_release s a; dispatch_push s (VNumber (f64_of_nat (length (st_data c)))) }
       | VObject h \<Rightarrow>
           do {
             (meta, s) \<leftarrow>
               (if meta_key s ''__len'' \<noteq> 0 then do {
                  (ok, s) \<leftarrow> cando_vm_call_meta env run s h (meta_key s ''__len'') [a];
                  Some (if ok then Some True else if vm_has_error s then Some False else None, s)
                } else Some (None, s));
             case meta of
               Some True \<Rightarrow> Some (Dispatch s)
             | Some False \<Rightarrow> Some (Handle_error s)
             | None \<Rightarrow> do { (_, obj) \<leftarrow> object_at s h; dispatch_push s (VNumber (f64_of_nat (cdo_object_length obj))) }
           }
       | _ \<Rightarrow> do { s \<leftarrow> vm_release s a; throw_error s ''# operator requires a string or object'' }
     }"

text \<open>The walk along the insertion order of an object; the slots bound its length.\<close>

fun slots_in_order :: "obj_slot list \<Rightarrow> nat \<Rightarrow> nat \<Rightarrow> obj_slot list option" where
  "slots_in_order ss 0 i = (if i = u32_max then Some [] else None)"
| "slots_in_order ss (Suc n) i =
     (if i = u32_max then Some []
      else do { sl \<leftarrow> aget ss i; rest \<leftarrow> slots_in_order ss n (os_next sl); Some (sl # rest) })"

definition object_slots :: "cdo_object \<Rightarrow> obj_slot list option" where
  "object_slots obj = slots_in_order (ob_slots obj) (slot_cap obj) (ob_head obj)"

definition collect_array :: "(obj_slot \<Rightarrow> cdo_value) \<Rightarrow> string \<Rightarrow> cando_vm \<Rightarrow> vm_next option" where
  "collect_array f msg s =
     do {
       (obj_val, s) \<leftarrow> cando_vm_pop s;
       case obj_val of
         VObject h \<Rightarrow>
           do {
             (_, obj) \<leftarrow> object_at s h;
             (arr_val, s) \<leftarrow> cando_bridge_new_array s;
             a \<leftarrow> cando_bridge_resolve s (the_handle arr_val);
             slots \<leftarrow> object_slots obj;
             s \<leftarrow> mfold (\<lambda>s sl. do { s \<leftarrow> cdo_copy s (f sl); array_push_at s a (f sl) }) slots s;
             dispatch_push s arr_val
           }
       | _ \<Rightarrow> do { s \<leftarrow> vm_release s obj_val; throw_error s msg }
     }"

definition op_keys_of :: "cando_vm \<Rightarrow> vm_next option" where
  "op_keys_of = collect_array (\<lambda>sl. CString (os_key sl)) ''IN operator requires an object''"

definition op_vals_of :: "cando_vm \<Rightarrow> vm_next option" where
  "op_vals_of = collect_array os_value ''OF operator requires an object''"

section \<open>Iteration\<close>

text \<open>Pushing the elements of an array, and the counters of a loop.\<close>

fun push_cells :: "cdo_value list \<Rightarrow> cando_vm \<Rightarrow> cando_vm option" where
  "push_cells [] s = Some s"
| "push_cells (c # cs) s = do { (v, s) \<leftarrow> cando_bridge_to_cando s c; s \<leftarrow> cando_vm_push s v; push_cells cs s }"

definition array_cells :: "cdo_object \<Rightarrow> cdo_value list option" where
  "array_cells arr =
     do { n \<leftarrow> cdo_array_len arr;
          mfold (\<lambda>acc i. do { r \<leftarrow> cdo_array_rawget_idx arr i; Some (acc @ [case r of Some v \<Rightarrow> v | None \<Rightarrow> CNull]) }) [0..<n] [] }"

definition push_counters :: "nat \<Rightarrow> cando_vm \<Rightarrow> cando_vm option" where
  "push_counters n s = do { s \<leftarrow> cando_vm_push s (VNumber (f64_of_nat n)); cando_vm_push s (VNumber f64_zero) }"

definition op_unpack :: "cando_vm \<Rightarrow> vm_next option" where
  "op_unpack s =
     do {
       (v, s) \<leftarrow> cando_vm_pop s;
       let single = do { s \<leftarrow> cando_vm_push s v; Some (Dispatch (s\<lparr>vm_last_ret_count := 1\<rparr>)) };
       case v of
         VObject h \<Rightarrow>
           do {
             (_, obj) \<leftarrow> object_at s h;
             if ob_kind obj = OBJ_ARRAY then do {
               cells \<leftarrow> array_cells obj;
               s \<leftarrow> push_cells cells s;
               Some (Dispatch (s\<lparr>vm_last_ret_count := int (length cells)\<rparr>))
             } else single
           }
       | _ \<Rightarrow> single
     }"

definition range_op :: "(int \<Rightarrow> int \<Rightarrow> int list) \<Rightarrow> cando_vm \<Rightarrow> vm_next option" where
  "range_op f s =
     do {
       (b, s) \<leftarrow> cando_vm_pop s;
       (a, s) \<leftarrow> cando_vm_pop s;
       case (a, b) of
         (VNumber x, VNumber y) \<Rightarrow>
           do {
             s \<leftarrow> sync_ip s;
             (arr_val, s) \<leftarrow> cando_bridge_new_array s;
             arr \<leftarrow> cando_bridge_resolve s (the_handle arr_val);
             s \<leftarrow> mfold (\<lambda>s i. array_push_at s arr (CNumber (f64_of_int i))) (f (i64_of_f64 x) (i64_of_f64 y)) s;
             dispatch_push s arr_val
           }
       | _ \<Rightarrow> throw_error s ''range requires numbers''
     }"

definition op_range_asc :: "cando_vm \<Rightarrow> vm_next option" where
  "op_range_asc = range_op (\<lambda>from to. [from..to])"

definition op_range_desc :: "cando_vm \<Rightarrow> vm_next option" where
  "op_range_desc = range_op (\<lambda>from to. rev [to..from])"

text \<open>The keys of a plain object as fresh strings, or its values.\<close>

fun push_slots :: "bool \<Rightarrow> obj_slot list \<Rightarrow> cando_vm \<Rightarrow> cando_vm option" where
  "push_slots keys [] s = Some s"
| "push_slots keys (sl # sls) s =
     do {
       (v, s) \<leftarrow> (if keys then do { k \<leftarrow> m_cdo s (os_key sl); vm_new_string s (st_data k) }
                 else cando_bridge_to_cando s (os_value sl));
       s \<leftarrow> cando_vm_push s v;
       push_slots keys sls s
     }"

definition op_for_init :: "cando_vm \<Rightarrow> vm_next option" where
  "op_for_init s =
     do {
       (keys_mode, s) \<leftarrow> read_u16 s;
       (iterable, s) \<leftarrow> cando_vm_pop s;
       s \<leftarrow>
         (case iterable of
            VObject h \<Rightarrow>
              do {
                (_, obj) \<leftarrow> object_at s h;
                if ob_kind obj = OBJ_ARRAY then do {
                  cells \<leftarrow> (if keys_mode \<noteq> 0 then map_option (\<lambda>n. map (CNumber \<circ> f64_of_nat) [0..<n]) (cdo_array_len obj)
                            else array_cells obj);
                  s \<leftarrow> push_cells cells s;
                  push_counters (length cells) s
                } else do {
                  slots \<leftarrow> object_slots obj;
                  s \<leftarrow> push_slots (keys_mode \<noteq> 0) slots s;
                  push_counters (length slots) s
                }
              }
          | _ \<Rightarrow> do { s \<leftarrow> cando_vm_push s iterable; push_counters 1 s });
       Some (Dispatch s)
     }"

text \<open>The two counters on top of the stack, and the cell they select below the values.\<close>

definition top_numbers :: "cando_vm \<Rightarrow> (f64 \<times> f64) option" where
  "top_numbers s =
     do {
       i \<leftarrow> cando_vm_peek s 0;
       n \<leftarrow> cando_vm_peek s 1;
       case (i, n) of (VNumber i, VNumber n) \<Rightarrow> Some (i, n) | _ \<Rightarrow> None
     }"

definition next_value :: "f64 \<Rightarrow> f64 \<Rightarrow> cando_vm \<Rightarrow> vm_next option" where
  "next_value index count s =
     do {
       let pos = int (length (vm_stack s)) - 2 - i64_of_f64 count + i64_of_f64 index;
       s \<leftarrow> put_cell s (length (vm_stack s) - 1) (VNumber (f64_add index (f64_of_nat 1)));
       check (0 \<le> pos);
       v \<leftarrow> aget (vm_stack s) (nat pos);
       s \<leftarrow> vm_copy s v;
       dispatch_push s v
     }"

definition op_for_next :: "cando_vm \<Rightarrow> vm_next option" where
  "op_for_next s =
     do {
       (off, s) \<leftarrow> read_i16 s;
       (index, count) \<leftarrow> top_numbers s;
       if f64_le count index then do {
         s \<leftarrow> pop_release_n 2 s;
         s \<leftarrow> pop_release_n (nat (i64_of_f64 count)) s;
         map_option Dispatch (jump_by s off)
       } else next_value index count s
     }"

definition op_for_over_init :: "cando_vm \<Rightarrow> vm_next option" where
  "op_for_over_init s =
     do {
       (nvar, s) \<leftarrow> read_u16 s;
       (packed, s) \<leftarrow> read_u16 s;
       let count = and packed 0x7FFF;
       let is_call = (and packed 0x8000 \<noteq> 0);
       let total = (if is_call then int count - 1 + vm_last_ret_count s else int count);
       s \<leftarrow> (if total < 1 then push_nulls 3 s
            else if total = 1 then push_nulls 2 s
            else if total = 2 then push_nulls 1 s
            else pop_release_n (nat (total - 3)) s);
       s \<leftarrow> cando_vm_push s (VNumber (f64_of_nat nvar));
       Some (Dispatch (s\<lparr>vm_last_ret_count := 0\<rparr>))
     }"

text \<open>The loop variables: the values after the first, padded with nulls; the array has 16 cells.\<close>

fun copy_vars :: "nat \<Rightarrow> nat \<Rightarrow> cando_value list \<Rightarrow> cando_vm \<Rightarrow> (cando_value list \<times> cando_vm) option" where
  "copy_vars 0 i rets s = Some ([], s)"
| "copy_vars (Suc n) i rets s =
     do {
       (v, s) \<leftarrow> (if i + 1 < length rets then map_option (Pair (rets ! (i + 1))) (vm_copy s (rets ! (i + 1))) else Some (VNull, s));
       (vs, s) \<leftarrow> copy_vars n (i + 1) rets s;
       Some (v # vs, s)
     }"

definition op_for_over_next :: "vm_env \<Rightarrow> vm_runner \<Rightarrow> cando_vm \<Rightarrow> vm_next option" where
  "op_for_over_next env run s =
     do {
       (off, s) \<leftarrow> read_i16 s;
       nv \<leftarrow> cando_vm_peek s 0;
       nvar \<leftarrow> (case nv of VNumber n \<Rightarrow> Some (nat (i64_of_f64 n mod 65536)) | _ \<Rightarrow> None);
       control \<leftarrow> cando_vm_peek s 1;
       state \<leftarrow> cando_vm_peek s 2;
       iter \<leftarrow> cando_vm_peek s 3;
       s \<leftarrow> vm_copy s state;
       s \<leftarrow> vm_copy s control;
       s \<leftarrow> sync_ip s;
       (ret_count, s) \<leftarrow> cando_vm_call_value env run s iter [state, control];
       s \<leftarrow> release2 s state control;
       let s = s\<lparr>vm_spread_extra := 0\<rparr>;
       if vm_has_error s then Some (Handle_error s)
       else do {
         let n = nat ret_count;
         check (n + 2 \<le> length (vm_stack s));
         let rets = drop (length (vm_stack s) - n) (vm_stack s);
         if n = 0 \<or> hd rets = VNull then do {
           s \<leftarrow> pop_release_n n s;
           s \<leftarrow> pop_release_n 4 s;
           map_option Dispatch (jump_by (s\<lparr>vm_spread_extra := 0\<rparr>) off)
         } else do {
           let ci = length (vm_stack s) - n - 2;
           s \<leftarrow> vm_release s (vm_stack s ! ci);
           s \<leftarrow> vm_copy s (hd rets);
           s \<leftarrow> put_cell s ci (hd rets);
           (vars, s) \<leftarrow> copy_vars (min nvar 16) 0 rets s;
           s \<leftarrow> pop_release_n n s;
           map_option Dispatch (mfold cando_vm_push vars s)
         }
       }
     }"

section \<open>Pipes and filters\<close>

definition pipe_source :: string where
  "pipe_source = ''pipe/filter (~>/~!>) requires an array source''"

definition op_pipe_init :: "cando_vm \<Rightarrow> vm_next option" where
  "op_pipe_init s =
     do {
       (_, s) \<leftarrow> read_u16 s;
       (src, s) \<leftarrow> cando_vm_pop s;
       case src of
         VObject h \<Rightarrow>
           do {
             (_, obj) \<leftarrow> object_at s h;
             if ob_kind obj \<noteq> OBJ_ARRAY then throw_error s pipe_source
             else do {
               (arr_v, s) \<leftarrow> cando_bridge_new_array s;
               s \<leftarrow> cando_vm_push s arr_v;
               cells \<leftarrow> array_cells obj;
               s \<leftarrow> push_cells cells s;
               map_option Dispatch (push_counters (length cells) s)
             }
           }
       | _ \<Rightarrow> do { s \<leftarrow> vm_release s src; throw_error s pipe_source }
     }"

text \<open>\<open>OP_PIPE_NEXT\<close> and \<open>OP_FILTER_NEXT\<close> are the same code.\<close>

definition op_pipe_next :: "cando_vm \<Rightarrow> vm_next option" where
  "op_pipe_next s =
     do {
       (off, s) \<leftarrow> read_i16 s;
       (index, count) \<leftarrow> top_numbers s;
       if f64_le count index then map_option Dispatch (jump_by s off) else next_value index count s
     }"

definition op_pipe_end :: "cando_vm \<Rightarrow> vm_next option" where
  "op_pipe_end s =
     do {
       s \<leftarrow> pop_release s;
       (count, s) \<leftarrow> cando_vm_pop s;
       case count of VNumber n \<Rightarrow> map_option Dispatch (pop_release_n (nat (i64_of_f64 n)) s) | _ \<Rightarrow> None
     }"

text \<open>The result array lies below the counters and the \<open>N\<close> source values.\<close>

definition append_result :: "cando_value \<Rightarrow> cando_vm \<Rightarrow> cando_vm option" where
  "append_result v s =
     do {
       (_, count) \<leftarrow> top_numbers s;
       let pos = int (length (vm_stack s)) - 3 - i64_of_f64 count;
       check (0 \<le> pos);
       arr \<leftarrow> aget (vm_stack s) (nat pos);
       case arr of
         VObject h \<Rightarrow> do { a \<leftarrow> cando_bridge_resolve s h; (c, s) \<leftarrow> cando_bridge_to_cdo s v; array_push_at s a c }
       | _ \<Rightarrow> None
     }"

definition op_pipe_collect :: "cando_vm \<Rightarrow> vm_next option" where
  "op_pipe_collect s =
     do {
       (v, s) \<leftarrow> cando_vm_pop s;
       s \<leftarrow> append_result v s;
       map_option Dispatch (vm_release s v)
     }"

definition op_filter_collect :: "cando_vm \<Rightarrow> vm_next option" where
  "op_filter_collect s =
     do {
       (v, s) \<leftarrow> cando_vm_pop s;
       s \<leftarrow> (if v = VNull then Some s else append_result v s);
       map_option Dispatch (vm_release s v)
     }"

section \<open>Classes\<close>

definition op_new_class :: "cando_vm \<Rightarrow> vm_next option" where
  "op_new_class s =
     do {
       (ci, s) \<leftarrow> read_u16 s;
       name \<leftarrow> const_string s ci;
       (cls_val, s) \<leftarrow> cando_bridge_new_object s;
       s \<leftarrow> (if meta_key s ''__type'' \<noteq> 0 then do {
              cls \<leftarrow> cando_bridge_resolve s (the_handle cls_val);
              (key, s) \<leftarrow> cando_bridge_intern_key s name;
              s \<leftarrow> cdo_copy s (CString key);
              s \<leftarrow> rawset_at s cls (meta_key s ''__type'') (CString key) 1;
              s \<leftarrow> cdo_release s (CString key);
              release_key s key
            } else Some s);
       dispatch_push s cls_val
     }"

definition op_bind_method :: "cando_vm \<Rightarrow> vm_next option" where
  "op_bind_method s =
     do {
       (ci, s) \<leftarrow> read_u16 s;
       (method, s) \<leftarrow> cando_vm_pop s;
       cls_val \<leftarrow> cando_vm_peek s 0;
       case cls_val of
         VObject h \<Rightarrow>
           do {
             name \<leftarrow> const_string s ci;
             cls \<leftarrow> cando_bridge_resolve s h;
             (key, s) \<leftarrow> cando_bridge_intern_key s name;
             (mv, s) \<leftarrow> cando_bridge_to_cdo s method;
             s \<leftarrow> rawset_at s cls key mv 0;
             s \<leftarrow> cdo_release s mv;
             s \<leftarrow> release_key s key;
             map_option Dispatch (vm_release s method)
           }
       | _ \<Rightarrow> do { s \<leftarrow> vm_release s method; throw_error s ''BIND_METHOD: expected class object'' }
     }"

definition op_inherit :: "cando_vm \<Rightarrow> vm_next option" where
  "op_inherit s =
     do {
       (child_val, s) \<leftarrow> cando_vm_pop s;
       parent_val \<leftarrow> cando_vm_peek s 0;
       case (child_val, parent_val) of
         (VObject ch, VObject _) \<Rightarrow>
           do {
             s \<leftarrow> (if meta_key s ''__index'' \<noteq> 0 then do {
                    child \<leftarrow> cando_bridge_resolve s ch;
                    (pv, s) \<leftarrow> cando_bridge_to_cdo s parent_val;
                    s \<leftarrow> rawset_at s child (meta_key s ''__index'') pv 0;
                    cdo_release s pv
                  } else Some s);
             dispatch_push s child_val
           }
       | _ \<Rightarrow> do { s \<leftarrow> vm_release s child_val; throw_error s ''INHERIT: expected class objects'' }
     }"

end
