(* ===== verification/Vm_Frames.thy ===== *)
theory Vm_Frames
  imports Vm_Objects
begin

text \<open>
  Functions (\<open>vm_run\<close> in \<open>source/vm/vm.c\<close>, band 11): closures, calls of native and script functions, method calls and
  returns.
\<close>

section \<open>Closures\<close>

definition op_closure :: "cando_vm \<Rightarrow> vm_next option" where
  "op_closure s =
     do {
       (ci, s) \<leftarrow> read_u16 s;
       f \<leftarrow> cur_frame s;
       k \<leftarrow> const_at s ci;
       pc \<leftarrow> (case k of VNumber n \<Rightarrow> Some (u32_of_f64 n) | _ \<Rightarrow> None);
       (_, fn_obj) \<leftarrow> cdo_function_new (m_cdo s) pc (fr_closure f) [];
       (v, s) \<leftarrow> new_handle s fn_obj;
       dispatch_push s v
     }"

section \<open>Calls\<close>

definition call_overflow :: "cando_vm \<Rightarrow> vm_next option" where
  "call_overflow s = throw_error s ''call stack overflow''"

text \<open>Entering a function at \<open>pc\<close> of a closure, with its frame based at a slot.\<close>

definition enter_function :: "cando_vm \<Rightarrow> addr \<Rightarrow> nat \<Rightarrow> nat \<Rightarrow> bool \<Rightarrow> nat \<Rightarrow> vm_next option" where
  "enter_function s cl pc slots fluent n_present =
     (if length (vm_frames s) \<ge> FRAMES_MAX then call_overflow s
      else do {
        s \<leftarrow> sync_ip s;
        s \<leftarrow> enter_frame s cl pc slots fluent n_present;
        map_option Dispatch (load_frame s)
      })"

text \<open>The values a native function returned are on top; they slide down over the callee and its arguments.\<close>

definition slide_down :: "cando_vm \<Rightarrow> nat \<Rightarrow> nat \<Rightarrow> cando_vm option" where
  "slide_down s base n =
     do {
       check (base + n \<le> length (vm_stack s));
       Some (s\<lparr>vm_stack := take base (vm_stack s) @ drop (length (vm_stack s) - n) (vm_stack s)\<rparr>)
     }"

definition release_cells :: "cando_vm \<Rightarrow> nat \<Rightarrow> nat \<Rightarrow> cando_vm option" where
  "release_cells s i n = do { check (i + n \<le> length (vm_stack s)); mfold vm_release (take n (drop i (vm_stack s))) s }"

definition call_native :: "vm_env \<Rightarrow> cando_vm \<Rightarrow> f64 \<Rightarrow> nat \<Rightarrow> nat \<Rightarrow> vm_next option" where
  "call_native env s n callee_slot arg_count =
     (let ni = native_index n in
      if ni \<ge> vm_native_count s then throw_error s (''invalid native function index '' @ decimal ni)
      else do {
        s \<leftarrow> sync_ip s;
        (ret, s) \<leftarrow> env_native env ni s (drop (callee_slot + 1) (vm_stack s));
        if vm_has_error s then Some (Handle_error s)
        else do {
          let ret_count = nat ret;
          s \<leftarrow> release_cells s (callee_slot + 1) arg_count;
          if ret_count = 0 then
            Some (Dispatch (s\<lparr>vm_stack := take callee_slot (vm_stack s) @ [VNull], vm_last_ret_count := 1\<rparr>))
          else do {
            s \<leftarrow> slide_down s callee_slot ret_count;
            Some (Dispatch (s\<lparr>vm_last_ret_count := int ret_count\<rparr>))
          }
        }
      })"

definition op_call :: "vm_env \<Rightarrow> cando_vm \<Rightarrow> vm_next option" where
  "op_call env s =
     do {
       (static_argc, s) \<leftarrow> read_u16 s;
       let arg_count = nat (int static_argc + vm_spread_extra s);
       let s = s\<lparr>vm_spread_extra := 0\<rparr>;
       check (arg_count < length (vm_stack s));
       let callee_slot = length (vm_stack s) - arg_count - 1;
       case vm_stack s ! callee_slot of
         VNumber n \<Rightarrow>
           if is_native_fn (VNumber n) then call_native env s n callee_slot arg_count
           else do { f \<leftarrow> cur_frame s; enter_function s (fr_closure f) (u32_of_f64 n) callee_slot False (arg_count + 1) }
       | VObject h \<Rightarrow>
           do {
             (_, fn_obj) \<leftarrow> object_at s h;
             case (ob_kind fn_obj, ob_fn fn_obj) of
               (OBJ_FUNCTION, FnScript pc _ cl) \<Rightarrow>
                 if cl = 0 then throw_error s ''can only call functions (got object)''
                 else enter_function s cl pc callee_slot False (arg_count + 1)
             | _ \<Rightarrow> throw_error s ''can only call functions (got object)''
           }
       | callee \<Rightarrow> throw_error s (''can only call functions (got '' @ cando_value_type_name callee @ '')'')
     }"

section \<open>Method calls\<close>

text \<open>Where a method is looked up: strings in their prototype, arrays in the object and then in the prototype of
  arrays, other objects along their chain.\<close>

definition find_method :: "cando_vm \<Rightarrow> cando_value \<Rightarrow> nat \<Rightarrow> (cdo_value \<times> cando_vm) option" where
  "find_method s receiver name_ci = (case receiver of
     VString _ \<Rightarrow>
       (case vm_string_proto s of
          VObject p \<Rightarrow>
            do {
              name \<leftarrow> const_string s name_ci;
              (key, s) \<leftarrow> cando_bridge_intern_key s name;
              proto \<leftarrow> cando_bridge_resolve s p;
              r \<leftarrow> object_get s proto key;
              s \<leftarrow> release_key s key;
              Some (case r of Some v \<Rightarrow> v | None \<Rightarrow> CNull, s)
            }
        | _ \<Rightarrow> Some (CNull, s))
   | VObject h \<Rightarrow>
       do {
         (a, robj) \<leftarrow> object_at s h;
         name \<leftarrow> const_string s name_ci;
         (key, s) \<leftarrow> cando_bridge_intern_key s name;
         r \<leftarrow> object_get s a key;
         r \<leftarrow> (case vm_array_proto s of
                VObject p \<Rightarrow>
                  if ob_kind robj = OBJ_ARRAY \<and> r = None then do { ap \<leftarrow> cando_bridge_resolve s p; object_get s ap key }
                  else Some r
              | _ \<Rightarrow> Some r);
         s \<leftarrow> release_key s key;
         Some (case r of Some v \<Rightarrow> v | None \<Rightarrow> CNull, s)
       }
   | _ \<Rightarrow> None)"

definition is_callable :: "cando_vm \<Rightarrow> cando_value \<Rightarrow> bool option" where
  "is_callable s m = (case m of
     VNumber _ \<Rightarrow> Some True
   | VObject h \<Rightarrow> map_option (\<lambda>(_, obj). ob_kind obj = OBJ_FUNCTION \<or> ob_kind obj = OBJ_NATIVE) (object_at s h)
   | _ \<Rightarrow> Some False)"

text \<open>The stack of a method call is \<open>[method, receiver, arguments]\<close> from \<open>base\<close>. A fluent call leaves the receiver.\<close>

definition keep_receiver :: "cando_vm \<Rightarrow> nat \<Rightarrow> nat \<Rightarrow> vm_next option" where
  "keep_receiver s base total_argc =
     do {
       rec \<leftarrow> aget (vm_stack s) (base + 1);
       m \<leftarrow> aget (vm_stack s) base;
       s \<leftarrow> vm_release s m;
       s \<leftarrow> release_cells s (base + 2) (total_argc - 1);
       Some (Dispatch (s\<lparr>vm_stack := take base (vm_stack s) @ [rec], vm_last_ret_count := 1\<rparr>))
     }"

definition method_native :: "vm_env \<Rightarrow> cando_vm \<Rightarrow> f64 \<Rightarrow> nat \<Rightarrow> nat \<Rightarrow> bool \<Rightarrow> vm_next option" where
  "method_native env s n base total_argc fluent =
     do {
       s \<leftarrow> sync_ip s;
       check (native_index n < vm_native_count s);
       (ret, s) \<leftarrow> env_native env (native_index n) s (drop (base + 1) (vm_stack s));
       if vm_has_error s then Some (Handle_error s)
       else do {
         let ret_count = nat ret;
         if fluent then do { s \<leftarrow> pop_release_n ret_count s; keep_receiver s base total_argc }
         else do {
           s \<leftarrow> release_cells s base (total_argc + 1);
           if ret_count = 0 then
             Some (Dispatch (s\<lparr>vm_stack := take base (vm_stack s) @ [VNull], vm_last_ret_count := 0\<rparr>))
           else do {
             s \<leftarrow> slide_down s base ret_count;
             Some (Dispatch (s\<lparr>vm_last_ret_count := int ret_count\<rparr>))
           }
         }
       }
     }"

definition method_cdo_native :: "vm_env \<Rightarrow> cando_vm \<Rightarrow> addr \<Rightarrow> nat \<Rightarrow> nat \<Rightarrow> bool \<Rightarrow> vm_next option" where
  "method_cdo_native env s f base total_argc fluent =
     do {
       (cs, s) \<leftarrow> to_cdo_all s (take total_argc (drop (base + 1) (vm_stack s)));
       s \<leftarrow> sync_ip s;
       (result, s) \<leftarrow> env_cdo_native env f s cs;
       s \<leftarrow> mfold cdo_release cs s;
       if vm_has_error s then map_option Handle_error (cdo_release s result)
       else if fluent then do { s \<leftarrow> cdo_release s result; keep_receiver s base total_argc }
       else do {
         (cv, s) \<leftarrow> cando_bridge_to_cando s result;
         s \<leftarrow> cdo_release s result;
         s \<leftarrow> release_cells s base (total_argc + 1);
         Some (Dispatch (s\<lparr>vm_stack := take base (vm_stack s) @ [cv], vm_last_ret_count := 1\<rparr>))
       }
     }"

text \<open>A method that is a raw position in the current code is entered without filling its locals.\<close>

definition method_pc :: "cando_vm \<Rightarrow> f64 \<Rightarrow> nat \<Rightarrow> bool \<Rightarrow> vm_next option" where
  "method_pc s n base fluent =
     (if length (vm_frames s) \<ge> FRAMES_MAX then call_overflow s
      else do {
        s \<leftarrow> sync_ip s;
        f \<leftarrow> cur_frame s;
        map_option Dispatch (load_frame (push_frame s (fr_closure f) (u32_of_f64 n) base fluent))
      })"

definition call_method :: "vm_env \<Rightarrow> cando_vm \<Rightarrow> cando_value \<Rightarrow> nat \<Rightarrow> nat \<Rightarrow> bool \<Rightarrow> vm_next option" where
  "call_method env s m base total_argc fluent = (case m of
     VNumber n \<Rightarrow> if is_native_fn m then method_native env s n base total_argc fluent else method_pc s n base fluent
   | VObject h \<Rightarrow>
       do {
         (_, mo) \<leftarrow> object_at s h;
         case ob_fn mo of
           FnNative f _ \<Rightarrow> if ob_kind mo = OBJ_NATIVE then method_cdo_native env s f base total_argc fluent else None
         | FnScript pc _ cl \<Rightarrow>
             if ob_kind mo = OBJ_FUNCTION \<and> cl \<noteq> 0 then enter_function s cl pc base fluent (total_argc + 1) else None
         | _ \<Rightarrow> None
       }
   | _ \<Rightarrow> None)"

definition method_call :: "bool \<Rightarrow> vm_env \<Rightarrow> cando_vm \<Rightarrow> vm_next option" where
  "method_call fluent env s =
     do {
       (name_ci, s) \<leftarrow> read_u16 s;
       (arg_count, s) \<leftarrow> read_u16 s;
       check (arg_count < length (vm_stack s));
       let base = length (vm_stack s) - arg_count - 1;
       let receiver = vm_stack s ! base;
       if \<not> (case receiver of VString _ \<Rightarrow> True | VObject _ \<Rightarrow> True | _ \<Rightarrow> False) then
         throw_error s (''method call on non-object (got '' @ cando_value_type_name receiver @ '')'')
       else do {
         (method_cdo, s) \<leftarrow> find_method s receiver name_ci;
         (m, s) \<leftarrow> cando_bridge_to_cando s method_cdo;
         s \<leftarrow> cdo_release s method_cdo;
         callable \<leftarrow> is_callable s m;
         if \<not> callable then do {
           s \<leftarrow> vm_release s m;
           throw_error s ((if fluent then ''fluent'' else []) @ '' method is not callable'')
         }
         else if length (vm_stack s) \<ge> STACK_MAX then do {
           s \<leftarrow> vm_release s m;
           throw_error s ''stack overflow in method call''
         }
         else call_method env (s\<lparr>vm_stack := take base (vm_stack s) @ m # drop base (vm_stack s)\<rparr>) m base (arg_count + 1) fluent
       }
     }"

definition op_method_call :: "vm_env \<Rightarrow> cando_vm \<Rightarrow> vm_next option" where "op_method_call = method_call False"
definition op_fluent_call :: "vm_env \<Rightarrow> cando_vm \<Rightarrow> vm_next option" where "op_fluent_call = method_call True"

section \<open>Return\<close>

fun vm_copies :: "cando_vm \<Rightarrow> cando_value list \<Rightarrow> cando_vm option" where
  "vm_copies s [] = Some s"
| "vm_copies s (v # vs) = do { s \<leftarrow> vm_copy s v; vm_copies s vs }"

text \<open>The values that leave through a stop boundary: copies are kept, the stack's own are released.\<close>

definition op_return :: "cando_vm \<Rightarrow> vm_next option" where
  "op_return s =
     do {
       (ret_count, s) \<leftarrow> read_u16 s;
       f \<leftarrow> cur_frame s;
       let fluent = fr_fluent f;
       let s = (if fluent then s else s\<lparr>vm_last_ret_count := int ret_count\<rparr>);
       s \<leftarrow> sync_ip s;
       s \<leftarrow> vm_close_upvalues s (fr_slots f);
       receiver \<leftarrow> (if fluent then aget (vm_stack s) (fr_slots f + 1) else Some VNull);
       s \<leftarrow> vm_copy s receiver;
       check (fr_slots f + ret_count \<le> length (vm_stack s));
       let ret_start = length (vm_stack s) - ret_count;
       let rets = drop ret_start (vm_stack s);
       s \<leftarrow> release_cells s (fr_slots f) (ret_start - fr_slots f);
       let below = take (fr_slots f) (vm_stack s);
       let s = s\<lparr>vm_frames := butlast (vm_frames s)\<rparr>;
       let depth = length (vm_frames s);
       if vm_thread_stop s = Some depth then
         (if fluent then do {
            s \<leftarrow> mfold vm_release rets s;
            vals \<leftarrow> aput (vm_thread_results s) 0 receiver;
            Some (Leave VM_EVAL_DONE (s\<lparr>vm_thread_results := vals, vm_thread_count := 1, vm_stack := below\<rparr>))
          } else do {
            let kept = take MAX_THROW_ARGS rets;
            s \<leftarrow> vm_copies s kept;
            s \<leftarrow> mfold vm_release rets s;
            Some (Leave VM_EVAL_DONE (s\<lparr>vm_thread_results := kept @ drop (length kept) (vm_thread_results s),
                                         vm_thread_count := length kept, vm_stack := below\<rparr>))
          })
       else if vm_eval_stop s = Some depth then
         (let s = s\<lparr>vm_last_ret_count := int ret_count\<rparr> in
          if fluent then do {
            s \<leftarrow> mfold vm_release rets s;
            Some (Leave VM_EVAL_DONE (s\<lparr>vm_eval_results := [receiver], vm_stack := below\<rparr>))
          } else do {
            s \<leftarrow> vm_copies s rets;
            s \<leftarrow> mfold vm_release rets s;
            Some (Leave VM_EVAL_DONE (s\<lparr>vm_eval_results := rets, vm_stack := below\<rparr>))
          })
       else if depth = 0 then map_option (Leave VM_HALT) (vm_release (s\<lparr>vm_stack := []\<rparr>) receiver)
       else if fluent then do {
         s \<leftarrow> mfold vm_release rets s;
         map_option Dispatch (load_frame (s\<lparr>vm_stack := below @ [receiver], vm_last_ret_count := 1\<rparr>))
       }
       else map_option Dispatch (load_frame (s\<lparr>vm_stack := below @ rets\<rparr>))
     }"

end
