(* ===== verification/Vm_Run.thy ===== *)
theory Vm_Run
  imports Vm_Frames
begin

text \<open>
  The dispatch loop (\<open>vm_run\<close> in \<open>source/vm/vm.c\<close>): fetching an opcode, its code, the unwinding of errors, and the loop
  that ties the inner runs of meta-methods and iterators.
\<close>

section \<open>Dispatch\<close>

text \<open>The jump table, a band at a time. \<open>OP_AWAIT\<close> and \<open>OP_THREAD\<close> act on other threads and are arguments of the model; a
  byte that is no opcode jumps outside the table, a fault.\<close>

definition dispatch_data :: "vm_env \<Rightarrow> vm_runner \<Rightarrow> nat \<Rightarrow> cando_vm \<Rightarrow> vm_next option" where
  "dispatch_data env run op s =
     (if op = OP_CONST then op_const s
      else if op = OP_NULL then op_null s
      else if op = OP_TRUE then op_true s
      else if op = OP_FALSE then op_false s
      else if op = OP_POP then op_pop s
      else if op = OP_POP_N then op_pop_n s
      else if op = OP_DUP then op_dup s
      else if op = OP_LOAD_LOCAL then op_load_local s
      else if op = OP_STORE_LOCAL then op_store_local s
      else if op = OP_DEF_LOCAL then op_def_local s
      else if op = OP_DEF_CONST_LOCAL then op_def_local s
      else if op = OP_LOAD_GLOBAL then op_load_global s
      else if op = OP_STORE_GLOBAL then op_store_global s
      else if op = OP_DEF_GLOBAL then op_def_global s
      else if op = OP_DEF_CONST_GLOBAL then op_def_const_global s
      else if op = OP_LOAD_UPVAL then op_load_upval s
      else if op = OP_STORE_UPVAL then op_store_upval s
      else if op = OP_CLOSE_UPVAL then op_close_upval s
      else None)"

definition dispatch_arith :: "vm_env \<Rightarrow> vm_runner \<Rightarrow> nat \<Rightarrow> cando_vm \<Rightarrow> vm_next option" where
  "dispatch_arith env run op s =
     (if op = OP_ADD then op_add env run s
      else if op = OP_SUB then op_sub env run s
      else if op = OP_MUL then op_mul env run s
      else if op = OP_DIV then op_div env run s
      else if op = OP_MOD then op_mod env run s
      else if op = OP_POW then op_pow env run s
      else if op = OP_NEG then op_neg env run s
      else if op = OP_POS then op_pos s
      else if op = OP_INCR then op_incr s
      else if op = OP_DECR then op_decr s
      else None)"

definition dispatch_compare :: "vm_env \<Rightarrow> vm_runner \<Rightarrow> nat \<Rightarrow> cando_vm \<Rightarrow> vm_next option" where
  "dispatch_compare env run op s =
     (if op = OP_EQ then op_eq env run s
      else if op = OP_NEQ then op_neq env run s
      else if op = OP_LT then op_lt env run s
      else if op = OP_GT then op_gt env run s
      else if op = OP_LEQ then op_leq env run s
      else if op = OP_GEQ then op_geq env run s
      else if op = OP_EQ_STACK then op_eq_stack s
      else if op = OP_NEQ_STACK then op_neq_stack s
      else if op = OP_LT_STACK then op_lt_stack s
      else if op = OP_GT_STACK then op_gt_stack s
      else if op = OP_LEQ_STACK then op_leq_stack s
      else if op = OP_GEQ_STACK then op_geq_stack s
      else if op = OP_RANGE_CHECK then op_range_check s
      else None)"

definition dispatch_bits :: "vm_env \<Rightarrow> vm_runner \<Rightarrow> nat \<Rightarrow> cando_vm \<Rightarrow> vm_next option" where
  "dispatch_bits env run op s =
     (if op = OP_BIT_AND then op_bit_and s
      else if op = OP_BIT_OR then op_bit_or s
      else if op = OP_BIT_XOR then op_bit_xor s
      else if op = OP_BIT_NOT then op_bit_not s
      else if op = OP_LSHIFT then op_lshift s
      else if op = OP_RSHIFT then op_rshift s
      else if op = OP_NOT then op_not s
      else if op = OP_AND_JUMP then op_and_jump s
      else if op = OP_OR_JUMP then op_or_jump s
      else None)"

definition dispatch_object :: "vm_env \<Rightarrow> vm_runner \<Rightarrow> nat \<Rightarrow> cando_vm \<Rightarrow> vm_next option" where
  "dispatch_object env run op s =
     (if op = OP_NEW_OBJECT then op_new_object s
      else if op = OP_NEW_ARRAY then op_new_array s
      else if op = OP_GET_FIELD then op_get_field s
      else if op = OP_SET_FIELD then op_set_field env run s
      else if op = OP_GET_INDEX then op_get_index s
      else if op = OP_SET_INDEX then op_set_index env run s
      else if op = OP_LEN then op_len env run s
      else if op = OP_KEYS_OF then op_keys_of s
      else if op = OP_VALS_OF then op_vals_of s
      else None)"

definition dispatch_control :: "vm_env \<Rightarrow> vm_runner \<Rightarrow> nat \<Rightarrow> cando_vm \<Rightarrow> vm_next option" where
  "dispatch_control env run op s =
     (if op = OP_JUMP then op_jump s
      else if op = OP_JUMP_IF_FALSE then op_jump_if_false s
      else if op = OP_JUMP_IF_TRUE then op_jump_if_true s
      else if op = OP_LOOP then op_loop s
      else if op = OP_BREAK then op_break s
      else if op = OP_CONTINUE then op_continue s
      else if op = OP_LOOP_MARK then op_loop_mark s
      else if op = OP_LOOP_END then op_loop_end s
      else None)"

definition dispatch_call :: "vm_env \<Rightarrow> vm_runner \<Rightarrow> nat \<Rightarrow> cando_vm \<Rightarrow> vm_next option" where
  "dispatch_call env run op s =
     (if op = OP_CLOSURE then op_closure s
      else if op = OP_CALL then op_call env s
      else if op = OP_METHOD_CALL then op_method_call env s
      else if op = OP_FLUENT_CALL then op_fluent_call env s
      else if op = OP_RETURN then op_return s
      else if op = OP_TAIL_CALL then op_tail_call s
      else if op = OP_LOAD_VARARG then op_load_vararg s
      else if op = OP_VARARG_LEN then op_vararg_len s
      else if op = OP_UNPACK then op_unpack s
      else None)"

definition dispatch_iterate :: "vm_env \<Rightarrow> vm_runner \<Rightarrow> nat \<Rightarrow> cando_vm \<Rightarrow> vm_next option" where
  "dispatch_iterate env run op s =
     (if op = OP_RANGE_ASC then op_range_asc s
      else if op = OP_RANGE_DESC then op_range_desc s
      else if op = OP_FOR_INIT then op_for_init s
      else if op = OP_FOR_NEXT then op_for_next s
      else if op = OP_FOR_OVER_INIT then op_for_over_init s
      else if op = OP_FOR_OVER_NEXT then op_for_over_next env run s
      else if op = OP_PIPE_INIT then op_pipe_init s
      else if op = OP_PIPE_NEXT then op_pipe_next s
      else if op = OP_FILTER_NEXT then op_pipe_next s
      else if op = OP_PIPE_END then op_pipe_end s
      else if op = OP_PIPE_COLLECT then op_pipe_collect s
      else if op = OP_FILTER_COLLECT then op_filter_collect s
      else None)"

definition dispatch_error :: "vm_env \<Rightarrow> vm_runner \<Rightarrow> nat \<Rightarrow> cando_vm \<Rightarrow> vm_next option" where
  "dispatch_error env run op s =
     (if op = OP_TRY_BEGIN then op_try_begin s
      else if op = OP_TRY_END then op_try_end s
      else if op = OP_CATCH_BEGIN then op_catch_begin s
      else if op = OP_FINALLY_BEGIN then op_finally_begin s
      else if op = OP_THROW then op_throw s
      else if op = OP_RERAISE then op_reraise s
      else if op = OP_ASYNC then op_async s
      else if op = OP_AWAIT then env_await env s
      else if op = OP_YIELD then op_yield s
      else if op = OP_THREAD then env_thread env s
      else None)"

definition dispatch_other :: "vm_env \<Rightarrow> vm_runner \<Rightarrow> nat \<Rightarrow> cando_vm \<Rightarrow> vm_next option" where
  "dispatch_other env run op s =
     (if op = OP_NEW_CLASS then op_new_class s
      else if op = OP_BIND_METHOD then op_bind_method s
      else if op = OP_INHERIT then op_inherit s
      else if op = OP_MASK_PASS then op_mask_pass s
      else if op = OP_MASK_SKIP then op_mask_skip s
      else if op = OP_MASK_APPLY then op_mask_apply s
      else if op = OP_SPREAD_RET then op_spread_ret s
      else if op = OP_ARRAY_SPREAD then op_array_spread s
      else if op = OP_TRUNCATE_RET then op_truncate_ret s
      else if op = OP_EQ_SPREAD then op_eq_spread s
      else if op = OP_NEQ_SPREAD then op_neq_spread s
      else if op = OP_LT_SPREAD then op_lt_spread s
      else if op = OP_GT_SPREAD then op_gt_spread s
      else if op = OP_LEQ_SPREAD then op_leq_spread s
      else if op = OP_GEQ_SPREAD then op_geq_spread s
      else if op = OP_NOP then Some (Dispatch s)
      else if op = OP_HALT then Some (Leave VM_HALT s)
      else None)"

definition vm_dispatch :: "vm_env \<Rightarrow> vm_runner \<Rightarrow> nat \<Rightarrow> cando_vm \<Rightarrow> vm_next option" where
  "vm_dispatch env run op s =
     (if op < OP_ADD then dispatch_data env run op s
      else if op < OP_EQ then dispatch_arith env run op s
      else if op < OP_BIT_AND then dispatch_compare env run op s
      else if op < OP_NEW_OBJECT then dispatch_bits env run op s
      else if op < OP_JUMP then dispatch_object env run op s
      else if op < OP_CLOSURE then dispatch_control env run op s
      else if op < OP_RANGE_ASC then dispatch_call env run op s
      else if op < OP_TRY_BEGIN then dispatch_iterate env run op s
      else if op < OP_NEW_CLASS then dispatch_error env run op s
      else dispatch_other env run op s)"

section \<open>The loop\<close>

definition vm_step :: "vm_env \<Rightarrow> vm_runner \<Rightarrow> cando_vm \<Rightarrow> vm_next option" where
  "vm_step env run s = do { (op, s) \<leftarrow> read_byte s; vm_dispatch env run op s }"

text \<open>An instruction with the unwinding of the error it may raise.\<close>

definition vm_cycle :: "vm_env \<Rightarrow> vm_runner \<Rightarrow> cando_vm \<Rightarrow> vm_next option" where
  "vm_cycle env run s =
     do {
       r \<leftarrow> vm_step env run s;
       case r of Handle_error s \<Rightarrow> vm_handle_error s | _ \<Rightarrow> Some r
     }"

text \<open>The loop from the current registers, with fuel for the instructions executed here and in inner runs.
  \<open>None\<close> is a fault or the end of the fuel, which are not told apart here: of a single instruction (\<open>vm_step\<close>) it can only
  be a fault, of its own or of an inner run.\<close>

fun vm_loop :: "vm_env \<Rightarrow> nat \<Rightarrow> cando_vm \<Rightarrow> (cando_vm_result \<times> cando_vm) option" where
  "vm_loop env 0 s = None"
| "vm_loop env (Suc n) s =
     (case vm_cycle env (vm_loop env n) s of
        None \<Rightarrow> None
      | Some (Dispatch s) \<Rightarrow> vm_loop env n s
      | Some (Handle_error s) \<Rightarrow> None
      | Some (Leave r s) \<Rightarrow> Some (r, s))"

definition vm_run :: "vm_env \<Rightarrow> nat \<Rightarrow> cando_vm \<Rightarrow> (cando_vm_result \<times> cando_vm) option" where
  "vm_run env n s = do { s \<leftarrow> load_frame s; vm_loop env n s }"

end
