(* ===== verification/Vm_Limits.thy ===== *)
theory Vm_Limits
  imports Vm_Run
begin

text \<open>
  What every instruction that does not fault leaves within bounds: the fixed arrays of the machine keep within their sizes, and
  the code, the meta names, the prototypes and the registry of natives stay as they are. The first part is the small logic of partial
  correctness (\<open>post\<close>) in which the handlers are gone through.
\<close>

lemmas vm_splits = cando_value.splits cdo_value.splits option.splits list.splits if_splits prod.splits

section \<open>Postconditions in the abort monad\<close>

named_theorems post_intros \<open>rules that take a handler apart\<close>
named_theorems within_intros \<open>operations that stay within bounds\<close>

definition post :: "('a \<Rightarrow> bool) \<Rightarrow> 'a option \<Rightarrow> bool" where
  "post Q r = (case r of None \<Rightarrow> True | Some x \<Rightarrow> Q x)"

lemma post_simps [simp]: "post Q None" "post Q (Some x) = Q x"
  by (simp_all add: post_def)

lemma post_Some [post_intros]: "Q x \<Longrightarrow> post Q (Some x)"
  by simp

lemma post_None [post_intros]: "post Q None"
  by simp

lemma postD: "post Q r \<Longrightarrow> r = Some x \<Longrightarrow> Q x"
  by simp

lemma post_eq: "post Q r \<longleftrightarrow> (\<forall>x. r = Some x \<longrightarrow> Q x)"
  by (cases r) simp_all

lemma post_bind1 [post_intros]: "(\<And>x. m = Some x \<Longrightarrow> post Q (f x)) \<Longrightarrow> post Q (Option.bind m f)"
  by (cases m) simp_all

lemma post_bind2 [post_intros]:
  "(\<And>a b. m = Some (a, b) \<Longrightarrow> post Q (f a b)) \<Longrightarrow> post Q (Option.bind m (\<lambda>(a, b). f a b))"
  by (cases m) auto

lemma post_bind3 [post_intros]:
  "(\<And>a b c. m = Some (a, b, c) \<Longrightarrow> post Q (f a b c)) \<Longrightarrow> post Q (Option.bind m (\<lambda>(a, b, c). f a b c))"
  by (cases m) auto

lemma post_check [post_intros]:
  "(b \<Longrightarrow> post Q (f ())) \<Longrightarrow> post Q (Option.bind (check b) f)"
  by (cases b) simp_all

lemma post_map1 [post_intros]: "(\<And>x. m = Some x \<Longrightarrow> Q (f x)) \<Longrightarrow> post Q (map_option f m)"
  by (cases m) simp_all

lemma post_map2 [post_intros]:
  "(\<And>a b. m = Some (a, b) \<Longrightarrow> Q (f a b)) \<Longrightarrow> post Q (map_option (\<lambda>(a, b). f a b) m)"
  by (cases m) auto

lemma post_if [post_intros]:
  "(b \<Longrightarrow> post Q x) \<Longrightarrow> (\<not> b \<Longrightarrow> post Q y) \<Longrightarrow> post Q (if b then x else y)"
  by simp

lemma post_let [post_intros]: "post Q (f x) \<Longrightarrow> post Q (Let x f)"
  by simp

lemma post_prod [post_intros]: "(\<And>a b. p = (a, b) \<Longrightarrow> post Q (f a b)) \<Longrightarrow> post Q (case p of (a, b) \<Rightarrow> f a b)"
  by (cases p) simp

lemma post_option [post_intros]:
  "(r = None \<Longrightarrow> post Q x) \<Longrightarrow> (\<And>v. r = Some v \<Longrightarrow> post Q (f v)) \<Longrightarrow> post Q (case r of None \<Rightarrow> x | Some v \<Rightarrow> f v)"
  by (cases r) simp_all

lemma post_bool [post_intros]:
  "(b \<Longrightarrow> post Q x) \<Longrightarrow> (\<not> b \<Longrightarrow> post Q y) \<Longrightarrow> post Q (case b of True \<Rightarrow> x | False \<Rightarrow> y)"
  by (cases b) simp_all

lemma post_list [post_intros]:
  "(xs = [] \<Longrightarrow> post Q x) \<Longrightarrow> (\<And>y ys. xs = y # ys \<Longrightarrow> post Q (f y ys)) \<Longrightarrow> post Q (case xs of [] \<Rightarrow> x | y # ys \<Rightarrow> f y ys)"
  by (cases xs) simp_all

lemma post_cdo_value [post_intros]:
  "post Q a \<Longrightarrow> (\<And>b. v = CBool b \<Longrightarrow> post Q (f b)) \<Longrightarrow> (\<And>n. v = CNumber n \<Longrightarrow> post Q (g n)) \<Longrightarrow>
   (\<And>x. v = CString x \<Longrightarrow> post Q (h x)) \<Longrightarrow> (\<And>x. v = CObject x \<Longrightarrow> post Q (k x)) \<Longrightarrow> (\<And>x. v = CArray x \<Longrightarrow> post Q (l x)) \<Longrightarrow>
   (\<And>x. v = CFunction x \<Longrightarrow> post Q (m x)) \<Longrightarrow> (\<And>x. v = CNative x \<Longrightarrow> post Q (n x)) \<Longrightarrow>
   post Q (case v of CNull \<Rightarrow> a | CBool b \<Rightarrow> f b | CNumber n \<Rightarrow> g n | CString x \<Rightarrow> h x | CObject x \<Rightarrow> k x | CArray x \<Rightarrow> l x |
     CFunction x \<Rightarrow> m x | CNative x \<Rightarrow> n x)"
  by (cases v) simp_all

lemma post_fn [post_intros]:
  "post Q a \<Longrightarrow> (\<And>x y z. post Q (f x y z)) \<Longrightarrow> (\<And>x y. post Q (g x y)) \<Longrightarrow>
   post Q (case p of FnZero \<Rightarrow> a | FnScript x y z \<Rightarrow> f x y z | FnNative x y \<Rightarrow> g x y)"
  by (cases p) simp_all

lemma post_kind [post_intros]:
  "post Q a \<Longrightarrow> post Q b \<Longrightarrow> post Q c \<Longrightarrow> post Q d \<Longrightarrow> post Q e \<Longrightarrow>
   post Q (case k of OBJ_OBJECT \<Rightarrow> a | OBJ_ARRAY \<Rightarrow> b | OBJ_FUNCTION \<Rightarrow> c | OBJ_NATIVE \<Rightarrow> d | OBJ_THREAD \<Rightarrow> e)"
  by (cases k) simp_all

lemma post_value [post_intros]:
  "post Q a \<Longrightarrow> (\<And>b. v = VBool b \<Longrightarrow> post Q (f b)) \<Longrightarrow> (\<And>n. v = VNumber n \<Longrightarrow> post Q (g n)) \<Longrightarrow>
   (\<And>x. v = VString x \<Longrightarrow> post Q (h x)) \<Longrightarrow> (\<And>x. v = VObject x \<Longrightarrow> post Q (k x)) \<Longrightarrow>
   post Q (case v of VNull \<Rightarrow> a | VBool b \<Rightarrow> f b | VNumber n \<Rightarrow> g n | VString x \<Rightarrow> h x | VObject x \<Rightarrow> k x)"
  by (cases v) simp_all

section \<open>Staying within bounds\<close>

text \<open>What a step from \<open>s0\<close> to \<open>s\<close> leaves alone, and the arrays it does not outgrow.\<close>

definition loops_within :: "nat \<Rightarrow> cando_vm \<Rightarrow> bool" where
  "loops_within b s \<longleftrightarrow> vm_loop_depth s \<le> b \<and> (\<forall>tf \<in> set (vm_tries s). tf_loop_save tf \<le> b)"

definition vm_within :: "cando_vm \<Rightarrow> cando_vm \<Rightarrow> bool" where
  "vm_within s0 s \<longleftrightarrow>
     m_chunks s = m_chunks s0 \<and> m_metas s = m_metas s0 \<and> vm_native_count s = vm_native_count s0 \<and>
     vm_string_proto s = vm_string_proto s0 \<and> vm_array_proto s = vm_array_proto s0 \<and>
     length (vm_stack s) \<le> max STACK_MAX (length (vm_stack s0)) \<and>
     length (vm_frames s) \<le> max FRAMES_MAX (length (vm_frames s0)) \<and>
     length (vm_tries s) \<le> max TRY_MAX (length (vm_tries s0)) \<and>
     length (vm_loops s) \<le> max LOOP_MAX (length (vm_loops s0)) \<and>
     (\<forall>b \<ge> LOOP_MAX. loops_within b s0 \<longrightarrow> loops_within b s) \<and>
     (length (vm_error_vals s0) = MAX_THROW_ARGS \<longrightarrow> length (vm_error_vals s) = MAX_THROW_ARGS) \<and>
     (length (vm_thread_results s0) = MAX_THROW_ARGS \<longrightarrow> length (vm_thread_results s) = MAX_THROW_ARGS)"

lemma within_refl: "vm_within s s"
  by (simp add: vm_within_def)

lemma within_trans:
  assumes ab: "vm_within a b" and bc: "vm_within b c"
  shows "vm_within a c"
proof -
  have *: "n \<le> max m k" if "n \<le> max m l" "l \<le> max m k" for m n k l :: nat
    using that by linarith
  note ab = ab [unfolded vm_within_def] and bc = bc [unfolded vm_within_def]
  have "length (vm_stack c) \<le> max STACK_MAX (length (vm_stack a))" "length (vm_frames c) \<le> max FRAMES_MAX (length (vm_frames a))"
    "length (vm_tries c) \<le> max TRY_MAX (length (vm_tries a))" "length (vm_loops c) \<le> max LOOP_MAX (length (vm_loops a))"
    using ab bc by (blast intro: *)+
  moreover have "\<forall>b \<ge> LOOP_MAX. loops_within b a \<longrightarrow> loops_within b c" using ab bc by blast
  ultimately show ?thesis unfolding vm_within_def using ab bc by simp
qed

lemma within_mem:
  assumes "vm_within s0 s"
  shows "vm_within s0 (s\<lparr>m_strings := H\<rparr>)" "vm_within s0 (s\<lparr>m_cdo := C\<rparr>)" "vm_within s0 (s\<lparr>m_objs := objs\<rparr>)"
    "vm_within s0 (s\<lparr>m_intern := t\<rparr>)" "vm_within s0 (s\<lparr>m_handles := ht\<rparr>)" "vm_within s0 (s\<lparr>m_globals := g\<rparr>)"
    "vm_within s0 (s\<lparr>m_closures := cls\<rparr>)" "vm_within s0 (s\<lparr>m_upvals := U\<rparr>)" "vm_within s0 (s\<lparr>m_malloc := as\<rparr>)"
  using assms by (simp_all add: vm_within_def loops_within_def)

lemma within_registers:
  assumes "vm_within s0 s"
  shows "vm_within s0 (s\<lparr>vm_ip := ip\<rparr>)" "vm_within s0 (s\<lparr>vm_fp := ip\<rparr>)" "vm_within s0 (s\<lparr>vm_last_ret_count := i\<rparr>)"
    "vm_within s0 (s\<lparr>vm_spread_extra := i\<rparr>)" "vm_within s0 (s\<lparr>vm_array_extra := i\<rparr>)" "vm_within s0 (s\<lparr>vm_has_error := b\<rparr>)"
    "vm_within s0 (s\<lparr>vm_error_msg := msg\<rparr>)" "vm_within s0 (s\<lparr>vm_error_count := n\<rparr>)" "vm_within s0 (s\<lparr>vm_eval_stop := st\<rparr>)"
    "vm_within s0 (s\<lparr>vm_eval_results := vs\<rparr>)" "vm_within s0 (s\<lparr>vm_thread_stop := st\<rparr>)"
    "vm_within s0 (s\<lparr>vm_thread_count := n\<rparr>)" "vm_within s0 (s\<lparr>vm_open_upvalues := us\<rparr>)"
  using assms by (simp_all add: vm_within_def loops_within_def)

lemma within_stack:
  "vm_within s0 s \<Longrightarrow> length st \<le> max STACK_MAX (length (vm_stack s)) \<Longrightarrow> vm_within s0 (s\<lparr>vm_stack := st\<rparr>)"
  by (auto simp: vm_within_def loops_within_def)

lemma within_frames:
  "vm_within s0 s \<Longrightarrow> length fs \<le> max FRAMES_MAX (length (vm_frames s)) \<Longrightarrow> vm_within s0 (s\<lparr>vm_frames := fs\<rparr>)"
  by (auto simp: vm_within_def loops_within_def)

lemma within_loops:
  "vm_within s0 s \<Longrightarrow> length ls \<le> max LOOP_MAX (length (vm_loops s)) \<Longrightarrow> vm_within s0 (s\<lparr>vm_loops := ls\<rparr>)"
  by (auto simp: vm_within_def loops_within_def)

lemma within_tries:
  "vm_within s0 s \<Longrightarrow> length ts \<le> max TRY_MAX (length (vm_tries s)) \<Longrightarrow>
   tf_loop_save ` set ts \<subseteq> insert (vm_loop_depth s) (tf_loop_save ` set (vm_tries s)) \<Longrightarrow> vm_within s0 (s\<lparr>vm_tries := ts\<rparr>)"
  unfolding vm_within_def loops_within_def by (auto; blast)

lemma loops_within_depth:
  "loops_within b s \<Longrightarrow> LOOP_MAX \<le> b \<Longrightarrow> d \<le> max LOOP_MAX (vm_loop_depth s) \<or> d \<in> tf_loop_save ` set (vm_tries s) \<Longrightarrow>
   loops_within b (s\<lparr>vm_loop_depth := d\<rparr>)"
  unfolding loops_within_def by (elim disjE) auto

lemma within_depth:
  "vm_within s0 s \<Longrightarrow> d \<le> max LOOP_MAX (vm_loop_depth s) \<or> d \<in> tf_loop_save ` set (vm_tries s) \<Longrightarrow>
   vm_within s0 (s\<lparr>vm_loop_depth := d\<rparr>)"
  using loops_within_depth [of _ s d] by (simp add: vm_within_def)

lemma within_error_vals:
  "vm_within s0 s \<Longrightarrow> length vs = length (vm_error_vals s) \<or> length vs = MAX_THROW_ARGS \<Longrightarrow> vm_within s0 (s\<lparr>vm_error_vals := vs\<rparr>)"
  by (auto simp: vm_within_def loops_within_def)

lemma within_thread_results:
  "vm_within s0 s \<Longrightarrow> length (vm_thread_results s) = MAX_THROW_ARGS \<longrightarrow> length vs = MAX_THROW_ARGS \<Longrightarrow>
   vm_within s0 (s\<lparr>vm_thread_results := vs\<rparr>)"
  by (auto simp: vm_within_def loops_within_def)

section \<open>The operations of the machine\<close>

text \<open>A call of an operation that stays within bounds, inside a handler.\<close>

lemma within_bind1 [within_intros]:
  "post (vm_within s0) m \<Longrightarrow> (\<And>s. m = Some s \<Longrightarrow> vm_within s0 s \<Longrightarrow> post Q (f s)) \<Longrightarrow> post Q (Option.bind m f)"
  by (cases m) simp_all

lemma within_bind2 [within_intros]:
  "post (\<lambda>(r, s). vm_within s0 s) m \<Longrightarrow> (\<And>r s. m = Some (r, s) \<Longrightarrow> vm_within s0 s \<Longrightarrow> post Q (f r s)) \<Longrightarrow>
   post Q (Option.bind m (\<lambda>(r, s). f r s))"
  by (cases m) auto

lemma within_bind3 [within_intros]:
  "post (\<lambda>(a, b, s). vm_within s0 s) m \<Longrightarrow> (\<And>a b s. vm_within s0 s \<Longrightarrow> post Q (f a b s)) \<Longrightarrow>
   post Q (Option.bind m (\<lambda>(a, b, s). f a b s))"
  by (cases m) auto

lemma within_map1 [within_intros]:
  "post (vm_within s0) m \<Longrightarrow> (\<And>s. vm_within s0 s \<Longrightarrow> Q (f s)) \<Longrightarrow> post Q (map_option f m)"
  by (cases m) simp_all

lemma within_map2 [within_intros]:
  "post (\<lambda>(r, s). vm_within s0 s) m \<Longrightarrow> (\<And>r s. vm_within s0 s \<Longrightarrow> Q (f r s)) \<Longrightarrow>
   post Q (map_option (\<lambda>(r, s). f r s) m)"
  by (cases m) auto

lemma post_aput [within_intros]:
  "(i < length xs \<Longrightarrow> post Q (f (xs[i := v]))) \<Longrightarrow> post Q (Option.bind (aput xs i v) f)"
  by (cases "i < length xs") (simp_all add: aput_def)

lemma within_pair [within_intros]:
  "vm_within s0 s \<Longrightarrow> (\<lambda>(r, s). vm_within s0 s) (x, s)"
  by simp

lemma within_bound:
  "vm_within s0 s \<Longrightarrow> length (vm_stack s) \<le> max STACK_MAX (length (vm_stack s0))"
  by (simp add: vm_within_def)

lemma within_stack0:
  "vm_within s0 s \<Longrightarrow> length st \<le> max STACK_MAX (length (vm_stack s0)) \<Longrightarrow> vm_within s0 (s\<lparr>vm_stack := st\<rparr>)"
  by (auto simp: vm_within_def loops_within_def)

definition next_within :: "cando_vm \<Rightarrow> vm_next \<Rightarrow> bool" where
  "next_within s0 r = (case r of Dispatch s \<Rightarrow> vm_within s0 s | Handle_error s \<Rightarrow> vm_within s0 s | Leave _ s \<Rightarrow> vm_within s0 s)"

lemma next_within_simps [simp]:
  "next_within s0 (Dispatch s) = vm_within s0 s" "next_within s0 (Handle_error s) = vm_within s0 s"
  "next_within s0 (Leave r s) = vm_within s0 s"
  by (simp_all add: next_within_def)

lemma next_withinI [within_intros]:
  assumes "vm_within s0 s"
  shows "next_within s0 (Dispatch s)" "next_within s0 (Handle_error s)" "next_within s0 (Leave r s)"
  using assms by simp_all

lemma within_mfold [within_intros]:
  assumes "vm_within s0 s" "\<And>x s. vm_within s0 s \<Longrightarrow> post (vm_within s0) (f s x)"
  shows "post (vm_within s0) (mfold f xs s)"
  using assms(1) by (induction xs arbitrary: s) (auto intro!: within_bind1 assms(2))

lemmas bounds_updates = within_mem within_registers within_stack within_frames within_loops within_tries within_depth
  within_error_vals within_thread_results

lemma within_memory [within_intros]:
  assumes "vm_within s0 s"
  shows "post (\<lambda>(r, s). vm_within s0 s) (vm_malloc s)" "post (vm_within s0) (vm_copy s v)" "post (vm_within s0) (vm_release s v)"
    "post (vm_within s0) (cdo_release s c)" "post (vm_within s0) (cdo_copy s c)"
    "post (\<lambda>(r, s). vm_within s0 s) (vm_value_equal s v w)" "post (\<lambda>(r, s). vm_within s0 s) (handle_value s a)"
    "post (vm_within s0) (release_key s a)"
  using assms by (auto simp: vm_malloc_def vm_copy_def vm_release_def cdo_release_def cdo_copy_def vm_value_equal_def
      handle_value_def release_key_def post_eq intro!: bounds_updates split: list.splits)

lemma within_new_string [within_intros]:
  "vm_within s0 s \<Longrightarrow> post (\<lambda>(r, s). vm_within s0 s) (vm_new_string s txt)"
  unfolding vm_new_string_def by (assumption | rule within_intros post_intros bounds_updates)+


lemma within_objects [within_intros]:
  assumes "vm_within s0 s"
  shows "post (\<lambda>(r, s). vm_within s0 s) (new_handle s obj)" "post (\<lambda>(r, s). vm_within s0 s) (vm_intern s txt)"
    "post (\<lambda>(r, s). vm_within s0 s) (cando_bridge_to_cando s c)" "post (\<lambda>(r, s). vm_within s0 s) (cando_bridge_to_cdo s v)"
  unfolding new_handle_def vm_intern_def cando_bridge_to_cando_def cando_bridge_to_cdo_def using assms
  by - (assumption | rule within_intros post_intros bounds_updates | simp)+

lemma within_bridge [within_intros]:
  assumes "vm_within s0 s"
  shows "post (\<lambda>(r, s). vm_within s0 s) (cando_bridge_new_object s)" "post (\<lambda>(r, s). vm_within s0 s) (cando_bridge_new_array s)"
    "post (\<lambda>(r, s). vm_within s0 s) (cando_bridge_intern_key s cs)"
  unfolding cando_bridge_new_object_def cando_bridge_new_array_def cando_bridge_intern_key_def using assms
  by - (assumption | rule within_intros post_intros bounds_updates)+

lemma within_stack_ops [within_intros]:
  assumes "vm_within s0 s"
  shows "post (vm_within s0) (cando_vm_push s v)" "post (\<lambda>(r, s). vm_within s0 s) (cando_vm_pop s)"
    "post (vm_within s0) (put_cell s i v)" "post (\<lambda>(r, s). vm_within s0 s) (read_byte s)"
    "post (\<lambda>(r, s). vm_within s0 s) (read_u16 s)" "post (\<lambda>(r, s). vm_within s0 s) (read_i16 s)"
    "post (vm_within s0) (jump_by s off)" "post (vm_within s0) (sync_ip s)" "post (vm_within s0) (load_frame s)"
    "post (vm_within s0) (vm_close_upvalues s slot)"
  using assms by (auto simp: cando_vm_push_def cando_vm_pop_def put_cell_def read_byte_def read_u16_def read_i16_def
      jump_by_def sync_ip_def load_frame_def vm_close_upvalues_def post_eq fault_simps intro!: bounds_updates)

lemma within_errors [within_intros]:
  assumes "vm_within s0 s"
  shows "post (vm_within s0) (pop_release s)" "post (vm_within s0) (vm_error_commit s)"
  unfolding pop_release_def vm_error_commit_def using assms
  by - (assumption | rule within_intros post_intros bounds_updates | simp)+

lemma within_runtime_error [within_intros]:
  "vm_within s0 s \<Longrightarrow> post (vm_within s0) (vm_runtime_error s msg)"
  unfolding vm_runtime_error_def by (assumption | rule within_intros post_intros bounds_updates)+


lemma within_pop_release_n [within_intros]:
  "vm_within s0 s \<Longrightarrow> post (vm_within s0) (pop_release_n n s)"
  by (induction n arbitrary: s) (simp_all, (assumption | rule within_intros post_intros bounds_updates)+)

lemma within_push_nulls [within_intros]:
  "vm_within s0 s \<Longrightarrow> post (vm_within s0) (push_nulls n s)"
  by (induction n arbitrary: s) (simp_all, (assumption | rule within_intros post_intros bounds_updates)+)

lemma within_push_copies [within_intros]:
  "vm_within s0 s \<Longrightarrow> post (vm_within s0) (push_copies vs s)"
  by (induction vs arbitrary: s) (simp_all, (assumption | rule within_intros post_intros bounds_updates)+)

lemma within_pop_to [within_intros]:
  "vm_within s0 s \<Longrightarrow> post (vm_within s0) (pop_to n d s)"
  by (induction n arbitrary: s) ((simp only: pop_to.simps, (assumption | rule within_intros post_intros bounds_updates)+)+)

lemma within_to_cdo_all [within_intros]:
  "vm_within s0 s \<Longrightarrow> post (\<lambda>(r, s). vm_within s0 s) (to_cdo_all s vs)"
  by (induction vs arbitrary: s) (simp_all, (assumption | rule within_intros post_intros bounds_updates)+)

lemma within_vm_copies [within_intros]:
  "vm_within s0 s \<Longrightarrow> post (vm_within s0) (vm_copies s vs)"
  by (induction vs arbitrary: s) (simp_all, (assumption | rule within_intros post_intros bounds_updates)+)

lemma within_push_slots [within_intros]:
  "vm_within s0 s \<Longrightarrow> post (vm_within s0) (push_slots k sls s)"
  by (induction sls arbitrary: s) ((simp only: push_slots.simps, (assumption | rule within_intros post_intros bounds_updates)+)+)

lemma within_push_cells [within_intros]:
  "vm_within s0 s \<Longrightarrow> post (vm_within s0) (push_cells cs s)"
  by (induction cs arbitrary: s) (simp_all, (assumption | rule within_intros post_intros bounds_updates)+)

lemma within_push_error_vals [within_intros]:
  "vm_within s0 s \<Longrightarrow> post (vm_within s0) (push_error_vals n s)"
  by (induction n arbitrary: s) ((simp only: push_error_vals.simps, (assumption | rule within_intros post_intros bounds_updates)+)+)

lemma within_pop_error_vals [within_intros]:
  "vm_within s0 s \<Longrightarrow> post (vm_within s0) (pop_error_vals n s)"
proof (induction n arbitrary: s)
  case (Suc n)
  show ?case unfolding pop_error_vals.simps using Suc.prems
    by - (assumption | rule Suc.IH within_intros post_intros bounds_updates | (simp; fail))+
qed simp

lemma within_copy_vars [within_intros]:
  "vm_within s0 s \<Longrightarrow> post (\<lambda>(r, s). vm_within s0 s) (copy_vars n i rets s)"
proof (induction n arbitrary: i s)
  case (Suc n)
  show ?case unfolding copy_vars.simps using Suc.prems
    by - (assumption | rule Suc.IH within_intros post_intros bounds_updates | (simp; fail))+
qed simp

lemma within_mask_loop [within_intros]:
  "vm_within s0 s \<Longrightarrow> post (\<lambda>(r, s). vm_within s0 s) (mask_loop nb bm i vs kept s)"
proof (induction vs arbitrary: i kept s)
  case (Cons v vs)
  show ?case unfolding mask_loop.simps using Cons.prems
    by - (assumption | rule Cons.IH within_intros post_intros bounds_updates | (simp; fail))+
qed simp

lemma within_all_equal [within_intros]:
  "vm_within s0 s \<Longrightarrow> post (\<lambda>(r, s). vm_within s0 s) (all_equal l rs s)"
  by (induction rs arbitrary: s) (simp_all, (assumption | rule within_intros post_intros bounds_updates)+)

lemma within_any_equal [within_intros]:
  "vm_within s0 s \<Longrightarrow> post (\<lambda>(r, s). vm_within s0 s) (any_equal l rs s)"
  by (induction rs arbitrary: s) (simp_all, (assumption | rule within_intros post_intros bounds_updates)+)


text \<open>What the outside of the machine must promise, and what an inner run gives back.\<close>

definition env_within :: "vm_env \<Rightarrow> bool" where
  "env_within env \<longleftrightarrow>
     (\<forall>n s args r s'. env_native env n s args = Some (r, s') \<longrightarrow> vm_within s s') \<and>
     (\<forall>f s cs r s'. env_cdo_native env f s cs = Some (r, s') \<longrightarrow> vm_within s s') \<and>
     (\<forall>s r. env_await env s = Some r \<longrightarrow> next_within s r) \<and> (\<forall>s r. env_thread env s = Some r \<longrightarrow> next_within s r)"

definition run_within :: "vm_runner \<Rightarrow> bool" where
  "run_within run \<longleftrightarrow> (\<forall>s r s'. run s = Some (r, s') \<longrightarrow> vm_within s s')"

lemma next_within_trans: "vm_within s0 s \<Longrightarrow> next_within s r \<Longrightarrow> next_within s0 r"
  by (cases r) (auto intro: within_trans)

lemma within_env [within_intros]:
  assumes "vm_within s0 s" "env_within env"
  shows "post (\<lambda>(r, s). vm_within s0 s) (env_native env n s args)" "post (\<lambda>(r, s). vm_within s0 s) (env_cdo_native env f s cs)"
    "post (next_within s0) (env_await env s)" "post (next_within s0) (env_thread env s)"
  using assms unfolding env_within_def post_eq by (auto intro: within_trans next_within_trans)

lemma within_run [within_intros]:
  assumes "vm_within s0 s" "run_within run"
  shows "post (\<lambda>(r, s). vm_within s0 s) (run s)"
  using assms unfolding run_within_def post_eq by (auto intro: within_trans)

lemma within_throw_error [within_intros]:
  assumes "vm_within s0 s"
  shows "post (next_within s0) (throw_error s msg)"
    "post (next_within s0) (dispatch_push s v)"
  unfolding throw_error_def dispatch_push_def using assms
  by - (assumption | rule within_intros post_intros bounds_updates)+

lemma within_pop_down_to [within_intros]:
  assumes "vm_within s0 s"
  shows "post (vm_within s0) (pop_down_to d s)"
    "post (vm_within s0) (reset_thread_results s)"
  unfolding pop_down_to_def reset_thread_results_def using assms
  by - (assumption | rule within_intros post_intros bounds_updates | (simp; fail))+

lemma within_run_inner [within_intros]:
  assumes "vm_within s0 s" "run_within run"
  shows "post (\<lambda>(r, s). vm_within s0 s) (run_inner run s)"
  unfolding run_inner_def using assms
  by - (assumption | rule within_intros post_intros bounds_updates)+

lemma within_frames_grow [within_intros]:
  assumes "vm_within s0 s" "length (vm_frames s) < FRAMES_MAX"
  shows "post (vm_within s0) (enter_frame s cl ip slots fl n)"
    "post (vm_within s0) (call_with_args s cl pc args)"
  unfolding enter_frame_def call_with_args_def push_frame_def using assms
  by - (assumption | rule within_intros post_intros bounds_updates | (simp; fail))+


lemma within_call_closure [within_intros]:
  assumes "vm_within s0 s" "run_within run" "env_within env"
  shows "post (vm_within s0) (vm_call_closure_with_args run s obj args)"
  unfolding vm_call_closure_with_args_def using assms
  by - (assumption | rule within_intros post_intros bounds_updates | (simp; fail))+

lemma within_call_value [within_intros]:
  assumes "vm_within s0 s" "run_within run" "env_within env"
  shows "post (\<lambda>(r, s). vm_within s0 s) (cando_vm_call_value env run s v args)"
  unfolding cando_vm_call_value_def using assms
  by - (assumption | rule within_intros post_intros bounds_updates | (simp; fail))+

lemma within_call_meta_parts [within_intros]:
  assumes "vm_within s0 s" "run_within run" "env_within env"
  shows "post (\<lambda>(r, s). vm_within s0 s) (call_meta_native env s n args)"
    "post (\<lambda>(r, s). vm_within s0 s) (call_meta_pc run s n args)"
  unfolding call_meta_native_def call_meta_pc_def using assms
  by - (assumption | rule within_intros post_intros bounds_updates | (simp; fail))+

lemma within_call_meta_object [within_intros]:
  assumes "vm_within s0 s" "run_within run" "env_within env"
  shows "post (\<lambda>(r, s). vm_within s0 s) (call_meta_object env run s h args)"
  unfolding call_meta_object_def using assms
  by - (assumption | rule within_intros post_intros bounds_updates | (simp; fail))+

lemma within_call_meta [within_intros]:
  assumes "vm_within s0 s" "run_within run" "env_within env"
  shows "post (\<lambda>(r, s). vm_within s0 s) (cando_vm_call_meta env run s h key args)"
  unfolding cando_vm_call_meta_def using assms
  by - (assumption | rule within_intros post_intros bounds_updates | (simp; fail))+


section \<open>The instructions\<close>

lemma within_values [within_intros]:
  assumes "vm_within s0 s"
  shows "post (next_within s0) (op_const s)"
    "post (next_within s0) (op_null s)"
    "post (next_within s0) (op_true s)"
    "post (next_within s0) (op_false s)"
    "post (next_within s0) (op_pop s)"
    "post (next_within s0) (op_pop_n s)"
    "post (next_within s0) (op_dup s)"
    "post (next_within s0) (op_load_local s)"
    "post (next_within s0) (op_store_local s)"
    "post (next_within s0) (op_def_local s)"
  unfolding op_const_def op_null_def op_true_def op_false_def op_pop_def op_pop_n_def op_dup_def op_load_local_def op_store_local_def op_def_local_def  using assms
  by - (assumption | rule within_intros post_intros bounds_updates | (simp; fail))+

lemma within_set_global [within_intros]:
  "vm_within s0 s \<Longrightarrow> post (\<lambda>(r, s). vm_within s0 s) (set_global s name v c)"
  by (auto simp: set_global_def post_eq intro!: bounds_updates)

lemma within_upvalue_put [within_intros]:
  assumes "vm_within s0 s"
  shows "post (vm_within s0) (upvalue_put s a u v)"
  unfolding upvalue_put_def using assms
  by - (assumption | rule within_intros post_intros bounds_updates | (simp; fail))+

lemma within_globals [within_intros]:
  assumes "vm_within s0 s"
  shows "post (next_within s0) (op_load_global s)"
    "post (next_within s0) (op_store_global s)"
    "post (next_within s0) (op_def_global s)"
    "post (next_within s0) (op_def_const_global s)"
    "post (next_within s0) (op_load_upval s)"
    "post (next_within s0) (op_store_upval s)"
    "post (next_within s0) (op_close_upval s)"
  unfolding op_load_global_def op_store_global_def op_def_global_def op_def_const_global_def op_load_upval_def op_store_upval_def op_close_upval_def def_global_def using assms
  by - (assumption | rule within_intros post_intros bounds_updates | (simp; fail))+

lemma within_release2 [within_intros]:
  assumes "vm_within s0 s"
  shows "post (vm_within s0) (release2 s a b)"
  unfolding release2_def using assms
  by - (assumption | rule within_intros post_intros bounds_updates)+

lemma within_try_binary_meta [within_intros]:
  assumes "vm_within s0 s" "run_within run" "env_within env"
    "\<And>s. vm_within s0 s \<Longrightarrow> post (next_within s0) (done_k s)" "\<And>s. vm_within s0 s \<Longrightarrow> post (next_within s0) (k s)"
  shows "post (next_within s0) (try_binary_meta env run name s a b args done_k k)"
  unfolding try_binary_meta_def using assms(1-3)
  by - (assumption | rule assms(4,5) within_intros post_intros bounds_updates)+

lemma within_meta_result [within_intros]:
  assumes "vm_within s0 s"
  shows "post (next_within s0) (meta_result a b s)"
  unfolding meta_result_def using assms
  by - (assumption | rule within_intros post_intros bounds_updates)+

lemma within_arith [within_intros]:
  assumes "vm_within s0 s" "run_within run" "env_within env"
  shows "post (next_within s0) (op_add env run s)"
    "post (next_within s0) (op_sub env run s)"
    "post (next_within s0) (op_mul env run s)"
    "post (next_within s0) (op_div env run s)"
    "post (next_within s0) (op_mod env run s)"
    "post (next_within s0) (op_neg env run s)"
  unfolding op_add_def op_sub_def op_mul_def op_div_def op_mod_def op_neg_def arith_op_def using assms
  by - (assumption | rule within_intros post_intros bounds_updates | (simp; fail))+

lemma within_pow [within_intros]:
  assumes "vm_within s0 s" "run_within run" "env_within env"
  shows "post (next_within s0) (op_pow env run s)"
  unfolding op_pow_def arith_op_def using assms
  by - (assumption | rule within_intros post_intros bounds_updates)+

lemma within_compare [within_intros]:
  assumes "vm_within s0 s" "run_within run" "env_within env"
  shows "post (next_within s0) (op_eq env run s)"
    "post (next_within s0) (op_neq env run s)"
    "post (next_within s0) (op_lt env run s)"
    "post (next_within s0) (op_gt env run s)"
    "post (next_within s0) (op_leq env run s)"
    "post (next_within s0) (op_geq env run s)"
  unfolding op_eq_def op_neq_def op_lt_def op_gt_def op_leq_def op_geq_def cmp_op_def using assms
  by - (assumption | rule within_intros post_intros bounds_updates | (simp; fail))+

lemma within_steps [within_intros]:
  assumes "vm_within s0 s"
  shows "post (next_within s0) (op_pos s)"
    "post (next_within s0) (op_incr s)"
    "post (next_within s0) (op_decr s)"
    "post (next_within s0) (op_range_check s)"
    "post (next_within s0) (op_bit_and s)"
    "post (next_within s0) (op_bit_or s)"
    "post (next_within s0) (op_bit_xor s)"
    "post (next_within s0) (op_bit_not s)"
    "post (next_within s0) (op_lshift s)"
    "post (next_within s0) (op_rshift s)"
    "post (next_within s0) (op_not s)"
    "post (next_within s0) (op_and_jump s)"
    "post (next_within s0) (op_or_jump s)"
  unfolding op_pos_def op_incr_def op_decr_def op_range_check_def op_bit_and_def op_bit_or_def op_bit_xor_def op_bit_not_def op_lshift_def op_rshift_def op_not_def op_and_jump_def op_or_jump_def step_top_def bit_op_def peek_jump_def using assms
  by - (assumption | rule within_intros post_intros bounds_updates | (simp; fail))+


lemma within_decides [within_intros]:
  assumes "vm_within s0 s"
  shows "post (\<lambda>(r, s). vm_within s0 s) (none_equal l rs s)"
    "post (\<lambda>(r, s). vm_within s0 s) (all_numbers rel l rs s)"
  unfolding none_equal_def all_numbers_def using assms
  by - (assumption | rule within_intros post_intros bounds_updates)+

lemma within_compare_n [within_intros]:
  assumes "vm_within s0 s" "\<And>l rs s. vm_within s0 s \<Longrightarrow> post (\<lambda>(r, s). vm_within s0 s) (decide l rs s)"
  shows "post (next_within s0) (compare_n decide n s)"
  unfolding compare_n_def using assms(1)
  by - (assumption | rule assms(2) within_intros post_intros bounds_updates)+

lemma within_stack_compares [within_intros]:
  assumes "vm_within s0 s"
  shows "post (next_within s0) (op_eq_stack s)"
    "post (next_within s0) (op_neq_stack s)"
    "post (next_within s0) (op_lt_stack s)"
    "post (next_within s0) (op_gt_stack s)"
    "post (next_within s0) (op_leq_stack s)"
    "post (next_within s0) (op_geq_stack s)"
  unfolding op_eq_stack_def op_neq_stack_def op_lt_stack_def op_gt_stack_def op_leq_stack_def op_geq_stack_def stack_op_def using assms
  by - (assumption | rule within_intros post_intros bounds_updates | (simp; fail))+

lemma within_spread_compares [within_intros]:
  assumes "vm_within s0 s"
  shows "post (next_within s0) (op_eq_spread s)"
    "post (next_within s0) (op_neq_spread s)"
    "post (next_within s0) (op_lt_spread s)"
    "post (next_within s0) (op_gt_spread s)"
    "post (next_within s0) (op_leq_spread s)"
    "post (next_within s0) (op_geq_spread s)"
  unfolding op_eq_spread_def op_neq_spread_def op_lt_spread_def op_gt_spread_def op_leq_spread_def op_geq_spread_def spread_op_def using assms
  by - (assumption | rule within_intros post_intros bounds_updates | (simp; fail))+

lemma within_masks [within_intros]:
  assumes "vm_within s0 s"
  shows "post (next_within s0) (op_mask_pass s)"
    "post (next_within s0) (op_mask_skip s)"
    "post (next_within s0) (op_spread_ret s)"
    "post (next_within s0) (op_array_spread s)"
    "post (next_within s0) (op_truncate_ret s)"
  unfolding op_mask_pass_def op_mask_skip_def op_spread_ret_def op_array_spread_def op_truncate_ret_def  using assms
  by - (assumption | rule within_intros post_intros bounds_updates | (simp; fail))+

lemma mask_loop_length:
  "mask_loop nb bm i vs kept s = Some (out, s') \<Longrightarrow> length out \<le> length kept + length vs"
  by (induction vs arbitrary: i kept s) (fastforce simp: fault_simps split: if_splits)+

lemma mask_result_length:
  "vm_within s0 s \<Longrightarrow> mask_loop nb bm i (drop n (vm_stack s)) [] s = Some (out, s') \<Longrightarrow> n \<le> length (vm_stack s) \<Longrightarrow>
   length (take n st @ out) \<le> max STACK_MAX (length (vm_stack s0))"
  using mask_loop_length [of nb bm i _ "[]" s out s'] within_bound [of s0 s] by fastforce

lemma within_mask_apply [within_intros]:
  assumes "vm_within s0 s"
  shows "post (next_within s0) (op_mask_apply s)"
  unfolding op_mask_apply_def using assms
  by - (assumption | rule within_intros post_intros within_stack0 bounds_updates mask_result_length | (simp; fail))+

lemma within_jumps [within_intros]:
  assumes "vm_within s0 s"
  shows "post (next_within s0) (op_jump s)"
    "post (next_within s0) (op_jump_if_false s)"
    "post (next_within s0) (op_jump_if_true s)"
    "post (next_within s0) (op_loop s)"
  unfolding op_jump_def op_jump_if_false_def op_jump_if_true_def op_loop_def peek_jump_def using assms
  by - (assumption | rule within_intros post_intros bounds_updates | (simp; fail))+

lemma within_break_loop_state [within_intros]:
  assumes "vm_within s0 s"
  shows "post (vm_within s0) (break_loop_state t s)"
  unfolding break_loop_state_def using assms
  by - (assumption | rule within_intros post_intros bounds_updates)+

lemma within_not_implemented [within_intros]:
  assumes "vm_within s0 s"
  shows "post (next_within s0) (op_tail_call s)"
    "post (next_within s0) (op_load_vararg s)"
    "post (next_within s0) (op_vararg_len s)"
    "post (next_within s0) (op_async s)"
    "post (next_within s0) (op_yield s)"
  unfolding op_tail_call_def op_load_vararg_def op_vararg_len_def op_async_def op_yield_def  using assms
  by - (assumption | rule within_intros post_intros bounds_updates | (simp; fail))+

lemma within_try_end [within_intros]:
  assumes "vm_within s0 s"
  shows "post (next_within s0) (op_try_end s)"
proof -
  have "set (tl (vm_tries s)) \<subseteq> set (vm_tries s)" by (cases "vm_tries s") auto
  then show ?thesis using assms by (auto simp: op_try_end_def intro!: bounds_updates)
qed

lemma within_depth_before:
  assumes "vm_within s0 s" "vm_within s0 t"
  shows "vm_within s0 (s\<lparr>vm_loop_depth := vm_loop_depth t - 1 - k\<rparr>)"
proof -
  have "loops_within b (s\<lparr>vm_loop_depth := vm_loop_depth t - 1 - k\<rparr>)" if "LOOP_MAX \<le> b" "loops_within b s0" for b
  proof -
    have "loops_within b s" "loops_within b t" using that assms by (auto simp: vm_within_def)
    then show ?thesis by (auto simp: loops_within_def intro: order.trans [OF diff_le_self])
  qed
  then show ?thesis using assms(1) by (simp add: vm_within_def)
qed

lemma within_break [within_intros]:
  assumes "vm_within s0 s"
  shows "post (next_within s0) (op_break s)" "post (next_within s0) (op_continue s)"
  unfolding op_break_def op_continue_def using assms
  by - (assumption | rule within_depth_before | rule within_intros post_intros bounds_updates)+

lemma within_loop_end [within_intros]:
  "vm_within s0 s \<Longrightarrow> post (next_within s0) (op_loop_end s)"
  by (auto simp: op_loop_end_def intro!: bounds_updates)

lemma within_handlers [within_intros]:
  assumes "vm_within s0 s"
  shows "post (next_within s0) (op_try_begin s)"
    "post (next_within s0) (op_catch_begin s)"
    "post (next_within s0) (op_finally_begin s)"
    "post (next_within s0) (op_throw s)"
    "post (next_within s0) (op_reraise s)"
  unfolding op_try_begin_def op_catch_begin_def op_finally_begin_def op_throw_def op_reraise_def clear_error_vals_def using assms
  by - (assumption | rule within_intros post_intros bounds_updates | (auto; fail))+

lemma within_loop_mark [within_intros]:
  assumes "vm_within s0 s"
  shows "post (next_within s0) (op_loop_mark s)"
  unfolding op_loop_mark_def using assms
  by - (assumption | rule within_intros post_intros bounds_updates | (auto simp: put_next_def split: if_splits; fail))+


lemma within_unwind_frames [within_intros]:
  "vm_within s0 s \<Longrightarrow> post (vm_within s0) (unwind_frames n save s)"
proof (induction n arbitrary: s)
  case (Suc n)
  show ?case unfolding unwind_frames.simps using Suc.prems
    by - (assumption | rule Suc.IH within_intros post_intros bounds_updates | (simp; fail))+
qed simp

text \<open>Handlers taken over from the start of the step.\<close>

definition tries_within :: "cando_vm \<Rightarrow> try_frame list \<Rightarrow> bool" where
  "tries_within s0 ts \<longleftrightarrow>
     length ts \<le> max TRY_MAX (length (vm_tries s0)) \<and>
     (\<forall>b \<ge> LOOP_MAX. loops_within b s0 \<longrightarrow> (\<forall>tf \<in> set ts. tf_loop_save tf \<le> b))"

lemma within_tries_of: "vm_within s0 s \<Longrightarrow> tries_within s0 (vm_tries s)"
  by (simp add: vm_within_def tries_within_def loops_within_def)

lemma tries_within_Cons: "tries_within s0 (tf # ts) \<Longrightarrow> tries_within s0 ts"
  by (auto simp: tries_within_def)

lemma loops_within_restore:
  "loops_within b (s\<lparr>vm_loop_depth := d, vm_tries := ts\<rparr>) \<longleftrightarrow> d \<le> b \<and> (\<forall>tf \<in> set ts. tf_loop_save tf \<le> b)"
  by (simp add: loops_within_def)

lemma within_restore:
  "vm_within s0 s \<Longrightarrow> tries_within s0 (tf # ts) \<Longrightarrow> vm_within s0 (s\<lparr>vm_loop_depth := tf_loop_save tf, vm_tries := ts\<rparr>)"
  unfolding vm_within_def tries_within_def loops_within_restore by (elim conjE) (simp del: le_max_iff_disj)

lemma within_unwind_tries:
  "vm_within s0 s \<Longrightarrow> tries_within s0 ts \<Longrightarrow> post (next_within s0) (unwind_tries ts s)"
proof (induction ts arbitrary: s)
  case (Cons tf ts)
  show ?case unfolding unwind_tries.simps using Cons.prems
    by - (assumption | rule within_restore | rule Cons.IH within_intros post_intros tries_within_Cons bounds_updates)+
qed simp

lemma within_handle_error [within_intros]:
  "vm_within s0 s \<Longrightarrow> post (next_within s0) (vm_handle_error s)"
  by (simp add: vm_handle_error_def within_unwind_tries within_tries_of)


lemma within_object_updates [within_intros]:
  assumes "vm_within s0 s"
  shows "post (vm_within s0) (array_push_at s a c)"
    "post (vm_within s0) (rawset_at s a key c fl)"
    "post (vm_within s0) (push_found s r)"
  unfolding array_push_at_def rawset_at_def put_object_def push_found_def using assms
  by - (assumption | rule within_intros post_intros bounds_updates)+

lemma within_array_of_values [within_intros]:
  "vm_within s0 s \<Longrightarrow> post (vm_within s0) (array_of_values a vs s)"
  by (induction vs arbitrary: s) (simp_all, (assumption | rule within_intros post_intros bounds_updates)+)

lemma within_new_objects [within_intros]:
  assumes "vm_within s0 s"
  shows "post (next_within s0) (op_new_object s)"
  unfolding op_new_object_def  using assms
  by - (assumption | rule within_intros post_intros bounds_updates | (auto; fail))+

lemma within_array [within_intros]:
  assumes "vm_within s0 s"
  shows "post (next_within s0) (op_new_array s)"
  unfolding op_new_array_def using assms
  by - (assumption | rule within_intros post_intros bounds_updates | (auto dest!: within_bound; fail))+

lemma within_string_field [within_intros]:
  assumes "vm_within s0 s"
  shows "post (vm_within s0) (string_field s ci)"
  unfolding string_field_def using assms
  by - (assumption | rule within_intros post_intros bounds_updates)+

lemma within_get [within_intros]:
  assumes "vm_within s0 s"
  shows "post (next_within s0) (op_get_field s)"
    "post (next_within s0) (op_get_index s)"
  unfolding op_get_field_def op_get_index_def  using assms
  by - (assumption | rule within_intros post_intros bounds_updates | (auto; fail))+

lemma within_try_newindex [within_intros]:
  assumes "vm_within s0 s" "run_within run" "env_within env"
  shows "post (\<lambda>(r, s). vm_within s0 s) (try_newindex env run s h key kv v)"
  unfolding try_newindex_def using assms
  by - (assumption | rule within_intros post_intros bounds_updates)+

lemma within_set_field [within_intros]:
  assumes "vm_within s0 s" "run_within run" "env_within env"
  shows "post (next_within s0) (op_set_field env run s)"
  unfolding op_set_field_def using assms
  by - (assumption | rule within_intros post_intros bounds_updates)+

lemma within_set_index [within_intros]:
  assumes "vm_within s0 s" "run_within run" "env_within env"
  shows "post (next_within s0) (op_set_index env run s)"
  unfolding op_set_index_def put_object_def using assms
  by - (assumption | rule within_intros post_intros bounds_updates | (auto; fail))+

lemma within_len [within_intros]:
  assumes "vm_within s0 s" "run_within run" "env_within env"
  shows "post (next_within s0) (op_len env run s)"
  unfolding op_len_def using assms
  by - (assumption | rule within_intros post_intros bounds_updates)+


lemma within_collect_array [within_intros]:
  assumes "vm_within s0 s"
  shows "post (next_within s0) (op_keys_of s)"
    "post (next_within s0) (op_vals_of s)"
  unfolding op_keys_of_def op_vals_of_def collect_array_def using assms
  by - (assumption | rule within_intros post_intros bounds_updates)+

lemma within_push_counters [within_intros]:
  assumes "vm_within s0 s"
  shows "post (vm_within s0) (push_counters n s)"
  unfolding push_counters_def using assms
  by - (assumption | rule within_intros post_intros bounds_updates)+

lemma within_unpack [within_intros]:
  assumes "vm_within s0 s"
  shows "post (next_within s0) (op_unpack s)"
    "post (next_within s0) (op_for_init s)"
    "post (next_within s0) (op_pipe_init s)"
  unfolding op_unpack_def op_for_init_def op_pipe_init_def  using assms
  by - (assumption | rule within_intros post_intros bounds_updates | (auto; fail))+

lemma within_ranges [within_intros]:
  assumes "vm_within s0 s"
  shows "post (next_within s0) (op_range_asc s)"
    "post (next_within s0) (op_range_desc s)"
  unfolding op_range_asc_def op_range_desc_def range_op_def using assms
  by - (assumption | rule within_intros post_intros bounds_updates)+

lemma within_next_value [within_intros]:
  assumes "vm_within s0 s"
  shows "post (next_within s0) (next_value i n s)"
  unfolding next_value_def using assms
  by - (assumption | rule within_intros post_intros bounds_updates)+

lemma within_iterate [within_intros]:
  assumes "vm_within s0 s"
  shows "post (next_within s0) (op_for_next s)"
    "post (next_within s0) (op_for_over_init s)"
    "post (next_within s0) (op_pipe_next s)"
    "post (next_within s0) (op_pipe_end s)"
  unfolding op_for_next_def op_for_over_init_def op_pipe_next_def op_pipe_end_def  using assms
  by - (assumption | rule within_intros post_intros bounds_updates | (auto; fail))+

lemma within_for_over_next [within_intros]:
  assumes "vm_within s0 s" "run_within run" "env_within env"
  shows "post (next_within s0) (op_for_over_next env run s)"
  unfolding op_for_over_next_def using assms
  by - (assumption | rule within_intros post_intros bounds_updates)+

lemma within_append_result [within_intros]:
  assumes "vm_within s0 s"
  shows "post (vm_within s0) (append_result v s)"
  unfolding append_result_def using assms
  by - (assumption | rule within_intros post_intros bounds_updates)+

lemma within_collect [within_intros]:
  assumes "vm_within s0 s"
  shows "post (next_within s0) (op_pipe_collect s)"
    "post (next_within s0) (op_filter_collect s)"
    "post (next_within s0) (op_new_class s)"
    "post (next_within s0) (op_bind_method s)"
    "post (next_within s0) (op_inherit s)"
  unfolding op_pipe_collect_def op_filter_collect_def op_new_class_def op_bind_method_def op_inherit_def  using assms
  by - (assumption | rule within_intros post_intros bounds_updates | (auto; fail))+

lemma within_closure [within_intros]:
  assumes "vm_within s0 s"
  shows "post (next_within s0) (op_closure s)"
  unfolding op_closure_def  using assms
  by - (assumption | rule within_intros post_intros bounds_updates | (auto; fail))+

lemma sync_ip_frames: "sync_ip s = Some s' \<Longrightarrow> length (vm_frames s') = length (vm_frames s)"
  by (auto simp: sync_ip_def fault_simps)

lemma within_enter_function [within_intros]:
  assumes "vm_within s0 s"
  shows "post (next_within s0) (enter_function s cl pc slots fl n)"
  unfolding enter_function_def call_overflow_def using assms
  by - (assumption | rule within_intros post_intros bounds_updates | (simp add: sync_ip_frames; fail))+

lemma within_slides [within_intros]:
  assumes "vm_within s0 s"
  shows "post (vm_within s0) (slide_down s b n)"
    "post (vm_within s0) (release_cells s i n)"
  unfolding slide_down_def release_cells_def using assms
  by - (assumption | rule within_intros post_intros bounds_updates | (auto dest!: within_bound; fail))+

lemma vm_release_stack: "vm_release s v = Some s' \<Longrightarrow> vm_stack s' = vm_stack s"
  by (auto simp: vm_release_def)

lemma releases_stack: "mfold vm_release vs s = Some s' \<Longrightarrow> vm_stack s' = vm_stack s"
  by (induction vs arbitrary: s) (auto simp: fault_simps vm_release_stack)

lemma release_cells_stack: "release_cells s i n = Some s' \<Longrightarrow> vm_stack s' = vm_stack s \<and> i + n \<le> length (vm_stack s)"
  by (auto simp: release_cells_def fault_simps releases_stack)

lemma within_call_native [within_intros]:
  assumes "vm_within s0 s" "env_within env"
  shows "post (next_within s0) (call_native env s n slot argc)"
  unfolding call_native_def using assms
  by - (assumption | rule within_intros post_intros bounds_updates | (auto simp: fault_simps dest!: release_cells_stack vm_release_stack; fail))+

lemma within_op_call [within_intros]:
  assumes "vm_within s0 s" "env_within env"
  shows "post (next_within s0) (op_call env s)"
  unfolding op_call_def using assms
  by - (assumption | rule within_intros post_intros bounds_updates)+

lemma within_find_method [within_intros]:
  assumes "vm_within s0 s"
  shows "post (\<lambda>(r, s). vm_within s0 s) (find_method s r ci)"
  unfolding find_method_def using assms
  by - (assumption | rule within_intros post_intros bounds_updates)+

lemma within_keep_receiver [within_intros]:
  assumes "vm_within s0 s"
  shows "post (next_within s0) (keep_receiver s b n)"
  unfolding keep_receiver_def using assms
  by - (assumption | rule within_intros post_intros bounds_updates | (auto simp: fault_simps dest!: release_cells_stack vm_release_stack; fail))+

lemma within_methods [within_intros]:
  assumes "vm_within s0 s" "env_within env"
  shows "post (next_within s0) (method_native env s n b argc fl)"
    "post (next_within s0) (method_cdo_native env s f b argc fl)"
  unfolding method_native_def method_cdo_native_def using assms
  by - (assumption | rule within_intros post_intros bounds_updates | (auto simp: fault_simps dest!: release_cells_stack vm_release_stack; fail))+

lemma within_method_pc [within_intros]:
  assumes "vm_within s0 s"
  shows "post (next_within s0) (method_pc s n b fl)"
  unfolding method_pc_def call_overflow_def push_frame_def using assms
  by - (assumption | rule within_intros post_intros bounds_updates | (simp add: sync_ip_frames; fail))+

lemma within_call_method [within_intros]:
  assumes "vm_within s0 s" "env_within env"
  shows "post (next_within s0) (call_method env s m b argc fl)"
  unfolding call_method_def using assms
  by - (assumption | rule within_intros post_intros bounds_updates)+

lemma within_method_call [within_intros]:
  assumes "vm_within s0 s" "env_within env"
  shows "post (next_within s0) (method_call fl env s)"
  unfolding method_call_def using assms
  by - (assumption | rule within_intros post_intros bounds_updates | (simp; fail))+

lemma within_method_calls [within_intros]:
  assumes "vm_within s0 s" "env_within env"
  shows "post (next_within s0) (op_method_call env s)"
    "post (next_within s0) (op_fluent_call env s)"
  unfolding op_method_call_def op_fluent_call_def using assms
  by - (assumption | rule within_intros post_intros bounds_updates)+


lemma within_if [within_intros]:
  "vm_within s0 s \<Longrightarrow> vm_within s0 t \<Longrightarrow> vm_within s0 (if b then s else t)"
  by simp

lemma kept_length: "length xs = n \<longrightarrow> length (take n ys @ drop (length (take n ys)) xs) = n"
  by (simp add: min_def)

lemma below_bound: "vm_within s0 s \<Longrightarrow> length (take k (vm_stack s)) \<le> max STACK_MAX (length (vm_stack s0))"
  using within_bound [of s0 s] by (metis le_trans length_take min.cobounded1)

lemma returned_bound:
  assumes "vm_within s0 s" "k + n \<le> length (vm_stack s)"
  shows "length (take k st @ drop (length (vm_stack s) - n) (vm_stack s)) \<le> max STACK_MAX (length (vm_stack s0))"
proof -
  have "length (take k st @ drop (length (vm_stack s) - n) (vm_stack s)) \<le> length (vm_stack s)" using assms(2) by simp
  then show ?thesis using within_bound [OF assms(1)] by (rule le_trans)
qed

lemma receiver_bound:
  assumes "(if b then aget (vm_stack s) (k + 1) else z) = Some r" "b" "vm_within s0 s"
  shows "length (take k st @ [r]) \<le> max STACK_MAX (length (vm_stack s0))"
proof -
  have "length (take k st @ [r]) \<le> length (vm_stack s)" using assms(1,2) by (auto simp: fault_simps min_def)
  then show ?thesis using within_bound [OF assms(3)] by (rule le_trans)
qed

lemma within_return [within_intros]:
  assumes "vm_within s0 s"
  shows "post (next_within s0) (op_return s)"
  unfolding op_return_def using assms
  by - (assumption | rule within_stack0 kept_length below_bound returned_bound receiver_bound
        | rule within_intros post_intros bounds_updates | (simp; fail))+

lemma within_dispatch [within_intros]:
  assumes "vm_within s0 s" "run_within run" "env_within env"
  shows "post (next_within s0) (dispatch_data env run op s)"
    "post (next_within s0) (dispatch_arith env run op s)"
    "post (next_within s0) (dispatch_compare env run op s)"
    "post (next_within s0) (dispatch_bits env run op s)"
    "post (next_within s0) (dispatch_object env run op s)"
    "post (next_within s0) (dispatch_control env run op s)"
    "post (next_within s0) (dispatch_call env run op s)"
    "post (next_within s0) (dispatch_iterate env run op s)"
    "post (next_within s0) (dispatch_error env run op s)"
    "post (next_within s0) (dispatch_other env run op s)"
  unfolding dispatch_data_def dispatch_arith_def dispatch_compare_def dispatch_bits_def dispatch_object_def dispatch_control_def dispatch_call_def dispatch_iterate_def dispatch_error_def dispatch_other_def using assms
  by - (assumption | rule within_intros post_intros)+


lemma within_step [within_intros]:
  assumes "vm_within s0 s" "run_within run" "env_within env"
  shows "post (next_within s0) (vm_step env run s)"
  unfolding vm_step_def vm_dispatch_def using assms
  by - (assumption | rule within_intros post_intros)+

lemma within_cycle:
  assumes "run_within run" "env_within env"
  shows "post (next_within s) (vm_cycle env run s)"
proof -
  have "post (next_within s) (case r of Dispatch s \<Rightarrow> Some r | Handle_error s \<Rightarrow> vm_handle_error s | Leave x s \<Rightarrow> Some r)"
    if "next_within s r" for r
    using that by (cases r) (simp_all add: within_handle_error)
  moreover have "post (next_within s) (vm_step env run s)" using within_step [OF within_refl assms] .
  ultimately show ?thesis unfolding vm_cycle_def by (cases "vm_step env run s") simp_all
qed

lemma within_loop: "env_within env \<Longrightarrow> run_within (vm_loop env n)"
proof (induction n)
  case (Suc n)
  note run = Suc.IH [OF Suc.prems]
  have "vm_within s s'" if ran: "vm_loop env (Suc n) s = Some (r, s')" for s r s'
  proof -
    obtain x where x: "vm_cycle env (vm_loop env n) s = Some x"
      using ran by (cases "vm_cycle env (vm_loop env n) s") simp_all
    have "next_within s x" using postD [OF within_cycle [OF run Suc.prems] x] .
    then show ?thesis using ran x run by (cases x) (auto simp: run_within_def intro: within_trans)
  qed
  then show ?case by (auto simp: run_within_def)
qed (simp add: run_within_def)


lemma within_vm_run:
  assumes "env_within env" "vm_run env n s = Some (r, s')"
  shows "vm_within s s'"
proof -
  obtain t where t: "load_frame s = Some t" "vm_loop env n t = Some (r, s')"
    using assms(2) by (auto simp: vm_run_def fault_simps)
  have "vm_within s t" using postD [OF within_stack_ops(9) [OF within_refl] t(1)] .
  then show ?thesis using within_loop [OF assms(1)] t(2) by (auto simp: run_within_def intro: within_trans)
qed

text \<open>The fixed arrays of the machine and how far they are filled.\<close>

definition limits_ok :: "cando_vm \<Rightarrow> bool" where
  "limits_ok s \<longleftrightarrow>
     length (vm_stack s) \<le> STACK_MAX \<and> length (vm_frames s) \<le> FRAMES_MAX \<and> length (vm_tries s) \<le> TRY_MAX \<and>
     length (vm_loops s) \<le> LOOP_MAX \<and> vm_loop_depth s \<le> LOOP_MAX \<and>
     (\<forall>tf \<in> set (vm_tries s). tf_loop_save tf \<le> LOOP_MAX) \<and>
     length (vm_error_vals s) = MAX_THROW_ARGS \<and> length (vm_thread_results s) = MAX_THROW_ARGS"

lemma limits_within:
  assumes "vm_within s s'" "limits_ok s"
  shows "limits_ok s'"
proof -
  have "loops_within LOOP_MAX s" using assms(2) by (simp add: limits_ok_def loops_within_def)
  then have "loops_within LOOP_MAX s'" using assms(1) by (simp add: vm_within_def)
  moreover have *: "n \<le> m" if "n \<le> max m k" "k \<le> m" for n m k :: nat using that by simp
  ultimately show ?thesis
    using assms unfolding limits_ok_def vm_within_def loops_within_def by (elim conjE) (intro conjI; (assumption | erule (1) * | blast))
qed

end
