(* ===== verification/Vm_Init.thy ===== *)
theory Vm_Init
  imports Vm_Limits
begin

text \<open>
  Setting a machine up and taking it down (\<open>cando_vm_init\<close>, \<open>cando_vm_init_child\<close>, \<open>cando_vm_destroy\<close> in
  \<open>source/vm/vm.c\<close>), and a small machine for the examples of the theories on the instructions.

  The module cache and the registry of threads are not part of the state.
\<close>

section \<open>Setting up\<close>

text \<open>\<open>m\<close> is the memory of the process before; the object layer interns its meta names from the addresses offered.\<close>

definition cando_vm_init :: "vm_mem \<Rightarrow> cando_vm option" where
  "cando_vm_init m =
     do {
       let n = length meta_names;
       (H, t, metas) \<leftarrow> cdo_object_init (m_cdo m) (m_intern m) (take n (m_malloc m));
       Some \<lparr>m_strings = m_strings m, m_cdo = H, m_objs = m_objs m, m_intern = t, m_metas = metas,
             m_handles = cando_handle_table_init 0, m_globals = vm_globals_init, m_chunks = m_chunks m,
             m_closures = m_closures m, m_upvals = m_upvals m, m_malloc = drop n (m_malloc m),
             vm_stack = [], vm_frames = [], vm_tries = [], vm_loops = [], vm_loop_depth = 0, vm_open_upvalues = [],
             vm_native_count = 0, vm_error_vals = replicate MAX_THROW_ARGS VNull, vm_error_count = 0, vm_has_error = False,
             vm_error_msg = [], vm_last_ret_count = 0, vm_spread_extra = 0, vm_array_extra = 0, vm_eval_stop = None,
             vm_eval_results = [], vm_thread_stop = None, vm_thread_results = replicate MAX_THROW_ARGS VNull,
             vm_thread_count = 0, vm_string_proto = VNull, vm_array_proto = VNull, vm_ip = 0, vm_fp = 0\<rparr>
     }"

text \<open>A child shares the memory, the handles, the globals and the natives of its parent, and nothing else.\<close>

definition cando_vm_init_child :: "cando_vm \<Rightarrow> cando_vm option" where
  "cando_vm_init_child p =
     do {
       p \<leftarrow> vm_copy p (vm_string_proto p);
       p \<leftarrow> vm_copy p (vm_array_proto p);
       Some (p\<lparr>vm_stack := [], vm_frames := [], vm_tries := [], vm_loops := [], vm_loop_depth := 0, vm_open_upvalues := [],
               vm_error_vals := replicate MAX_THROW_ARGS VNull, vm_error_count := 0, vm_has_error := False,
               vm_error_msg := [], vm_last_ret_count := 0, vm_spread_extra := 0, vm_array_extra := 0, vm_eval_stop := None,
               vm_eval_results := [], vm_thread_stop := None, vm_thread_results := replicate MAX_THROW_ARGS VNull,
               vm_thread_count := 0, vm_ip := 0, vm_fp := 0\<rparr>)
     }"

section \<open>Taking down\<close>

text \<open>Releasing the globals of the machine that owns them: the key, which the entry holds alone, and the value.\<close>

definition release_globals :: "string_heap \<Rightarrow> global_entry list \<Rightarrow> string_heap option" where
  "release_globals H es =
     mfold (\<lambda>H e. if ge_key e = None then Some H else cando_value_release H (ge_value e)) es H"

text \<open>The values still on the stack, from the top. The values of \<open>thread_results\<close> are not released.\<close>

definition cando_vm_destroy :: "bool \<Rightarrow> cando_vm \<Rightarrow> cando_vm option" where
  "cando_vm_destroy owner s =
     do {
       s \<leftarrow> (if owner then do {
              (H, t) \<leftarrow> cdo_object_destroy_globals (m_cdo s) (m_intern s) (m_metas s);
              Some (s\<lparr>m_handles := cando_handle_table_destroy (m_handles s), m_cdo := H, m_intern := t, m_metas := []\<rparr>)
            } else Some s);
       s \<leftarrow> (if owner then do {
              H \<leftarrow> release_globals (m_strings s) (gl_entries (m_globals s));
              Some (s\<lparr>m_strings := H, m_globals := \<lparr>gl_entries = [], gl_count = 0\<rparr>\<rparr>)
            } else Some s);
       s \<leftarrow> mfold vm_release (rev (vm_stack s)) s;
       let s = s\<lparr>vm_stack := []\<rparr>;
       let s = s\<lparr>m_upvals := (\<lambda>a. if a \<in> set (vm_open_upvalues s) then None else m_upvals s a), vm_open_upvalues := []\<rparr>;
       s \<leftarrow> mfold vm_release (vm_error_vals s) s;
       s \<leftarrow> mfold vm_release (vm_eval_results s) s;
       Some (s\<lparr>vm_eval_results := []\<rparr>)
     }"

section \<open>A machine for examples\<close>

text \<open>One frame over the given code; the string at 64 has one holder, and room for two more addresses.\<close>

definition example_chunk :: "nat list \<Rightarrow> cando_value list \<Rightarrow> cando_chunk" where
  "example_chunk code consts =
     (cando_chunk_new None 0 False)\<lparr>ck_code := map of_nat code, ck_consts := consts, ck_lines := map (\<lambda>_. 1) code\<rparr>"

definition example_vm :: "nat list \<Rightarrow> cando_value list \<Rightarrow> cando_value list \<Rightarrow> cando_vm" where
  "example_vm code consts stack =
     \<lparr>m_strings = Map.empty(64 \<mapsto> \<lparr>st_refs = 1, st_hash = 0, st_data = ''s''\<rparr>), m_cdo = Map.empty, m_objs = Map.empty,
      m_intern = \<lparr>it_buckets = [], it_ready = False\<rparr>, m_metas = [],
      m_handles = \<lparr>ht_slots = [], ht_capacity = 0, ht_count = 0, ht_free = u32_max\<rparr>,
      m_globals = \<lparr>gl_entries = [], gl_count = 0\<rparr>, m_chunks = Map.empty(2 \<mapsto> example_chunk code consts),
      m_closures = Map.empty(3 \<mapsto> \<lparr>cl_chunk = 2, cl_upvalues = []\<rparr>), m_upvals = Map.empty, m_malloc = [80, 96],
      vm_stack = stack, vm_frames = [\<lparr>fr_closure = 3, fr_ip = 0, fr_slots = 0, fr_ret_count = 0, fr_fluent = False\<rparr>],
      vm_tries = [], vm_loops = [], vm_loop_depth = 0, vm_open_upvalues = [], vm_native_count = 0,
      vm_error_vals = replicate MAX_THROW_ARGS VNull, vm_error_count = 0, vm_has_error = False, vm_error_msg = [],
      vm_last_ret_count = 0, vm_spread_extra = 0, vm_array_extra = 0, vm_eval_stop = None, vm_eval_results = [],
      vm_thread_stop = None, vm_thread_results = replicate MAX_THROW_ARGS VNull, vm_thread_count = 0,
      vm_string_proto = VNull, vm_array_proto = VNull, vm_ip = 0, vm_fp = 0\<rparr>"


definition example_env :: vm_env where
  "example_env = \<lparr>env_native = (\<lambda>_ s _. Some (0, s)), env_cdo_native = (\<lambda>_ s _. Some (CNull, s)), env_pow = (\<lambda>x y. x),
     env_await = (\<lambda>_. None), env_thread = (\<lambda>_. None)\<rparr>"

lemma example_env_within: "env_within example_env"
  by (simp add: env_within_def example_env_def within_refl)

text \<open>Running it: a bind is evaluated from the left.\<close>

lemma bind_weak_cong: "m = m' \<Longrightarrow> Option.bind m f = Option.bind m' f"
  by simp

lemmas run_simps = vm_run_def vm_cycle_def vm_step_def read_byte_def read_u16_def read_i16_def cur_chunk_def cur_frame_def
  frame_chunk_def vm_dispatch_def load_frame_def dispatch_push_def cando_vm_push_def pop_release_def cando_vm_pop_def
  vm_release_def cando_value_release_def vm_copy_def cando_value_copy_def cando_vm_peek_def

lemmas example_simps = example_vm_def example_chunk_def example_env_def cando_chunk_new_def

section \<open>Properties\<close>

lemma text_none: "str_text H a = None \<longleftrightarrow> H a = None"
  by (simp add: str_text_def)

lemma intern_fresh_names:
  assumes "cdo_strings_ok H" "intern_inv H t" "distinct ns" "\<forall>n \<in> set ns. intern_map H t n = None"
    "length ns \<le> length as" "distinct as" "\<forall>a \<in> set as. H a = None \<and> a \<noteq> 0 \<and> a \<noteq> cdo_string_tombstone"
  shows "\<exists>H' t'. intern_names H t as ns = Some (H', t', take (length ns) as) \<and> cdo_strings_ok H' \<and> intern_inv H' t' \<and>
           (\<forall>i < length ns. str_text H' (as ! i) = Some (ns ! i)) \<and>
           (\<forall>x. x \<notin> set as \<longrightarrow> str_text H' x = str_text H x)"
  using assms
proof (induction ns arbitrary: H t as)
  case (Cons n ns)
  obtain a as' where as: "as = a # as'" using Cons.prems(5) by (cases as) auto
  have new: "intern_map H t n = None" "H a = None" "a \<noteq> 0" "a \<noteq> cdo_string_tombstone" using Cons.prems(4,7) as by auto
  obtain H1 t1 where H1: "cdo_string_intern H t a n = Some (H1, t1, a)" "cdo_strings_ok H1" "intern_inv H1 t1"
      "interned t1 = insert a (interned t)" "str_text H1 = (str_text H)(a \<mapsto> n)"
    using intern_new_spec [OF Cons.prems(1,2) new] by blast
  have none: "intern_map H1 t1 m = None" if "m \<in> set ns" for m
  proof (rule ccontr)
    assume "intern_map H1 t1 m \<noteq> None"
    then obtain x where x: "intern_map H1 t1 m = Some x" by auto
    have "m \<noteq> n" using that Cons.prems(3) by auto
    then have "x \<noteq> a" using x H1(5) by (auto simp: intern_map_iff [OF H1(3)])
    then have "intern_map H t m = Some x" using x H1(4,5) by (simp add: intern_map_iff [OF H1(3)] intern_map_iff [OF Cons.prems(2)])
    then show False using that Cons.prems(4) by simp
  qed
  have fresh: "\<forall>b \<in> set as'. H1 b = None \<and> b \<noteq> 0 \<and> b \<noteq> cdo_string_tombstone"
  proof
    fix b assume b: "b \<in> set as'"
    then have "b \<noteq> a" "H b = None" using Cons.prems(6,7) as by auto
    then have "str_text H1 b = None" using H1(5) by (simp add: text_none)
    then show "H1 b = None \<and> b \<noteq> 0 \<and> b \<noteq> cdo_string_tombstone" using b Cons.prems(7) as by (simp add: text_none)
  qed
  obtain H2 t2 where H2: "intern_names H1 t1 as' ns = Some (H2, t2, take (length ns) as')" "cdo_strings_ok H2"
      "intern_inv H2 t2" "\<forall>i < length ns. str_text H2 (as' ! i) = Some (ns ! i)"
      "\<forall>x. x \<notin> set as' \<longrightarrow> str_text H2 x = str_text H1 x"
    using Cons.IH [OF H1(2,3), of as'] Cons.prems(3,5,6) none fresh as by auto
  have "intern_names H t as (n # ns) = Some (H2, t2, take (length (n # ns)) as)" using H1(1) H2(1) as by simp
  moreover have "str_text H2 (as ! i) = Some ((n # ns) ! i)" if "i < length (n # ns)" for i
  proof (cases i)
    case 0
    have "a \<notin> set as'" using Cons.prems(6) as by simp
    then show ?thesis using 0 as H2(5) H1(5) by simp
  next
    case (Suc j)
    then show ?thesis using that as H2(4) by simp
  qed
  moreover have "str_text H2 x = str_text H x" if "x \<notin> set as" for x using that H2(5) H1(5) as by simp
  ultimately show ?case using H2(2,3) by blast
qed simp

text \<open>C6. A machine set up in a fresh process is well formed: the call succeeds, every meta key is interned under its own
  address with its own name, the table of handles and the table of globals satisfy their invariants and are empty, and
  the fixed arrays are within their limits.\<close>

theorem vm_init_ready:
  assumes "m_cdo m = Map.empty" "\<not> it_ready (m_intern m)" "length meta_names \<le> length (m_malloc m)"
    "distinct (m_malloc m)" "\<forall>a \<in> set (m_malloc m). a \<noteq> 0 \<and> a \<noteq> cdo_string_tombstone"
  shows "\<exists>s. cando_vm_init m = Some s \<and> limits_ok s \<and> vm_stack s = [] \<and> vm_frames s = [] \<and>
           ht_inv (m_handles s) \<and> ht_map (m_handles s) = Map.empty \<and>
           globals_inv (m_globals s) \<and> globals_map (m_globals s) = Map.empty \<and>
           intern_inv (m_cdo s) (m_intern s) \<and> distinct (m_metas s) \<and> length (m_metas s) = length meta_names \<and>
           (\<forall>i < length meta_names. str_text (m_cdo s) (m_metas s ! i) = Some (meta_names ! i))"
proof -
  let ?t = "cdo_intern_init (m_intern m)" and ?n = "length meta_names"
  let ?as = "take ?n (m_malloc m)"
  have i0: "interned ?t = {}" using assms(2) by (auto simp: interned_def cdo_intern_init_def)
  have ok: "cdo_strings_ok Map.empty" by (simp add: cdo_strings_ok_def strings_ok_def)
  have inv: "intern_inv Map.empty ?t" using i0 assms(2) by (simp add: intern_inv_def cdo_intern_init_def)
  have "\<forall>n \<in> set meta_names. intern_map Map.empty ?t n = None" using i0 by (simp add: intern_map_def)
  moreover have "distinct meta_names" by (simp add: meta_names_def)
  moreover have "\<forall>a \<in> set ?as. Map.empty a = None \<and> a \<noteq> 0 \<and> a \<noteq> cdo_string_tombstone"
    using assms(5) by (auto dest: in_set_takeD)
  ultimately obtain H t where H: "intern_names Map.empty ?t ?as meta_names = Some (H, t, take ?n ?as)" "intern_inv H t"
      "\<forall>i < ?n. str_text H (?as ! i) = Some (meta_names ! i)"
    using intern_fresh_names [OF ok inv, of meta_names ?as] assms(3,4) by auto
  have "cdo_object_init (m_cdo m) (m_intern m) ?as = Some (H, t, ?as)"
    using H(1) assms(1,3) by (simp add: cdo_object_init_def)
  then show ?thesis
    using H(2,3) assms(3,4) init_inv [of 0] vm_globals_init_inv
    by (simp add: cando_vm_init_def Let_def limits_ok_def)
qed

definition example_process :: vm_mem where
  "example_process =
     \<lparr>m_strings = Map.empty, m_cdo = Map.empty, m_objs = Map.empty, m_intern = \<lparr>it_buckets = [], it_ready = False\<rparr>,
      m_metas = [], m_handles = \<lparr>ht_slots = [], ht_capacity = 0, ht_count = 0, ht_free = u32_max\<rparr>,
      m_globals = \<lparr>gl_entries = [], gl_count = 0\<rparr>, m_chunks = Map.empty, m_closures = Map.empty, m_upvals = Map.empty,
      m_malloc = [16..<40]\<rparr>"

theorem vm_init_ready_witness: "\<exists>s. cando_vm_init example_process = Some s \<and> limits_ok s"
proof -
  have "length meta_names \<le> length (m_malloc example_process)" by (simp add: example_process_def meta_names_def)
  moreover have "\<forall>a \<in> set (m_malloc example_process). a \<noteq> 0 \<and> a \<noteq> cdo_string_tombstone"
    by (simp add: example_process_def cdo_string_tombstone_def)
  ultimately show ?thesis using vm_init_ready [of example_process] by (auto simp: example_process_def)
qed

text \<open>A run that completes leaves the fixed arrays of the machine within their sizes, when the natives and the two opcodes that
  act on other threads do so (\<open>env_within\<close>). A run that faults has no result, and nothing is said of it here.\<close>

lemma machine_limits_kept:
  assumes "env_within env" "limits_ok s" "vm_run env n s = Some (r, s')"
  shows "limits_ok s'"
  using limits_within [OF within_vm_run [OF assms(1,3)] assms(2)] .

text \<open>A run that completes has not changed the chunks, the meta keys, the registry of natives or the two prototypes, when the
  natives and the two opcodes that act on other threads keep them (\<open>env_within\<close>): no instruction of the machine itself writes to them.\<close>

lemma code_is_immutable:
  assumes "env_within env" "vm_run env n s = Some (r, s')"
  shows "m_chunks s' = m_chunks s \<and> m_metas s' = m_metas s \<and> vm_native_count s' = vm_native_count s \<and>
         vm_string_proto s' = vm_string_proto s \<and> vm_array_proto s' = vm_array_proto s"
  using within_vm_run [OF assms] by (simp add: vm_within_def)

end
