(* ===== verification/Vm_Fuel.thy ===== *)
theory Vm_Fuel
  imports Vm_Init
begin

text \<open>
  The fuel of the machine is only a bound: every handler is monotone in the inner run it is given, so a run that ends
  with some fuel ends in the same way with more.
\<close>

section \<open>Results that agree where the first is defined\<close>

named_theorems grows_intros \<open>monotonicity of the constructs of a handler\<close>

definition grows :: "'a option \<Rightarrow> 'a option \<Rightarrow> bool" where
  "grows m m' \<longleftrightarrow> (\<forall>x. m = Some x \<longrightarrow> m' = Some x)"

lemma grows_refl: "grows m m"
  by (simp add: grows_def)

lemma growsD: "grows m m' \<Longrightarrow> m = Some x \<Longrightarrow> m' = Some x"
  by (simp add: grows_def)

lemma grows_bind1 [grows_intros]:
  "grows m m' \<Longrightarrow> (\<And>x. grows (f x) (f' x)) \<Longrightarrow> grows (Option.bind m f) (Option.bind m' f')"
  by (auto simp: grows_def fault_simps)

lemma grows_map [grows_intros]: "grows m m' \<Longrightarrow> grows (map_option f m) (map_option f m')"
  by (auto simp: grows_def)

lemma grows_if [grows_intros]: "grows x x' \<Longrightarrow> grows y y' \<Longrightarrow> grows (if b then x else y) (if b then x' else y')"
  by simp

lemma grows_let [grows_intros]: "grows (f x) (f' x) \<Longrightarrow> grows (Let x f) (Let x f')"
  by simp

lemma grows_prod [grows_intros]: "(\<And>a b. grows (f a b) (f' a b)) \<Longrightarrow> grows (case p of (a, b) \<Rightarrow> f a b) (case p of (a, b) \<Rightarrow> f' a b)"
  by (cases p) simp

lemma grows_option [grows_intros]:
  "grows x x' \<Longrightarrow> (\<And>v. grows (f v) (f' v)) \<Longrightarrow>
   grows (case r of None \<Rightarrow> x | Some v \<Rightarrow> f v) (case r of None \<Rightarrow> x' | Some v \<Rightarrow> f' v)"
  by (cases r) simp_all

lemma grows_value [grows_intros]:
  "grows a a' \<Longrightarrow> (\<And>b. grows (f b) (f' b)) \<Longrightarrow> (\<And>n. grows (g n) (g' n)) \<Longrightarrow> (\<And>x. grows (h x) (h' x)) \<Longrightarrow> (\<And>x. grows (k x) (k' x)) \<Longrightarrow>
   grows (case v of VNull \<Rightarrow> a | VBool b \<Rightarrow> f b | VNumber n \<Rightarrow> g n | VString x \<Rightarrow> h x | VObject x \<Rightarrow> k x)
         (case v of VNull \<Rightarrow> a' | VBool b \<Rightarrow> f' b | VNumber n \<Rightarrow> g' n | VString x \<Rightarrow> h' x | VObject x \<Rightarrow> k' x)"
  by (cases v) simp_all

lemma grows_fn [grows_intros]:
  "grows a a' \<Longrightarrow> (\<And>x y z. grows (f x y z) (f' x y z)) \<Longrightarrow> (\<And>x y. grows (g x y) (g' x y)) \<Longrightarrow>
   grows (case p of FnZero \<Rightarrow> a | FnScript x y z \<Rightarrow> f x y z | FnNative x y \<Rightarrow> g x y)
         (case p of FnZero \<Rightarrow> a' | FnScript x y z \<Rightarrow> f' x y z | FnNative x y \<Rightarrow> g' x y)"
  by (cases p) simp_all

lemma grows_kind [grows_intros]:
  "grows a a' \<Longrightarrow> grows b b' \<Longrightarrow> grows c c' \<Longrightarrow> grows d d' \<Longrightarrow> grows e e' \<Longrightarrow>
   grows (case k of OBJ_OBJECT \<Rightarrow> a | OBJ_ARRAY \<Rightarrow> b | OBJ_FUNCTION \<Rightarrow> c | OBJ_NATIVE \<Rightarrow> d | OBJ_THREAD \<Rightarrow> e)
         (case k of OBJ_OBJECT \<Rightarrow> a' | OBJ_ARRAY \<Rightarrow> b' | OBJ_FUNCTION \<Rightarrow> c' | OBJ_NATIVE \<Rightarrow> d' | OBJ_THREAD \<Rightarrow> e')"
  by (cases k) simp_all

lemma grows_bool [grows_intros]:
  "grows x x' \<Longrightarrow> grows y y' \<Longrightarrow> grows (case b of True \<Rightarrow> x | False \<Rightarrow> y) (case b of True \<Rightarrow> x' | False \<Rightarrow> y')"
  by (cases b) simp_all

section \<open>The handlers that run the machine again\<close>

definition run_grows :: "vm_runner \<Rightarrow> vm_runner \<Rightarrow> bool" where
  "run_grows run run' \<longleftrightarrow> (\<forall>s. grows (run s) (run' s))"

lemma run_growsD [grows_intros]: "run_grows run run' \<Longrightarrow> grows (run s) (run' s)"
  by (simp add: run_grows_def)

lemma grows_calls [grows_intros]:
  assumes "run_grows run run'"
  shows "grows (run_inner run s) (run_inner run' s)"
  unfolding run_inner_def using assms by - (rule grows_refl | assumption | rule grows_intros)+

lemma grows_call_closure [grows_intros]:
  assumes "run_grows run run'"
  shows "grows (vm_call_closure_with_args run s obj args) (vm_call_closure_with_args run' s obj args)"
  unfolding vm_call_closure_with_args_def using assms by - (rule grows_refl | assumption | rule grows_intros)+

lemma grows_call_value [grows_intros]:
  assumes "run_grows run run'"
  shows "grows (cando_vm_call_value env run s v args) (cando_vm_call_value env run' s v args)"
  unfolding cando_vm_call_value_def using assms by - (rule grows_refl | assumption | rule grows_intros)+

lemma grows_call_meta [grows_intros]:
  assumes "run_grows run run'"
  shows "grows (cando_vm_call_meta env run s h key args) (cando_vm_call_meta env run' s h key args)"
  unfolding cando_vm_call_meta_def call_meta_pc_def call_meta_object_def
  using assms by - (rule grows_refl | assumption | rule grows_intros)+

lemma grows_try_binary_meta [grows_intros]:
  assumes "run_grows run run'" "\<And>s. grows (k s) (k' s)"
  shows "grows (try_binary_meta env run name s a b args dk k) (try_binary_meta env run' name s a b args dk k')"
  unfolding try_binary_meta_def using assms(1)
  by - (rule grows_refl | assumption | rule grows_intros assms(2))+

lemma grows_arithmetic [grows_intros]:
  assumes "run_grows run run'"
  shows "grows (op_add env run s) (op_add env run' s)" "grows (op_sub env run s) (op_sub env run' s)"
    "grows (op_mul env run s) (op_mul env run' s)" "grows (op_div env run s) (op_div env run' s)"
    "grows (op_mod env run s) (op_mod env run' s)" "grows (op_pow env run s) (op_pow env run' s)"
    "grows (op_neg env run s) (op_neg env run' s)"
  unfolding op_add_def op_sub_def op_mul_def op_div_def op_mod_def op_pow_def op_neg_def arith_op_def
  using assms by - (rule grows_refl | assumption | rule grows_intros)+

lemma grows_compare [grows_intros]:
  assumes "run_grows run run'"
  shows "grows (op_eq env run s) (op_eq env run' s)" "grows (op_neq env run s) (op_neq env run' s)"
    "grows (op_lt env run s) (op_lt env run' s)" "grows (op_gt env run s) (op_gt env run' s)"
    "grows (op_leq env run s) (op_leq env run' s)" "grows (op_geq env run s) (op_geq env run' s)"
  unfolding op_eq_def op_neq_def op_lt_def op_gt_def op_leq_def op_geq_def cmp_op_def
  using assms by - (rule grows_refl | assumption | rule grows_intros)+

lemma grows_objects [grows_intros]:
  assumes "run_grows run run'"
  shows "grows (op_set_field env run s) (op_set_field env run' s)" "grows (op_set_index env run s) (op_set_index env run' s)"
    "grows (op_len env run s) (op_len env run' s)" "grows (op_for_over_next env run s) (op_for_over_next env run' s)"
  unfolding op_set_field_def op_set_index_def op_len_def op_for_over_next_def try_newindex_def
  using assms by - (rule grows_refl | assumption | rule grows_intros)+

lemma grows_dispatch [grows_intros]:
  assumes "run_grows run run'"
  shows "grows (vm_dispatch env run op s) (vm_dispatch env run' op s)"
  unfolding vm_dispatch_def dispatch_data_def dispatch_arith_def dispatch_compare_def dispatch_bits_def dispatch_object_def
    dispatch_control_def dispatch_call_def dispatch_iterate_def dispatch_error_def dispatch_other_def
  using assms by - (rule grows_refl | assumption | rule grows_intros)+

lemma grows_cycle:
  assumes "run_grows run run'"
  shows "grows (vm_cycle env run s) (vm_cycle env run' s)"
  unfolding vm_cycle_def vm_step_def using assms by - (rule grows_refl | assumption | rule grows_intros)+

section \<open>Properties\<close>

lemma loop_grows: "run_grows (vm_loop env n) (vm_loop env (n + k))"
proof (induction n)
  case (Suc n)
  have "grows (vm_loop env (Suc n) s) (vm_loop env (Suc (n + k)) s)" for s
  proof -
    have c: "grows (vm_cycle env (vm_loop env n) s) (vm_cycle env (vm_loop env (n + k)) s)" by (rule grows_cycle [OF Suc.IH])
    have l: "grows (vm_loop env n t) (vm_loop env (n + k) t)" for t using Suc.IH by (simp add: run_grows_def)
    show ?thesis
    proof (cases "vm_cycle env (vm_loop env n) s")
      case (Some x)
      show ?thesis using growsD [OF c Some] Some l by (cases x) (simp_all add: grows_refl)
    qed (simp add: grows_def)
  qed
  then show ?case by (simp add: run_grows_def)
qed (simp add: run_grows_def grows_def)

text \<open>More fuel does not change a result, inner runs included.\<close>

lemma run_outcome_unique:
  assumes "vm_run env n s = Some x"
  shows "(\<forall>m \<ge> n. vm_run env m s = Some x) \<and> (\<forall>m y. vm_run env m s = Some y \<longrightarrow> y = x)"
proof -
  have more: "vm_run env m s = Some y" if ran: "vm_run env k s = Some y" and km: "k \<le> m" for k m y
  proof -
    obtain t where t: "load_frame s = Some t" "vm_loop env k t = Some y" using ran by (auto simp: vm_run_def fault_simps)
    have "grows (vm_loop env k t) (vm_loop env m t)"
      using loop_grows [of env k "m - k"] km by (simp add: run_grows_def)
    then show ?thesis using t by (simp add: vm_run_def growsD)
  qed
  show ?thesis using more [OF assms] more assms by (metis linorder_le_cases option.inject)
qed

end
