(* ===== verification/Vm_Refs.thy ===== *)
theory Vm_Refs
  imports Vm_Fuel
begin

text \<open>
  Reference counts and the value stack: the instructions that move, compute and compare plain values, the jumps, the
  loops and the masks, when they do not fault, keep the count of every string equal to the number of stack cells that hold it
  plus the references held elsewhere.
\<close>

section \<open>What the stack owns\<close>

definition own :: "cando_value \<Rightarrow> addr \<Rightarrow> int" where
  "own v a = (if value_held v = Some a then 1 else 0)"

lemma own_simps [simp]: "own VNull a = 0" "own (VBool b) a = 0" "own (VNumber n) a = 0" "own (VObject h) a = 0"
  by (simp_all add: own_def value_held_def)

abbreviation owns :: "cando_value list \<Rightarrow> addr \<Rightarrow> int" where
  "owns vs a \<equiv> int (owned value_held vs a)"

lemma owns_simps [simp]:
  "owns [] a = 0" "owns (v # vs) a = own v a + owns vs a" "owns (vs @ ws) a = owns vs a + owns ws a"
  by (simp_all add: own_def)

lemma owns_update: "i < length vs \<Longrightarrow> owns (vs[i := v]) a = owns vs a + own v a - own (vs ! i) a"
  using owned_update [of i vs value_held v a] by (auto simp: own_def split: if_splits)

lemma owns_butlast: "vs \<noteq> [] \<Longrightarrow> owns (butlast vs) a = owns vs a - own (last vs) a"
  by (metis owns_simps add_diff_cancel_right' append_butlast_last_id add.right_neutral)

text \<open>\<open>balanced_by k d s\<close>: every string counts what the stack holds plus \<open>d\<close>; \<open>k\<close> more references can be taken, and
  the allocator offers unused addresses.\<close>

definition balanced_by :: "nat \<Rightarrow> (addr \<Rightarrow> int) \<Rightarrow> cando_vm \<Rightarrow> bool" where
  "balanced_by k d s \<longleftrightarrow>
     strings_ok (m_strings s) \<and> (\<forall>a. int (str_refs (m_strings s) a) = owns (vm_stack s) a + d a) \<and>
     (\<forall>a. str_refs (m_strings s) a + k \<le> u32_max) \<and>
     distinct (m_malloc s) \<and> (\<forall>a \<in> set (m_malloc s). a \<noteq> 0 \<and> m_strings s a = None)"

definition next_balanced :: "(addr \<Rightarrow> int) \<Rightarrow> vm_next \<Rightarrow> bool" where
  "next_balanced d r = (case r of Dispatch s \<Rightarrow> balanced_by 0 d s | _ \<Rightarrow> True)"

lemma balanced_0: "balanced_by k d s \<Longrightarrow> balanced_by 0 d s"
  unfolding balanced_by_def using add_leD1 by (metis add.right_neutral)

lemma copy_counts:
  assumes "strings_ok H" "cando_value_copy H v = Some H'" "\<And>a. str_refs H a < u32_max"
  shows "strings_ok H' \<and> (\<forall>a. int (str_refs H' a) = int (str_refs H a) + own v a) \<and> (\<forall>a. H a = None \<longrightarrow> H' a = None)"
proof -
  have pos: "0 < str_refs H a" if h: "value_held v = Some a" for a
  proof -
    have "cando_string_retain H a = Some H'" using assms(2) h
      by (cases v) (auto simp: cando_value_copy_def value_held_def split: if_splits)
    then obtain c where "H a = Some c" by (auto simp: cando_string_retain_def fault_simps)
    then show ?thesis using strings_okD [OF assms(1)] by (simp add: str_refs_def)
  qed
  obtain H1 where H1: "cando_value_copy H v = Some H1" "strings_ok H1" "str_text H1 = str_text H"
      "str_refs H1 = (\<lambda>s. str_refs H s + owned value_held [v] s)"
    using vals.copy_law [OF assms(1), of v] pos assms(3) by blast
  have "H' a = None" if "H a = None" for a
    using H1(1,3) assms(2) that by (metis option.inject text_none)
  then show ?thesis using H1 assms(2) by (auto simp: own_def)
qed

lemma release_counts:
  assumes "strings_ok H" "cando_value_release H v = Some H'"
  shows "strings_ok H' \<and> (\<forall>a. int (str_refs H' a) = int (str_refs H a) - own v a) \<and> (\<forall>a. H a = None \<longrightarrow> H' a = None)"
proof -
  have pos: "0 < str_refs H a" if h: "value_held v = Some a" for a
  proof -
    have "cando_string_release H a = Some H'" "a \<noteq> 0" using assms(2) h
      by (cases v; auto simp: cando_value_release_def value_held_def split: if_splits)+
    then obtain c where "H a = Some c" by (auto simp: cando_string_release_def fault_simps)
    then show ?thesis using strings_okD [OF assms(1)] by (simp add: str_refs_def)
  qed
  obtain H1 where H1: "cando_value_release H v = Some H1" "strings_ok H1"
      "str_refs H1 = (\<lambda>s. str_refs H s - owned value_held [v] s)"
    using vals.release_law [OF assms(1), of v] pos by blast
  have "H' a = None" if "H a = None" for a
    using assms(2) that by (cases v) (auto simp: cando_value_release_def cando_string_release_def fault_simps split: if_splits)
  then show ?thesis using H1 assms(2) pos by (auto simp: own_def Suc_leI)
qed


section \<open>The operations\<close>

named_theorems balanced_intros \<open>what an operation does to the balance\<close>

lemma balanced_bind1 [balanced_intros]:
  "post (balanced_by k d) m \<Longrightarrow> (\<And>s. m = Some s \<Longrightarrow> balanced_by k d s \<Longrightarrow> post Q (f s)) \<Longrightarrow> post Q (Option.bind m f)"
  by (cases m) simp_all

lemma balanced_bind2 [balanced_intros]:
  "post (\<lambda>(r, s). balanced_by k (d r) s) m \<Longrightarrow> (\<And>r s. m = Some (r, s) \<Longrightarrow> balanced_by k (d r) s \<Longrightarrow> post Q (f r s)) \<Longrightarrow>
   post Q (Option.bind m (\<lambda>(r, s). f r s))"
  by (cases m) auto

lemma balanced_map1 [balanced_intros]:
  "post (balanced_by k d) m \<Longrightarrow> (\<And>s. m = Some s \<Longrightarrow> balanced_by k d s \<Longrightarrow> Q (f s)) \<Longrightarrow> post Q (map_option f m)"
  by (cases m) simp_all

lemma balanced_cong: "balanced_by k d s \<Longrightarrow> (\<And>a. d a = d' a) \<Longrightarrow> balanced_by k d' s"
  by (simp add: balanced_by_def)

lemma next_balanced_Dispatch: "balanced_by k d s \<Longrightarrow> (\<And>a. d a = d' a) \<Longrightarrow> next_balanced d' (Dispatch s)"
  using balanced_cong [OF balanced_0, of k d s d'] by (simp add: next_balanced_def)

lemma balanced_post_cong: "post (balanced_by k d) m \<Longrightarrow> (\<And>a. d a = d' a) \<Longrightarrow> post (balanced_by k d') m"
  by (auto simp: post_eq intro: balanced_cong)

lemma next_balanced_others [balanced_intros]: "next_balanced d (Handle_error s)" "next_balanced d (Leave r s)"
  by (simp_all add: next_balanced_def)

lemma balanced_registers [balanced_intros]:
  assumes "balanced_by k d s"
  shows "balanced_by k d (s\<lparr>vm_ip := ip\<rparr>)" "balanced_by k d (s\<lparr>vm_frames := fs\<rparr>)" "balanced_by k d (s\<lparr>vm_last_ret_count := i\<rparr>)"
    "balanced_by k d (s\<lparr>vm_spread_extra := i\<rparr>)" "balanced_by k d (s\<lparr>vm_loop_depth := n\<rparr>)" "balanced_by k d (s\<lparr>vm_loops := ls\<rparr>)"
    "balanced_by k d (s\<lparr>vm_tries := ts\<rparr>)" "balanced_by k d (s\<lparr>vm_array_extra := i\<rparr>)"
  using assms by (simp_all add: balanced_by_def)

lemma balanced_push [balanced_intros]:
  "balanced_by k d s \<Longrightarrow> post (balanced_by k (\<lambda>a. d a - own v a)) (cando_vm_push s v)"
  by (auto simp: cando_vm_push_def post_eq fault_simps balanced_by_def own_def)

lemma balanced_pop [balanced_intros]:
  "balanced_by k d s \<Longrightarrow> post (\<lambda>(v, s). balanced_by k (\<lambda>a. d a + own v a) s) (cando_vm_pop s)"
  by (auto simp: cando_vm_pop_def post_eq fault_simps balanced_by_def owns_butlast)

lemma balanced_copy [balanced_intros]:
  assumes "balanced_by (Suc k) d s"
  shows "post (balanced_by k (\<lambda>a. d a + own v a)) (vm_copy s v)"
proof -
  have "balanced_by k (\<lambda>a. d a + own v a) (s\<lparr>m_strings := H\<rparr>)" if "cando_value_copy (m_strings s) v = Some H" for H
  proof -
    have lim: "str_refs (m_strings s) a + Suc k \<le> u32_max" for a using assms by (simp add: balanced_by_def)
    have "str_refs (m_strings s) a < u32_max" for a using lim [of a] by simp
    note C = copy_counts [OF _ that this]
    have "str_refs H a + k \<le> u32_max" for a
    proof -
      have "int (str_refs H a) \<le> int (str_refs (m_strings s) a) + 1"
        using C assms by (auto simp: balanced_by_def own_def)
      then show ?thesis using lim [of a] by linarith
    qed
    then show ?thesis using C assms by (auto simp: balanced_by_def)
  qed
  then show ?thesis by (auto simp: vm_copy_def post_eq)
qed

lemma balanced_release [balanced_intros]:
  assumes "balanced_by k d s"
  shows "post (balanced_by k (\<lambda>a. d a - own v a)) (vm_release s v)"
proof -
  have "balanced_by k (\<lambda>a. d a - own v a) (s\<lparr>m_strings := H\<rparr>)" if "cando_value_release (m_strings s) v = Some H" for H
  proof -
    note R = release_counts [OF _ that]
    have "str_refs H a + k \<le> u32_max" for a
    proof -
      have "int (str_refs H a) \<le> int (str_refs (m_strings s) a)" using R assms by (auto simp: balanced_by_def own_def)
      moreover have "str_refs (m_strings s) a + k \<le> u32_max" using assms by (simp add: balanced_by_def)
      ultimately show ?thesis by linarith
    qed
    then show ?thesis using R assms by (auto simp: balanced_by_def)
  qed
  then show ?thesis by (auto simp: vm_release_def post_eq)
qed

lemma balanced_put_cell [balanced_intros]:
  "balanced_by k d s \<Longrightarrow> post (balanced_by k (\<lambda>a. d a + own (vm_stack s ! i) a - own v a)) (put_cell s i v)"
  by (auto simp: put_cell_def post_eq fault_simps balanced_by_def owns_update)

lemma balanced_new_string [balanced_intros]:
  assumes "balanced_by (Suc k) d s"
  shows "post (\<lambda>(v, s). balanced_by k (\<lambda>a. d a + own v a) s) (vm_new_string s txt)"
proof (cases "m_malloc s")
  case (Cons a as)
  have a: "a \<noteq> 0" "m_strings s a = None" "distinct (a # as)" "\<forall>b \<in> set as. b \<noteq> 0 \<and> m_strings s b = None"
    using assms Cons by (auto simp: balanced_by_def)
  have refs: "str_refs (cando_string_new (m_strings s) a txt) = (str_refs (m_strings s))(a := 1)"
    by (simp add: cando_string_new_def str_refs_def fun_eq_iff)
  have zero: "str_refs (m_strings s) a = 0" using a(2) by (simp add: str_refs_def)
  have lim: "str_refs (m_strings s) b + Suc k \<le> u32_max" for b using assms by (simp only: balanced_by_def)
  have room: "str_refs (m_strings s) b + k \<le> u32_max" for b using lim [of b] by linarith
  have fresh: "strings_ok (cando_string_new (m_strings s) a txt)" using assms a(1) by (simp add: balanced_by_def new_ok)
  have other: "cando_string_new (m_strings s) a txt b = m_strings s b" if "b \<noteq> a" for b using that by (simp add: cando_string_new_def)
  have "int (str_refs (m_strings s) a) = owns (vm_stack s) a + d a" using assms by (simp only: balanced_by_def)
  then have none: "owns (vm_stack s) a + d a = 0" using zero by simp
  have "b \<noteq> a" if "b \<in> set as" for b using that a(3) by auto
  then show ?thesis
    using assms Cons a zero none room fresh lim [of a]
    by (auto simp: vm_new_string_def vm_malloc_def balanced_by_def refs own_def value_held_def other)
qed (simp add: vm_new_string_def vm_malloc_def)

lemma balanced_reads [balanced_intros]:
  assumes "balanced_by k d s"
  shows "post (\<lambda>(r, s). balanced_by k d s) (read_u16 s)" "post (\<lambda>(r, s). balanced_by k d s) (read_i16 s)"
    "post (\<lambda>(r, s). balanced_by k d s) (read_byte s)" "post (balanced_by k d) (jump_by s off)" "post (balanced_by k d) (sync_ip s)"
  using assms by (auto simp: read_u16_def read_i16_def read_byte_def jump_by_def sync_ip_def post_eq fault_simps balanced_by_def)

lemma equal_counts:
  assumes "strings_ok H" "cando_value_equal H v w = Some (H', r)"
  shows "strings_ok H' \<and> str_refs H' = str_refs H \<and> str_text H' = str_text H"
proof (cases "\<exists>x y. v = VString x \<and> w = VString y \<and> x \<noteq> y")
  case True
  then obtain x y where xy: "v = VString x" "w = VString y" "x \<noteq> y" by blast
  have "cando_string_equal H x y = Some (H', r)" using assms(2) xy by (simp add: cando_value_equal_def)
  then have "str_text H x \<noteq> None" "str_text H y \<noteq> None"
    using xy(3) by (auto simp: cando_string_equal_def str_text_def fault_simps)
  then show ?thesis using value_equal_spec [OF assms(1), of v w] assms(2) xy by auto
next
  case False
  then show ?thesis using assms
    by (cases v; cases w) (auto simp: cando_value_equal_def cando_string_equal_def)
qed

lemma balanced_equal [balanced_intros]:
  assumes "balanced_by k d s"
  shows "post (\<lambda>(r, s). balanced_by k d s) (vm_value_equal s v w)"
proof -
  have "balanced_by k d (s\<lparr>m_strings := H\<rparr>)" if "cando_value_equal (m_strings s) v w = Some (H, r)" for H r
  proof -
    have E: "strings_ok H \<and> str_refs H = str_refs (m_strings s) \<and> str_text H = str_text (m_strings s)"
      using equal_counts [OF _ that] assms by (simp add: balanced_by_def)
    then have "H a = None \<longleftrightarrow> m_strings s a = None" for a by (metis text_none)
    then show ?thesis using E assms by (simp add: balanced_by_def)
  qed
  then show ?thesis by (auto simp: vm_value_equal_def post_eq)
qed

lemma balanced_pop_release [balanced_intros]:
  assumes "balanced_by k d s"
  shows "post (balanced_by k d) (pop_release s)"
  unfolding pop_release_def using assms
  by - (assumption | rule balanced_bind2 balanced_pop | rule balanced_post_cong [OF balanced_release] | simp)+

lemma balanced_pop_release_n [balanced_intros]:
  "balanced_by k d s \<Longrightarrow> post (balanced_by k d) (pop_release_n n s)"
  by (induction n arbitrary: s) (simp_all, (assumption | rule balanced_intros)+)

lemma balanced_pop_down_to [balanced_intros]:
  "balanced_by k d s \<Longrightarrow> post (balanced_by k d) (pop_down_to n s)"
proof -
  have "balanced_by k d s \<Longrightarrow> post (balanced_by k d) (pop_to m n s)" for m
  proof (induction m arbitrary: s)
    case (Suc m)
    show ?case unfolding pop_to.simps using Suc.prems
      by - (assumption | rule post_if | rule balanced_bind1 balanced_pop_release | rule Suc.IH | (simp; fail))+
  qed simp
  then show "balanced_by k d s \<Longrightarrow> post (balanced_by k d) (pop_down_to n s)" by (simp add: pop_down_to_def)
qed


section \<open>The instructions\<close>

lemma balanced_dispatch_push [balanced_intros]:
  assumes "balanced_by k d s" "\<And>a. d a - own v a = d' a"
  shows "post (next_balanced d') (dispatch_push s v)"
  unfolding dispatch_push_def using assms
  by - (rule balanced_map1, erule balanced_push, erule next_balanced_Dispatch, simp)

lemma balanced_throw [balanced_intros]: "post (next_balanced d) (throw_error s msg)"
  by (auto simp: throw_error_def post_eq next_balanced_def)

lemma balanced_if [balanced_intros]:
  "balanced_by k d s \<Longrightarrow> balanced_by k d t \<Longrightarrow> balanced_by k d (if b then s else t)"
  by simp

lemma balanced_release2 [balanced_intros]:
  assumes "balanced_by k d s"
  shows "post (balanced_by k (\<lambda>a. d a - own v a - own w a)) (release2 s v w)"
  unfolding release2_def using assms by - (assumption | rule balanced_intros)+

lemma balanced_jump_if [balanced_intros]:
  "balanced_by k d s \<Longrightarrow> post (balanced_by k d) (push_nulls n s)"
proof (induction n arbitrary: s)
  case (Suc n)
  have "post (balanced_by k d) (cando_vm_push s VNull)"
    by (rule balanced_post_cong [OF balanced_push [OF Suc.prems]]) simp
  then show ?case by (simp add: balanced_bind1 Suc.IH)
qed simp

lemma balanced_constants [balanced_intros]:
  assumes "balanced_by (Suc k) d s"
  shows "post (next_balanced d) (op_const s)"
    "post (next_balanced d) (op_null s)"
    "post (next_balanced d) (op_true s)"
    "post (next_balanced d) (op_false s)"
    "post (next_balanced d) (op_pop s)"
    "post (next_balanced d) (op_pop_n s)"
    "post (next_balanced d) (op_dup s)"
    "post (next_balanced d) (op_load_local s)"
    "post (next_balanced d) (op_load_global s)"
    "post (next_balanced d) (op_load_upval s)"
  unfolding op_const_def op_null_def op_true_def op_false_def op_pop_def op_pop_n_def op_dup_def op_load_local_def op_load_global_def op_load_upval_def  using assms
  by - (assumption | rule balanced_intros | rule post_intros | rule next_balanced_Dispatch | (simp; fail))+

lemma balanced_jumps [balanced_intros]:
  assumes "balanced_by (Suc k) d s"
  shows "post (next_balanced d) (op_jump s)"
    "post (next_balanced d) (op_loop s)"
    "post (next_balanced d) (op_loop_end s)"
    "post (next_balanced d) (op_mask_pass s)"
    "post (next_balanced d) (op_mask_skip s)"
    "post (next_balanced d) (op_spread_ret s)"
    "post (next_balanced d) (op_array_spread s)"
    "post (next_balanced d) (op_truncate_ret s)"
    "post (next_balanced d) (op_try_begin s)"
    "post (next_balanced d) (op_try_end s)"
    "post (next_balanced d) (op_vararg_len s)"
    "post (next_balanced d) (op_load_vararg s)"
  unfolding op_jump_def op_loop_def op_loop_end_def op_mask_pass_def op_mask_skip_def op_spread_ret_def op_array_spread_def op_truncate_ret_def op_try_begin_def op_try_end_def op_vararg_len_def op_load_vararg_def  using assms
  by - (assumption | rule balanced_intros | rule post_intros | rule next_balanced_Dispatch | (simp; fail))+

lemma balanced_peek_jumps [balanced_intros]:
  assumes "balanced_by (Suc k) d s"
  shows "post (next_balanced d) (op_and_jump s)"
    "post (next_balanced d) (op_or_jump s)"
    "post (next_balanced d) (op_jump_if_false s)"
    "post (next_balanced d) (op_jump_if_true s)"
  unfolding op_and_jump_def op_or_jump_def op_jump_if_false_def op_jump_if_true_def peek_jump_def using assms
  by - (assumption | rule balanced_intros | rule post_intros | rule next_balanced_Dispatch | (simp; fail))+

lemma balanced_more_loops [balanced_intros]:
  assumes "balanced_by (Suc k) d s"
  shows "post (next_balanced d) (op_loop_mark s)"
    "post (next_balanced d) (op_continue s)"
    "post (next_balanced d) (op_for_over_init s)"
  unfolding op_loop_mark_def op_continue_def op_for_over_init_def  using assms
  by - (assumption | rule balanced_intros | rule post_intros | rule next_balanced_Dispatch | (simp; fail))+


text \<open>The operands: neither is an object, so no meta-method is looked for.\<close>

definition plain_operands :: "cando_vm \<Rightarrow> bool" where
  "plain_operands s \<longleftrightarrow> (\<forall>v \<in> set (drop (length (vm_stack s) - 2) (vm_stack s)). \<not> is_object v)"

lemma plain_pops:
  assumes "plain_operands s" "cando_vm_pop s = Some (b, s1)" "cando_vm_pop s1 = Some (a, s2)"
  shows "\<not> is_object a" "\<not> is_object b"
proof -
  have ne: "vm_stack s \<noteq> []" "butlast (vm_stack s) \<noteq> []" and ab: "b = last (vm_stack s)" "a = last (butlast (vm_stack s))"
    using assms(2,3) by (auto simp: cando_vm_pop_def fault_simps)
  have st: "vm_stack s = butlast (butlast (vm_stack s)) @ [a, b]"
    using ne ab by (metis append_assoc append_butlast_last_id append_Cons append_Nil)
  have "drop (length (vm_stack s) - 2) (vm_stack s) = [a, b]" by (subst (1 2) st) simp
  then show "\<not> is_object a" "\<not> is_object b" using assms(1) by (simp_all add: plain_operands_def)
qed

lemma balanced_plain_meta:
  assumes "\<not> is_object a" "\<not> is_object b" "post Q (k s)"
  shows "post Q (try_binary_meta env run name s a b args dk k)"
  using assms by (simp add: try_binary_meta_def)

lemma pop_pop_eq:
  assumes "cando_vm_peek s 0 = Some b" "cando_vm_peek s 1 = Some a"
  shows "\<exists>s1 s2. cando_vm_pop s = Some (b, s1) \<and> cando_vm_pop s1 = Some (a, s2)"
proof -
  have len: "1 < length (vm_stack s)" using assms(2) by (auto simp: cando_vm_peek_def fault_simps)
  have ne: "vm_stack s \<noteq> []" "butlast (vm_stack s) \<noteq> []" using len by (auto simp: butlast_conv_take)
  have "b = last (vm_stack s)" "a = last (butlast (vm_stack s))"
    using assms len ne by (auto simp: cando_vm_peek_def fault_simps last_conv_nth nth_butlast numeral_2_eq_2)
  then show ?thesis using ne by (simp add: cando_vm_pop_def)
qed

lemma balanced_plus [balanced_intros]:
  assumes "balanced_by (Suc k) d s" "plain_operands s"
  shows "post (next_balanced d) (op_add env run s)"
proof (cases "\<exists>a b. cando_vm_peek s 0 = Some b \<and> cando_vm_peek s 1 = Some a")
  case True
  then obtain a b s1 s2 where top: "cando_vm_peek s 0 = Some b" "cando_vm_peek s 1 = Some a"
      "cando_vm_pop s = Some (b, s1)" "cando_vm_pop s1 = Some (a, s2)"
    using pop_pop_eq by blast
  have bal: "balanced_by (Suc k) (\<lambda>x. d x + own b x + own a x) s2"
    using postD [OF balanced_pop [OF assms(1)] top(3)] balanced_pop [of "Suc k" _ s1] top(4) by (auto simp: post_eq)
  note plain = plain_pops [OF assms(2) top(3,4)]
  show ?thesis unfolding op_add_def top bind.bind_lunit prod.case using bal plain
    by - (assumption | rule balanced_plain_meta | rule balanced_intros | rule post_intros | rule next_balanced_Dispatch | (simp; fail))+
next
  case False
  then show ?thesis by (cases "cando_vm_peek s 0"; cases "cando_vm_peek s 1") (auto simp: op_add_def)
qed

lemma balanced_arith [balanced_intros]:
  assumes "balanced_by (Suc k) d s" "plain_operands s"
    "\<And>s x y. balanced_by (Suc k) d s \<Longrightarrow> post (next_balanced d) (f s x y)"
  shows "post (next_balanced d) (arith_op name msg f env run s)"
proof -
  have "post (next_balanced d) (try_binary_meta env run name s2 a b [a, b] (meta_result a b) (\<lambda>s.
         case (a, b) of (VNumber x, VNumber y) \<Rightarrow> f s x y | _ \<Rightarrow> throw_error s (msg a b)))"
    if "cando_vm_pop s = Some (b, s1)" "cando_vm_pop s1 = Some (a, s2)" for a b s1 s2
  proof -
    have bal: "balanced_by (Suc k) (\<lambda>x. d x + own b x + own a x) s2"
      using postD [OF balanced_pop [OF assms(1)] that(1)] balanced_pop [of "Suc k" _ s1] that(2) by (auto simp: post_eq)
    have "balanced_by (Suc k) d s2" if "a = VNumber x" "b = VNumber y" for x y
      by (rule balanced_cong [OF bal]) (simp add: that)
    then have "post (next_balanced d) (case (a, b) of (VNumber x, VNumber y) \<Rightarrow> f s2 x y | _ \<Rightarrow> throw_error s2 (msg a b))"
      using assms(3) balanced_throw by (cases a; cases b) simp_all
    then show ?thesis by (rule balanced_plain_meta [OF plain_pops [OF assms(2) that]])
  qed
  then show ?thesis unfolding arith_op_def by (intro post_bind2) simp
qed

lemma balanced_numbers [balanced_intros]:
  assumes "balanced_by (Suc k) d s" "plain_operands s"
  shows "post (next_balanced d) (op_sub env run s)" "post (next_balanced d) (op_mul env run s)"
    "post (next_balanced d) (op_div env run s)" "post (next_balanced d) (op_mod env run s)" "post (next_balanced d) (op_pow env run s)"
  unfolding op_sub_def op_mul_def op_div_def op_mod_def op_pow_def using assms
  by - (assumption | rule balanced_intros | rule post_intros | rule next_balanced_Dispatch | (simp; fail))+

lemma balanced_equality [balanced_intros]:
  assumes "balanced_by (Suc k) d s" "plain_operands s"
  shows "post (next_balanced d) (op_eq env run s)" "post (next_balanced d) (op_neq env run s)"
  unfolding op_eq_def op_neq_def using assms
  by - (assumption | rule balanced_plain_meta plain_pops | rule balanced_intros | rule post_intros | rule next_balanced_Dispatch | (simp; fail))+

lemma balanced_cmp [balanced_intros]:
  assumes "balanced_by (Suc k) d s" "plain_operands s"
  shows "post (next_balanced d) (cmp_op name sw rel env run s)"
  unfolding cmp_op_def using assms
  by - (assumption | rule balanced_plain_meta plain_pops | rule balanced_intros | rule post_intros | rule next_balanced_Dispatch | (simp; fail))+


text \<open>Comparisons against several values.\<close>

lemma balanced_decides [balanced_intros]:
  assumes "balanced_by k d s"
  shows "post (\<lambda>(r, s). balanced_by k d s) (all_equal l rs s)" "post (\<lambda>(r, s). balanced_by k d s) (none_equal l rs s)"
    "post (\<lambda>(r, s). balanced_by k d s) (any_equal l rs s)" "post (\<lambda>(r, s). balanced_by k d s) (all_numbers rel l rs s)"
proof -
  have all: "balanced_by k d s \<Longrightarrow> post (\<lambda>(r, s). balanced_by k d s) (all_equal l rs s)" for s
    by (induction rs arbitrary: s) (simp_all, (assumption | rule balanced_intros post_intros | (simp; fail))+)
  have any: "balanced_by k d s \<Longrightarrow> post (\<lambda>(r, s). balanced_by k d s) (any_equal l rs s)" for s
    by (induction rs arbitrary: s) (simp_all, (assumption | rule balanced_intros post_intros | (simp; fail))+)
  show "post (\<lambda>(r, s). balanced_by k d s) (all_equal l rs s)" "post (\<lambda>(r, s). balanced_by k d s) (any_equal l rs s)"
    using all any assms by blast+
  show "post (\<lambda>(r, s). balanced_by k d s) (none_equal l rs s)" using any [OF assms] by (auto simp: none_equal_def post_eq)
  show "post (\<lambda>(r, s). balanced_by k d s) (all_numbers rel l rs s)" using assms by (simp add: all_numbers_def)
qed

lemma balanced_compare_n [balanced_intros]:
  assumes "balanced_by k d s" "\<And>l rs s. balanced_by k d s \<Longrightarrow> post (\<lambda>(r, s). balanced_by k d s) (decide l rs s)"
  shows "post (next_balanced d) (compare_n decide n s)"
  unfolding compare_n_def using assms(1)
  by - (assumption | rule assms(2) | rule balanced_intros | rule post_intros | (simp; fail))+

lemma balanced_stack_compares [balanced_intros]:
  assumes "balanced_by (Suc k) d s"
  shows "post (next_balanced d) (op_eq_stack s)"
    "post (next_balanced d) (op_neq_stack s)"
    "post (next_balanced d) (op_lt_stack s)"
    "post (next_balanced d) (op_gt_stack s)"
    "post (next_balanced d) (op_leq_stack s)"
    "post (next_balanced d) (op_geq_stack s)"
  unfolding op_eq_stack_def op_neq_stack_def op_lt_stack_def op_gt_stack_def op_leq_stack_def op_geq_stack_def stack_op_def using assms
  by - (assumption | rule balanced_intros | rule post_intros | rule next_balanced_Dispatch | (simp; fail))+

lemma balanced_spread_compares [balanced_intros]:
  assumes "balanced_by (Suc k) d s"
  shows "post (next_balanced d) (op_eq_spread s)"
    "post (next_balanced d) (op_neq_spread s)"
    "post (next_balanced d) (op_lt_spread s)"
    "post (next_balanced d) (op_gt_spread s)"
    "post (next_balanced d) (op_leq_spread s)"
    "post (next_balanced d) (op_geq_spread s)"
  unfolding op_eq_spread_def op_neq_spread_def op_lt_spread_def op_gt_spread_def op_leq_spread_def op_geq_spread_def spread_op_def using assms
  by - (assumption | rule balanced_intros | rule post_intros | rule next_balanced_Dispatch | (simp; fail))+

lemma balanced_words [balanced_intros]:
  assumes "balanced_by (Suc k) d s"
  shows "post (next_balanced d) (op_pos s)"
    "post (next_balanced d) (op_bit_and s)"
    "post (next_balanced d) (op_bit_or s)"
    "post (next_balanced d) (op_bit_xor s)"
    "post (next_balanced d) (op_bit_not s)"
    "post (next_balanced d) (op_lshift s)"
    "post (next_balanced d) (op_rshift s)"
    "post (next_balanced d) (op_not s)"
    "post (next_balanced d) (op_range_check s)"
  unfolding op_pos_def op_bit_and_def op_bit_or_def op_bit_xor_def op_bit_not_def op_lshift_def op_rshift_def op_not_def op_range_check_def bit_op_def using assms
  by - (assumption | rule balanced_intros | rule post_intros | rule next_balanced_Dispatch | (simp; fail))+

text \<open>The instructions that replace a cell.\<close>

lemma stack_kept:
  "vm_release s v = Some s' \<Longrightarrow> vm_stack s' = vm_stack s" "vm_copy s v = Some s' \<Longrightarrow> vm_stack s' = vm_stack s"
  "read_u16 s = Some (n, s') \<Longrightarrow> vm_stack s' = vm_stack s" "read_i16 s = Some (off, s') \<Longrightarrow> vm_stack s' = vm_stack s"
  by (auto simp: vm_release_def vm_copy_def read_u16_def read_i16_def fault_simps)

lemma balanced_step_top [balanced_intros]:
  assumes "balanced_by (Suc k) d s"
  shows "post (next_balanced d) (op_incr s)" "post (next_balanced d) (op_decr s)"
  unfolding op_incr_def op_decr_def step_top_def using assms
  by - (assumption | rule balanced_intros | rule post_intros | rule next_balanced_Dispatch
        | (auto simp: cando_vm_peek_def fault_simps; fail))+

lemma balanced_store_local [balanced_intros]:
  assumes "balanced_by (Suc k) d s"
  shows "post (next_balanced d) (op_store_local s)"
  unfolding op_store_local_def using assms
  by - (assumption | rule balanced_intros | rule post_intros | rule next_balanced_Dispatch
        | (auto simp: fault_simps dest!: stack_kept; fail))+

lemma balanced_next_value [balanced_intros]:
  assumes "balanced_by (Suc k) d s" "top_numbers s = Some (index, count)"
  shows "post (next_balanced d) (next_value index count s)"
  unfolding next_value_def using assms(1)
  by - (assumption | rule balanced_intros | rule post_intros | rule next_balanced_Dispatch
        | (insert assms(2); auto simp: top_numbers_def cando_vm_peek_def fault_simps split: cando_value.splits; fail))+


lemma pop_kept: "cando_vm_pop s = Some (v, s') \<Longrightarrow> vm_stack s' = butlast (vm_stack s)"
  by (auto simp: cando_vm_pop_def fault_simps)

lemma balanced_def_local [balanced_intros]:
  assumes "balanced_by (Suc k) d s"
  shows "post (next_balanced d) (op_def_local s)"
  unfolding op_def_local_def using assms
  by - (assumption | rule balanced_intros | rule post_intros | rule next_balanced_Dispatch
        | (auto simp: fault_simps put_cell_def nth_butlast dest!: stack_kept pop_kept; fail))+

lemma balanced_for_next [balanced_intros]:
  assumes "balanced_by (Suc k) d s"
  shows "post (next_balanced d) (op_for_next s)" "post (next_balanced d) (op_pipe_next s)"
  unfolding op_for_next_def op_pipe_next_def using assms
  by - (assumption | rule balanced_intros | rule post_intros | rule next_balanced_Dispatch | (simp; fail))+

lemma balanced_break_loop_state [balanced_intros]:
  assumes "balanced_by k d s"
  shows "post (balanced_by k d) (break_loop_state t s)"
  unfolding break_loop_state_def using assms
  by - (assumption | rule balanced_intros | rule post_intros)+

lemma balanced_break [balanced_intros]:
  assumes "balanced_by k d s"
  shows "post (next_balanced d) (op_break s)"
  unfolding op_break_def using assms
  by - (assumption | rule balanced_intros | rule post_intros | rule next_balanced_Dispatch | (simp; fail))+

text \<open>The loop of a mask keeps some of the returned values and releases the others.\<close>

lemma mask_loop_balance:
  "balanced_by k d s \<Longrightarrow> mask_loop nb bm i vs kept s = Some (out, s') \<Longrightarrow>
   balanced_by k (\<lambda>a. d a - owns vs a - owns kept a + owns out a) s' \<and> vm_stack s' = vm_stack s"
proof (induction vs arbitrary: i kept s d)
  case (Cons v vs)
  show ?case
  proof (cases "mask_keeps nb bm i")
    case True
    then have L: "balanced_by k (\<lambda>a. d a - owns vs a - owns (kept @ [v]) a + owns out a) s' \<and> vm_stack s' = vm_stack s"
      using Cons.IH [OF Cons.prems(1), of "i + 1" "kept @ [v]"] Cons.prems(2) by simp
    have "balanced_by k (\<lambda>a. d a - owns (v # vs) a - owns kept a + owns out a) s'"
      by (rule balanced_cong [OF conjunct1 [OF L]]) (simp del: owned_simps)
    then show ?thesis using L by simp
  next
    case False
    then obtain s1 where s1: "vm_release s v = Some s1" "mask_loop nb bm (i + 1) vs kept s1 = Some (out, s')"
      using Cons.prems(2) by (auto simp: fault_simps)
    have "balanced_by k (\<lambda>a. d a - own v a) s1" using postD [OF balanced_release [OF Cons.prems(1)] s1(1)] .
    note L = Cons.IH [OF this s1(2)]
    have "balanced_by k (\<lambda>a. d a - owns (v # vs) a - owns kept a + owns out a) s'"
      by (rule balanced_cong [OF conjunct1 [OF L]]) (simp del: owned_simps)
    then show ?thesis using L stack_kept(1) [OF s1(1)] by simp
  qed
qed (auto elim: balanced_cong)

lemma balanced_mask_apply [balanced_intros]:
  assumes "balanced_by k d s"
  shows "post (next_balanced d) (op_mask_apply s)"
proof -
  have "next_balanced d (Dispatch (s2\<lparr>vm_stack := take n (vm_stack s2) @ kept, vm_last_ret_count := c\<rparr>))"
    if "balanced_by k d s1" "mask_loop nb bm 0 (drop n (vm_stack s1)) [] s1 = Some (kept, s2)" for nb bm n kept s1 s2 c
  proof -
    note L = mask_loop_balance [OF that]
    have "owns (vm_stack s1) a = owns (take n (vm_stack s1)) a + owns (drop n (vm_stack s1)) a" for a
      using owned_take_drop [of value_held n "vm_stack s1" a] by simp
    then have "balanced_by k d (s2\<lparr>vm_stack := take n (vm_stack s2) @ kept, vm_last_ret_count := c\<rparr>)"
      using L by (simp add: balanced_by_def)
    then show ?thesis by (simp add: next_balanced_Dispatch)
  qed
  then show ?thesis unfolding op_mask_apply_def using assms
    by - (rule balanced_bind2, erule balanced_reads, rule balanced_bind2, erule balanced_reads, rule post_check,
        rule post_let, rule post_check, rule post_let, rule post_bind2, rule post_Some, blast)
qed

section \<open>The property\<close>

definition value_ops :: "nat list" where
  "value_ops =
     [OP_CONST, OP_NULL, OP_TRUE, OP_FALSE, OP_POP, OP_POP_N, OP_DUP, OP_LOAD_LOCAL, OP_STORE_LOCAL, OP_DEF_LOCAL,
      OP_DEF_CONST_LOCAL, OP_LOAD_GLOBAL, OP_LOAD_UPVAL, OP_ADD, OP_SUB, OP_MUL, OP_DIV, OP_MOD, OP_POW, OP_POS, OP_INCR,
      OP_DECR, OP_EQ, OP_NEQ, OP_LT, OP_GT, OP_LEQ, OP_GEQ, OP_EQ_STACK, OP_NEQ_STACK, OP_LT_STACK, OP_GT_STACK,
      OP_LEQ_STACK, OP_GEQ_STACK, OP_RANGE_CHECK, OP_BIT_AND, OP_BIT_OR, OP_BIT_XOR, OP_BIT_NOT, OP_LSHIFT, OP_RSHIFT,
      OP_NOT, OP_AND_JUMP, OP_OR_JUMP, OP_JUMP, OP_JUMP_IF_FALSE, OP_JUMP_IF_TRUE, OP_LOOP, OP_BREAK, OP_CONTINUE,
      OP_LOOP_MARK, OP_LOOP_END, OP_LOAD_VARARG, OP_VARARG_LEN, OP_FOR_NEXT, OP_FOR_OVER_INIT, OP_PIPE_NEXT,
      OP_FILTER_NEXT, OP_TRY_BEGIN, OP_TRY_END, OP_MASK_PASS, OP_MASK_SKIP, OP_MASK_APPLY, OP_SPREAD_RET, OP_ARRAY_SPREAD,
      OP_TRUNCATE_RET, OP_EQ_SPREAD, OP_NEQ_SPREAD, OP_LT_SPREAD, OP_GT_SPREAD, OP_LEQ_SPREAD, OP_GEQ_SPREAD, OP_NOP]"

lemma balanced_comparisons [balanced_intros]:
  assumes "balanced_by (Suc k) d s" "plain_operands s"
  shows "post (next_balanced d) (op_lt env run s)" "post (next_balanced d) (op_gt env run s)"
    "post (next_balanced d) (op_leq env run s)" "post (next_balanced d) (op_geq env run s)"
  unfolding op_lt_def op_gt_def op_leq_def op_geq_def using assms by (simp_all add: balanced_cmp)

lemma balanced_nop [balanced_intros]: "balanced_by k d s \<Longrightarrow> post (next_balanced d) (Some (Dispatch s))"
  by (simp add: next_balanced_Dispatch)

lemma balanced_value_op:
  assumes "op \<in> set value_ops" "balanced_by 1 d s" "plain_operands s"
  shows "post (next_balanced d) (vm_dispatch env run op s)"
proof -
  note bal = assms(2) [unfolded One_nat_def]
  have nop: "next_balanced d (Dispatch s)" using bal by (simp add: next_balanced_Dispatch)
  show ?thesis using assms(1) unfolding value_ops_def list.set insert_iff empty_iff
    by (elim disjE) (erule FalseE
        | (simp add: vm_dispatch_def dispatch_data_def dispatch_arith_def dispatch_compare_def dispatch_bits_def
        dispatch_control_def dispatch_call_def dispatch_iterate_def dispatch_error_def dispatch_other_def;
        (rule nop | (rule balanced_intros; (rule bal | rule assms(3))))))+
qed

text \<open>Of the outcome: when one of these instructions goes on, the counts are exact again. That they do go on or raise an
  error, and do not fault, is shown in \<open>Vm_Safe\<close> for those that need nothing but their operands.\<close>

lemma value_instructions_keep_counts:
  assumes "balanced_by 1 d s" "plain_operands s" "read_byte s = Some (op, s1)" "op \<in> set value_ops"
    "vm_step env run s = Some (Dispatch s')"
  shows "strings_ok (m_strings s') \<and> (\<forall>a. int (str_refs (m_strings s') a) = owns (vm_stack s') a + d a) \<and>
         (\<forall>a \<in> set (m_malloc s'). m_strings s' a = None)"
proof -
  have "balanced_by 1 d s1" using postD [OF balanced_reads(3) [OF assms(1)] assms(3)] by simp
  moreover have "vm_stack s1 = vm_stack s" using assms(3) by (auto simp: read_byte_def fault_simps)
  then have "plain_operands s1" using assms(2) by (simp add: plain_operands_def)
  ultimately have "post (next_balanced d) (vm_dispatch env run op s1)" by (rule balanced_value_op [OF assms(4)])
  then have "balanced_by 0 d s'" using assms(3,5) by (simp add: vm_step_def next_balanced_def)
  then show ?thesis by (simp add: balanced_by_def)
qed

lemma dispatched_stack:
  "map_option (\<lambda>r. case r of Dispatch s \<Rightarrow> f s | _ \<Rightarrow> []) m = Some (x # xs) \<Longrightarrow> \<exists>s. m = Some (Dispatch s) \<and> f s = x # xs"
  by (cases m; cases "the m") auto

end
