(* ===== verification/Vm_Unwind.thy ===== *)
theory Vm_Unwind
  imports Vm_Refs
begin

text \<open>
  Errors: what unwinding to a handler restores and releases, and how thrown values reach the handler's parameters.
\<close>

section \<open>Taking the stack down\<close>

lemma pop_release_spec:
  assumes "strings_ok (m_strings s)" "vm_stack s = xs @ [v]" "\<And>a. owned value_held [v] a \<le> str_refs (m_strings s) a"
  shows "\<exists>H. pop_release s = Some (s\<lparr>vm_stack := xs, m_strings := H\<rparr>) \<and> strings_ok H \<and>
             str_refs H = (\<lambda>a. str_refs (m_strings s) a - owned value_held [v] a)"
proof -
  have "0 < str_refs (m_strings s) a" if "value_held v = Some a" for a
    using assms(3) [of a] that by simp
  then obtain H where "cando_value_release (m_strings s) v = Some H" "strings_ok H"
      "str_refs H = (\<lambda>a. str_refs (m_strings s) a - owned value_held [v] a)"
    using vals.release_law [OF assms(1), of v] by blast
  then show ?thesis using assms(2) by (auto simp: pop_release_def cando_vm_pop_def vm_release_def)
qed

lemma pop_to_spec:
  assumes "strings_ok (m_strings s)" "length (vm_stack s) \<le> n + k" "n \<le> length (vm_stack s)"
    "\<And>a. owned value_held (drop n (vm_stack s)) a \<le> str_refs (m_strings s) a"
  shows "\<exists>H. pop_to k n s = Some (s\<lparr>vm_stack := take n (vm_stack s), m_strings := H\<rparr>) \<and> strings_ok H \<and>
             str_refs H = (\<lambda>a. str_refs (m_strings s) a - owned value_held (drop n (vm_stack s)) a)"
  using assms
proof (induction k arbitrary: s)
  case (Suc k)
  show ?case
  proof (cases "n < length (vm_stack s)")
    case True
    then obtain xs v where st: "vm_stack s = xs @ [v]" by (metis append_butlast_last_id list.size(3) not_less_zero)
    have d: "drop n (vm_stack s) = drop n xs @ [v]" "take n (vm_stack s) = take n xs" using True st by simp_all
    have v: "owned value_held [v] a \<le> str_refs (m_strings s) a" for a
      using Suc.prems(4) [of a] unfolding d owned_simps(3) by linarith
    obtain H where H: "pop_release s = Some (s\<lparr>vm_stack := xs, m_strings := H\<rparr>)" "strings_ok H"
        "str_refs H = (\<lambda>a. str_refs (m_strings s) a - owned value_held [v] a)"
      using pop_release_spec [OF Suc.prems(1) st v] by blast
    let ?s = "s\<lparr>vm_stack := xs, m_strings := H\<rparr>"
    have rest: "owned value_held (drop n (vm_stack ?s)) a \<le> str_refs (m_strings ?s) a" for a
      using Suc.prems(4) [of a] H(3) unfolding d owned_simps(3) by simp
    obtain H' where "pop_to k n ?s = Some (?s\<lparr>vm_stack := take n xs, m_strings := H'\<rparr>)" "strings_ok H'"
        "str_refs H' = (\<lambda>a. str_refs H a - owned value_held (drop n xs) a)"
      using Suc.IH [of ?s] H(2) Suc.prems(2,3) True st rest by auto
    then show ?thesis using True H d by (auto simp: fun_eq_iff)
  next
    case False
    then show ?thesis using Suc.prems by (intro exI [of _ "m_strings s"]) simp
  qed
next
  case 0
  then show ?case by (intro exI [of _ "m_strings s"]) simp
qed

lemma pop_down_to_spec:
  assumes "strings_ok (m_strings s)" "n \<le> length (vm_stack s)"
    "\<And>a. owned value_held (drop n (vm_stack s)) a \<le> str_refs (m_strings s) a"
  shows "\<exists>H. pop_down_to n s = Some (s\<lparr>vm_stack := take n (vm_stack s), m_strings := H\<rparr>) \<and> strings_ok H \<and>
             str_refs H = (\<lambda>a. str_refs (m_strings s) a - owned value_held (drop n (vm_stack s)) a)"
  unfolding pop_down_to_def using pop_to_spec [of s n "length (vm_stack s)"] assms by simp

section \<open>Taking the frames down\<close>

definition open_ok :: "(addr \<rightharpoonup> upvalue) \<Rightarrow> nat \<Rightarrow> addr list \<Rightarrow> bool" where
  "open_ok U n us \<longleftrightarrow> distinct us \<and> (\<forall>u \<in> set us. \<exists>uv i. U u = Some uv \<and> uv_slot uv = Some i \<and> i < n)"

lemma close_loop_spec:
  "open_ok U (length st) us \<Longrightarrow> \<exists>U' us'. close_loop slot st U us = Some (U', us') \<and> open_ok U' (length st) us'"
proof (induction us arbitrary: U)
  case (Cons u us)
  obtain uv i where u: "U u = Some uv" "uv_slot uv = Some i" "i < length st" using Cons.prems by (auto simp: open_ok_def)
  show ?case
  proof (cases "slot \<le> i")
    case True
    have "open_ok (U(u \<mapsto> \<lparr>uv_slot = None, uv_closed = st ! i\<rparr>)) (length st) us" using Cons.prems by (auto simp: open_ok_def)
    then show ?thesis using Cons.IH u True by auto
  next
    case False
    then show ?thesis using u Cons.prems by auto
  qed
qed simp

lemma unwind_frames_spec:
  assumes "open_ok (m_upvals s) (length (vm_stack s)) (vm_open_upvalues s)" "length (vm_frames s) \<le> save + n"
  shows "\<exists>U us. unwind_frames n save s =
           Some (s\<lparr>vm_frames := take save (vm_frames s), m_upvals := U, vm_open_upvalues := us\<rparr>)"
  using assms
proof (induction n arbitrary: s)
  case (Suc n)
  show ?case
  proof (cases "save < length (vm_frames s)")
    case True
    obtain U us where cl: "close_loop (fr_slots (last (vm_frames s))) (vm_stack s) (m_upvals s) (vm_open_upvalues s) = Some (U, us)"
        "open_ok U (length (vm_stack s)) us"
      using close_loop_spec [OF Suc.prems(1)] by blast
    let ?s = "s\<lparr>m_upvals := U, vm_open_upvalues := us, vm_frames := butlast (vm_frames s)\<rparr>"
    have "length (vm_frames ?s) \<le> save + n" using Suc.prems(2) True by simp
    then obtain U' us' where "unwind_frames n save ?s =
        Some (?s\<lparr>vm_frames := take save (vm_frames ?s), m_upvals := U', vm_open_upvalues := us'\<rparr>)"
      using Suc.IH [of ?s] cl(2) by auto
    then show ?thesis using True cl(1) by (simp add: vm_close_upvalues_def take_butlast, blast)
  next
    case False
    then show ?thesis by (intro exI [of _ "m_upvals s"] exI [of _ "vm_open_upvalues s"]) simp
  qed
next
  case 0
  then show ?case by (intro exI [of _ "m_upvals s"] exI [of _ "vm_open_upvalues s"]) simp
qed

section \<open>Properties\<close>

text \<open>C10. An error goes to the innermost handler and to nothing else: unwinding drops the frames and the stack cells above
  those the handler was set up with (releasing each dropped value once), restores the depth of the loop stack, removes
  exactly that handler, clears the error flag, keeps the error values and continues at the handler's code in its frame;
  with no handler left the machine stops with a run-time error and is otherwise unchanged.\<close>

theorem unwind_restores_handler:
  assumes "strings_ok (m_strings s)" "vm_tries s = tf # tfs" "tf_catch_ip tf = Some ip"
    "0 < tf_frame_save tf" "tf_frame_save tf \<le> length (vm_frames s)" "tf_stack_save tf \<le> length (vm_stack s)"
    "open_ok (m_upvals s) (length (vm_stack s)) (vm_open_upvalues s)"
    "\<forall>a. owned value_held (drop (tf_stack_save tf) (vm_stack s)) a \<le> str_refs (m_strings s) a"
  shows "(\<exists>s'. vm_handle_error s = Some (Dispatch s') \<and>
            vm_ip s' = ip \<and> vm_fp s' = tf_frame_save tf - 1 \<and> vm_frames s' = take (tf_frame_save tf) (vm_frames s) \<and>
            vm_stack s' = take (tf_stack_save tf) (vm_stack s) \<and> vm_loop_depth s' = tf_loop_save tf \<and> vm_tries s' = tfs \<and>
            \<not> vm_has_error s' \<and> vm_error_vals s' = vm_error_vals s \<and> vm_error_count s' = vm_error_count s \<and>
            m_closures s' = m_closures s \<and> m_chunks s' = m_chunks s \<and>
            strings_ok (m_strings s') \<and>
            str_refs (m_strings s') = (\<lambda>a. str_refs (m_strings s) a - owned value_held (drop (tf_stack_save tf) (vm_stack s)) a)) \<and>
         vm_handle_error (s\<lparr>vm_tries := []\<rparr>) = Some (Leave VM_RUNTIME_ERR (s\<lparr>vm_tries := []\<rparr>))"
proof -
  let ?n = "tf_stack_save tf" and ?fs = "take (tf_frame_save tf) (vm_frames s)"
  obtain U us where u: "unwind_frames (length (vm_frames s)) (tf_frame_save tf) s =
      Some (s\<lparr>vm_frames := ?fs, m_upvals := U, vm_open_upvalues := us\<rparr>)"
    using unwind_frames_spec [OF assms(7), of "tf_frame_save tf" "length (vm_frames s)"] by auto
  let ?s = "s\<lparr>vm_frames := ?fs, m_upvals := U, vm_open_upvalues := us\<rparr>"
  obtain H where H: "pop_down_to ?n ?s = Some (?s\<lparr>vm_stack := take ?n (vm_stack s), m_strings := H\<rparr>)" "strings_ok H"
      "str_refs H = (\<lambda>a. str_refs (m_strings s) a - owned value_held (drop ?n (vm_stack s)) a)"
    using pop_down_to_spec [of ?s ?n] assms(1,6,8) by auto
  have "?fs \<noteq> []" "length ?fs = tf_frame_save tf" using assms(4,5) by auto
  then have "\<exists>s'. vm_handle_error s = Some (Dispatch s') \<and>
      s' = ?s\<lparr>vm_stack := take ?n (vm_stack s), m_strings := H, vm_loop_depth := tf_loop_save tf, vm_tries := tfs,
              vm_has_error := False, vm_fp := tf_frame_save tf - 1, vm_ip := ip\<rparr>"
    using u H(1) assms(2,3) by (simp add: vm_handle_error_def load_frame_def)
  then show ?thesis using H(2,3) by (auto simp: vm_handle_error_def)
qed

theorem unwind_restores_handler_witness:
  "\<exists>s'. vm_handle_error ((example_vm [OP_HALT] [] [VNull, VString 64])
            \<lparr>vm_has_error := True, vm_tries := [\<lparr>tf_catch_ip = Some 9, tf_finally_ip = None, tf_stack_save = 1, tf_frame_save = 1, tf_loop_save = 0\<rparr>]\<rparr>) =
        Some (Dispatch s') \<and> vm_ip s' = 9 \<and> vm_stack s' = [VNull] \<and> str_refs (m_strings s') 64 = 0"
proof -
  let ?tf = "\<lparr>tf_catch_ip = Some 9, tf_finally_ip = None, tf_stack_save = 1, tf_frame_save = 1, tf_loop_save = 0\<rparr>"
  let ?s = "(example_vm [OP_HALT] [] [VNull, VString 64])\<lparr>vm_has_error := True, vm_tries := [?tf]\<rparr>"
  have ok: "strings_ok (m_strings ?s)" "str_refs (m_strings ?s) = (\<lambda>a. if a = 64 then 1 else 0)"
    by (simp_all add: example_vm_def strings_ok_def str_refs_def fun_eq_iff)
  have "open_ok (m_upvals ?s) (length (vm_stack ?s)) (vm_open_upvalues ?s)" by (simp add: open_ok_def example_vm_def)
  from unwind_restores_handler [OF ok(1), of ?tf "[]" 9] this ok(2) show ?thesis
    by (auto simp: example_vm_def value_held_def)
qed

end
