(* ===== verification/Float_Nat.thy ===== *)
theory Float_Nat
  imports Float64
begin

text \<open>
  Counting in doubles: below \<open>2 ^ 53\<close> the order and the successor of the naturals are exact, which is what the counters of the
  loops rely on.
\<close>

section \<open>Order\<close>

lemma f64_of_nat_mag:
  assumes "0 < n" "n < 2 ^ 53"
  shows "f64_mag (f64_of_nat n) = (1021 + blen n) * 2 ^ 52 + n * 2 ^ (53 - blen n)"
proof -
  have "(1021 + blen n) * 2 ^ 52 + n * 2 ^ (53 - blen n) < (1076::nat) * 2 ^ 52"
    using bits_bound [OF blen_le [OF assms(2)] f64_of_nat_bits(3) [OF assms]] .
  then have "(1021 + blen n) * 2 ^ 52 + n * 2 ^ (53 - blen n) < (2::nat) ^ 63" by simp
  then show ?thesis using f64_of_nat_bits(1) [OF assms] by (simp add: f64_mag_make)
qed

lemma f64_of_nat_key:
  assumes "n < 2 ^ 53"
  shows "f64_key (f64_of_nat n) = int (f64_mag (f64_of_nat n))"
  using f64_of_nat_ratio(2) [OF assms] by (simp add: f64_key_def)

lemma f64_of_nat_mono:
  assumes "n < m" "m < 2 ^ 53"
  shows "f64_mag (f64_of_nat n) < f64_mag (f64_of_nat m)"
proof (cases "n = 0")
  case True
  then show ?thesis using assms f64_of_nat_mag [of m] by (simp add: f64_mag_def)
next
  case False
  then have n: "0 < n" "n < 2 ^ 53" and m: "0 < m" using assms by auto
  let ?N = "blen n" and ?M = "blen m"
  have le: "?N \<le> ?M"
  proof (rule ccontr)
    assume "\<not> ?N \<le> ?M"
    then have "(2::nat) ^ ?M \<le> 2 ^ (?N - 1)" by (intro power_increasing) auto
    then show False using blen_bounds [OF n(1)] blen_bounds [OF m] assms(1) by linarith
  qed
  show ?thesis
  proof (cases "?N = ?M")
    case True
    then show ?thesis using assms f64_of_nat_mag [OF n] f64_of_nat_mag [OF m assms(2)] by simp
  next
    case False
    then have "(1021 + ?N) * 2 ^ 52 + 2 ^ 53 \<le> (1021 + ?M) * 2 ^ 52 + (2::nat) ^ 52" using le by simp
    then show ?thesis
      using f64_of_nat_mag [OF n] f64_of_nat_mag [OF m assms(2)] f64_of_nat_bits(3) [OF n] f64_of_nat_bits(2) [OF m assms(2)]
      by linarith
  qed
qed

lemma f64_of_nat_not_nan: "n < 2 ^ 53 \<Longrightarrow> \<not> f64_is_nan (f64_of_nat n)"
  using f64_of_nat_finite [of n] by (simp add: f64_is_finite_def f64_is_nan_def)

lemma f64_le_of_nat:
  assumes "n < 2 ^ 53" "m < 2 ^ 53"
  shows "f64_le (f64_of_nat n) (f64_of_nat m) \<longleftrightarrow> n \<le> m"
  using assms f64_of_nat_mono [of n m] f64_of_nat_mono [of m n]
  by (cases n m rule: linorder_cases) (auto simp: f64_le_def f64_of_nat_key f64_of_nat_not_nan)

section \<open>Successor\<close>

lemma blen_scale: "0 < n \<Longrightarrow> blen (n * 2 ^ j) = blen n + j"
proof (induction j)
  case (Suc j)
  have "blen (n * 2 ^ Suc j) = Suc (blen (n * 2 ^ Suc j div 2))" using Suc.prems by (subst blen.simps) simp
  also have "n * 2 ^ Suc j div 2 = n * 2 ^ j" by simp
  finally show ?case using Suc by simp
qed simp

lemma div_even_scale: "0 < j \<Longrightarrow> div_even (n * j) (d * j) = div_even n d"
  by (simp add: div_even_def Let_def mult_mod_left [symmetric] flip: mult.assoc)

lemma f64_round_scale:
  assumes "0 < n" "0 < d"
  shows "f64_round s (n * 2 ^ j) (d * 2 ^ j) = f64_round s n d"
proof -
  have sc: "scaled (n * 2 ^ j) (d * 2 ^ j) k = (case scaled n d k of (a, b) \<Rightarrow> (a * 2 ^ j, b * 2 ^ j))" for k
    by (simp add: scaled_def mult.commute mult.left_commute)
  have k: "int (blen (n * 2 ^ j)) - int (blen (d * 2 ^ j)) = int (blen n) - int (blen d)"
    using assms by (simp add: blen_scale)
  have q1: "(case scaled (n * 2 ^ j) (d * 2 ^ j) k of (a, b) \<Rightarrow> if 2 ^ 53 \<le> a div b then Suc k else k) =
            (case scaled n d k of (a, b) \<Rightarrow> if 2 ^ 53 \<le> a div b then Suc k else k)" for k
    unfolding sc by (cases "scaled n d k") simp
  have q2: "(case scaled (n * 2 ^ j) (d * 2 ^ j) k of (a, b) \<Rightarrow> div_even a b) = (case scaled n d k of (a, b) \<Rightarrow> div_even a b)" for k
    unfolding sc by (cases "scaled n d k") (simp add: div_even_scale)
  have k': "1074 + int (blen (n * 2 ^ j)) - int (blen (d * 2 ^ j)) - 53 = 1074 + int (blen n) - int (blen d) - 53"
    using k by simp
  show ?thesis unfolding f64_round_def Let_def k' q1 q2 using assms by simp
qed

lemma f64_succ_of_nat:
  assumes "n + 1 < 2 ^ 53"
  shows "f64_add (f64_of_nat n) (f64_of_nat 1) = f64_of_nat (n + 1)"
proof -
  have n: "n < 2 ^ 53" "(1::nat) < 2 ^ 53" using assms by auto
  obtain k where k: "f64_ratio (f64_of_nat n) = (n * 2 ^ k, 2 ^ k)" using f64_of_nat_ratio(1) [OF n(1)] by blast
  obtain l where l: "f64_ratio (f64_of_nat 1) = (1 * 2 ^ l, 2 ^ l)" using f64_of_nat_ratio(1) [OF n(2)] by blast
  have fin: "\<not> f64_is_inf (f64_of_nat n)" "\<not> f64_is_inf (f64_of_nat 1)"
    using f64_of_nat_finite [OF n(1)] f64_of_nat_finite [OF n(2)] by (simp_all add: f64_is_finite_def f64_is_inf_def)
  define M where "M = (n + 1) * 2 ^ (k + l)"
  have z: "int (n * 2 ^ k * 2 ^ l) + int (1 * 2 ^ l * 2 ^ k) = int M" "0 < M"
    by (simp_all add: M_def power_add algebra_simps)
  have d: "2 ^ k * 2 ^ l = (1 * 2 ^ (k + l) :: nat)" by (simp add: power_add)
  have "f64_add (f64_of_nat n) (f64_of_nat 1) = f64_round False M (1 * 2 ^ (k + l))"
    using f64_of_nat_not_nan [OF n(1)] f64_of_nat_not_nan [OF n(2)] fin k l f64_of_nat_ratio(2) [OF n(1)] f64_of_nat_ratio(2) [OF n(2)]
    unfolding f64_add_def Let_def k l prod.case d by (simp only: z(1) if_False) (use z(2) in simp)
  also have "\<dots> = f64_of_nat (n + 1)" unfolding f64_of_nat_def M_def by (rule f64_round_scale) simp_all
  finally show ?thesis .
qed

end
