(* ===== verification/Vm_Loops.thy ===== *)
theory Vm_Loops
  imports Vm_Unwind Float_Nat
begin

text \<open>
  The \<open>FOR\<close> loop: what a round of \<open>OP_FOR_NEXT\<close> and a \<open>BREAK\<close> leave on the stack.
\<close>

lemma pop_release_n_spec:
  assumes "strings_ok (m_strings s)" "vm_stack s = xs @ ys" "\<And>a. owned value_held ys a \<le> str_refs (m_strings s) a"
  shows "\<exists>H. pop_release_n (length ys) s = Some (s\<lparr>vm_stack := xs, m_strings := H\<rparr>) \<and> strings_ok H \<and>
             str_refs H = (\<lambda>a. str_refs (m_strings s) a - owned value_held ys a)"
  using assms
proof (induction ys arbitrary: s rule: rev_induct)
  case Nil
  then show ?case by (intro exI [of _ "m_strings s"]) simp
next
  case (snoc y ys)
  have y: "owned value_held [y] a \<le> str_refs (m_strings s) a" for a
    using snoc.prems(3) [of a] unfolding owned_simps(3) by linarith
  obtain H where H: "pop_release s = Some (s\<lparr>vm_stack := xs @ ys, m_strings := H\<rparr>)" "strings_ok H"
      "str_refs H = (\<lambda>a. str_refs (m_strings s) a - owned value_held [y] a)"
    using pop_release_spec [OF snoc.prems(1), of "xs @ ys" y] y snoc.prems(2) by auto
  let ?s = "s\<lparr>vm_stack := xs @ ys, m_strings := H\<rparr>"
  have "owned value_held ys a \<le> str_refs (m_strings ?s) a" for a
    using snoc.prems(3) [of a] H(3) by simp
  then obtain H' where "pop_release_n (length ys) ?s = Some (?s\<lparr>vm_stack := xs, m_strings := H'\<rparr>)" "strings_ok H'"
      "str_refs H' = (\<lambda>a. str_refs H a - owned value_held ys a)"
    using snoc.IH [of ?s] H(2) by auto
  then show ?case using H by (auto simp: fun_eq_iff)
qed

text \<open>The state of a \<open>FOR\<close> loop on top of the stack: the values, their number and the position of the next one.\<close>

definition for_state :: "cando_value list \<Rightarrow> nat \<Rightarrow> cando_value list" where
  "for_state vals i = vals @ [VNumber (f64_of_nat (length vals)), VNumber (f64_of_nat i)]"

lemma owned_for_state [simp]: "owned value_held (for_state vals i) a = owned value_held vals a"
  by (simp add: for_state_def value_held_def)

lemma small_count: "n \<le> 2048 \<Longrightarrow> n < (2::nat) ^ 53"
  by simp

lemma pop_release_n_add: "pop_release_n (m + k) s = Option.bind (pop_release_n m s) (pop_release_n k)"
proof (induction m arbitrary: s)
  case (Suc m)
  then show ?case by (cases "pop_release s") simp_all
qed simp

text \<open>Popping the two counters and then \<open>k\<close> values.\<close>

lemma pop_for_state:
  assumes "strings_ok (m_strings s)" "vm_stack s = below @ for_state vals i" "k \<le> length vals"
    "\<And>a. owned value_held vals a \<le> str_refs (m_strings s) a"
  shows "\<exists>H. Option.bind (pop_release_n 2 s) (pop_release_n k) = Some (s\<lparr>vm_stack := below @ take (length vals - k) vals, m_strings := H\<rparr>) \<and>
             strings_ok H \<and> str_refs H = (\<lambda>a. str_refs (m_strings s) a - owned value_held (drop (length vals - k) vals) a)"
proof -
  let ?d = "length vals - k"
  let ?ys = "drop ?d vals @ [VNumber (f64_of_nat (length vals)), VNumber (f64_of_nat i)]"
  have "vm_stack s = below @ (take ?d vals @ drop ?d vals) @ [VNumber (f64_of_nat (length vals)), VNumber (f64_of_nat i)]"
    by (simp only: append_take_drop_id assms(2) for_state_def)
  then have st: "vm_stack s = (below @ take ?d vals) @ ?ys" by (simp only: append_assoc)
  have own: "owned value_held ?ys a = owned value_held (drop ?d vals) a" for a by (simp add: value_held_def)
  have dl: "owned value_held (drop ?d vals) a \<le> owned value_held vals a" for a
    using owned_take_drop [of value_held ?d vals a] by linarith
  have le: "owned value_held ?ys a \<le> str_refs (m_strings s) a" for a
    using order.trans [OF dl assms(4)] by (simp only: own)
  have len: "length ?ys = 2 + k" using assms(3) by simp
  show ?thesis using pop_release_n_spec [OF assms(1) st le] unfolding own len pop_release_n_add .
qed

text \<open>C11. A \<open>FOR\<close> loop visits its values in order and cleans up: with the position \<open>i\<close> before the end, \<open>OP_FOR_NEXT\<close> pushes
  the value at \<open>i\<close> (one more reference to it) and moves the position to \<open>i + 1\<close>; at the end it jumps to the exit with
  the counters and all the values popped and released once each, and the stack below untouched.\<close>

theorem for_next_visits_in_order:
  assumes "read_i16 s = Some (off, s1)" "vm_stack s = below @ for_state vals i" "i \<le> length vals"
    "length (vm_stack s) < STACK_MAX" "strings_ok (m_strings s)"
    "\<forall>a. owned value_held vals a \<le> str_refs (m_strings s) a \<and> str_refs (m_strings s) a < u32_max"
    "jump_target (vm_ip s1) off = Some ip"
  shows "\<exists>H. op_for_next s = Some (Dispatch
           (if i < length vals then s1\<lparr>m_strings := H, vm_stack := below @ for_state vals (i + 1) @ [vals ! i]\<rparr>
            else s1\<lparr>m_strings := H, vm_stack := below, vm_ip := ip\<rparr>)) \<and> strings_ok H \<and>
         str_refs H = (\<lambda>a. if i < length vals then str_refs (m_strings s) a + owned value_held [vals ! i] a
                           else str_refs (m_strings s) a - owned value_held vals a)"
proof -
  let ?n = "length vals"
  have s1: "vm_stack s1 = vm_stack s" "m_strings s1 = m_strings s" using assms(1) by (auto simp: read_i16_def read_u16_def fault_simps)
  have n: "?n + 2 \<le> 2048" using assms(2,4) by (simp add: for_state_def)
  have top: "top_numbers s1 = Some (f64_of_nat i, f64_of_nat ?n)"
    using assms(2) s1 by (simp add: top_numbers_def cando_vm_peek_def for_state_def nth_append)
  have num: "i64_of_f64 (f64_of_nat ?n) = int ?n" "i64_of_f64 (f64_of_nat i) = int i" using n assms(3) by (auto simp: i64_of_nat)
  have le: "f64_le (f64_of_nat ?n) (f64_of_nat i) \<longleftrightarrow> ?n \<le> i" using n assms(3) by (intro f64_le_of_nat) auto
  show ?thesis
  proof (cases "i < ?n")
    case True
    have pos: "0 < str_refs (m_strings s) a \<and> str_refs (m_strings s) a < u32_max" if "value_held (vals ! i) = Some a" for a
    proof -
      have "0 < owned value_held vals a" using owned_member [of "vals ! i" vals value_held a] True that by simp
      then show ?thesis using assms(6) by (metis order.strict_trans2)
    qed
    obtain H where H: "cando_value_copy (m_strings s) (vals ! i) = Some H" "strings_ok H"
        "str_refs H = (\<lambda>a. str_refs (m_strings s) a + owned value_held [vals ! i] a)"
      using vals.copy_law [OF assms(5), of "vals ! i"] pos by blast
    have succ: "f64_add (f64_of_nat i) (f64_of_nat 1) = f64_of_nat (i + 1)" using n True by (intro f64_succ_of_nat) auto
    let ?s2 = "s1\<lparr>vm_stack := below @ for_state vals (i + 1)\<rparr>"
    have len: "length (vm_stack s1) = length below + ?n + 2" using assms(2) s1 by (simp add: for_state_def)
    have put: "put_cell s1 (length (vm_stack s1) - 1) (VNumber (f64_of_nat (i + 1))) = Some ?s2"
      using assms(2) s1 by (simp add: put_cell_def for_state_def list_update_append)
    have pos: "int (length (vm_stack s1)) - 2 - int ?n + int i = int (length below + i)" using len by simp
    have at: "aget (vm_stack ?s2) (length below + i) = Some (vals ! i)"
      using True by (simp add: for_state_def nth_append)
    have room: "length below + ?n + 2 < STACK_MAX" using assms(4) len s1 by simp
    have "next_value (f64_of_nat i) (f64_of_nat ?n) s1 =
        Some (Dispatch (s1\<lparr>m_strings := H, vm_stack := below @ for_state vals (i + 1) @ [vals ! i]\<rparr>))"
      unfolding next_value_def num Let_def pos succ put bind.bind_lunit nat_int at
      using H(1) s1(2) room by (simp add: vm_copy_def dispatch_push_def cando_vm_push_def for_state_def)
    then show ?thesis using True H le top assms(1) by (intro exI [of _ H]) (simp add: op_for_next_def)
  next
    case False
    obtain H where "Option.bind (pop_release_n 2 s1) (pop_release_n ?n) = Some (s1\<lparr>vm_stack := below, m_strings := H\<rparr>)" "strings_ok H"
        "str_refs H = (\<lambda>a. str_refs (m_strings s) a - owned value_held vals a)"
      using pop_for_state [of s1 below vals i ?n] assms(2,5,6) s1 by auto
    then show ?thesis using False le top assms(1,7)
      by (intro exI [of _ H]) (auto simp: op_for_next_def num jump_by_def fault_simps)
  qed
qed


theorem for_next_visits_in_order_witness:
  "\<exists>s'. op_for_next ((example_vm [2, 0] [] (for_state [VString 64] 0))) = Some (Dispatch s') \<and>
     vm_stack s' = for_state [VString 64] 1 @ [VString 64] \<and> str_refs (m_strings s') 64 = 2"
proof -
  let ?s = "example_vm [2, 0] [] (for_state [VString 64] 0)"
  have ok: "strings_ok (m_strings ?s)" "str_refs (m_strings ?s) = (\<lambda>a. if a = 64 then 1 else 0)"
    by (simp_all add: example_vm_def strings_ok_def str_refs_def fun_eq_iff)
  have read: "read_i16 ?s = Some (2, ?s\<lparr>vm_ip := 2\<rparr>)"
    by (simp add: read_i16_def read_u16_def cur_chunk_def cur_frame_def frame_chunk_def example_simps cando_read_u16_def
        i16_of_u16_def)
  have st: "vm_stack ?s = [] @ for_state [VString 64] 0" "vm_ip ?s = 0" by (simp_all add: example_vm_def)
  have len: "length (vm_stack ?s) < STACK_MAX" unfolding st by (simp add: for_state_def)
  have le: "\<forall>a. owned value_held [VString 64] a \<le> str_refs (m_strings ?s) a \<and> str_refs (m_strings ?s) a < u32_max"
    unfolding ok(2) by (simp add: value_held_def)
  have jump: "jump_target (vm_ip (?s\<lparr>vm_ip := 2\<rparr>)) 2 = Some 4" by (simp add: jump_target_def)
  obtain H where H: "op_for_next ?s = Some (Dispatch (?s\<lparr>vm_ip := 2, m_strings := H, vm_stack := for_state [VString 64] 1 @ [VString 64]\<rparr>))"
      "str_refs H = (\<lambda>a. str_refs (m_strings ?s) a + owned value_held [VString 64] a)"
    using for_next_visits_in_order [OF read st(1) _ len ok(1) le jump] by auto
  have "str_refs H 64 = 2" unfolding H(2) ok(2) by (simp add: value_held_def)
  then show ?thesis unfolding H(1) by (intro exI conjI) (rule refl, simp_all)
qed



end
