(* ===== verification/Vm_Safe.thy ===== *)
theory Vm_Safe
  imports Vm_Refs
begin

text \<open>
  Instructions that cannot fault: from a state whose reference counts are exact, whose operands are there and which has room,
  the instructions on plain values return, and so do calls and returns of script functions. The rules carry the balance of
  \<open>Vm_Refs\<close> and, beside it, that every access succeeds.
\<close>

section \<open>Rules for accesses that succeed\<close>

lemma own_nonneg [simp]: "0 \<le> own v a"
  by (simp add: own_def)

lemma owns_last: "vs \<noteq> [] \<Longrightarrow> owns vs a = owns (butlast vs) a + own (last vs) a"
  by (simp add: owns_butlast)

lemma owns_nth: "i < length vs \<Longrightarrow> own (vs ! i) a \<le> owns vs a"
proof (induction vs arbitrary: i)
  case (Cons v vs)
  show ?case
  proof (cases i)
    case 0
    then show ?thesis using owns_simps(2) [of v vs a] by (simp del: owned_simps)
  next
    case (Suc j)
    then have "own (vs ! j) a \<le> owns vs a" using Cons.IH [of j] Cons.prems by simp
    then show ?thesis using Suc own_nonneg [of v a] owns_simps(2) [of v vs a] by (simp del: owned_simps own_nonneg)
  qed
qed simp

text \<open>What reporting an error needs: an address for the message, the place of the instruction, and the old message alive.\<close>

definition reportable :: "(addr \<Rightarrow> int) \<Rightarrow> cando_vm \<Rightarrow> bool" where
  "reportable e s \<longleftrightarrow> m_malloc s \<noteq> [] \<and> error_location s \<noteq> None \<and>
     (\<exists>v vs. vm_error_vals s = v # vs \<and> (\<forall>a. own v a \<le> e a))"

lemma error_location_updates [simp]:
  "error_location (s\<lparr>m_strings := H\<rparr>) = error_location s" "error_location (s\<lparr>vm_stack := st\<rparr>) = error_location s"
  "error_location (s\<lparr>vm_ip := ip\<rparr>) = error_location s" "error_location (s\<lparr>vm_spread_extra := i\<rparr>) = error_location s"
  "error_location (s\<lparr>vm_error_msg := m\<rparr>) = error_location s" "error_location (s\<lparr>vm_has_error := b\<rparr>) = error_location s"
  by (simp_all add: error_location_def frame_chunk_def Let_def)

lemma reportable_updates [simp]:
  "reportable e (s\<lparr>m_strings := H\<rparr>) = reportable e s" "reportable e (s\<lparr>vm_stack := st\<rparr>) = reportable e s"
  "reportable e (s\<lparr>vm_ip := ip\<rparr>) = reportable e s" "reportable e (s\<lparr>vm_spread_extra := i\<rparr>) = reportable e s"
  by (simp_all add: reportable_def)

lemma live_refs:
  assumes "balanced_by k d s" "\<And>a. own v a \<le> owns (vm_stack s) a + d a" "value_held v = Some a"
  shows "0 < str_refs (m_strings s) a"
proof -
  have "int (str_refs (m_strings s) a) = owns (vm_stack s) a + d a" using assms(1) by (simp only: balanced_by_def)
  then show ?thesis using assms(2) [of a] assms(3) by (simp add: own_def)
qed

lemma tot_map_bind: "tot Q (Option.bind m (\<lambda>x. Some (g x))) \<Longrightarrow> tot Q (map_option g m)"
  by (cases m) simp_all

lemma tot_copy:
  assumes "balanced_by (Suc k) d s" "\<And>a. own v a \<le> owns (vm_stack s) a + d a"
    "\<And>H. balanced_by k (\<lambda>a. d a + own v a) (s\<lparr>m_strings := H\<rparr>) \<Longrightarrow> tot Q (f (s\<lparr>m_strings := H\<rparr>))"
  shows "tot Q (Option.bind (vm_copy s v) f)"
proof -
  have "str_refs (m_strings s) a < u32_max" for a
  proof -
    have "str_refs (m_strings s) a + Suc k \<le> u32_max" using assms(1) by (simp only: balanced_by_def)
    then show ?thesis by linarith
  qed
  then obtain H where H: "cando_value_copy (m_strings s) v = Some H"
    using vals.copy_law [of "m_strings s" v] live_refs [OF assms(1,2)] assms(1) unfolding balanced_by_def by blast
  have "balanced_by k (\<lambda>a. d a + own v a) (s\<lparr>m_strings := H\<rparr>)"
    using balanced_copy [OF assms(1), of v] H by (simp add: vm_copy_def)
  then show ?thesis using assms(3) H by (simp add: vm_copy_def)
qed

lemma tot_release:
  assumes "balanced_by k d s" "\<And>a. own v a \<le> owns (vm_stack s) a + d a"
    "\<And>H. balanced_by k (\<lambda>a. d a - own v a) (s\<lparr>m_strings := H\<rparr>) \<Longrightarrow> tot Q (f (s\<lparr>m_strings := H\<rparr>))"
  shows "tot Q (Option.bind (vm_release s v) f)"
proof -
  obtain H where H: "cando_value_release (m_strings s) v = Some H"
    using vals.release_law [of "m_strings s" v] live_refs [OF assms(1,2)] assms(1) unfolding balanced_by_def by blast
  have "balanced_by k (\<lambda>a. d a - own v a) (s\<lparr>m_strings := H\<rparr>)"
    using balanced_release [OF assms(1), of v] H by (simp add: vm_release_def)
  then show ?thesis using assms(3) H by (simp add: vm_release_def)
qed

lemma tot_pop:
  assumes "balanced_by k d s" "vm_stack s \<noteq> []"
    "balanced_by k (\<lambda>a. d a + own (last (vm_stack s)) a) (s\<lparr>vm_stack := butlast (vm_stack s)\<rparr>) \<Longrightarrow>
     tot Q (f (last (vm_stack s)) (s\<lparr>vm_stack := butlast (vm_stack s)\<rparr>))"
  shows "tot Q (Option.bind (cando_vm_pop s) (\<lambda>(v, s). f v s))"
  using assms balanced_pop [OF assms(1)] by (simp add: cando_vm_pop_def check_def)

lemma tot_push:
  assumes "balanced_by k d s" "length (vm_stack s) < STACK_MAX"
    "balanced_by k (\<lambda>a. d a - own v a) (s\<lparr>vm_stack := vm_stack s @ [v]\<rparr>) \<Longrightarrow> tot Q (f (s\<lparr>vm_stack := vm_stack s @ [v]\<rparr>))"
  shows "tot Q (Option.bind (cando_vm_push s v) f)"
  using assms balanced_push [OF assms(1), of v] by (simp add: cando_vm_push_def check_def)

text \<open>How an instruction on plain values may end: it goes on with every reference counted, or it raises an error.\<close>

definition step_ok :: "(addr \<Rightarrow> int) \<Rightarrow> vm_next \<Rightarrow> bool" where
  "step_ok d r = (case r of Dispatch s \<Rightarrow> balanced_by 0 d s | Handle_error s \<Rightarrow> vm_has_error s | Leave _ _ \<Rightarrow> False)"

lemma tot_dispatch:
  assumes "balanced_by k d s" "\<And>a. d a = d' a"
  shows "tot (step_ok d') (Some (Dispatch s))"
  using balanced_cong [OF balanced_0 [OF assms(1)] assms(2)] by (simp add: step_ok_def)

lemma tot_dispatch_push:
  assumes "balanced_by k d s" "length (vm_stack s) < STACK_MAX" "\<And>a. d a - own v a = d' a"
  shows "tot (step_ok d') (dispatch_push s v)"
  unfolding dispatch_push_def
  by (rule tot_map_bind, rule tot_push [OF assms(1,2)], erule tot_dispatch) (rule assms(3))

lemma tot_throw:
  assumes "balanced_by k d s" "reportable e s" "\<And>a. e a \<le> owns (vm_stack s) a + d a"
  shows "tot (\<lambda>r. \<exists>s'. r = Handle_error s' \<and> vm_frames s' = vm_frames s \<and> vm_stack s' = vm_stack s \<and> vm_has_error s') (throw_error s msg)"
proof -
  obtain v vs loc where ev: "vm_error_vals s = v # vs" "error_location s = Some loc" "m_malloc s \<noteq> []" "\<And>a. own v a \<le> e a"
    using assms(2) by (auto simp: reportable_def)
  define text_of where "text_of = take 511 (take 511 msg @ loc)"
  let ?s = "s\<lparr>vm_error_msg := text_of, vm_has_error := True\<rparr>"
  have live: "own v a \<le> owns (vm_stack ?s) a + d a" for a using ev(4) [of a] assms(3) [of a] by simp
  have bal: "balanced_by k d ?s" using assms(1) by (simp add: balanced_by_def)
  have "tot (\<lambda>t. vm_frames t = vm_frames s \<and> vm_stack t = vm_stack s \<and> vm_has_error t)
      (Option.bind (vm_release ?s v) (\<lambda>s. do {
         (v, s) \<leftarrow> vm_new_string s (vm_error_msg s);
         Some (s\<lparr>vm_error_vals := (vm_error_vals s)[0 := v], vm_error_count := 1\<rparr>) }))"
    by (rule tot_release [OF bal live]) (use ev(3) in \<open>simp add: vm_new_string_def vm_malloc_def split: list.splits\<close>)
  then have "tot (\<lambda>t. vm_frames t = vm_frames s \<and> vm_stack t = vm_stack s \<and> vm_has_error t) (vm_error_commit (s\<lparr>vm_error_msg := text_of\<rparr>))"
    using ev(1) by (simp add: vm_error_commit_def aget_def)
  then show ?thesis using ev(2) unfolding throw_error_def vm_runtime_error_def by (auto simp: tot_def text_of_def)
qed

lemma tot_error:
  assumes "balanced_by k d s" "reportable e s" "\<And>a. e a \<le> owns (vm_stack s) a + d a"
  shows "tot (step_ok d') (throw_error s msg)"
  by (rule tot_weaken [OF tot_throw [OF assms]]) (auto simp: step_ok_def)

lemma tot_equal:
  assumes "balanced_by k d s" "\<And>x. v = VString x \<or> w = VString x \<Longrightarrow> x \<noteq> 0"
    "\<And>a. own v a \<le> owns (vm_stack s) a + d a" "\<And>a. own w a \<le> owns (vm_stack s) a + d a"
    "\<And>r H. balanced_by k d (s\<lparr>m_strings := H\<rparr>) \<Longrightarrow> tot Q (f r (s\<lparr>m_strings := H\<rparr>))"
  shows "tot Q (Option.bind (vm_value_equal s v w) (\<lambda>(r, s). f r s))"
proof -
  have live: "str_text (m_strings s) x \<noteq> None" if "v = VString x \<or> w = VString x" for x
  proof -
    have "value_held (VString x) = Some x" using assms(2) [OF that] by (simp add: value_held_def)
    then have "0 < str_refs (m_strings s) x" using live_refs [OF assms(1)] assms(3,4) that by metis
    then show ?thesis by (auto simp: str_refs_def str_text_def split: option.splits)
  qed
  obtain H r where H: "cando_value_equal (m_strings s) v w = Some (H, r)"
    using value_equal_spec [of "m_strings s" v w] live assms(1) by (auto simp: balanced_by_def)
  have "balanced_by k d (s\<lparr>m_strings := H\<rparr>)"
    using balanced_equal [OF assms(1), of v w] H by (simp add: vm_value_equal_def)
  then show ?thesis using assms(5) H by (simp add: vm_value_equal_def)
qed

lemma tot_new_string:
  assumes "balanced_by (Suc k) d s" "m_malloc s \<noteq> []"
    "\<And>v s'. balanced_by k (\<lambda>a. d a + own v a) s' \<Longrightarrow> vm_stack s' = vm_stack s \<Longrightarrow> tot Q (f v s')"
  shows "tot Q (Option.bind (vm_new_string s text_of) (\<lambda>(v, s). f v s))"
proof -
  obtain a as where m: "m_malloc s = a # as" using assms(2) by (cases "m_malloc s") auto
  then show ?thesis using assms(3) balanced_new_string [OF assms(1), of text_of] by (simp add: vm_new_string_def vm_malloc_def)
qed

section \<open>The instructions\<close>

text \<open>A state in which references are counted exactly, those outside the stack being \<open>d\<close>, an error can be reported, and no
  cell holds a null pointer.\<close>

definition sane :: "(addr \<Rightarrow> int) \<Rightarrow> cando_vm \<Rightarrow> bool" where
  "sane d s \<longleftrightarrow> balanced_by 1 d s \<and> (\<forall>a. 0 \<le> d a) \<and> reportable d s \<and> VString 0 \<notin> set (vm_stack s)"

lemma saneD:
  assumes "sane d s"
  shows "balanced_by (Suc 0) d s" "0 \<le> d a" "reportable d s" "VString 0 \<notin> set (vm_stack s)"
  using assms by (simp_all add: sane_def)

lemma top2:
  assumes "vm_stack s = st @ [a, b]"
  shows "cando_vm_pop s = Some (b, s\<lparr>vm_stack := st @ [a]\<rparr>)" "cando_vm_pop (s\<lparr>vm_stack := st @ [a]\<rparr>) = Some (a, s\<lparr>vm_stack := st\<rparr>)"
    "cando_vm_peek s 0 = Some b" "cando_vm_peek s 1 = Some a"
  using assms by (simp_all add: cando_vm_pop_def cando_vm_peek_def check_def butlast_append nth_append)

lemma balanced_top2:
  assumes "sane d s" "vm_stack s = st @ [a, b]"
  shows "balanced_by (Suc 0) (\<lambda>x. d x + own b x + own a x) (s\<lparr>vm_stack := st\<rparr>)"
  using saneD(1) [OF assms(1)] assms(2) by (simp add: balanced_by_def add.commute add.left_commute del: owned_simps)

lemma held_le: "0 \<le> (x :: int) \<Longrightarrow> own v a \<le> owns st a + (x + own w a + own v a)"
  "0 \<le> x \<Longrightarrow> own w a \<le> owns st a + (x + own w a + own v a)" "0 \<le> x \<Longrightarrow> x \<le> owns st a + (x + own w a + own v a)"
  "0 \<le> x \<Longrightarrow> own w a \<le> owns st a + (x + own w a + own v a - own v a)" "0 \<le> x \<Longrightarrow> x \<le> owns st a + (x + own w a + own v a - own v a - own w a)"
  using own_nonneg [of v a] own_nonneg [of w a] by (simp_all del: own_nonneg)

lemma tot_release2:
  assumes "sane d s" "balanced_by k (\<lambda>x. d x + own b x + own a x) t"
    "\<And>H. balanced_by k (\<lambda>x. d x + own b x + own a x - own a x - own b x) (t\<lparr>m_strings := H\<rparr>) \<Longrightarrow> tot Q (f (t\<lparr>m_strings := H\<rparr>))"
  shows "tot Q (Option.bind (release2 t a b) f)"
  unfolding release2_def bind_assoc
proof (rule tot_release [OF assms(2)])
  show "own a x \<le> owns (vm_stack t) x + (d x + own b x + own a x)" for x by (rule held_le) (rule saneD(2) [OF assms(1)])
  show "tot Q (Option.bind (vm_release (t\<lparr>m_strings := H\<rparr>) b) f)"
    if "balanced_by k (\<lambda>x. d x + own b x + own a x - own a x) (t\<lparr>m_strings := H\<rparr>)" for H
  proof (rule tot_release [OF that])
    show "own b x \<le> owns (vm_stack (t\<lparr>m_strings := H\<rparr>)) x + (d x + own b x + own a x - own a x)" for x
      by (rule held_le) (rule saneD(2) [OF assms(1)])
  qed (use assms(3) in simp)
qed

lemma arith_tot:
  assumes "sane d s" "vm_stack s = st @ [a, b]" "\<not> is_object a" "\<not> is_object b"
    "\<And>x y. balanced_by (Suc 0) d (s\<lparr>vm_stack := st\<rparr>) \<Longrightarrow> tot (step_ok d) (f (s\<lparr>vm_stack := st\<rparr>) x y)"
  shows "tot (step_ok d) (arith_op name msg f env run s)"
proof -
  note bal = balanced_top2 [OF assms(1,2)]
  have err: "tot (step_ok d) (throw_error (s\<lparr>vm_stack := st\<rparr>) m)" for m
    by (rule tot_error [OF bal, of d]) (use saneD [OF assms(1)] in \<open>simp_all add: held_le\<close>)
  have "tot (step_ok d) (f (s\<lparr>vm_stack := st\<rparr>) x y)" if "a = VNumber x" "b = VNumber y" for x y
    by (rule assms(5)) (rule balanced_cong [OF bal], simp add: that)
  moreover have "arith_op name msg f env run s =
      (case (a, b) of (VNumber x, VNumber y) \<Rightarrow> f (s\<lparr>vm_stack := st\<rparr>) x y | _ \<Rightarrow> throw_error (s\<lparr>vm_stack := st\<rparr>) (msg a b))"
    using assms(3,4) by (simp add: arith_op_def top2 [OF assms(2)] try_binary_meta_def)
  ultimately show ?thesis using err by (cases a; cases b) simp_all
qed

lemma pushes_number:
  assumes "length (vm_stack s) < STACK_MAX" "vm_stack s = st @ [a, b]" "balanced_by (Suc 0) d (s\<lparr>vm_stack := st\<rparr>)" "\<And>x. own v x = 0"
  shows "tot (step_ok d) (dispatch_push (s\<lparr>vm_stack := st\<rparr>) v)"
  by (rule tot_dispatch_push [OF assms(3)]) (use assms(1,2,4) in simp_all)

lemma numbers_tot:
  assumes "sane d s" "vm_stack s = st @ [a, b]" "\<not> is_object a" "\<not> is_object b" "length (vm_stack s) < STACK_MAX"
  shows "tot (step_ok d) (op_sub env run s)" "tot (step_ok d) (op_mul env run s)" "tot (step_ok d) (op_div env run s)"
    "tot (step_ok d) (op_mod env run s)" "tot (step_ok d) (op_pow env run s)"
proof -
  note push = pushes_number [OF assms(5,2)]
  have zero: "tot (step_ok d) (throw_error (s\<lparr>vm_stack := st\<rparr>) m)" if "balanced_by (Suc 0) d (s\<lparr>vm_stack := st\<rparr>)" for m
    by (rule tot_error [OF that, of d]) (use saneD [OF assms(1)] in simp_all)
  show "tot (step_ok d) (op_sub env run s)" "tot (step_ok d) (op_mul env run s)" "tot (step_ok d) (op_div env run s)"
    "tot (step_ok d) (op_mod env run s)" "tot (step_ok d) (op_pow env run s)"
    unfolding op_sub_def op_mul_def op_div_def op_mod_def op_pow_def
    by (rule arith_tot [OF assms(1-4)]; simp add: push zero)+
qed

lemma dispatch_release2:
  assumes "sane d s" "balanced_by k (\<lambda>x. d x + own b x + own a x) t"
  shows "tot (step_ok d) (map_option Dispatch (release2 t a b))"
  by (rule tot_map_bind, rule tot_release2 [OF assms], erule tot_dispatch) simp

lemma plain_meta: "\<not> is_object a \<Longrightarrow> \<not> is_object b \<Longrightarrow> try_binary_meta env run name s a b args done_k k = k s"
  by (simp add: try_binary_meta_def)

lemma add_tot:
  assumes "sane d s" "vm_stack s = st @ [a, b]" "\<not> is_object a" "\<not> is_object b" "length (vm_stack s) < STACK_MAX"
  shows "tot (step_ok d) (op_add env run s)"
proof -
  let ?s = "s\<lparr>vm_stack := st\<rparr>"
  note bal = balanced_top2 [OF assms(1,2)]
  have eq: "op_add env run s = (case (a, b) of
        (VString x, VString y) \<Rightarrow>
          do {
            ca \<leftarrow> m_strings ?s x;
            cb \<leftarrow> m_strings ?s y;
            (v, s) \<leftarrow> vm_new_string ?s (st_data ca @ st_data cb);
            s \<leftarrow> release2 s a b;
            dispatch_push s v
          }
      | _ \<Rightarrow> (case (a, b) of
          (VNumber x, VNumber y) \<Rightarrow> dispatch_push ?s (VNumber (f64_add x y))
        | _ \<Rightarrow> do { s \<leftarrow> release2 ?s a b; throw_error s (must_be_numbers a b) }))"
    by (simp add: op_add_def top2 [OF assms(2)] top2 [OF assms(2), unfolded One_nat_def], unfold plain_meta [OF assms(3,4)]) (rule refl)
  have err: "tot (step_ok d) (do { s \<leftarrow> release2 ?s a b; throw_error s m })" for m
    by (rule tot_release2 [OF assms(1) bal], rule tot_error [where e = d], assumption)
      (use saneD [OF assms(1)] in simp_all)
  show ?thesis
  proof (cases "\<exists>x y. a = VString x \<and> b = VString y")
    case True
    then obtain x y where xy: "a = VString x" "b = VString y" by blast
    then have "x \<noteq> 0" "y \<noteq> 0" using saneD(4) [OF assms(1)] assms(2) by auto
    then have held: "value_held a = Some x" "value_held b = Some y" using xy by (simp_all add: value_held_def)
    have "own a z \<le> owns (vm_stack ?s) z + (d z + own b z + own a z)" "own b z \<le> owns (vm_stack ?s) z + (d z + own b z + own a z)" for z
      using saneD(2) [OF assms(1), of z] by (simp_all add: held_le del: owned_simps)
    then have "0 < str_refs (m_strings ?s) x" "0 < str_refs (m_strings ?s) y"
      using live_refs [OF bal _ held(1)] live_refs [OF bal _ held(2)] by blast+
    then obtain ca cb where c: "m_strings s x = Some ca" "m_strings s y = Some cb"
      by (auto simp: str_refs_def split: option.splits)
    have "tot (step_ok d) (do { (v, s) \<leftarrow> vm_new_string ?s (st_data ca @ st_data cb); s \<leftarrow> release2 s a b; dispatch_push s v })"
    proof (rule tot_new_string [OF bal])
      show "m_malloc ?s \<noteq> []" using saneD(3) [OF assms(1)] by (simp add: reportable_def)
      fix v t assume t: "balanced_by 0 (\<lambda>z. d z + own b z + own a z + own v z) t" "vm_stack t = vm_stack ?s"
      have t1: "balanced_by 0 (\<lambda>z. d z + own v z + own b z + own a z) t" by (rule balanced_cong [OF t(1)]) simp
      have pos: "0 \<le> d z + own v z" for z using saneD(2) [OF assms(1), of z] own_nonneg [of v z] by linarith
      show "tot (step_ok d) (do { s \<leftarrow> release2 t a b; dispatch_push s v })"
        unfolding release2_def bind_assoc
      proof (rule tot_release [OF t1])
        show "own a z \<le> owns (vm_stack t) z + (d z + own v z + own b z + own a z)" for z using pos [of z] by (rule held_le)
        fix H assume b1: "balanced_by 0 (\<lambda>z. d z + own v z + own b z + own a z - own a z) (t\<lparr>m_strings := H\<rparr>)"
        show "tot (step_ok d) (Option.bind (vm_release (t\<lparr>m_strings := H\<rparr>) b) (\<lambda>s. dispatch_push s v))"
        proof (rule tot_release [OF b1])
          show "own b z \<le> owns (vm_stack (t\<lparr>m_strings := H\<rparr>)) z + (d z + own v z + own b z + own a z - own a z)" for z
            using pos [of z] by (rule held_le)
        qed (rule tot_dispatch_push, assumption, use t(2) assms(2,5) in simp_all)
      qed
    qed
    then show ?thesis using eq xy c by simp
  next
    case False
    have "tot (step_ok d) (dispatch_push ?s (VNumber z))" if "a = VNumber x" "b = VNumber y" for x y z
      by (rule pushes_number [OF assms(5,2)]) (use balanced_cong [OF bal] that in simp_all)
    then show ?thesis using False err eq by (cases a; cases b) simp_all
  qed
qed

lemma equality_tot:
  assumes "sane d s" "vm_stack s = st @ [a, b]" "\<not> is_object a" "\<not> is_object b" "length (vm_stack s) < STACK_MAX"
  shows "tot (step_ok d) (op_eq env run s)" "tot (step_ok d) (op_neq env run s)"
proof -
  let ?s = "s\<lparr>vm_stack := st\<rparr>"
  note bal = balanced_top2 [OF assms(1,2)]
  have "tot (step_ok d) (do { (r, s) \<leftarrow> vm_value_equal ?s a b; s \<leftarrow> cando_vm_push s (VBool (g r)); map_option Dispatch (release2 s a b) })" for g
  proof (rule tot_equal [OF bal])
    show "x \<noteq> 0" if "a = VString x \<or> b = VString x" for x using that saneD(4) [OF assms(1)] assms(2) by auto
    show "own a z \<le> owns (vm_stack ?s) z + (d z + own b z + own a z)" "own b z \<le> owns (vm_stack ?s) z + (d z + own b z + own a z)" for z
      using saneD(2) [OF assms(1), of z] by (simp_all add: held_le del: owned_simps)
    fix r H assume b1: "balanced_by (Suc 0) (\<lambda>x. d x + own b x + own a x) (?s\<lparr>m_strings := H\<rparr>)"
    show "tot (step_ok d) (Option.bind (cando_vm_push (?s\<lparr>m_strings := H\<rparr>) (VBool (g r))) (\<lambda>s. map_option Dispatch (release2 s a b)))"
      by (rule tot_push [OF b1]) (use assms(2,5) dispatch_release2 [OF assms(1)] in simp_all)
  qed
  from this [of "\<lambda>r. r"] this [of Not]
  show "tot (step_ok d) (op_eq env run s)" "tot (step_ok d) (op_neq env run s)"
    using assms(3,4) by (simp_all add: op_eq_def op_neq_def top2 [OF assms(2)] try_binary_meta_def)
qed

lemma cmp_tot:
  assumes "sane d s" "vm_stack s = st @ [a, b]" "\<not> is_object a" "\<not> is_object b" "length (vm_stack s) < STACK_MAX"
  shows "tot (step_ok d) (cmp_op name sw rel env run s)"
proof -
  let ?s = "s\<lparr>vm_stack := st\<rparr>"
  note bal = balanced_top2 [OF assms(1,2)]
  have err: "tot (step_ok d) (do { s \<leftarrow> release2 ?s a b; throw_error s m })" for m
    by (rule tot_release2 [OF assms(1) bal], rule tot_error [where e = d], assumption)
      (use saneD [OF assms(1)] in simp_all)
  have "tot (step_ok d) (dispatch_push ?s (VBool z))" if "a = VNumber x" "b = VNumber y" for x y z
    by (rule pushes_number [OF assms(5,2)]) (use balanced_cong [OF bal] that in simp_all)
  moreover have "cmp_op name sw rel env run s = (case (a, b) of
        (VNumber x, VNumber y) \<Rightarrow> dispatch_push ?s (VBool (rel x y))
      | _ \<Rightarrow> do { s \<leftarrow> release2 ?s a b; throw_error s ''comparison requires numbers'' })"
    using assms(3,4) by (simp add: cmp_op_def top2 [OF assms(2)] try_binary_meta_def)
  ultimately show ?thesis using err by (cases a; cases b) simp_all
qed

lemma sane_ip [simp]: "sane d (s\<lparr>vm_ip := ip\<rparr>) = sane d s"
  by (simp add: sane_def balanced_by_def)

lemma top1:
  assumes "vm_stack s = st @ [v]"
  shows "cando_vm_pop s = Some (v, s\<lparr>vm_stack := st\<rparr>)" "cando_vm_peek s 0 = Some v"
  using assms by (simp_all add: cando_vm_pop_def cando_vm_peek_def check_def)

lemma balanced_top1:
  assumes "sane d s" "vm_stack s = st @ [v]"
  shows "balanced_by (Suc 0) (\<lambda>x. d x + own v x) (s\<lparr>vm_stack := st\<rparr>)"
  using saneD(1) [OF assms(1)] assms(2) by (simp add: balanced_by_def add.commute del: owned_simps)

lemma constants_tot:
  assumes "sane d s" "length (vm_stack s) < STACK_MAX"
  shows "tot (step_ok d) (op_null s)" "tot (step_ok d) (op_true s)" "tot (step_ok d) (op_false s)" "tot (step_ok d) (Some (Dispatch s))"
  unfolding op_null_def op_true_def op_false_def
  by (rule tot_dispatch_push [OF saneD(1) [OF assms(1)] assms(2)] tot_dispatch [OF saneD(1) [OF assms(1)]]; simp)+

lemma top_tot:
  assumes "sane d s" "vm_stack s = st @ [v]" "length (vm_stack s) < STACK_MAX"
  shows "tot (step_ok d) (op_pop s)" "tot (step_ok d) (op_pos s)" "tot (step_ok d) (op_not s)" "tot (step_ok d) (op_dup s)"
    "tot (step_ok d) (step_top f m s)"
proof -
  let ?s = "s\<lparr>vm_stack := st\<rparr>"
  note bal = balanced_top1 [OF assms(1,2)]
  have held: "own v a \<le> owns ws a + (d a + own v a)" for a ws using saneD(2) [OF assms(1), of a] by simp
  have rel: "tot (step_ok d) (map_option Dispatch (vm_release t v))" if t: "balanced_by (Suc 0) (\<lambda>x. d x + own v x) t" for t
    by (rule tot_map_bind, rule tot_release [OF t held], erule tot_dispatch) simp
  show "tot (step_ok d) (op_pop s)" by (simp add: op_pop_def pop_release_def top1 [OF assms(2)] rel [OF bal])
  have err: "tot (step_ok d) (throw_error ?s m)" for m
    by (rule tot_error [OF bal, of d]) (use saneD [OF assms(1)] in simp_all)
  have "tot (step_ok d) (dispatch_push ?s v)"
    by (rule tot_dispatch_push [OF bal]) (use assms(2,3) in simp_all)
  then show "tot (step_ok d) (op_pos s)" using err by (auto simp: op_pos_def top1 [OF assms(2)] split: cando_value.split)
  have "tot (step_ok d) (do { s \<leftarrow> cando_vm_push ?s (VBool b); map_option Dispatch (vm_release s v) })" for b
    by (rule tot_push [OF bal]) (use assms(2,3) in \<open>simp_all add: rel\<close>)
  then show "tot (step_ok d) (op_not s)" by (simp add: op_not_def top1 [OF assms(2)])
  have "tot (step_ok d) (do { s \<leftarrow> vm_copy s v; dispatch_push s v })"
  proof (rule tot_copy [OF saneD(1) [OF assms(1)]])
    show "own v a \<le> owns (vm_stack s) a + d a" for a using saneD(2) [OF assms(1), of a] assms(2) by (simp del: owned_simps)
  qed (rule tot_dispatch_push, assumption, use assms(3) in simp_all)
  then show "tot (step_ok d) (op_dup s)" by (simp add: op_dup_def top1 [OF assms(2)])
  have err: "tot (step_ok d) (throw_error s m)" for m
    by (rule tot_error [OF saneD(1) [OF assms(1)] saneD(3) [OF assms(1)]]) simp
  have "tot (step_ok d) (Some (Dispatch (s\<lparr>vm_stack := st @ [VNumber x]\<rparr>)))" if "v = VNumber y" for x y
    by (rule tot_dispatch [of "Suc 0" d]) (use saneD(1) [OF assms(1)] assms(2) that in \<open>simp_all add: balanced_by_def value_held_def\<close>)
  then show "tot (step_ok d) (step_top f m s)"
    using err assms(2) by (simp add: step_top_def top1 [OF assms(2)] put_cell_def aput_def split: cando_value.split)
qed

text \<open>Instructions with an operand.\<close>

lemma reads_move: "read_u16 s = Some (n, s1) \<Longrightarrow> s1 = s\<lparr>vm_ip := vm_ip s + 2\<rparr>" "read_i16 s = Some (off, s1) \<Longrightarrow> s1 = s\<lparr>vm_ip := vm_ip s + 2\<rparr>"
  "read_byte s = Some (op, s1) \<Longrightarrow> s1 = s\<lparr>vm_ip := vm_ip s + 1\<rparr>"
  by (auto simp: read_u16_def read_i16_def read_byte_def fault_simps)

lemma const_tot:
  assumes "sane d s" "length (vm_stack s) < STACK_MAX" "read_u16 s = Some (n, s1)" "const_at s1 n = Some v" "\<And>a. own v a \<le> d a"
  shows "tot (step_ok d) (op_const s)"
proof -
  have s1: "sane d s1" "vm_stack s1 = vm_stack s" using assms(1) reads_move(1) [OF assms(3)] by simp_all
  have "tot (step_ok d) (do { s \<leftarrow> vm_copy s1 v; dispatch_push s v })"
  proof (rule tot_copy [OF saneD(1) [OF s1(1)]])
    show "own v a \<le> owns (vm_stack s1) a + d a" for a using assms(5) [of a] by simp
  qed (rule tot_dispatch_push, assumption, use s1(2) assms(2) in simp_all)
  then show ?thesis by (simp add: op_const_def assms(3,4))
qed

lemma load_tot:
  assumes "sane d s" "length (vm_stack s) < STACK_MAX" "read_u16 s = Some (n, s1)" "local_slot s1 n = Some i" "i < length (vm_stack s)"
  shows "tot (step_ok d) (op_load_local s)"
proof -
  have s1: "sane d s1" "vm_stack s1 = vm_stack s" using assms(1) reads_move(1) [OF assms(3)] by simp_all
  let ?v = "vm_stack s ! i"
  have "tot (step_ok d) (do { s \<leftarrow> vm_copy s1 ?v; dispatch_push s ?v })"
  proof (rule tot_copy [OF saneD(1) [OF s1(1)]])
    show "own ?v a \<le> owns (vm_stack s1) a + d a" for a
      using owns_nth [OF assms(5), of a] saneD(2) [OF assms(1), of a] by (simp add: s1(2) del: owned_simps)
  qed (rule tot_dispatch_push, assumption, use s1(2) assms(2) in simp_all)
  then show ?thesis using s1(2) assms(5) by (simp add: op_load_local_def assms(3,4) aget_def)
qed

text \<open>A cell is overwritten: what it held is released first, and the new value is still on top.\<close>

lemma owns_cell: "i < length st \<Longrightarrow> owns (st[i := v] @ ws) a = owns (st @ ws) a + own v a - own (st ! i) a"
  by (simp add: owns_update del: owned_simps)

lemma store_tot:
  assumes "sane d s" "read_u16 s = Some (n, s1)" "local_slot s1 n = Some i" "vm_stack s = st @ [v]" "i < length st"
  shows "tot (step_ok d) (op_store_local s)" "tot (step_ok d) (op_def_local s)"
proof -
  have s1: "sane d s1" "vm_stack s1 = st @ [v]" using assms(1,4) reads_move(1) [OF assms(2)] by simp_all
  let ?old = "st ! i"
  have old: "own ?old a \<le> owns (vm_stack s1) a + d a" for a
    using owns_nth [OF assms(5), of a] saneD(2) [OF assms(1), of a] own_nonneg [of v a] s1(2) by simp
  have cells: "aget (vm_stack s1) i = Some ?old" using s1(2) assms(5) by (simp add: aget_def nth_append)
  have store: "tot (step_ok d) (do { s \<leftarrow> vm_release s1 ?old; v \<leftarrow> cando_vm_peek s 0; s \<leftarrow> vm_copy s v; map_option Dispatch (put_cell s i v) })"
  proof (rule tot_release [OF saneD(1) [OF s1(1)] old])
    fix H assume b: "balanced_by (Suc 0) (\<lambda>a. d a - own ?old a) (s1\<lparr>m_strings := H\<rparr>)"
    have "tot (step_ok d) (Option.bind (vm_copy (s1\<lparr>m_strings := H\<rparr>) v) (\<lambda>s. map_option Dispatch (put_cell s i v)))"
    proof (rule tot_copy [OF b])
      show "own v a \<le> owns (vm_stack (s1\<lparr>m_strings := H\<rparr>)) a + (d a - own ?old a)" for a
        using owns_nth [OF assms(5), of a] saneD(2) [OF assms(1), of a] s1(2) by (simp del: owned_simps)
      fix G assume c: "balanced_by 0 (\<lambda>a. d a - own ?old a + own v a) (s1\<lparr>m_strings := H, m_strings := G\<rparr>)"
      have "balanced_by 0 d (s1\<lparr>m_strings := G, vm_stack := st[i := v] @ [v]\<rparr>)"
        using c s1(2) owns_cell [OF assms(5), of v "[v]"] by (simp add: balanced_by_def del: owned_simps owns_simps)
      then show "tot (step_ok d) (map_option Dispatch (put_cell (s1\<lparr>m_strings := H, m_strings := G\<rparr>) i v))"
        using s1(2) assms(5) by (simp add: put_cell_def aput_def list_update_append step_ok_def)
    qed
    then show "tot (step_ok d) (Option.bind (cando_vm_peek (s1\<lparr>m_strings := H\<rparr>) 0) (\<lambda>v. Option.bind (vm_copy (s1\<lparr>m_strings := H\<rparr>) v) (\<lambda>s. map_option Dispatch (put_cell s i v))))"
      using s1(2) by (simp add: top1(2) [of _ st v])
  qed
  then show "tot (step_ok d) (op_store_local s)" by (simp add: op_store_local_def assms(2,3) cells)
  have "tot (step_ok d) (do { s \<leftarrow> vm_release s1 ?old; (v, s) \<leftarrow> cando_vm_pop s; s \<leftarrow> put_cell s i v; Some (Dispatch (s\<lparr>vm_spread_extra := 0\<rparr>)) })"
  proof (rule tot_release [OF saneD(1) [OF s1(1)] old])
    fix H assume b: "balanced_by (Suc 0) (\<lambda>a. d a - own ?old a) (s1\<lparr>m_strings := H\<rparr>)"
    have "balanced_by (Suc 0) d (s1\<lparr>m_strings := H, vm_stack := st[i := v], vm_spread_extra := 0\<rparr>)"
      using b s1(2) owns_cell [OF assms(5), of v "[]"] by (simp add: balanced_by_def del: owned_simps)
    then show "tot (step_ok d) (do { (v, s) \<leftarrow> cando_vm_pop (s1\<lparr>m_strings := H\<rparr>); s \<leftarrow> put_cell s i v; Some (Dispatch (s\<lparr>vm_spread_extra := 0\<rparr>)) })"
      using s1(2) assms(5) by (simp add: top1(1) [of _ st v] put_cell_def aput_def step_ok_def balanced_0)
  qed
  then show "tot (step_ok d) (op_def_local s)" by (simp add: op_def_local_def assms(2,3) cells)
qed

lemma jumps_tot:
  assumes "sane d s" "read_i16 s = Some (off, s1)" "0 \<le> int (vm_ip s1) + off"
  shows "tot (step_ok d) (op_jump s)" "vm_stack s \<noteq> [] \<Longrightarrow> tot (step_ok d) (peek_jump on s)"
proof -
  have s1: "vm_stack s1 = vm_stack s" using reads_move(2) [OF assms(2)] by simp
  have "balanced_by (Suc 0) d (s1\<lparr>vm_ip := ip\<rparr>)" for ip
    using saneD(1) [OF assms(1)] reads_move(2) [OF assms(2)] by (simp add: balanced_by_def)
  then have go: "tot (step_ok d) (Some (Dispatch (s1\<lparr>vm_ip := ip\<rparr>)))" for ip by (rule tot_dispatch) simp
  then have jump: "tot (step_ok d) (map_option Dispatch (jump_by s1 off))"
    using assms(3) by (simp add: jump_by_def jump_target_def)
  have stay: "tot (step_ok d) (Some (Dispatch s1))" using go [of "vm_ip s1"] by simp
  show "tot (step_ok d) (op_jump s)" using jump by (simp add: op_jump_def assms(2))
  show "tot (step_ok d) (peek_jump on s)" if "vm_stack s \<noteq> []"
    using jump stay that s1 by (simp add: peek_jump_def assms(2) cando_vm_peek_def check_def)
qed

lemma loop_tot:
  assumes "sane d s" "read_u16 s = Some (back, s1)" "back \<le> vm_ip s1"
  shows "tot (step_ok d) (op_loop s)"
proof -
  have "balanced_by (Suc 0) d (s1\<lparr>vm_ip := ip\<rparr>)" for ip
    using saneD(1) [OF assms(1)] reads_move(1) [OF assms(2)] by (simp add: balanced_by_def)
  then have "tot (step_ok d) (Some (Dispatch (s1\<lparr>vm_ip := ip\<rparr>)))" for ip by (rule tot_dispatch) simp
  then show ?thesis using assms(3) by (simp add: op_loop_def assms(2) jump_by_def jump_target_def)
qed

section \<open>The property\<close>

text \<open>The instructions that push, those of one operand, those of two, those that name a constant, a local or a loop, and the jumps.\<close>

abbreviation (input) push_ops :: "nat set" where "push_ops \<equiv> {OP_NULL, OP_TRUE, OP_FALSE, OP_NOP}"
abbreviation (input) top_ops :: "nat set" where "top_ops \<equiv> {OP_POP, OP_DUP, OP_POS, OP_INCR, OP_DECR, OP_NOT}"
abbreviation (input) pair_ops :: "nat set" where
  "pair_ops \<equiv> {OP_ADD, OP_SUB, OP_MUL, OP_DIV, OP_MOD, OP_POW, OP_EQ, OP_NEQ, OP_LT, OP_GT, OP_LEQ, OP_GEQ}"
abbreviation (input) store_ops :: "nat set" where "store_ops \<equiv> {OP_STORE_LOCAL, OP_DEF_LOCAL, OP_DEF_CONST_LOCAL}"
abbreviation (input) cond_ops :: "nat set" where "cond_ops \<equiv> {OP_JUMP_IF_FALSE, OP_JUMP_IF_TRUE, OP_AND_JUMP, OP_OR_JUMP}"

definition safe_ops :: "nat set" where
  "safe_ops = push_ops \<union> top_ops \<union> pair_ops \<union> cond_ops \<union> {OP_JUMP} \<union> store_ops \<union> {OP_LOOP, OP_CONST, OP_LOAD_LOCAL}"

text \<open>What an instruction needs of the state after its opcode has been fetched: how many operands, and that its own operand can
  be read and names a constant, a local or a target that is there.\<close>

definition depth_needed :: "nat \<Rightarrow> nat" where
  "depth_needed op = (if op \<in> pair_ops then 2 else if op \<in> top_ops \<union> store_ops \<union> cond_ops then 1 else 0)"

definition operand_ready :: "(addr \<Rightarrow> int) \<Rightarrow> nat \<Rightarrow> cando_vm \<Rightarrow> bool" where
  "operand_ready d op s =
     (if op \<in> {OP_JUMP} \<union> cond_ops then
        (case read_i16 s of Some (off, s1) \<Rightarrow> 0 \<le> int (vm_ip s1) + off | None \<Rightarrow> False)
      else if op \<in> {OP_LOOP, OP_CONST, OP_LOAD_LOCAL} \<union> store_ops then
        (case read_u16 s of
           Some (n, s1) \<Rightarrow>
             if op = OP_LOOP then n \<le> vm_ip s1
             else if op = OP_CONST then
               (case const_at s1 n of Some v \<Rightarrow> (case value_held v of Some a \<Rightarrow> 1 \<le> d a | None \<Rightarrow> True) | None \<Rightarrow> False)
             else
               (case local_slot s1 n of Some i \<Rightarrow> i + depth_needed op < length (vm_stack s1) | None \<Rightarrow> False)
         | None \<Rightarrow> False)
      else True)"

definition instruction_ready :: "(addr \<Rightarrow> int) \<Rightarrow> nat \<Rightarrow> cando_vm \<Rightarrow> bool" where
  "instruction_ready d op s \<longleftrightarrow>
     length (vm_stack s) < STACK_MAX \<and> depth_needed op \<le> length (vm_stack s) \<and> operand_ready d op s"

lemmas dispatch_simps = vm_dispatch_def dispatch_data_def dispatch_arith_def dispatch_compare_def dispatch_bits_def
  dispatch_control_def dispatch_other_def

lemma two_on_top: "2 \<le> length xs \<Longrightarrow> \<exists>ys a b. xs = ys @ [a, b]"
  by (cases xs rule: rev_cases; cases "butlast xs" rule: rev_cases) auto

lemma pair_dispatch:
  assumes "op \<in> pair_ops" "sane d s" "plain_operands s" "instruction_ready d op s"
  shows "tot (step_ok d) (vm_dispatch env run op s)"
proof -
  have len: "2 \<le> length (vm_stack s)" "length (vm_stack s) < STACK_MAX" using assms(1,4) by (auto simp: instruction_ready_def depth_needed_def)
  obtain st a b where st: "vm_stack s = st @ [a, b]"
    using len(1) two_on_top by blast
  then have plain: "\<not> is_object a" "\<not> is_object b" using assms(3) by (simp_all add: plain_operands_def)
  note T = numbers_tot [OF assms(2) st plain len(2)] add_tot [OF assms(2) st plain len(2)] equality_tot [OF assms(2) st plain len(2)]
    cmp_tot [OF assms(2) st plain len(2)]
  show ?thesis using assms(1) unfolding Un_iff insert_iff empty_iff
    by (elim disjE) (erule FalseE | simp add: dispatch_simps T op_lt_def op_gt_def op_leq_def op_geq_def)+
qed

lemma top_dispatch:
  assumes "op \<in> top_ops" "sane d s" "instruction_ready d op s"
  shows "tot (step_ok d) (vm_dispatch env run op s)"
proof -
  have len: "vm_stack s \<noteq> []" "length (vm_stack s) < STACK_MAX" using assms(1,3) by (auto simp: instruction_ready_def depth_needed_def)
  then obtain st v where st: "vm_stack s = st @ [v]" by (cases "vm_stack s" rule: rev_cases) auto
  note T = top_tot [OF assms(2) st len(2)]
  show ?thesis using assms(1) unfolding Un_iff insert_iff empty_iff
    by (elim disjE) (erule FalseE | simp add: dispatch_simps T op_incr_def op_decr_def)+
qed

lemma jump_dispatch:
  assumes "op \<in> {OP_JUMP} \<union> cond_ops" "sane d s" "instruction_ready d op s"
  shows "tot (step_ok d) (vm_dispatch env run op s)"
proof -
  obtain off s1 where r: "read_i16 s = Some (off, s1)" "0 \<le> int (vm_ip s1) + off"
    using assms(1,3) by (auto simp: instruction_ready_def operand_ready_def split: option.splits)
  note J = jumps_tot [OF assms(2) r]
  have "op = OP_JUMP \<or> vm_stack s \<noteq> []" using assms(1,3) by (auto simp: instruction_ready_def depth_needed_def)
  then show ?thesis using assms(1) unfolding Un_iff insert_iff empty_iff
    by (elim disjE) (erule FalseE
      | simp add: dispatch_simps J op_jump_if_false_def op_jump_if_true_def op_and_jump_def op_or_jump_def)+
qed

lemma slot_dispatch:
  assumes "op \<in> {OP_LOOP, OP_CONST, OP_LOAD_LOCAL} \<union> store_ops" "sane d s" "instruction_ready d op s"
  shows "tot (step_ok d) (vm_dispatch env run op s)"
proof -
  have room: "length (vm_stack s) < STACK_MAX" and ready: "operand_ready d op s" using assms(3) by (simp_all add: instruction_ready_def)
  have "read_u16 s \<noteq> None" using assms(1) ready by (auto simp: operand_ready_def split: option.splits)
  then obtain n s1 where r: "read_u16 s = Some (n, s1)" by (cases "read_u16 s") auto
  have s1: "vm_stack s1 = vm_stack s" using reads_move(1) [OF r] by simp
  have loop: "tot (step_ok d) (op_loop s)" if "op = OP_LOOP"
    by (rule loop_tot [OF assms(2) r]) (use ready r that in \<open>simp add: operand_ready_def\<close>)
  have const: "tot (step_ok d) (op_const s)" if "op = OP_CONST"
  proof -
    have "case const_at s1 n of Some v \<Rightarrow> (case value_held v of Some a \<Rightarrow> 1 \<le> d a | None \<Rightarrow> True) | None \<Rightarrow> False"
      using ready r unfolding that by (simp add: operand_ready_def)
    then obtain v where v: "const_at s1 n = Some v" "case value_held v of Some a \<Rightarrow> 1 \<le> d a | None \<Rightarrow> True"
      by (cases "const_at s1 n") simp_all
    have "own v a \<le> d a" for a using v(2) saneD(2) [OF assms(2), of a] by (auto simp: own_def split: option.splits)
    then show ?thesis by (rule const_tot [OF assms(2) room r v(1)])
  qed
  have "case local_slot s1 n of Some i \<Rightarrow> i + depth_needed op < length (vm_stack s) | None \<Rightarrow> False"
    if "op \<in> {OP_LOAD_LOCAL} \<union> store_ops"
    using that ready r s1 unfolding Un_iff insert_iff empty_iff by (elim disjE) (simp_all add: operand_ready_def split: option.splits)
  then have slot: "\<exists>i. local_slot s1 n = Some i \<and> i + depth_needed op < length (vm_stack s)"
    if "op \<in> {OP_LOAD_LOCAL} \<union> store_ops" using that by (cases "local_slot s1 n") auto
  have load: "tot (step_ok d) (op_load_local s)" if "op = OP_LOAD_LOCAL"
    using slot that load_tot [OF assms(2) room r] by (auto simp: depth_needed_def)
  have store: "tot (step_ok d) (op_store_local s) \<and> tot (step_ok d) (op_def_local s)"
    if "op \<in> store_ops"
  proof -
    have "depth_needed op = 1" using that by (auto simp: depth_needed_def)
    moreover have "op \<in> {OP_LOAD_LOCAL} \<union> store_ops" using that by blast
    ultimately obtain i where i: "local_slot s1 n = Some i" "i + 1 < length (vm_stack s)" using slot by auto
    then obtain st v where st: "vm_stack s = st @ [v]" by (cases "vm_stack s" rule: rev_cases) auto
    show ?thesis using store_tot [OF assms(2) r i(1) st] i(2) st by simp
  qed
  show ?thesis using assms(1) unfolding Un_iff insert_iff empty_iff
    by (elim disjE) (erule FalseE | simp add: dispatch_simps loop const load store)+
qed

text \<open>C7. Instructions on plain values are memory safe. Let the state be sane: every string counts exactly the stack cells that
  hold it plus the references held elsewhere (with room for one more), no cell is a null string pointer, the allocator has an
  address, and the old error value and the line of the instruction are there for an error message. Let the two operands on top be no
  objects, and let the instruction be ready: its operands are on the stack, a cell is free, and its own operand names a constant
  that is held, a local below the operands or a jump target that is not before the code. Then each of the instructions that push
  constants and locals, store locals, duplicate, pop, add, subtract, multiply, divide, take remainders and powers, increment,
  compare, apply unary plus and logical not, and jump returns: it never faults, so it uses no freed string and overruns nothing.
  Either it goes on, and every string again counts exactly the cells that hold it plus the same references elsewhere, and the
  allocator still offers unused addresses, or it raises an error.\<close>

theorem value_instructions_safe:
  assumes "sane d s" "plain_operands s" "read_byte s = Some (op, s1)" "op \<in> safe_ops" "instruction_ready d op s1"
  shows "(\<exists>s'. vm_step env run s = Some (Dispatch s') \<and> strings_ok (m_strings s') \<and>
            (\<forall>a. int (str_refs (m_strings s') a) = owns (vm_stack s') a + d a) \<and> (\<forall>a \<in> set (m_malloc s'). m_strings s' a = None)) \<or>
         (\<exists>s'. vm_step env run s = Some (Handle_error s') \<and> vm_has_error s')"
proof -
  have s1: "sane d s1" "plain_operands s1" using assms(1,2) reads_move(3) [OF assms(3)] by (simp_all add: plain_operands_def)
  have "op \<in> push_ops \<or> op \<in> top_ops \<or> op \<in> pair_ops \<or> op \<in> {OP_JUMP} \<union> cond_ops \<or> op \<in> {OP_LOOP, OP_CONST, OP_LOAD_LOCAL} \<union> store_ops"
    using assms(4) unfolding safe_ops_def Un_iff by blast
  moreover have "tot (step_ok d) (vm_dispatch env run op s1)" if "op \<in> push_ops"
    using that constants_tot [OF s1(1)] assms(5) unfolding Un_iff insert_iff empty_iff instruction_ready_def
    by (elim disjE) (erule FalseE | simp add: dispatch_simps)+
  ultimately have "tot (step_ok d) (vm_dispatch env run op s1)"
    by (elim disjE)
      (simp, rule top_dispatch [OF _ s1(1) assms(5)], assumption, rule pair_dispatch [OF _ s1 assms(5)], assumption,
       rule jump_dispatch [OF _ s1(1) assms(5)], assumption, rule slot_dispatch [OF _ s1(1) assms(5)], assumption)
  then obtain r where r: "vm_step env run s = Some r" "step_ok d r" using assms(3) by (auto simp: vm_step_def tot_def)
  show ?thesis using r by (cases r) (simp_all add: step_ok_def balanced_by_def)
qed

theorem value_instructions_safe_witness:
  "\<exists>s'. vm_step example_env (\<lambda>_. None) (example_vm [OP_STORE_LOCAL, 0, 0] [] [VNull, VString 64]) = Some (Dispatch s') \<and>
     vm_stack s' = [VString 64, VString 64] \<and> str_refs (m_strings s') 64 = 2"
proof -
  let ?s = "example_vm [OP_STORE_LOCAL, 0, 0] [] [VNull, VString 64]"
  have stepped: "map_option (\<lambda>r. case r of Dispatch s \<Rightarrow> vm_stack s | _ \<Rightarrow> []) (vm_step example_env (\<lambda>_. None) ?s) = Some [VString 64, VString 64]"
    by (simp add: run_simps example_simps dispatch_data_def op_store_local_def read_u16_def cando_read_u16_def local_slot_def
        put_cell_def cando_string_retain_def cong: bind_weak_cong)
  obtain s' where s': "vm_step example_env (\<lambda>_. None) ?s = Some (Dispatch s')" "vm_stack s' = [VString 64, VString 64]"
    using dispatched_stack [OF stepped] by blast
  have "strings_ok (m_strings ?s)" "str_refs (m_strings ?s) = (\<lambda>a. if a = 64 then 1 else 0)"
    by (simp_all add: example_vm_def strings_ok_def str_refs_def fun_eq_iff)
  then have bal: "balanced_by 1 (\<lambda>_. 0) ?s"
    by (simp add: balanced_by_def own_def value_held_def example_vm_def)
  have old: "vm_error_vals ?s = VNull # replicate 31 VNull" using replicate_Suc [of 31 VNull] by (simp add: example_vm_def)
  have "m_malloc ?s \<noteq> []" "error_location ?s \<noteq> None" "VString 0 \<notin> set (vm_stack ?s)"
    by (simp_all add: error_location_def frame_chunk_def example_simps)
  then have ok: "sane (\<lambda>_. 0) ?s" using bal old by (simp add: sane_def reportable_def)
  have plain: "plain_operands ?s" by (simp add: plain_operands_def example_vm_def is_object_def)
  have read: "read_byte ?s = Some (OP_STORE_LOCAL, ?s\<lparr>vm_ip := 1\<rparr>)"
    by (simp add: read_byte_def cur_chunk_def cur_frame_def frame_chunk_def example_simps)
  have ready: "instruction_ready (\<lambda>_. 0) OP_STORE_LOCAL (?s\<lparr>vm_ip := 1\<rparr>)"
    by (simp add: instruction_ready_def depth_needed_def operand_ready_def read_u16_def cando_read_u16_def local_slot_def
        cur_chunk_def cur_frame_def frame_chunk_def example_simps)
  have "int (str_refs (m_strings s') 64) = owns (vm_stack s') 64 + 0"
    using value_instructions_safe [OF ok plain read _ ready, of example_env "\<lambda>_. None"] s'(1) by (simp add: safe_ops_def)
  then show ?thesis using s' by (auto simp: own_def value_held_def)
qed

end
