(* ===== verification/Vm_Enter.thy ===== *)
theory Vm_Enter
  imports Vm_Safe Vm_Unwind
begin

text \<open>
  Calls and returns of script functions (\<open>OP_CALL\<close> and \<open>OP_RETURN\<close> of \<open>source/vm/vm.c\<close>): what a call pushes, what
  happens when the frames run out, and what a return releases, closes and restores.
\<close>

section \<open>Closing upvalues\<close>

text \<open>The cell an open upvalue stands for. The list of open upvalues falls with the cells.\<close>

definition slot_at :: "(addr \<rightharpoonup> upvalue) \<Rightarrow> addr \<Rightarrow> nat" where
  "slot_at U u = (case U u of Some uv \<Rightarrow> (case uv_slot uv of Some i \<Rightarrow> i | None \<Rightarrow> 0) | None \<Rightarrow> 0)"

definition open_falls :: "(addr \<rightharpoonup> upvalue) \<Rightarrow> addr list \<Rightarrow> bool" where
  "open_falls U us \<longleftrightarrow> sorted_wrt (\<lambda>u w. slot_at U w \<le> slot_at U u) us"

definition closed_above :: "nat \<Rightarrow> cando_value list \<Rightarrow> addr set \<Rightarrow> (addr \<rightharpoonup> upvalue) \<Rightarrow> (addr \<rightharpoonup> upvalue)" where
  "closed_above slot st us U =
     (\<lambda>u. if u \<in> us \<and> slot \<le> slot_at U u then Some \<lparr>uv_slot = None, uv_closed = st ! slot_at U u\<rparr> else U u)"

lemma slot_at_update: "u \<noteq> w \<Longrightarrow> slot_at (U(u \<mapsto> v)) w = slot_at U w"
  by (simp add: slot_at_def)

lemma open_falls_update: "u \<notin> set us \<Longrightarrow> open_falls (U(u \<mapsto> v)) us = open_falls U us"
  unfolding open_falls_def by (rule iffI; erule sorted_wrt_mono_rel [rotated]) (metis slot_at_update)+

lemma close_loop_closes:
  "open_ok U (length st) us \<Longrightarrow> open_falls U us \<Longrightarrow>
   close_loop slot st U us = Some (closed_above slot st (set us) U, filter (\<lambda>u. slot_at U u < slot) us)"
proof (induction us arbitrary: U)
  case (Cons u us)
  obtain uv i where u: "U u = Some uv" "uv_slot uv = Some i" "i < length st" using Cons.prems by (auto simp: open_ok_def)
  then have i: "slot_at U u = i" by (simp add: slot_at_def)
  have fresh: "u \<notin> set us" using Cons.prems(1) by (simp add: open_ok_def)
  show ?case
  proof (cases "slot \<le> i")
    case True
    let ?U = "U(u \<mapsto> \<lparr>uv_slot = None, uv_closed = st ! i\<rparr>)"
    have "open_ok ?U (length st) us" using Cons.prems(1) by (auto simp: open_ok_def)
    moreover have "open_falls ?U us" using Cons.prems(2) open_falls_update [OF fresh] by (simp add: open_falls_def)
    ultimately have IH: "close_loop slot st ?U us = Some (closed_above slot st (set us) ?U, filter (\<lambda>u. slot_at ?U u < slot) us)"
      by (rule Cons.IH)
    have "closed_above slot st (set us) ?U = closed_above slot st (set (u # us)) U"
      using fresh True i by (auto simp: closed_above_def fun_eq_iff slot_at_update)
    moreover have "filter (\<lambda>u. slot_at ?U u < slot) us = filter (\<lambda>u. slot_at U u < slot) us"
      using fresh by (intro filter_cong) (auto simp: slot_at_def)
    ultimately show ?thesis using IH u True i by simp
  next
    case False
    have low: "slot_at U w < slot" "\<not> slot \<le> slot_at U w" if "w \<in> set (u # us)" for w
      using Cons.prems(2) that False i by (fastforce simp: open_falls_def)+
    then have "closed_above slot st (set (u # us)) U = U" by (auto simp: closed_above_def fun_eq_iff simp del: list.set)
    moreover have "filter (\<lambda>u. slot_at U u < slot) (u # us) = u # us" using low(1) by (simp add: filter_id_conv)
    ultimately show ?thesis using u False by simp
  qed
qed (simp add: closed_above_def)

lemma releases_eq:
  "mfold vm_release vs s = map_option (\<lambda>H. s\<lparr>m_strings := H\<rparr>) (mfold cando_value_release vs (m_strings (s :: cando_vm)))"
proof (induction vs arbitrary: s)
  case (Cons v vs)
  show ?case
  proof (cases "cando_value_release (m_strings s) v")
    case (Some H)
    then show ?thesis using Cons.IH [of "s\<lparr>m_strings := H\<rparr>"] by (simp add: vm_release_def)
  qed (simp add: vm_release_def)
qed simp

section \<open>Calls\<close>

lemma push_nulls_spec:
  "length (vm_stack s) + n \<le> STACK_MAX \<Longrightarrow> push_nulls n s = Some (s\<lparr>vm_stack := vm_stack s @ replicate n VNull\<rparr>)"
proof (induction n arbitrary: s)
  case (Suc n)
  then show ?case using Suc.IH [of "s\<lparr>vm_stack := vm_stack s @ [VNull]\<rparr>"] by (simp add: cando_vm_push_def check_def)
qed simp

text \<open>C8. A call of a script function. Let the arguments be on top of a function object in a sane state, the current frame be the
  last, and the stack have room for the locals of the function. Then \<open>OP_CALL\<close> saves the position of the caller, pushes a frame
  based at the callee with the missing locals filled with nulls, uses up the count of spread values and goes on at the first
  instruction of the function; no string is copied or released and no upvalue is touched. At 256 frames it raises an error
  instead, and the frames and the stack are as before.\<close>

theorem script_call_enters:
  assumes "sane d s" "read_u16 s = Some (argc, s1)" "n = nat (int argc + vm_spread_extra s)" "vm_stack s = below @ VObject h # args" "length args = n"
    "object_at s h = Some (a, fn)" "ob_kind fn = OBJ_FUNCTION" "ob_fn fn = FnScript pc ups cl" "cl \<noteq> 0"
    "closure_chunk s cl = Some k" "vm_frames s = fs @ [caller]" "vm_fp s = length fs"
    "length (vm_stack s) + (ck_local_count k - (n + 1)) \<le> STACK_MAX"
  shows "\<exists>s'. if length (vm_frames s) < FRAMES_MAX then
             op_call env s = Some (Dispatch s') \<and> vm_ip s' = pc \<and> vm_fp s' = length fs + 1 \<and>
             vm_frames s' = fs @ [caller\<lparr>fr_ip := vm_ip s + 2\<rparr>,
               \<lparr>fr_closure = cl, fr_ip = pc, fr_slots = length below, fr_ret_count = 0, fr_fluent = False\<rparr>] \<and>
             vm_stack s' = vm_stack s @ replicate (ck_local_count k - (n + 1)) VNull \<and> vm_spread_extra s' = 0 \<and>
             m_strings s' = m_strings s \<and> m_upvals s' = m_upvals s \<and> vm_open_upvalues s' = vm_open_upvalues s
           else
             op_call env s = Some (Handle_error s') \<and> vm_has_error s' \<and> vm_frames s' = vm_frames s \<and> vm_stack s' = vm_stack s"
proof -
  have s1: "s1 = s\<lparr>vm_ip := vm_ip s + 2\<rparr>" by (rule reads_move(1) [OF assms(2)])
  let ?s = "s\<lparr>vm_ip := vm_ip s + 2, vm_spread_extra := 0\<rparr>"
  have len: "length (vm_stack s) = length below + Suc n" using assms(4,5) by simp
  have slot: "length (vm_stack s) - n - 1 = length below" "vm_stack s ! length below = VObject h" "n < length (vm_stack s)"
    using len assms(4) by simp_all
  have obj: "object_at ?s h = Some (a, fn)" using assms(6) by (simp add: object_at_def cando_bridge_resolve_def)
  have call: "op_call env s = enter_function ?s cl pc (length below) False (n + 1)"
    using assms(7-9) slot obj by (simp add: op_call_def assms(2) s1 Let_def check_def assms(3) [symmetric])
  show ?thesis
  proof (cases "length (vm_frames s) < FRAMES_MAX")
    case True
    let ?fs = "fs @ [caller\<lparr>fr_ip := vm_ip s + 2\<rparr>, \<lparr>fr_closure = cl, fr_ip = pc, fr_slots = length below, fr_ret_count = 0, fr_fluent = False\<rparr>]"
    have sync: "sync_ip ?s = Some (?s\<lparr>vm_frames := fs @ [caller\<lparr>fr_ip := vm_ip s + 2\<rparr>]\<rparr>)"
      using assms(11,12) by (simp add: sync_ip_def cur_frame_def)
    have "closure_chunk (?s\<lparr>vm_frames := gs\<rparr>) cl = Some k" for gs using assms(10) by (simp add: closure_chunk_def)
    then have enter: "enter_frame (?s\<lparr>vm_frames := fs @ [caller\<lparr>fr_ip := vm_ip s + 2\<rparr>]\<rparr>) cl pc (length below) False (n + 1) =
        Some (?s\<lparr>vm_frames := ?fs, vm_stack := vm_stack s @ replicate (ck_local_count k - (n + 1)) VNull\<rparr>)"
      using assms(13) by (simp add: enter_frame_def push_frame_def push_nulls_spec)
    show ?thesis using True by (simp add: call enter_function_def sync [simplified] enter [simplified] load_frame_def)
  next
    case False
    have "balanced_by (Suc 0) d ?s" "reportable d ?s" using saneD [OF assms(1)] by (simp_all add: balanced_by_def)
    then have "tot (\<lambda>r. \<exists>s'. r = Handle_error s' \<and> vm_frames s' = vm_frames ?s \<and> vm_stack s' = vm_stack ?s \<and> vm_has_error s')
        (throw_error ?s ''call stack overflow'')"
      by (rule tot_throw) simp
    then show ?thesis using False by (auto simp: call enter_function_def call_overflow_def tot_def)
  qed
qed

section \<open>Returns\<close>

text \<open>C9. A return undoes the call. Let the current frame be the last of at least two and have been entered by a normal (not a fluent)
  call, with no stop boundary below it; let the open upvalues be alive, in the stack and listed by falling cell, and let every string
  count the cells that the return drops. Then \<open>OP_RETURN n\<close> returns without a fault: the frame is gone, the caller goes on at
  its saved position with its part of the stack unchanged and the n results on top, in order; the callee, the arguments, the
  locals and the temporaries are released, each exactly once; every open upvalue of the frame is closed over the last value of
  its cell, and the others stay open. Handlers and loops are as they were.\<close>

theorem return_restores_caller:
  assumes "vm_frames s = fs @ [caller, f]" "vm_fp s = length fs + 1" "\<not> fr_fluent f"
    "read_u16 s = Some (n, s1)" "fr_slots f + n \<le> length (vm_stack s)"
    "vm_thread_stop s \<noteq> Some (length fs + 1)" "vm_eval_stop s \<noteq> Some (length fs + 1)"
    "open_ok (m_upvals s) (length (vm_stack s)) (vm_open_upvalues s)" "open_falls (m_upvals s) (vm_open_upvalues s)"
    "strings_ok (m_strings s)"
    "\<forall>a. owned value_held (drop (fr_slots f) (take (length (vm_stack s) - n) (vm_stack s))) a \<le> str_refs (m_strings s) a"
  shows "\<exists>s'. op_return s = Some (Dispatch s') \<and> vm_frames s' = fs @ [caller] \<and> vm_fp s' = length fs \<and> vm_ip s' = fr_ip caller \<and>
           vm_stack s' = take (fr_slots f) (vm_stack s) @ drop (length (vm_stack s) - n) (vm_stack s) \<and>
           vm_last_ret_count s' = int n \<and> vm_tries s' = vm_tries s \<and> vm_loop_depth s' = vm_loop_depth s \<and>
           m_upvals s' = closed_above (fr_slots f) (vm_stack s) (set (vm_open_upvalues s)) (m_upvals s) \<and>
           vm_open_upvalues s' = filter (\<lambda>u. slot_at (m_upvals s) u < fr_slots f) (vm_open_upvalues s) \<and>
           strings_ok (m_strings s') \<and>
           str_refs (m_strings s') = (\<lambda>a. str_refs (m_strings s) a -
             owned value_held (drop (fr_slots f) (take (length (vm_stack s) - n) (vm_stack s))) a)"
proof -
  let ?st = "vm_stack s" and ?i = "fr_slots f" and ?r = "length (vm_stack s) - n"
  let ?dead = "drop ?i (take ?r ?st)"
  obtain H where H: "mfold cando_value_release ?dead (m_strings s) = Some H" "strings_ok H"
      "str_refs H = (\<lambda>a. str_refs (m_strings s) a - owned value_held ?dead a)"
    using vals.release_all [OF assms(10), of ?dead] assms(11) by blast
  have dead: "take (length ?st - (n + ?i)) (drop ?i ?st) = ?dead" by (simp add: drop_take)
  have fit: "?i + (length ?st - (n + ?i)) \<le> length ?st" using assms(5) by simp
  note close = close_loop_closes [OF assms(8,9), of ?i]
  have at: "(fs @ [caller, g]) ! Suc (length fs) = g" "(fs @ [caller, g])[Suc (length fs) := h] = fs @ [caller, h]"
     "butlast (fs @ [caller, g]) = fs @ [caller]" for g h
    by (simp_all add: nth_append list_update_append butlast_append)
  have s1: "s1 = s\<lparr>vm_ip := vm_ip s + 2\<rparr>" by (rule reads_move(1) [OF assms(4)])
  have "cando_value_copy K VNull = Some K" for K by (simp add: cando_value_copy_def)
  note simps = op_return_def Let_def check_def assms(1-5) s1 cur_frame_def sync_ip_def at vm_close_upvalues_def close vm_copy_def this
      release_cells_def releases_eq dead fit H(1) load_frame_def
  show ?thesis
    using assms(6,7) H(2,3) assms(5) by (simp add: simps)
qed

theorem return_restores_caller_witness:
  "\<exists>s'. op_return ((example_vm [OP_RETURN, 1, 0] [] [VNull, VString 64, VBool True])
            \<lparr>vm_frames := [\<lparr>fr_closure = 3, fr_ip = 7, fr_slots = 0, fr_ret_count = 0, fr_fluent = False\<rparr>,
              \<lparr>fr_closure = 3, fr_ip = 0, fr_slots = 1, fr_ret_count = 0, fr_fluent = False\<rparr>], vm_fp := 1, vm_ip := 1\<rparr>) =
          Some (Dispatch s') \<and> vm_ip s' = 7 \<and> vm_stack s' = [VNull, VBool True] \<and> str_refs (m_strings s') 64 = 0"
proof -
  let ?caller = "\<lparr>fr_closure = 3, fr_ip = 7, fr_slots = 0, fr_ret_count = 0, fr_fluent = False\<rparr>"
  let ?f = "\<lparr>fr_closure = 3, fr_ip = 0, fr_slots = 1, fr_ret_count = 0, fr_fluent = False\<rparr>"
  let ?s = "(example_vm [OP_RETURN, 1, 0] [] [VNull, VString 64, VBool True])\<lparr>vm_frames := [?caller, ?f], vm_fp := 1, vm_ip := 1\<rparr>"
  have ok: "strings_ok (m_strings ?s)" "str_refs (m_strings ?s) = (\<lambda>a. if a = 64 then 1 else 0)"
    by (simp_all add: example_vm_def strings_ok_def str_refs_def fun_eq_iff)
  have read: "read_u16 ?s = Some (1, ?s\<lparr>vm_ip := 3\<rparr>)"
    by (simp add: read_u16_def cando_read_u16_def cur_chunk_def cur_frame_def frame_chunk_def example_simps)
  have st: "vm_stack ?s = [VNull, VString 64, VBool True]" "vm_thread_stop ?s = None" "vm_eval_stop ?s = None" "vm_open_upvalues ?s = []"
    by (simp_all add: example_vm_def)
  have "\<forall>a. owned value_held (drop (fr_slots ?f) (take (length (vm_stack ?s) - 1) (vm_stack ?s))) a \<le> str_refs (m_strings ?s) a"
    unfolding ok(2) st by (auto simp: value_held_def)
  from return_restores_caller [of ?s "[]" ?caller ?f, OF _ _ _ read _ _ _ _ _ ok(1) this] ok(2) st show ?thesis
    by (auto simp: open_ok_def open_falls_def value_held_def)
qed

text \<open>A machine about to call a function object, at the given depth of calls.\<close>

definition example_call :: "nat \<Rightarrow> cando_vm" where
  "example_call n = (example_vm [OP_CALL, 0, 0] [] [VObject 0])
     \<lparr>m_objs := Map.empty(96 \<mapsto> (cdo_obj_alloc OBJ_FUNCTION)\<lparr>ob_fn := FnScript 5 [] 3\<rparr>),
      m_handles := \<lparr>ht_slots = [\<lparr>hs_ptr = 96, hs_live = True, hs_marked = False\<rparr>], ht_capacity = 1, ht_count = 1, ht_free = u32_max\<rparr>,
      vm_frames := replicate n \<lparr>fr_closure = 3, fr_ip = 0, fr_slots = 0, fr_ret_count = 0, fr_fluent = False\<rparr> @
        [\<lparr>fr_closure = 3, fr_ip = 0, fr_slots = 0, fr_ret_count = 0, fr_fluent = False\<rparr>], vm_fp := n, vm_ip := 1\<rparr>"

lemma example_call_simps:
  "vm_stack (example_call n) = [VObject 0]" "vm_spread_extra (example_call n) = 0" "vm_fp (example_call n) = n"
  "vm_frames (example_call n) = replicate n \<lparr>fr_closure = 3, fr_ip = 0, fr_slots = 0, fr_ret_count = 0, fr_fluent = False\<rparr> @
     [\<lparr>fr_closure = 3, fr_ip = 0, fr_slots = 0, fr_ret_count = 0, fr_fluent = False\<rparr>]"
  "vm_ip (example_call n) = 1"
  by (simp_all add: example_call_def example_vm_def)

lemma example_call_sane: "sane (\<lambda>a. if a = 64 then 1 else 0) (example_call n)"
proof -
  let ?s = "example_call n"
  have "strings_ok (m_strings ?s)" "str_refs (m_strings ?s) = (\<lambda>a. if a = 64 then 1 else 0)"
    by (simp_all add: example_call_def example_vm_def strings_ok_def str_refs_def fun_eq_iff)
  then have "balanced_by 1 (\<lambda>a. if a = 64 then 1 else 0) ?s"
    by (simp add: balanced_by_def own_def value_held_def example_call_def example_vm_def)
  moreover have "vm_error_vals ?s = VNull # replicate 31 VNull"
    using replicate_Suc [of 31 VNull] by (simp add: example_call_def example_vm_def)
  moreover have "m_malloc ?s \<noteq> []" "error_location ?s \<noteq> None" "VString 0 \<notin> set (vm_stack ?s)"
    by (simp_all add: error_location_def frame_chunk_def example_call_def example_simps)
  ultimately show ?thesis by (simp add: sane_def reportable_def)
qed

theorem script_call_enters_witness:
  "\<exists>s' s''. op_call example_env (example_call 0) = Some (Dispatch s') \<and> vm_ip s' = 5 \<and> length (vm_frames s') = 2 \<and>
     op_call example_env (example_call 255) = Some (Handle_error s'') \<and> length (vm_frames s'') = 256"
proof -
  let ?k = "example_chunk [OP_CALL, 0, 0] []"
  have read: "read_u16 (example_call n) = Some (0, example_call n\<lparr>vm_ip := 3\<rparr>)" for n
    by (simp add: read_u16_def cando_read_u16_def cur_chunk_def cur_frame_def frame_chunk_def example_call_def example_simps nth_append)
  have obj: "object_at (example_call n) 0 = Some (96, (cdo_obj_alloc OBJ_FUNCTION)\<lparr>ob_fn := FnScript 5 [] 3\<rparr>)" for n
    by (simp add: object_at_def cando_bridge_resolve_def cando_handle_get_def check_def example_call_def example_vm_def)
  have chunk: "closure_chunk (example_call n) 3 = Some ?k" "ck_local_count ?k = 0" for n
    by (simp_all add: closure_chunk_def example_call_def example_vm_def example_chunk_def cando_chunk_new_def)
  let ?f = "\<lparr>fr_closure = 3, fr_ip = 0, fr_slots = 0, fr_ret_count = 0, fr_fluent = False\<rparr>"
  have fp: "vm_fp (example_call n) = length (replicate n ?f)" for n by (simp add: example_call_simps)
  have call: "\<exists>s'. if n < 255 then op_call example_env (example_call n) = Some (Dispatch s') \<and> vm_ip s' = 5 \<and> length (vm_frames s') = n + 2
      else op_call example_env (example_call n) = Some (Handle_error s') \<and> length (vm_frames s') = n + 1" for n
    using script_call_enters [OF example_call_sane [of n] read _ _ _ obj _ _ _ chunk(1) example_call_simps(4) fp,
        where n = 0 and below = "[]" and args = "[]" and env = example_env]
    by (auto simp: example_call_simps(1,2,4,5) chunk(2) cdo_obj_alloc_def split: if_splits)
  obtain s' where s': "op_call example_env (example_call 0) = Some (Dispatch s')" "vm_ip s' = 5" "length (vm_frames s') = 2"
    using call [of 0] by auto
  obtain s'' where "op_call example_env (example_call 255) = Some (Handle_error s'')" "length (vm_frames s'') = 256"
    using call [of 255] by auto
  then show ?thesis using s' by blast
qed

end
