(* ===== verification/Parser_Core.thy ===== *)
theory Parser_Core
  imports Lexer Chunk
begin

text \<open>
  The state of the compiler (\<open>source/parser/parser.h\<close>) and the helpers of \<open>source/parser/parser.c\<close> that every parsing
  function uses: errors, the two token window, emission into the chunk, constants and the table of local variables.
  A name of the source is the text it points to. The parser owns the string heap while it compiles; the addresses of new
  strings are taken from a list. \<open>None\<close> is an abort (a failed assertion of the chunk) or the end of the fuel.
\<close>

section \<open>State\<close>

record cando_local =
  lo_name :: string
  lo_depth :: int
  lo_is_const :: bool

record cando_parser =
  ps_lexer :: cando_lexer
  ps_current :: cando_token
  ps_previous :: cando_token
  ps_had_error :: bool
  ps_panic_mode :: bool
  ps_chunk :: cando_chunk
  ps_error_msg :: string
  ps_locals :: "cando_local list"
  ps_scope_depth :: int
  ps_last_expr_was_call :: bool
  ps_last_expr_was_unpack :: bool
  ps_call_depth :: nat
  ps_eval_mode :: bool
  ps_last_stmt_was_expr :: bool
  ps_in_pipe_body :: bool
  ps_pipe_exits :: "nat list"
  ps_pipe_exit_count :: nat
  ps_last_multi_push :: nat
  ps_strings :: string_heap
  ps_malloc :: "addr list"

abbreviation (input) LOCAL_MAX :: nat where "LOCAL_MAX \<equiv> 256"
abbreviation (input) PIPE_EXITS_MAX :: nat where "PIPE_EXITS_MAX \<equiv> 16"

section \<open>Errors\<close>

text \<open>The text of a token; printing stops at a zero byte.\<close>

definition token_text :: "cando_parser \<Rightarrow> cando_token \<Rightarrow> string" where
  "token_text p t = take (tk_length t) (drop (tk_start t) (lx_source (ps_lexer p)))"

definition error_at :: "cando_token \<Rightarrow> string \<Rightarrow> cando_parser \<Rightarrow> cando_parser" where
  "error_at tok msg p =
     (if ps_panic_mode p then p
      else p\<lparr>ps_panic_mode := True, ps_had_error := True,
             ps_error_msg := take 511 (''[line '' @ decimal (tk_line tok) @ ''] Error at '' @ [CHR 0x27] @
               takeWhile (\<lambda>c. c \<noteq> CHR 0x00) (token_text p tok) @ [CHR 0x27] @ '': '' @ msg)\<rparr>)"

definition ps_error :: "string \<Rightarrow> cando_parser \<Rightarrow> cando_parser" where
  "ps_error msg p = error_at (ps_previous p) msg p"

definition ps_error_current :: "string \<Rightarrow> cando_parser \<Rightarrow> cando_parser" where
  "ps_error_current msg p = error_at (ps_current p) msg p"

section \<open>Tokens\<close>

text \<open>The loop of \<open>advance\<close>: error tokens are reported and skipped. An error token has at least one character.\<close>

lemma error_at_simps [simp]:
  "ps_lexer (error_at t m p) = ps_lexer p" "ps_current (error_at t m p) = ps_current p"
  "ps_previous (error_at t m p) = ps_previous p" "ps_chunk (error_at t m p) = ps_chunk p"
  "ps_locals (error_at t m p) = ps_locals p" "ps_scope_depth (error_at t m p) = ps_scope_depth p"
  "ps_strings (error_at t m p) = ps_strings p" "ps_malloc (error_at t m p) = ps_malloc p"
  "ps_pipe_exits (error_at t m p) = ps_pipe_exits p" "ps_pipe_exit_count (error_at t m p) = ps_pipe_exit_count p"
  by (simp_all add: error_at_def)

lemma lexer_next_moves: "cando_lexer_next lx = (lx', t) \<Longrightarrow> tk_type t \<noteq> TOK_EOF \<Longrightarrow> lex_left lx' < lex_left lx"
proof -
  assume n: "cando_lexer_next lx = (lx', t)" and t: "tk_type t \<noteq> TOK_EOF"
  have "\<not> lex_at_end lx"
  proof
    assume "lex_at_end lx"
    then have "tk_type (snd (cando_lexer_next lx)) = TOK_EOF"
      by (simp add: cando_lexer_next.simps [of lx] skip_blanks_def lex_while.simps [of _ lx] make_token_def)
    then show False using n t by simp
  qed
  moreover have "lx_source lx' = lx_source lx" using lexer_next_spec [OF n] by (simp add: next_spec_def lex_moves_def)
  ultimately show ?thesis using next_less [OF n t] by (auto simp: lex_at_end_def)
qed

function ps_fetch :: "cando_parser \<Rightarrow> cando_parser" where
  "ps_fetch p =
     (case cando_lexer_next (ps_lexer p) of (lx, t) \<Rightarrow>
        (let p = p\<lparr>ps_lexer := lx, ps_current := t\<rparr>
         in if tk_type t \<noteq> TOK_ERROR then p
            else ps_fetch (ps_error_current (case cando_lexer_error_msg lx of Some m \<Rightarrow> m | None \<Rightarrow> ''(null)'') p)))"
  by auto
termination
  by (relation "measure (\<lambda>p. lex_left (ps_lexer p))")
    (auto simp: ps_error_current_def dest!: lexer_next_moves [OF sym])

definition ps_advance :: "cando_parser \<Rightarrow> cando_parser" where
  "ps_advance p = ps_fetch (p\<lparr>ps_previous := ps_current p\<rparr>)"

definition ps_check :: "token_type \<Rightarrow> cando_parser \<Rightarrow> bool" where
  "ps_check t p \<longleftrightarrow> tk_type (ps_current p) = t"

text \<open>Below, \<open>if (match(p, t))\<close> is written as a check and, in the positive branch, the advance; this is the call whose
  result is not used.\<close>

definition ps_match :: "token_type \<Rightarrow> cando_parser \<Rightarrow> cando_parser" where
  "ps_match t p = (if ps_check t p then ps_advance p else p)"

definition ps_consume :: "token_type \<Rightarrow> string \<Rightarrow> cando_parser \<Rightarrow> cando_parser" where
  "ps_consume t msg p = (if ps_check t p then ps_advance p else ps_error_current msg p)"

abbreviation ps_at :: "token_type list \<Rightarrow> cando_parser \<Rightarrow> bool" where
  "ps_at ts p \<equiv> list_ex (\<lambda>t. ps_check t p) ts"

section \<open>Emission\<close>

definition emit_line :: "cando_parser \<Rightarrow> nat" where
  "emit_line p = tk_line (ps_previous p)"

definition emit_op :: "nat \<Rightarrow> cando_parser \<Rightarrow> cando_parser option" where
  "emit_op op p = do { c \<leftarrow> cando_chunk_emit_op (ps_chunk p) op (emit_line p); Some (p\<lparr>ps_chunk := c\<rparr>) }"

definition emit_op_a :: "nat \<Rightarrow> nat \<Rightarrow> cando_parser \<Rightarrow> cando_parser option" where
  "emit_op_a op a p = do { c \<leftarrow> cando_chunk_emit_op_a (ps_chunk p) op a (emit_line p); Some (p\<lparr>ps_chunk := c\<rparr>) }"

definition emit_op_ab :: "nat \<Rightarrow> nat \<Rightarrow> nat \<Rightarrow> cando_parser \<Rightarrow> cando_parser option" where
  "emit_op_ab op a b p =
     do { c \<leftarrow> cando_chunk_emit_op_ab (ps_chunk p) op a b (emit_line p); Some (p\<lparr>ps_chunk := c\<rparr>) }"

definition emit_jump :: "nat \<Rightarrow> cando_parser \<Rightarrow> (nat \<times> cando_parser) option" where
  "emit_jump op p =
     do { (c, at) \<leftarrow> cando_chunk_emit_jump (ps_chunk p) op (emit_line p); Some (at, p\<lparr>ps_chunk := c\<rparr>) }"

definition patch_jump :: "nat \<Rightarrow> cando_parser \<Rightarrow> cando_parser option" where
  "patch_jump pos p = do { c \<leftarrow> cando_chunk_patch_jump (ps_chunk p) pos; Some (p\<lparr>ps_chunk := c\<rparr>) }"

definition emit_loop :: "nat \<Rightarrow> cando_parser \<Rightarrow> cando_parser option" where
  "emit_loop loop_start p =
     do { c \<leftarrow> cando_chunk_emit_loop (ps_chunk p) loop_start (emit_line p); Some (p\<lparr>ps_chunk := c\<rparr>) }"

definition code_len :: "cando_parser \<Rightarrow> nat" where
  "code_len p = length (ck_code (ps_chunk p))"

text \<open>The way back to the loop's start takes 14 bits of the second operand, the kind of the loop the other two.\<close>

definition emit_loop_mark :: "nat \<Rightarrow> nat \<Rightarrow> cando_parser \<Rightarrow> (nat \<times> cando_parser) option" where
  "emit_loop_mark loop_start loop_type p =
     do {
       let mark_pos = code_len p;
       let ip_after = u32 (mark_pos + 5);
       let cont_back = u16_of_int (int ip_after - int loop_start);
       let b_packed = cont_back mod 16384 + u16 (loop_type * 16384);
       p \<leftarrow> emit_op_ab OP_LOOP_MARK 0 b_packed p;
       Some (u32 (mark_pos + 1), p)
     }"

definition patch_loop_mark_break :: "nat \<Rightarrow> cando_parser \<Rightarrow> cando_parser option" where
  "patch_loop_mark_break patch_at p =
     do {
       let ip_after = u32 (patch_at + 4);
       code \<leftarrow> cando_write_u16 (ck_code (ps_chunk p)) patch_at (u16_of_int (int (code_len p) - int ip_after));
       Some (p\<lparr>ps_chunk := (ps_chunk p)\<lparr>ck_code := code\<rparr>\<rparr>)
     }"

section \<open>Constants\<close>

definition str_const :: "string \<Rightarrow> cando_parser \<Rightarrow> (nat \<times> cando_parser) option" where
  "str_const s p =
     (case ps_malloc p of
        [] \<Rightarrow> None
      | a # as \<Rightarrow> do {
          (H, c, i) \<leftarrow> cando_chunk_add_const (cando_string_new (ps_strings p) a s) (ps_chunk p) (VString a);
          Some (i, p\<lparr>ps_strings := H, ps_malloc := as, ps_chunk := c\<rparr>)
        })"

definition prev_name_const :: "cando_parser \<Rightarrow> (nat \<times> cando_parser) option" where
  "prev_name_const p = str_const (token_text p (ps_previous p)) p"

definition num_const :: "f64 \<Rightarrow> cando_parser \<Rightarrow> (nat \<times> cando_parser) option" where
  "num_const x p =
     do {
       (H, c, i) \<leftarrow> cando_chunk_add_const (ps_strings p) (ps_chunk p) (VNumber x);
       Some (i, p\<lparr>ps_strings := H, ps_chunk := c\<rparr>)
     }"

section \<open>Scopes\<close>

definition scope_begin :: "cando_parser \<Rightarrow> cando_parser" where
  "scope_begin p = p\<lparr>ps_scope_depth := ps_scope_depth p + 1\<rparr>"

definition scope_end :: "cando_parser \<Rightarrow> cando_parser" where
  "scope_end p =
     (let d = ps_scope_depth p - 1
      in p\<lparr>ps_scope_depth := d, ps_locals := rev (dropWhile (\<lambda>l. lo_depth l > d) (rev (ps_locals p)))\<rparr>)"

text \<open>The innermost local of that name.\<close>

fun resolve_from :: "string \<Rightarrow> cando_local list \<Rightarrow> nat \<Rightarrow> nat option" where
  "resolve_from name ls 0 = None"
| "resolve_from name ls (Suc i) = (if lo_name (ls ! i) = name then Some i else resolve_from name ls i)"

definition resolve_local :: "cando_parser \<Rightarrow> string \<Rightarrow> nat option" where
  "resolve_local p name = resolve_from name (ps_locals p) (length (ps_locals p))"

definition declare_local :: "string \<Rightarrow> bool \<Rightarrow> cando_parser \<Rightarrow> nat \<times> cando_parser" where
  "declare_local name is_const p =
     (if LOCAL_MAX \<le> length (ps_locals p) then (0, ps_error ''too many local variables in scope'' p)
      else let slot = length (ps_locals p);
               c = ps_chunk p
           in (slot, p\<lparr>ps_locals := ps_locals p @ [\<lparr>lo_name = name, lo_depth = ps_scope_depth p, lo_is_const = is_const\<rparr>],
                       ps_chunk := c\<lparr>ck_local_count := max (ck_local_count c) (slot + 1)\<rparr>\<rparr>))"

text \<open>Loading and storing a name: the local slot when there is one, the global otherwise.\<close>

definition emit_load :: "string \<Rightarrow> cando_parser \<Rightarrow> cando_parser option" where
  "emit_load name p =
     (case resolve_local p name of
        Some slot \<Rightarrow> emit_op_a OP_LOAD_LOCAL (u16 slot) p
      | None \<Rightarrow> do { (idx, p) \<leftarrow> str_const name p; emit_op_a OP_LOAD_GLOBAL idx p })"

definition emit_store :: "string \<Rightarrow> cando_parser \<Rightarrow> cando_parser option" where
  "emit_store name p =
     (case resolve_local p name of
        Some slot \<Rightarrow> emit_op_a OP_STORE_LOCAL (u16 slot) p
      | None \<Rightarrow> do { (idx, p) \<leftarrow> str_const name p; emit_op_a OP_STORE_GLOBAL idx p })"

end
