(* ===== verification/Parser_Expr.thy ===== *)
theory Parser_Expr
  imports Parser_Core
begin

text \<open>
  The expression half of \<open>source/parser/parser.c\<close>: the precedences, one function per prefix and infix form, the
  table of rules and the Pratt driver \<open>parse_precedence\<close>. The functions of the code call each other through
  \<open>parse_precedence\<close> and \<open>parse_statement\<close>; here those two, and the \<open>parse_if\<close> of an \<open>ELSE IF\<close>, are the fields
  of \<open>parse_rec\<close>, tied together with fuel at the end of \<open>Parser_Stmt\<close>.
\<close>

section \<open>Recursion and loops\<close>

record parse_rec =
  rec_precedence :: "nat \<Rightarrow> cando_parser \<Rightarrow> cando_parser option"
  rec_statement :: "cando_parser \<Rightarrow> cando_parser option"
  rec_if :: "cando_parser \<Rightarrow> cando_parser option"
  rec_fuel :: nat

fun loop_while :: "nat \<Rightarrow> ('s \<Rightarrow> bool) \<Rightarrow> ('s \<Rightarrow> 's option) \<Rightarrow> 's \<Rightarrow> 's option" where
  "loop_while 0 b f s = None"
| "loop_while (Suc n) b f s = (if b s then do { s \<leftarrow> f s; loop_while n b f s } else Some s)"

text \<open>\<open>do { body } while (match(p, TOK_COMMA))\<close>; the flag of the body is \<open>False\<close> for a \<open>break\<close>.\<close>

fun comma_list :: "nat \<Rightarrow> ('x \<Rightarrow> cando_parser \<Rightarrow> (bool \<times> 'x \<times> cando_parser) option) \<Rightarrow> 'x \<Rightarrow> cando_parser \<Rightarrow>
    ('x \<times> cando_parser) option" where
  "comma_list 0 body x p = None"
| "comma_list (Suc n) body x p =
     do {
       (again, x, p) \<leftarrow> body x p;
       if again \<and> ps_check TOK_COMMA p then comma_list n body x (ps_advance p) else Some (x, p)
     }"

section \<open>Precedences\<close>

abbreviation (input) PREC_NONE :: nat where "PREC_NONE \<equiv> 0"
abbreviation (input) PREC_ASSIGN :: nat where "PREC_ASSIGN \<equiv> 1"
abbreviation (input) PREC_OR :: nat where "PREC_OR \<equiv> 2"
abbreviation (input) PREC_AND :: nat where "PREC_AND \<equiv> 3"
abbreviation (input) PREC_BITOR :: nat where "PREC_BITOR \<equiv> 4"
abbreviation (input) PREC_BITXOR :: nat where "PREC_BITXOR \<equiv> 5"
abbreviation (input) PREC_BITAND :: nat where "PREC_BITAND \<equiv> 6"
abbreviation (input) PREC_EQUALITY :: nat where "PREC_EQUALITY \<equiv> 7"
abbreviation (input) PREC_COMPARISON :: nat where "PREC_COMPARISON \<equiv> 8"
abbreviation (input) PREC_RANGE :: nat where "PREC_RANGE \<equiv> 9"
abbreviation (input) PREC_SHIFT :: nat where "PREC_SHIFT \<equiv> 10"
abbreviation (input) PREC_TERM :: nat where "PREC_TERM \<equiv> 11"
abbreviation (input) PREC_FACTOR :: nat where "PREC_FACTOR \<equiv> 12"
abbreviation (input) PREC_POWER :: nat where "PREC_POWER \<equiv> 13"
abbreviation (input) PREC_PIPE :: nat where "PREC_PIPE \<equiv> 14"
abbreviation (input) PREC_UNARY :: nat where "PREC_UNARY \<equiv> 15"
abbreviation (input) PREC_CALL :: nat where "PREC_CALL \<equiv> 16"

definition rule_precedence :: "token_type \<Rightarrow> nat" where
  "rule_precedence t =
     (if t \<in> {TOK_LPAREN, TOK_LBRACKET, TOK_DOT, TOK_FLUENT, TOK_COLON} then PREC_CALL
      else if t \<in> {TOK_MINUS, TOK_PLUS} then PREC_TERM
      else if t \<in> {TOK_STAR, TOK_SLASH, TOK_PERCENT} then PREC_FACTOR
      else if t = TOK_CARET then PREC_POWER
      else if t = TOK_AMP then PREC_BITAND
      else if t = TOK_BITOR then PREC_BITOR
      else if t = TOK_BITXOR then PREC_BITXOR
      else if t \<in> {TOK_LSHIFT, TOK_RSHIFT} then PREC_SHIFT
      else if t \<in> {TOK_EQ, TOK_NEQ} then PREC_EQUALITY
      else if t \<in> {TOK_LT, TOK_GT, TOK_LEQ, TOK_GEQ} then PREC_COMPARISON
      else if t \<in> {TOK_RANGE_ASC, TOK_RANGE_DESC} then PREC_RANGE
      else if t = TOK_AND then PREC_AND
      else if t = TOK_OR then PREC_OR
      else if t \<in> {TOK_PIPE_OP, TOK_FILTER_OP} then PREC_PIPE
      else PREC_NONE)"

definition parse_expression :: "parse_rec \<Rightarrow> cando_parser \<Rightarrow> cando_parser option" where
  "parse_expression r p = rec_precedence r PREC_ASSIGN p"

definition parse_block :: "parse_rec \<Rightarrow> cando_parser \<Rightarrow> cando_parser option" where
  "parse_block r p =
     do {
       p \<leftarrow> loop_while (rec_fuel r) (\<lambda>p. \<not> ps_at [TOK_RBRACE, TOK_EOF] p) (rec_statement r) p;
       Some (ps_consume TOK_RBRACE ''expected '}' to close block'' p)
     }"

section \<open>Prefix forms\<close>

definition parse_number :: "cando_parser \<Rightarrow> cando_parser option" where
  "parse_number p =
     do {
       let buf = take 63 (token_text p (ps_previous p));
       (idx, p) \<leftarrow> num_const (strtod buf) p;
       emit_op_a OP_CONST idx p
     }"

text \<open>The text between the delimiters, as it stands in the source.\<close>

definition string_body :: "cando_parser \<Rightarrow> string" where
  "string_body p =
     (let t = ps_previous p; len = (if tk_length t \<ge> 2 then tk_length t - 2 else 0)
      in take len (drop (tk_start t + 1) (lx_source (ps_lexer p))))"

definition parse_string_literal :: "cando_parser \<Rightarrow> cando_parser option" where
  "parse_string_literal p = do { (idx, p) \<leftarrow> str_const (string_body p) p; emit_op_a OP_CONST idx p }"

definition parse_literal :: "cando_parser \<Rightarrow> cando_parser option" where
  "parse_literal p =
     (case tk_type (ps_previous p) of
        TOK_NULL_KW \<Rightarrow> emit_op OP_NULL p
      | TOK_TRUE_KW \<Rightarrow> emit_op OP_TRUE p
      | TOK_FALSE_KW \<Rightarrow> emit_op OP_FALSE p
      | _ \<Rightarrow> None)"

definition compound_opcode :: "token_type \<Rightarrow> nat option" where
  "compound_opcode t =
     (case t of
        TOK_PLUS_ASSIGN \<Rightarrow> Some OP_ADD | TOK_MINUS_ASSIGN \<Rightarrow> Some OP_SUB | TOK_STAR_ASSIGN \<Rightarrow> Some OP_MUL
      | TOK_SLASH_ASSIGN \<Rightarrow> Some OP_DIV | TOK_PERCENT_ASSIGN \<Rightarrow> Some OP_MOD | TOK_CARET_ASSIGN \<Rightarrow> Some OP_POW
      | _ \<Rightarrow> None)"

text \<open>The postfix \<open>++\<close> and \<open>--\<close>: the old value stays on the stack.\<close>

definition postfix_step :: "string \<Rightarrow> nat \<Rightarrow> cando_parser \<Rightarrow> cando_parser option" where
  "postfix_step name op p =
     do {
       p \<leftarrow> emit_load name p;
       p \<leftarrow> emit_op OP_DUP p;
       (one, p) \<leftarrow> num_const (f64_of_nat 1) p;
       p \<leftarrow> emit_op_a OP_CONST one p;
       p \<leftarrow> emit_op op p;
       p \<leftarrow> emit_store name p;
       emit_op OP_POP p
     }"

definition parse_variable_expr :: "parse_rec \<Rightarrow> bool \<Rightarrow> cando_parser \<Rightarrow> cando_parser option" where
  "parse_variable_expr r can_assign p =
     (let name = token_text p (ps_previous p)
      in if \<not> can_assign then emit_load name p
         else case compound_opcode (tk_type (ps_current p)) of
           Some op \<Rightarrow> do {
             p \<leftarrow> emit_load name (ps_advance p);
             p \<leftarrow> parse_expression r p;
             p \<leftarrow> emit_op op p;
             emit_store name p
           }
         | None \<Rightarrow>
             if ps_check TOK_ASSIGN p then do { p \<leftarrow> parse_expression r (ps_advance p); emit_store name p }
             else if ps_check TOK_INCR p then postfix_step name OP_ADD (ps_advance p)
             else if ps_check TOK_DECR p then postfix_step name OP_SUB (ps_advance p)
             else emit_load name p)"

text \<open>One element of an array literal; the number of elements goes up by the values it pushes.\<close>

definition array_element :: "parse_rec \<Rightarrow> nat \<Rightarrow> cando_parser \<Rightarrow> (bool \<times> nat \<times> cando_parser) option" where
  "array_element r count p =
     (if ps_check TOK_RBRACKET p then Some (False, count, p)
      else do {
        p \<leftarrow> parse_expression r (p\<lparr>ps_last_multi_push := 1, ps_last_expr_was_call := False, ps_last_expr_was_unpack := False\<rparr>);
        if ps_last_expr_was_unpack p then do {
          p \<leftarrow> emit_op OP_UNPACK p;
          p \<leftarrow> emit_op OP_ARRAY_SPREAD p;
          if count = 0xFFFF then Some (False, count, ps_error ''too many array elements'' p) else Some (True, count + 1, p)
        } else
          let add = u16 (ps_last_multi_push p)
          in if count + add > 0xFFFF then Some (False, count, ps_error ''too many array elements'' p)
             else Some (True, count + add, p)
      })"

text \<open>A comma-separated list inside brackets, one level deeper.\<close>

definition nested_list :: "parse_rec \<Rightarrow> token_type \<Rightarrow> ('x \<Rightarrow> cando_parser \<Rightarrow> (bool \<times> 'x \<times> cando_parser) option) \<Rightarrow> 'x \<Rightarrow>
    cando_parser \<Rightarrow> ('x \<times> cando_parser) option" where
  "nested_list r close body x p =
     (if ps_check close p then Some (x, p)
      else do {
        (x, p) \<leftarrow> comma_list (rec_fuel r) body x (p\<lparr>ps_call_depth := ps_call_depth p + 1\<rparr>);
        Some (x, p\<lparr>ps_call_depth := ps_call_depth p - 1\<rparr>)
      })"

definition parse_array_literal :: "parse_rec \<Rightarrow> cando_parser \<Rightarrow> cando_parser option" where
  "parse_array_literal r p =
     do {
       (count, p) \<leftarrow> nested_list r TOK_RBRACKET (array_element r) 0 p;
       emit_op_a OP_NEW_ARRAY count (ps_consume TOK_RBRACKET ''expected ']' after array elements'' p)
     }"

definition object_entry :: "parse_rec \<Rightarrow> unit \<Rightarrow> cando_parser \<Rightarrow> (bool \<times> unit \<times> cando_parser) option" where
  "object_entry r u p =
     (if ps_check TOK_RBRACE p then Some (False, (), p)
      else if ps_at [TOK_IDENT, TOK_STRING_DQ, TOK_STRING_SQ] p then do {
        let is_name = ps_check TOK_IDENT p;
        let p = ps_advance p;
        (key_idx, p) \<leftarrow> str_const (if is_name then token_text p (ps_previous p) else string_body p) p;
        p \<leftarrow> parse_expression r (ps_consume TOK_COLON ''expected ':' after object key'' p);
        p \<leftarrow> emit_op_a OP_SET_FIELD key_idx p;
        Some (True, (), p)
      } else Some (False, (), ps_error_current ''expected property key'' p))"

definition parse_object_literal :: "parse_rec \<Rightarrow> cando_parser \<Rightarrow> cando_parser option" where
  "parse_object_literal r p =
     do {
       p \<leftarrow> emit_op OP_NEW_OBJECT p;
       (_, p) \<leftarrow> nested_list r TOK_RBRACE (object_entry r) () p;
       Some (ps_consume TOK_RBRACE ''expected '}' after object literal'' p)
     }"

definition parse_unpack :: "parse_rec \<Rightarrow> cando_parser \<Rightarrow> cando_parser option" where
  "parse_unpack r p = do { p \<leftarrow> rec_precedence r PREC_UNARY p; Some (p\<lparr>ps_last_expr_was_unpack := True\<rparr>) }"

definition parse_unary :: "parse_rec \<Rightarrow> cando_parser \<Rightarrow> cando_parser option" where
  "parse_unary r p =
     do {
       let op = tk_type (ps_previous p);
       p \<leftarrow> rec_precedence r PREC_UNARY p;
       p \<leftarrow> (case op of
              TOK_MINUS \<Rightarrow> emit_op OP_NEG p
            | TOK_BANG \<Rightarrow> emit_op OP_NOT p
            | TOK_HASH \<Rightarrow> emit_op OP_LEN p
            | _ \<Rightarrow> Some p);
       Some (p\<lparr>ps_last_expr_was_call := False\<rparr>)
     }"

section \<open>Masks\<close>

text \<open>The bits of a mask; three dots are three bits; at most 32 are kept.\<close>

definition mask_bit :: "bool list \<times> cando_parser \<Rightarrow> (bool list \<times> cando_parser) option" where
  "mask_bit s =
     (case s of (bits, p) \<Rightarrow>
        let p = ps_advance p; t = tk_type (ps_previous p)
        in Some (if t = TOK_VARARG then take 32 (bits @ [False, False, False]) else bits @ [t = TOK_TILDE], p))"

definition mask_bits :: "parse_rec \<Rightarrow> cando_parser \<Rightarrow> (bool list \<times> cando_parser) option" where
  "mask_bits r p =
     loop_while (rec_fuel r) (\<lambda>(bits, p). length bits < 32 \<and> ps_at [TOK_TILDE, TOK_DOT, TOK_VARARG] p) mask_bit ([], p)"

definition emit_mask :: "bool \<Rightarrow> cando_parser \<Rightarrow> cando_parser option" where
  "emit_mask pass p = (if pass then emit_op OP_MASK_PASS p else emit_op OP_MASK_SKIP p)"

text \<open>The values after the first, one per remaining bit.\<close>

fun mask_values :: "parse_rec \<Rightarrow> bool list \<Rightarrow> cando_parser \<Rightarrow> (nat \<times> cando_parser) option" where
  "mask_values r [] p = Some (0, p)"
| "mask_values r (b # bs) p =
     (if ps_check TOK_COMMA p then do {
        p \<leftarrow> rec_precedence r PREC_ASSIGN (ps_advance p);
        p \<leftarrow> emit_mask b p;
        (k, p) \<leftarrow> mask_values r bs p;
        Some (k + of_bool b, p)
      } else Some (0, ps_error ''expected ',' between mask values'' p))"

text \<open>The values beyond a pure mask.\<close>

definition mask_extra :: "parse_rec \<Rightarrow> bool \<Rightarrow> nat \<times> cando_parser \<Rightarrow> (nat \<times> cando_parser) option" where
  "mask_extra r pass s =
     (case s of (k, p) \<Rightarrow>
        do {
          p \<leftarrow> rec_precedence r PREC_ASSIGN (ps_advance p);
          p \<leftarrow> emit_mask pass p;
          Some (k + of_bool pass, p)
        })"

definition mask_word :: "bool list \<Rightarrow> nat" where
  "mask_word bits = u16 (\<Sum>i \<leftarrow> [0..<length bits]. if bits ! i then 2 ^ i else 0)"

definition parse_mask_emit :: "parse_rec \<Rightarrow> bool list \<Rightarrow> cando_parser \<Rightarrow> cando_parser option" where
  "parse_mask_emit r bits p =
     do {
       first_bit \<leftarrow> (case bits of [] \<Rightarrow> None | b # _ \<Rightarrow> Some b);
       let is_pure = (\<forall>b \<in> set bits. b = first_bit);
       let outer_depth = ps_call_depth p;
       p \<leftarrow> rec_precedence r PREC_ASSIGN (p\<lparr>ps_call_depth := ps_call_depth p + 1, ps_last_expr_was_call := False\<rparr>);
       let no_list_comma = (outer_depth > 0 \<or> \<not> ps_check TOK_COMMA p);
       (pass_count, p) \<leftarrow>
         (if ps_last_expr_was_call p \<and> no_list_comma then do {
            p \<leftarrow> emit_op_ab OP_MASK_APPLY (u16 (length bits)) (mask_word bits) p;
            Some (length (filter id bits), p\<lparr>ps_last_expr_was_unpack := False\<rparr>)
          } else if \<not> ps_check TOK_COMMA p then do {
            p \<leftarrow> emit_mask first_bit p;
            Some (of_bool first_bit, p\<lparr>ps_last_expr_was_call := False, ps_last_expr_was_unpack := False\<rparr>)
          } else do {
            p \<leftarrow> emit_mask first_bit p;
            (k, p) \<leftarrow> mask_values r (tl bits) p;
            (k, p) \<leftarrow> (if is_pure
                        then loop_while (rec_fuel r) (\<lambda>(k, p). ps_check TOK_COMMA p) (mask_extra r (\<not> first_bit)) (k, p)
                        else Some (k, p));
            Some (of_bool first_bit + k, p\<lparr>ps_last_expr_was_call := False, ps_last_expr_was_unpack := False\<rparr>)
          });
       Some (p\<lparr>ps_call_depth := ps_call_depth p - 1, ps_last_multi_push := pass_count\<rparr>)
     }"

definition parse_grouping :: "parse_rec \<Rightarrow> cando_parser \<Rightarrow> cando_parser option" where
  "parse_grouping r p =
     (if ps_at [TOK_TILDE, TOK_DOT, TOK_VARARG] p then do {
        (bits, p) \<leftarrow> mask_bits r p;
        parse_mask_emit r bits (ps_consume TOK_RPAREN ''expected ')' after mask pattern'' p)
      } else do {
        let saved_depth = ps_call_depth p;
        p \<leftarrow> parse_expression r (p\<lparr>ps_call_depth := 0\<rparr>);
        Some (ps_consume TOK_RPAREN ''expected ')' after expression'' (p\<lparr>ps_call_depth := saved_depth\<rparr>))
      })"

section \<open>Infix forms\<close>

text \<open>Operators with one opcode.\<close>

definition binary_opcode :: "token_type \<Rightarrow> nat option" where
  "binary_opcode t =
     (case t of
        TOK_PLUS \<Rightarrow> Some OP_ADD | TOK_MINUS \<Rightarrow> Some OP_SUB | TOK_STAR \<Rightarrow> Some OP_MUL | TOK_SLASH \<Rightarrow> Some OP_DIV
      | TOK_PERCENT \<Rightarrow> Some OP_MOD | TOK_CARET \<Rightarrow> Some OP_POW | TOK_AMP \<Rightarrow> Some OP_BIT_AND | TOK_BITOR \<Rightarrow> Some OP_BIT_OR
      | TOK_BITXOR \<Rightarrow> Some OP_BIT_XOR | TOK_LSHIFT \<Rightarrow> Some OP_LSHIFT | TOK_RSHIFT \<Rightarrow> Some OP_RSHIFT
      | TOK_RANGE_ASC \<Rightarrow> Some OP_RANGE_ASC | TOK_RANGE_DESC \<Rightarrow> Some OP_RANGE_DESC
      | _ \<Rightarrow> None)"

definition emit_if :: "bool \<Rightarrow> nat \<Rightarrow> cando_parser \<Rightarrow> cando_parser option" where
  "emit_if b op p = (if b then emit_op op p else Some p)"

definition fresh_flags :: "cando_parser \<Rightarrow> cando_parser" where
  "fresh_flags p = p\<lparr>ps_last_multi_push := 1, ps_last_expr_was_call := False, ps_last_expr_was_unpack := False\<rparr>"

definition truncate_call :: "cando_parser \<Rightarrow> cando_parser option" where
  "truncate_call p = emit_if (ps_last_expr_was_call p \<and> \<not> ps_last_expr_was_unpack p) OP_TRUNCATE_RET p"

text \<open>One more value of a comma list on the right of a comparison.\<close>

definition cmp_value :: "parse_rec \<Rightarrow> nat \<Rightarrow> nat \<times> cando_parser \<Rightarrow> (nat \<times> cando_parser) option" where
  "cmp_value r next s =
     (case s of (n, p) \<Rightarrow>
        do {
          p \<leftarrow> rec_precedence r next (fresh_flags (ps_advance p));
          p \<leftarrow> truncate_call p;
          Some (u16 (n + ps_last_multi_push p), p)
        })"

definition cmp_list :: "parse_rec \<Rightarrow> nat \<Rightarrow> nat \<Rightarrow> bool \<Rightarrow> nat \<Rightarrow> cando_parser \<Rightarrow> cando_parser option" where
  "cmp_list r next stack_op was_call mpush p =
     do {
       let n = (if mpush > 1 then u16 mpush else 1);
       p \<leftarrow> emit_if (n = 1 \<and> was_call) OP_TRUNCATE_RET p;
       (n, p) \<leftarrow> loop_while (rec_fuel r) (\<lambda>(n, p). ps_check TOK_COMMA p) (cmp_value r next) (n, p);
       emit_op_a stack_op n p
     }"

text \<open>The macro \<open>MULTI_CMP\<close>.\<close>

definition multi_cmp :: "parse_rec \<Rightarrow> nat \<Rightarrow> nat \<Rightarrow> nat \<Rightarrow> nat \<Rightarrow> cando_parser \<Rightarrow> cando_parser option" where
  "multi_cmp r next plain_op stack_op spread_op p =
     (let was_call = ps_last_expr_was_call p;
          was_unpack = ps_last_expr_was_unpack p;
          mpush = ps_last_multi_push p;
          p = p\<lparr>ps_last_expr_was_unpack := False\<rparr>;
          in_list = (ps_call_depth p = 0 \<and> ps_check TOK_COMMA p)
      in if was_unpack then emit_op spread_op p
         else if mpush > 1 \<and> \<not> in_list then emit_op_a stack_op (u16 mpush) p
         else if in_list then cmp_list r next stack_op was_call mpush p
         else do { p \<leftarrow> emit_if was_call OP_TRUNCATE_RET p; emit_op plain_op p })"

text \<open>\<open>>\<close> and \<open>>=\<close>: a \<open><\<close> or \<open><=\<close> that follows makes a range check.\<close>

definition range_or_cmp :: "parse_rec \<Rightarrow> nat \<Rightarrow> token_type \<Rightarrow> cando_parser \<Rightarrow> cando_parser option" where
  "range_or_cmp r next op p =
     (let was_call = ps_last_expr_was_call p;
          was_unpack = ps_last_expr_was_unpack p;
          mpush = ps_last_multi_push p;
          p = p\<lparr>ps_last_expr_was_unpack := False\<rparr>;
          plain_op = (if op = TOK_GT then OP_GT else OP_GEQ);
          stack_op = (if op = TOK_GT then OP_GT_STACK else OP_GEQ_STACK);
          spread_op = (if op = TOK_GT then OP_GT_SPREAD else OP_GEQ_SPREAD);
          right_tok = tk_type (ps_current p);
          in_list = (ps_call_depth p = 0 \<and> right_tok = TOK_COMMA)
      in if right_tok = TOK_LT \<or> right_tok = TOK_LEQ then do {
           p \<leftarrow> emit_if (was_call \<and> \<not> was_unpack) OP_TRUNCATE_RET p;
           p \<leftarrow> rec_precedence r (PREC_COMPARISON + 1) (fresh_flags (ps_advance p));
           p \<leftarrow> truncate_call p;
           emit_op_a OP_RANGE_CHECK ((if op = TOK_GEQ then 1 else 0) + (if right_tok = TOK_LEQ then 2 else 0)) p
         }
         else if was_unpack then emit_op spread_op p
         else if mpush > 1 \<and> \<not> in_list then emit_op_a stack_op (u16 mpush) p
         else if in_list then cmp_list r next stack_op was_call mpush p
         else do {
           p \<leftarrow> emit_if was_call OP_TRUNCATE_RET p;
           p \<leftarrow> emit_op plain_op p;
           Some (if right_tok \<in> {TOK_LT, TOK_GT, TOK_LEQ, TOK_GEQ}
                 then ps_error_current ''cannot chain comparison operators; use && to combine'' p else p)
         })"

definition parse_binary :: "parse_rec \<Rightarrow> cando_parser \<Rightarrow> cando_parser option" where
  "parse_binary r p =
     do {
       let op = tk_type (ps_previous p);
       let next = (if op = TOK_CARET then rule_precedence op else rule_precedence op + 1);
       p \<leftarrow> rec_precedence r next (p\<lparr>ps_last_multi_push := 1, ps_last_expr_was_unpack := False\<rparr>);
       p \<leftarrow> (case binary_opcode op of
              Some opcode \<Rightarrow> emit_op opcode p
            | None \<Rightarrow>
                if op = TOK_EQ then multi_cmp r next OP_EQ OP_EQ_STACK OP_EQ_SPREAD p
                else if op = TOK_NEQ then multi_cmp r next OP_NEQ OP_NEQ_STACK OP_NEQ_SPREAD p
                else if op = TOK_LT then multi_cmp r next OP_LT OP_LT_STACK OP_LT_SPREAD p
                else if op = TOK_LEQ then multi_cmp r next OP_LEQ OP_LEQ_STACK OP_LEQ_SPREAD p
                else if op = TOK_GT \<or> op = TOK_GEQ then range_or_cmp r next op p
                else Some p);
       Some (p\<lparr>ps_last_expr_was_call := False, ps_last_expr_was_unpack := False\<rparr>)
     }"

definition parse_and :: "parse_rec \<Rightarrow> cando_parser \<Rightarrow> cando_parser option" where
  "parse_and r p =
     do {
       (end_jump, p) \<leftarrow> emit_jump OP_AND_JUMP p;
       p \<leftarrow> emit_op OP_POP p;
       p \<leftarrow> rec_precedence r PREC_AND p;
       patch_jump end_jump p
     }"

definition parse_or :: "parse_rec \<Rightarrow> cando_parser \<Rightarrow> cando_parser option" where
  "parse_or r p =
     do {
       (end_jump, p) \<leftarrow> emit_jump OP_OR_JUMP p;
       p \<leftarrow> emit_op OP_POP p;
       p \<leftarrow> rec_precedence r PREC_OR p;
       patch_jump end_jump p
     }"

text \<open>The tokens from \<open>TOK_IF\<close> to \<open>TOK_PIPE_KW\<close>.\<close>

definition is_keyword_token :: "token_type \<Rightarrow> bool" where
  "is_keyword_token t \<longleftrightarrow>
     t \<in> {TOK_IF, TOK_ELSE, TOK_WHILE, TOK_FOR, TOK_FUNCTION, TOK_CLASS, TOK_RETURN, TOK_THROW, TOK_TRY, TOK_CATCH,
          TOK_FINALY, TOK_CONST, TOK_VAR, TOK_GLOBAL, TOK_STATIC, TOK_PRIVATE, TOK_ASYNC, TOK_AWAIT, TOK_THREAD,
          TOK_NULL_KW, TOK_TRUE_KW, TOK_FALSE_KW, TOK_IN, TOK_OF, TOK_OVER, TOK_CONTINUE, TOK_BREAK, TOK_PIPE_KW}"

definition quoted :: "string \<Rightarrow> string" where
  "quoted s = [CHR 0x27] @ s @ [CHR 0x27]"

definition parse_dot :: "parse_rec \<Rightarrow> bool \<Rightarrow> cando_parser \<Rightarrow> cando_parser option" where
  "parse_dot r can_assign p =
     (if \<not> ps_check TOK_IDENT p \<and> \<not> is_keyword_token (tk_type (ps_current p))
      then Some (ps_error_current (''expected property name after '' @ quoted ''.'') p)
      else do {
        (idx, p) \<leftarrow> prev_name_const (ps_advance p);
        if can_assign \<and> ps_check TOK_ASSIGN p
        then do { p \<leftarrow> parse_expression r (ps_advance p); emit_op_a OP_SET_FIELD idx p }
        else emit_op_a OP_GET_FIELD idx p
      })"

definition parse_subscript :: "parse_rec \<Rightarrow> bool \<Rightarrow> cando_parser \<Rightarrow> cando_parser option" where
  "parse_subscript r can_assign p =
     do {
       p \<leftarrow> parse_expression r p;
       let p = ps_consume TOK_RBRACKET ''expected ']' after index'' p;
       if can_assign \<and> ps_check TOK_ASSIGN p
       then do { p \<leftarrow> parse_expression r (ps_advance p); emit_op OP_SET_INDEX p }
       else emit_op OP_GET_INDEX p
     }"

definition call_argument :: "parse_rec \<Rightarrow> nat \<Rightarrow> cando_parser \<Rightarrow> (bool \<times> nat \<times> cando_parser) option" where
  "call_argument r argc p =
     (if ps_check TOK_RPAREN p then Some (False, argc, p)
      else do {
        p \<leftarrow> parse_expression r (fresh_flags p);
        if ps_last_expr_was_call p then do {
          p \<leftarrow> emit_op OP_SPREAD_RET p;
          if argc = 0xFFFF then Some (False, argc, ps_error ''too many arguments'' p) else Some (True, argc + 1, p)
        } else
          let add = u16 (ps_last_multi_push p)
          in if argc + add > 0xFFFF then Some (False, argc, ps_error ''too many arguments'' p)
             else Some (True, argc + add, p)
      })"

definition parse_call :: "parse_rec \<Rightarrow> cando_parser \<Rightarrow> cando_parser option" where
  "parse_call r p =
     do {
       (argc, p) \<leftarrow> nested_list r TOK_RPAREN (call_argument r) 0 p;
       p \<leftarrow> emit_op_a OP_CALL argc (ps_consume TOK_RPAREN ''expected ')' after arguments'' p);
       Some (p\<lparr>ps_last_expr_was_call := True\<rparr>)
     }"

text \<open>An argument of a method is one value, or the results of one call.\<close>

definition method_argument :: "parse_rec \<Rightarrow> nat \<Rightarrow> cando_parser \<Rightarrow> (bool \<times> nat \<times> cando_parser) option" where
  "method_argument r argc p =
     (if ps_check TOK_RPAREN p then Some (False, argc, p)
      else do {
        p \<leftarrow> parse_expression r (p\<lparr>ps_last_expr_was_call := False, ps_last_expr_was_unpack := False\<rparr>);
        p \<leftarrow> emit_if (ps_last_expr_was_call p) OP_SPREAD_RET p;
        if argc = 0xFFFF then Some (False, argc, ps_error ''too many arguments'' p) else Some (True, argc + 1, p)
      })"

definition parse_fluent :: "parse_rec \<Rightarrow> cando_parser \<Rightarrow> cando_parser option" where
  "parse_fluent r p =
     do {
       (name_idx, p) \<leftarrow> prev_name_const (ps_consume TOK_IDENT (''expected method name after '' @ quoted ''::'') p);
       let p = ps_consume TOK_LPAREN ''expected '(' after fluent method name'' p;
       (argc, p) \<leftarrow> nested_list r TOK_RPAREN (method_argument r) 0 p;
       p \<leftarrow> emit_op_ab OP_FLUENT_CALL name_idx argc (ps_consume TOK_RPAREN ''expected ')' after fluent arguments'' p);
       Some (p\<lparr>ps_last_expr_was_call := True\<rparr>)
     }"

definition parse_method_call :: "parse_rec \<Rightarrow> cando_parser \<Rightarrow> cando_parser option" where
  "parse_method_call r p =
     do {
       (name_idx, p) \<leftarrow> prev_name_const (ps_consume TOK_IDENT (''expected method name after '' @ quoted '':'') p);
       let p = ps_consume TOK_LPAREN ''expected '(' after method name'' p;
       (argc, p) \<leftarrow> nested_list r TOK_RPAREN (method_argument r) 0 p;
       p \<leftarrow> emit_op_ab OP_METHOD_CALL name_idx argc (ps_consume TOK_RPAREN ''expected ')' after method arguments'' p);
       Some (p\<lparr>ps_last_expr_was_call := True\<rparr>)
     }"

section \<open>Pipes\<close>

text \<open>The block of a pipe: a \<open>return\<close> inside leaves through one of the recorded jumps. The outer count is restored
  afterwards, the array of positions is not.\<close>

definition pipe_block :: "parse_rec \<Rightarrow> cando_parser \<Rightarrow> cando_parser option" where
  "pipe_block r p =
     do {
       let saved_in_pipe = ps_in_pipe_body p;
       let saved_exit_count = ps_pipe_exit_count p;
       p \<leftarrow> parse_block r (p\<lparr>ps_in_pipe_body := True, ps_pipe_exit_count := 0\<rparr>);
       p \<leftarrow> emit_op OP_NULL p;
       p \<leftarrow> mfold (\<lambda>p pos. patch_jump pos p) (take (ps_pipe_exit_count p) (ps_pipe_exits p)) p;
       Some (p\<lparr>ps_in_pipe_body := saved_in_pipe, ps_pipe_exit_count := saved_exit_count\<rparr>)
     }"

definition pipe_loop :: "parse_rec \<Rightarrow> nat \<Rightarrow> nat \<Rightarrow> cando_parser \<Rightarrow> cando_parser option" where
  "pipe_loop r next_op collect_op p =
     do {
       p \<leftarrow> emit_op_a OP_PIPE_INIT 1 p;
       p \<leftarrow> emit_op OP_NULL (scope_begin p);
       let (pipe_slot, p) = declare_local ''pipe'' False p;
       p \<leftarrow> emit_op_a OP_DEF_LOCAL (u16 pipe_slot) p;
       let loop_start = code_len p;
       (exit_jump, p) \<leftarrow> emit_jump next_op p;
       p \<leftarrow> emit_op_a OP_DEF_LOCAL (u16 pipe_slot) p;
       p \<leftarrow> (if ps_check TOK_LBRACE p then pipe_block r (ps_advance p) else parse_expression r p);
       p \<leftarrow> emit_op collect_op p;
       p \<leftarrow> emit_loop loop_start p;
       p \<leftarrow> patch_jump exit_jump p;
       emit_op OP_PIPE_END (scope_end p)
     }"

definition parse_pipe_op :: "parse_rec \<Rightarrow> cando_parser \<Rightarrow> cando_parser option" where
  "parse_pipe_op r p = pipe_loop r OP_PIPE_NEXT OP_PIPE_COLLECT p"

definition parse_filter_op :: "parse_rec \<Rightarrow> cando_parser \<Rightarrow> cando_parser option" where
  "parse_filter_op r p = pipe_loop r OP_FILTER_NEXT OP_FILTER_COLLECT p"

section \<open>Functions and threads\<close>

text \<open>A jump over the body; the body with a scope of its own; the constant that holds where the body starts.\<close>

definition function_body :: "parse_rec \<Rightarrow> string list \<Rightarrow> cando_parser \<Rightarrow> (nat \<times> cando_parser) option" where
  "function_body r params p =
     do {
       (skip_body, p) \<leftarrow> emit_jump OP_JUMP p;
       let fn_start = code_len p;
       let saved_locals = ps_locals p;
       let saved_depth = ps_scope_depth p;
       let p = p\<lparr>ps_locals := [], ps_scope_depth := 1\<rparr>;
       let p = fold (\<lambda>name p. snd (declare_local name False p)) ([] # params) p;
       p \<leftarrow> parse_block r p;
       p \<leftarrow> emit_op OP_NULL p;
       p \<leftarrow> emit_op_a OP_RETURN 1 p;
       p \<leftarrow> patch_jump skip_body (p\<lparr>ps_locals := saved_locals, ps_scope_depth := saved_depth\<rparr>);
       num_const (f64_of_nat fn_start) p
     }"

text \<open>Parameter names up to the closing parenthesis or \<open>...\<close>; a 65th name is an error that ends the list, in a method
  it is dropped silently.\<close>

definition param_name :: "bool \<Rightarrow> string list \<Rightarrow> cando_parser \<Rightarrow> (bool \<times> string list \<times> cando_parser) option" where
  "param_name is_method params p =
     Some (if ps_check TOK_RPAREN p then (False, params, p)
           else if ps_check TOK_VARARG p then (False, params, ps_advance p)
           else let p = ps_consume TOK_IDENT ''expected parameter name'' p
                in if length params < 64 then (True, params @ [token_text p (ps_previous p)], p)
                   else if is_method then (True, params, p)
                   else (False, params, ps_error ''too many parameters'' p))"

definition param_list :: "parse_rec \<Rightarrow> bool \<Rightarrow> cando_parser \<Rightarrow> (string list \<times> cando_parser) option" where
  "param_list r is_method p =
     (if ps_check TOK_RPAREN p then Some ([], p) else comma_list (rec_fuel r) (param_name is_method) [] p)"

definition parse_function_expr :: "parse_rec \<Rightarrow> cando_parser \<Rightarrow> cando_parser option" where
  "parse_function_expr r p =
     do {
       (params, p) \<leftarrow> param_list r False (ps_consume TOK_LPAREN (''expected '(' after '' @ quoted ''function'') p);
       let p = ps_consume TOK_RPAREN ''expected ')' after parameters'' p;
       let p = ps_consume TOK_LBRACE ''expected '{' before function body'' p;
       (pc_idx, p) \<leftarrow> function_body r params p;
       p \<leftarrow> emit_op_a OP_CLOSURE pc_idx p;
       Some (fresh_flags p)
     }"

definition parse_thread_expr :: "parse_rec \<Rightarrow> cando_parser \<Rightarrow> cando_parser option" where
  "parse_thread_expr r p =
     (if ps_at [TOK_DOT, TOK_LBRACKET, TOK_LPAREN] p
      then do { (idx, p) \<leftarrow> str_const ''thread'' p; emit_op_a OP_LOAD_GLOBAL idx p }
      else do {
        (skip_body, p) \<leftarrow> emit_jump OP_JUMP p;
        let fn_start = code_len p;
        let p = snd (declare_local [] False (scope_begin p));
        let is_block = ps_check TOK_LBRACE p;
        p \<leftarrow> (if is_block then parse_block r (ps_advance p) else parse_expression r p);
        p \<leftarrow> emit_if is_block OP_NULL (scope_end p);
        p \<leftarrow> emit_op_a OP_RETURN 1 p;
        p \<leftarrow> patch_jump skip_body p;
        (pc_idx, p) \<leftarrow> num_const (f64_of_nat fn_start) p;
        p \<leftarrow> emit_op_a OP_CLOSURE pc_idx p;
        p \<leftarrow> emit_op OP_THREAD p;
        Some (p\<lparr>ps_last_expr_was_call := True\<rparr>)
      })"

definition parse_await_expr :: "parse_rec \<Rightarrow> cando_parser \<Rightarrow> cando_parser option" where
  "parse_await_expr r p =
     do {
       p \<leftarrow> rec_precedence r PREC_UNARY p;
       p \<leftarrow> emit_op OP_AWAIT p;
       Some (p\<lparr>ps_last_expr_was_call := True\<rparr>)
     }"

section \<open>The rules and the driver\<close>

definition prefix_rule :: "parse_rec \<Rightarrow> bool \<Rightarrow> token_type \<Rightarrow> (cando_parser \<Rightarrow> cando_parser option) option" where
  "prefix_rule r can_assign t =
     (if t = TOK_NUMBER then Some parse_number
      else if t \<in> {TOK_STRING_DQ, TOK_STRING_SQ, TOK_STRING_BT} then Some parse_string_literal
      else if t \<in> {TOK_IDENT, TOK_PIPE_KW} then Some (parse_variable_expr r can_assign)
      else if t \<in> {TOK_NULL_KW, TOK_TRUE_KW, TOK_FALSE_KW} then Some parse_literal
      else if t = TOK_LPAREN then Some (parse_grouping r)
      else if t = TOK_LBRACKET then Some (parse_array_literal r)
      else if t = TOK_LBRACE then Some (parse_object_literal r)
      else if t = TOK_FUNCTION then Some (parse_function_expr r)
      else if t = TOK_THREAD then Some (parse_thread_expr r)
      else if t = TOK_AWAIT then Some (parse_await_expr r)
      else if t \<in> {TOK_MINUS, TOK_BANG, TOK_HASH} then Some (parse_unary r)
      else if t = TOK_VARARG then Some (parse_unpack r)
      else None)"

definition infix_rule :: "parse_rec \<Rightarrow> bool \<Rightarrow> token_type \<Rightarrow> (cando_parser \<Rightarrow> cando_parser option) option" where
  "infix_rule r can_assign t =
     (if t = TOK_LPAREN then Some (parse_call r)
      else if t = TOK_LBRACKET then Some (parse_subscript r can_assign)
      else if t = TOK_DOT then Some (parse_dot r can_assign)
      else if t = TOK_FLUENT then Some (parse_fluent r)
      else if t = TOK_COLON then Some (parse_method_call r)
      else if t = TOK_AND then Some (parse_and r)
      else if t = TOK_OR then Some (parse_or r)
      else if t = TOK_PIPE_OP then Some (parse_pipe_op r)
      else if t = TOK_FILTER_OP then Some (parse_filter_op r)
      else if rule_precedence t \<noteq> PREC_NONE then Some (parse_binary r)
      else None)"

text \<open>The loop over the operators; every operator with a precedence has an infix form.\<close>

fun infix_loop :: "parse_rec \<Rightarrow> nat \<Rightarrow> bool \<Rightarrow> nat \<Rightarrow> cando_parser \<Rightarrow> cando_parser option" where
  "infix_loop r 0 can_assign min_prec p = None"
| "infix_loop r (Suc n) can_assign min_prec p =
     (if ps_check TOK_EOF p \<or> rule_precedence (tk_type (ps_current p)) < min_prec then Some p
      else let p = ps_advance p
           in case infix_rule r can_assign (tk_type (ps_previous p)) of
                None \<Rightarrow> Some p
              | Some f \<Rightarrow> do { p \<leftarrow> f p; infix_loop r n can_assign min_prec p })"

definition parse_precedence :: "parse_rec \<Rightarrow> nat \<Rightarrow> cando_parser \<Rightarrow> cando_parser option" where
  "parse_precedence r min_prec p =
     (let p = ps_advance (p\<lparr>ps_last_expr_was_call := False\<rparr>);
          can_assign = (min_prec \<le> PREC_ASSIGN)
      in case prefix_rule r can_assign (tk_type (ps_previous p)) of
           None \<Rightarrow> Some (ps_error ''expected expression'' p)
         | Some f \<Rightarrow> do {
             p \<leftarrow> f p;
             p \<leftarrow> infix_loop r (rec_fuel r) can_assign min_prec p;
             Some (if can_assign \<and> ps_check TOK_ASSIGN p then ps_error ''invalid assignment target'' (ps_advance p) else p)
           })"

end
