(* ===== verification/Parser_Stmt.thy ===== *)
theory Parser_Stmt
  imports Parser_Expr
begin

text \<open>
  The statement half of \<open>source/parser/parser.c\<close>: declarations, control flow, exception handling, functions and classes,
  the dispatcher with its error recovery, and the entry points \<open>cando_parser_init\<close> and \<open>cando_parse\<close>. The fuel of
  \<open>cando_parse\<close> bounds the depth of the recursion and the rounds of each loop; \<open>Parser_Total\<close> shows how much is enough.
\<close>

section \<open>Declarations\<close>

definition var_name :: "string list \<Rightarrow> cando_parser \<Rightarrow> (bool \<times> string list \<times> cando_parser) option" where
  "var_name vars p =
     (let p = ps_consume TOK_IDENT ''expected variable name'' p
      in Some (if 16 \<le> length vars then (False, vars, ps_error ''too many variables in declaration'' p)
               else (True, vars @ [token_text p (ps_previous p)], p)))"

definition var_value :: "parse_rec \<Rightarrow> nat \<Rightarrow> cando_parser \<Rightarrow> (bool \<times> nat \<times> cando_parser) option" where
  "var_value r count p =
     do {
       p \<leftarrow> parse_expression r (p\<lparr>ps_last_expr_was_call := False, ps_last_multi_push := 1\<rparr>);
       p \<leftarrow> emit_if (ps_last_expr_was_call p) OP_SPREAD_RET p;
       Some (True, count + ps_last_multi_push p, p)
     }"

fun emit_nulls :: "nat \<Rightarrow> cando_parser \<Rightarrow> cando_parser option" where
  "emit_nulls 0 p = Some p"
| "emit_nulls (Suc n) p = do { p \<leftarrow> emit_op OP_NULL p; emit_nulls n p }"

definition define_var :: "bool \<Rightarrow> cando_parser \<Rightarrow> string \<Rightarrow> cando_parser option" where
  "define_var is_const p name =
     (if 0 < ps_scope_depth p then
        (case declare_local name is_const p of
           (slot, p) \<Rightarrow> emit_op_a (if is_const then OP_DEF_CONST_LOCAL else OP_DEF_LOCAL) (u16 slot) p)
      else do {
        (name_idx, p) \<leftarrow> str_const name p;
        emit_op_a (if is_const then OP_DEF_CONST_GLOBAL else OP_DEF_GLOBAL) name_idx p
      })"

definition parse_var_decl :: "parse_rec \<Rightarrow> bool \<Rightarrow> cando_parser \<Rightarrow> cando_parser option" where
  "parse_var_decl r is_const p =
     do {
       (vars, p) \<leftarrow> comma_list (rec_fuel r) var_name [] p;
       p \<leftarrow> (if ps_check TOK_ASSIGN p then do {
              let p = ps_advance p;
              (count, p) \<leftarrow> comma_list (rec_fuel r) (var_value r) 0 (p\<lparr>ps_call_depth := ps_call_depth p + 1\<rparr>);
              let p = p\<lparr>ps_call_depth := ps_call_depth p - 1\<rparr>;
              if count < length vars \<and> \<not> ps_last_expr_was_call p then emit_nulls (length vars - count) p else Some p
            } else emit_nulls (length vars) p);
       mfold (define_var is_const) (rev vars) (ps_consume TOK_SEMI ''expected ';' after variable declaration'' p)
     }"

section \<open>Control flow\<close>

text \<open>A block with a scope of its own.\<close>

definition scoped_block :: "parse_rec \<Rightarrow> cando_parser \<Rightarrow> cando_parser option" where
  "scoped_block r p = do { p \<leftarrow> parse_block r (scope_begin p); Some (scope_end p) }"

definition parse_if :: "parse_rec \<Rightarrow> cando_parser \<Rightarrow> cando_parser option" where
  "parse_if r p =
     do {
       p \<leftarrow> parse_expression r p;
       (then_jump, p) \<leftarrow> emit_jump OP_JUMP_IF_FALSE (ps_consume TOK_LBRACE ''expected '{' after IF condition'' p);
       p \<leftarrow> emit_op OP_POP p;
       p \<leftarrow> scoped_block r p;
       (else_jump, p) \<leftarrow> emit_jump OP_JUMP p;
       p \<leftarrow> patch_jump then_jump p;
       p \<leftarrow> emit_op OP_POP p;
       p \<leftarrow> (if ps_check TOK_ELSE p then
               let p = ps_advance p
               in if ps_check TOK_IF p then rec_if r (ps_advance p)
                  else scoped_block r (ps_consume TOK_LBRACE ''expected '{' after ELSE'' p)
             else Some p);
       patch_jump else_jump p
     }"

definition parse_while :: "parse_rec \<Rightarrow> cando_parser \<Rightarrow> cando_parser option" where
  "parse_while r p =
     do {
       let loop_start = code_len p;
       p \<leftarrow> parse_expression r p;
       (exit_jump, p) \<leftarrow> emit_jump OP_JUMP_IF_FALSE (ps_consume TOK_LBRACE ''expected '{' after WHILE condition'' p);
       p \<leftarrow> emit_op OP_POP p;
       (mark_patch, p) \<leftarrow> emit_loop_mark loop_start LOOP_WHILE p;
       p \<leftarrow> scoped_block r p;
       p \<leftarrow> emit_op OP_LOOP_END p;
       p \<leftarrow> emit_loop loop_start p;
       p \<leftarrow> patch_jump exit_jump p;
       p \<leftarrow> emit_op OP_POP p;
       patch_loop_mark_break mark_patch p
     }"

definition loop_var :: "string list \<Rightarrow> cando_parser \<Rightarrow> (bool \<times> string list \<times> cando_parser) option" where
  "loop_var vars p =
     (let p = ps_consume TOK_IDENT ''expected loop variable name'' p
      in Some (if length vars < 16 then (True, vars @ [token_text p (ps_previous p)], p)
               else (True, vars, ps_error ''too many loop variables'' p)))"

text \<open>The values of an \<open>OVER\<close> loop: at most until three; whether the last was a call.\<close>

definition over_value :: "parse_rec \<Rightarrow> nat \<times> bool \<Rightarrow> cando_parser \<Rightarrow> (bool \<times> (nat \<times> bool) \<times> cando_parser) option" where
  "over_value r st p =
     (case st of (count, _) \<Rightarrow>
        do {
          p \<leftarrow> parse_expression r (p\<lparr>ps_last_expr_was_call := False, ps_last_multi_push := 1\<rparr>);
          let was_call = ps_last_expr_was_call p;
          p \<leftarrow> emit_if was_call OP_SPREAD_RET p;
          let count = count + ps_last_multi_push p;
          Some (count < 3, (count, was_call), p)
        })"

definition bind_local :: "cando_parser \<Rightarrow> string \<Rightarrow> cando_parser option" where
  "bind_local p name = (case declare_local name False p of (slot, p) \<Rightarrow> emit_op_a OP_DEF_LOCAL (u16 slot) p)"

text \<open>From the instruction that fetches the next value to the end of the loop.\<close>

definition for_body :: "parse_rec \<Rightarrow> nat \<Rightarrow> nat \<Rightarrow> string list \<Rightarrow> cando_parser \<Rightarrow> cando_parser option" where
  "for_body r next_op loop_type names p =
     do {
       let loop_start = code_len p;
       (exit_jump, p) \<leftarrow> emit_jump next_op p;
       p \<leftarrow> mfold bind_local names (scope_begin p);
       (mark_patch, p) \<leftarrow> emit_loop_mark loop_start loop_type p;
       p \<leftarrow> parse_block r p;
       p \<leftarrow> emit_op OP_LOOP_END (scope_end p);
       p \<leftarrow> emit_loop loop_start p;
       p \<leftarrow> patch_jump exit_jump p;
       patch_loop_mark_break mark_patch p
     }"

definition for_over :: "parse_rec \<Rightarrow> string list \<Rightarrow> cando_parser \<Rightarrow> cando_parser option" where
  "for_over r vars p =
     do {
       ((expr_count, last_was_call), p) \<leftarrow>
         comma_list (rec_fuel r) (over_value r) (0, False) (p\<lparr>ps_call_depth := ps_call_depth p + 1\<rparr>);
       let p = p\<lparr>ps_call_depth := ps_call_depth p - 1\<rparr>;
       let b_val = expr_count mod 32768 + (if last_was_call then 32768 else 0);
       p \<leftarrow> emit_op_ab OP_FOR_OVER_INIT (u16 (length vars)) b_val (ps_consume TOK_LBRACE ''expected '{' after FOR iterable'' p);
       for_body r OP_FOR_OVER_NEXT LOOP_FOR_OVER (rev vars) p
     }"

text \<open>A range gives its values in both modes; it is recognised by the last byte of the code.\<close>

definition for_in_of :: "parse_rec \<Rightarrow> bool \<Rightarrow> string list \<Rightarrow> cando_parser \<Rightarrow> cando_parser option" where
  "for_in_of r keys_mode vars p =
     do {
       p \<leftarrow> parse_expression r p;
       let p = ps_consume TOK_LBRACE ''expected '{' after FOR iterable'' p;
       let code = ck_code (ps_chunk p);
       let keys_mode = (keys_mode \<and> \<not> (code \<noteq> [] \<and> unat (last code) \<in> {OP_RANGE_ASC, OP_RANGE_DESC}));
       p \<leftarrow> emit_op_a OP_FOR_INIT (if keys_mode then 1 else 0) p;
       for_body r OP_FOR_NEXT LOOP_FOR (take 1 vars) p
     }"

definition parse_for :: "parse_rec \<Rightarrow> cando_parser \<Rightarrow> cando_parser option" where
  "parse_for r p =
     do {
       (vars, p) \<leftarrow> comma_list (rec_fuel r) loop_var [] p;
       let single = (\<lambda>p. if 1 < length vars
                         then ps_error (''only '' @ quoted ''over'' @ '' loops support multiple loop variables'') p else p);
       if ps_check TOK_IN p then for_in_of r True vars (single (ps_advance p))
       else if ps_check TOK_OF p then for_in_of r False vars (single (ps_advance p))
       else if ps_check TOK_OVER p then for_over r vars (ps_advance p)
       else Some (ps_error_current ''expected IN, OF, or OVER after loop variable(s)'' p)
     }"

section \<open>Exceptions\<close>

text \<open>The names after the first; a ninth is an error that ends the list.\<close>

fun catch_names :: "nat \<Rightarrow> string list \<Rightarrow> cando_parser \<Rightarrow> (string list \<times> cando_parser) option" where
  "catch_names 0 names p = None"
| "catch_names (Suc n) names p =
     (if ps_check TOK_COMMA p then
        let p = ps_advance p
        in if 8 \<le> length names then Some (names, ps_error ''too many catch parameters'' p)
           else let p = ps_consume TOK_IDENT ''expected catch variable name'' p
                in catch_names n (names @ [token_text p (ps_previous p)]) p
      else Some (names, p))"

definition parse_try :: "parse_rec \<Rightarrow> cando_parser \<Rightarrow> cando_parser option" where
  "parse_try r p =
     do {
       (handler_jump, p) \<leftarrow> emit_jump OP_TRY_BEGIN (ps_consume TOK_LBRACE ''expected '{' after TRY'' p);
       p \<leftarrow> scoped_block r p;
       p \<leftarrow> emit_op OP_TRY_END p;
       (skip_catch, p) \<leftarrow> emit_jump OP_JUMP p;
       p \<leftarrow> patch_jump handler_jump p;
       let p = ps_consume TOK_CATCH ''expected CATCH after TRY block'' p;
       let p = ps_consume TOK_LPAREN ''expected '(' after CATCH'' p;
       let p = ps_consume TOK_IDENT ''expected catch variable name'' p;
       (names, p) \<leftarrow> catch_names (rec_fuel r) [token_text p (ps_previous p)] p;
       let p = ps_consume TOK_RPAREN ''expected ')' after catch parameter(s)'' p;
       let p = ps_consume TOK_LBRACE ''expected '{' after CATCH(...)'' p;
       p \<leftarrow> emit_op_a OP_CATCH_BEGIN (length names) (scope_begin p);
       p \<leftarrow> mfold bind_local names p;
       p \<leftarrow> parse_block r p;
       p \<leftarrow> patch_jump skip_catch (scope_end p);
       if ps_check TOK_FINALY p then scoped_block r (ps_consume TOK_LBRACE ''expected '{' after FINALY'' (ps_advance p))
       else Some p
     }"

section \<open>Functions and classes\<close>

definition parse_function :: "parse_rec \<Rightarrow> cando_parser \<Rightarrow> cando_parser option" where
  "parse_function r p =
     do {
       let p = ps_consume TOK_IDENT ''expected function name'' p;
       let fn_name = token_text p (ps_previous p);
       (params, p) \<leftarrow> param_list r False (ps_consume TOK_LPAREN ''expected '(' after function name'' p);
       let p = ps_consume TOK_RPAREN ''expected ')' after parameters'' p;
       let p = ps_consume TOK_LBRACE ''expected '{' before function body'' p;
       (pc_idx, p) \<leftarrow> function_body r params p;
       p \<leftarrow> emit_op_a OP_CLOSURE pc_idx p;
       (name_idx, p) \<leftarrow> str_const fn_name p;
       emit_op_a OP_DEF_GLOBAL name_idx p
     }"

text \<open>Parentheses after the class name are skipped up to the matching one.\<close>

definition skip_parens :: "parse_rec \<Rightarrow> cando_parser \<Rightarrow> cando_parser option" where
  "skip_parens r p =
     map_option snd (loop_while (rec_fuel r) (\<lambda>(depth, p). \<not> ps_check TOK_EOF p \<and> 0 < depth)
       (\<lambda>(depth, p). Some (if ps_check TOK_LPAREN p then depth + 1 else if ps_check TOK_RPAREN p then depth - 1 else depth,
                           ps_advance p))
       (1::nat, p))"

definition class_method :: "parse_rec \<Rightarrow> cando_parser \<Rightarrow> cando_parser option" where
  "class_method r p =
     do {
       (meth_idx, p) \<leftarrow> prev_name_const (ps_consume TOK_IDENT ''expected method name'' p);
       (params, p) \<leftarrow> param_list r True (ps_consume TOK_LPAREN ''expected '(' after method name'' p);
       let p = ps_consume TOK_RPAREN ''expected ')' after method parameters'' p;
       let p = ps_consume TOK_LBRACE ''expected '{' before method body'' p;
       (pc_idx, p) \<leftarrow> function_body r params p;
       p \<leftarrow> emit_op_a OP_CONST pc_idx p;
       emit_op_a OP_BIND_METHOD meth_idx p
     }"

definition class_member :: "parse_rec \<Rightarrow> cando_parser \<Rightarrow> cando_parser option" where
  "class_member r p =
     (let p = ps_match TOK_PRIVATE (ps_match TOK_STATIC p)
      in if ps_check TOK_FUNCTION p then class_method r (ps_advance p) else Some (ps_advance p))"

definition parse_class :: "parse_rec \<Rightarrow> cando_parser \<Rightarrow> cando_parser option" where
  "parse_class r p =
     do {
       (name_idx, p) \<leftarrow> prev_name_const (ps_consume TOK_IDENT ''expected class name'' p);
       p \<leftarrow> (if ps_check TOK_LPAREN p then skip_parens r (ps_advance p) else Some p);
       p \<leftarrow> emit_op_a OP_NEW_CLASS name_idx (ps_consume TOK_LBRACE ''expected '{' before class body'' p);
       p \<leftarrow> loop_while (rec_fuel r) (\<lambda>p. \<not> ps_at [TOK_RBRACE, TOK_EOF] p) (class_member r) p;
       emit_op_a OP_DEF_GLOBAL name_idx (ps_consume TOK_RBRACE ''expected '}' after class body'' p)
     }"

section \<open>Leaving\<close>

text \<open>A value of \<open>return\<close> or \<open>throw\<close>; the 16-bit count may wrap.\<close>

definition listed_value :: "parse_rec \<Rightarrow> nat \<Rightarrow> cando_parser \<Rightarrow> (bool \<times> nat \<times> cando_parser) option" where
  "listed_value r count p = do { p \<leftarrow> parse_expression r p; Some (True, u16 (count + 1), p) }"

definition value_list :: "parse_rec \<Rightarrow> cando_parser \<Rightarrow> (nat \<times> cando_parser) option" where
  "value_list r p =
     do {
       (count, p) \<leftarrow> comma_list (rec_fuel r) (listed_value r) 0 (p\<lparr>ps_call_depth := ps_call_depth p + 1\<rparr>);
       Some (count, p\<lparr>ps_call_depth := ps_call_depth p - 1\<rparr>)
     }"

definition parse_return :: "parse_rec \<Rightarrow> cando_parser \<Rightarrow> cando_parser option" where
  "parse_return r p =
     (let no_value = ps_at [TOK_SEMI, TOK_RBRACE, TOK_EOF] p
      in if ps_in_pipe_body p then do {
           p \<leftarrow> (if no_value then emit_op OP_NULL p else parse_expression r p);
           let p = ps_match TOK_SEMI p;
           let n = ps_pipe_exit_count p;
           if n < PIPE_EXITS_MAX then do {
             (pos, p) \<leftarrow> emit_jump OP_JUMP p;
             Some (p\<lparr>ps_pipe_exits := (ps_pipe_exits p)[n := pos], ps_pipe_exit_count := n + 1\<rparr>)
           } else Some (ps_error ''too many return statements in pipe body (max 16)'' p)
         }
         else if no_value then do { p \<leftarrow> emit_op OP_NULL p; emit_op_a OP_RETURN 1 (ps_match TOK_SEMI p) }
         else do { (count, p) \<leftarrow> value_list r p; emit_op_a OP_RETURN count (ps_match TOK_SEMI p) })"

definition parse_throw :: "parse_rec \<Rightarrow> cando_parser \<Rightarrow> cando_parser option" where
  "parse_throw r p =
     do {
       (count, p) \<leftarrow> value_list r p;
       emit_op_a OP_THROW count (ps_consume TOK_SEMI ''expected ';' after THROW'' p)
     }"

definition parse_break :: "cando_parser \<Rightarrow> cando_parser option" where
  "parse_break p = emit_op_a OP_BREAK 0 (ps_match TOK_SEMI p)"

definition parse_continue :: "cando_parser \<Rightarrow> cando_parser option" where
  "parse_continue p = emit_op_a OP_CONTINUE 0 (ps_match TOK_SEMI p)"

section \<open>Statements\<close>

text \<open>The end of an expression statement; at the end of an evaluated text the semicolon may be missing.\<close>

definition end_expr_stmt :: "cando_parser \<Rightarrow> cando_parser option" where
  "end_expr_stmt p =
     emit_op OP_POP (if ps_eval_mode p \<and> ps_check TOK_EOF p then p
                     else ps_consume TOK_SEMI ''expected ';' after expression'' p)"

definition parse_expr_stmt :: "parse_rec \<Rightarrow> cando_parser \<Rightarrow> cando_parser option" where
  "parse_expr_stmt r p = do { p \<leftarrow> parse_expression r p; end_expr_stmt p }"

definition synchronise :: "nat \<Rightarrow> cando_parser \<Rightarrow> cando_parser option" where
  "synchronise n p =
     loop_while n
       (\<lambda>p. \<not> ps_check TOK_EOF p \<and> tk_type (ps_previous p) \<noteq> TOK_SEMI \<and>
            \<not> ps_at [TOK_IF, TOK_WHILE, TOK_FOR, TOK_FUNCTION, TOK_CLASS, TOK_VAR, TOK_CONST, TOK_RETURN, TOK_THROW,
                     TOK_TRY, TOK_THREAD] p)
       (\<lambda>p. Some (ps_advance p)) (p\<lparr>ps_panic_mode := False\<rparr>)"

text \<open>The choice of the statement by its first token; the flag is \<open>True\<close> for an expression statement.\<close>

definition statement_body :: "parse_rec \<Rightarrow> cando_parser \<Rightarrow> (bool \<times> cando_parser) option" where
  "statement_body r p =
     (let stmt = map_option (Pair False); next = ps_advance p
      in if ps_check TOK_VAR p then stmt (parse_var_decl r False next)
         else if ps_check TOK_CONST p then stmt (parse_var_decl r True next)
         else if ps_check TOK_IF p then stmt (parse_if r next)
         else if ps_check TOK_WHILE p then stmt (parse_while r next)
         else if ps_check TOK_FOR p then stmt (parse_for r next)
         else if ps_check TOK_TRY p then stmt (parse_try r next)
         else if ps_check TOK_FUNCTION p then
           (if ps_check TOK_LPAREN next
            then map_option (Pair True) (do { p \<leftarrow> parse_function_expr r next; end_expr_stmt p })
            else stmt (parse_function r next))
         else if ps_check TOK_CLASS p then stmt (parse_class r next)
         else if ps_check TOK_RETURN p then stmt (parse_return r next)
         else if ps_check TOK_THROW p then stmt (parse_throw r next)
         else if ps_check TOK_BREAK p then stmt (parse_break next)
         else if ps_check TOK_CONTINUE p then stmt (parse_continue next)
         else if ps_check TOK_LBRACE p then stmt (scoped_block r next)
         else if ps_check TOK_SEMI p then stmt (Some next)
         else map_option (Pair True) (parse_expr_stmt r p))"

definition parse_statement :: "parse_rec \<Rightarrow> cando_parser \<Rightarrow> cando_parser option" where
  "parse_statement r p =
     do {
       (this_was_expr, p) \<leftarrow> statement_body r (p\<lparr>ps_last_stmt_was_expr := False\<rparr>);
       let p = p\<lparr>ps_last_stmt_was_expr := this_was_expr\<rparr>;
       if ps_panic_mode p then synchronise (rec_fuel r) p else Some p
     }"

section \<open>Tying the recursion\<close>

primrec parse_calls :: "nat \<Rightarrow> parse_rec" where
  "parse_calls 0 =
     \<lparr>rec_precedence = \<lambda>_ _. None, rec_statement = \<lambda>_. None, rec_if = \<lambda>_. None, rec_fuel = 0\<rparr>"
| "parse_calls (Suc n) =
     (let r = parse_calls n
      in \<lparr>rec_precedence = parse_precedence r, rec_statement = parse_statement r, rec_if = parse_if r, rec_fuel = Suc n\<rparr>)"

lemma parse_calls_fields [simp]:
  "rec_precedence (parse_calls (Suc n)) = parse_precedence (parse_calls n)"
  "rec_statement (parse_calls (Suc n)) = parse_statement (parse_calls n)"
  "rec_if (parse_calls (Suc n)) = parse_if (parse_calls n)" "rec_fuel (parse_calls (Suc n)) = Suc n"
  by (simp_all add: Let_def)

declare parse_calls.simps(2) [simp del]

section \<open>Entry points\<close>

text \<open>What is in the memory of the parser before: the token that is not yet there, the positions of pipe exits and the
  flag of pipe bodies are set or overwritten before they are read.\<close>

definition cando_parser_init :: "cando_parser \<Rightarrow> string \<Rightarrow> cando_chunk \<Rightarrow> cando_parser" where
  "cando_parser_init p0 source chunk =
     ps_advance (p0\<lparr>ps_lexer := cando_lexer_init source, ps_had_error := False, ps_panic_mode := False,
       ps_chunk := chunk, ps_locals := [], ps_scope_depth := 0, ps_last_expr_was_call := False,
       ps_last_expr_was_unpack := False, ps_call_depth := 0, ps_eval_mode := False, ps_last_stmt_was_expr := False,
       ps_in_pipe_body := False, ps_pipe_exit_count := 0, ps_last_multi_push := 1, ps_error_msg := [],
       ps_current := (ps_current p0)\<lparr>tk_type := TOK_EOF\<rparr>\<rparr>)"

text \<open>Removing the last byte, and its line, from the code.\<close>

definition strip_last :: "cando_parser \<Rightarrow> cando_parser" where
  "strip_last p = p\<lparr>ps_chunk := (ps_chunk p)\<lparr>ck_code := butlast (ck_code (ps_chunk p)),
                                             ck_lines := butlast (ck_lines (ps_chunk p))\<rparr>\<rparr>"

definition finish_code :: "cando_parser \<Rightarrow> cando_parser option" where
  "finish_code p =
     (let code = ck_code (ps_chunk p)
      in if \<not> ps_eval_mode p then emit_op OP_HALT p
         else if ps_last_stmt_was_expr p \<and> code \<noteq> [] \<and> unat (last code) = OP_POP
              then emit_op_a OP_RETURN 1 (strip_last p)
              else emit_op_a OP_RETURN 0 p)"

definition cando_parse :: "nat \<Rightarrow> cando_parser \<Rightarrow> (bool \<times> cando_parser) option" where
  "cando_parse n p =
     do {
       p \<leftarrow> loop_while n (\<lambda>p. \<not> ps_check TOK_EOF p) (rec_statement (parse_calls n)) p;
       p \<leftarrow> finish_code p;
       Some (\<not> ps_had_error p, p)
     }"

definition cando_parser_error :: "cando_parser \<Rightarrow> string option" where
  "cando_parser_error p = (if ps_had_error p then Some (ps_error_msg p) else None)"

end
