(* ===== verification/Parser_Safe.thy ===== *)
theory Parser_Safe
  imports Parser_Stmt
begin

text \<open>
  What the compiler keeps true while it emits: the code is a sequence of complete instructions with operands in range,
  positions that are still to be patched are operands of jumps, every string constant is live, and the code, the
  constants and the strings are paid for by the source that is left. Rules for the primitives; the parsing functions
  are in \<open>Parser_Total\<close>.
\<close>

section \<open>Instructions and the code they make up\<close>

text \<open>An opcode with its operands; those it does not have do not matter.\<close>

type_synonym instr = "nat \<times> nat \<times> nat"

definition instr_code :: "instr \<Rightarrow> byte list" where
  "instr_code i = (case i of (op, a, b) \<Rightarrow> instr_bytes op a b)"

definition const_ops :: "nat list" where
  "const_ops = [OP_CONST, OP_LOAD_GLOBAL, OP_STORE_GLOBAL, OP_DEF_GLOBAL, OP_DEF_CONST_GLOBAL, OP_GET_FIELD, OP_SET_FIELD,
     OP_CLOSURE, OP_METHOD_CALL, OP_FLUENT_CALL, OP_NEW_CLASS, OP_BIND_METHOD]"

definition local_ops :: "nat list" where
  "local_ops = [OP_LOAD_LOCAL, OP_STORE_LOCAL, OP_DEF_LOCAL, OP_DEF_CONST_LOCAL]"

definition instr_fits :: "cando_chunk \<Rightarrow> instr \<Rightarrow> bool" where
  "instr_fits c i = (case i of (op, a, b) \<Rightarrow>
     op < OP_COUNT \<and> a < 65536 \<and> b < 65536 \<and>
     (op \<in> set const_ops \<longrightarrow> a < length (ck_consts c)) \<and> (op \<in> set local_ops \<longrightarrow> a < ck_local_count c))"

definition offset :: "instr list \<Rightarrow> nat \<Rightarrow> nat" where
  "offset is k = length (concat (map instr_code (take k is)))"

text \<open>What a parsing function has to remember about the code: a 16-bit operand that it will patch, the start of an
  instruction, a constant, a number of local slots.\<close>

datatype mark = Operand nat | Boundary nat | Const nat | Locals nat

definition can_patch :: "nat \<Rightarrow> bool" where
  "can_patch op \<longleftrightarrow> cando_opcode_fmt op \<noteq> OPFMT_NONE \<and> op \<notin> set const_ops \<and> op \<notin> set local_ops"

definition mark_holds :: "instr list \<Rightarrow> cando_chunk \<Rightarrow> mark \<Rightarrow> bool" where
  "mark_holds is c m = (case m of
     Operand pos \<Rightarrow> \<exists>k < length is. pos = offset is k + 1 \<and> can_patch (fst (is ! k))
   | Boundary pos \<Rightarrow> \<exists>k \<le> length is. pos = offset is k
   | Const i \<Rightarrow> i < length (ck_consts c)
   | Locals n \<Rightarrow> n \<le> ck_local_count c)"

definition coded_as :: "instr list \<Rightarrow> mark set \<Rightarrow> cando_chunk \<Rightarrow> bool" where
  "coded_as is S c \<longleftrightarrow> ck_code c = concat (map instr_code is) \<and> (\<forall>i \<in> set is. instr_fits c i) \<and> (\<forall>m \<in> S. mark_holds is c m)"

definition coded :: "mark set \<Rightarrow> cando_chunk \<Rightarrow> bool" where
  "coded S c \<longleftrightarrow> (\<exists>is. coded_as is S c)"

lemma instr_code_length: "length (instr_code i) = cando_opcode_size (fst i)"
  by (simp add: instr_code_def instr_bytes_length split: prod.split)

lemma offset_append: "k \<le> length is \<Longrightarrow> offset (is @ js) k = offset is k"
  by (simp add: offset_def)

lemma offset_end: "coded_as is S c \<Longrightarrow> offset is (length is) = length (ck_code c)"
  by (simp add: offset_def coded_as_def)

lemma offset_le: "offset is k \<le> length (concat (map instr_code is))"
proof -
  have "concat (map instr_code is) = concat (map instr_code (take k is)) @ concat (map instr_code (drop k is))"
    by (simp flip: concat_append map_append)
  then show ?thesis by (simp add: offset_def)
qed

lemma coded_mono: "coded S c \<Longrightarrow> T \<subseteq> S \<Longrightarrow> coded T c"
  by (auto simp: coded_def coded_as_def)

lemma coded_boundary: "coded S c \<Longrightarrow> coded (insert (Boundary (length (ck_code c))) S) c"
proof (unfold coded_def, elim exE)
  fix "is" assume "coded_as is S c"
  then have "coded_as is (insert (Boundary (length (ck_code c))) S) c"
    using offset_end [of "is" S c] by (auto simp: coded_as_def mark_holds_def intro: exI [of _ "length is"])
  then show "\<exists>is. coded_as is (insert (Boundary (length (ck_code c))) S) c" ..
qed

lemma coded_const: "coded S c \<Longrightarrow> i < length (ck_consts c) \<Longrightarrow> coded (insert (Const i) S) c"
  by (auto simp: coded_def coded_as_def mark_holds_def)

lemma coded_locals: "coded S c \<Longrightarrow> n \<le> ck_local_count c \<Longrightarrow> coded (insert (Locals n) S) c"
  by (auto simp: coded_def coded_as_def mark_holds_def)

lemma coded_marks:
  assumes "coded S c"
  shows "Boundary pos \<in> S \<Longrightarrow> pos \<le> length (ck_code c)" "Const i \<in> S \<Longrightarrow> i < length (ck_consts c)"
    "Locals n \<in> S \<Longrightarrow> n \<le> ck_local_count c"
proof -
  obtain "is" where I: "coded_as is S c" using assms by (auto simp: coded_def)
  show "pos \<le> length (ck_code c)" if "Boundary pos \<in> S"
    using I that offset_le [of "is"] by (force simp: coded_as_def mark_holds_def)
  show "Const i \<in> S \<Longrightarrow> i < length (ck_consts c)" "Locals n \<in> S \<Longrightarrow> n \<le> ck_local_count c"
    using I by (auto simp: coded_as_def mark_holds_def)
qed

text \<open>More constants and more local slots do no harm.\<close>

lemma coded_grow:
  assumes "coded S c" "ck_code c' = ck_code c" "length (ck_consts c) \<le> length (ck_consts c')"
    "ck_local_count c \<le> ck_local_count c'"
  shows "coded S c'"
proof -
  obtain "is" where I: "coded_as is S c" using assms(1) by (auto simp: coded_def)
  have "mark_holds is c' m" if "mark_holds is c m" for m
    using that assms by (auto simp: mark_holds_def split: mark.splits)
  moreover have "instr_fits c' i" if "instr_fits c i" for i
    using that assms by (auto simp: instr_fits_def split: prod.splits)
  ultimately show ?thesis using I assms(2) by (auto simp: coded_def coded_as_def)
qed

text \<open>Emission: one more instruction, and its operand can be patched later.\<close>

lemma coded_append:
  assumes "coded S c" "instr_fits c (op, a, b)" "ck_code c' = ck_code c @ instr_bytes op a b" "ck_consts c' = ck_consts c"
    "ck_local_count c' = ck_local_count c"
  shows "coded ((if can_patch op then {Operand (length (ck_code c) + 1)} else {}) \<union> S) c'"
proof -
  obtain "is" where I: "coded_as is S c" using assms(1) by (auto simp: coded_def)
  let ?is = "is @ [(op, a, b)]"
  have fits: "instr_fits c' i \<longleftrightarrow> instr_fits c i" for i using assms(4,5) by (simp add: instr_fits_def)
  have keep: "mark_holds ?is c' m" if "mark_holds is c m" for m
  proof (cases m)
    case (Operand pos)
    then obtain k where "k < length is" "pos = offset is k + 1" "can_patch (fst (is ! k))"
      using \<open>mark_holds is c m\<close> by (auto simp: mark_holds_def)
    then show ?thesis using Operand by (auto simp: mark_holds_def offset_append nth_append intro!: exI [of _ k])
  next
    case (Boundary pos)
    then obtain k where "k \<le> length is" "pos = offset is k" using \<open>mark_holds is c m\<close> by (auto simp: mark_holds_def)
    then show ?thesis using Boundary by (auto simp: mark_holds_def offset_append intro!: exI [of _ k])
  qed (use \<open>mark_holds is c m\<close> assms(4,5) in \<open>simp_all add: mark_holds_def\<close>)
  have new: "mark_holds ?is c' (Operand (length (ck_code c) + 1))" if "can_patch op"
    using that offset_end [OF I] offset_append [of "length is" "is"]
    by (auto simp: mark_holds_def intro!: exI [of _ "length is"])
  have "coded_as ?is ((if can_patch op then {Operand (length (ck_code c) + 1)} else {}) \<union> S) c'"
    using I assms(2,3) keep new by (auto simp: coded_as_def fits instr_code_def)
  then show ?thesis by (auto simp: coded_def)
qed

text \<open>Patching: the operand of an instruction that may have any.\<close>

lemma patch_bytes:
  assumes "cando_opcode_fmt op \<noteq> OPFMT_NONE"
  shows "\<exists>lo hi rest. instr_bytes op a b = of_nat op # [lo, hi] @ rest \<and> instr_bytes op v b = of_nat op # u16_bytes v @ rest"
  using assms by (cases "cando_opcode_fmt op") (auto simp: instr_bytes_def u16_bytes_def)

lemma coded_patch:
  assumes "coded S c" "Operand pos \<in> S" "v < 65536"
  shows "pos + 2 \<le> length (ck_code c) \<and>
    (\<exists>code. cando_write_u16 (ck_code c) pos v = Some code \<and> length code = length (ck_code c) \<and> coded S (c\<lparr>ck_code := code\<rparr>))"
proof -
  obtain "is" where I: "coded_as is S c" using assms(1) by (auto simp: coded_def)
  have "mark_holds is c (Operand pos)" using I assms(2) by (simp add: coded_as_def)
  then obtain k where k: "k < length is" "pos = offset is k + 1" "can_patch (fst (is ! k))" by (auto simp: mark_holds_def)
  obtain op a b where i: "is ! k = (op, a, b)" by (metis prod_cases3)
  obtain lo hi rest where b: "instr_bytes op a b = of_nat op # [lo, hi] @ rest" "instr_bytes op v b = of_nat op # u16_bytes v @ rest"
    using patch_bytes [of op a b v] k(3) i by (auto simp: can_patch_def)
  let ?xs = "concat (map instr_code (take k is))" and ?ys = "concat (map instr_code (drop (Suc k) is))"
  let ?is = "is[k := (op, v, b)]"
  have split: "is = take k is @ (op, a, b) # drop (Suc k) is" using k(1) i by (metis id_take_nth_drop)
  have code: "ck_code c = (?xs @ [of_nat op]) @ [lo, hi] @ (rest @ ?ys)"
  proof -
    have "ck_code c = concat (map instr_code (take k is @ (op, a, b) # drop (Suc k) is))"
      using I split by (simp add: coded_as_def)
    then show ?thesis using b(1) by (simp add: instr_code_def)
  qed
  have pos: "pos = length (?xs @ [of_nat op :: byte])" using k(2) by (simp add: offset_def)
  have is': "?is = take k is @ (op, v, b) # drop (Suc k) is" using k(1) by (simp add: upd_conv_take_nth_drop)
  have new: "(?xs @ [of_nat op]) @ u16_bytes v @ (rest @ ?ys) = concat (map instr_code ?is)"
    unfolding is' using b(2) by (simp add: instr_code_def)
  have w: "cando_write_u16 (ck_code c) pos v = Some (concat (map instr_code ?is))"
    unfolding code pos write_u16_bytes new ..
  have fst: "fst (?is ! j) = fst (is ! j)" for j using i k(1) by (cases "j = k") auto
  have off: "offset ?is j = offset is j" for j
  proof -
    have "map (length \<circ> instr_code) (take j ?is) = map (length \<circ> instr_code) (take j is)"
      using i by (intro nth_equalityI) (auto simp: instr_code_length fst)
    then show ?thesis by (simp add: offset_def length_concat)
  qed
  have "coded_as ?is S (c\<lparr>ck_code := concat (map instr_code ?is)\<rparr>)"
  proof -
    have "instr_fits c (op, a, b)" using I k(1) i by (metis coded_as_def nth_mem)
    then have "instr_fits c (op, v, b)" using k(3) i assms(3) by (auto simp: instr_fits_def can_patch_def)
    then have "\<forall>x \<in> set ?is. instr_fits c x" using I set_update_subset_insert [of "is" k] by (fastforce simp: coded_as_def)
    moreover have "mark_holds ?is (c\<lparr>ck_code := code\<rparr>) m \<longleftrightarrow> mark_holds is c m" for m code
      by (simp add: mark_holds_def off fst split: mark.split)
    moreover have "instr_fits (c\<lparr>ck_code := code\<rparr>) x = instr_fits c x" for x code by (simp add: instr_fits_def)
    ultimately show ?thesis using I by (simp add: coded_as_def)
  qed
  then have "coded S (c\<lparr>ck_code := concat (map instr_code ?is)\<rparr>)" by (auto simp: coded_def)
  moreover have "length (concat (map instr_code ?is)) = length (ck_code c)" unfolding code new [symmetric] by simp
  ultimately show ?thesis using w pos code by auto
qed


section \<open>The state of the compiler\<close>

text \<open>Bytes of the source that are left, the current token counted as one.\<close>

definition rem :: "cando_parser \<Rightarrow> nat" where
  "rem p = (if ps_check TOK_EOF p then 0 else Suc (lex_left (ps_lexer p)))"

definition heap_ok :: "cando_parser \<Rightarrow> bool" where
  "heap_ok p \<longleftrightarrow> strings_ok (ps_strings p) \<and> (\<forall>k \<in> set (ck_consts (ps_chunk p)). const_live (ps_strings p) k) \<and>
     distinct (ps_malloc p) \<and> (\<forall>a \<in> set (ps_malloc p). a \<noteq> 0 \<and> ps_strings p a = None)"

definition exit_marks :: "nat \<Rightarrow> cando_parser \<Rightarrow> mark set" where
  "exit_marks V p = (\<lambda>i. Operand (ps_pipe_exits p ! i)) ` {..<max V (ps_pipe_exit_count p)}"

definition shape_ok :: "mark set \<Rightarrow> nat \<Rightarrow> cando_parser \<Rightarrow> bool" where
  "shape_ok S V p \<longleftrightarrow> chunk_ok (ps_chunk p) \<and> coded (S \<union> exit_marks V p) (ps_chunk p) \<and> heap_ok p \<and>
     length (ps_pipe_exits p) = PIPE_EXITS_MAX \<and> ps_pipe_exit_count p \<le> PIPE_EXITS_MAX \<and> V \<le> PIPE_EXITS_MAX \<and>
     length (ps_locals p) \<le> LOCAL_MAX \<and> length (ps_locals p) \<le> ck_local_count (ps_chunk p) \<and>
     (ps_check TOK_EOF p \<longrightarrow> lex_left (ps_lexer p) = 0) \<and> \<not> ps_eval_mode p"

text \<open>The budget: each byte of the source that is left pays for 81 bytes of code and 3 constants; \<open>c\<close> and \<open>d\<close> are what the
  function at work may still spend.\<close>

definition funded :: "nat \<Rightarrow> nat \<Rightarrow> cando_parser \<Rightarrow> bool" where
  "funded c d p \<longleftrightarrow> code_len p + 81 * rem p + c \<le> 2 ^ 31 \<and> length (ck_consts (ps_chunk p)) + 3 * rem p + d \<le> 65535 \<and>
     3 * rem p + d \<le> length (ps_malloc p)"

definition ready :: "mark set \<Rightarrow> nat \<Rightarrow> nat \<Rightarrow> nat \<Rightarrow> nat \<Rightarrow> cando_parser \<Rightarrow> bool" where
  "ready S V R c d p \<longleftrightarrow> shape_ok S V p \<and> rem p \<le> R \<and> funded c d p"

lemmas ready_defs = ready_def shape_ok_def funded_def heap_ok_def exit_marks_def rem_def code_len_def ps_check_def

lemma ready_weaken:
  "ready S V R c d p \<Longrightarrow> T \<subseteq> S \<Longrightarrow> R \<le> R' \<Longrightarrow> c' \<le> c \<Longrightarrow> d' \<le> d \<Longrightarrow> ready T V R' c' d' p"
  by (auto simp: ready_def shape_ok_def funded_def elim!: coded_mono)

text \<open>Fields that do not matter.\<close>

lemma ready_fields [simp]:
  "ready S V R c d (p\<lparr>ps_had_error := b\<rparr>) = ready S V R c d p"
  "ready S V R c d (p\<lparr>ps_panic_mode := b\<rparr>) = ready S V R c d p"
  "ready S V R c d (p\<lparr>ps_error_msg := m\<rparr>) = ready S V R c d p"
  "ready S V R c d (p\<lparr>ps_scope_depth := z\<rparr>) = ready S V R c d p"
  "ready S V R c d (p\<lparr>ps_last_expr_was_call := b\<rparr>) = ready S V R c d p"
  "ready S V R c d (p\<lparr>ps_last_expr_was_unpack := b\<rparr>) = ready S V R c d p"
  "ready S V R c d (p\<lparr>ps_call_depth := n\<rparr>) = ready S V R c d p"
  "ready S V R c d (p\<lparr>ps_last_stmt_was_expr := b\<rparr>) = ready S V R c d p"
  "ready S V R c d (p\<lparr>ps_in_pipe_body := b\<rparr>) = ready S V R c d p"
  "ready S V R c d (p\<lparr>ps_last_multi_push := n\<rparr>) = ready S V R c d p"
  "ready S V R c d (p\<lparr>ps_previous := t\<rparr>) = ready S V R c d p"
  by (simp_all add: ready_defs)

lemma ready_errors [simp]:
  "ready S V R c d (error_at t m p) = ready S V R c d p"
  "ready S V R c d (ps_error m p) = ready S V R c d p"
  "ready S V R c d (ps_error_current m p) = ready S V R c d p"
  by (simp_all add: error_at_def ps_error_def ps_error_current_def)

lemma ready_fresh [simp]: "ready S V R c d (fresh_flags p) = ready S V R c d p"
  by (simp add: fresh_flags_def)

lemma ready_scope_begin [simp]: "ready S V R c d (scope_begin p) = ready S V R c d p"
  by (simp add: scope_begin_def)

lemma ready_scope_end: "ready S V R c d p \<Longrightarrow> ready S V R c d (scope_end p)"
proof -
  have "length (dropWhile P (rev xs)) \<le> length xs" for P and xs :: "cando_local list"
    using length_dropWhile_le [of P "rev xs"] by simp
  note len = order.trans [OF this]
  have "rem (scope_end p) = rem p" "funded c d (scope_end p) = funded c d p" "heap_ok (scope_end p) = heap_ok p"
    "exit_marks V (scope_end p) = exit_marks V p"
    by (simp_all add: scope_end_def Let_def funded_def rem_def ps_check_def heap_ok_def exit_marks_def code_len_def)
  then show "ready S V R c d p \<Longrightarrow> ?thesis" using len by (simp add: ready_def shape_ok_def scope_end_def Let_def ps_check_def)
qed

section \<open>Tokens\<close>

text \<open>What fetching a token leaves alone.\<close>

definition same_work :: "cando_parser \<Rightarrow> cando_parser \<Rightarrow> bool" where
  "same_work p q \<longleftrightarrow> ps_chunk q = ps_chunk p \<and> ps_strings q = ps_strings p \<and> ps_malloc q = ps_malloc p \<and>
     ps_locals q = ps_locals p \<and> ps_scope_depth q = ps_scope_depth p \<and> ps_pipe_exits q = ps_pipe_exits p \<and>
     ps_pipe_exit_count q = ps_pipe_exit_count p \<and> ps_last_expr_was_call q = ps_last_expr_was_call p \<and>
     ps_last_expr_was_unpack q = ps_last_expr_was_unpack p \<and> ps_call_depth q = ps_call_depth p \<and>
     ps_eval_mode q = ps_eval_mode p \<and> ps_last_stmt_was_expr q = ps_last_stmt_was_expr p \<and>
     ps_in_pipe_body q = ps_in_pipe_body p \<and> ps_last_multi_push q = ps_last_multi_push p"

lemma same_work_refl [simp]: "same_work p p"
  by (simp add: same_work_def)

lemma same_work_trans: "same_work p q \<Longrightarrow> same_work q s \<Longrightarrow> same_work p s"
  by (simp add: same_work_def)

lemma same_work_error: "same_work p (ps_error_current m (p\<lparr>ps_lexer := lx, ps_current := t\<rparr>))"
  by (simp add: same_work_def ps_error_current_def error_at_def)

lemma rem_eof_next: "cando_lexer_next lx = (lx', t) \<Longrightarrow> (if tk_type t = TOK_EOF then 0 else Suc (lex_left lx')) \<le> lex_left lx"
  using lexer_next_moves [of lx lx' t] by auto

lemma next_eof_end: "cando_lexer_next lx = (lx', t) \<Longrightarrow> tk_type t = TOK_EOF \<Longrightarrow> lex_left lx' = 0"
  using lexer_next_spec [of lx lx' t] by (simp add: next_spec_def lex_at_end_def)

lemma fetch_spec: "same_work p (ps_fetch p) \<and> ps_previous (ps_fetch p) = ps_previous p \<and> rem (ps_fetch p) \<le> lex_left (ps_lexer p) \<and>
    (ps_check TOK_EOF (ps_fetch p) \<longrightarrow> lex_left (ps_lexer (ps_fetch p)) = 0)"
proof (induction p rule: ps_fetch.induct)
  case (1 p)
  obtain lx t where n: "cando_lexer_next (ps_lexer p) = (lx, t)" by force
  let ?p = "p\<lparr>ps_lexer := lx, ps_current := t\<rparr>"
  let ?m = "case cando_lexer_error_msg lx of Some m \<Rightarrow> m | None \<Rightarrow> ''(null)''"
  have f: "ps_fetch p = (if tk_type t \<noteq> TOK_ERROR then ?p else ps_fetch (ps_error_current ?m ?p))"
    using n by (simp add: ps_fetch.simps [of p] Let_def)
  show ?case
  proof (cases "tk_type t = TOK_ERROR")
    case False
    then show ?thesis unfolding f using rem_eof_next [OF n] next_eof_end [OF n] by (auto simp: same_work_def rem_def ps_check_def)
  next
    case True
    have "lex_left lx < lex_left (ps_lexer p)" using lexer_next_moves [OF n] True by simp
    moreover have "same_work (ps_error_current ?m ?p) (ps_fetch (ps_error_current ?m ?p)) \<and>
        ps_previous (ps_fetch (ps_error_current ?m ?p)) = ps_previous p \<and> rem (ps_fetch (ps_error_current ?m ?p)) \<le> lex_left lx \<and>
        (ps_check TOK_EOF (ps_fetch (ps_error_current ?m ?p)) \<longrightarrow> lex_left (ps_lexer (ps_fetch (ps_error_current ?m ?p))) = 0)"
      using "1" [OF n [symmetric] refl] True by (simp add: ps_error_current_def)
    ultimately show ?thesis unfolding f using True same_work_trans [OF same_work_error] by auto
  qed
qed

declare ps_fetch.simps [simp del]

lemma advance_spec: "same_work p (ps_advance p) \<and> ps_previous (ps_advance p) = ps_current p \<and>
    rem (ps_advance p) \<le> lex_left (ps_lexer p) \<and> (ps_check TOK_EOF (ps_advance p) \<longrightarrow> lex_left (ps_lexer (ps_advance p)) = 0)"
  using fetch_spec [of "p\<lparr>ps_previous := ps_current p\<rparr>"] by (simp add: ps_advance_def same_work_def)

lemma ready_same:
  assumes "ready S V R c d p" "same_work p q" "rem q \<le> rem p" "ps_check TOK_EOF q \<longrightarrow> lex_left (ps_lexer q) = 0"
  shows "ready S V (R - (rem p - rem q)) (c + 81 * (rem p - rem q)) (d + 3 * (rem p - rem q)) q"
proof -
  have "exit_marks V q = exit_marks V p" "heap_ok q = heap_ok p" "code_len q = code_len p"
    using assms(2) by (simp_all add: same_work_def exit_marks_def heap_ok_def code_len_def)
  moreover have "ps_chunk q = ps_chunk p" "ps_malloc q = ps_malloc p" "ps_pipe_exits q = ps_pipe_exits p"
    "ps_pipe_exit_count q = ps_pipe_exit_count p" "ps_locals q = ps_locals p" "ps_eval_mode q = ps_eval_mode p"
    using assms(2) by (simp_all add: same_work_def)
  moreover obtain k where "rem p = rem q + k" using assms(3) le_Suc_ex by blast
  ultimately show ?thesis using assms(1,4) by (auto simp: ready_def shape_ok_def funded_def)
qed

text \<open>At the end of the source an advance stays there; before the end it pays.\<close>

lemma ready_advance: "ready S V R c d p \<Longrightarrow> ready S V R c d (ps_advance p)"
proof -
  assume r: "ready S V R c d p"
  have "rem (ps_advance p) \<le> rem p" using r advance_spec [of p] by (auto simp: ready_def shape_ok_def rem_def)
  from ready_same [OF r _ this] show ?thesis using advance_spec [of p] by (auto elim: ready_weaken)
qed

lemma ready_moves:
  assumes "ready S V R c d p" "\<not> ps_check TOK_EOF p"
  shows "0 < R \<and> ready S V (R - 1) (c + 81) (d + 3) (ps_advance p)"
proof -
  have less: "Suc (rem (ps_advance p)) \<le> rem p" using assms advance_spec [of p] by (auto simp: ready_def shape_ok_def rem_def)
  have "ready S V (R - (rem p - rem (ps_advance p))) (c + 81 * (rem p - rem (ps_advance p))) (d + 3 * (rem p - rem (ps_advance p)))
      (ps_advance p)"
    using ready_same [OF assms(1)] less advance_spec [of p] by auto
  then have "ready S V (R - 1) (c + 81) (d + 3) (ps_advance p)" by (rule ready_weaken) (use less in auto)
  moreover have "0 < R" using assms(1) less by (auto simp: ready_def)
  ultimately show ?thesis by simp
qed

lemma ready_next:
  "ready S V R c d p \<Longrightarrow> \<not> ps_check TOK_EOF p \<Longrightarrow> 0 < R \<and> ready S V (R - 1) (c + 80) (d + 3) (ps_advance p)"
  using ready_moves [of S V R c d p] by (auto elim: ready_weaken)

lemma ready_checked: "ready S V R c d p \<Longrightarrow> ps_check t p \<Longrightarrow> t \<noteq> TOK_EOF \<Longrightarrow> 0 < R \<and> ready S V (R - 1) (c + 80) (d + 3) (ps_advance p)"
  by (rule ready_next) (simp_all add: ps_check_def)

lemma ready_consume: "ready S V R c d p \<Longrightarrow> ready S V R c d (ps_consume t m p)"
  by (simp add: ps_consume_def ready_advance)

lemma ready_match: "ready S V R c d p \<Longrightarrow> ready S V R c d (ps_match t p)"
  by (simp add: ps_match_def ready_advance)


section \<open>Emission\<close>

lemma marks_fold:
  assumes "ready S V R c d p" "m \<in> S"
  shows "case m of Operand pos \<Rightarrow> True | Boundary pos \<Rightarrow> pos \<le> code_len p | Const i \<Rightarrow> i < length (ck_consts (ps_chunk p))
                 | Locals n \<Rightarrow> n \<le> ck_local_count (ps_chunk p)"
  using assms coded_marks [of "S \<union> exit_marks V p" "ps_chunk p"]
  by (auto simp: ready_def shape_ok_def code_len_def split: mark.split)

text \<open>A constant operand is a marked constant, a local operand a slot below a marked number.\<close>

definition operand_ok :: "mark set \<Rightarrow> nat \<Rightarrow> nat \<Rightarrow> bool" where
  "operand_ok S op a \<longleftrightarrow> a < 65536 \<and> (op \<in> set const_ops \<longrightarrow> Const a \<in> S) \<and> (op \<in> set local_ops \<longrightarrow> Locals (Suc a) \<in> S)"

lemma ready_new_chunk:
  assumes "ready S V R c d p" "chunk_ok ck" "coded (T \<union> exit_marks V p) ck" "ck_consts ck = ck_consts (ps_chunk p)"
    "ck_local_count ck = ck_local_count (ps_chunk p)" "length (ck_code ck) = code_len p + n" "n \<le> c"
  shows "ready T V R (c - n) d (p\<lparr>ps_chunk := ck\<rparr>)"
  using assms by (auto simp: ready_def shape_ok_def funded_def heap_ok_def exit_marks_def rem_def ps_check_def code_len_def)

lemma chunk_emit_ready:
  assumes "ready S V R c d p" "cando_opcode_size op \<le> c" "op < OP_COUNT" "operand_ok S op a" "b < 65536"
  shows "\<exists>ck. chunk_emit (ps_chunk p) op a b line = Some ck \<and>
           ready ((if can_patch op then {Operand (code_len p + 1)} else {}) \<union> S) V R (c - cando_opcode_size op) d (p\<lparr>ps_chunk := ck\<rparr>)"
proof -
  let ?c = "ps_chunk p" and ?T = "(if can_patch op then {Operand (code_len p + 1)} else {}) \<union> S"
  have ok: "chunk_ok ?c" "coded (S \<union> exit_marks V p) ?c" using assms(1) by (simp_all add: ready_def shape_ok_def)
  have fits: "instr_fits ?c (op, a, b)"
    using assms(3-5) coded_marks [OF ok(2)] by (force simp: instr_fits_def operand_ok_def)
  have len: "length (ck_code ?c) + cando_opcode_size op \<le> 2 ^ 31"
    using assms(1,2) by (simp add: ready_def funded_def code_len_def)
  obtain cap where cap: "chunk_emit ?c op a b line = Some (?c\<lparr>ck_code := ck_code ?c @ instr_bytes op a b, ck_code_cap := cap,
                   ck_lines := ck_lines ?c @ replicate (cando_opcode_size op) line\<rparr>)" (is "_ = Some ?ck")
      "length (ck_code ?c) + cando_opcode_size op \<le> cap" "cap_ok cap"
    using emit_is_write [OF ok(1) len] by blast
  have "chunk_ok ?ck" using ok(1) cap(2,3) by (simp add: chunk_ok_def instr_bytes_length)
  moreover have "coded (?T \<union> exit_marks V p) ?ck"
    using coded_append [OF ok(2) fits, of ?ck] by (simp add: code_len_def Un_assoc split: if_splits)
  ultimately show ?thesis
    using cap(1) ready_new_chunk [OF assms(1), of ?ck ?T "cando_opcode_size op"] assms(2)
    by (simp add: code_len_def instr_bytes_length)
qed

lemma emit_op_ready [tot_intros]:
  assumes "ready S V R c d p" "op < OP_COUNT" "cando_opcode_fmt op = OPFMT_NONE" "1 \<le> c" "op \<notin> set const_ops" "op \<notin> set local_ops"
  shows "tot (ready S V R (c - 1) d) (emit_op op p)"
  using chunk_emit_ready [OF assms(1), of op 0 0 "emit_line p"] assms(2-6)
  by (auto simp: cando_opcode_size_def chunk_emit_def emit_op_def tot_def operand_ok_def can_patch_def)

lemma emit_op_a_ready [tot_intros]:
  assumes "ready S V R c d p" "op < OP_COUNT" "cando_opcode_fmt op = OPFMT_A" "3 \<le> c" "operand_ok S op a"
  shows "tot (ready S V R (c - 3) d) (emit_op_a op a p)"
  using chunk_emit_ready [OF assms(1), of op a 0 "emit_line p"] assms(2-5)
  by (auto simp: cando_opcode_size_def chunk_emit_def emit_op_a_def tot_def elim!: ready_weaken split: if_splits)

lemma emit_op_ab_ready [tot_intros]:
  assumes "ready S V R c d p" "op < OP_COUNT" "cando_opcode_fmt op = OPFMT_A_B" "5 \<le> c" "operand_ok S op a" "b < 65536"
  shows "tot (ready S V R (c - 5) d) (emit_op_ab op a b p)"
  using chunk_emit_ready [OF assms(1), of op a b "emit_line p"] assms(2-6)
  by (auto simp: cando_opcode_size_def chunk_emit_def emit_op_ab_def tot_def elim!: ready_weaken split: if_splits)

lemma emit_jump_ready [tot_intros]:
  assumes "ready S V R c d p" "op < OP_COUNT" "cando_opcode_fmt op = OPFMT_A" "3 \<le> c" "can_patch op"
  shows "tot (\<lambda>(at, q). ready (insert (Operand at) S) V R (c - 3) d q) (emit_jump op p)"
proof -
  have "operand_ok S op 0x7FFF" using assms(5) by (simp add: operand_ok_def can_patch_def)
  from chunk_emit_ready [OF assms(1) _ assms(2) this, of 0 "emit_line p"] obtain ck where
    ck: "cando_chunk_emit_op_a (ps_chunk p) op 0x7FFF (emit_line p) = Some ck"
      "ready (insert (Operand (code_len p + 1)) S) V R (c - 3) d (p\<lparr>ps_chunk := ck\<rparr>)"
    using assms(3-5) by (auto simp: cando_opcode_size_def chunk_emit_def)
  moreover have "u32 (length (ck_code (ps_chunk p)) + 1) = code_len p + 1"
    using assms(1) by (simp add: ready_def funded_def code_len_def)
  ultimately show ?thesis using assms(3) by (simp add: emit_jump_def cando_chunk_emit_jump_def tot_def)
qed

lemma write_ready:
  assumes "ready S V R c d p" "Operand pos \<in> S \<union> exit_marks V p" "v < 65536"
  shows "pos + 2 \<le> code_len p \<and> (\<exists>code. cando_write_u16 (ck_code (ps_chunk p)) pos v = Some code \<and>
           ready S V R c d (p\<lparr>ps_chunk := (ps_chunk p)\<lparr>ck_code := code\<rparr>\<rparr>))"
proof -
  have ok: "chunk_ok (ps_chunk p)" "coded (S \<union> exit_marks V p) (ps_chunk p)"
    using assms(1) by (simp_all add: ready_def shape_ok_def)
  obtain code where code: "cando_write_u16 (ck_code (ps_chunk p)) pos v = Some code"
      "length code = length (ck_code (ps_chunk p))" "coded (S \<union> exit_marks V p) ((ps_chunk p)\<lparr>ck_code := code\<rparr>)"
      "pos + 2 \<le> length (ck_code (ps_chunk p))"
    using coded_patch [OF ok(2) assms(2,3)] by blast
  moreover have "ready S V R (c - 0) d (p\<lparr>ps_chunk := (ps_chunk p)\<lparr>ck_code := code\<rparr>\<rparr>)"
    by (rule ready_new_chunk [OF assms(1)]) (use code ok(1) in \<open>simp_all add: chunk_ok_def code_len_def\<close>)
  ultimately show ?thesis by (simp add: code_len_def)
qed

lemma patch_jump_ready':
  assumes "ready S V R c d p" "Operand pos \<in> S \<union> exit_marks V p"
  shows "tot (ready S V R c d) (patch_jump pos p)"
proof -
  have "u16 (length (ck_code (ps_chunk p)) - u32 (pos + 2)) < 65536" by simp
  from write_ready [OF assms this] show ?thesis
    using assms(1) by (auto simp: patch_jump_def cando_chunk_patch_jump_def tot_def code_len_def ready_def funded_def)
qed

lemma patch_jump_ready [tot_intros]: "ready S V R c d p \<Longrightarrow> Operand pos \<in> S \<Longrightarrow> tot (ready S V R c d) (patch_jump pos p)"
  by (rule patch_jump_ready') simp_all

lemma patch_exits_ready:
  assumes "ready S V R c d p" "set ps \<subseteq> {pos. Operand pos \<in> S}"
  shows "tot (ready S V R c d) (mfold (\<lambda>p pos. patch_jump pos p) ps p)"
  using assms by (induction ps arbitrary: p) (auto intro!: tot_bind [OF patch_jump_ready])

lemma fmts: "cando_opcode_fmt OP_LOOP = OPFMT_A" "cando_opcode_fmt OP_LOOP_MARK = OPFMT_A_B"
  by (simp_all add: cando_opcode_fmt_def s_opcode_fmts_def)

lemma emit_loop_ready [tot_intros]:
  assumes "ready S V R c d p" "Boundary start \<in> S" "3 \<le> c"
  shows "tot (ready S V R (c - 3) d) (emit_loop start p)"
proof -
  have "start \<le> code_len p" using marks_fold [OF assms(1,2)] by simp
  moreover have "code_len p + 3 \<le> 2 ^ 31" using assms(1,3) by (simp add: ready_def funded_def)
  moreover have "operand_ok S OP_LOOP (u16 (u32 (length (ck_code (ps_chunk p)) + 3) - start))"
    by (simp add: operand_ok_def const_ops_def local_ops_def)
  from emit_op_a_ready [OF assms(1) _ fmts(1) assms(3) this]
  have "tot (ready S V R (c - 3) d) (emit_op_a OP_LOOP (u16 (u32 (length (ck_code (ps_chunk p)) + 3) - start)) p)" by simp
  ultimately show ?thesis
    by (simp add: emit_loop_def cando_chunk_emit_loop_def emit_op_a_def code_len_def)
qed

lemma emit_loop_mark_ready [tot_intros]:
  assumes "ready S V R c d p" "5 \<le> c" "k < 3"
  shows "tot (\<lambda>(at, q). ready (insert (Operand at) S) V R (c - 5) d q) (emit_loop_mark start k p)"
proof -
  let ?b = "u16_of_int (int (u32 (code_len p + 5)) - int start) mod 16384 + u16 (k * 16384)"
  have "u16 (k * 16384) \<le> 32768" using assms(3) by simp
  then have b: "?b < 65536" by (rule le_less_trans [OF add_left_mono]) (simp add: less_le_trans)
  have cp: "can_patch OP_LOOP_MARK" by (simp add: can_patch_def fmts const_ops_def local_ops_def)
  have "operand_ok S OP_LOOP_MARK 0" by (simp add: operand_ok_def const_ops_def local_ops_def)
  from chunk_emit_ready [OF assms(1) _ _ this b, of "emit_line p"] obtain ck where
    "cando_chunk_emit_op_ab (ps_chunk p) OP_LOOP_MARK 0 ?b (emit_line p) = Some ck"
    "ready (insert (Operand (code_len p + 1)) S) V R (c - 5) d (p\<lparr>ps_chunk := ck\<rparr>)"
    using assms(2) cp by (auto simp: cando_opcode_size_def chunk_emit_def fmts)
  moreover have "u32 (code_len p + 1) = code_len p + 1" using assms(1) by (simp add: ready_def funded_def)
  ultimately show ?thesis by (simp add: emit_loop_mark_def emit_op_ab_def Let_def tot_def)
qed

lemma patch_loop_mark_break_ready [tot_intros]:
  assumes "ready S V R c d p" "Operand pos \<in> S"
  shows "tot (ready S V R c d) (patch_loop_mark_break pos p)"
proof -
  have "u16_of_int (int (code_len p) - int (u32 (pos + 4))) < 65536" by (simp add: u16_of_int_def)
  from write_ready [OF assms(1) _ this, of pos] assms(2) show ?thesis
    by (auto simp: patch_loop_mark_break_def Let_def tot_def)
qed


section \<open>Constants\<close>

lemma ready_const:
  assumes "ready S V R c d p" "1 \<le> d" "chunk_ok ck" "ck_code ck = ck_code (ps_chunk p)" "i < length (ck_consts ck)"
    "ck_local_count ck = ck_local_count (ps_chunk p)" "length (ck_consts (ps_chunk p)) \<le> length (ck_consts ck)"
    "length (ck_consts ck) \<le> length (ck_consts (ps_chunk p)) + 1" "heap_ok q" "ps_chunk q = ck"
    "q = p\<lparr>ps_strings := H, ps_malloc := as, ps_chunk := ck\<rparr>" "length (ps_malloc p) \<le> length as + 1"
  shows "ready (insert (Const i) S) V R c (d - 1) q"
proof -
  have "coded (S \<union> exit_marks V p) ck" using assms(1,4,6,7) by (auto simp: ready_def shape_ok_def intro: coded_grow)
  then have "coded (insert (Const i) (S \<union> exit_marks V p)) ck" using assms(5) by (rule coded_const)
  then show ?thesis
    using assms(1-3,4,6,7,8,9,11,12)
    by (auto simp: ready_def shape_ok_def funded_def exit_marks_def rem_def ps_check_def code_len_def)
qed

lemma str_const_ready [tot_intros]:
  assumes "ready S V R c d p" "1 \<le> d"
  shows "tot (\<lambda>(i, q). ready (insert (Const i) S) V R c (d - 1) q \<and> i < 65536) (str_const text p)"
proof -
  have fund: "length (ck_consts (ps_chunk p)) < 65535" "0 < length (ps_malloc p)" using assms by (auto simp: ready_def funded_def)
  have heap: "heap_ok p" "chunk_ok (ps_chunk p)" using assms(1) by (simp_all add: ready_def shape_ok_def)
  obtain a as where a: "ps_malloc p = a # as" using fund(2) by (cases "ps_malloc p") auto
  let ?H = "cando_string_new (ps_strings p) a text"
  have new: "a \<noteq> 0" "ps_strings p a = None" "a \<notin> set as" using heap(1) a by (auto simp: heap_ok_def)
  have ok: "strings_ok ?H" using heap(1) new by (auto simp: heap_ok_def strings_ok_def cando_string_new_def)
  have live: "const_live ?H k" if "const_live (ps_strings p) k" for k
    using that by (auto simp: const_live_def cando_string_new_def split: cando_value.splits)
  have all: "\<forall>v \<in> set (VString a # ck_consts (ps_chunk p)). const_live ?H v"
    using heap(1) live new(1) by (auto simp: heap_ok_def) (simp add: const_live_def cando_string_new_def)
  obtain H' ck i where r: "cando_chunk_add_const ?H (ps_chunk p) (VString a) = Some (H', ck, i)" "chunk_ok ck"
      "ck_code ck = ck_code (ps_chunk p)" "i < length (ck_consts ck)"
      "ck_consts ck = ck_consts (ps_chunk p) @ [VString a] \<and> i = length (ck_consts (ps_chunk p)) \<and> H' = ?H \<or>
       ck_consts ck = ck_consts (ps_chunk p) \<and> cando_value_release ?H (VString a) = Some H'"
    using add_const_spec [OF heap(2) ok all fund(1)] by blast
  have lc: "ck_local_count ck = ck_local_count (ps_chunk p)"
    using r(1) by (auto simp: cando_chunk_add_const_def chunk_ensure_const_def Let_def fault_simps split: option.splits if_splits)
  let ?q = "p\<lparr>ps_strings := H', ps_malloc := as, ps_chunk := ck\<rparr>"
  have hq: "heap_ok ?q" using r(5)
  proof (elim disjE conjE)
    assume "ck_consts ck = ck_consts (ps_chunk p) @ [VString a]" "H' = ?H"
    then show ?thesis using heap(1) a ok all by (auto simp: heap_ok_def cando_string_new_def)
  next
    assume "ck_consts ck = ck_consts (ps_chunk p)" "cando_value_release ?H (VString a) = Some H'"
    moreover from this(2) have "H' = ps_strings p"
      using new by (auto simp: cando_value_release_def cando_string_release_def cando_string_new_def fun_upd_idem fault_simps)
    ultimately show ?thesis using heap(1) a by (simp add: heap_ok_def)
  qed
  have "ready (insert (Const i) S) V R c (d - 1) ?q"
    by (rule ready_const [OF assms r(2-4) lc _ _ hq _ refl]) (use r(5) a in auto)
  moreover have "length (ck_consts ck) \<le> 65535" using r(5) fund(1) by auto
  ultimately show ?thesis using a r(1,4) by (simp add: str_const_def tot_def)
qed

lemma num_const_ready [tot_intros]:
  assumes "ready S V R c d p" "1 \<le> d"
  shows "tot (\<lambda>(i, q). ready (insert (Const i) S) V R c (d - 1) q \<and> i < 65536) (num_const x p)"
proof -
  have fund: "length (ck_consts (ps_chunk p)) < 65535" using assms by (auto simp: ready_def funded_def)
  have heap: "heap_ok p" "chunk_ok (ps_chunk p)" using assms(1) by (simp_all add: ready_def shape_ok_def)
  have all: "\<forall>v \<in> set (VNumber x # ck_consts (ps_chunk p)). const_live (ps_strings p) v"
    using heap(1) by (auto simp: heap_ok_def const_live_def)
  have ok: "strings_ok (ps_strings p)" using heap(1) by (simp add: heap_ok_def)
  obtain H' ck i where r: "cando_chunk_add_const (ps_strings p) (ps_chunk p) (VNumber x) = Some (H', ck, i)" "chunk_ok ck"
      "ck_code ck = ck_code (ps_chunk p)" "i < length (ck_consts ck)"
      "ck_consts ck = ck_consts (ps_chunk p) @ [VNumber x] \<and> i = length (ck_consts (ps_chunk p)) \<and> H' = ps_strings p \<or>
       ck_consts ck = ck_consts (ps_chunk p) \<and> cando_value_release (ps_strings p) (VNumber x) = Some H'"
    using add_const_spec [OF heap(2) ok all fund(1)] by blast
  have lc: "ck_local_count ck = ck_local_count (ps_chunk p)"
    using r(1) by (auto simp: cando_chunk_add_const_def chunk_ensure_const_def Let_def fault_simps split: option.splits if_splits)
  have H': "H' = ps_strings p" using r(5) by (auto simp: cando_value_release_def)
  let ?q = "p\<lparr>ps_strings := H', ps_malloc := ps_malloc p, ps_chunk := ck\<rparr>"
  have hq: "heap_ok ?q" using heap(1) r(5) H' by (auto simp: heap_ok_def const_live_def)
  have "ready (insert (Const i) S) V R c (d - 1) ?q"
    by (rule ready_const [OF assms r(2-4) lc _ _ hq _ refl]) (use r(5) in auto)
  moreover have "length (ck_consts ck) \<le> 65535" using r(5) fund(1) by auto
  ultimately show ?thesis using r(1,4) by (simp add: num_const_def tot_def)
qed

lemma prev_name_const_ready [tot_intros]:
  "ready S V R c d p \<Longrightarrow> 1 \<le> d \<Longrightarrow> tot (\<lambda>(i, q). ready (insert (Const i) S) V R c (d - 1) q \<and> i < 65536) (prev_name_const p)"
  unfolding prev_name_const_def by (rule str_const_ready)

section \<open>Locals\<close>

lemma kept_fields [simp]:
  "heap_ok (p\<lparr>ps_locals := ls\<rparr>) = heap_ok p" "exit_marks V (p\<lparr>ps_locals := ls\<rparr>) = exit_marks V p"
  "funded c d (p\<lparr>ps_locals := ls\<rparr>) = funded c d p" "rem (p\<lparr>ps_locals := ls\<rparr>) = rem p"
  "heap_ok (p\<lparr>ps_pipe_exits := es\<rparr>) = heap_ok p" "funded c d (p\<lparr>ps_pipe_exits := es\<rparr>) = funded c d p"
  "rem (p\<lparr>ps_pipe_exits := es\<rparr>) = rem p"
  "heap_ok (p\<lparr>ps_pipe_exit_count := n\<rparr>) = heap_ok p" "funded c d (p\<lparr>ps_pipe_exit_count := n\<rparr>) = funded c d p"
  "rem (p\<lparr>ps_pipe_exit_count := n\<rparr>) = rem p"
  "heap_ok (p\<lparr>ps_in_pipe_body := b\<rparr>) = heap_ok p" "funded c d (p\<lparr>ps_in_pipe_body := b\<rparr>) = funded c d p"
  "rem (p\<lparr>ps_in_pipe_body := b\<rparr>) = rem p" "exit_marks V (p\<lparr>ps_in_pipe_body := b\<rparr>) = exit_marks V p"
  by (simp_all add: heap_ok_def exit_marks_def funded_def rem_def ps_check_def code_len_def)

lemma ready_mark_locals: "ready S V R c d p \<Longrightarrow> ready (insert (Locals (length (ps_locals p))) S) V R c d p"
  using coded_locals [of "S \<union> exit_marks V p" "ps_chunk p"] by (simp add: ready_def shape_ok_def)

lemma ready_mark_boundary: "ready S V R c d p \<Longrightarrow> ready (insert (Boundary (code_len p)) S) V R c d p"
  using coded_boundary [of "S \<union> exit_marks V p" "ps_chunk p"] by (simp add: ready_def shape_ok_def code_len_def)

lemma ready_set_locals:
  "ready S V R c d p \<Longrightarrow> Locals (length ls) \<in> S \<Longrightarrow> length ls \<le> LOCAL_MAX \<Longrightarrow> ready S V R c d (p\<lparr>ps_locals := ls\<rparr>)"
  using coded_marks(3) [of "S \<union> exit_marks V p" "ps_chunk p" "length ls"] by (simp add: ready_def shape_ok_def ps_check_def)

lemma ready_no_locals: "ready S V R c d p \<Longrightarrow> ready S V R c d (p\<lparr>ps_locals := []\<rparr>)"
  by (simp add: ready_def shape_ok_def ps_check_def)

lemma declare_local_ready:
  assumes "ready S V R c d p" "declare_local name b p = (slot, q)"
  shows "ready (insert (Locals (Suc slot)) S) V R c d q \<and> slot < 65536"
proof (cases "LOCAL_MAX \<le> length (ps_locals p)")
  case True
  then have q: "slot = 0" "q = ps_error ''too many local variables in scope'' p" using assms(2) by (auto simp: declare_local_def)
  have "1 \<le> ck_local_count (ps_chunk p)" using assms(1) True by (simp add: ready_def shape_ok_def)
  then have "ready (insert (Locals 1) S) V R c d p"
    using assms(1) coded_locals [of "S \<union> exit_marks V p" "ps_chunk p" 1] by (simp add: ready_def shape_ok_def)
  then show ?thesis using q by simp
next
  case False
  let ?n = "length (ps_locals p)" and ?c = "ps_chunk p"
  let ?ck = "?c\<lparr>ck_local_count := max (ck_local_count ?c) (?n + 1)\<rparr>"
  have q: "slot = ?n" "ps_chunk q = ?ck" "length (ps_locals q) = ?n + 1" "heap_ok q = heap_ok p" "exit_marks V q = exit_marks V p"
      "funded c d q = funded c d p" "rem q = rem p" "ps_pipe_exits q = ps_pipe_exits p" "ps_pipe_exit_count q = ps_pipe_exit_count p"
      "ps_lexer q = ps_lexer p" "ps_check TOK_EOF q = ps_check TOK_EOF p" "ps_eval_mode q = ps_eval_mode p"
    using assms(2) False
    by (auto simp: declare_local_def Let_def heap_ok_def exit_marks_def funded_def rem_def ps_check_def code_len_def)
  have ok: "chunk_ok ?ck" using assms(1) by (simp add: ready_def shape_ok_def chunk_ok_def)
  have "coded (S \<union> exit_marks V p) ?ck"
    using assms(1) by (rule_tac coded_grow [of "S \<union> exit_marks V p" ?c]) (simp_all add: ready_def shape_ok_def)
  then have "coded (insert (Locals (?n + 1)) (S \<union> exit_marks V p)) ?ck" by (rule coded_locals) simp
  then show ?thesis using assms(1) q ok False by (simp add: ready_def shape_ok_def)
qed

lemma resolve_from_less: "resolve_from name ls n = Some i \<Longrightarrow> i < n"
  by (induction n) (auto split: if_splits intro: less_SucI)

lemma ready_resolved:
  assumes "ready S V R c d p" "resolve_local p name = Some i"
  shows "ready (insert (Locals (Suc i)) S) V R c d p \<and> i < 65536"
proof -
  have "i < length (ps_locals p)" using resolve_from_less assms(2) by (simp add: resolve_local_def)
  then show ?thesis
    using assms(1) coded_locals [of "S \<union> exit_marks V p" "ps_chunk p" "Suc i"] by (simp add: ready_def shape_ok_def)
qed

section \<open>Pipe exits\<close>

lemma ready_record_exit:
  assumes "ready S V R c d p" "Operand pos \<in> S" "ps_pipe_exit_count p < PIPE_EXITS_MAX"
  shows "ready S V R c d (p\<lparr>ps_pipe_exits := (ps_pipe_exits p)[ps_pipe_exit_count p := pos],
                           ps_pipe_exit_count := Suc (ps_pipe_exit_count p)\<rparr>)" (is "ready _ _ _ _ _ ?q")
proof -
  have len: "length (ps_pipe_exits p) = 16" using assms(1) by (simp add: ready_def shape_ok_def)
  have "exit_marks V ?q \<subseteq> insert (Operand pos) (exit_marks V p)"
  proof
    fix m assume "m \<in> exit_marks V ?q"
    then obtain i where i: "i < max V (Suc (ps_pipe_exit_count p))" "m = Operand ((ps_pipe_exits p)[ps_pipe_exit_count p := pos] ! i)"
      by (auto simp: exit_marks_def)
    show "m \<in> insert (Operand pos) (exit_marks V p)"
    proof (cases "i = ps_pipe_exit_count p")
      case True
      then show ?thesis using i(2) len assms(3) by simp
    next
      case False
      then have "i < max V (ps_pipe_exit_count p)" using i(1) by auto
      then show ?thesis using i(2) False by (simp add: exit_marks_def)
    qed
  qed
  then have "coded (S \<union> exit_marks V ?q) (ps_chunk p)"
    using assms(1,2) by (auto simp: ready_def shape_ok_def elim!: coded_mono)
  then show ?thesis using assms len by (simp add: ready_def shape_ok_def ps_check_def)
qed

text \<open>The block of a pipe counts its exits from 0; those of the enclosing block stay valid positions.\<close>

lemma ready_enter_pipe:
  "ready S V R c d p \<Longrightarrow> ready S (max V (ps_pipe_exit_count p)) R c d (p\<lparr>ps_in_pipe_body := b, ps_pipe_exit_count := 0\<rparr>)"
  by (simp add: ready_def shape_ok_def ps_check_def) (simp add: exit_marks_def max.commute)

lemma ready_leave_pipe:
  assumes "ready S (max V n) R c d p"
  shows "ready S V R c d (p\<lparr>ps_in_pipe_body := b, ps_pipe_exit_count := n\<rparr>)" (is "ready _ _ _ _ _ ?q")
proof -
  have "exit_marks V ?q \<subseteq> exit_marks (max V n) p" by (auto simp: exit_marks_def)
  then have "coded (S \<union> exit_marks V ?q) (ps_chunk p)" using assms by (auto simp: ready_def shape_ok_def elim!: coded_mono)
  then show ?thesis using assms by (simp add: ready_def shape_ok_def ps_check_def)
qed

lemma patch_pipe_exits_ready [tot_intros]:
  assumes "ready S V R c d p"
  shows "tot (ready S V R c d) (mfold (\<lambda>p pos. patch_jump pos p) (take (ps_pipe_exit_count p) (ps_pipe_exits p)) p)"
proof -
  let ?T = "S \<union> exit_marks V p"
  have T: "ready ?T V R c d p" using assms by (simp add: ready_def shape_ok_def Un_assoc)
  have "set (take (ps_pipe_exit_count p) (ps_pipe_exits p)) \<subseteq> {pos. Operand pos \<in> ?T}"
    by (auto simp: in_set_conv_nth exit_marks_def)
  from patch_exits_ready [OF T this] show ?thesis by (rule tot_weaken) (auto elim: ready_weaken)
qed

section \<open>Loops\<close>

lemma loop_while_tot:
  assumes "I R s" "R < n" "\<And>Q s. I Q s \<Longrightarrow> Q \<le> R \<Longrightarrow> b s \<Longrightarrow> tot (\<lambda>s'. 0 < Q \<and> I (Q - 1) s') (f s)"
    "\<And>Q s. I Q s \<Longrightarrow> Q \<le> R \<Longrightarrow> I R s"
  shows "tot (\<lambda>s. I R s \<and> \<not> b s) (loop_while n b f s)"
proof -
  have "tot (\<lambda>s. I R s \<and> \<not> b s) (loop_while n b f s)" if "I Q s" "Q < n" "Q \<le> R" for Q
    using that
  proof (induction n arbitrary: Q s)
    case (Suc n)
    show ?case
    proof (cases "b s")
      case True
      have "tot (\<lambda>s'. I R s' \<and> \<not> b s') (loop_while n b f s')" if "0 < Q \<and> I (Q - 1) s'" for s'
      proof -
        have "Q - 1 < n" "Q - 1 \<le> R" using Suc.prems that by auto
        then show ?thesis using Suc.IH [of "Q - 1" s'] that by blast
      qed
      then have "tot (\<lambda>s'. I R s' \<and> \<not> b s') (Option.bind (f s) (loop_while n b f))"
        by (rule tot_bind [OF assms(3) [OF Suc.prems(1,3) True]])
      then show ?thesis using True by simp
    qed (use Suc.prems assms(4) in simp)
  qed simp
  then show ?thesis using assms(1,2) by blast
qed

lemma comma_list_tot:
  assumes "P R x p" "R < n" "\<And>Q x p. P Q x p \<Longrightarrow> Q \<le> R \<Longrightarrow> tot (\<lambda>(again, x, p). E Q x p) (body x p)"
    "\<And>Q x p. E Q x p \<Longrightarrow> Q \<le> R \<Longrightarrow> ps_check TOK_COMMA p \<Longrightarrow> 0 < Q \<and> P (Q - 1) x (ps_advance p)"
    "\<And>Q x p. E Q x p \<Longrightarrow> Q \<le> R \<Longrightarrow> E R x p"
  shows "tot (\<lambda>(x, p). E R x p) (comma_list n body x p)"
proof -
  have "tot (\<lambda>(x, p). E R x p) (comma_list n body x p)" if "P Q x p" "Q < n" "Q \<le> R" for Q
    using that
  proof (induction n arbitrary: Q x p)
    case (Suc n)
    have "tot (\<lambda>(x, p). E R x p) (case y of (again, x, p) \<Rightarrow>
        if again \<and> ps_check TOK_COMMA p then comma_list n body x (ps_advance p) else Some (x, p))"
      if "case y of (again, x, p) \<Rightarrow> E Q x p" for y
    proof -
      obtain again x p where y0: "y = (again, x, p)" by (cases y)
      then have y: "y = (again, x, p)" "E Q x p" using that by simp_all
      have "tot (\<lambda>(x, p). E R x p) (comma_list n body x (ps_advance p))" if "ps_check TOK_COMMA p"
      proof -
        have P: "0 < Q" "P (Q - 1) x (ps_advance p)" using assms(4) [OF y(2) Suc.prems(3) that] by simp_all
        then have "Q - 1 < n" "Q - 1 \<le> R" using Suc.prems by auto
        then show ?thesis using Suc.IH P(2) by blast
      qed
      then show ?thesis using y assms(5) [OF y(2) Suc.prems(3)] by simp
    qed
    from tot_bind [OF assms(3) [OF Suc.prems(1,3)] this] show ?case by simp
  qed simp
  then show ?thesis using assms(1,2) by blast
qed

end
