(* ===== verification/Parser_Calls.thy ===== *)
theory Parser_Calls
  imports Parser_Safe
begin

text \<open>
  Rules for showing that a parsing function returns, stays within its budget and keeps the code well formed, whatever
  the source is. The functions that call each other are the interface \<open>parser_calls\<close>: what they promise for sources with
  at most \<open>R\<close> bytes left is assumed there; \<open>Parser_Exprs\<close> and \<open>Parser_Stmts\<close> show that the other functions keep it, and
  \<open>Parser_Total\<close> closes the circle by induction over the fuel.
\<close>

section \<open>Rules in the form of weakest preconditions\<close>

text \<open>Consuming a token that is there.\<close>

lemma tot_check:
  assumes "ready S V R c d p" "t \<noteq> TOK_EOF"
    "ps_check t p \<Longrightarrow> 0 < R \<Longrightarrow> ready S V (R - 1) (c + 80) (d + 3) (ps_advance p) \<Longrightarrow> tot Q x" "\<not> ps_check t p \<Longrightarrow> tot Q y"
  shows "tot Q (if ps_check t p then x else y)"
  using assms ready_checked by simp

lemma tot_declare:
  assumes "ready S V R c d p" "\<And>slot q. ready (insert (Locals (Suc slot)) S) V R c d q \<Longrightarrow> slot < 65536 \<Longrightarrow> tot Q (f slot q)"
  shows "tot Q (case declare_local name b p of (slot, q) \<Rightarrow> f slot q)"
  using declare_local_ready [OF assms(1)] assms(2) by (auto split: prod.split)

lemmas emit_wps =
  emit_op_ready [THEN tot_weaken] emit_op_a_ready [THEN tot_weaken] emit_op_ab_ready [THEN tot_weaken]
  emit_jump_ready [THEN tot_weaken2] patch_jump_ready [THEN tot_weaken] emit_loop_ready [THEN tot_weaken]
  emit_loop_mark_ready [THEN tot_weaken2] patch_loop_mark_break_ready [THEN tot_weaken]
  str_const_ready [THEN tot_weaken2'] num_const_ready [THEN tot_weaken2'] prev_name_const_ready [THEN tot_weaken2']

lemmas tot_rules = tot_bindI tot_let tot_pair tot_Some tot_declare emit_wps

lemmas ready_intros =
  ready_fields [THEN iffD2] ready_errors [THEN iffD2] ready_fresh [THEN iffD2] ready_scope_begin [THEN iffD2]
  ready_scope_end ready_consume ready_match ready_advance

lemmas op_simps = cando_opcode_fmt_def s_opcode_fmts_def const_ops_def local_ops_def operand_ok_def can_patch_def

section \<open>Functions that do not call back\<close>

lemma emit_load_ready:
  assumes "ready S V R c d p" "3 \<le> c" "1 \<le> d"
  shows "tot (ready S V R (c - 3) (d - 1)) (emit_load name p)"
proof (cases "resolve_local p name")
  case None
  show ?thesis using assms unfolding emit_load_def None option.case
    by - (rule tot_rules | assumption | simp add: op_simps; fail | erule ready_weaken; force)+
next
  case (Some i)
  show ?thesis using ready_resolved [OF assms(1) Some] assms(2,3) unfolding emit_load_def Some option.case
    by - (erule conjE | rule tot_rules | assumption | simp add: op_simps; fail | erule ready_weaken; force)+
qed

lemma emit_store_ready:
  assumes "ready S V R c d p" "3 \<le> c" "1 \<le> d"
  shows "tot (ready S V R (c - 3) (d - 1)) (emit_store name p)"
proof (cases "resolve_local p name")
  case None
  show ?thesis using assms unfolding emit_store_def None option.case
    by - (rule tot_rules | assumption | simp add: op_simps; fail | erule ready_weaken; force)+
next
  case (Some i)
  show ?thesis using ready_resolved [OF assms(1) Some] assms(2,3) unfolding emit_store_def Some option.case
    by - (erule conjE | rule tot_rules | assumption | simp add: op_simps; fail | erule ready_weaken; force)+
qed

lemmas name_wps = emit_load_ready [THEN tot_weaken] emit_store_ready [THEN tot_weaken]

lemma postfix_step_ready:
  assumes "ready S V R (c + 80) (d + 3) p" "op < OP_COUNT" "cando_opcode_fmt op = OPFMT_NONE" "op \<notin> set const_ops" "op \<notin> set local_ops"
  shows "tot (ready S V R c d) (postfix_step name op p)"
  using assms unfolding postfix_step_def
  by - (rule tot_rules name_wps | assumption | simp add: op_simps; fail | erule ready_weaken; force)+

lemma parse_number_ready: "ready S V R (c + 80) (d + 3) p \<Longrightarrow> tot (ready S V R c d) (parse_number p)"
  unfolding parse_number_def
  by (rule tot_rules | assumption | simp add: op_simps; fail | erule ready_weaken; force)+

lemma parse_string_literal_ready: "ready S V R (c + 80) (d + 3) p \<Longrightarrow> tot (ready S V R c d) (parse_string_literal p)"
  unfolding parse_string_literal_def
  by (rule tot_rules | assumption | simp add: op_simps; fail | erule ready_weaken; force)+

lemma parse_literal_ready:
  assumes "ready S V R (c + 80) (d + 3) p" "tk_type (ps_previous p) \<in> {TOK_NULL_KW, TOK_TRUE_KW, TOK_FALSE_KW}"
  shows "tot (ready S V R c d) (parse_literal p)"
proof -
  have "tot (ready S V R c d) (emit_op op p)" if "op \<in> {OP_NULL, OP_TRUE, OP_FALSE}" for op
    using assms(1) that
    by - (elim insertE emptyE; simp only:; rule tot_rules, assumption, (simp add: op_simps; fail)+, erule ready_weaken; force)
  then show ?thesis using assms(2) by (auto simp: parse_literal_def)
qed

text \<open>Opcodes without operands.\<close>

definition plain_ops :: "nat list" where
  "plain_ops = [OP_NULL, OP_TRUE, OP_FALSE, OP_POP, OP_DUP, OP_ADD, OP_SUB, OP_MUL, OP_DIV, OP_MOD, OP_POW, OP_NEG, OP_NOT, OP_LEN,
     OP_BIT_AND, OP_BIT_OR, OP_BIT_XOR, OP_LSHIFT, OP_RSHIFT, OP_RANGE_ASC, OP_RANGE_DESC, OP_EQ, OP_NEQ, OP_LT, OP_LEQ,
     OP_GT, OP_GEQ, OP_EQ_SPREAD, OP_NEQ_SPREAD, OP_LT_SPREAD, OP_LEQ_SPREAD, OP_GT_SPREAD, OP_GEQ_SPREAD, OP_TRUNCATE_RET,
     OP_SPREAD_RET, OP_PIPE_COLLECT, OP_FILTER_COLLECT, OP_MASK_PASS, OP_MASK_SKIP, OP_LOOP_END, OP_TRY_END,
     OP_PIPE_END]"

lemma plain_op: "op \<in> set plain_ops \<Longrightarrow> op < OP_COUNT \<and> cando_opcode_fmt op = OPFMT_NONE \<and> op \<notin> set const_ops \<and> op \<notin> set local_ops"
  unfolding plain_ops_def list.set by (elim insertE emptyE; simp add: op_simps)

definition stack_ops :: "nat list" where
  "stack_ops = [OP_EQ_STACK, OP_NEQ_STACK, OP_LT_STACK, OP_LEQ_STACK, OP_GT_STACK, OP_GEQ_STACK]"

lemma stack_op: "op \<in> set stack_ops \<Longrightarrow> op < OP_COUNT \<and> cando_opcode_fmt op = OPFMT_A \<and> (operand_ok S op a \<longleftrightarrow> a < 65536)"
  unfolding stack_ops_def list.set by (elim insertE emptyE; simp add: op_simps)

lemma emit_plain_ready: "ready S V R c d p \<Longrightarrow> op \<in> set plain_ops \<Longrightarrow> 1 \<le> c \<Longrightarrow> tot (ready S V R (c - 1) d) (emit_op op p)"
  by (drule plain_op, elim conjE, rule emit_op_ready)

lemma emit_stack_ready:
  "ready S V R c d p \<Longrightarrow> op \<in> set stack_ops \<Longrightarrow> 3 \<le> c \<Longrightarrow> a < 65536 \<Longrightarrow> tot (ready S V R (c - 3) d) (emit_op_a op a p)"
  using stack_op [of op S a] by (intro emit_op_a_ready) simp_all

lemma emit_if_ready:
  "ready S V R c d p \<Longrightarrow> op \<in> set plain_ops \<Longrightarrow> 1 \<le> c \<Longrightarrow> tot (ready S V R (c - 1) d) (emit_if b op p)"
  unfolding emit_if_def by (rule tot_if, erule (2) emit_plain_ready) (auto elim: ready_weaken)

lemmas plain_wps = emit_if_ready [THEN tot_weaken] emit_plain_ready [THEN tot_weaken] emit_stack_ready [THEN tot_weaken]

lemmas ops_simps = op_simps plain_ops_def stack_ops_def

lemma compound_opcode_cases: "compound_opcode t = Some op \<Longrightarrow> op \<in> set plain_ops"
  by (cases t) (simp_all add: compound_opcode_def plain_ops_def)

section \<open>The interface\<close>

locale parser_calls =
  fixes r :: parse_rec and R :: nat
  assumes prec_law: "ready S V Q c d p \<Longrightarrow> Q \<le> R \<Longrightarrow> tot (ready S V Q c d) (rec_precedence r m p)"
    and prec_moves: "ready S V Q c d p \<Longrightarrow> Q \<le> R \<Longrightarrow> \<not> ps_check TOK_EOF p \<Longrightarrow>
                       tot (\<lambda>q. 0 < Q \<and> ready S V (Q - 1) (c + 1) d q) (rec_precedence r m p)"
    and stmt_law: "ready S V Q c d p \<Longrightarrow> Q \<le> R \<Longrightarrow> \<not> ps_check TOK_EOF p \<Longrightarrow>
                     tot (\<lambda>q. 0 < Q \<and> ready S V (Q - 1) c d q) (rec_statement r p)"
    and if_law: "ready S V Q (c + 80) (d + 3) p \<Longrightarrow> Q < R \<Longrightarrow> tot (ready S V Q c d) (rec_if r p)"
    and fuel_law: "R + 1 < rec_fuel r"
begin

lemma expression_ready: "ready S V Q c d p \<Longrightarrow> Q \<le> R \<Longrightarrow> tot (ready S V Q c d) (parse_expression r p)"
  unfolding parse_expression_def by (rule prec_law)

lemma block_ready:
  assumes "ready S V Q c d p" "Q \<le> R"
  shows "tot (ready S V Q c d) (parse_block r p)"
proof -
  have "tot (\<lambda>s. ready S V Q c d s \<and> \<not> \<not> ps_at [TOK_RBRACE, TOK_EOF] s)
      (loop_while (rec_fuel r) (\<lambda>p. \<not> ps_at [TOK_RBRACE, TOK_EOF] p) (rec_statement r) p)"
  proof (rule loop_while_tot [where I = "\<lambda>T s. ready S V T c d s" and R = Q])
    show "Q < rec_fuel r" using fuel_law assms(2) by simp
    show "tot (\<lambda>s'. 0 < T \<and> ready S V (T - 1) c d s') (rec_statement r s)"
      if "ready S V T c d s" "T \<le> Q" "\<not> ps_at [TOK_RBRACE, TOK_EOF] s" for T s
      by (rule stmt_law [OF that(1)]) (use that assms(2) in auto)
    show "ready S V Q c d s" if "ready S V T c d s" "T \<le> Q" for T s
      using ready_weaken [OF that(1)] that(2) by blast
    show "ready S V Q c d p" by (rule assms(1))
  qed
  then show ?thesis unfolding parse_block_def by (rule tot_bindI [OF tot_weaken]) (auto intro: ready_consume)
qed

lemmas call_wps = prec_law [THEN tot_weaken] expression_ready [THEN tot_weaken] block_ready [THEN tot_weaken]

lemma unpack_ready: "ready S V Q (c + 80) (d + 3) p \<Longrightarrow> Q \<le> R \<Longrightarrow> tot (ready S V Q c d) (parse_unpack r p)"
  unfolding parse_unpack_def
  by (rule tot_rules call_wps | assumption | rule ready_intros | simp add: op_simps; fail | erule ready_weaken; force)+

lemma unary_ready: "ready S V Q (c + 80) (d + 3) p \<Longrightarrow> Q \<le> R \<Longrightarrow> tot (ready S V Q c d) (parse_unary r p)"
proof -
  assume a: "ready S V Q (c + 80) (d + 3) p" "Q \<le> R"
  have "tot (ready S V Q c d) (case t of TOK_MINUS \<Rightarrow> emit_op OP_NEG q | TOK_BANG \<Rightarrow> emit_op OP_NOT q
      | TOK_HASH \<Rightarrow> emit_op OP_LEN q | _ \<Rightarrow> Some q)" if "ready S V Q (c + 80) (d + 3) q" for q t
  proof -
    have "tot (ready S V Q c d) (emit_op op q)" if "op \<in> {OP_NEG, OP_NOT, OP_LEN}" for op
      using \<open>ready S V Q (c + 80) (d + 3) q\<close> that
      by - (elim insertE emptyE; simp only:; rule tot_rules, assumption, (simp add: op_simps; fail)+, erule ready_weaken; force)
    moreover have "ready S V Q c d q" using that by (rule ready_weaken) auto
    ultimately show ?thesis by (simp split: token_type.split)
  qed
  note step = this [THEN tot_weaken]
  show ?thesis unfolding parse_unary_def using a
    by - (rule tot_bindI tot_let call_wps step tot_Some | assumption | rule ready_intros | simp; fail)+
qed

lemma variable_ready:
  assumes "ready S V Q (c + 80) (d + 3) p" "Q \<le> R"
  shows "tot (ready S V Q c d) (parse_variable_expr r b p)"
proof -
  let ?name = "token_text p (ps_previous p)"
  note step = tot_rules name_wps call_wps tot_check postfix_step_ready [THEN tot_weaken]
  have compound: "tot (ready S V Q c d) (do { p \<leftarrow> emit_load ?name (ps_advance p); p \<leftarrow> parse_expression r p; p \<leftarrow> emit_op op p;
        emit_store ?name p })" if "compound_opcode (tk_type (ps_current p)) = Some op" for op
  proof -
    show ?thesis using ready_advance [OF assms(1)] assms(2) compound_opcode_cases [OF that, THEN plain_op]
      by - (erule conjE | rule step | assumption | simp; fail | erule ready_weaken; force)+
  qed
  show ?thesis
  proof (cases "compound_opcode (tk_type (ps_current p))")
    case None
    then show ?thesis using assms unfolding parse_variable_expr_def Let_def option.case None
      by - (assumption | rule tot_if step | simp add: op_simps; fail | linarith | erule ready_weaken; force)+
  next
    case (Some op)
    show ?thesis using assms compound [OF Some] unfolding parse_variable_expr_def Let_def option.case Some
      by - (assumption | rule tot_if step | simp add: op_simps; fail | erule ready_weaken; force)+
  qed
qed

end

end
