(* ===== verification/Parser_Exprs.thy ===== *)
theory Parser_Exprs
  imports Parser_Calls
begin

text \<open>
  The expression functions of \<open>Parser_Expr\<close> keep the interface \<open>parser_calls\<close>: each of them, called with the credit of the
  token it was chosen for, gives it back used up.
\<close>

section \<open>The end of the source\<close>

lemma precedence_at_end:
  assumes "ps_check TOK_EOF p" "ready S V Q c d p"
  shows "tot (ready S V Q c d) (parse_precedence r m p)"
proof -
  let ?p = "p\<lparr>ps_last_expr_was_call := False\<rparr>"
  have "ps_previous (ps_advance ?p) = ps_current p" using advance_spec [of ?p] by simp
  then have "prefix_rule r (m \<le> PREC_ASSIGN) (tk_type (ps_previous (ps_advance ?p))) = None"
    using assms(1) by (simp add: prefix_rule_def ps_check_def)
  moreover have "ready S V Q c d (ps_advance ?p)" using assms(2) by (intro ready_advance) simp
  ultimately show ?thesis by (simp add: parse_precedence_def Let_def)
qed

context parser_calls
begin

section \<open>Lists\<close>

text \<open>An element costs at most \<open>e\<close> bytes and \<open>g\<close> constants, which a comma pays for; it may leave \<open>f\<close> constants to spend later.\<close>

lemma comma_ready:
  assumes "ready S V Q (c + e) (d + g + f x) p" "J x" "Q \<le> R" "e \<le> 80" "g \<le> 3"
    "\<And>T x p. ready S V T (c + e) (d + g + f x) p \<Longrightarrow> T \<le> Q \<Longrightarrow> J x \<Longrightarrow>
       tot (\<lambda>(again, x, p). ready S V T c (d + f x) p \<and> J x) (body x p)"
  shows "tot (\<lambda>(x, p). ready S V Q c (d + f x) p \<and> J x) (comma_list (rec_fuel r) body x p)"
proof (rule comma_list_tot [where P = "\<lambda>T x p. ready S V T (c + e) (d + g + f x) p \<and> J x"
      and E = "\<lambda>T x p. ready S V T c (d + f x) p \<and> J x" and R = Q])
  show "ready S V Q (c + e) (d + g + f x) p \<and> J x" using assms(1,2) by simp
  show "Q < rec_fuel r" using fuel_law assms(3) by simp
  show "tot (\<lambda>(again, x, p). ready S V T c (d + f x) p \<and> J x) (body x p)"
    if "ready S V T (c + e) (d + g + f x) p \<and> J x" "T \<le> Q" for T x p
    using assms(6) that by blast
  show "0 < T \<and> ready S V (T - 1) (c + e) (d + g + f x) (ps_advance p) \<and> J x"
    if "ready S V T c (d + f x) p \<and> J x" "T \<le> Q" "ps_check TOK_COMMA p" for T x p
    using ready_checked [OF conjunct1 [OF that(1)] that(3)] that(1) assms(4,5) by (auto elim!: ready_weaken)
  show "ready S V Q c (d + f x) p \<and> J x" if "ready S V T c (d + f x) p \<and> J x" "T \<le> Q" for T x p
    using that by (auto elim!: ready_weaken)
qed

lemma nested_ready:
  assumes "ready S V Q (c + e) (d + g) p" "J x" "Q \<le> R" "e \<le> 80" "g \<le> 3"
    "\<And>T x p. ready S V T (c + e) (d + g) p \<Longrightarrow> T \<le> Q \<Longrightarrow> J x \<Longrightarrow> tot (\<lambda>(again, x, p). ready S V T c d p \<and> J x) (body x p)"
  shows "tot (\<lambda>(x, p). ready S V Q c d p \<and> J x) (nested_list r close body x p)"
proof -
  have "tot (\<lambda>(x, p). ready S V Q c d p \<and> J x)
      (comma_list (rec_fuel r) body x (p\<lparr>ps_call_depth := ps_call_depth p + 1\<rparr>))"
    using comma_ready [of S V Q c e d g "\<lambda>_. 0" x "p\<lparr>ps_call_depth := ps_call_depth p + 1\<rparr>" J body] assms by simp
  then have "tot (\<lambda>(x, p). ready S V Q c d p \<and> J x) (do {
      (x, p) \<leftarrow> comma_list (rec_fuel r) body x (p\<lparr>ps_call_depth := ps_call_depth p + 1\<rparr>);
      Some (x, p\<lparr>ps_call_depth := ps_call_depth p - 1\<rparr>) })"
    by (auto simp: tot_def)
  moreover have "ready S V Q c d p" using assms(1) by (rule ready_weaken) auto
  ultimately show ?thesis using assms(2) unfolding nested_list_def by (rule_tac tot_if) auto
qed

text \<open>The lists of values: two bytes each and no constant; the count fits 16 bits.\<close>

lemma value_list_ready:
  assumes "ready S V Q c d p" "Q \<le> R" "2 \<le> c"
    "\<And>T (n::nat) p. ready S V T c d p \<Longrightarrow> T \<le> Q \<Longrightarrow> n \<le> 65535 \<Longrightarrow>
       tot (\<lambda>(again, x, p). ready S V T (c - 2) d p \<and> x \<le> 65535) (body n p)"
  shows "tot (\<lambda>(x, p). ready S V Q (c - 2) d p \<and> x \<le> 65535) (nested_list r close body 0 p)"
proof -
  have c: "c - 2 + 2 = c" using assms(3) by simp
  show ?thesis
    using nested_ready [of S V Q "c - 2" 2 d 0 p "\<lambda>n. n \<le> 65535" 0 body close, unfolded c add_0_right, OF assms(1) _ assms(2)] assms(4)
    by simp
qed

section \<open>Literals\<close>

lemma array_element_ready:
  assumes "ready S V Q c d p" "Q \<le> R" "2 \<le> c" "n \<le> 65535"
  shows "tot (\<lambda>(again, x, p). ready S V Q (c - 2) d p \<and> x \<le> 65535) (array_element r n p)"
  using assms unfolding array_element_def Let_def
  by - (assumption | rule tot_if tot_rules call_wps ready_intros | simp add: op_simps; fail |
    (simp only: prod.case ready_errors; intro conjI; (erule ready_weaken; force | simp)))+

lemma array_ready: "ready S V Q (c + 80) (d + 3) p \<Longrightarrow> Q \<le> R \<Longrightarrow> tot (ready S V Q c d) (parse_array_literal r p)"
  unfolding parse_array_literal_def
  by (assumption | rule tot_bindI value_list_ready [THEN tot_weaken2'] array_element_ready tot_rules ready_intros |
    linarith | simp add: op_simps; fail | erule ready_weaken; force)+

lemma object_entry_ready:
  assumes "ready S V Q (c + 10) (d + 1) p" "Q \<le> R"
  shows "tot (\<lambda>(again, x, p). ready S V Q c d p \<and> True) (object_entry r u p)"
  using assms unfolding object_entry_def Let_def
  by - (assumption | rule tot_if tot_rules call_wps ready_intros | simp add: op_simps; fail |
    (simp only: prod.case ready_errors; intro conjI; (erule ready_weaken; force | simp)))+

lemma object_ready: "ready S V Q (c + 80) (d + 3) p \<Longrightarrow> Q \<le> R \<Longrightarrow> tot (ready S V Q c d) (parse_object_literal r p)"
proof -
  assume a: "ready S V Q (c + 80) (d + 3) p" "Q \<le> R"
  have "tot (\<lambda>(x, p). ready S V Q (c + 69) (d + 2) p \<and> True) (nested_list r TOK_RBRACE (object_entry r) () q)"
    if "ready S V Q (c + 80 - 1) (d + 3) q" for q
  proof (rule nested_ready [where e = 10 and g = 1])
    show "ready S V Q (c + 69 + 10) (d + 2 + 1) q" using that by (rule ready_weaken) auto
    show "tot (\<lambda>(again, x, p). ready S V T (c + 69) (d + 2) p \<and> True) (object_entry r x p)"
      if "ready S V T (c + 69 + 10) (d + 2 + 1) p" "T \<le> Q" for T x p
      using object_entry_ready [OF that(1)] that(2) a(2) by simp
  qed (use a(2) in auto)
  note step = this [THEN tot_weaken2']
  show ?thesis using a unfolding parse_object_literal_def
    by - (assumption | rule step tot_rules ready_intros | simp add: op_simps; fail | erule ready_weaken; force)+
qed

section \<open>Masks\<close>

lemma mask_bits_ready:
  assumes "ready S V Q c d p" "Q \<le> R" "ps_at [TOK_TILDE, TOK_DOT, TOK_VARARG] p"
  shows "tot (\<lambda>(bits, p). ready S V Q c d p \<and> (bits \<noteq> [] \<and> length bits \<le> 32)) (mask_bits r p)"
proof -
  let ?at = "ps_at [TOK_TILDE, TOK_DOT, TOK_VARARG]"
  let ?I = "\<lambda>T s. ready S V T c d (snd s) \<and> length (fst s) \<le> 32 \<and> (fst s = [] \<longrightarrow> ?at (snd s))"
  have "tot (\<lambda>s. ?I Q s \<and> \<not> (case s of (bits, p) \<Rightarrow> length bits < 32 \<and> ?at p))
      (loop_while (rec_fuel r) (\<lambda>(bits, p). length bits < 32 \<and> ?at p) mask_bit ([], p))"
  proof (rule loop_while_tot [where I = ?I and R = Q])
    show "Q < rec_fuel r" using fuel_law assms(2) by simp
    show "?I Q s" if "?I T s" "T \<le> Q" for T s using that by (auto elim!: ready_weaken)
    show "tot (\<lambda>s'. 0 < T \<and> ?I (T - 1) s') (mask_bit s)" if "?I T s" "T \<le> Q" "case s of (bits, p) \<Rightarrow> length bits < 32 \<and> ?at p" for T s
    proof -
      obtain bits q where s: "s = (bits, q)" by force
      have "\<not> ps_check TOK_EOF q" using that(3) s by (auto simp: ps_check_def)
      then have "0 < T \<and> ready S V (T - 1) c d (ps_advance q)"
        using ready_next [of S V T c d q] that(1) s by (auto elim: ready_weaken)
      then show ?thesis using that(3) s by (auto simp: mask_bit_def Let_def)
    qed
  qed (use assms in simp)
  then show ?thesis unfolding mask_bits_def by (rule tot_weaken) auto
qed

lemma emit_mask_ready: "ready S V Q c d p \<Longrightarrow> 1 \<le> c \<Longrightarrow> tot (ready S V Q (c - 1) d) (emit_mask b p)"
  unfolding emit_mask_def by (rule tot_if; rule emit_plain_ready) (simp_all add: plain_ops_def)

lemmas mask_wps = emit_mask_ready [THEN tot_weaken]

text \<open>One value of a mask: the comma pays for its instruction.\<close>

lemma mask_value_ready:
  assumes "ready S V Q c d p" "Q \<le> R" "ps_check TOK_COMMA p"
  shows "tot (\<lambda>q. 0 < Q \<and> ready S V (Q - 1) c d q) (do { p \<leftarrow> rec_precedence r PREC_ASSIGN (ps_advance p); emit_mask b p })"
proof -
  have "0 < Q \<and> ready S V (Q - 1) (c + 80) (d + 3) (ps_advance p)" using ready_checked [OF assms(1,3)] by simp
  then show ?thesis using assms(2)
    by - (erule conjE | assumption | rule tot_bindI call_wps mask_wps | linarith | simp; fail | (rule conjI, assumption, erule ready_weaken; force))+
qed

lemma mask_values_ready:
  "ready S V Q c d p \<Longrightarrow> Q \<le> R \<Longrightarrow> tot (\<lambda>(k, p). ready S V Q c d p \<and> True) (mask_values r bs p)"
proof (induction bs arbitrary: p Q)
  case (Cons b bs)
  have "tot (\<lambda>(k, p). ready S V Q c d p \<and> True)
      (do { p \<leftarrow> rec_precedence r PREC_ASSIGN (ps_advance p); p \<leftarrow> emit_mask b p; (k, p) \<leftarrow> mask_values r bs p; Some (k + of_bool b, p) })"
    if c: "ps_check TOK_COMMA p"
  proof -
    have "tot (\<lambda>(k, p). ready S V Q c d p \<and> True) (do { (k, p) \<leftarrow> mask_values r bs q; Some (k + of_bool b, p) })"
      if "0 < Q \<and> ready S V (Q - 1) c d q" for q
    proof -
      have "tot (\<lambda>(k, p). ready S V (Q - 1) c d p \<and> True) (mask_values r bs q)"
        using Cons.IH [of "Q - 1" q] Cons.prems(2) that by simp
      then show ?thesis by (auto simp: tot_def elim!: ready_weaken)
    qed
    from tot_bind [OF mask_value_ready [OF Cons.prems c, of b] this] show ?thesis by simp
  qed
  then show ?case using Cons.prems by (simp add: ps_error_def)
qed simp

lemma mask_extra_ready:
  assumes "ready S V Q c d p" "Q \<le> R"
  shows "tot (\<lambda>(k, p). ready S V Q c d p \<and> True)
           (loop_while (rec_fuel r) (\<lambda>(k, p). ps_check TOK_COMMA p) (mask_extra r b) (k, p))"
proof -
  let ?I = "\<lambda>T s. ready S V T c d (snd s)"
  have "tot (\<lambda>s. ?I Q s \<and> \<not> (case s of (k, p) \<Rightarrow> ps_check TOK_COMMA p))
      (loop_while (rec_fuel r) (\<lambda>(k, p). ps_check TOK_COMMA p) (mask_extra r b) (k, p))"
  proof (rule loop_while_tot [where I = ?I and R = Q])
    show "Q < rec_fuel r" using fuel_law assms(2) by simp
    show "?I Q s" if "?I T s" "T \<le> Q" for T s using that by (auto elim!: ready_weaken)
    show "tot (\<lambda>s'. 0 < T \<and> ?I (T - 1) s') (mask_extra r b s)" if "?I T s" "T \<le> Q" "case s of (k, p) \<Rightarrow> ps_check TOK_COMMA p" for T s
    proof -
      obtain k q where s: "s = (k, q)" by force
      have "T \<le> R" using that(2) assms(2) by simp
      then have "tot (\<lambda>q. 0 < T \<and> ready S V (T - 1) c d q) (do { p \<leftarrow> rec_precedence r PREC_ASSIGN (ps_advance q); emit_mask b p })"
        using mask_value_ready that(1,3) s by simp
      from tot_bind [OF this, of "\<lambda>s'. 0 < T \<and> ?I (T - 1) s'" "\<lambda>p. Some (k + of_bool b, p)"] show ?thesis
        using s by (simp add: mask_extra_def)
    qed
  qed (use assms in simp)
  then show ?thesis by (rule tot_weaken) auto
qed

lemma mask_word_less: "mask_word bits < 65536"
  by (simp add: mask_word_def)

lemma mask_emit_ready:
  assumes "ready S V Q (c + 80) (d + 3) p" "Q \<le> R" "bits \<noteq> []" "length bits \<le> 32"
  shows "tot (ready S V Q c d) (parse_mask_emit r bits p)"
proof -
  obtain b bs where bits: "bits = b # bs" using assms(3) by (cases bits) auto
  have n: "length bits < 65536" "mask_word bits < 65536" using assms(4) mask_word_less by simp_all
  show ?thesis using assms(1,2) n unfolding parse_mask_emit_def bits list.case
    by - (assumption | rule tot_if tot_bindI call_wps mask_wps mask_values_ready [THEN tot_weaken2'] mask_extra_ready [THEN tot_weaken2']
        tot_rules ready_intros | simp add: op_simps; fail | erule ready_weaken; force)+
qed

lemma grouping_ready: "ready S V Q (c + 80) (d + 3) p \<Longrightarrow> Q \<le> R \<Longrightarrow> tot (ready S V Q c d) (parse_grouping r p)"
  unfolding parse_grouping_def
  by (assumption | erule conjE | rule tot_if mask_bits_ready [THEN tot_weaken2'] mask_emit_ready call_wps tot_rules ready_intros |
    simp; fail | erule ready_weaken; force)+

section \<open>Operators\<close>

lemma cmp_list_ready:
  assumes "ready S V Q c d p" "Q \<le> R" "4 \<le> c" "stack_op \<in> set stack_ops"
  shows "tot (ready S V Q (c - 4) d) (cmp_list r next stack_op b m p)"
proof -
  let ?I = "\<lambda>T s. ready S V T (c - 1) d (snd s) \<and> fst s < (65536::nat)"
  have loop: "tot (\<lambda>(n, p). ready S V Q (c - 1) d p \<and> n < 65536)
      (loop_while (rec_fuel r) (\<lambda>(n, p). ps_check TOK_COMMA p) (cmp_value r next) (n, q))"
    if "ready S V Q (c - 1) d q" "n < 65536" for n q
  proof -
    have "tot (\<lambda>s. ?I Q s \<and> \<not> (case s of (n, p) \<Rightarrow> ps_check TOK_COMMA p))
        (loop_while (rec_fuel r) (\<lambda>(n, p). ps_check TOK_COMMA p) (cmp_value r next) (n, q))"
    proof (rule loop_while_tot [where I = ?I and R = Q])
      show "Q < rec_fuel r" using fuel_law assms(2) by simp
      show "?I Q s" if "?I T s" "T \<le> Q" for T s using that by (auto elim!: ready_weaken)
      show "tot (\<lambda>s'. 0 < T \<and> ?I (T - 1) s') (cmp_value r next s)"
        if "?I T s" "T \<le> Q" "case s of (n, p) \<Rightarrow> ps_check TOK_COMMA p" for T s
      proof -
        obtain n q where s: "s = (n, q)" by force
        have c: "ps_check TOK_COMMA q" "ready S V T (c - 1) d q" using that(1,3) s by simp_all
        have "0 < T \<and> ready S V (T - 1) (c - 1 + 80) (d + 3) (ps_advance q)" using ready_checked [OF c(2,1)] by simp
        then show ?thesis using that(2) assms(2) unfolding cmp_value_def s truncate_call_def
          by - (erule conjE | assumption | rule tot_rules call_wps plain_wps ready_intros | linarith | simp add: plain_ops_def; fail |
            (simp only: fst_conv snd_conv; intro conjI; (assumption | simp; fail | erule ready_weaken; force)))+
      qed
    qed (use that in simp)
    then show ?thesis by (rule tot_weaken) auto
  qed
  show ?thesis using assms unfolding cmp_list_def
    by - (assumption | rule tot_rules plain_wps loop [THEN tot_weaken2'] | linarith | simp add: plain_ops_def; fail | erule ready_weaken; force)+
qed

lemma multi_cmp_ready:
  assumes "ready S V Q (c + 80) (d + 3) p" "Q \<le> R" "plain_op \<in> set plain_ops" "stack_op \<in> set stack_ops" "spread_op \<in> set plain_ops"
  shows "tot (ready S V Q c d) (multi_cmp r next plain_op stack_op spread_op p)"
  using assms unfolding multi_cmp_def Let_def
  by - (assumption | rule tot_if tot_bindI plain_wps cmp_list_ready [THEN tot_weaken] ready_intros |
    simp add: plain_ops_def; fail | erule ready_weaken; force)+

lemma range_or_cmp_ready:
  assumes "ready S V Q (c + 80) (d + 3) p" "Q \<le> R"
  shows "tot (ready S V Q c d) (range_or_cmp r next op p)"
  using assms unfolding range_or_cmp_def Let_def truncate_call_def
  by - (assumption | rule tot_if tot_bindI plain_wps cmp_list_ready [THEN tot_weaken] call_wps tot_rules ready_intros |
    simp add: ops_simps; fail | (simp only: ready_errors if_distrib [of "ready S V Q c d"] if_cancel)?; erule ready_weaken; force)+

lemma binary_opcode_cases: "binary_opcode t = Some op \<Longrightarrow> op \<in> set plain_ops"
  by (cases t) (simp_all add: binary_opcode_def plain_ops_def)

lemma binary_ready: "ready S V Q (c + 80) (d + 3) p \<Longrightarrow> Q \<le> R \<Longrightarrow> tot (ready S V Q c d) (parse_binary r p)"
proof -
  assume a: "ready S V Q (c + 80) (d + 3) p" "Q \<le> R"
  let ?op = "tk_type (ps_previous p)"
  have step: "tot (ready S V Q c d) (case binary_opcode ?op of
        Some opcode \<Rightarrow> emit_op opcode q
      | None \<Rightarrow>
          if ?op = TOK_EQ then multi_cmp r nx OP_EQ OP_EQ_STACK OP_EQ_SPREAD q
          else if ?op = TOK_NEQ then multi_cmp r nx OP_NEQ OP_NEQ_STACK OP_NEQ_SPREAD q
          else if ?op = TOK_LT then multi_cmp r nx OP_LT OP_LT_STACK OP_LT_SPREAD q
          else if ?op = TOK_LEQ then multi_cmp r nx OP_LEQ OP_LEQ_STACK OP_LEQ_SPREAD q
          else if ?op = TOK_GT \<or> ?op = TOK_GEQ then range_or_cmp r nx ?op q
          else Some q)" if q: "ready S V Q (c + 80) (d + 3) q" for q nx
  proof (cases "binary_opcode ?op")
    case None
    show ?thesis using q a(2) unfolding None option.case
      by - (assumption | rule tot_if tot_Some multi_cmp_ready range_or_cmp_ready | simp add: ops_simps; fail | erule ready_weaken; force)+
  next
    case (Some opcode)
    show ?thesis using q a(2) binary_opcode_cases [OF Some] unfolding Some option.case
      by - (assumption | rule plain_wps | simp; fail | erule ready_weaken; force)+
  qed
  show ?thesis using a unfolding parse_binary_def
    by - (assumption | rule tot_bindI tot_let call_wps step [THEN tot_weaken] tot_Some ready_intros | simp; fail | erule ready_weaken; force)+
qed

lemma and_ready: "ready S V Q (c + 80) (d + 3) p \<Longrightarrow> Q \<le> R \<Longrightarrow> tot (ready S V Q c d) (parse_and r p)"
  unfolding parse_and_def
  by (assumption | rule call_wps tot_rules ready_intros | simp add: op_simps; fail | erule ready_weaken; force)+

lemma or_ready: "ready S V Q (c + 80) (d + 3) p \<Longrightarrow> Q \<le> R \<Longrightarrow> tot (ready S V Q c d) (parse_or r p)"
  unfolding parse_or_def
  by (assumption | rule call_wps tot_rules ready_intros | simp add: op_simps; fail | erule ready_weaken; force)+

lemma dot_ready: "ready S V Q (c + 80) (d + 3) p \<Longrightarrow> Q \<le> R \<Longrightarrow> tot (ready S V Q c d) (parse_dot r b p)"
  unfolding parse_dot_def
  by (assumption | rule tot_if call_wps tot_rules ready_intros | simp add: op_simps; fail | erule ready_weaken; force)+

lemma subscript_ready: "ready S V Q (c + 80) (d + 3) p \<Longrightarrow> Q \<le> R \<Longrightarrow> tot (ready S V Q c d) (parse_subscript r b p)"
  unfolding parse_subscript_def
  by (assumption | rule tot_if call_wps tot_rules ready_intros | simp add: op_simps; fail | erule ready_weaken; force)+

section \<open>Calls\<close>

lemma call_argument_ready:
  assumes "ready S V Q c d p" "Q \<le> R" "2 \<le> c" "n \<le> 65535"
  shows "tot (\<lambda>(again, x, p). ready S V Q (c - 2) d p \<and> x \<le> 65535) (call_argument r n p)"
  using assms unfolding call_argument_def Let_def
  by - (assumption | rule tot_if tot_rules call_wps ready_intros | simp add: op_simps; fail |
    (simp only: prod.case ready_errors; intro conjI; (erule ready_weaken; force | simp)))+

lemma method_argument_ready:
  assumes "ready S V Q c d p" "Q \<le> R" "2 \<le> c" "n \<le> 65535"
  shows "tot (\<lambda>(again, x, p). ready S V Q (c - 2) d p \<and> x \<le> 65535) (method_argument r n p)"
  using assms unfolding method_argument_def Let_def
  by - (assumption | rule tot_if tot_rules plain_wps call_wps ready_intros | simp add: ops_simps; fail |
    (simp only: prod.case ready_errors; intro conjI; (erule ready_weaken; force | simp)))+

lemmas argument_wps = value_list_ready [THEN tot_weaken2'] call_argument_ready method_argument_ready

lemma call_ready: "ready S V Q (c + 80) (d + 3) p \<Longrightarrow> Q \<le> R \<Longrightarrow> tot (ready S V Q c d) (parse_call r p)"
  unfolding parse_call_def
  by (assumption | rule tot_bindI argument_wps tot_rules ready_intros | linarith | simp add: op_simps; fail | erule ready_weaken; force)+

lemma fluent_ready: "ready S V Q (c + 80) (d + 3) p \<Longrightarrow> Q \<le> R \<Longrightarrow> tot (ready S V Q c d) (parse_fluent r p)"
  unfolding parse_fluent_def
  by (assumption | rule tot_bindI argument_wps tot_rules ready_intros | linarith | simp add: op_simps; fail | erule ready_weaken; force)+

lemma method_call_ready: "ready S V Q (c + 80) (d + 3) p \<Longrightarrow> Q \<le> R \<Longrightarrow> tot (ready S V Q c d) (parse_method_call r p)"
  unfolding parse_method_call_def
  by (assumption | rule tot_bindI argument_wps tot_rules ready_intros | linarith | simp add: op_simps; fail | erule ready_weaken; force)+

section \<open>Pipes\<close>

lemma pipe_block_ready:
  assumes "ready S V Q c d p" "Q \<le> R" "1 \<le> c"
  shows "tot (ready S V Q (c - 1) d) (pipe_block r p)"
proof -
  have "ready S (max V (ps_pipe_exit_count p)) Q c d (p\<lparr>ps_in_pipe_body := True, ps_pipe_exit_count := 0\<rparr>)"
    using assms(1) by (rule ready_enter_pipe)
  then show ?thesis using assms(2,3) unfolding pipe_block_def Let_def
    by - (assumption | rule tot_bindI tot_Some call_wps plain_wps patch_pipe_exits_ready [THEN tot_weaken] ready_leave_pipe |
      simp add: plain_ops_def; fail)+
qed

lemma pipe_loop_ready:
  assumes "ready S V Q (c + 80) (d + 3) p" "Q \<le> R" "next_op \<in> {OP_PIPE_NEXT, OP_FILTER_NEXT}" "collect_op \<in> set plain_ops"
  shows "tot (ready S V Q c d) (pipe_loop r next_op collect_op p)"
proof -
  have next_op: "next_op < OP_COUNT" "cando_opcode_fmt next_op = OPFMT_A" "can_patch next_op"
    using assms(3) by (elim insertE emptyE; simp add: op_simps)+
  note collect = plain_op [OF assms(4)]
  have body: "tot (ready S V Q (c - 1) d) (if ps_check TOK_LBRACE q then pipe_block r (ps_advance q) else parse_expression r q)"
    if "ready S V Q c d q" "1 \<le> c" for S c d q
    using that assms(2) by - (assumption | rule tot_if pipe_block_ready expression_ready [THEN tot_weaken] ready_advance | simp; fail | erule ready_weaken; force)+
  have loop: "tot (ready S V Q c d) (do {
       (exit_jump, p) \<leftarrow> emit_jump next_op q;
       p \<leftarrow> emit_op_a OP_DEF_LOCAL (u16 slot) p;
       p \<leftarrow> (if ps_check TOK_LBRACE p then pipe_block r (ps_advance p) else parse_expression r p);
       p \<leftarrow> emit_op collect_op p;
       p \<leftarrow> emit_loop (code_len q) p;
       p \<leftarrow> patch_jump exit_jump p;
       emit_op OP_PIPE_END (scope_end p) })"
    if q: "ready (insert (Locals (Suc slot)) S) V Q (c + 60) (d + 3) q" and slot: "slot < 65536" for slot q
  proof -
    have "ready (insert (Boundary (code_len q)) (insert (Locals (Suc slot)) S)) V Q (c + 60) (d + 3) q"
      using q by (rule ready_mark_boundary)
    then show ?thesis using assms(2,4) next_op collect slot
      by - (assumption | erule conjE | rule tot_rules body [THEN tot_weaken] plain_wps ready_intros | simp add: op_simps; fail | erule ready_weaken; force)+
  qed
  have "tot (ready S V Q c d) (do {
       p \<leftarrow> emit_op_a OP_PIPE_INIT 1 p;
       p \<leftarrow> emit_op OP_NULL (scope_begin p);
       case declare_local ''pipe'' False p of (pipe_slot, p) \<Rightarrow> do {
         p \<leftarrow> emit_op_a OP_DEF_LOCAL (u16 pipe_slot) p;
         (exit_jump, q) \<leftarrow> emit_jump next_op p;
         q \<leftarrow> emit_op_a OP_DEF_LOCAL (u16 pipe_slot) q;
         q \<leftarrow> (if ps_check TOK_LBRACE q then pipe_block r (ps_advance q) else parse_expression r q);
         q \<leftarrow> emit_op collect_op q;
         q \<leftarrow> emit_loop (code_len p) q;
         q \<leftarrow> patch_jump exit_jump q;
         emit_op OP_PIPE_END (scope_end q) } })"
    using assms(1)
    by - (assumption | rule loop | rule tot_rules ready_intros | simp add: op_simps; fail | erule ready_weaken; force)+
  then show ?thesis unfolding pipe_loop_def Let_def .
qed

lemma pipe_ready: "ready S V Q (c + 80) (d + 3) p \<Longrightarrow> Q \<le> R \<Longrightarrow> tot (ready S V Q c d) (parse_pipe_op r p)"
  unfolding parse_pipe_op_def by (rule pipe_loop_ready) (simp_all add: plain_ops_def)

lemma filter_ready: "ready S V Q (c + 80) (d + 3) p \<Longrightarrow> Q \<le> R \<Longrightarrow> tot (ready S V Q c d) (parse_filter_op r p)"
  unfolding parse_filter_op_def by (rule pipe_loop_ready) (simp_all add: plain_ops_def)

section \<open>Functions and threads\<close>

lemma declare_ready: "ready S V Q c d p \<Longrightarrow> ready S V Q c d (snd (declare_local name b p))"
  using declare_local_ready [of S V Q c d p name b "fst (declare_local name b p)" "snd (declare_local name b p)"]
  by (auto elim: ready_weaken)

lemma declare_all_ready: "ready S V Q c d p \<Longrightarrow> ready S V Q c d (fold (\<lambda>name p. snd (declare_local name False p)) names p)"
  by (induction names arbitrary: p) (auto intro: declare_ready)

lemma function_body_ready:
  assumes "ready S V Q c d p" "Q \<le> R" "7 \<le> c" "1 \<le> d"
  shows "tot (\<lambda>(i, q). ready (insert (Const i) S) V Q (c - 7) (d - 1) q \<and> i < 65536) (function_body r params p)"
proof -
  let ?S = "insert (Locals (length (ps_locals p))) S"
  have locals: "ready ?S V Q c d p" "length (ps_locals p) \<le> 256"
    using assms(1) ready_mark_locals by (auto simp: ready_def shape_ok_def)
  have saved: "ps_locals q = ps_locals p" if "emit_jump OP_JUMP p = Some (at, q)" for at q
    using that by (auto simp: emit_jump_def fault_simps)
  have rest: "tot (\<lambda>(i, q). ready (insert (Const i) S) V Q (c - 7) (d - 1) q \<and> i < 65536) (do {
       p' \<leftarrow> parse_block r (fold (\<lambda>name p. snd (declare_local name False p)) ([] # params) (q\<lparr>ps_locals := [], ps_scope_depth := 1\<rparr>));
       p' \<leftarrow> emit_op OP_NULL p';
       p' \<leftarrow> emit_op_a OP_RETURN 1 p';
       p' \<leftarrow> patch_jump at (p'\<lparr>ps_locals := ps_locals p, ps_scope_depth := z\<rparr>);
       num_const x p' })"
    if "ready (insert (Operand at) ?S) V Q (c - 3) d q" for at q z x
    using that assms(2-4) locals(2)
    by - (assumption | rule tot_bindI call_wps emit_op_ready [THEN tot_weaken] emit_op_a_ready [THEN tot_weaken]
        patch_jump_ready [THEN tot_weaken] num_const_ready [THEN tot_weaken2'] declare_all_ready ready_intros ready_no_locals ready_set_locals |
      simp add: op_simps; fail | (auto elim!: ready_weaken; fail))+
  show ?thesis unfolding function_body_def Let_def
  proof (rule tot_bind)
    show "tot (\<lambda>(at, q). ready (insert (Operand at) ?S) V Q (c - 3) d q \<and> ps_locals q = ps_locals p) (emit_jump OP_JUMP p)"
    proof -
      have "tot (\<lambda>(at, q). ready (insert (Operand at) ?S) V Q (c - 3) d q) (emit_jump OP_JUMP p)"
        using locals(1) assms(3) by (rule_tac emit_jump_ready) (simp_all add: op_simps)
      then show ?thesis using saved by (auto simp: tot_def)
    qed
  qed (use rest in auto)
qed

lemmas body_wps = function_body_ready [THEN tot_weaken2']

lemma param_list_ready:
  assumes "ready S V Q c d p" "Q \<le> R"
  shows "tot (\<lambda>(names, q). ready S V Q c d q \<and> True) (param_list r b p)"
proof -
  have "tot (\<lambda>(again, x, p). ready S V T c d p \<and> True) (param_name b names q)" if "ready S V T c d q" for T names q
    using that by (auto simp: param_name_def Let_def intro: ready_advance ready_consume)
  then have "tot (\<lambda>(x, q). ready S V Q c d q \<and> True) (comma_list (rec_fuel r) (param_name b) [] p)"
    using comma_ready [of S V Q c 0 d 0 "\<lambda>_. 0" "[]" p "\<lambda>_. True" "param_name b"] assms by simp
  then show ?thesis using assms(1) unfolding param_list_def by simp
qed

lemmas param_wps = param_list_ready [THEN tot_weaken2']

lemma function_expr_ready: "ready S V Q (c + 80) (d + 3) p \<Longrightarrow> Q \<le> R \<Longrightarrow> tot (ready S V Q c d) (parse_function_expr r p)"
  unfolding parse_function_expr_def
  by (assumption | rule tot_bindI param_wps body_wps tot_rules ready_intros | simp add: op_simps; fail | erule ready_weaken; force)+

lemma thread_ready: "ready S V Q (c + 80) (d + 3) p \<Longrightarrow> Q \<le> R \<Longrightarrow> tot (ready S V Q c d) (parse_thread_expr r p)"
  unfolding parse_thread_expr_def Let_def
  by (assumption | rule tot_if call_wps plain_wps tot_rules ready_intros declare_ready | simp add: ops_simps; fail | erule ready_weaken; force)+

lemma await_ready: "ready S V Q (c + 80) (d + 3) p \<Longrightarrow> Q \<le> R \<Longrightarrow> tot (ready S V Q c d) (parse_await_expr r p)"
  unfolding parse_await_expr_def
  by (assumption | rule call_wps tot_rules ready_intros | simp add: op_simps; fail | erule ready_weaken; force)+

section \<open>The driver\<close>

lemma prefix_ready:
  assumes "prefix_rule r b (tk_type (ps_previous p)) = Some f" "ready S V Q (c + 80) (d + 3) p" "Q \<le> R"
  shows "tot (ready S V Q c d) (f p)"
  using assms(1) parse_number_ready [OF assms(2)] parse_string_literal_ready [OF assms(2)] variable_ready [OF assms(2,3), of b]
    parse_literal_ready [OF assms(2)] grouping_ready [OF assms(2,3)] array_ready [OF assms(2,3)] object_ready [OF assms(2,3)]
    function_expr_ready [OF assms(2,3)] thread_ready [OF assms(2,3)] await_ready [OF assms(2,3)] unary_ready [OF assms(2,3)]
    unpack_ready [OF assms(2,3)]
  by (simp add: prefix_rule_def split: if_splits)

lemma infix_ready:
  assumes "infix_rule r b t = Some f" "ready S V Q (c + 80) (d + 3) p" "Q \<le> R"
  shows "tot (ready S V Q c d) (f p)"
  using assms(1) call_ready [OF assms(2,3)] subscript_ready [OF assms(2,3), of b] dot_ready [OF assms(2,3), of b]
    fluent_ready [OF assms(2,3)] method_call_ready [OF assms(2,3)] and_ready [OF assms(2,3)] or_ready [OF assms(2,3)]
    pipe_ready [OF assms(2,3)] filter_ready [OF assms(2,3)] binary_ready [OF assms(2,3)]
  by (simp add: infix_rule_def split: if_splits)

lemma infix_loop_ready:
  "ready S V Q c d p \<Longrightarrow> Q \<le> R \<Longrightarrow> Q < n \<Longrightarrow> tot (ready S V Q c d) (infix_loop r n b m p)"
proof (induction n arbitrary: Q p)
  case (Suc n)
  show ?case
  proof (cases "ps_check TOK_EOF p \<or> rule_precedence (tk_type (ps_current p)) < m")
    case False
    then have next_token: "0 < Q" "ready S V (Q - 1) (c + 80) (d + 3) (ps_advance p)" using ready_next Suc.prems(1) by auto
    show ?thesis
    proof (cases "infix_rule r b (tk_type (ps_previous (ps_advance p)))")
      case None
      then show ?thesis using False next_token(2) by (auto simp: Let_def elim!: ready_weaken)
    next
      case (Some f)
      have "tot (ready S V (Q - 1) c d) (f (ps_advance p))"
        by (rule infix_ready [OF Some next_token(2)]) (use Suc.prems(2) in simp)
      moreover have "tot (ready S V Q c d) (infix_loop r n b m q)" if q: "ready S V (Q - 1) c d q" for q
      proof -
        have "tot (ready S V (Q - 1) c d) (infix_loop r n b m q)" by (rule Suc.IH [OF q]) (use Suc.prems next_token(1) in auto)
        then show ?thesis by (rule tot_weaken) (auto elim!: ready_weaken)
      qed
      ultimately have "tot (ready S V Q c d) (Option.bind (f (ps_advance p)) (infix_loop r n b m))" by (rule tot_bind)
      then show ?thesis using False Some by (simp add: Let_def)
    qed
  qed (use Suc.prems(1) in simp)
qed simp

text \<open>At the end of the source there is no expression, and nothing is called; before the end the first token pays, and
  one byte of what it pays is left.\<close>

lemma precedence_moves:
  assumes "ready S V Q c d p" "Q \<le> Suc R" "\<not> ps_check TOK_EOF p"
  shows "tot (\<lambda>q. 0 < Q \<and> ready S V (Q - 1) (c + 1) d q) (parse_precedence r m p)"
proof -
  let ?p = "p\<lparr>ps_last_expr_was_call := False\<rparr>"
  have p: "ready S V Q c d ?p" "\<not> ps_check TOK_EOF ?p" using assms(1,3) by (simp_all add: ps_check_def)
  have next_token: "0 < Q" "ready S V (Q - 1) ((c + 1) + 80) (d + 3) (ps_advance ?p)" using ready_moves [OF p] by (auto elim: ready_weaken)
  have Q: "Q - 1 \<le> R" "Q - 1 < rec_fuel r" using assms(2) fuel_law by auto
  show ?thesis
  proof (cases "prefix_rule r (m \<le> PREC_ASSIGN) (tk_type (ps_previous (ps_advance ?p)))")
    case None
    then show ?thesis using next_token by (auto simp: parse_precedence_def Let_def elim!: ready_weaken)
  next
    case (Some f)
    have "tot (ready S V (Q - 1) (c + 1) d) (f (ps_advance ?p))" by (rule prefix_ready [OF Some next_token(2) Q(1)])
    moreover have "tot (\<lambda>q. 0 < Q \<and> ready S V (Q - 1) (c + 1) d q) (do {
        p \<leftarrow> infix_loop r (rec_fuel r) (m \<le> PREC_ASSIGN) m q;
        Some (if m \<le> PREC_ASSIGN \<and> ps_check TOK_ASSIGN p then ps_error ''invalid assignment target'' (ps_advance p) else p) })"
      if "ready S V (Q - 1) (c + 1) d q" for q
      by (rule tot_bind [OF infix_loop_ready [OF that Q]]) (use next_token(1) in \<open>auto intro: ready_advance\<close>)
    ultimately show ?thesis using Some by (simp add: parse_precedence_def Let_def tot_bind)
  qed
qed

lemma precedence_ready:
  assumes "ready S V Q c d p" "Q \<le> Suc R"
  shows "tot (ready S V Q c d) (parse_precedence r m p)"
proof (cases "ps_check TOK_EOF p")
  case True
  then show ?thesis using assms(1) by (rule precedence_at_end)
next
  case False
  from precedence_moves [OF assms False] show ?thesis by (rule tot_weaken) (auto elim!: ready_weaken)
qed

end

end
