(* ===== verification/Parser_Stmts.thy ===== *)
theory Parser_Stmts
  imports Parser_Exprs
begin

text \<open>
  The statement functions of \<open>Parser_Stmt\<close> keep the interface \<open>parser_calls\<close>: called with the credit of the keyword they
  were chosen for, they give it back used up.
\<close>

context parser_calls
begin

section \<open>Declarations\<close>

text \<open>The keyword pays for the code of at most 16 variables; each name pays for its own constant.\<close>

lemma var_names_ready:
  assumes "ready S V Q c (d + 1) p" "Q \<le> R"
  shows "tot (\<lambda>(vars, p). ready S V Q c (d + length vars) p \<and> length vars \<le> 16) (comma_list (rec_fuel r) var_name [] p)"
proof -
  have "tot (\<lambda>(again, x, p). ready S V T c (d + length x) p \<and> length x \<le> 16) (var_name x q)"
    if "ready S V T (c + 0) (d + 1 + length x) q" "length x \<le> 16" for T x q
    using that by (auto simp: var_name_def Let_def intro!: ready_consume elim!: ready_weaken)
  then show ?thesis
    using comma_ready [of S V Q c 0 d 1 length "[]" p "\<lambda>vars. length vars \<le> 16" var_name] assms by simp
qed

lemma var_value_ready:
  assumes "ready S V Q c d p" "Q \<le> R" "1 \<le> c"
  shows "tot (\<lambda>(again, x, p). ready S V Q (c - 1) d p \<and> True) (var_value r n p)"
  using assms unfolding var_value_def
  by - (assumption | rule tot_bindI tot_Some call_wps plain_wps ready_intros | simp add: plain_ops_def; fail | (simp only: prod.case simp_thms))+

lemma var_values_ready:
  assumes "ready S V Q (c + 1) d p" "Q \<le> R"
  shows "tot (\<lambda>(n, p). ready S V Q c d p \<and> True) (comma_list (rec_fuel r) (var_value r) 0 p)"
proof -
  have "tot (\<lambda>(again, x, p). ready S V T c d p \<and> True) (var_value r n q)" if "ready S V T (c + 1) d q" "T \<le> Q" for T n q
    using var_value_ready [of S V T "c + 1" d q n] that assms(2) by simp
  then show ?thesis
    using comma_ready [of S V Q c 1 d 0 "\<lambda>_. 0" 0 p "\<lambda>_. True" "var_value r"] assms by simp
qed

lemma emit_nulls_ready: "ready S V Q c d p \<Longrightarrow> n \<le> c \<Longrightarrow> tot (ready S V Q (c - n) d) (emit_nulls n p)"
proof (induction n arbitrary: c p)
  case (Suc n)
  have "tot (ready S V Q (c - 1 - n) d) (emit_nulls n q)" if "ready S V Q (c - 1) d q" for q
    using Suc.IH [OF that] Suc.prems(2) by simp
  moreover have "tot (ready S V Q (c - 1) d) (emit_op OP_NULL p)"
    by (rule emit_plain_ready [OF Suc.prems(1)]) (use Suc.prems(2) in \<open>simp_all add: plain_ops_def\<close>)
  ultimately show ?case by (simp add: tot_bind)
qed simp

lemma define_var_ready:
  assumes "ready S V Q c d p" "3 \<le> c" "1 \<le> d"
  shows "tot (ready S V Q (c - 3) (d - 1)) (define_var b p name)"
  using assms unfolding define_var_def
  by - (assumption | erule conjE | rule tot_if tot_rules | (cases b; simp add: op_simps; fail) | simp; fail | erule ready_weaken; force)+

lemma define_vars_ready:
  "ready S V Q (c + 3 * length names) (d + length names) p \<Longrightarrow> tot (ready S V Q c d) (mfold (define_var b) names p)"
proof (induction names arbitrary: p)
  case (Cons name names)
  have "tot (ready S V Q (c + 3 * length names) (d + length names)) (define_var b p name)"
    using define_var_ready [OF Cons.prems] by simp
  from tot_bind [OF this Cons.IH] show ?case by simp
qed simp

lemma var_decl_ready:
  assumes "ready S V Q (c + 80) (d + 3) p" "Q \<le> R"
  shows "tot (ready S V Q c d) (parse_var_decl r b p)"
proof -
  have names: "tot (\<lambda>(vars, p). ready S V Q (c + 80) (d + 2 + length vars) p \<and> length vars \<le> 16)
      (comma_list (rec_fuel r) var_name [] p)"
    using var_names_ready [of S V Q "c + 80" "d + 2" p] assms by (simp add: numeral_3_eq_3)
  have vals: "tot (ready S V Q (c + 63) D) (if ps_check TOK_ASSIGN q then do {
              let p = ps_advance q;
              (count, p) \<leftarrow> comma_list (rec_fuel r) (var_value r) 0 (p\<lparr>ps_call_depth := ps_call_depth p + 1\<rparr>);
              let p = p\<lparr>ps_call_depth := ps_call_depth p - 1\<rparr>;
              if count < n \<and> \<not> ps_last_expr_was_call p then emit_nulls (n - count) p else Some p
            } else emit_nulls n q)"
    if "ready S V Q (c + 80) D q" "n \<le> 16" for q D and n :: nat
    using that assms(2) unfolding Let_def
    by - (assumption | rule tot_if tot_pair tot_bindI var_values_ready [where c = "c + 79" and d = D and Q = Q, THEN tot_weaken2'] tot_Some
        emit_nulls_ready [THEN tot_weaken] ready_intros | linarith | simp; fail | erule ready_weaken; force)+
  have defs: "tot (ready S V Q c d) (mfold (define_var b) (rev vars) q)"
    if "ready S V Q (c + 63) (d + 2 + length vars) q" "length vars \<le> 16" for vars q
    by (rule define_vars_ready, rule ready_weaken [OF that(1)]) (use that(2) in auto)
  show ?thesis unfolding parse_var_decl_def
    by (rule tot_bindI, rule names [THEN tot_weaken2'], rule tot_pair, rule tot_bind) (assumption | rule vals defs ready_consume)+
qed

section \<open>Control flow\<close>

lemma tot_curried: "(\<And>x y. a = (x, y) \<Longrightarrow> tot Q (f x y p)) \<Longrightarrow> tot Q ((case a of (x, y) \<Rightarrow> f x y) p)"
  by (cases a) simp

lemma scoped_block_ready: "ready S V Q c d p \<Longrightarrow> Q \<le> R \<Longrightarrow> tot (ready S V Q c d) (scoped_block r p)"
  unfolding scoped_block_def
  by (assumption | rule tot_bindI tot_Some call_wps ready_intros)+

lemmas block_wps = scoped_block_ready [THEN tot_weaken]

lemma if_ready:
  assumes "ready S V Q (c + 80) (d + 3) p" "Q \<le> R"
  shows "tot (ready S V Q c d) (parse_if r p)"
proof -
  have rest: "tot (ready S V Q c d) (if ps_check TOK_ELSE q then
               let p = ps_advance q
               in if ps_check TOK_IF p then rec_if r (ps_advance p)
                  else scoped_block r (ps_consume TOK_LBRACE m p)
             else Some q)" if "ready S V Q c d q" for q S c d m
  proof -
    have "tot (ready S V Q c d) (rec_if r (ps_advance (ps_advance q)))"
      if "ps_check TOK_ELSE q" "ps_check TOK_IF (ps_advance q)"
    proof -
      have 1: "0 < Q" "ready S V (Q - 1) (c + 80) (d + 3) (ps_advance q)" using ready_checked [OF \<open>ready S V Q c d q\<close> that(1)] by simp_all
      have "ready S V (Q - 1) c d (ps_advance q)" using 1(2) by (rule ready_weaken) auto
      from ready_checked [OF this that(2)] have "ready S V (Q - 1 - 1) (c + 80) (d + 3) (ps_advance (ps_advance q))" by simp
      moreover have "Q - 1 - 1 < R" using 1(1) assms(2) by linarith
      ultimately have "tot (ready S V (Q - 1 - 1) c d) (rec_if r (ps_advance (ps_advance q)))" by (rule if_law)
      then show ?thesis by (rule tot_weaken) (auto elim!: ready_weaken)
    qed
    then show ?thesis using \<open>ready S V Q c d q\<close> assms(2) by (auto simp: Let_def intro!: scoped_block_ready ready_consume ready_advance)
  qed
  show ?thesis using assms unfolding parse_if_def
    by - (assumption | rule tot_bindI call_wps block_wps rest [THEN tot_weaken] plain_wps tot_rules ready_intros |
      simp add: ops_simps; fail | erule ready_weaken; force)+
qed

lemma while_ready:
  assumes "ready S V Q (c + 80) (d + 3) p" "Q \<le> R"
  shows "tot (ready S V Q c d) (parse_while r p)"
proof -
  have "ready (insert (Boundary (code_len p)) S) V Q (c + 80) (d + 3) p" using assms(1) by (rule ready_mark_boundary)
  then show ?thesis using assms(2) unfolding parse_while_def Let_def
    by - (assumption | rule tot_bindI call_wps block_wps plain_wps tot_rules ready_intros |
      simp add: ops_simps; fail | erule ready_weaken; force)+
qed

lemma bind_local_ready:
  assumes "ready S V Q c d p" "3 \<le> c"
  shows "tot (ready S V Q (c - 3) d) (bind_local p name)"
  using assms unfolding bind_local_def
  by - (assumption | rule tot_rules | simp add: op_simps; fail | erule ready_weaken; force)+

lemma bind_locals_ready:
  "ready S V Q (c + 3 * length names) d p \<Longrightarrow> tot (ready S V Q c d) (mfold bind_local names p)"
proof (induction names arbitrary: p)
  case (Cons name names)
  have "tot (ready S V Q (c + 3 * length names) d) (bind_local p name)"
    using bind_local_ready [OF Cons.prems] by simp
  from tot_bind [OF this Cons.IH] show ?case by simp
qed simp

lemma for_body_ready:
  assumes "ready S V Q (c + 12 + 3 * length names) d p" "Q \<le> R" "next_op \<in> {OP_FOR_NEXT, OP_FOR_OVER_NEXT}" "k < 3"
  shows "tot (ready S V Q c d) (for_body r next_op k names p)"
proof -
  have next_op: "next_op < OP_COUNT" "cando_opcode_fmt next_op = OPFMT_A" "can_patch next_op"
    using assms(3) by (elim insertE emptyE; simp add: op_simps)+
  have p: "ready (insert (Boundary (code_len p)) S) V Q (c + 12 + 3 * length names) d p" using assms(1) by (rule ready_mark_boundary)
  have binds: "tot (ready S V Q (c + 9) d) (mfold bind_local names q)" if "ready S V Q (c + 12 + 3 * length names - 3) d q" for q S
    by (rule bind_locals_ready, rule ready_weaken [OF that]) auto
  show ?thesis using p assms(2,4) next_op unfolding for_body_def Let_def
    by - (assumption | rule tot_bindI call_wps plain_wps binds [THEN tot_weaken] tot_rules ready_intros |
      simp (no_asm) add: ops_simps; fail | erule ready_weaken; force)+
qed

lemma over_values_ready:
  assumes "ready S V Q (c + 1) d p" "Q \<le> R"
  shows "tot (\<lambda>(x, p). ready S V Q c d p \<and> True) (comma_list (rec_fuel r) (over_value r) x p)"
proof -
  have "tot (\<lambda>(again, x, p). ready S V T c d p \<and> True) (over_value r x q)" if "ready S V T (c + 1) d q" "T \<le> Q" for T x q
  proof -
    obtain n b where x: "x = (n, b)" by force
    have "T \<le> R" using that(2) assms(2) by simp
    then show ?thesis using that(1) unfolding x over_value_def Let_def
      by - (assumption | rule tot_pair tot_bindI tot_Some call_wps plain_wps ready_intros | simp add: plain_ops_def; fail |
        (simp only: prod.case simp_thms) | erule ready_weaken; force)+
  qed
  then show ?thesis
    using comma_ready [of S V Q c 1 d 0 "\<lambda>_. 0" x p "\<lambda>_. True" "over_value r"] assms by simp
qed

lemma loop_vars_ready:
  assumes "ready S V Q c d p" "Q \<le> R"
  shows "tot (\<lambda>(vars, p). ready S V Q c d p \<and> length vars \<le> 16) (comma_list (rec_fuel r) loop_var [] p)"
proof -
  have "tot (\<lambda>(again, x, p). ready S V T c d p \<and> length x \<le> 16) (loop_var x q)"
    if "ready S V T c d q" "length x \<le> 16" for T x q
    using that by (auto simp: loop_var_def Let_def intro!: ready_consume)
  then show ?thesis
    using comma_ready [of S V Q c 0 d 0 "\<lambda>_. 0" "[]" p "\<lambda>vars. length vars \<le> 16" loop_var] assms by simp
qed

lemma for_over_ready:
  assumes "ready S V Q (c + 80) d p" "Q \<le> R" "length vars \<le> 16"
  shows "tot (ready S V Q c d) (for_over r vars p)"
proof -
  have body: "tot (ready S V Q c d) (for_body r OP_FOR_OVER_NEXT LOOP_FOR_OVER (rev vars) q)" if "ready S V Q (c + 74) d q" for q
    by (rule for_body_ready, rule ready_weaken [OF that]) (use assms(2,3) in auto)
  have "n mod 32768 < 65536" for n :: nat by (rule less_trans [of _ 32768]) simp_all
  then have "u16 (length vars) < 65536" "n mod 32768 + (if b then 32768 else 0) < 65536" for n :: nat and b
    by (simp_all add: add_less_le_mono [of _ 32768, simplified])
  then show ?thesis using assms(1,2) unfolding for_over_def Let_def
    by - (assumption | rule body | rule tot_bindI over_values_ready [where c = "c + 79" and d = d and Q = Q, THEN tot_weaken2'] tot_curried tot_rules ready_intros |
      simp add: op_simps; fail | erule ready_weaken; force)+
qed

lemma for_in_of_ready:
  assumes "ready S V Q (c + 80) d p" "Q \<le> R"
  shows "tot (ready S V Q c d) (for_in_of r b vars p)"
proof -
  have body: "tot (ready S V Q c d) (for_body r OP_FOR_NEXT LOOP_FOR (take 1 vars) q)" if "ready S V Q (c + 77) d q" for q
    by (rule for_body_ready, rule ready_weaken [OF that]) (use assms(2) in auto)
  show ?thesis using assms unfolding for_in_of_def Let_def
    by - (assumption | rule body | rule tot_bindI call_wps tot_rules ready_intros |
      simp add: op_simps; fail | erule ready_weaken; force)+
qed

lemma for_ready:
  assumes "ready S V Q (c + 80) (d + 3) p" "Q \<le> R"
  shows "tot (ready S V Q c d) (parse_for r p)"
proof -
  have "tot (ready S V Q c d) (
         let single = (\<lambda>p. if 1 < length vars then ps_error m p else p) in
         if ps_check TOK_IN p then for_in_of r True vars (single (ps_advance p))
         else if ps_check TOK_OF p then for_in_of r False vars (single (ps_advance p))
         else if ps_check TOK_OVER p then for_over r vars (ps_advance p)
         else Some (ps_error_current m' p))"
    if "ready S V Q (c + 80) d p" "length vars \<le> 16" for vars p m m'
    using that assms(2)
    by (auto simp: Let_def intro!: for_in_of_ready for_over_ready ready_advance elim!: ready_weaken)
  note step = this
  have "ready S V Q (c + 80) d p" using assms(1) by (rule ready_weaken) auto
  then show ?thesis unfolding parse_for_def
    by - (rule tot_bindI, rule loop_vars_ready [THEN tot_weaken2'], assumption, rule assms(2), rule tot_pair, rule step)
qed

section \<open>Exceptions\<close>

lemma catch_names_ready:
  "ready S V Q c d p \<Longrightarrow> Q < n \<Longrightarrow> length names \<le> 8 \<Longrightarrow>
     tot (\<lambda>(names, p). ready S V Q c d p \<and> length names \<le> 8) (catch_names n names p)"
proof (induction n arbitrary: Q names p)
  case (Suc n)
  show ?case
  proof (cases "ps_check TOK_COMMA p \<and> length names < 8")
    case True
    let ?p = "ps_consume TOK_IDENT ''expected catch variable name'' (ps_advance p)"
    have 1: "0 < Q" "ready S V (Q - 1) (c + 80) (d + 3) (ps_advance p)"
      using ready_checked [OF Suc.prems(1) conjunct1 [OF True]] by simp_all
    have "ready S V (Q - 1) c d ?p" by (rule ready_weaken [OF ready_consume [OF 1(2)]]) auto
    from Suc.IH [OF this, of "names @ [token_text ?p (ps_previous ?p)]"] 1(1) Suc.prems(2) True
    have "tot (\<lambda>(names, p). ready S V (Q - 1) c d p \<and> length names \<le> 8) (catch_names n (names @ [token_text ?p (ps_previous ?p)]) ?p)"
      by simp
    then have "tot (\<lambda>(names, p). ready S V Q c d p \<and> length names \<le> 8) (catch_names n (names @ [token_text ?p (ps_previous ?p)]) ?p)"
      by (rule tot_weaken2') (auto elim!: ready_weaken)
    then show ?thesis using True by (simp add: Let_def)
  next
    case False
    then show ?thesis using Suc.prems by (auto simp: Let_def intro: ready_advance)
  qed
qed simp

lemma try_ready:
  assumes "ready S V Q (c + 80) (d + 3) p" "Q \<le> R"
  shows "tot (ready S V Q c d) (parse_try r p)"
proof -
  have fuel: "Q < rec_fuel r" using fuel_law assms(2) by simp
  have binds: "tot (ready S V Q (c + 40) d) (mfold bind_local names q)"
    if "ready S V Q (c + 80 - 3 - 1 - 3 - 3) (d + 3) q" "length names \<le> 8" for names q S
    by (rule bind_locals_ready, rule ready_weaken [OF that(1)]) (use that(2) in auto)
  show ?thesis using assms(1,2) fuel unfolding parse_try_def Let_def
    by - (assumption | rule tot_if tot_bindI call_wps block_wps plain_wps scoped_block_ready binds [THEN tot_weaken]
        catch_names_ready [THEN tot_weaken2'] tot_rules ready_intros |
      simp add: ops_simps; fail | erule ready_weaken; force)+
qed

section \<open>Functions and classes\<close>

lemma function_ready:
  assumes "ready S V Q (c + 80) (d + 3) p" "Q \<le> R"
  shows "tot (ready S V Q c d) (parse_function r p)"
  using assms unfolding parse_function_def Let_def
  by - (assumption | rule tot_bindI param_wps body_wps tot_rules ready_intros | simp add: op_simps; fail | erule ready_weaken; force)+

lemma skip_parens_ready:
  assumes "ready S V Q c d p" "Q \<le> R"
  shows "tot (ready S V Q c d) (skip_parens r p)"
proof -
  let ?I = "\<lambda>T s. ready S V T c d (snd s)" and ?b = "\<lambda>(depth, p). \<not> ps_check TOK_EOF p \<and> 0 < depth"
  let ?f = "\<lambda>(depth, p). Some (if ps_check TOK_LPAREN p then depth + 1 else if ps_check TOK_RPAREN p then depth - 1 else depth, ps_advance p)"
  have "tot (\<lambda>s. ?I Q s \<and> \<not> ?b s) (loop_while (rec_fuel r) ?b ?f (1, p))"
  proof (rule loop_while_tot [where I = ?I and R = Q])
    show "Q < rec_fuel r" using fuel_law assms(2) by simp
    show "?I Q s" if "?I T s" "T \<le> Q" for T s using that by (auto elim!: ready_weaken)
    show "tot (\<lambda>s'. 0 < T \<and> ?I (T - 1) s') (?f s)" if "?I T s" "T \<le> Q" "?b s" for T s
    proof -
      have "0 < T \<and> ready S V (T - 1) (c + 80) (d + 3) (ps_advance (snd s))"
        by (rule ready_next [OF that(1)]) (use that(3) in \<open>auto split: prod.splits\<close>)
      then show ?thesis by (cases s) (auto elim: ready_weaken)
    qed
  qed (use assms in simp)
  then have "tot (\<lambda>s. ready S V Q c d (snd s)) (loop_while (rec_fuel r) ?b ?f (1, p))" by (rule tot_weaken) (rule conjunct1)
  then show ?thesis unfolding skip_parens_def by (rule tot_map)
qed

lemma class_method_ready:
  assumes "ready S V Q (c + 80) (d + 3) p" "Q \<le> R"
  shows "tot (ready S V Q c d) (class_method r p)"
  using assms unfolding class_method_def Let_def
  by - (assumption | rule tot_bindI param_wps body_wps tot_rules ready_intros | simp add: op_simps; fail | erule ready_weaken; force)+

lemma class_member_ready:
  assumes "ready S V Q c d p" "Q \<le> R" "\<not> ps_check TOK_EOF p"
  shows "tot (\<lambda>q. 0 < Q \<and> ready S V (Q - 1) c d q) (class_member r p)"
proof -
  have 1: "0 < Q" "ready S V (Q - 1) (c + 80) (d + 3) (ps_advance p)" using ready_next [OF assms(1,3)] by simp_all
  let ?q = "ps_match TOK_PRIVATE (ps_match TOK_STATIC p)"
  have q: "?q = p \<or> ready S V (Q - 1) (c + 80) (d + 3) ?q"
  proof (cases "ps_check TOK_STATIC p")
    case True
    then show ?thesis using ready_match [OF 1(2)] by (simp add: ps_match_def [of TOK_STATIC])
  next
    case False
    then show ?thesis using 1(2) by (simp add: ps_match_def)
  qed
  have "ready S V (Q - 1) (c + 80) (d + 3) (ps_advance ?q)" using q 1(2) ready_advance by metis
  note this = this [THEN class_method_ready] and this [THEN ready_weaken]
  then show ?thesis using 1(1) assms(2) unfolding class_member_def Let_def
    by (auto intro!: tot_weaken [of "ready S V (Q - 1) c d"])
qed

lemma class_ready:
  assumes "ready S V Q (c + 80) (d + 3) p" "Q \<le> R"
  shows "tot (ready S V Q c d) (parse_class r p)"
proof -
  have members: "tot (ready S V Q c d) (loop_while (rec_fuel r) (\<lambda>p. \<not> ps_at [TOK_RBRACE, TOK_EOF] p) (class_member r) q)"
    if "ready S V Q c d q" for S c d q
  proof -
    have "tot (\<lambda>s. ready S V Q c d s \<and> \<not> \<not> ps_at [TOK_RBRACE, TOK_EOF] s)
        (loop_while (rec_fuel r) (\<lambda>p. \<not> ps_at [TOK_RBRACE, TOK_EOF] p) (class_member r) q)"
    proof (rule loop_while_tot [where I = "\<lambda>T s. ready S V T c d s" and R = Q])
      show "Q < rec_fuel r" using fuel_law assms(2) by simp
      show "tot (\<lambda>s'. 0 < T \<and> ready S V (T - 1) c d s') (class_member r s)"
        if "ready S V T c d s" "T \<le> Q" "\<not> ps_at [TOK_RBRACE, TOK_EOF] s" for T s
        by (rule class_member_ready [OF that(1)]) (use that assms(2) in auto)
      show "ready S V Q c d s" if "ready S V T c d s" "T \<le> Q" for T s using that by (auto elim: ready_weaken)
    qed (rule that)
    then show ?thesis by (rule tot_weaken) simp
  qed
  show ?thesis using assms unfolding parse_class_def
    by - (assumption | rule tot_if skip_parens_ready [THEN tot_weaken] tot_bindI members [THEN tot_weaken] tot_rules ready_intros |
      simp add: op_simps; fail | erule ready_weaken; force)+
qed

section \<open>Leaving\<close>

lemma listed_ready:
  assumes "ready S V Q c d p" "Q \<le> R"
  shows "tot (\<lambda>(n, p). ready S V Q c d p \<and> n < 65536) (value_list r p)"
proof -
  have "tot (\<lambda>(again, x, p). ready S V T c d p \<and> x < 65536) (listed_value r n q)" if "ready S V T c d q" "T \<le> Q" for T n q
    using expression_ready [OF that(1)] that(2) assms(2) by (auto simp: listed_value_def tot_def)
  then have "tot (\<lambda>(n, p). ready S V Q c d p \<and> n < 65536) (comma_list (rec_fuel r) (listed_value r) 0 q)" if "ready S V Q c d q" for q
    using comma_ready [of S V Q c 0 d 0 "\<lambda>_. 0" 0 q "\<lambda>n. n < 65536" "listed_value r"] that assms(2) by simp
  from this [of "p\<lparr>ps_call_depth := ps_call_depth p + 1\<rparr>"] show ?thesis
    using assms(1) by (auto simp: value_list_def tot_def)
qed

lemma throw_ready:
  assumes "ready S V Q (c + 80) (d + 3) p" "Q \<le> R"
  shows "tot (ready S V Q c d) (parse_throw r p)"
  using assms unfolding parse_throw_def
  by - (assumption | rule listed_ready [THEN tot_weaken2'] tot_rules ready_intros | simp add: op_simps; fail | erule ready_weaken; force)+

lemma return_ready:
  assumes "ready S V Q (c + 80) (d + 3) p" "Q \<le> R"
  shows "tot (ready S V Q c d) (parse_return r p)"
proof -
  have exit: "tot (ready S V Q c d) (let n = ps_pipe_exit_count p in if n < PIPE_EXITS_MAX then do {
             (pos, p) \<leftarrow> emit_jump OP_JUMP p;
             Some (p\<lparr>ps_pipe_exits := (ps_pipe_exits p)[n := pos], ps_pipe_exit_count := n + 1\<rparr>)
           } else Some (ps_error m p))" if p: "ready S V Q (c + 70) (d + 3) p" for p m
  proof -
    have "tot (ready S V Q c d) (do { (pos, q) \<leftarrow> emit_jump OP_JUMP p;
        Some (q\<lparr>ps_pipe_exits := (ps_pipe_exits q)[n := pos], ps_pipe_exit_count := n + 1\<rparr>) })"
      if n: "n = ps_pipe_exit_count p" "n < PIPE_EXITS_MAX" for n
    proof -
      have "tot (\<lambda>(at, q). ready (insert (Operand at) S) V Q (c + 70 - 3) (d + 3) q) (emit_jump OP_JUMP p)"
        by (rule emit_jump_ready [OF p]) (simp_all add: op_simps)
      moreover have "ps_pipe_exit_count q = n" if "emit_jump OP_JUMP p = Some (at, q)" for at q
        using that n(1) by (auto simp: emit_jump_def fault_simps)
      ultimately show ?thesis using n(2) ready_record_exit
        by (auto simp: tot_def intro!: ready_weaken [OF ready_record_exit])
    qed
    then show ?thesis using p by (auto simp: Let_def elim!: ready_weaken)
  qed
  show ?thesis using assms unfolding parse_return_def Let_def
    by - (assumption | rule tot_if tot_bindI exit [unfolded Let_def] call_wps plain_wps listed_ready [THEN tot_weaken2'] tot_rules ready_intros |
      simp add: ops_simps; fail | erule ready_weaken; force)+
qed

section \<open>Statements\<close>

lemma end_stmt_ready: "ready S V Q (c + 1) d p \<Longrightarrow> tot (ready S V Q c d) (end_expr_stmt p)"
  unfolding end_expr_stmt_def
  using emit_plain_ready [of S V Q "c + 1" d _ OP_POP] by (auto simp: plain_ops_def intro: ready_consume)

lemma synchronise_ready:
  assumes "ready S V Q c d p" "Q < n"
  shows "tot (ready S V Q c d) (synchronise n p)"
proof -
  let ?b = "\<lambda>p. \<not> ps_check TOK_EOF p \<and> tk_type (ps_previous p) \<noteq> TOK_SEMI \<and>
            \<not> ps_at [TOK_IF, TOK_WHILE, TOK_FOR, TOK_FUNCTION, TOK_CLASS, TOK_VAR, TOK_CONST, TOK_RETURN, TOK_THROW,
                     TOK_TRY, TOK_THREAD] p"
  have "tot (\<lambda>s. ready S V Q c d s \<and> \<not> ?b s) (loop_while n ?b (\<lambda>p. Some (ps_advance p)) (p\<lparr>ps_panic_mode := False\<rparr>))"
  proof (rule loop_while_tot [where I = "\<lambda>T s. ready S V T c d s" and R = Q])
    show "tot (\<lambda>s'. 0 < T \<and> ready S V (T - 1) c d s') (Some (ps_advance s))" if "ready S V T c d s" "?b s" for T s
      using ready_next [OF that(1)] that(2) by (auto elim: ready_weaken)
    show "ready S V Q c d s" if "ready S V T c d s" "T \<le> Q" for T s using that by (auto elim: ready_weaken)
  qed (use assms in simp_all)
  then show ?thesis unfolding synchronise_def by (rule tot_weaken) simp
qed

text \<open>A statement consumes a token. An expression statement takes it from its expression, whose source is not shorter;
  the others from their keyword.\<close>

lemma statement_body_ready:
  assumes "ready S V Q c d p" "Q \<le> Suc R" "\<not> ps_check TOK_EOF p"
    "tot (\<lambda>q. 0 < Q \<and> ready S V (Q - 1) (c + 1) d q) (parse_expression r p)"
  shows "tot (\<lambda>(b, q). 0 < Q \<and> ready S V (Q - 1) c d q) (statement_body r p)"
proof -
  have 1: "0 < Q" "ready S V (Q - 1) ((c + 1) + 80) (d + 3) (ps_advance p)"
    using ready_moves [OF assms(1,3)] by (auto elim: ready_weaken)
  have Q: "Q - 1 \<le> R" using assms(2) by simp
  have 2: "ready S V (Q - 1) (c + 80) (d + 3) (ps_advance p)" using 1(2) by (rule ready_weaken) auto
  have stmt: "tot (\<lambda>(b, q). 0 < Q \<and> ready S V (Q - 1) c d q) (map_option (Pair b) x)" if "tot (ready S V (Q - 1) c d) x" for b x
    using that 1(1) by (auto simp: tot_def)
  have call: "tot (\<lambda>(b, q). 0 < Q \<and> ready S V (Q - 1) c d q) (map_option (Pair True)
      (do { p \<leftarrow> parse_function_expr r (ps_advance p); end_expr_stmt p }))"
    by (rule stmt, rule tot_bind [OF function_expr_ready [OF 1(2) Q] end_stmt_ready])
  have expr: "tot (\<lambda>(b, q). 0 < Q \<and> ready S V (Q - 1) c d q) (map_option (Pair True) (parse_expr_stmt r p))"
    unfolding parse_expr_stmt_def
    by (rule stmt, rule tot_bind [OF assms(4)]) (elim conjE, rule end_stmt_ready)
  have leave: "tot (ready S V (Q - 1) c d) (parse_break q)" "tot (ready S V (Q - 1) c d) (parse_continue q)"
    if "ready S V (Q - 1) (c + 80) (d + 3) q" for q
    using that unfolding parse_break_def parse_continue_def
    by - (assumption | rule tot_rules ready_intros | simp add: op_simps; fail | erule ready_weaken; force)+
  have empty: "tot (ready S V (Q - 1) c d) (Some (ps_advance p))" using 2 by (auto elim: ready_weaken)
  have block: "tot (ready S V (Q - 1) c d) (scoped_block r (ps_advance p))"
    by (rule scoped_block_ready [OF _ Q], rule ready_weaken [OF 2]) auto
  show ?thesis unfolding statement_body_def Let_def
    by (intro tot_if call expr stmt leave [OF 2] empty block var_decl_ready [OF 2 Q] if_ready [OF 2 Q] while_ready [OF 2 Q] for_ready [OF 2 Q]
      try_ready [OF 2 Q] function_ready [OF 2 Q] class_ready [OF 2 Q] return_ready [OF 2 Q] throw_ready [OF 2 Q])
qed

lemma statement_ready:
  assumes "ready S V Q c d p" "Q \<le> Suc R" "\<not> ps_check TOK_EOF p"
    "\<And>p. ready S V Q c d p \<Longrightarrow> \<not> ps_check TOK_EOF p \<Longrightarrow> tot (\<lambda>q. 0 < Q \<and> ready S V (Q - 1) (c + 1) d q) (parse_expression r p)"
  shows "tot (\<lambda>q. 0 < Q \<and> ready S V (Q - 1) c d q) (parse_statement r p)"
proof -
  have p: "ready S V Q c d (p\<lparr>ps_last_stmt_was_expr := False\<rparr>)" "\<not> ps_check TOK_EOF (p\<lparr>ps_last_stmt_was_expr := False\<rparr>)"
    using assms(1,3) by (simp_all add: ps_check_def)
  have "Q - 1 < rec_fuel r" using assms(2) fuel_law by linarith
  then have "tot (\<lambda>q. 0 < Q \<and> ready S V (Q - 1) c d q) (if ps_panic_mode q then synchronise (rec_fuel r) q else Some q)"
    if "0 < Q" "ready S V (Q - 1) c d q" for q
    using synchronise_ready [OF that(2)] that by auto
  from this [of "q\<lparr>ps_last_stmt_was_expr := b\<rparr>" for q b]
  have rest: "tot (\<lambda>q. 0 < Q \<and> ready S V (Q - 1) c d q)
      (let q = q\<lparr>ps_last_stmt_was_expr := b\<rparr> in if ps_panic_mode q then synchronise (rec_fuel r) q else Some q)"
    if "0 < Q" "ready S V (Q - 1) c d q" for q b
    using that unfolding Let_def by simp
  show ?thesis unfolding parse_statement_def
    by (rule tot_bind [OF statement_body_ready [OF p(1) assms(2) p(2) assms(4) [OF p]]]) (use rest in auto)
qed

end

end
