(* ===== verification/Parser_Total.thy ===== *)
theory Parser_Total
  imports Parser_Stmts
begin

text \<open>
  The compiler as a whole. By induction over the source that is left, the functions of \<open>parse_calls\<close> keep the interface
  \<open>parser_calls\<close>: two levels of recursion for each byte are enough. Hence the compilation of every source returns, with or
  without errors, and what it returns is well-formed code.
\<close>

section \<open>The recursion keeps its contract\<close>

lemma rem_zero: "ready S V 0 c d p \<Longrightarrow> ps_check TOK_EOF p"
  by (simp add: ready_def rem_def split: if_splits)

lemma parse_calls_laws: "2 * R + 2 \<le> n \<Longrightarrow> parser_calls (parse_calls n) R"
proof (induction R arbitrary: n)
  case 0
  then obtain m where "n = Suc m" by (cases n) auto
  then show ?case using 0 by (unfold_locales) (auto dest: rem_zero intro!: precedence_at_end)
next
  case (Suc R)
  then obtain m where n: "n = Suc (Suc m)" "2 * R + 2 \<le> m" by (cases n; cases "n - 1") auto
  have inner: "parser_calls (parse_calls m) R" by (rule Suc.IH [OF n(2)])
  have outer: "parser_calls (parse_calls (Suc m)) R" by (rule Suc.IH) (use n(2) in simp)
  show ?case
  proof
    fix S V Q c d p k
    assume p: "ready S V Q c d p"
    show "tot (ready S V Q c d) (rec_precedence (parse_calls n) k p)" if "Q \<le> Suc R"
      using parser_calls.precedence_ready [OF outer p that] n(1) by simp
    show "tot (\<lambda>q. 0 < Q \<and> ready S V (Q - 1) (c + 1) d q) (rec_precedence (parse_calls n) k p)" if "Q \<le> Suc R" "\<not> ps_check TOK_EOF p"
      using parser_calls.precedence_moves [OF outer p that] n(1) by simp
    show "tot (\<lambda>q. 0 < Q \<and> ready S V (Q - 1) c d q) (rec_statement (parse_calls n) p)" if "Q \<le> Suc R" "\<not> ps_check TOK_EOF p"
      using parser_calls.statement_ready [OF outer p that] parser_calls.precedence_moves [OF inner] that(1) n(1) by (simp add: parse_expression_def)
  next
    fix S V Q c d p
    assume "ready S V Q (c + 80) (d + 3) p" "Q < Suc R"
    then show "tot (ready S V Q c d) (rec_if (parse_calls n) p)" using parser_calls.if_ready [OF outer] n(1) by simp
  next
    show "Suc R + 1 < rec_fuel (parse_calls n)" using n by simp
  qed
qed

interpretation calls: parser_calls "parse_calls (2 * R + 2)" R for R
  by (rule parse_calls_laws) simp

section \<open>Whole sources\<close>

text \<open>What a caller hands over: an allocator with three addresses for each byte, room for 16 positions.\<close>

definition parser_memory_ok :: "nat \<Rightarrow> cando_parser \<Rightarrow> bool" where
  "parser_memory_ok n p \<longleftrightarrow> strings_ok (ps_strings p) \<and> length (ps_pipe_exits p) = PIPE_EXITS_MAX \<and>
     distinct (ps_malloc p) \<and> (\<forall>a \<in> set (ps_malloc p). a \<noteq> 0 \<and> ps_strings p a = None) \<and> 3 * n \<le> length (ps_malloc p)"

lemma init_ready:
  assumes "parser_memory_ok (length source) p0" "length source \<le> 21845" "c + 81 * length source \<le> 2 ^ 31"
  shows "ready {} 0 (length source) c 0 (cando_parser_init p0 source (cando_chunk_new name arity va))"
proof -
  define p where "p = p0\<lparr>ps_lexer := cando_lexer_init source, ps_had_error := False, ps_panic_mode := False,
       ps_chunk := cando_chunk_new name arity va, ps_locals := [], ps_scope_depth := 0, ps_last_expr_was_call := False,
       ps_last_expr_was_unpack := False, ps_call_depth := 0, ps_eval_mode := False, ps_last_stmt_was_expr := False,
       ps_in_pipe_body := False, ps_pipe_exit_count := 0, ps_last_multi_push := 1, ps_error_msg := [],
       ps_current := (ps_current p0)\<lparr>tk_type := TOK_EOF\<rparr>\<rparr>"
  let ?q = "ps_advance p"
  have same: "same_work p ?q" "rem ?q \<le> length source" "ps_check TOK_EOF ?q \<longrightarrow> lex_left (ps_lexer ?q) = 0"
    using advance_spec [of p] by (simp_all add: p_def cando_lexer_init_def)
  then have kept: "ps_chunk ?q = cando_chunk_new name arity va" "ps_strings ?q = ps_strings p0" "ps_malloc ?q = ps_malloc p0"
    "ps_locals ?q = []" "ps_pipe_exits ?q = ps_pipe_exits p0" "ps_pipe_exit_count ?q = 0" "\<not> ps_eval_mode ?q"
    by (simp_all add: same_work_def p_def)
  have "coded {} (cando_chunk_new name arity va)" by (auto simp: coded_def coded_as_def cando_chunk_new_def intro: exI [of _ "[]"])
  then have "ready {} 0 (length source) c 0 ?q"
    using same(2,3) assms
    by (simp add: ready_def shape_ok_def funded_def heap_ok_def exit_marks_def kept chunk_new_ok parser_memory_ok_def code_len_def)
       (simp add: cando_chunk_new_def)
  then show ?thesis by (simp add: cando_parser_init_def p_def)
qed

lemma parse_ready:
  assumes "ready S V Q c d p" "2 * Q + 2 \<le> n" "1 \<le> c"
  shows "tot (\<lambda>(ok, q). ready S V Q (c - 1) d q \<and> ok = (\<not> ps_had_error q) \<and> ps_check TOK_EOF q \<and>
                         ck_code (ps_chunk q) \<noteq> [] \<and> unat (last (ck_code (ps_chunk q))) = OP_HALT) (cando_parse n p)"
proof -
  have calls: "parser_calls (parse_calls n) Q" by (rule parse_calls_laws [OF assms(2)])
  have loop: "tot (\<lambda>s. ready S V Q c d s \<and> \<not> \<not> ps_check TOK_EOF s)
      (loop_while n (\<lambda>p. \<not> ps_check TOK_EOF p) (rec_statement (parse_calls n)) p)"
  proof (rule loop_while_tot [where I = "\<lambda>T s. ready S V T c d s" and R = Q])
    show "tot (\<lambda>s'. 0 < T \<and> ready S V (T - 1) c d s') (rec_statement (parse_calls n) s)"
      if "ready S V T c d s" "T \<le> Q" "\<not> ps_check TOK_EOF s" for T s
      by (rule parser_calls.stmt_law [OF calls that])
    show "ready S V Q c d s" if "ready S V T c d s" "T \<le> Q" for T s using that by (auto elim: ready_weaken)
  qed (use assms in simp_all)
  have fin: "tot (\<lambda>q. ready S V Q (c - 1) d q \<and> ps_check TOK_EOF q \<and> ck_code (ps_chunk q) \<noteq> [] \<and>
      unat (last (ck_code (ps_chunk q))) = OP_HALT) (finish_code s)" if "ready S V Q c d s" "ps_check TOK_EOF s" for s
  proof -
    have "\<not> ps_eval_mode s" using that(1) by (simp add: ready_def shape_ok_def)
    moreover have "tot (ready S V Q (c - 1) d) (emit_op OP_HALT s)"
      by (rule emit_op_ready [OF that(1)]) (use assms(3) in \<open>simp_all add: op_simps\<close>)
    moreover have "ps_check TOK_EOF q \<and> ck_code (ps_chunk q) \<noteq> [] \<and> unat (last (ck_code (ps_chunk q))) = OP_HALT"
      if "emit_op OP_HALT s = Some q" for q
      using that \<open>ps_check TOK_EOF s\<close>
      by (auto simp: emit_op_def fault_simps cando_chunk_emit_op_def cando_chunk_emit_byte_def chunk_write_def ps_check_def Let_def unat_of_nat
          split: if_splits)
    ultimately show ?thesis by (auto simp: finish_code_def Let_def tot_def)
  qed
  have "tot (\<lambda>(ok, q). ready S V Q (c - 1) d q \<and> ok = (\<not> ps_had_error q) \<and> ps_check TOK_EOF q \<and>
      ck_code (ps_chunk q) \<noteq> [] \<and> unat (last (ck_code (ps_chunk q))) = OP_HALT)
      (do { p \<leftarrow> finish_code s; Some (\<not> ps_had_error p, p) })" if "ready S V Q c d s" "ps_check TOK_EOF s" for s
    by (rule tot_bind [OF fin [OF that]]) simp
  then show ?thesis unfolding cando_parse_def by (intro tot_bind [OF loop]) simp
qed

section \<open>Scopes\<close>

definition declared :: "int \<Rightarrow> string \<times> bool \<Rightarrow> cando_local" where
  "declared depth nc = \<lparr>lo_name = fst nc, lo_depth = depth, lo_is_const = snd nc\<rparr>"

lemma declare_all:
  "length (ps_locals p) + length ns \<le> LOCAL_MAX \<Longrightarrow>
     ps_locals (fold (\<lambda>(name, c) p. snd (declare_local name c p)) ns p) = ps_locals p @ map (declared (ps_scope_depth p)) ns \<and>
     ps_scope_depth (fold (\<lambda>(name, c) p. snd (declare_local name c p)) ns p) = ps_scope_depth p"
proof (induction ns arbitrary: p)
  case (Cons nc ns)
  let ?q = "snd (declare_local (fst nc) (snd nc) p)"
  have q: "ps_locals ?q = ps_locals p @ [declared (ps_scope_depth p) nc]" "ps_scope_depth ?q = ps_scope_depth p"
    using Cons.prems by (auto simp: declare_local_def declared_def Let_def)
  show ?case using Cons.IH [of ?q] Cons.prems q by (simp add: split_def)
qed simp

lemma resolve_append:
  "k \<le> length ms \<Longrightarrow> resolve_from x (ls @ ms) (length ls + k) =
     (case resolve_from x ms k of Some i \<Rightarrow> Some (length ls + i) | None \<Rightarrow> resolve_from x ls (length ls))"
proof (induction k)
  case 0
  have "n \<le> length ls \<Longrightarrow> resolve_from x (ls @ ms) n = resolve_from x ls n" for n by (induction n) (simp_all add: nth_append)
  then show ?case by simp
qed (simp add: nth_append)

lemma resolve_none: "n \<le> length ms \<Longrightarrow> resolve_from x ms n = None \<longleftrightarrow> x \<notin> lo_name ` set (take n ms)"
  by (induction n) (auto simp: take_Suc_conv_app_nth)

lemma resolve_last:
  "i < n \<Longrightarrow> lo_name (ms ! i) = x \<Longrightarrow> (\<And>j. i < j \<Longrightarrow> j < n \<Longrightarrow> lo_name (ms ! j) \<noteq> x) \<Longrightarrow> resolve_from x ms n = Some i"
  by (induction n) (auto simp: less_Suc_eq)

section \<open>Properties\<close>

definition wit_token :: cando_token where
  "wit_token = \<lparr>tk_type = TOK_EOF, tk_start = 0, tk_length = 0, tk_line = 0, tk_col = 0\<rparr>"

definition wit_parser :: cando_parser where
  "wit_parser = \<lparr>ps_lexer = cando_lexer_init [], ps_current = wit_token, ps_previous = wit_token, ps_had_error = False,
     ps_panic_mode = False, ps_chunk = cando_chunk_new None 0 False, ps_error_msg = [], ps_locals = [], ps_scope_depth = 0,
     ps_last_expr_was_call = False, ps_last_expr_was_unpack = False, ps_call_depth = 0, ps_eval_mode = False,
     ps_last_stmt_was_expr = False, ps_in_pipe_body = False, ps_pipe_exits = replicate 16 0, ps_pipe_exit_count = 0,
     ps_last_multi_push = 0, ps_strings = Map.empty, ps_malloc = [1..<10]\<rparr>"

lemma wit_memory: "parser_memory_ok (length ''x;'') wit_parser"
  by (simp add: parser_memory_ok_def wit_parser_def strings_ok_def)

text \<open>C1. The compiler returns for every source of at most 21845 bytes, valid or not: no assertion of the chunk fails, the
  constant pool does not overflow, no loop of the parser runs forever, and the recursion needs at most two levels per byte.
  It has then read the source to its end, and its result is whether no error was reported.\<close>

theorem compiler_returns:
  assumes "parser_memory_ok (length source) p0" "length source \<le> 21845" "2 * length source + 2 \<le> n"
  shows "\<exists>q. cando_parse n (cando_parser_init p0 source (cando_chunk_new name arity va)) = Some (\<not> ps_had_error q, q) \<and>
             ps_check TOK_EOF q"
proof -
  have "ready {} 0 (length source) 1 0 (cando_parser_init p0 source (cando_chunk_new name arity va))"
    by (rule init_ready [OF assms(1,2)]) (use assms(2) in simp)
  from parse_ready [OF this assms(3)] show ?thesis by (auto simp: tot_def)
qed

theorem compiler_returns_witness:
  "\<exists>q. cando_parse 6 (cando_parser_init wit_parser ''x;'' (cando_chunk_new None 0 False)) = Some (\<not> ps_had_error q, q)"
  using compiler_returns [OF wit_memory, of 6 None 0 False] by auto

text \<open>C2. For every source of at most 21845 bytes that is compiled as a script (\<open>cando_parser_init\<close> clears the eval mode, in
  which the code ends differently), valid or not and also when errors were reported: the code the compiler emits is a
  sequence of complete instructions of the set, every constant operand is an index into the pool, every local operand a
  slot below the chunk's number of locals, the last byte is \<open>OP_HALT\<close>, there is a line for each byte, the code has at most
  81 bytes for each byte of the source and one more, and every string of the pool is alive.\<close>

theorem compiled_code_well_formed:
  assumes "parser_memory_ok (length source) p0" "length source \<le> 21845" "2 * length source + 2 \<le> n"
    "cando_parse n (cando_parser_init p0 source (cando_chunk_new name arity va)) = Some (ok, q)"
  shows "(\<exists>is. ck_code (ps_chunk q) = concat (map instr_code is) \<and> (\<forall>i \<in> set is. instr_fits (ps_chunk q) i)) \<and>
    unat (last (ck_code (ps_chunk q))) = OP_HALT \<and> length (ck_code (ps_chunk q)) \<le> 81 * length source + 1 \<and>
    length (ck_lines (ps_chunk q)) = length (ck_code (ps_chunk q)) \<and>
    (\<forall>k \<in> set (ck_consts (ps_chunk q)). const_live (ps_strings q) k)"
proof -
  let ?c = "2 ^ 31 - 81 * length source"
  have "ready {} 0 (length source) ?c 0 (cando_parser_init p0 source (cando_chunk_new name arity va))"
    by (rule init_ready [OF assms(1,2)]) (use assms(2) in simp)
  from parse_ready [OF this assms(3)] assms(2,4)
  have q: "ready {} 0 (length source) (?c - 1) 0 q" "1 \<le> ?c" "unat (last (ck_code (ps_chunk q))) = OP_HALT" by simp_all
  have "length (ck_code (ps_chunk q)) + (?c - 1) \<le> 2 ^ 31" using q(1) by (simp add: ready_def funded_def code_len_def)
  then have "length (ck_code (ps_chunk q)) \<le> 81 * length source + 1" using assms(2) by linarith
  moreover have "length (ck_lines (ps_chunk q)) = length (ck_code (ps_chunk q))"
    "\<forall>k \<in> set (ck_consts (ps_chunk q)). const_live (ps_strings q) k"
    using q(1) by (simp_all add: ready_def shape_ok_def chunk_ok_def heap_ok_def)
  moreover have "\<exists>is. ck_code (ps_chunk q) = concat (map instr_code is) \<and> (\<forall>i \<in> set is. instr_fits (ps_chunk q) i)"
    using q(1) by (auto simp: ready_def shape_ok_def coded_def coded_as_def)
  ultimately show ?thesis using q(3) by blast
qed


theorem compiled_code_well_formed_witness:
  "\<exists>ok q. cando_parse 6 (cando_parser_init wit_parser ''x;'' (cando_chunk_new None 0 False)) = Some (ok, q) \<and>
          length (ck_code (ps_chunk q)) \<le> 163"
proof -
  have "ready {} 0 (length ''x;'') 1 0 (cando_parser_init wit_parser ''x;'' (cando_chunk_new None 0 False))"
    by (rule init_ready [OF wit_memory]) simp_all
  from parse_ready [OF this, of 6] obtain ok q where
    q: "cando_parse 6 (cando_parser_init wit_parser ''x;'' (cando_chunk_new None 0 False)) = Some (ok, q)"
    by (auto simp: tot_def)
  from compiled_code_well_formed [OF wit_memory _ _ q] show ?thesis using q by simp
qed

text \<open>C3. Scopes nest. Inside a new scope a name declared there resolves to the slot of its last declaration, any other name
  to what it resolved to outside; leaving the scope restores the table of locals and the depth as they were.\<close>

theorem scopes_nest:
  assumes "\<forall>l \<in> set (ps_locals p). lo_depth l \<le> ps_scope_depth p" "length (ps_locals p) + length ns \<le> LOCAL_MAX"
    "q = fold (\<lambda>(name, c) p. snd (declare_local name c p)) ns (scope_begin p)"
  shows "(x \<notin> fst ` set ns \<longrightarrow> resolve_local q x = resolve_local p x) \<and>
    (\<forall>i < length ns. (\<forall>j. i < j \<and> j < length ns \<longrightarrow> fst (ns ! j) \<noteq> fst (ns ! i)) \<longrightarrow>
       resolve_local q (fst (ns ! i)) = Some (length (ps_locals p) + i)) \<and>
    ps_locals (scope_end q) = ps_locals p \<and> ps_scope_depth (scope_end q) = ps_scope_depth p"
proof -
  let ?d = "ps_scope_depth p + 1"
  have q: "ps_locals q = ps_locals p @ map (declared ?d) ns" "ps_scope_depth q = ?d"
    using declare_all [of "scope_begin p" ns] assms(2,3) by (simp_all add: scope_begin_def)
  have res: "resolve_local q y = (case resolve_from y (map (declared ?d) ns) (length ns) of
      Some i \<Rightarrow> Some (length (ps_locals p) + i) | None \<Rightarrow> resolve_local p y)" for y
    using resolve_append [of "length ns" "map (declared ?d) ns" y "ps_locals p"]
    by (simp add: resolve_local_def q split: option.split)
  have "resolve_from x (map (declared ?d) ns) (length ns) = None" if "x \<notin> fst ` set ns"
    using that resolve_none [of "length ns" "map (declared ?d) ns" x] by (simp add: declared_def image_image)
  moreover have "resolve_from (fst (ns ! i)) (map (declared ?d) ns) (length ns) = Some i"
    if "i < length ns" "\<forall>j. i < j \<and> j < length ns \<longrightarrow> fst (ns ! j) \<noteq> fst (ns ! i)" for i
    using that by (intro resolve_last) (auto simp: declared_def)
  moreover have "rev (dropWhile (\<lambda>l. ps_scope_depth p < lo_depth l) (rev (ps_locals p @ map (declared ?d) ns))) = ps_locals p"
  proof -
    have top: "\<not> ps_scope_depth p < lo_depth (hd (rev (ps_locals p)))" if "ps_locals p \<noteq> []"
    proof -
      have "hd (rev (ps_locals p)) \<in> set (ps_locals p)" using hd_in_set [of "rev (ps_locals p)"] that by simp
      then show ?thesis using assms(1) leD by blast
    qed
    have "dropWhile (\<lambda>l. ps_scope_depth p < lo_depth l) (rev (map (declared ?d) ns) @ rev (ps_locals p)) = rev (ps_locals p)"
      using top by (subst dropWhile_append2) (auto simp: declared_def dropWhile_eq_self_iff)
    then show ?thesis by simp
  qed
  ultimately show ?thesis using res by (simp add: scope_end_def Let_def q)
qed

definition wit_scope :: cando_parser where
  "wit_scope = wit_parser\<lparr>ps_locals := [\<lparr>lo_name = ''a'', lo_depth = 0, lo_is_const = False\<rparr>]\<rparr>"

theorem scopes_nest_witness:
  "resolve_local (fold (\<lambda>(name, c) p. snd (declare_local name c p)) [(''a'', True), (''b'', False)] (scope_begin wit_scope)) ''a'' =
     Some 1"
proof -
  have ok: "\<forall>l \<in> set (ps_locals wit_scope). lo_depth l \<le> ps_scope_depth wit_scope"
    "length (ps_locals wit_scope) + length [(''a'', True), (''b'', False)] \<le> LOCAL_MAX"
    by (simp_all add: wit_scope_def wit_parser_def)
  from scopes_nest [OF ok refl] show ?thesis by (force simp: wit_scope_def)
qed

end
