(* ===== verification/Regex.thy ===== *)
theory Regex
  imports Prelude
begin

text \<open>
  The regular expressions the string library uses on Windows (\<open>source/compat/win_regex.c\<close>): a backtracking matcher that
  works on the text of the pattern. A pattern and a text are C strings: their characters, none of them zero, followed by
  a zero byte; a pointer into one is an index, and reading behind the zero byte is a fault (\<open>None\<close>). A pattern position
  \<open>p\<close>, the end \<open>pend\<close> of the part that is matched and a text position \<open>s\<close> are the arguments of the matching functions.
\<close>

section \<open>C strings\<close>

abbreviation (input) NUL :: char where "NUL \<equiv> CHR 0x00"
abbreviation (input) BSL :: char where "BSL \<equiv> CHR 0x5C"
abbreviation (input) NL :: char where "NL \<equiv> CHR 0x0A"

definition c_at :: "string \<Rightarrow> nat \<Rightarrow> char option" where
  "c_at str i = (if i < length str then Some (str ! i) else if i = length str then Some NUL else None)"

lemma c_at_Some: "c_at str i = Some c \<Longrightarrow> i \<le> length str"
  by (auto simp: c_at_def split: if_splits)

lemma c_at_in: "i \<le> length str \<Longrightarrow> \<exists>c. c_at str i = Some c"
  by (auto simp: c_at_def)

section \<open>Scanning the pattern\<close>

text \<open>The loop up to the closing bracket of a class, or to the end.\<close>

function class_rest :: "string \<Rightarrow> nat \<Rightarrow> nat option" where
  "class_rest P p =
     do {
       c \<leftarrow> c_at P p;
       if c = NUL \<or> c = CHR '']'' then Some p
       else do {
         d \<leftarrow> (if c = BSL then c_at P (p + 1) else Some NUL);
         class_rest P (if d \<noteq> NUL then p + 2 else p + 1)
       }
     }"
  by auto
termination
  by (relation "measure (\<lambda>(P, p). Suc (length P) - p)") (auto dest!: c_at_Some)

declare class_rest.simps [simp del]

text \<open>From behind the opening bracket.\<close>

definition class_end :: "string \<Rightarrow> nat \<Rightarrow> nat option" where
  "class_end P p =
     do {
       c \<leftarrow> c_at P p;
       let p = (if c = CHR ''^'' then p + 1 else p);
       c \<leftarrow> c_at P p;
       class_rest P (if c = CHR '']'' then p + 1 else p)
     }"

lemma class_rest_ge: "class_rest P p = Some q \<Longrightarrow> p \<le> q"
proof (induction P p rule: class_rest.induct)
  case (1 P p)
  show ?case using "1.prems" by (subst (asm) class_rest.simps) (auto simp: fault_simps split: if_splits dest!: "1.IH")
qed

lemma class_end_ge: "class_end P p = Some q \<Longrightarrow> p \<le> q"
  by (auto simp: class_end_def Let_def fault_simps dest!: class_rest_ge split: if_splits)

text \<open>Behind the closing bracket, if there is one.\<close>

definition skip_class :: "string \<Rightarrow> nat \<Rightarrow> nat option" where
  "skip_class P p = do { q \<leftarrow> class_end P p; c \<leftarrow> c_at P q; Some (if c = CHR '']'' then q + 1 else q) }"

lemma skip_class_ge: "skip_class P p = Some q \<Longrightarrow> p \<le> q"
  by (auto simp: skip_class_def fault_simps dest!: class_end_ge split: if_splits)

function skip_group :: "string \<Rightarrow> nat \<Rightarrow> nat \<Rightarrow> nat option" where
  "skip_group P depth p =
     do {
       c \<leftarrow> c_at P p;
       if c = NUL \<or> depth = 0 then Some p
       else if c = BSL then do { d \<leftarrow> c_at P (p + 1); skip_group P depth (if d \<noteq> NUL then p + 2 else p + 1) }
       else if c = CHR ''['' then do { q \<leftarrow> skip_class P (p + 1); skip_group P depth q }
       else if c = CHR ''('' then skip_group P (depth + 1) (p + 1)
       else if c = CHR '')'' then (if depth = 1 then Some (p + 1) else skip_group P (depth - 1) (p + 1))
       else skip_group P depth (p + 1)
     }"
  by auto
termination
  by (relation "measure (\<lambda>(P, depth, p). Suc (length P) - p)") (auto dest!: c_at_Some skip_class_ge)

declare skip_group.simps [simp del]

definition skip_atom :: "string \<Rightarrow> nat \<Rightarrow> nat option" where
  "skip_atom P p =
     do {
       c \<leftarrow> c_at P p;
       if c = NUL then Some p
       else if c = BSL then do { d \<leftarrow> c_at P (p + 1); Some (if d \<noteq> NUL then p + 2 else p + 1) }
       else if c = CHR ''['' then skip_class P (p + 1)
       else if c = CHR ''('' then skip_group P 1 (p + 1)
       else Some (p + 1)
     }"

text \<open>The same inside a part of the pattern that ends at \<open>pend\<close>.\<close>

function class_rest_to :: "string \<Rightarrow> nat \<Rightarrow> nat \<Rightarrow> nat option" where
  "class_rest_to P p pend =
     (if p < pend then do {
        c \<leftarrow> c_at P p;
        if c = CHR '']'' then Some p
        else class_rest_to P (if c = BSL \<and> p + 1 < pend then p + 2 else p + 1) pend
      } else Some p)"
  by auto
termination
  by (relation "measure (\<lambda>(P, p, pend). pend - p)") auto

declare class_rest_to.simps [simp del]

definition step_over :: "string \<Rightarrow> char \<Rightarrow> nat \<Rightarrow> nat \<Rightarrow> nat option" where
  "step_over P k p pend = (if p < pend then do { c \<leftarrow> c_at P p; Some (if c = k then p + 1 else p) } else Some p)"

definition class_end_to :: "string \<Rightarrow> nat \<Rightarrow> nat \<Rightarrow> nat option" where
  "class_end_to P p pend =
     do { p \<leftarrow> step_over P (CHR ''^'') p pend; p \<leftarrow> step_over P (CHR '']'') p pend; class_rest_to P p pend }"

lemma class_rest_to_ge: "class_rest_to P p pend = Some q \<Longrightarrow> p \<le> q"
proof (induction P p pend rule: class_rest_to.induct)
  case (1 P p pend)
  show ?case
  proof (cases "p < pend")
    case True
    then obtain c where c: "c_at P p = Some c" using "1.prems" by (subst (asm) class_rest_to.simps) (auto simp: fault_simps)
    let ?q = "if c = BSL \<and> p + 1 < pend then p + 2 else p + 1"
    have eq: "class_rest_to P p pend = (if c = CHR '']'' then Some p else class_rest_to P ?q pend)"
      using True c by (subst class_rest_to.simps) simp
    show ?thesis
    proof (cases "c = CHR '']''")
      case False
      then have "?q \<le> q" using "1.IH" [OF True c False] "1.prems" eq by simp
      then show ?thesis by (auto split: if_splits)
    qed (use "1.prems" eq in simp)
  qed (use "1.prems" in \<open>simp add: class_rest_to.simps\<close>)
qed

lemma class_end_to_ge: "class_end_to P p pend = Some q \<Longrightarrow> p \<le> q"
  by (auto simp: class_end_to_def step_over_def fault_simps dest!: class_rest_to_ge split: if_splits)

text \<open>The first bar that is in no class and no group, if there is one.\<close>

function find_top_alt :: "string \<Rightarrow> nat \<Rightarrow> nat \<Rightarrow> nat \<Rightarrow> nat option option" where
  "find_top_alt P depth p pend =
     (if p < pend then do {
        c \<leftarrow> c_at P p;
        if c = BSL then find_top_alt P depth (if p + 1 < pend then p + 2 else p + 1) pend
        else if c = CHR ''['' then do { q \<leftarrow> class_end_to P (p + 1) pend; find_top_alt P depth (q + 1) pend }
        else if c = CHR ''('' then find_top_alt P (depth + 1) (p + 1) pend
        else if c = CHR '')'' then find_top_alt P (depth - 1) (p + 1) pend
        else if c = CHR ''|'' \<and> depth = 0 then Some (Some p)
        else find_top_alt P depth (p + 1) pend
      } else Some None)"
  by auto
termination
  by (relation "measure (\<lambda>(P, depth, p, pend). pend - p)") (auto dest!: class_end_to_ge)

declare find_top_alt.simps [simp del]

text \<open>The number of groups. Behind a class the scan goes on one character further, also when the class was not closed.\<close>

function count_groups :: "string \<Rightarrow> nat \<Rightarrow> nat \<Rightarrow> nat option" where
  "count_groups P n p =
     do {
       c \<leftarrow> c_at P p;
       if c = NUL then Some n
       else if c = BSL then do { d \<leftarrow> c_at P (p + 1); count_groups P n (if d \<noteq> NUL then p + 2 else p + 1) }
       else if c = CHR ''['' then do { q \<leftarrow> class_end P (p + 1); count_groups P n (q + 1) }
       else count_groups P (if c = CHR ''('' then n + 1 else n) (p + 1)
     }"
  by auto
termination
  by (relation "measure (\<lambda>(P, n, p). Suc (length P) - p)") (auto dest!: c_at_Some class_end_ge)

declare count_groups.simps [simp del]

function group_index :: "string \<Rightarrow> nat \<Rightarrow> nat \<Rightarrow> nat \<Rightarrow> nat option" where
  "group_index P n q p_open =
     (if q < p_open then do {
        c \<leftarrow> c_at P q;
        if c = BSL then do { d \<leftarrow> c_at P (q + 1); group_index P n (if d \<noteq> NUL then q + 2 else q + 1) p_open }
        else if c = CHR ''['' then do { q \<leftarrow> skip_class P (q + 1); group_index P n q p_open }
        else group_index P (if c = CHR ''('' then n + 1 else n) (q + 1) p_open
      } else Some (n + 1))"
  by auto
termination
  by (relation "measure (\<lambda>(P, n, q, p_open). p_open - q)") (auto dest!: skip_class_ge)

declare group_index.simps [simp del]


section \<open>Characters\<close>

definition class_escape :: "char \<Rightarrow> char" where
  "class_escape e = (if e = CHR ''n'' then NL else if e = CHR ''t'' then CHR 0x09 else if e = CHR ''r'' then CHR 0x0D else e)"

text \<open>The end of a range that starts with \<open>lo\<close>; \<open>q\<close> is behind it.\<close>

definition class_range :: "string \<Rightarrow> char \<Rightarrow> nat \<Rightarrow> (char \<times> char \<times> nat) option" where
  "class_range P lo q =
     do {
       m \<leftarrow> c_at P q;
       h \<leftarrow> (if m = CHR ''-'' then c_at P (q + 1) else Some NUL);
       if h = NUL \<or> h = CHR '']'' then Some (lo, lo, q)
       else do {
         e \<leftarrow> (if h = BSL then c_at P (q + 2) else Some NUL);
         Some (if e \<noteq> NUL then (lo, class_escape e, q + 3) else (lo, h, q + 2))
       }
     }"

definition class_item :: "string \<Rightarrow> char \<Rightarrow> nat \<Rightarrow> (char \<times> char \<times> nat) option" where
  "class_item P k q =
     do {
       e \<leftarrow> (if k = BSL then c_at P (q + 1) else Some NUL);
       if e \<noteq> NUL then Some (class_escape e, class_escape e, q + 2) else class_range P k (q + 1)
     }"

lemma class_item_less: "class_item P k q = Some (lo, hi, q') \<Longrightarrow> q < q'"
  by (auto simp: class_item_def class_range_def fault_simps split: if_splits)

function class_has :: "string \<Rightarrow> char \<Rightarrow> bool \<Rightarrow> nat \<Rightarrow> bool option" where
  "class_has P c found q =
     do {
       k \<leftarrow> c_at P q;
       if k = NUL \<or> k = CHR '']'' then Some found
       else do {
         (lo, hi, q) \<leftarrow> class_item P k q;
         class_has P c (found \<or> byte_of lo \<le> byte_of c \<and> byte_of c \<le> byte_of hi) q
       }
     }"
  by auto
termination
  by (relation "measure (\<lambda>(P, c, found, q). Suc (length P) - q)") (auto dest!: c_at_Some class_item_less)

declare class_has.simps [simp del]

definition char_matches :: "string \<Rightarrow> nat \<Rightarrow> char \<Rightarrow> bool option" where
  "char_matches P p c =
     (if c = NUL then Some False
      else do {
        k \<leftarrow> c_at P p;
        if k = CHR ''.'' then Some True
        else if k = BSL then do {
          e \<leftarrow> c_at P (p + 1);
          Some (if e = CHR ''d'' then c_isdigit c
                else if e = CHR ''D'' then \<not> c_isdigit c
                else if e = CHR ''w'' then c_isalnum c \<or> c = CHR ''_''
                else if e = CHR ''W'' then \<not> (c_isalnum c \<or> c = CHR ''_'')
                else if e = CHR ''s'' then c_isspace c
                else if e = CHR ''S'' then \<not> c_isspace c
                else if e = CHR ''n'' then c = NL
                else if e = CHR ''t'' then c = CHR 0x09
                else if e = CHR ''r'' then c = CHR 0x0D
                else c = e)
        }
        else if k = CHR ''['' then do {
          a \<leftarrow> c_at P (p + 1);
          let neg = (a = CHR ''^'');
          let q = (if neg then p + 2 else p + 1);
          b \<leftarrow> c_at P q;
          found \<leftarrow> class_has P c (b = CHR '']'' \<and> c = CHR '']'') (if b = CHR '']'' then q + 1 else q);
          Some (found \<noteq> neg)
        }
        else Some (c = k)
      })"

section \<open>The matcher\<close>

abbreviation (input) RE_MAXGROUPS :: nat where "RE_MAXGROUPS \<equiv> 32"
abbreviation (input) RE_MAXDEPTH :: nat where "RE_MAXDEPTH \<equiv> 200"
abbreviation (input) RE_MAXREPS :: nat where "RE_MAXREPS \<equiv> 4096"

record rx_state =
  rx_so :: "int list"
  rx_eo :: "int list"
  rx_depth :: nat

type_synonym rx_result = "(nat option \<times> rx_state) option"

text \<open>The tables of a group, with the bounds of the arrays: what opening, closing and giving up group \<open>g\<close> at text position \<open>s\<close>
  writes when the group is \<open>captured\<close>.\<close>

definition rx_saved :: "bool \<Rightarrow> nat \<Rightarrow> rx_state \<Rightarrow> (int \<times> int) option" where
  "rx_saved captured g ms =
     (if captured then do { so \<leftarrow> aget (rx_so ms) g; eo \<leftarrow> aget (rx_eo ms) g; Some (so, eo) } else Some (-2, -2))"

definition rx_open :: "bool \<Rightarrow> nat \<Rightarrow> nat \<Rightarrow> rx_state \<Rightarrow> rx_state option" where
  "rx_open captured g s ms =
     (if captured then do { so \<leftarrow> aput (rx_so ms) g (int s); Some (ms\<lparr>rx_so := so\<rparr>) } else Some ms)"

definition rx_close :: "bool \<Rightarrow> nat \<Rightarrow> nat \<Rightarrow> rx_state \<Rightarrow> rx_state option" where
  "rx_close captured g s ms =
     (if captured then do { eo \<leftarrow> aput (rx_eo ms) g (int s); Some (ms\<lparr>rx_eo := eo\<rparr>) } else Some ms)"

definition rx_restore :: "bool \<Rightarrow> nat \<Rightarrow> int \<times> int \<Rightarrow> rx_state \<Rightarrow> rx_state option" where
  "rx_restore captured g old ms =
     (if captured then do {
        so \<leftarrow> aput (rx_so ms) g (fst old);
        eo \<leftarrow> aput (rx_eo ms) g (snd old);
        Some (ms\<lparr>rx_so := so, rx_eo := eo\<rparr>)
      } else Some ms)"

lemma find_top_alt_in: "find_top_alt P depth p pend = Some (Some b) \<Longrightarrow> p \<le> b \<and> b < pend \<and> b \<le> length P"
proof (induction P depth p pend rule: find_top_alt.induct)
  case (1 P depth p pend)
  have p: "p < pend" using "1.prems" by (cases "p < pend") (simp_all add: find_top_alt.simps [of P depth p pend])
  then obtain c where c: "c_at P p = Some c" using "1.prems" by (cases "c_at P p") (simp_all add: find_top_alt.simps [of P depth p pend])
  note step = "1.prems" find_top_alt.simps [of P depth p pend] p c c_at_Some [OF c]
  consider "c = BSL" | "c = CHR ''[''" | "c = CHR ''(''" | "c = CHR '')''" | "c = CHR ''|''" "depth = 0"
    | "c \<noteq> BSL" "c \<noteq> CHR ''[''" "c \<noteq> CHR ''(''" "c \<noteq> CHR '')''" "\<not> (c = CHR ''|'' \<and> depth = 0)" by blast
  then show ?case
  proof cases
    case 1
    then show ?thesis using "1.IH"(1) [OF p c] step by (auto split: if_splits)
  next
    case 2
    then obtain q where q: "class_end_to P (p + 1) pend = Some q" using step by (cases "class_end_to P (p + 1) pend") auto
    then show ?thesis using "1.IH"(2) [OF p c _ _ q] 2 step class_end_to_ge [OF q] by auto
  next
    case 3
    then show ?thesis using "1.IH"(3) [OF p c] step by auto
  next
    case 4
    then show ?thesis using "1.IH"(4) [OF p c] step by auto
  next
    case 5
    then show ?thesis using step by auto
  next
    case 6
    then show ?thesis using "1.IH"(5) [OF p c] step by auto
  qed
qed

text \<open>
  \<open>m_atom\<close> matches one atom, \<open>m_seq\<close> a sequence of atoms with their quantifiers, \<open>m_alt\<close> alternatives. The two loops of
  \<open>m_seq\<close> for a repeated atom are \<open>m_reps\<close>, which lists the positions behind further repetitions, and \<open>m_try\<close>, which
  goes on from the longest that leads to a match; captures made while repeating are dropped. \<open>n\<close> is the number of groups.
\<close>

function m_atom :: "string \<Rightarrow> string \<Rightarrow> nat \<Rightarrow> rx_state \<Rightarrow> nat \<Rightarrow> nat \<Rightarrow> rx_result"
  and m_seq :: "string \<Rightarrow> string \<Rightarrow> nat \<Rightarrow> rx_state \<Rightarrow> nat \<Rightarrow> nat \<Rightarrow> nat \<Rightarrow> rx_result"
  and m_reps :: "string \<Rightarrow> string \<Rightarrow> nat \<Rightarrow> rx_state \<Rightarrow> nat \<Rightarrow> nat \<Rightarrow> nat \<Rightarrow> nat list option"
  and m_try :: "string \<Rightarrow> string \<Rightarrow> nat \<Rightarrow> rx_state \<Rightarrow> nat \<Rightarrow> nat \<Rightarrow> nat list \<Rightarrow> rx_result"
  and m_alt :: "string \<Rightarrow> string \<Rightarrow> nat \<Rightarrow> rx_state \<Rightarrow> nat \<Rightarrow> nat \<Rightarrow> nat \<Rightarrow> rx_result" where
  "m_atom P T n ms p s =
     (if rx_depth ms > RE_MAXDEPTH then Some (None, ms)
      else do {
        c \<leftarrow> c_at P p;
        if c = CHR ''^'' then do {
          x \<leftarrow> (if s = 0 then Some NL else c_at T (s - 1));
          Some (if x = NL then Some s else None, ms)
        }
        else if c = CHR ''$'' then do {
          x \<leftarrow> c_at T s;
          Some (if x = NUL \<or> x = NL then Some s else None, ms)
        }
        else if c = CHR ''('' then do {
          grp \<leftarrow> group_index P 0 0 p;
          ae \<leftarrow> skip_atom P p;
          let captured = (grp \<le> n);
          old \<leftarrow> rx_saved captured grp ms;
          ms1 \<leftarrow> rx_open captured grp s ms;
          (r, ms2) \<leftarrow> m_alt P T n (ms1\<lparr>rx_depth := rx_depth ms1 + 1\<rparr>) (p + 1) (ae - 1) s;
          let ms2 = ms2\<lparr>rx_depth := rx_depth ms2 - 1\<rparr>;
          case r of
            Some s' \<Rightarrow> do { ms2 \<leftarrow> rx_close captured grp s' ms2; Some (Some s', ms2) }
          | None \<Rightarrow> do { ms2 \<leftarrow> rx_restore captured grp old ms2; Some (None, ms2) }
        }
        else do {
          x \<leftarrow> c_at T s;
          if x = NUL then Some (None, ms)
          else do { b \<leftarrow> char_matches P p x; Some (if b then Some (s + 1) else None, ms) }
        }
      })"
| "m_seq P T n ms p pend s =
     (if rx_depth ms > RE_MAXDEPTH then Some (None, ms)
      else if pend \<le> p then Some (Some s, ms)
      else do {
        c \<leftarrow> c_at P p;
        if c = CHR ''^'' \<or> c = CHR ''$'' then do {
          (r, ms) \<leftarrow> m_atom P T n ms p s;
          case r of None \<Rightarrow> Some (None, ms) | Some s \<Rightarrow> m_seq P T n ms (p + 1) pend s
        }
        else do {
          ae \<leftarrow> skip_atom P p;
          check (p < ae);
          qc \<leftarrow> c_at P ae;
          if qc = CHR ''?'' then do {
            (r, ms1) \<leftarrow> m_atom P T n ms p s;
            (r, ms1) \<leftarrow> (case r of None \<Rightarrow> Some (None, ms1) | Some s \<Rightarrow> m_seq P T n ms1 (ae + 1) pend s);
            case r of Some s \<Rightarrow> Some (Some s, ms1) | None \<Rightarrow> m_seq P T n ms (ae + 1) pend s
          }
          else if qc = CHR ''*'' then do {
            ps \<leftarrow> m_reps P T n ms p s 1;
            m_try P T n ms (ae + 1) pend (rev (s # ps))
          }
          else if qc = CHR ''+'' then do {
            ps \<leftarrow> m_reps P T n ms p s 0;
            m_try P T n ms (ae + 1) pend (rev ps)
          }
          else do {
            (r, ms) \<leftarrow> m_atom P T n ms p s;
            case r of None \<Rightarrow> Some (None, ms) | Some s \<Rightarrow> m_seq P T n ms ae pend s
          }
        }
      })"
| "m_reps P T n ms p cur k =
     (if k < RE_MAXREPS then do {
        (r, ms) \<leftarrow> m_atom P T n ms p cur;
        case r of
          None \<Rightarrow> Some []
        | Some ns \<Rightarrow> if ns = cur then Some [] else do { ps \<leftarrow> m_reps P T n ms p ns (k + 1); Some (ns # ps) }
      } else Some [])"
| "m_try P T n ms p pend [] = Some (None, ms)"
| "m_try P T n ms p pend (s # ss) =
     do {
       (r, ms1) \<leftarrow> m_seq P T n ms p pend s;
       case r of Some s \<Rightarrow> Some (Some s, ms1) | None \<Rightarrow> m_try P T n ms p pend ss
     }"
| "m_alt P T n ms p pend s =
     (if rx_depth ms > RE_MAXDEPTH then Some (None, ms)
      else do {
        bar \<leftarrow> find_top_alt P 0 p pend;
        case bar of
          None \<Rightarrow> do {
            (r, ms) \<leftarrow> m_seq P T n (ms\<lparr>rx_depth := rx_depth ms + 1\<rparr>) p pend s;
            Some (r, ms\<lparr>rx_depth := rx_depth ms - 1\<rparr>)
          }
        | Some b \<Rightarrow> do {
            (r, ms1) \<leftarrow> m_seq P T n (ms\<lparr>rx_depth := rx_depth ms + 1\<rparr>) p b s;
            case r of
              Some s \<Rightarrow> Some (Some s, ms1\<lparr>rx_depth := rx_depth ms1 - 1\<rparr>)
            | None \<Rightarrow> do {
                (r, ms) \<leftarrow> m_alt P T n (ms\<lparr>rx_depth := rx_depth ms + 1\<rparr>) (b + 1) pend s;
                Some (r, ms\<lparr>rx_depth := rx_depth ms - 1\<rparr>)
              }
          }
      })"
  by pat_completeness auto
termination
  by (relation "measures [case_sum (case_sum (\<lambda>(P, T, n, ms, p, s). Suc (length P) - p) (\<lambda>(P, T, n, ms, p, pend, s). Suc (length P) - p))
        (case_sum (\<lambda>(P, T, n, ms, p, cur, k). Suc (length P) - p)
          (case_sum (\<lambda>(P, T, n, ms, p, pend, ss). Suc (length P) - p) (\<lambda>(P, T, n, ms, p, pend, s). Suc (length P) - p))),
      case_sum (case_sum (\<lambda>_. 0) (\<lambda>_. 2)) (case_sum (\<lambda>_. 1) (case_sum (\<lambda>_. 3) (\<lambda>_. 3))),
      case_sum (case_sum (\<lambda>_. 0) (\<lambda>_. 0)) (case_sum (\<lambda>(P, T, n, ms, p, cur, k). RE_MAXREPS - k)
        (case_sum (\<lambda>(P, T, n, ms, p, pend, ss). length ss) (\<lambda>_. 0)))]")
    (auto dest!: c_at_Some find_top_alt_in)

declare m_atom.simps [simp del] m_seq.simps [simp del] m_reps.simps [simp del] m_alt.simps [simp del]

section \<open>The interface\<close>

record regex_t =
  re_pattern :: string
  re_nsub :: nat

definition regcomp :: "string \<Rightarrow> regex_t option" where
  "regcomp pattern = do { nsub \<leftarrow> count_groups pattern 0 0; Some \<lparr>re_pattern = pattern, re_nsub = nsub\<rparr> }"

text \<open>The entry of \<open>pmatch\<close> for a group, and the entries from the first group on.\<close>

definition rx_capture :: "nat \<Rightarrow> rx_state \<Rightarrow> nat \<Rightarrow> (int \<times> int) option" where
  "rx_capture n ms i =
     (if i \<le> n then do { so \<leftarrow> aget (rx_so ms) i; eo \<leftarrow> aget (rx_eo ms) i; Some (so, eo) } else Some (-1, -1))"

fun rx_captures :: "nat \<Rightarrow> rx_state \<Rightarrow> nat list \<Rightarrow> (int \<times> int) list option" where
  "rx_captures n ms [] = Some []"
| "rx_captures n ms (i # is) = do { c \<leftarrow> rx_capture n ms i; cs \<leftarrow> rx_captures n ms is; Some (c # cs) }"

definition rx_initial :: rx_state where
  "rx_initial = \<lparr>rx_so = replicate RE_MAXGROUPS (-1), rx_eo = replicate RE_MAXGROUPS (-1), rx_depth = 0\<rparr>"

text \<open>The attempts from position \<open>s\<close> on; the result is \<open>pmatch\<close>, or \<open>None\<close> for \<open>REG_NOMATCH\<close>.\<close>

function regexec_from :: "regex_t \<Rightarrow> string \<Rightarrow> nat \<Rightarrow> nat \<Rightarrow> (int \<times> int) list option option" where
  "regexec_from re T nmatch s =
     do {
       let P = re_pattern re;
       let n = min (re_nsub re) (RE_MAXGROUPS - 1);
       (stop, ms) \<leftarrow> m_alt P T n rx_initial 0 (length P) s;
       case stop of
         Some e \<Rightarrow> do { caps \<leftarrow> rx_captures n ms [1..<nmatch]; Some (Some (take nmatch [(int s, int e)] @ caps)) }
       | None \<Rightarrow> do {
           x \<leftarrow> c_at T s;
           if x = NUL then Some None else regexec_from re T nmatch (s + 1)
         }
     }"
  by auto
termination
  by (relation "measure (\<lambda>(re, T, nmatch, s). Suc (length T) - s)") (auto dest!: c_at_Some)

declare regexec_from.simps [simp del]

definition regexec :: "regex_t \<Rightarrow> string \<Rightarrow> nat \<Rightarrow> (int \<times> int) list option option" where
  "regexec re T nmatch = regexec_from re T nmatch 0"

end
