(* ===== verification/Regex_Safe.thy ===== *)
theory Regex_Safe
  imports Regex
begin

text \<open>
  The matcher of \<open>Regex\<close> never reads outside the pattern or the text, and where it reports a match the match and the
  groups lie in the text.
\<close>

section \<open>Scanning stays inside\<close>

definition c_str :: "string \<Rightarrow> bool" where
  "c_str str \<longleftrightarrow> NUL \<notin> set str"

lemma c_at_tot: "c_str str \<Longrightarrow> i \<le> length str \<Longrightarrow> tot (\<lambda>c. c \<noteq> NUL \<longleftrightarrow> i < length str) (c_at str i)"
  by (auto simp: c_at_def c_str_def in_set_conv_nth)

lemma c_at_cases:
  assumes "c_str str" "i \<le> length str"
  obtains c where "c_at str i = Some c" "c \<noteq> NUL \<longleftrightarrow> i < length str"
  using c_at_tot [OF assms] by (auto simp: tot_def)

lemma class_rest_tot: "c_str P \<Longrightarrow> p \<le> length P \<Longrightarrow> tot (\<lambda>q. p \<le> q \<and> q \<le> length P) (class_rest P p)"
proof (induction P p rule: class_rest.induct)
  case (1 P p)
  obtain c where c: "c_at P p = Some c" "c \<noteq> NUL \<longleftrightarrow> p < length P" using c_at_cases [OF "1.prems"] by blast
  show ?case
  proof (cases "c = NUL \<or> c = CHR '']''")
    case True
    then show ?thesis using c "1.prems" by (subst class_rest.simps) auto
  next
    case False
    then have p: "p + 1 \<le> length P" using c by simp
    obtain d where d: "c_at P (p + 1) = Some d" "d \<noteq> NUL \<longleftrightarrow> p + 1 < length P" using c_at_cases [OF "1.prems"(1) p] by blast
    let ?d = "if c = BSL then d else NUL" and ?q = "\<lambda>d. if d \<noteq> NUL then p + 2 else p + 1"
    have x: "(if c = BSL then c_at P (p + 1) else Some NUL) = Some ?d" using d by simp
    have q: "?q ?d \<le> length P" using p d by auto
    have "tot (\<lambda>q. ?q ?d \<le> q \<and> q \<le> length P) (class_rest P (?q ?d))" using "1.IH" [OF c(1) False x "1.prems"(1) q] .
    then have "tot (\<lambda>q. p \<le> q \<and> q \<le> length P) (class_rest P (?q ?d))" by (rule tot_weaken) (auto split: if_splits)
    then show ?thesis using False c x by (subst class_rest.simps) auto
  qed
qed

lemma class_end_tot: "c_str P \<Longrightarrow> p \<le> length P \<Longrightarrow> tot (\<lambda>q. p \<le> q \<and> q \<le> length P) (class_end P p)"
proof -
  assume P: "c_str P" "p \<le> length P"
  obtain c where c: "c_at P p = Some c" "c \<noteq> NUL \<longleftrightarrow> p < length P" using c_at_cases [OF P] by blast
  let ?p = "if c = CHR ''^'' then p + 1 else p"
  have p: "p \<le> ?p" "?p \<le> length P" using P c by auto
  obtain d where d: "c_at P ?p = Some d" "d \<noteq> NUL \<longleftrightarrow> ?p < length P" using c_at_cases [OF P(1) p(2)] by blast
  let ?r = "if d = CHR '']'' then ?p + 1 else ?p"
  have r: "?p \<le> ?r" "?r \<le> length P" using p d by auto
  have "tot (\<lambda>q. ?r \<le> q \<and> q \<le> length P) (class_rest P ?r)" by (rule class_rest_tot [OF P(1) r(2)])
  then have "tot (\<lambda>q. p \<le> q \<and> q \<le> length P) (class_rest P ?r)" by (rule tot_weaken) (use p(1) r(1) in linarith)
  then show ?thesis using c d by (simp add: class_end_def Let_def)
qed

lemma skip_class_tot: "c_str P \<Longrightarrow> p \<le> length P \<Longrightarrow> tot (\<lambda>q. p \<le> q \<and> q \<le> length P) (skip_class P p)"
proof -
  assume P: "c_str P" "p \<le> length P"
  have "tot (\<lambda>q. p \<le> q \<and> q \<le> length P) (do { c \<leftarrow> c_at P q; Some (if c = CHR '']'' then q + 1 else q) })" if "p \<le> q \<and> q \<le> length P" for q
    using that by (intro tot_bind [OF c_at_tot [OF P(1), of q]]) auto
  from tot_bind [OF class_end_tot [OF P] this] show ?thesis by (simp add: skip_class_def)
qed

lemma skip_group_tot: "c_str P \<Longrightarrow> p \<le> length P \<Longrightarrow> tot (\<lambda>q. p \<le> q \<and> q \<le> length P) (skip_group P depth p)"
proof (induction P depth p rule: skip_group.induct)
  case (1 P depth p)
  obtain c where c: "c_at P p = Some c" "c \<noteq> NUL \<longleftrightarrow> p < length P" using c_at_cases [OF "1.prems"] by blast
  show ?case
  proof (cases "c = NUL \<or> depth = 0")
    case True
    then show ?thesis using c "1.prems" by (subst skip_group.simps) auto
  next
    case False
    then have p: "p + 1 \<le> length P" using c by simp
    obtain d where d: "c_at P (p + 1) = Some d" "d \<noteq> NUL \<longleftrightarrow> p + 1 < length P" using c_at_cases [OF "1.prems"(1) p] by blast
    note IH = "1.IH" [OF c(1) False]
    have next1: "tot (\<lambda>q. p \<le> q \<and> q \<le> length P) m" if "tot (\<lambda>q. p + 1 \<le> q \<and> q \<le> length P) m" for m
      using that by (rule tot_weaken) auto
    consider "c = BSL" | "c = CHR ''[''" | "c = CHR ''(''" | "c = CHR '')''" "depth = 1" | "c = CHR '')''" "depth \<noteq> 1"
      | "c \<noteq> BSL" "c \<noteq> CHR ''[''" "c \<noteq> CHR ''(''" "c \<noteq> CHR '')''" by blast
    then have "tot (\<lambda>q. p \<le> q \<and> q \<le> length P) (if c = BSL then do { d \<leftarrow> c_at P (p + 1); skip_group P depth (if d \<noteq> NUL then p + 2 else p + 1) }
       else if c = CHR ''['' then do { q \<leftarrow> skip_class P (p + 1); skip_group P depth q }
       else if c = CHR ''('' then skip_group P (depth + 1) (p + 1)
       else if c = CHR '')'' then (if depth = 1 then Some (p + 1) else skip_group P (depth - 1) (p + 1))
       else skip_group P depth (p + 1))"
    proof cases
      case 1
      let ?q = "if d \<noteq> NUL then p + 2 else p + 1"
      have "?q \<le> length P" using p d by auto
      then have "tot (\<lambda>q. ?q \<le> q \<and> q \<le> length P) (skip_group P depth ?q)" using IH(1) 1 d(1) "1.prems"(1) by blast
      then have "tot (\<lambda>q. p \<le> q \<and> q \<le> length P) (skip_group P depth ?q)" by (rule tot_weaken) (auto split: if_splits)
      then show ?thesis using 1 d(1) by simp
    next
      case 2
      have "tot (\<lambda>q. p \<le> q \<and> q \<le> length P) (do { q \<leftarrow> skip_class P (p + 1); skip_group P depth q })"
      proof (rule tot_bind)
        show "tot (\<lambda>q. (p + 1 \<le> q \<and> q \<le> length P) \<and> skip_class P (p + 1) = Some q) (skip_class P (p + 1))"
          using skip_class_tot [OF "1.prems"(1) p] by (auto simp: tot_def)
        show "tot (\<lambda>q. p \<le> q \<and> q \<le> length P) (skip_group P depth q)"
          if "(p + 1 \<le> q \<and> q \<le> length P) \<and> skip_class P (p + 1) = Some q" for q
        proof -
          have "tot (\<lambda>r. q \<le> r \<and> r \<le> length P) (skip_group P depth q)" using IH(2) 2 that "1.prems"(1) by simp
          then show ?thesis by (rule tot_weaken) (use that in auto)
        qed
      qed
      then show ?thesis using 2 by simp
    next
      case 3
      then show ?thesis using next1 [OF IH(3)] p "1.prems"(1) by simp
    next
      case 4
      then show ?thesis using p by simp
    next
      case 5
      then show ?thesis using next1 [OF IH(4)] p "1.prems"(1) by simp
    next
      case 6
      then show ?thesis using next1 [OF IH(5)] p "1.prems"(1) by simp
    qed
    then show ?thesis using False c(1) by (subst skip_group.simps) simp
  qed
qed

lemma skip_atom_tot: "c_str P \<Longrightarrow> p < length P \<Longrightarrow> tot (\<lambda>q. p < q \<and> q \<le> length P) (skip_atom P p)"
proof -
  assume P: "c_str P" "p < length P"
  obtain c where c: "c_at P p = Some c" "c \<noteq> NUL" using c_at_cases [OF P(1), of p] P(2) by auto
  obtain d where d: "c_at P (p + 1) = Some d" "d \<noteq> NUL \<longleftrightarrow> p + 1 < length P" using c_at_cases [OF P(1), of "p + 1"] P(2) by auto
  have "tot (\<lambda>q. p < q \<and> q \<le> length P) (skip_class P (p + 1))" "tot (\<lambda>q. p < q \<and> q \<le> length P) (skip_group P 1 (p + 1))"
    using skip_class_tot [OF P(1), of "p + 1"] skip_group_tot [OF P(1), of "p + 1" 1] P(2) by (auto elim!: tot_weaken)
  then show ?thesis using c d P(2) by (simp add: skip_atom_def)
qed

lemma class_rest_to_tot: "pend \<le> length P \<Longrightarrow> tot (\<lambda>_. True) (class_rest_to P p pend)"
proof (induction P p pend rule: class_rest_to.induct)
  case (1 P p pend)
  show ?case
  proof (cases "p < pend")
    case True
    then obtain c where c: "c_at P p = Some c" using c_at_in [of p P] "1.prems" by auto
    then show ?thesis using "1.IH" [OF True c _ "1.prems"] True by (subst class_rest_to.simps) simp
  qed (simp add: class_rest_to.simps)
qed

lemma class_end_to_tot: "pend \<le> length P \<Longrightarrow> tot (\<lambda>_. True) (class_end_to P p pend)"
proof -
  assume P: "pend \<le> length P"
  have "tot (\<lambda>_. True) (step_over P k p pend)" for k p
    using c_at_in [of p P] P by (auto simp: step_over_def)
  then show ?thesis unfolding class_end_to_def by (blast intro: tot_bind class_rest_to_tot [OF P])
qed

lemma find_top_alt_tot: "pend \<le> length P \<Longrightarrow> tot (\<lambda>_. True) (find_top_alt P depth p pend)"
proof (induction P depth p pend rule: find_top_alt.induct)
  case (1 P depth p pend)
  show ?case
  proof (cases "p < pend")
    case True
    then obtain c where c: "c_at P p = Some c" using c_at_in [of p P] "1.prems" by auto
    obtain q where q: "class_end_to P (p + 1) pend = Some q" using class_end_to_tot [OF "1.prems"] by (auto simp: tot_def)
    note IH = "1.IH" [OF True c]
    have "tot (\<lambda>_. True) (find_top_alt P depth (if p + 1 < pend then p + 2 else p + 1) pend)" if "c = BSL"
      using IH(1) that "1.prems" by simp
    moreover have "tot (\<lambda>_. True) (find_top_alt P depth (q + 1) pend)" if "c = CHR ''[''"
      using IH(2) [OF _ _ q] that "1.prems" by simp
    moreover have "tot (\<lambda>_. True) (find_top_alt P (depth + 1) (p + 1) pend)" if "c = CHR ''(''"
      using IH(3) that "1.prems" by simp
    moreover have "tot (\<lambda>_. True) (find_top_alt P (depth - 1) (p + 1) pend)" if "c = CHR '')''"
      using IH(4) that "1.prems" by simp
    moreover have "tot (\<lambda>_. True) (find_top_alt P depth (p + 1) pend)"
      if "c \<noteq> BSL" "c \<noteq> CHR ''[''" "c \<noteq> CHR ''(''" "c \<noteq> CHR '')''" "\<not> (c = CHR ''|'' \<and> depth = 0)"
      using IH(5) that "1.prems" by simp
    ultimately show ?thesis using True c q by (subst find_top_alt.simps) simp
  qed (simp add: find_top_alt.simps)
qed

lemma group_index_tot: "c_str P \<Longrightarrow> p_open \<le> length P \<Longrightarrow> tot (\<lambda>i. n < i) (group_index P n q p_open)"
proof (induction P n q p_open rule: group_index.induct)
  case (1 P n q p_open)
  show ?case
  proof (cases "q < p_open")
    case True
    then have q: "q + 1 \<le> length P" using "1.prems" by simp
    then obtain c where c: "c_at P q = Some c" using c_at_in [of q P] by auto
    obtain d where d: "c_at P (q + 1) = Some d" using c_at_in [of "q + 1" P] q by auto
    obtain r where r: "skip_class P (q + 1) = Some r" using skip_class_tot [OF "1.prems"(1) q] by (auto simp: tot_def)
    note IH = "1.IH" [OF True c]
    have "tot (\<lambda>i. n < i) (group_index P n (if d \<noteq> NUL then q + 2 else q + 1) p_open)" if "c = BSL"
      using IH(1) [OF that d] "1.prems" by simp
    moreover have "tot (\<lambda>i. n < i) (group_index P n r p_open)" if "c = CHR ''[''"
      using IH(2) [OF _ that r] that "1.prems" by simp
    moreover have "tot (\<lambda>i. n < i) (group_index P (if c = CHR ''('' then n + 1 else n) (q + 1) p_open)"
      if "c \<noteq> BSL" "c \<noteq> CHR ''[''"
      using IH(3) [OF that "1.prems"] by (rule tot_weaken) (auto split: if_splits)
    ultimately show ?thesis using True c d r by (subst group_index.simps) simp
  qed (simp add: group_index.simps)
qed

lemma class_item_tot:
  assumes "c_str P" "q < length P" "c_at P q = Some k"
  shows "tot (\<lambda>(lo, hi, r). q < r \<and> r \<le> length P) (class_item P k q)"
proof -
  have range: "tot (\<lambda>(lo, hi, r). p \<le> r \<and> r \<le> length P) (class_range P lo p)" if p: "p \<le> length P" for lo p
  proof -
    obtain m where m: "c_at P p = Some m" "m \<noteq> NUL \<longleftrightarrow> p < length P" using c_at_cases [OF assms(1) p] by blast
    show ?thesis
    proof (cases "m = CHR ''-''")
      case True
      then have "p + 1 \<le> length P" using m by simp
      then obtain h where h: "c_at P (p + 1) = Some h" "h \<noteq> NUL \<longleftrightarrow> p + 1 < length P" using c_at_cases [OF assms(1)] by blast
      show ?thesis
      proof (cases "h = NUL")
        case False
        then have "p + 2 \<le> length P" using h by simp
        then obtain e where "c_at P (p + 2) = Some e" "e \<noteq> NUL \<longleftrightarrow> p + 2 < length P" using c_at_cases [OF assms(1)] by blast
        then show ?thesis using m True h False p by (auto simp: class_range_def)
      qed (use m True h p in \<open>simp add: class_range_def\<close>)
    qed (use m p in \<open>simp add: class_range_def\<close>)
  qed
  obtain e where e: "c_at P (q + 1) = Some e" "e \<noteq> NUL \<longleftrightarrow> q + 1 < length P" using c_at_cases [OF assms(1), of "q + 1"] assms(2) by auto
  have "tot (\<lambda>(lo, hi, r). q < r \<and> r \<le> length P) (class_range P k (q + 1))"
    using range [of "q + 1" k] assms(2) by (auto elim!: tot_weaken)
  then show ?thesis using e assms(2) by (cases "k = BSL"; cases "e = NUL") (simp_all add: class_item_def)
qed

lemma class_has_tot: "c_str P \<Longrightarrow> q \<le> length P \<Longrightarrow> tot (\<lambda>_. True) (class_has P c found q)"
proof (induction P c found q rule: class_has.induct)
  case (1 P c found q)
  obtain k where k: "c_at P q = Some k" "k \<noteq> NUL \<longleftrightarrow> q < length P" using c_at_cases [OF "1.prems"] by blast
  show ?case
  proof (cases "k = NUL \<or> k = CHR '']''")
    case True
    then show ?thesis using k by (subst class_has.simps) simp
  next
    case False
    then obtain lo hi r where r: "class_item P k q = Some (lo, hi, r)" "r \<le> length P"
      using class_item_tot [OF "1.prems"(1) _ k(1)] k(2) by (auto simp: tot_def)
    have "tot (\<lambda>_. True) (class_has P c (found \<or> byte_of lo \<le> byte_of c \<and> byte_of c \<le> byte_of hi) r)"
      using "1.IH" [OF k(1) False r(1) refl refl "1.prems"(1) r(2)] .
    then show ?thesis using k False r by (subst class_has.simps) simp
  qed
qed

lemma char_matches_tot: "c_str P \<Longrightarrow> p < length P \<Longrightarrow> tot (\<lambda>_. True) (char_matches P p c)"
proof -
  assume P: "c_str P" "p < length P"
  obtain k where k: "c_at P p = Some k" using c_at_in [of p P] P by auto
  obtain a where a: "c_at P (p + 1) = Some a" "a \<noteq> NUL \<longleftrightarrow> p + 1 < length P" using c_at_cases [OF P(1), of "p + 1"] P(2) by auto
  let ?q = "if a = CHR ''^'' then p + 2 else p + 1"
  have q: "?q \<le> length P" using a P(2) by auto
  obtain b where b: "c_at P ?q = Some b" "b \<noteq> NUL \<longleftrightarrow> ?q < length P" using c_at_cases [OF P(1) q] by blast
  have "(if b = CHR '']'' then ?q + 1 else ?q) \<le> length P" using b q by auto
  then obtain x where "class_has P c (b = CHR '']'' \<and> c = CHR '']'') (if b = CHR '']'' then ?q + 1 else ?q) = Some x"
    using class_has_tot [OF P(1)] by (fastforce simp: tot_def)
  then show ?thesis using k a b by (simp add: char_matches_def Let_def)
qed

section \<open>Matching stays inside\<close>

text \<open>The captures at text position \<open>s\<close>: those of the groups \<open>G\<close>, which are being matched, have started; the others are
  unset or lie in the text.\<close>

definition caps_ok :: "string \<Rightarrow> nat set \<Rightarrow> nat \<Rightarrow> rx_state \<Rightarrow> bool" where
  "caps_ok T G s ms \<longleftrightarrow> s \<le> length T \<and> length (rx_so ms) = RE_MAXGROUPS \<and> length (rx_eo ms) = RE_MAXGROUPS \<and>
     (\<forall>i < RE_MAXGROUPS. if i \<in> G then 0 \<le> rx_so ms ! i \<and> rx_so ms ! i \<le> int s
        else rx_so ms ! i = -1 \<and> rx_eo ms ! i = -1 \<or>
             0 \<le> rx_so ms ! i \<and> rx_so ms ! i \<le> rx_eo ms ! i \<and> rx_eo ms ! i \<le> int (length T))"

definition advances :: "string \<Rightarrow> nat \<Rightarrow> rx_state \<Rightarrow> nat option \<times> rx_state \<Rightarrow> bool" where
  "advances T s ms = (\<lambda>(r, ms'). \<forall>s'. r = Some s' \<longrightarrow> s \<le> s' \<and> s' \<le> length T \<and> (\<forall>G. caps_ok T G s ms \<longrightarrow> caps_ok T G s' ms'))"

lemma caps_ok_mono: "caps_ok T G s ms \<Longrightarrow> s \<le> s' \<Longrightarrow> s' \<le> length T \<Longrightarrow> caps_ok T G s' ms"
  by (fastforce simp: caps_ok_def)

lemma caps_ok_depth [simp]: "caps_ok T G s (ms\<lparr>rx_depth := d\<rparr>) = caps_ok T G s ms"
  by (simp add: caps_ok_def)

lemma caps_open:
  assumes "caps_ok T G s ms"
  shows "caps_ok T (insert g G) s (ms\<lparr>rx_so := (rx_so ms)[g := int s]\<rparr>)"
proof -
  have "(rx_so ms)[g := int s] ! i = (if i = g then int s else rx_so ms ! i)" if "i < RE_MAXGROUPS" for i
    using that assms by (auto simp: caps_ok_def)
  then show ?thesis using assms by (auto simp: caps_ok_def)
qed

lemma caps_close:
  assumes "caps_ok T (insert g G) s ms" "g < RE_MAXGROUPS"
  shows "caps_ok T G s (ms\<lparr>rx_eo := (rx_eo ms)[g := int s]\<rparr>)"
proof -
  have "(rx_eo ms)[g := int s] ! i = (if i = g then int s else rx_eo ms ! i)" if "i < RE_MAXGROUPS" for i
    using that assms by (auto simp: caps_ok_def)
  moreover have "\<forall>i < RE_MAXGROUPS. i \<noteq> g \<longrightarrow> (i \<in> insert g G \<longleftrightarrow> i \<in> G)" by blast
  ultimately show ?thesis using assms unfolding caps_ok_def by (auto split: if_splits)
qed

lemma advances_None [simp]: "advances T s ms (None, ms')"
  by (simp add: advances_def)

lemma advances_Some: "advances T s ms (Some s', ms') \<longleftrightarrow> s \<le> s' \<and> s' \<le> length T \<and> (\<forall>G. caps_ok T G s ms \<longrightarrow> caps_ok T G s' ms')"
  by (simp add: advances_def)

lemma advances_trans: "advances T s ms (Some s', ms') \<Longrightarrow> advances T s' ms' r \<Longrightarrow> advances T s ms r"
  by (auto simp: advances_def)

lemma advances_depth [simp]: "advances T s (ms\<lparr>rx_depth := d\<rparr>) r = advances T s ms r"
    "advances T s ms (r', ms'\<lparr>rx_depth := d\<rparr>) = advances T s ms (r', ms')"
  by (simp_all add: advances_def)

lemma advances_later: "advances T s' ms r \<Longrightarrow> s \<le> s' \<Longrightarrow> s' \<le> length T \<Longrightarrow> advances T s ms r"
  by (cases r) (auto simp: advances_def intro: caps_ok_mono)

lemma advances_here: "s \<le> length T \<Longrightarrow> advances T s ms (Some s, ms)"
  by (simp add: advances_Some)

section \<open>What a pattern matches\<close>

text \<open>The quantifier of the item at \<open>p\<close>, zero if there is none, and the position of the next item.\<close>

definition rx_item :: "string \<Rightarrow> nat \<Rightarrow> (char \<times> nat) option" where
  "rx_item P p =
     do {
       c \<leftarrow> c_at P p;
       if c = CHR ''^'' \<or> c = CHR ''$'' then Some (NUL, p + 1)
       else do {
         ae \<leftarrow> skip_atom P p;
         k \<leftarrow> c_at P ae;
         Some (if k = CHR ''?'' \<or> k = CHR ''*'' \<or> k = CHR ''+'' then (k, ae + 1) else (NUL, ae))
       }
     }"

text \<open>
  The part of the pattern from \<open>p\<close> to \<open>pend\<close> matches the text from \<open>s\<close> to \<open>s'\<close>: as one atom, as an atom repeated at least
  \<open>k\<close> times, as a sequence of items, and as alternatives.
\<close>

inductive atom_match :: "string \<Rightarrow> string \<Rightarrow> nat \<Rightarrow> nat \<Rightarrow> nat \<Rightarrow> bool"
  and reps_match :: "string \<Rightarrow> string \<Rightarrow> nat \<Rightarrow> nat \<Rightarrow> nat \<Rightarrow> nat \<Rightarrow> bool"
  and seq_match :: "string \<Rightarrow> string \<Rightarrow> nat \<Rightarrow> nat \<Rightarrow> nat \<Rightarrow> nat \<Rightarrow> bool"
  and alt_match :: "string \<Rightarrow> string \<Rightarrow> nat \<Rightarrow> nat \<Rightarrow> nat \<Rightarrow> nat \<Rightarrow> bool"
  for P T where
  atom_bol: "c_at P p = Some (CHR ''^'') \<Longrightarrow> s = 0 \<or> c_at T (s - 1) = Some NL \<Longrightarrow> atom_match P T p s s"
| atom_eol: "c_at P p = Some (CHR ''$'') \<Longrightarrow> c_at T s = Some NUL \<or> c_at T s = Some NL \<Longrightarrow> atom_match P T p s s"
| atom_group: "c_at P p = Some (CHR ''('') \<Longrightarrow> skip_atom P p = Some ae \<Longrightarrow> alt_match P T (p + 1) (ae - 1) s s' \<Longrightarrow> atom_match P T p s s'"
| atom_char: "c_at P p = Some c \<Longrightarrow> c \<noteq> CHR ''^'' \<Longrightarrow> c \<noteq> CHR ''$'' \<Longrightarrow> c \<noteq> CHR ''('' \<Longrightarrow>
    c_at T s = Some x \<Longrightarrow> x \<noteq> NUL \<Longrightarrow> char_matches P p x = Some True \<Longrightarrow> atom_match P T p s (s + 1)"
| reps_none: "reps_match P T p 0 s s"
| reps_more: "atom_match P T p s s' \<Longrightarrow> reps_match P T p (k - 1) s' s'' \<Longrightarrow> reps_match P T p k s s''"
| seq_end: "pend \<le> p \<Longrightarrow> seq_match P T p pend s s"
| seq_once: "p < pend \<Longrightarrow> rx_item P p = Some (NUL, q) \<Longrightarrow> atom_match P T p s s' \<Longrightarrow> seq_match P T q pend s' s'' \<Longrightarrow> seq_match P T p pend s s''"
| seq_take: "p < pend \<Longrightarrow> rx_item P p = Some (CHR ''?'', q) \<Longrightarrow> atom_match P T p s s' \<Longrightarrow> seq_match P T q pend s' s'' \<Longrightarrow> seq_match P T p pend s s''"
| seq_leave: "p < pend \<Longrightarrow> rx_item P p = Some (CHR ''?'', q) \<Longrightarrow> seq_match P T q pend s s' \<Longrightarrow> seq_match P T p pend s s'"
| seq_star: "p < pend \<Longrightarrow> rx_item P p = Some (CHR ''*'', q) \<Longrightarrow> reps_match P T p 0 s s' \<Longrightarrow> seq_match P T q pend s' s'' \<Longrightarrow> seq_match P T p pend s s''"
| seq_plus: "p < pend \<Longrightarrow> rx_item P p = Some (CHR ''+'', q) \<Longrightarrow> reps_match P T p 1 s s' \<Longrightarrow> seq_match P T q pend s' s'' \<Longrightarrow> seq_match P T p pend s s''"
| alt_only: "find_top_alt P 0 p pend = Some None \<Longrightarrow> seq_match P T p pend s s' \<Longrightarrow> alt_match P T p pend s s'"
| alt_left: "find_top_alt P 0 p pend = Some (Some b) \<Longrightarrow> seq_match P T p b s s' \<Longrightarrow> alt_match P T p pend s s'"
| alt_right: "find_top_alt P 0 p pend = Some (Some b) \<Longrightarrow> alt_match P T (b + 1) pend s s' \<Longrightarrow> alt_match P T p pend s s'"

lemma rx_item_tot: "c_str P \<Longrightarrow> p < length P \<Longrightarrow> tot (\<lambda>(k, q). p < q \<and> k \<in> {NUL, CHR ''?'', CHR ''*'', CHR ''+''}) (rx_item P p)"
proof -
  assume P: "c_str P" "p < length P"
  obtain c where c: "c_at P p = Some c" using c_at_in [of p P] P by auto
  obtain ae where ae: "skip_atom P p = Some ae" "p < ae" "ae \<le> length P" using skip_atom_tot [OF P] by (auto simp: tot_def)
  then obtain k where "c_at P ae = Some k" using c_at_in by blast
  then show ?thesis using c ae by (simp add: rx_item_def)
qed

text \<open>The matcher, item by item.\<close>

lemma m_seq_item:
  assumes "c_str P" "p < pend" "pend \<le> length P" "rx_depth ms \<le> RE_MAXDEPTH" "rx_item P p = Some (k, q)"
  shows "m_seq P T n ms p pend s =
    (if k = CHR ''?'' then do {
       (r, ms1) \<leftarrow> m_atom P T n ms p s;
       (r, ms1) \<leftarrow> (case r of None \<Rightarrow> Some (None, ms1) | Some s \<Rightarrow> m_seq P T n ms1 q pend s);
       case r of Some s \<Rightarrow> Some (Some s, ms1) | None \<Rightarrow> m_seq P T n ms q pend s
     }
     else if k = CHR ''*'' then do { ps \<leftarrow> m_reps P T n ms p s 1; m_try P T n ms q pend (rev (s # ps)) }
     else if k = CHR ''+'' then do { ps \<leftarrow> m_reps P T n ms p s 0; m_try P T n ms q pend (rev ps) }
     else do {
       (r, ms) \<leftarrow> m_atom P T n ms p s;
       case r of None \<Rightarrow> Some (None, ms) | Some s \<Rightarrow> m_seq P T n ms q pend s
     })"
proof -
  obtain c where c: "c_at P p = Some c" using c_at_in [of p P] assms by auto
  obtain ae where ae: "skip_atom P p = Some ae" "p < ae" "ae \<le> length P" using skip_atom_tot [OF assms(1), of p] assms(2,3) by (auto simp: tot_def)
  then obtain x where x: "c_at P ae = Some x" using c_at_in by blast
  show ?thesis
  proof (cases "c = CHR ''^'' \<or> c = CHR ''$''")
    case True
    then have kq: "k = NUL" "q = p + 1" using assms(5) c by (auto simp: rx_item_def)
    show ?thesis unfolding kq using True assms(2,4) c by (subst m_seq.simps) (simp add: check_def)
  next
    case False
    then have kq: "(k, q) = (if x = CHR ''?'' \<or> x = CHR ''*'' \<or> x = CHR ''+'' then (x, ae + 1) else (NUL, ae))"
      using assms(5) c ae x by (auto simp: rx_item_def)
    show ?thesis
    proof (cases "x = CHR ''?'' \<or> x = CHR ''*'' \<or> x = CHR ''+''")
      case True
      then have kq: "k = x" "q = ae + 1" using kq by simp_all
      show ?thesis unfolding kq using False True assms(2,4) c ae x by (subst m_seq.simps) (elim disjE; simp add: check_def)
    next
      case other: False
      then have kq: "k = NUL" "q = ae" using kq by simp_all
      show ?thesis unfolding kq using False other assms(2,4) c ae x by (subst m_seq.simps) (simp add: check_def)
    qed
  qed
qed

text \<open>The tables of groups have their size, so an index below it is inside.\<close>

definition rx_sized :: "rx_state \<Rightarrow> bool" where
  "rx_sized ms \<longleftrightarrow> length (rx_so ms) = RE_MAXGROUPS \<and> length (rx_eo ms) = RE_MAXGROUPS"

lemma rx_sized_depth [simp]: "rx_sized (ms\<lparr>rx_depth := d\<rparr>) = rx_sized ms"
  by (simp add: rx_sized_def)

lemma rx_saved_tot: "rx_sized ms \<Longrightarrow> (captured \<longrightarrow> g < RE_MAXGROUPS) \<Longrightarrow> \<exists>old. rx_saved captured g ms = Some old"
  by (simp add: rx_saved_def rx_sized_def aget_def)

lemma rx_open_tot:
  assumes "rx_sized ms" "captured \<longrightarrow> g < RE_MAXGROUPS"
  obtains ms1 where "rx_open captured g s ms = Some ms1" "rx_sized ms1"
    "ms1 = (if captured then ms\<lparr>rx_so := (rx_so ms)[g := int s]\<rparr> else ms)"
  using assms by (auto simp: rx_open_def rx_sized_def aput_def)

lemma rx_close_tot:
  assumes "rx_sized ms" "captured \<longrightarrow> g < RE_MAXGROUPS"
  obtains ms1 where "rx_close captured g s ms = Some ms1" "rx_sized ms1"
    "ms1 = (if captured then ms\<lparr>rx_eo := (rx_eo ms)[g := int s]\<rparr> else ms)"
  using assms by (auto simp: rx_close_def rx_sized_def aput_def)

lemma rx_restore_tot:
  assumes "rx_sized ms" "captured \<longrightarrow> g < RE_MAXGROUPS"
  obtains ms1 where "rx_restore captured g old ms = Some ms1" "rx_sized ms1"
  using assms by (cases captured) (auto simp: rx_restore_def rx_sized_def aput_def)

text \<open>A result of the matcher at \<open>s\<close>: the text position advances and is one that the relation allows, and the tables keep
  their size.\<close>

definition good :: "string \<Rightarrow> (nat \<Rightarrow> bool) \<Rightarrow> nat \<Rightarrow> rx_state \<Rightarrow> nat option \<times> rx_state \<Rightarrow> bool" where
  "good T M s ms r \<longleftrightarrow> rx_sized (snd r) \<and> advances T s ms r \<and> (\<forall>s'. fst r = Some s' \<longrightarrow> M s')"

lemma good_None [simp]: "good T M s ms (None, ms') \<longleftrightarrow> rx_sized ms'"
  by (simp add: good_def)

lemma good_step:
  assumes "tot (good T M s ms) m"
    and "\<And>s' ms'. M s' \<Longrightarrow> rx_sized ms' \<Longrightarrow> s \<le> s' \<Longrightarrow> s' \<le> length T \<Longrightarrow> tot (good T (N s') s' ms') (k s' ms')"
    and "\<And>s' t. M s' \<Longrightarrow> N s' t \<Longrightarrow> L t"
  shows "tot (good T L s ms) (do { (r, ms) \<leftarrow> m; case r of None \<Rightarrow> Some (None, ms) | Some s \<Rightarrow> k s ms })"
proof -
  obtain r ms' where r: "m = Some (r, ms')" "good T M s ms (r, ms')" using assms(1) by (auto simp: tot_def)
  show ?thesis
  proof (cases r)
    case (Some s')
    then have s': "M s'" "rx_sized ms'" "advances T s ms (Some s', ms')" using r(2) by (auto simp: good_def)
    then have "tot (good T (N s') s' ms') (k s' ms')" using assms(2) by (auto simp: advances_Some)
    then have "tot (good T L s ms) (k s' ms')"
      by (rule tot_weaken) (use s' assms(3) in \<open>auto simp: good_def intro: advances_trans\<close>)
    then show ?thesis using r Some by simp
  qed (use r in simp)
qed

lemma bind_pair_assoc: "Option.bind m (\<lambda>(r, ms). Option.bind (f r ms) g) = Option.bind (Option.bind m (\<lambda>(r, ms). f r ms)) g"
  by (cases m) auto

lemma good_or:
  assumes "tot (good T M s ms) m" "tot (good T M s ms) m'"
  shows "tot (good T M s ms) (do { (r, ms1) \<leftarrow> m; case r of Some s \<Rightarrow> Some (Some s, ms1) | None \<Rightarrow> m' })"
  using assms by (auto simp: tot_def split: option.splits)

lemma atom_good:
  assumes ok: "c_str P" "c_str T" "n < RE_MAXGROUPS" and p: "p < length P" and s: "s \<le> length T"
    and sized: "rx_sized ms" and inner: "\<And>ms pend. rx_sized ms \<Longrightarrow> pend \<le> length P \<Longrightarrow> tot (good T (alt_match P T (p + 1) pend s) s ms) (m_alt P T n ms (p + 1) pend s)"
  shows "tot (good T (atom_match P T p s) s ms) (m_atom P T n ms p s)"
proof (cases "rx_depth ms > RE_MAXDEPTH")
  case False
  obtain c where c: "c_at P p = Some c" using c_at_in [of p P] p by auto
  obtain x where x: "c_at T s = Some x" "x \<noteq> NUL \<longleftrightarrow> s < length T" using c_at_cases [OF ok(2) s] by blast
  obtain g where g: "group_index P 0 0 p = Some g" "0 < g" using group_index_tot [OF ok(1), of p 0 0] p by (auto simp: tot_def)
  obtain ae where ae: "skip_atom P p = Some ae" "ae \<le> length P" using skip_atom_tot [OF ok(1) p] by (auto simp: tot_def)
  obtain b where b: "char_matches P p x = Some b" using char_matches_tot [OF ok(1) p] by (auto simp: tot_def)
  consider "c = CHR ''^''" | "c = CHR ''$''" | "c = CHR ''(''" | "c \<noteq> CHR ''^''" "c \<noteq> CHR ''$''" "c \<noteq> CHR ''(''" by blast
  then show ?thesis
  proof cases
    case 1
    have "\<exists>y. c_at T (s - 1) = Some y" by (rule c_at_in) (use s in simp)
    then obtain y where y: "(if s = 0 then Some NL else c_at T (s - 1)) = Some y" by (cases "s = 0") auto
    have "atom_match P T p s s" if "y = NL" using atom_bol [of P p s T] c 1 y that by (auto split: if_splits)
    then show ?thesis using False c 1 y s sized by (subst m_atom.simps) (simp add: good_def advances_here)
  next
    case 2
    then have "atom_match P T p s s" if "x = NUL \<or> x = NL" using atom_eol [of P p T s] c x that by auto
    then show ?thesis using False c 2 x s sized by (subst m_atom.simps) (simp add: good_def advances_here)
  next
    case 3
    have group: "g \<le> n \<longrightarrow> g < RE_MAXGROUPS" using ok(3) by simp
    obtain old where old: "rx_saved (g \<le> n) g ms = Some old" using rx_saved_tot [OF sized group] by blast
    obtain ms1 where opened: "rx_open (g \<le> n) g s ms = Some ms1" "rx_sized ms1"
        "ms1 = (if g \<le> n then ms\<lparr>rx_so := (rx_so ms)[g := int s]\<rparr> else ms)"
      using rx_open_tot [OF sized group] .
    obtain r ms2 where m: "m_alt P T n (ms1\<lparr>rx_depth := rx_depth ms1 + 1\<rparr>) (p + 1) (ae - 1) s = Some (r, ms2)"
        "good T (alt_match P T (p + 1) (ae - 1) s) s ms1 (r, ms2)"
      using inner [of "ms1\<lparr>rx_depth := rx_depth ms1 + 1\<rparr>" "ae - 1"] ae(2) opened(2) by (fastforce simp: tot_def good_def)
    let ?ms3 = "ms2\<lparr>rx_depth := rx_depth ms2 - 1\<rparr>"
    have sized3: "rx_sized ?ms3" using m(2) by (simp add: good_def)
    show ?thesis
    proof (cases r)
      case None
      obtain ms4 where "rx_restore (g \<le> n) g old ?ms3 = Some ms4" "rx_sized ms4" using rx_restore_tot [OF sized3 group] .
      then show ?thesis using False c 3 g(1) ae(1) old opened(1) m(1) None by (subst m_atom.simps) (simp add: Let_def)
    next
      case (Some s')
      obtain ms4 where close: "rx_close (g \<le> n) g s' ?ms3 = Some ms4" "rx_sized ms4"
          "ms4 = (if g \<le> n then ?ms3\<lparr>rx_eo := (rx_eo ?ms3)[g := int s']\<rparr> else ?ms3)"
        using rx_close_tot [OF sized3 group] .
      have adv: "advances T s ms1 (Some s', ms2)" and match: "atom_match P T p s s'"
        using m(2) Some atom_group [OF c [unfolded 3] ae(1)] by (auto simp: good_def)
      have "caps_ok T G s' ms4" if "caps_ok T G s ms" for G
      proof (cases "g \<le> n")
        case True
        then have "caps_ok T (insert g G) s' ?ms3" using adv caps_open [OF that, of g] opened(3) by (auto simp: advances_Some)
        from caps_close [OF this] show ?thesis using True group close(3) by simp
      qed (use adv that opened(3) close(3) in \<open>simp add: advances_Some\<close>)
      then have "good T (atom_match P T p s) s ms (Some s', ms4)" using adv match close(2) by (simp add: good_def advances_Some)
      then show ?thesis using False c 3 g(1) ae(1) old opened(1) m(1) Some close(1) by (subst m_atom.simps) (simp add: Let_def)
    qed
  next
    case 4
    have "atom_match P T p s (s + 1)" if "b" "x \<noteq> NUL" using atom_char [OF c 4 x(1)] b that by simp
    moreover have "advances T s ms (Some (s + 1), ms)" if "x \<noteq> NUL"
      using x(2) that by (auto simp: advances_Some intro: caps_ok_mono)
    ultimately show ?thesis using False c 4 x(1) b sized by (subst m_atom.simps) (simp add: good_def)
  qed
qed (use sized in \<open>simp add: m_atom.simps\<close>)

lemma reps_weaken: "reps_match P T p k s s' \<Longrightarrow> j \<le> k \<Longrightarrow> reps_match P T p j s s'"
proof (induction k arbitrary: j s)
  case 0
  then show ?case by simp
next
  case (Suc k)
  from Suc.prems(1) obtain t where "atom_match P T p s t" "reps_match P T p k t s'" by (cases rule: reps_match.cases) auto
  then show ?case using Suc.IH [of t "j - 1"] Suc.prems(2) by (auto intro: reps_more)
qed

lemma reps_good:
  assumes "\<And>ms s. rx_sized ms \<Longrightarrow> s \<le> length T \<Longrightarrow> tot (good T (atom_match P T p s) s ms) (m_atom P T n ms p s)" "k \<le> RE_MAXREPS"
  shows "rx_sized ms \<Longrightarrow> s \<le> length T \<Longrightarrow>
    tot (\<lambda>ps. \<forall>s' \<in> set ps. s \<le> s' \<and> s' \<le> length T \<and> reps_match P T p 1 s s') (m_reps P T n ms p s k)"
  using assms(2)
proof (induction k arbitrary: s ms rule: inc_induct)
  case base
  then show ?case by (simp add: m_reps.simps)
next
  case (step k)
  obtain r ms' where r: "m_atom P T n ms p s = Some (r, ms')" "good T (atom_match P T p s) s ms (r, ms')"
    using assms(1) [OF step.prems] by (auto simp: tot_def)
  show ?case
  proof (cases "r = None \<or> r = Some s")
    case False
    then obtain s' where "r = Some s'" "s' \<noteq> s" by (cases r) auto
    then have s': "r = Some s'" "s' \<noteq> s" "s \<le> s'" "s' \<le> length T" "atom_match P T p s s'" "rx_sized ms'"
      using r(2) by (auto simp: good_def advances_Some)
    obtain ps where ps: "m_reps P T n ms' p s' (Suc k) = Some ps"
        "\<forall>t \<in> set ps. s' \<le> t \<and> t \<le> length T \<and> reps_match P T p 1 s' t"
      using step.IH [OF s'(6,4)] by (auto simp: tot_def)
    have "reps_match P T p 1 s s'" using reps_more [OF s'(5), of 1] reps_none by simp
    moreover have "reps_match P T p 1 s t" if "t \<in> set ps" for t
      using reps_more [OF s'(5), of 1 t] reps_weaken ps(2) that by auto
    ultimately show ?thesis using r(1) s' step.hyps ps by (subst m_reps.simps) auto
  qed (use r(1) step.hyps in \<open>auto simp: m_reps.simps [of P T n ms]\<close>)
qed

lemma try_good:
  assumes "\<And>ms s. rx_sized ms \<Longrightarrow> s \<le> length T \<Longrightarrow> tot (good T (seq_match P T q pend s) s ms) (m_seq P T n ms q pend s)"
    and "rx_sized ms" and "\<And>s' t. R s' \<Longrightarrow> seq_match P T q pend s' t \<Longrightarrow> L t"
  shows "\<forall>s' \<in> set ss. s \<le> s' \<and> s' \<le> length T \<and> R s' \<Longrightarrow> tot (good T L s ms) (m_try P T n ms q pend ss)"
proof (induction ss)
  case (Cons s' ss)
  have "tot (good T (seq_match P T q pend s') s' ms) (m_seq P T n ms q pend s')" using assms(1,2) Cons.prems by simp
  then have "tot (good T L s ms) (m_seq P T n ms q pend s')"
    by (rule tot_weaken) (use Cons.prems assms(3) in \<open>auto simp: good_def intro: advances_later\<close>)
  from good_or [OF this Cons.IH] show ?case using Cons.prems by simp
qed (use assms(2) in simp)

lemma seq_good:
  assumes ok: "c_str P" and pend: "pend \<le> length P" and s: "s \<le> length T" and sized: "rx_sized ms"
    and atom: "\<And>ms s. p < length P \<Longrightarrow> rx_sized ms \<Longrightarrow> s \<le> length T \<Longrightarrow> tot (good T (atom_match P T p s) s ms) (m_atom P T n ms p s)"
    and rest: "\<And>q ms s. p < q \<Longrightarrow> rx_sized ms \<Longrightarrow> s \<le> length T \<Longrightarrow> tot (good T (seq_match P T q pend s) s ms) (m_seq P T n ms q pend s)"
  shows "tot (good T (seq_match P T p pend s) s ms) (m_seq P T n ms p pend s)"
proof (cases "rx_depth ms \<le> RE_MAXDEPTH \<and> p < pend")
  case True
  then have p: "p < pend" "p < length P" using pend by auto
  obtain k q where item: "rx_item P p = Some (k, q)" "p < q" "k \<in> {NUL, CHR ''?'', CHR ''*'', CHR ''+''}"
    using rx_item_tot [OF ok p(2)] by (auto simp: tot_def)
  note eq = m_seq_item [OF ok p(1) pend _ item(1), of ms T n s]
  note atom = atom [OF p(2)] and rest = rest [OF item(2)]
  from item(3) consider "k = NUL" | "k = CHR ''?''" | "k = CHR ''*''" | "k = CHR ''+''" by auto
  then show ?thesis
  proof cases
    case 1
    have "tot (good T (seq_match P T p pend s) s ms) (do { (r, ms) \<leftarrow> m_atom P T n ms p s; case r of None \<Rightarrow> Some (None, ms) | Some s \<Rightarrow> m_seq P T n ms q pend s })"
      by (rule good_step [OF atom [OF sized s]]) (use rest seq_once [OF p(1) item(1) [unfolded 1]] in blast)+
    then show ?thesis using eq True 1 by simp
  next
    case 2
    have "tot (good T (seq_match P T p pend s) s ms) (do { (r, ms) \<leftarrow> m_atom P T n ms p s; case r of None \<Rightarrow> Some (None, ms) | Some s \<Rightarrow> m_seq P T n ms q pend s })"
      by (rule good_step [OF atom [OF sized s]]) (use rest seq_take [OF p(1) item(1) [unfolded 2]] in blast)+
    moreover have "tot (good T (seq_match P T p pend s) s ms) (m_seq P T n ms q pend s)"
      by (rule tot_weaken [OF rest [OF sized s]]) (use seq_leave [OF p(1) item(1) [unfolded 2]] in \<open>auto simp: good_def\<close>)
    ultimately have "tot (good T (seq_match P T p pend s) s ms)
        (do { (r, ms1) \<leftarrow> do { (r, ms) \<leftarrow> m_atom P T n ms p s; case r of None \<Rightarrow> Some (None, ms) | Some s \<Rightarrow> m_seq P T n ms q pend s };
              case r of Some s \<Rightarrow> Some (Some s, ms1) | None \<Rightarrow> m_seq P T n ms q pend s })"
      by (rule good_or)
    then show ?thesis using eq True 2 by (simp add: bind_pair_assoc)
  next
    case 3
    obtain ps where ps: "m_reps P T n ms p s 1 = Some ps" "\<forall>s' \<in> set ps. s \<le> s' \<and> s' \<le> length T \<and> reps_match P T p 1 s s'"
      using reps_good [OF atom, of 1 ms s] sized s by (auto simp: tot_def)
    have "tot (good T (seq_match P T p pend s) s ms) (m_try P T n ms q pend (rev (s # ps)))"
      by (rule try_good [OF rest sized seq_star [OF p(1) item(1) [unfolded 3]]]) (use ps s reps_none reps_weaken in auto)
    then show ?thesis using eq True 3 ps by simp
  next
    case 4
    obtain ps where ps: "m_reps P T n ms p s 0 = Some ps" "\<forall>s' \<in> set ps. s \<le> s' \<and> s' \<le> length T \<and> reps_match P T p 1 s s'"
      using reps_good [OF atom, of 0 ms s] sized s by (auto simp: tot_def)
    have "tot (good T (seq_match P T p pend s) s ms) (m_try P T n ms q pend (rev ps))"
      by (rule try_good [OF rest sized seq_plus [OF p(1) item(1) [unfolded 4]]]) (use ps in auto)
    then show ?thesis using eq True 4 ps by simp
  qed
next
  case False
  then show ?thesis using s sized seq_end [of pend p P T s] by (subst m_seq.simps) (auto simp: good_def advances_here)
qed

lemma alt_good:
  assumes pend: "pend \<le> length P" and s: "s \<le> length T" and sized: "rx_sized ms"
    and seq: "\<And>ms pend. rx_sized ms \<Longrightarrow> pend \<le> length P \<Longrightarrow> tot (good T (seq_match P T p pend s) s ms) (m_seq P T n ms p pend s)"
    and rest: "\<And>q ms. p < q \<Longrightarrow> rx_sized ms \<Longrightarrow> tot (good T (alt_match P T q pend s) s ms) (m_alt P T n ms q pend s)"
  shows "tot (good T (alt_match P T p pend s) s ms) (m_alt P T n ms p pend s)"
proof (cases "rx_depth ms \<le> RE_MAXDEPTH")
  case True
  obtain bar where bar: "find_top_alt P 0 p pend = Some bar" using find_top_alt_tot [OF pend, of 0 p] by (auto simp: tot_def)
  let ?ms = "ms\<lparr>rx_depth := rx_depth ms + 1\<rparr>"
  show ?thesis
  proof (cases bar)
    case None
    obtain r ms' where "m_seq P T n ?ms p pend s = Some (r, ms')" "good T (seq_match P T p pend s) s ?ms (r, ms')"
      using seq [OF _ pend, of ?ms] sized by (auto simp: tot_def)
    then show ?thesis using True bar None alt_only by (subst m_alt.simps) (auto simp: good_def)
  next
    case (Some b)
    then have b: "p \<le> b" "b \<le> length P" using find_top_alt_in bar by auto
    obtain r ms' where left: "m_seq P T n ?ms p b s = Some (r, ms')" "good T (seq_match P T p b s) s ?ms (r, ms')"
      using seq [OF _ b(2), of ?ms] sized by (auto simp: tot_def)
    obtain r' ms'' where right: "m_alt P T n ?ms (b + 1) pend s = Some (r', ms'')" "good T (alt_match P T (b + 1) pend s) s ?ms (r', ms'')"
      using rest [of "b + 1" ?ms] b(1) sized by (auto simp: tot_def)
    show ?thesis using True bar Some left right alt_left alt_right
      by (subst m_alt.simps) (auto simp: good_def split: option.split)
  qed
qed (use sized in \<open>simp add: m_alt.simps\<close>)

lemma matcher_good:
  assumes ok: "c_str P" "c_str T" "n < RE_MAXGROUPS"
  shows "pend \<le> length P \<Longrightarrow> s \<le> length T \<Longrightarrow> rx_sized ms \<Longrightarrow>
    tot (good T (seq_match P T p pend s) s ms) (m_seq P T n ms p pend s) \<and>
    tot (good T (alt_match P T p pend s) s ms) (m_alt P T n ms p pend s)"
proof (induction "Suc (length P) - p" arbitrary: p pend s ms rule: less_induct)
  case less
  have IH: "tot (good T (seq_match P T q pend s) s ms) (m_seq P T n ms q pend s)"
      "tot (good T (alt_match P T q pend s) s ms) (m_alt P T n ms q pend s)"
    if "p < q" "p < length P" "pend \<le> length P" "s \<le> length T" "rx_sized ms" for q pend s ms
    using less(1) [of q pend s ms] that by auto
  have atom: "tot (good T (atom_match P T p s) s ms) (m_atom P T n ms p s)" if "p < length P" "s \<le> length T" "rx_sized ms" for s ms
    by (rule atom_good [OF ok that]) (use IH(2) [of "p + 1"] that in simp)
  have seq: "tot (good T (seq_match P T p pend s) s ms) (m_seq P T n ms p pend s)" if s: "pend \<le> length P" "s \<le> length T" "rx_sized ms" for pend s ms
  proof (cases "p < pend")
    case True
    then have "p < length P" using s by simp
    then show ?thesis using atom IH(1) s(1) by (intro seq_good [OF ok(1) s]) simp_all
  next
    case False
    then show ?thesis using s seq_end [of pend p P T s] by (subst m_seq.simps) (auto simp: good_def advances_here)
  qed
  have alt: "tot (good T (alt_match P T p pend s) s ms) (m_alt P T n ms p pend s)" if s: "pend \<le> length P" "s \<le> length T" "rx_sized ms" for pend s ms
  proof (cases "p < pend")
    case True
    then have "p < length P" using s by simp
    show ?thesis
    proof (rule alt_good [OF s])
      show "tot (good T (seq_match P T p pend s) s ms) (m_seq P T n ms p pend s)" if "rx_sized ms" "pend \<le> length P" for ms pend
        by (rule seq [OF that(2) s(2) that(1)])
      show "tot (good T (alt_match P T q pend s) s ms) (m_alt P T n ms q pend s)" if "p < q" "rx_sized ms" for q ms
        by (rule IH(2) [OF that(1) \<open>p < length P\<close> s(1,2) that(2)])
    qed
  next
    case False
    then have bar: "find_top_alt P 0 p pend = Some None" by (simp add: find_top_alt.simps)
    obtain r ms' where "m_seq P T n (ms\<lparr>rx_depth := rx_depth ms + 1\<rparr>) p pend s = Some (r, ms')" "good T (seq_match P T p pend s) s ms (r, ms')"
      using seq [OF s(1,2), of "ms\<lparr>rx_depth := rx_depth ms + 1\<rparr>"] s(3) by (auto simp: tot_def good_def)
    then show ?thesis using bar alt_only [OF bar] s(3) by (subst m_alt.simps) (auto simp: good_def)
  qed
  show ?case using seq alt less(2-4) by blast
qed

lemma rx_initial_caps: "caps_ok T {} s rx_initial \<longleftrightarrow> s \<le> length T"
  by (auto simp: caps_ok_def rx_initial_def)

text \<open>The result of a search: the match and the groups lie in the text, and no earlier start has a match that the code finds.\<close>

definition in_text :: "string \<Rightarrow> int \<times> int \<Rightarrow> bool" where
  "in_text T = (\<lambda>(a, b). a = -1 \<and> b = -1 \<or> 0 \<le> a \<and> a \<le> b \<and> b \<le> int (length T))"

definition attempt :: "regex_t \<Rightarrow> string \<Rightarrow> nat \<Rightarrow> nat option" where
  "attempt re T s = Option.bind (m_alt (re_pattern re) T (min (re_nsub re) (RE_MAXGROUPS - 1)) rx_initial 0 (length (re_pattern re)) s) fst"

lemma rx_initial_sized: "rx_sized rx_initial"
  by (simp add: rx_sized_def rx_initial_def)

lemma attempt_run:
  assumes "c_str (re_pattern re)" "c_str T" "s \<le> length T"
  obtains ms where "m_alt (re_pattern re) T (min (re_nsub re) (RE_MAXGROUPS - 1)) rx_initial 0 (length (re_pattern re)) s = Some (attempt re T s, ms)"
    and "good T (alt_match (re_pattern re) T 0 (length (re_pattern re)) s) s rx_initial (attempt re T s, ms)"
proof -
  have "min (re_nsub re) (RE_MAXGROUPS - 1) < RE_MAXGROUPS" by simp
  from matcher_good [OF assms(1,2) this, of "length (re_pattern re)" s rx_initial 0] assms(3) rx_initial_sized
  obtain r ms where "m_alt (re_pattern re) T (min (re_nsub re) (RE_MAXGROUPS - 1)) rx_initial 0 (length (re_pattern re)) s = Some (r, ms)"
      "good T (alt_match (re_pattern re) T 0 (length (re_pattern re)) s) s rx_initial (r, ms)"
    by (auto simp: tot_def)
  then show ?thesis by (intro that) (simp_all add: attempt_def)
qed

lemma rx_captures_tot:
  assumes "good T M s rx_initial (Some e, ms)" "s \<le> length T" "n < RE_MAXGROUPS"
  shows "tot (\<lambda>cs. length cs = length is \<and> list_all (in_text T) cs) (rx_captures n ms is)"
proof (induction "is")
  case (Cons i "is")
  have "caps_ok T {} e ms" using assms(1,2) by (auto simp: good_def advances_Some rx_initial_caps)
  then have "tot (in_text T) (rx_capture n ms i)"
    using assms(3) by (auto simp: caps_ok_def rx_capture_def in_text_def aget_def)
  then show ?case using Cons.IH by (auto simp: tot_def)
qed simp

text \<open>A report of \<open>regexec\<close> for the starts from \<open>s\<close> on: the leftmost start at which the matcher succeeds.\<close>

definition reports :: "regex_t \<Rightarrow> string \<Rightarrow> nat \<Rightarrow> nat \<Rightarrow> (int \<times> int) list \<Rightarrow> bool" where
  "reports re T nmatch s caps \<longleftrightarrow> length caps = nmatch \<and> list_all (in_text T) caps \<and>
     (\<exists>b e. s \<le> b \<and> b \<le> e \<and> e \<le> length T \<and> attempt re T b = Some e \<and>
        alt_match (re_pattern re) T 0 (length (re_pattern re)) b e \<and> (0 < nmatch \<longrightarrow> caps ! 0 = (int b, int e)) \<and>
        (\<forall>t. s \<le> t \<and> t < b \<longrightarrow> attempt re T t = None))"

lemma reports_here:
  assumes "length cs = nmatch - 1" "list_all (in_text T) cs" and "good T (alt_match (re_pattern re) T 0 (length (re_pattern re)) s) s rx_initial (Some e, ms)" "attempt re T s = Some e"
    "s \<le> length T"
  shows "reports re T nmatch s (take nmatch [(int s, int e)] @ cs)"
proof -
  have e: "s \<le> e" "e \<le> length T" "alt_match (re_pattern re) T 0 (length (re_pattern re)) s e"
    using assms(3) by (auto simp: good_def advances_Some)
  have "in_text T (int s, int e)" using e by (simp add: in_text_def)
  then have "list_all (in_text T) (take nmatch [(int s, int e)] @ cs)"
    using assms(2) by (cases nmatch) auto
  moreover have "length (take nmatch [(int s, int e)] @ cs) = nmatch" using assms(1) by (cases nmatch) auto
  moreover have "0 < nmatch \<Longrightarrow> (take nmatch [(int s, int e)] @ cs) ! 0 = (int s, int e)"
    by (cases nmatch) auto
  moreover have "\<forall>t. s \<le> t \<and> t < s \<longrightarrow> attempt re T t = None" by auto
  ultimately show ?thesis using e assms(4) unfolding reports_def by blast
qed

lemma regexec_from_result:
  assumes ok: "c_str (re_pattern re)" "c_str T"
  shows "s \<le> length T \<Longrightarrow> tot (\<lambda>r. case r of
      None \<Rightarrow> \<forall>t. s \<le> t \<and> t \<le> length T \<longrightarrow> attempt re T t = None
    | Some caps \<Rightarrow> reports re T nmatch s caps) (regexec_from re T nmatch s)"
proof (induction "length T - s" arbitrary: s rule: less_induct)
  case less
  obtain ms where run: "m_alt (re_pattern re) T (min (re_nsub re) (RE_MAXGROUPS - 1)) rx_initial 0 (length (re_pattern re)) s = Some (attempt re T s, ms)"
      "good T (alt_match (re_pattern re) T 0 (length (re_pattern re)) s) s rx_initial (attempt re T s, ms)"
    using attempt_run [OF ok less.prems] by blast
  show ?case
  proof (cases "attempt re T s")
    case (Some e)
    have "min (re_nsub re) (RE_MAXGROUPS - 1) < RE_MAXGROUPS" by simp
    from rx_captures_tot [OF run(2) [unfolded Some] less.prems this, of "[1..<nmatch]"]
    obtain cs where cs: "rx_captures (min (re_nsub re) (RE_MAXGROUPS - 1)) ms [1..<nmatch] = Some cs"
        "length cs = nmatch - 1" "list_all (in_text T) cs"
      by (auto simp: tot_def)
    then show ?thesis using run Some reports_here [OF cs(2,3) run(2) [unfolded Some] Some less.prems]
      by (subst regexec_from.simps) (simp add: Let_def)
  next
    case None
    obtain x where x: "c_at T s = Some x" "x \<noteq> NUL \<longleftrightarrow> s < length T" using c_at_cases [OF ok(2) less.prems] by blast
    have from_s: "(\<forall>t. s \<le> t \<and> t \<le> k \<longrightarrow> attempt re T t = None) \<longleftrightarrow> (\<forall>t. s + 1 \<le> t \<and> t \<le> k \<longrightarrow> attempt re T t = None)" for k
    proof -
      have "s \<le> t \<longleftrightarrow> t = s \<or> s + 1 \<le> t" for t by auto
      then show ?thesis using None by auto
    qed
    show ?thesis
    proof (cases "s < length T")
      case True
      have "reports re T nmatch s caps" if "reports re T nmatch (s + 1) caps" for caps
        using that None unfolding reports_def by (metis Suc_eq_plus1 Suc_leD Suc_leI le_eq_less_or_eq)
      then have "tot (\<lambda>r. case r of None \<Rightarrow> \<forall>t. s \<le> t \<and> t \<le> length T \<longrightarrow> attempt re T t = None | Some caps \<Rightarrow> reports re T nmatch s caps)
          (regexec_from re T nmatch (s + 1))"
        by (intro tot_weaken [OF less.hyps]) (use True from_s in \<open>auto split: option.splits\<close>)
      then show ?thesis using run None x True by (subst regexec_from.simps) (simp add: Let_def)
    next
      case False
      then show ?thesis using run None x less.prems by (subst regexec_from.simps) (auto simp: Let_def le_less_trans)
    qed
  qed
qed

end
