(* ===== verification/Regex_Find.thy ===== *)
theory Regex_Find
  imports Regex_Safe
begin

text \<open>
  Patterns without groups: there the matcher finds a match wherever there is one, so \<open>regexec\<close> reports the leftmost start.
  The recursion guard leaves room for 199 bars, and the table of repetitions for texts of 4095 characters.
\<close>

section \<open>Atoms and repetitions\<close>

lemma atom_complete:
  assumes "CHR ''('' \<notin> set P" "rx_depth ms \<le> RE_MAXDEPTH" "c_str P" "c_str T" "p < length P" "atom_match P T p s s'"
  shows "m_atom P T n ms p s = Some (Some s', ms)"
  using assms(6)
proof (cases rule: atom_match.cases)
  case atom_bol
  then have "(if s = 0 then Some NL else c_at T (s - 1)) = Some NL" by auto
  then show ?thesis using atom_bol assms(2) by (subst m_atom.simps) simp
next
  case atom_eol
  then show ?thesis using assms(2) by (subst m_atom.simps) auto
next
  case (atom_group ae)
  then show ?thesis using assms(1,5) by (auto simp: c_at_def in_set_conv_nth)
next
  case (atom_char c x)
  then show ?thesis using assms(2) by (subst m_atom.simps) simp
qed

lemma atom_match_char:
  assumes "CHR ''('' \<notin> set P" "p < length P" "c_at P p = Some c" "c \<noteq> CHR ''^''" "c \<noteq> CHR ''$''" "atom_match P T p s s'"
  shows "s' = s + 1 \<and> s < length T"
  using assms(6)
proof (cases rule: atom_match.cases)
  case (atom_group ae)
  then show ?thesis using assms(1,2) by (auto simp: c_at_def in_set_conv_nth)
next
  case (atom_char c x)
  then show ?thesis by (auto simp: c_at_def split: if_splits)
qed (use assms in simp_all)

lemma reps_match_le:
  assumes "\<And>s s'. atom_match P T p s s' \<Longrightarrow> s' = s + 1 \<and> s < length T"
  shows "reps_match P T p k s s' \<Longrightarrow> s + k \<le> s' \<and> (s \<le> length T \<longrightarrow> s' \<le> length T)"
proof -
  have "(p' = p \<longrightarrow> s + k \<le> s' \<and> (s \<le> length T \<longrightarrow> s' \<le> length T))" if "reps_match P T p' k s s'" for p'
    using that
    by (induction rule: atom_match_reps_match_seq_match_alt_match.inducts(2)
        [where ?P1.0 = "\<lambda>_ _ _. True" and ?P3.0 = "\<lambda>_ _ _ _. True" and ?P4.0 = "\<lambda>_ _ _ _. True"])
      (auto dest: assms)
  then show "reps_match P T p k s s' \<Longrightarrow> s + k \<le> s' \<and> (s \<le> length T \<longrightarrow> s' \<le> length T)" by blast
qed

lemma reps_complete:
  assumes char: "\<And>s s'. atom_match P T p s s' \<Longrightarrow> s' = s + 1 \<and> s < length T"
    and atom: "\<And>s s'. atom_match P T p s s' \<Longrightarrow> m_atom P T n ms p s = Some (Some s', ms)"
  shows "reps_match P T p j s s' \<Longrightarrow> k + (s' - s) \<le> RE_MAXREPS \<Longrightarrow> m_reps P T n ms p s k = Some ps \<Longrightarrow> s' = s \<or> s' \<in> set ps"
proof (induction "s' - s" arbitrary: s j k ps)
  case 0
  then show ?case using reps_match_le [OF char 0(2)] by simp
next
  case (Suc d)
  from Suc.prems(1) Suc.hyps(2) obtain t where t: "atom_match P T p s t" "reps_match P T p (j - 1) t s'"
    by (cases rule: reps_match.cases) auto
  have t1: "t = s + 1" using char [OF t(1)] ..
  have k: "k < RE_MAXREPS" using Suc.prems(2) Suc.hyps(2) by simp
  then obtain qs where qs: "m_reps P T n ms p t (k + 1) = Some qs" "ps = t # qs"
    using Suc.prems(3) atom [OF t(1)] t1 by (subst (asm) m_reps.simps) (auto simp: fault_simps)
  have "s' = t \<or> s' \<in> set qs"
    by (rule Suc.hyps(1) [OF _ t(2) _ qs(1)]) (use Suc.hyps(2) Suc.prems(2) t1 in simp_all)
  then show ?case using qs(2) by auto
qed

section \<open>Sequences and alternatives\<close>

lemma try_finds:
  assumes "\<And>s. s \<in> set ss \<Longrightarrow> \<exists>r. m_seq P T n ms p pend s = Some r" "s \<in> set ss" "m_seq P T n ms p pend s = Some (Some e, ms')"
  shows "\<exists>e ms'. m_try P T n ms p pend ss = Some (Some e, ms')"
  using assms
proof (induction ss)
  case (Cons t ss)
  obtain r ms1 where r: "m_seq P T n ms p pend t = Some (r, ms1)" using Cons.prems(1) [of t] by auto
  show ?case
  proof (cases r)
    case None
    then have "s \<in> set ss" using Cons.prems(2,3) r by auto
    then show ?thesis using Cons.IH Cons.prems(1,3) r None by simp
  qed (use r in simp)
qed simp

lemma item_char:
  assumes "rx_item P p = Some (k, q)" "k \<noteq> NUL"
  shows "\<exists>c. c_at P p = Some c \<and> c \<noteq> CHR ''^'' \<and> c \<noteq> CHR ''$''"
  using assms by (auto simp: rx_item_def fault_simps split: if_splits)

lemma atom_match_in:
  assumes "CHR ''('' \<notin> set P" "p < length P" "atom_match P T p s s'" "s \<le> length T"
  shows "s' \<le> length T"
  using assms(3)
proof (cases rule: atom_match.cases)
  case (atom_group ae)
  then show ?thesis using assms(1,2) by (auto simp: c_at_def in_set_conv_nth)
next
  case (atom_char c x)
  then show ?thesis by (auto simp: c_at_def split: if_splits)
qed (use assms in simp_all)

lemma seq_complete:
  assumes ok: "c_str P" "c_str T" "n < RE_MAXGROUPS" and free: "CHR ''('' \<notin> set P" and len: "length T < RE_MAXREPS"
    and pend: "pend \<le> length P" and depth: "rx_depth ms \<le> RE_MAXDEPTH" and sized: "rx_sized ms"
  shows "seq_match P T p pend s s' \<Longrightarrow> s \<le> length T \<Longrightarrow> \<exists>e ms'. m_seq P T n ms p pend s = Some (Some e, ms')"
proof (induction "Suc (length P) - p" arbitrary: p s rule: less_induct)
  case less
  have total: "\<exists>r. m_seq P T n ms q pend t = Some r" if "t \<le> length T" for q t
    using matcher_good [OF ok pend that sized, of q] by (auto simp: tot_def)
  show ?case
  proof (cases "p < pend")
    case True
    then have p: "p < length P" using pend by simp
    obtain k q where item: "rx_item P p = Some (k, q)" "p < q" using rx_item_tot [OF ok(1) p] by (auto simp: tot_def)
    note eq = m_seq_item [OF ok(1) True pend depth item(1), of T n s]
    have rest: "\<exists>e ms'. m_seq P T n ms q pend t = Some (Some e, ms')" if "seq_match P T q pend t s'" "t \<le> length T" for t
      by (rule less(1) [OF _ that]) (use p item(2) in simp)
    have atom: "m_atom P T n ms p t = Some (Some t', ms)" if "atom_match P T p t t'" for t t'
      by (rule atom_complete [OF free depth ok(1,2) p that])
    have char: "t' = t + 1 \<and> t < length T" if "atom_match P T p t t'" "k \<noteq> NUL" for t t'
      using item_char [OF item(1) that(2)] atom_match_char [OF free p _ _ _ that(1)] by blast
    have reps: "\<exists>ps. m_reps P T n ms p s j = Some ps \<and> (\<forall>u \<in> set ps. u \<le> length T) \<and> t \<le> length T \<and> s + i \<le> t \<and> (t = s \<or> t \<in> set ps)"
      if rm: "reps_match P T p i s t" and k: "k \<noteq> NUL" and j: "j \<le> 1" for i j t
    proof -
      have "tot (good T (atom_match P T p t) t ms') (m_atom P T n ms' p t)" if "rx_sized ms'" and t: "t \<le> length T" for ms' t
        by (rule atom_good [OF ok p t that(1)]) (use matcher_good [OF ok _ t] in blast)
      from reps_good [OF this, of j ms s] sized obtain ps where ps: "m_reps P T n ms p s j = Some ps" "\<forall>t \<in> set ps. t \<le> length T"
        using less(3) j by (auto simp: tot_def)
      have t: "s + i \<le> t" "t \<le> length T" using reps_match_le [OF char [OF _ k] rm] less(3) by auto
      have room: "j + (t - s) \<le> RE_MAXREPS" using t(2) j len by linarith
      have "t = s \<or> t \<in> set ps" by (rule reps_complete [OF char [OF _ k] atom rm room ps(1)])
      then show ?thesis using ps t by blast
    qed
    from less(2) show ?thesis
    proof (cases rule: seq_match.cases)
      case (seq_once q' t)
      then have kq: "k = NUL" "q' = q" using item(1) by auto
      obtain e ms' where "m_seq P T n ms q pend t = Some (Some e, ms')"
        using rest [of t] seq_once kq atom_match_in [OF free p _ less(3)] by auto
      then show ?thesis using eq kq atom [OF seq_once(3)] by simp
    next
      case (seq_take q' t)
      then have kq: "k = CHR ''?''" "q' = q" using item(1) by auto
      obtain e ms' where "m_seq P T n ms q pend t = Some (Some e, ms')"
        using rest [of t] seq_take kq atom_match_in [OF free p _ less(3)] by auto
      then show ?thesis using eq kq atom [OF seq_take(3)] by simp
    next
      case (seq_leave q')
      then have kq: "k = CHR ''?''" "q' = q" using item(1) by auto
      obtain e ms' where e: "m_seq P T n ms q pend s = Some (Some e, ms')" using rest [of s] seq_leave kq less(3) by auto
      obtain r ms1 where r: "m_atom P T n ms p s = Some (r, ms1)" "\<forall>t. r = Some t \<longrightarrow> t \<le> length T" "rx_sized ms1"
      proof -
        have "tot (good T (atom_match P T p s) s ms) (m_atom P T n ms p s)"
          by (rule atom_good [OF ok p less(3) sized]) (use matcher_good [OF ok _ less(3)] in blast)
        then obtain x where "m_atom P T n ms p s = Some x" "good T (atom_match P T p s) s ms x" by (auto simp: tot_def)
        then show ?thesis by (intro that [of "fst x" "snd x"]) (auto simp: good_def advances_def)
      qed
      then show ?thesis
      proof (cases r)
        case None
        then show ?thesis using eq kq e r(1) by simp
      next
        case (Some t)
        obtain x ms2 where "m_seq P T n ms1 q pend t = Some (x, ms2)"
          using matcher_good [OF ok pend _ r(3), of t q] r(2) Some by (auto simp: tot_def)
        then show ?thesis using eq kq e r(1) Some by (cases x) simp_all
      qed
    next
      case (seq_star q' t)
      then have kq: "k = CHR ''*''" "q' = q" using item(1) by auto
      obtain ps where ps: "m_reps P T n ms p s 1 = Some ps" "\<forall>u \<in> set ps. u \<le> length T" "t \<le> length T" "t = s \<or> t \<in> set ps"
        using reps [OF seq_star(3), of 1] kq by auto
      obtain e ms' where "m_seq P T n ms q pend t = Some (Some e, ms')" using rest [of t] seq_star kq ps(3) by auto
      then have "\<exists>e ms'. m_try P T n ms q pend (rev (s # ps)) = Some (Some e, ms')"
        by (intro try_finds [of _ P T n ms q pend t]) (use total ps less(3) in auto)
      then show ?thesis using eq kq ps(1) by simp
    next
      case (seq_plus q' t)
      then have kq: "k = CHR ''+''" "q' = q" using item(1) by auto
      obtain ps where ps: "m_reps P T n ms p s 0 = Some ps" "\<forall>u \<in> set ps. u \<le> length T" "t \<le> length T" "t \<in> set ps"
        using reps [OF seq_plus(3), of 0] kq by auto
      obtain e ms' where "m_seq P T n ms q pend t = Some (Some e, ms')" using rest [of t] seq_plus kq ps(3) by auto
      then have "\<exists>e ms'. m_try P T n ms q pend (rev ps) = Some (Some e, ms')"
        by (intro try_finds [of _ P T n ms q pend t]) (use total ps less(3) in auto)
      then show ?thesis using eq kq ps(1) by simp
    qed (use True in simp)
  qed (use depth in \<open>auto simp: m_seq.simps\<close>)
qed

lemma find_top_alt_bar: "find_top_alt P depth p pend = Some (Some b) \<Longrightarrow> c_at P b = Some (CHR ''|'')"
proof (induction P depth p pend rule: find_top_alt.induct)
  case (1 P depth p pend)
  have p: "p < pend" using "1.prems" by (cases "p < pend") (simp_all add: find_top_alt.simps [of P depth p pend])
  then obtain c where c: "c_at P p = Some c" using "1.prems" by (cases "c_at P p") (simp_all add: find_top_alt.simps [of P depth p pend])
  show ?case using "1.prems" "1.IH" [OF p c] p c
    by (subst (asm) find_top_alt.simps) (auto simp: fault_simps split: if_splits)
qed

definition bars :: "string \<Rightarrow> nat \<Rightarrow> nat" where
  "bars P p = count_list (drop p P) (CHR ''|'')"

lemma bars_next:
  assumes "c_at P b = Some (CHR ''|'')" "p \<le> b"
  shows "bars P (b + 1) < bars P p"
proof -
  have b: "b < length P" "P ! b = CHR ''|''" using assms(1) by (auto simp: c_at_def split: if_splits)
  then have "drop b P = CHR ''|'' # drop (b + 1) P" using Cons_nth_drop_Suc [OF b(1)] by simp
  then have "bars P b = bars P (b + 1) + 1" by (simp add: bars_def)
  moreover have "drop p P = take (b - p) (drop p P) @ drop b P" using assms(2) append_take_drop_id [of "b - p" "drop p P"] by simp
  then have "bars P b \<le> bars P p" unfolding bars_def by (metis count_list_append le_add2)
  ultimately show ?thesis by simp
qed

lemma alt_complete:
  assumes ok: "c_str P" "c_str T" "n < RE_MAXGROUPS" and free: "CHR ''('' \<notin> set P" and len: "length T < RE_MAXREPS"
    and pend: "pend \<le> length P" and s: "s \<le> length T"
  shows "alt_match P T p pend s s' \<Longrightarrow> rx_sized ms \<Longrightarrow> rx_depth ms + bars P p < RE_MAXDEPTH \<Longrightarrow> \<exists>e ms'. m_alt P T n ms p pend s = Some (Some e, ms')"
proof (induction "bars P p" arbitrary: p ms rule: less_induct)
  case less
  let ?ms = "ms\<lparr>rx_depth := rx_depth ms + 1\<rparr>"
  have depth: "rx_depth ms \<le> RE_MAXDEPTH" "rx_depth ?ms \<le> RE_MAXDEPTH" using less(4) by auto
  have sized: "rx_sized ?ms" using less(3) by simp
  note seq = seq_complete [OF ok free len _ depth(2) sized _ s]
  from less(2) show ?case
  proof (cases rule: alt_match.cases)
    case alt_only
    then obtain e ms' where "m_seq P T n ?ms p pend s = Some (Some e, ms')" using seq [OF pend] by blast
    then show ?thesis using alt_only(1) depth(1) by (subst m_alt.simps) simp
  next
    case (alt_left b)
    then have "b \<le> length P" using find_top_alt_in by blast
    then obtain e ms' where "m_seq P T n ?ms p b s = Some (Some e, ms')" using seq alt_left(2) by blast
    then show ?thesis using alt_left(1) depth(1) by (subst m_alt.simps) simp
  next
    case (alt_right b)
    then have b: "p \<le> b" "b \<le> length P" "bars P (b + 1) < bars P p"
      using find_top_alt_in bars_next [OF find_top_alt_bar] by blast+
    obtain r ms1 where left: "m_seq P T n ?ms p b s = Some (r, ms1)" using matcher_good [OF ok b(2) s sized, of p] by (auto simp: tot_def)
    obtain e ms2 where right: "m_alt P T n ?ms (b + 1) pend s = Some (Some e, ms2)"
      using less(1) [OF b(3) alt_right(2) sized] less(4) b(3) by auto
    show ?thesis using alt_right(1) depth(1) left right by (subst m_alt.simps) (auto split: option.split)
  qed
qed

lemma attempt_complete:
  assumes "c_str (re_pattern re)" "c_str T" "CHR ''('' \<notin> set (re_pattern re)" "length T < RE_MAXREPS"
    and "bars (re_pattern re) 0 < RE_MAXDEPTH" "s \<le> length T"
  shows "attempt re T s = None \<longleftrightarrow> (\<forall>e. \<not> alt_match (re_pattern re) T 0 (length (re_pattern re)) s e)"
proof -
  obtain ms where run: "m_alt (re_pattern re) T (min (re_nsub re) (RE_MAXGROUPS - 1)) rx_initial 0 (length (re_pattern re)) s = Some (attempt re T s, ms)"
      "good T (alt_match (re_pattern re) T 0 (length (re_pattern re)) s) s rx_initial (attempt re T s, ms)"
    using attempt_run [OF assms(1,2,6)] by blast
  have "\<exists>e. attempt re T s = Some e" if "alt_match (re_pattern re) T 0 (length (re_pattern re)) s e" for e
    using alt_complete [OF assms(1,2) _ assms(3,4) order_refl assms(6) that rx_initial_sized, of "min (re_nsub re) (RE_MAXGROUPS - 1)"] run(1) assms(5)
    by (auto simp: rx_initial_def)
  then show ?thesis using run(2) by (cases "attempt re T s") (auto simp: good_def)
qed

section \<open>Searching\<close>

definition matches :: "regex_t \<Rightarrow> string \<Rightarrow> nat \<Rightarrow> nat \<Rightarrow> bool" where
  "matches re T b e \<longleftrightarrow> alt_match (re_pattern re) T 0 (length (re_pattern re)) b e"

text \<open>C38. The matcher is safe for every pattern, also a malformed one: on C strings it always returns and never reads outside
  the pattern, the text or its table of groups. What it reports is a match of the pattern, and the match and every
  group lie in the text or are unset.\<close>

theorem regexec_stays_inside:
  assumes "c_str (re_pattern re)" "c_str T"
  shows "regexec re T nmatch = Some None \<or>
    (\<exists>caps b e. regexec re T nmatch = Some (Some caps) \<and> length caps = nmatch \<and> matches re T b e \<and> b \<le> e \<and> e \<le> length T \<and>
       (0 < nmatch \<longrightarrow> caps ! 0 = (int b, int e)) \<and>
       (\<forall>(a, z) \<in> set caps. a = -1 \<and> z = -1 \<or> 0 \<le> a \<and> a \<le> z \<and> z \<le> int (length T)))"
proof -
  obtain r where r: "regexec re T nmatch = Some r" and caps: "\<And>caps. r = Some caps \<Longrightarrow> reports re T nmatch 0 caps"
    using regexec_from_result [OF assms, of 0 nmatch] by (fastforce simp: tot_def regexec_def split: option.splits)
  show ?thesis
  proof (cases r)
    case (Some c)
    then show ?thesis using r caps [OF Some] by (auto simp: reports_def matches_def in_text_def list_all_iff)
  qed (use r in simp)
qed

lemma regexec_stays_inside_witness:
  "regexec \<lparr>re_pattern = ''(a*)[b'', re_nsub = 1\<rparr> ''xaab'' 2 = Some (Some [(1, 4), (1, 3)]) \<and>
   (\<exists>caps b e. regexec \<lparr>re_pattern = ''(a*)[b'', re_nsub = 1\<rparr> ''xaab'' 2 = Some (Some caps) \<and>
     matches \<lparr>re_pattern = ''(a*)[b'', re_nsub = 1\<rparr> ''xaab'' b e \<and> caps ! 0 = (int b, int e))"
proof -
  have run: "regexec \<lparr>re_pattern = ''(a*)[b'', re_nsub = 1\<rparr> ''xaab'' 2 = Some (Some [(1, 4), (1, 3)])" by code_simp
  then show ?thesis using regexec_stays_inside [of "\<lparr>re_pattern = ''(a*)[b'', re_nsub = 1\<rparr>" "''xaab''" 2] by (auto simp: c_str_def)
qed

text \<open>C39. Without groups the search is complete and leftmost: if the pattern has no group and fewer than 200 bars and the text
  has fewer than 4096 characters, \<open>REG_NOMATCH\<close> means that the pattern matches nowhere in the text, and a reported match
  starts where no earlier start has a match.\<close>

theorem regexec_leftmost:
  assumes "c_str (re_pattern re)" "c_str T" "CHR ''('' \<notin> set (re_pattern re)" "length T < RE_MAXREPS"
    and "count_list (re_pattern re) (CHR ''|'') < RE_MAXDEPTH"
  shows "regexec re T 1 = Some None \<and> (\<forall>b e. b \<le> length T \<longrightarrow> \<not> matches re T b e) \<or>
    (\<exists>b e. regexec re T 1 = Some (Some [(int b, int e)]) \<and> matches re T b e \<and> (\<forall>t e'. t < b \<longrightarrow> \<not> matches re T t e'))"
proof -
  have found: "attempt re T s = None \<longleftrightarrow> (\<forall>e. \<not> matches re T s e)" if "s \<le> length T" for s
    using attempt_complete [OF assms(1-4) _ that] assms(5) by (simp add: matches_def bars_def)
  obtain r where r: "regexec re T 1 = Some r" 
      and res: "case r of None \<Rightarrow> \<forall>t. 0 \<le> t \<and> t \<le> length T \<longrightarrow> attempt re T t = None | Some caps \<Rightarrow> reports re T 1 0 caps"
    using regexec_from_result [OF assms(1,2), of 0 1] unfolding tot_def regexec_def by blast
  show ?thesis
  proof (cases r)
    case None
    then show ?thesis using r res found by simp
  next
    case (Some caps)
    then obtain b e where c: "length caps = 1" "caps ! 0 = (int b, int e)" "matches re T b e" "b \<le> e" "e \<le> length T"
        "\<And>t. t < b \<Longrightarrow> attempt re T t = None"
      using res by (auto simp: reports_def matches_def)
    then have "caps = [(int b, int e)]" by (cases caps) auto
    moreover have "\<not> matches re T t e'" if "t < b" for t e' using c(4,5) c(6) [OF that] found [of t] that by simp
    ultimately show ?thesis using r Some c(3) by blast
  qed
qed

lemma regexec_leftmost_witness:
  "regexec \<lparr>re_pattern = ''b+c|d'', re_nsub = 0\<rparr> ''abbcd'' 1 = Some (Some [(1, 4)]) \<and>
   \<not> (\<exists>e. matches \<lparr>re_pattern = ''b+c|d'', re_nsub = 0\<rparr> ''abbcd'' 0 e)"
proof -
  have run: "regexec \<lparr>re_pattern = ''b+c|d'', re_nsub = 0\<rparr> ''abbcd'' 1 = Some (Some [(1, 4)])" by code_simp
  then show ?thesis using regexec_leftmost [of "\<lparr>re_pattern = ''b+c|d'', re_nsub = 0\<rparr>" "''abbcd''"] by (auto simp: c_str_def)
qed

section \<open>Limits of the matcher\<close>

lemma class_rest_unclosed: "c_str P \<Longrightarrow> CHR '']'' \<notin> set P \<Longrightarrow> p \<le> length P \<Longrightarrow> class_rest P p = Some (length P)"
proof (induction P p rule: class_rest.induct)
  case (1 P p)
  obtain c where c: "c_at P p = Some c" "c \<noteq> NUL \<longleftrightarrow> p < length P" using c_at_cases [OF "1.prems"(1,3)] by blast
  show ?case
  proof (cases "p < length P")
    case True
    then have n: "\<not> (c = NUL \<or> c = CHR '']'')" using c "1.prems"(2) by (auto simp: c_at_def in_set_conv_nth)
    obtain d where d: "c_at P (p + 1) = Some d" "d \<noteq> NUL \<longleftrightarrow> p + 1 < length P" using c_at_cases [OF "1.prems"(1), of "p + 1"] True by auto
    let ?d = "if c = BSL then d else NUL"
    have x: "(if c = BSL then c_at P (p + 1) else Some NUL) = Some ?d" using d by simp
    have "class_rest P (if ?d \<noteq> NUL then p + 2 else p + 1) = Some (length P)"
      by (rule "1.IH" [OF c(1) n x "1.prems"(1,2)]) (use True d in auto)
    then show ?thesis using c n x by (subst class_rest.simps) auto
  qed (use c "1.prems"(3) in \<open>subst class_rest.simps; simp\<close>)
qed

text \<open>Compiling a pattern that opens a class and does not close it reads behind the pattern: whatever follows the bracket, the
  scan for groups goes on one byte after the terminating zero.\<close>

theorem regcomp_unclosed_class_overreads:
  assumes "c_str s" "CHR '']'' \<notin> set s"
  shows "regcomp (CHR ''['' # s) = None"
proof -
  let ?P = "CHR ''['' # s"
  have P: "c_str ?P" "CHR '']'' \<notin> set ?P" using assms by (auto simp: c_str_def)
  obtain c where c: "c_at ?P 1 = Some c" using c_at_in [of 1 ?P] by auto
  let ?p = "if c = CHR ''^'' then 2 else 1"
  have p: "?p \<le> length ?P" using c by (cases s) (auto simp: c_at_def)
  obtain d where d: "c_at ?P ?p = Some d" using c_at_in [OF p] by blast
  then have "d \<noteq> CHR '']''" using P(2) c_at_Some [OF d] by (auto simp: c_at_def in_set_conv_nth split: if_splits)
  then have "class_end ?P 1 = Some (length ?P)"
    using class_rest_unclosed [OF P p] c d by (simp add: class_end_def Let_def numeral_2_eq_2 split: if_splits)
  moreover have "count_groups ?P 0 (length ?P + 1) = None" by (subst count_groups.simps) (simp add: c_at_def)
  moreover have "c_at ?P 0 = Some (CHR ''['')" by (simp add: c_at_def)
  ultimately have "count_groups ?P 0 0 = None" by (subst count_groups.simps) simp
  then show ?thesis by (simp add: regcomp_def)
qed

text \<open>A group is not entered a second time: after its first alternative has matched, the others are not tried.\<close>

lemma group_alternatives_not_retried:
  "regexec \<lparr>re_pattern = ''(a|ab)c'', re_nsub = 1\<rparr> ''abc'' 2 = Some None"
  by code_simp

text \<open>Neither is a repetition inside a group shortened, and a repeated group that can match nothing is not repeated at all.\<close>

lemma group_repetition_not_shortened:
  "regexec \<lparr>re_pattern = ''(a*)ab'', re_nsub = 1\<rparr> ''aab'' 2 = Some None"
  "regexec \<lparr>re_pattern = ''(a?)+b'', re_nsub = 1\<rparr> ''b'' 2 = Some None"
  by code_simp+

text \<open>The groups of a repeated atom are not reported, and the first alternative wins over a longer one.\<close>

lemma repeated_groups_lost:
  "regexec \<lparr>re_pattern = ''(ab)+'', re_nsub = 1\<rparr> ''abab'' 2 = Some (Some [(0, 4), (-1, -1)])"
  "regexec \<lparr>re_pattern = ''a|ab'', re_nsub = 0\<rparr> ''ab'' 1 = Some (Some [(0, 1)])"
  by code_simp+

end
