(* ===== verification/Spec2Isabelle.thy ===== *)
theory Spec2Isabelle
  imports Handle_Table Mem_Ctrl Spin_Lock Obj_Ops Dense_Array Globals Value_Text Lexer Json_Codec Csv_Codec Disasm Vm_Loops Vm_Enter Parser_Total Regex_Find
begin

text \<open>
  A verification library for the CanDo scripting runtime (C sources under \<open>src/source\<close>).

  \<^bold>\<open>The program.\<close> A script is text. The scanner (\<open>parser/lexer.c\<close>) cuts it into tokens, the compiler
  (\<open>parser/parser.c\<close>) turns the tokens, in one pass and without a syntax tree, into the bytes of a chunk
  (\<open>vm/chunk.c\<close>, instruction set in \<open>vm/opcodes.h\<close>), and the machine (\<open>vm/vm.c\<close>) runs the chunk on a stack of
  values. Values are tagged unions (\<open>core/value.c\<close>); strings are reference counted; objects and arrays are
  behind handles (\<open>core/handle.c\<close>), live in the object layer (\<open>object/*.c\<close>), have a lock each
  (\<open>core/lock.c\<close>) and cross between the machine and the object layer by \<open>vm/bridge.c\<close>. The block
  allocator with its collector is \<open>core/memory.c\<close>. Native libraries (\<open>lib/*.c\<close>) are called by the machine
  with a window of its stack.

  \<^bold>\<open>Foundations.\<close>
  \<^item> \<open>Prelude\<close>: checked access to memory and arrays (a fault is \<open>None\<close>), the collections of rules, and the locale
    \<open>step_invariant\<close> of invariants of step relations.
  \<^item> \<open>Float64\<close>, \<open>Float_Nat\<close>, \<open>C_Format\<close>: the type \<open>double\<close> as its 64 bits with the operations the sources use,
    written out to the bit; the order and the successor of the naturals in it; the formats of \<open>printf\<close> and
    \<open>strtod\<close>. These are the language and its library.
  \<^item> \<open>Ref_Store\<close>, \<open>Map_Store\<close>, \<open>Open_Addressing\<close>: the contracts that several components share. \<open>ref_store\<close> (copying
    and releasing counted values keeps every count exact) is interpreted by the values of the machine
    (\<open>Core_Value\<close>) and of the object layer (\<open>Cdo_String\<close>); \<open>map_store\<close> (an assignment acts on its key alone or is
    refused; a frozen key never changes) by object fields (\<open>Obj_Table\<close>) and globals (\<open>Globals\<close>).

  \<^bold>\<open>Core and object layer.\<close>
  \<^item> \<open>Handle_Table\<close> (\<open>core/handle.c\<close>): slots and free list. Allocation and release refine a map from indices; the locale
    \<open>handle_store\<close> states it for clients.
  \<^item> \<open>Mem_Ctrl\<close> (\<open>core/memory.c\<close>): blocks, roots, mark and sweep. A collection keeps exactly the roots. A fresh
    address of \<open>malloc\<close> is an argument.
  \<^item> \<open>Spin_Lock\<close> (\<open>core/lock.c\<close>): one rule per atomic operation of each thread, any interleaving, any number of threads;
    mutual exclusion, the assertions, and absence of deadlock.
  \<^item> \<open>Core_Value\<close>, \<open>Cdo_String\<close> (\<open>core/value.c\<close>, \<open>object/string.c\<close>, \<open>object/value.c\<close>): values, counted strings, cached
    hashes, interning. \<open>Value_Text\<close>: their text.
  \<^item> \<open>Obj_Table\<close>, \<open>Obj_Ops\<close> (\<open>object/object.c\<close>, \<open>class.c\<close>, \<open>function.c\<close>): the open addressing table of fields with
    tombstones and insertion order, flags, prototypes, iteration, destruction, meta keys. The table refines a list of
    fields.
  \<^item> \<open>Dense_Array\<close> (\<open>object/array.c\<close>): cells, capacity, insertion and removal refine lists.

  \<^bold>\<open>Front end.\<close>
  \<^item> \<open>Lexer\<close> (\<open>parser/lexer.c\<close>): every function over the source as a list of bytes. Scanning is exact, ends, and inverts
    spelling.
  \<^item> \<open>Parser_Core\<close>, \<open>Parser_Expr\<close>, \<open>Parser_Stmt\<close> (\<open>parser/parser.c\<close>): the compiler state of \<open>parser.h\<close> and every
    function. \<open>None\<close> is a failed assertion or a write outside the fixed arrays. The functions of the source call each
    other in circles; the calls that close a circle go through the record \<open>parse_calls\<close>, whose argument is fuel.
  \<^item> \<open>Parser_Safe\<close>: what the compiler keeps true while it emits, with a rule per primitive. Every source byte pays for at
    most 81 bytes of code and 3 constants, so a source of at most 21845 bytes cannot overflow the pool of 65535
    constants. \<open>Parser_Calls\<close> states the promise of the functions as the locale \<open>parser_calls\<close>, \<open>Parser_Exprs\<close> and
    \<open>Parser_Stmts\<close> prove it once for every function inside the locale, and \<open>Parser_Total\<close> interprets the locale on
    \<open>parse_calls (2 * R + 2)\<close> by induction on the number \<open>R\<close> of bytes that are left: each call consumes a byte within
    two rounds, so that fuel of twice the length plus two is always enough.
  \<^item> \<open>Opcodes\<close>, \<open>Chunk\<close>, \<open>Disasm\<close> (\<open>vm/opcodes.c\<close>, \<open>vm/chunk.c\<close>, \<open>vm/debug.c\<close>): the instruction set as numbers, the
    encoding, patching of jumps, the constant pool, the disassembler.

  \<^bold>\<open>Machine.\<close> The state \<open>vm\<close> (\<open>Vm_State\<close>) is the record of \<open>vm/vm.h\<close>: the stack, frames, handlers of exceptions, loops
  and open upvalues with their fixed limits, the globals, the handles, and the heaps of both layers. A handler of an
  opcode is a function that returns \<open>None\<close> for a fault (an access outside what is allocated), and otherwise the state
  and what the dispatch does next.
  \<^item> \<open>Globals\<close>: the table of globals and the registry of natives. \<open>Vm_Init\<close>: setting up and taking down.
  \<^item> \<open>Vm_Data\<close>, \<open>Vm_Multi\<close>, \<open>Vm_Objects\<close>, \<open>Vm_Frames\<close>, \<open>Vm_Control\<close>: one definition per opcode, in the bands of the
    source; \<open>Vm_Calls\<close>: meta-methods and re-entrant calls; \<open>Vm_Run\<close>: fetch, dispatch, unwinding and the loop.
  \<^item> The loop has fuel, which counts instructions. \<open>None\<close> of the loop (\<open>vm_run\<close>) is a fault or the end of the fuel, so a theorem that
    assumes a result of it says nothing about faults; \<open>None\<close> of one instruction is a fault. The properties of the machine are
    about single instructions and about unwinding, and say that these return.
  \<^item> \<open>Vm_Safe\<close> (the instructions on plain values never fault and keep the counts of strings exact), \<open>Vm_Enter\<close> (calls and
    returns of script functions, overflow of the frames, closing of upvalues), \<open>Vm_Unwind\<close> (errors reach the innermost handler),
    \<open>Vm_Loops\<close> (\<open>FOR\<close>). They rest on \<open>Vm_Refs\<close> (what an instruction that goes on does to the counts).
  \<^item> \<open>Vm_Fuel\<close> and \<open>Vm_Limits\<close> hold lemmas about runs that complete: the result does not depend on the fuel, and the fixed arrays
    and the code are kept, as far as the parameters for natives and threads keep them (\<open>env_within\<close>). That no instruction overruns
    an array is not true: \<open>OP_THROW\<close> with more than 32 values does, and faults in the model.

  \<^bold>\<open>Libraries.\<close>
  \<^item> \<open>Script_Tree\<close>, \<open>Json_Codec\<close>, \<open>Csv_Codec\<close> (\<open>lib/json.c\<close>, \<open>lib/csv.c\<close>): parsers and writers over trees of values, total
    and inverse to each other.
  \<^item> \<open>Regex\<close> (\<open>compat/win_regex.c\<close>): the backtracking matcher of regular expressions, over indices into the pattern and the
    text; a read behind the terminating zero is a fault, and so is an access outside the tables of groups. It needs no fuel: every call moves on in the pattern or, within an
    item, in the table of 4096 repetitions. \<open>Regex_Safe\<close> defines what a pattern matches (\<open>alt_match\<close>) and shows, for every pattern,
    that the matcher returns, stays inside and reports only matches; \<open>Regex_Find\<close> shows that without groups it finds the
    leftmost start, for texts below 4096 characters and fewer than 200 bars, and by examples where groups break this.

  \<^bold>\<open>Conventions.\<close> Machine integers are words of their width, pointers are natural numbers or indices into the heap of their
  type, a freed cell is absent from its heap, and every dereference checks that the cell is there. Addresses returned by
  \<open>malloc\<close> are arguments or the least unused number; running out of memory is a branch only where the source checks
  for it. Locks inside one operation make the operation one step. Native functions and the two opcodes that act on
  other threads are parameters of the machine; the theorems say what they assume of them.

  \<^bold>\<open>Not modelled.\<close> Threads of the operating system (\<open>object/thread.c\<close>, \<open>lib/thread.c\<close>, \<open>core/thread_platform.c\<close>; \<open>OP_THREAD\<close>
  and \<open>OP_AWAIT\<close> are parameters); the libraries that do input and output or call the operating system and OpenSSL
  (HTTP, files, processes, sockets, dates, cryptography, evaluation and inclusion of files); the natives of the array, object,
  mathematics and string libraries, whose work is done by the modelled operations or by the C library; the depth of the
  C stack; and the glue in
  \<open>main.c\<close>, \<open>natives.c\<close> and \<open>cando_lib.c\<close>.
\<close>

end
